(* ===== verification/Prelude.thy ===== *)
theory Prelude
  imports Main "HOL-Library.Word"
begin

text \<open>
  Shared vocabulary of the development.

  The code under src/ is C and C++.  A computation that can fail is a value of
  \<open>'a res\<close>: \<open>Inr x\<close> is a normal return, \<open>Inl e\<close> says how the
  code gives up.  \<open>OutOfMemory\<close> is the NULL return after an allocator refused a
  request, which the code handles; the other faults are behaviour the code does not
  handle (a read or write outside an object, a failed \<open>assert\<close>, a dereferenced null
  or dangling pointer, a variable read before it is written, a variadic argument of the wrong
  type, a loop that never ends) and the exceptions the C++ code throws, by their error code, so a
  theorem that an operation returns \<open>Inr\<close> is also a theorem that it stays inside its memory and returns.

  Memory reachable from a \<open>char *\<close> is the list of bytes from that address to the end
  of the object it points into; a C string is such a list with a NUL in it.
\<close>

section \<open>Faults and results\<close>

datatype fault = OutOfMemory | OutOfBounds | AssertFailed | NullPointer | BadVarArg | UseAfterFree | Uninitialised | Exception nat | Diverges

type_synonym 'a res = "fault + 'a"

definition bindR :: "'a res \<Rightarrow> ('a \<Rightarrow> 'b res) \<Rightarrow> 'b res" where
  "bindR r f = (case r of Inl e \<Rightarrow> Inl e | Inr x \<Rightarrow> f x)"

definition assertR :: "bool \<Rightarrow> unit res" where
  "assertR b = (if b then Inr () else Inl AssertFailed)"

text \<open>The result, if any, satisfies \<open>P\<close>, and the only fault is a refused allocation.\<close>

definition returns :: "'a res \<Rightarrow> ('a \<Rightarrow> bool) \<Rightarrow> bool" where
  "returns r P = (case r of Inl e \<Rightarrow> e = OutOfMemory | Inr x \<Rightarrow> P x)"

lemma bindR_simps [simp]:
  "bindR (Inl e) f = Inl e"
  "bindR (Inr x) f = f x"
  by (simp_all add: bindR_def)

lemma bindR_eq_Inr: "bindR r f = Inr y \<longleftrightarrow> (\<exists>x. r = Inr x \<and> f x = Inr y)"
  by (cases r) auto

lemma bindR_assoc: "bindR (bindR m f) g = bindR m (\<lambda>x. bindR (f x) g)"
  by (cases m) simp_all

lemma bindR_cong [fundef_cong]:
  "r = r' \<Longrightarrow> (\<And>x. r' = Inr x \<Longrightarrow> f x = f' x) \<Longrightarrow> bindR r f = bindR r' f'"
  by (cases r') auto

lemma assertR_simps [simp]: "assertR True = Inr ()" "assertR False = Inl AssertFailed"
  by (simp_all add: assertR_def)

lemma returns_simps [simp]:
  "returns (Inr x) P = P x"
  "returns (Inl e) P = (e = OutOfMemory)"
  by (simp_all add: returns_def)

lemma returns_bind:
  "returns r Q \<Longrightarrow> (\<And>x. r = Inr x \<Longrightarrow> Q x \<Longrightarrow> returns (f x) P) \<Longrightarrow> returns (bindR r f) P"
  by (cases r) auto

lemma returns_mono: "returns r Q \<Longrightarrow> (\<And>x. Q x \<Longrightarrow> P x) \<Longrightarrow> returns r P"
  by (cases r) auto

lemma returnsD: "returns r P \<Longrightarrow> r = Inr x \<Longrightarrow> P x"
  by simp

text \<open>
  A call whose NULL return the caller does not test: the next use dereferences it.
\<close>

definition bind_unchecked :: "'a res \<Rightarrow> ('a \<Rightarrow> 'b res) \<Rightarrow> 'b res" where
  "bind_unchecked r f =
     (case r of Inl OutOfMemory \<Rightarrow> Inl NullPointer | Inl e \<Rightarrow> Inl e | Inr x \<Rightarrow> f x)"

lemma bind_unchecked_Inr [simp]: "bind_unchecked (Inr x) f = f x"
  by (simp add: bind_unchecked_def)

text \<open>The computation succeeds, with a result that satisfies \<open>P\<close>.\<close>

definition succeeds :: "'a res \<Rightarrow> ('a \<Rightarrow> bool) \<Rightarrow> bool" where
  "succeeds r P = (case r of Inl e \<Rightarrow> False | Inr x \<Rightarrow> P x)"

lemma succeeds_simps [simp]: "succeeds (Inr x) P = P x" "succeeds (Inl e) P = False"
  by (simp_all add: succeeds_def)

lemma succeeds_iff: "succeeds r P \<longleftrightarrow> (\<exists>x. r = Inr x \<and> P x)"
  by (cases r) auto

lemma succeedsI: "returns r P \<Longrightarrow> r \<noteq> Inl OutOfMemory \<Longrightarrow> succeeds r P"
  by (cases r) auto

lemma succeeds_bind:
  "succeeds r Q \<Longrightarrow> (\<And>x. r = Inr x \<Longrightarrow> Q x \<Longrightarrow> succeeds (f x) P) \<Longrightarrow> succeeds (bindR r f) P"
  by (cases r) auto

lemma succeeds_bind_unchecked:
  "succeeds r Q \<Longrightarrow> (\<And>x. Q x \<Longrightarrow> succeeds (f x) P) \<Longrightarrow> succeeds (bind_unchecked r f) P"
  by (cases r) auto

lemma succeeds_mono: "succeeds r Q \<Longrightarrow> (\<And>x. Q x \<Longrightarrow> P x) \<Longrightarrow> succeeds r P"
  by (cases r) auto

lemma bindR_not_oom:
  "r \<noteq> Inl OutOfMemory \<Longrightarrow> (\<And>x. f x \<noteq> Inl OutOfMemory) \<Longrightarrow> bindR r f \<noteq> Inl OutOfMemory"
  by (cases r) auto

section \<open>Memory\<close>

abbreviation NUL :: char where "NUL \<equiv> CHR 0x00"

text \<open>The byte value of a character.\<close>

abbreviation ord :: "char \<Rightarrow> nat" where "ord c \<equiv> of_char c"

definition mem_read :: "char list \<Rightarrow> nat \<Rightarrow> nat \<Rightarrow> char list res" where
  "mem_read buf off n =
     (if off + n \<le> length buf then Inr (take n (drop off buf)) else Inl OutOfBounds)"

definition mem_write :: "char list \<Rightarrow> nat \<Rightarrow> char list \<Rightarrow> char list res" where
  "mem_write buf off xs =
     (if off + length xs \<le> length buf
      then Inr (take off buf @ xs @ drop (off + length xs) buf) else Inl OutOfBounds)"

lemma mem_not_oom [simp]:
  "mem_read buf off n \<noteq> Inl OutOfMemory" "mem_write buf off xs \<noteq> Inl OutOfMemory"
  by (simp_all add: mem_read_def mem_write_def)

lemma mem_read_eq_Inr [simp]:
  "mem_read buf off n = Inr xs \<longleftrightarrow> off + n \<le> length buf \<and> xs = take n (drop off buf)"
  by (auto simp: mem_read_def)

lemma mem_write_eq_Inr [simp]:
  "mem_write buf off xs = Inr buf' \<longleftrightarrow>
     off + length xs \<le> length buf \<and> buf' = take off buf @ xs @ drop (off + length xs) buf"
  by (auto simp: mem_write_def)

text \<open>\<open>strlen\<close>: the bytes before the first NUL; without one it runs off the object.\<close>

definition c_strlen :: "char list \<Rightarrow> nat res" where
  "c_strlen p =
     (let n = length (takeWhile (\<lambda>c. c \<noteq> NUL) p) in if n < length p then Inr n else Inl OutOfBounds)"

definition cstr :: "string \<Rightarrow> char list" where
  "cstr t = t @ [NUL]"

definition nul_free :: "string \<Rightarrow> bool" where
  "nul_free t \<longleftrightarrow> NUL \<notin> set t"

lemma c_strlen_cstr [simp]: "nul_free t \<Longrightarrow> c_strlen (cstr t) = Inr (length t)"
  by (auto simp: c_strlen_def cstr_def nul_free_def takeWhile_append Let_def)

lemma length_cstr [simp]: "length (cstr t) = Suc (length t)"
  by (simp add: cstr_def)

lemma take_cstr [simp]: "take (length t) (cstr t) = t"
  by (simp add: cstr_def)

section \<open>The allocator and machine sizes\<close>

text \<open>
  \<open>malloc\<close> belongs to the C library: it is a parameter that maps a size to the (arbitrary)
  contents of the new block, or to \<open>None\<close> when it refuses.  \<open>good_allocator\<close> is what the
  code relies on: a granted block has the requested size.
\<close>

type_synonym allocator = "nat \<Rightarrow> char list option"

definition good_allocator :: "allocator \<Rightarrow> bool" where
  "good_allocator m \<longleftrightarrow> (\<forall>n b. m n = Some b \<longrightarrow> length b = n)"

lemma good_allocatorD: "good_allocator m \<Longrightarrow> m n = Some b \<Longrightarrow> length b = n"
  by (simp add: good_allocator_def)

text \<open>An allocator that never refuses, used by the witnesses.\<close>

definition zero_alloc :: allocator where
  "zero_alloc n = Some (replicate n NUL)"

lemma good_zero_alloc [simp]: "good_allocator zero_alloc"
  by (auto simp: good_allocator_def zero_alloc_def)

text \<open>An allocator that grants every request.\<close>

definition total_allocator :: "allocator \<Rightarrow> bool" where
  "total_allocator m \<longleftrightarrow> good_allocator m \<and> (\<forall>n. m n \<noteq> None)"

lemma total_good [simp]: "total_allocator m \<Longrightarrow> good_allocator m"
  by (simp add: total_allocator_def)

lemma total_zero_alloc [simp]: "total_allocator zero_alloc"
  by (simp add: total_allocator_def) (simp add: zero_alloc_def)

definition size_t :: "nat \<Rightarrow> nat" where
  "size_t n = n mod 2 ^ 64"

lemma size_t_id [simp]: "n < 2 ^ 64 \<Longrightarrow> size_t n = n"
  by (simp add: size_t_def)

text \<open>Subtraction on \<open>size_t\<close>.\<close>

definition usub :: "nat \<Rightarrow> nat \<Rightarrow> nat" where
  "usub a b = size_t (a + 2 ^ 64 - b)"

lemma usub_le [simp]: "b \<le> a \<Longrightarrow> a < 2 ^ 64 \<Longrightarrow> usub a b = a - b"
proof -
  assume "b \<le> a" "a < 2 ^ 64"
  then have "a + 2 ^ 64 - b = (a - b) + 2 ^ 64" "a - b < 2 ^ 64" by auto
  then show ?thesis unfolding usub_def size_t_def by (simp only: mod_add_self2 mod_less)
qed

text \<open>Conversion of a mathematical integer to a C \<open>int\<close> or \<open>long long\<close>.\<close>

definition to_int :: "int \<Rightarrow> int" where
  "to_int i = signed_take_bit 31 i"

definition to_llong :: "int \<Rightarrow> int" where
  "to_llong i = signed_take_bit 63 i"

lemma to_int_id [simp]: "- (2 ^ 31) \<le> i \<Longrightarrow> i < 2 ^ 31 \<Longrightarrow> to_int i = i"
  by (simp add: to_int_def signed_take_bit_int_eq_self)

lemma to_llong_id [simp]: "- (2 ^ 63) \<le> i \<Longrightarrow> i < 2 ^ 63 \<Longrightarrow> to_llong i = i"
  by (simp add: to_llong_def signed_take_bit_int_eq_self)

end
