(* ===== verification/Sds.thy ===== *)
theory Sds
  imports Prelude
begin

text \<open>
  The dynamic strings of src/redis/sds.c and src/redis/sds.h.

  A \<open>char *\<close> of type \<open>sds\<close> points behind a header whose layout depends on the type
  tag in its flags byte.  The model keeps the header fields and the bytes from the string
  pointer to the end of the block.  \<open>sds_alloc\<close> has no meaning for \<open>SDS_TYPE_5\<close>, whose
  header is the flags byte alone.  Every store to a length field truncates to the width the
  header has, as in the C code.
\<close>

section \<open>Layout\<close>

datatype sdstype = SDS_TYPE_5 | SDS_TYPE_8 | SDS_TYPE_16 | SDS_TYPE_32 | SDS_TYPE_64

record sds =
  sds_type :: sdstype
  sds_len :: nat
  sds_alloc :: nat
  sds_buf :: "char list"

text \<open>Width in bits of the length field of each header.\<close>

primrec hdr_bits :: "sdstype \<Rightarrow> nat" where
  "hdr_bits SDS_TYPE_5 = 5"
| "hdr_bits SDS_TYPE_8 = 8"
| "hdr_bits SDS_TYPE_16 = 16"
| "hdr_bits SDS_TYPE_32 = 32"
| "hdr_bits SDS_TYPE_64 = 64"

primrec sdsHdrSize :: "sdstype \<Rightarrow> nat" where
  "sdsHdrSize SDS_TYPE_5 = 1"
| "sdsHdrSize SDS_TYPE_8 = 3"
| "sdsHdrSize SDS_TYPE_16 = 5"
| "sdsHdrSize SDS_TYPE_32 = 9"
| "sdsHdrSize SDS_TYPE_64 = 17"

definition sdsReqType :: "nat \<Rightarrow> sdstype" where
  "sdsReqType string_size =
     (if string_size < 32 then SDS_TYPE_5
      else if string_size < 0xff then SDS_TYPE_8
      else if string_size < 0xffff then SDS_TYPE_16
      else if string_size < 0xffffffff then SDS_TYPE_32
      else SDS_TYPE_64)"

definition SDS_MAX_PREALLOC :: nat where
  "SDS_MAX_PREALLOC = 1024 * 1024"

definition sdslen :: "sds \<Rightarrow> nat" where
  "sdslen s = sds_len s"

definition sdsavail :: "sds \<Rightarrow> nat" where
  "sdsavail s = (if sds_type s = SDS_TYPE_5 then 0 else sds_alloc s - sds_len s)"

definition sdsalloc :: "sds \<Rightarrow> nat" where
  "sdsalloc s = (if sds_type s = SDS_TYPE_5 then sds_len s else sds_alloc s)"

definition sdssetlen :: "sds \<Rightarrow> nat \<Rightarrow> sds" where
  "sdssetlen s newlen = s\<lparr>sds_len := newlen mod 2 ^ hdr_bits (sds_type s)\<rparr>"

definition sdsinclen :: "sds \<Rightarrow> nat \<Rightarrow> sds" where
  "sdsinclen s inc = s\<lparr>sds_len := (sds_len s + inc) mod 2 ^ hdr_bits (sds_type s)\<rparr>"

definition sdssetalloc :: "sds \<Rightarrow> nat \<Rightarrow> sds" where
  "sdssetalloc s newlen =
     (if sds_type s = SDS_TYPE_5 then s
      else s\<lparr>sds_alloc := newlen mod 2 ^ hdr_bits (sds_type s)\<rparr>)"

text \<open>Bytes stored through the string pointer, bytes read through it.\<close>

definition sds_store :: "sds \<Rightarrow> nat \<Rightarrow> char list \<Rightarrow> sds res" where
  "sds_store s off xs = bindR (mem_write (sds_buf s) off xs) (\<lambda>b. Inr (s\<lparr>sds_buf := b\<rparr>))"

definition sds_load :: "sds \<Rightarrow> nat \<Rightarrow> nat \<Rightarrow> char list res" where
  "sds_load s off n = mem_read (sds_buf s) off n"

section \<open>Construction\<close>

text \<open>
  \<open>init\<close> is \<open>None\<close> for a null pointer; otherwise \<open>initlen\<close> bytes are copied from it.
\<close>

definition sdsnewlen :: "allocator \<Rightarrow> char list option \<Rightarrow> nat \<Rightarrow> sds res" where
  "sdsnewlen m init initlen =
     (let ty = (if sdsReqType initlen = SDS_TYPE_5 \<and> initlen = 0 then SDS_TYPE_8
                else sdsReqType initlen);
          hdrlen = sdsHdrSize ty
      in case m (size_t (hdrlen + initlen + 1)) of
           None \<Rightarrow> Inl OutOfMemory
         | Some sh \<Rightarrow>
             let sh = (if init = None then replicate (length sh) NUL else sh);
                 s = sdssetalloc (sdssetlen
                       \<lparr>sds_type = ty, sds_len = 0, sds_alloc = 0, sds_buf = drop hdrlen sh\<rparr>
                       initlen) initlen
             in bindR (case init of
                         Some p \<Rightarrow> if initlen \<noteq> 0 then bindR (mem_read p 0 initlen) (sds_store s 0)
                                   else Inr s
                       | None \<Rightarrow> Inr s)
                  (\<lambda>s. sds_store s initlen [NUL]))"

definition sdsempty :: "allocator \<Rightarrow> sds res" where
  "sdsempty m = sdsnewlen m (Some (cstr [])) 0"

definition sdsnew :: "allocator \<Rightarrow> char list option \<Rightarrow> sds res" where
  "sdsnew m init =
     (case init of None \<Rightarrow> sdsnewlen m None 0
      | Some p \<Rightarrow> bindR (c_strlen p) (sdsnewlen m init))"

definition sdsdup :: "allocator \<Rightarrow> sds \<Rightarrow> sds res" where
  "sdsdup m s = sdsnewlen m (Some (sds_buf s)) (sdslen s)"

definition sdsupdatelen :: "sds \<Rightarrow> sds res" where
  "sdsupdatelen s = bindR (c_strlen (sds_buf s)) (\<lambda>reallen. Inr (sdssetlen s reallen))"

definition sdsclear :: "sds \<Rightarrow> sds res" where
  "sdsclear s = sds_store (sdssetlen s 0) 0 [NUL]"

section \<open>Growing and shrinking\<close>

text \<open>
  \<open>realloc\<close> keeps the bytes both blocks share.  The header does not move, so the model
  states it on the part of the block behind the header.
\<close>

definition sds_realloc_body :: "allocator \<Rightarrow> nat \<Rightarrow> char list \<Rightarrow> nat \<Rightarrow> char list res" where
  "sds_realloc_body m hdrlen buf newlen =
     (case m (size_t (hdrlen + newlen + 1)) of
        None \<Rightarrow> Inl OutOfMemory
      | Some b \<Rightarrow> let b = drop hdrlen b in Inr (take (length b) buf @ drop (length buf) b))"

text \<open>A new block with the header of \<open>ty\<close>, the old string and its NUL copied into it.\<close>

definition sds_move :: "allocator \<Rightarrow> sdstype \<Rightarrow> sds \<Rightarrow> nat \<Rightarrow> sds res" where
  "sds_move m ty s newlen =
     (case m (size_t (sdsHdrSize ty + newlen + 1)) of
        None \<Rightarrow> Inl OutOfMemory
      | Some b \<Rightarrow>
          bindR (sds_load s 0 (sdslen s + 1)) (\<lambda>old.
          bindR (sds_store (s\<lparr>sds_type := ty, sds_buf := drop (sdsHdrSize ty) b\<rparr>) 0 old) (\<lambda>s'.
          Inr (sdssetlen s' (sdslen s)))))"

definition sdsMakeRoomFor :: "allocator \<Rightarrow> sds \<Rightarrow> nat \<Rightarrow> sds res" where
  "sdsMakeRoomFor m s addlen =
     (if addlen \<le> sdsavail s then Inr s
      else
        let newlen0 = size_t (sdslen s + addlen);
            newlen = (if newlen0 < SDS_MAX_PREALLOC then newlen0 * 2
                      else size_t (newlen0 + SDS_MAX_PREALLOC));
            ty = (if sdsReqType newlen = SDS_TYPE_5 then SDS_TYPE_8 else sdsReqType newlen)
        in bindR
             (if sds_type s = ty
              then bindR (sds_realloc_body m (sdsHdrSize ty) (sds_buf s) newlen)
                     (\<lambda>b. Inr (s\<lparr>sds_buf := b\<rparr>))
              else sds_move m ty s newlen)
             (\<lambda>s'. Inr (sdssetalloc s' newlen)))"

definition sdsRemoveFreeSpace :: "allocator \<Rightarrow> sds \<Rightarrow> sds res" where
  "sdsRemoveFreeSpace m s =
     (let len = sdslen s; ty = sdsReqType len
      in bindR
           (if sds_type s = ty
            then bindR (sds_realloc_body m (sdsHdrSize ty) (sds_buf s) len)
                   (\<lambda>b. Inr (s\<lparr>sds_buf := b\<rparr>))
            else sds_move m ty s len)
           (\<lambda>s'. Inr (sdssetalloc s' len)))"

definition sdsAllocSize :: "sds \<Rightarrow> nat" where
  "sdsAllocSize s = sdsHdrSize (sds_type s) + sdsalloc s + 1"

text \<open>\<open>incr\<close> is a C \<open>int\<close>; a negative one trims the string on the right.\<close>

definition sdsIncrLen :: "sds \<Rightarrow> int \<Rightarrow> sds res" where
  "sdsIncrLen s incr =
     (let ok = (if sds_type s = SDS_TYPE_5
                then (0 < incr \<and> int (sds_len s) + incr < 32) \<or> (incr < 0 \<and> - incr \<le> int (sds_len s))
                else (0 \<le> incr \<and> incr \<le> int (sds_alloc s) - int (sds_len s)) \<or>
                     (incr < 0 \<and> - incr \<le> int (sds_len s)))
      in bindR (assertR ok) (\<lambda>_.
         let len = nat (int (sds_len s) + incr) mod 2 ^ hdr_bits (sds_type s)
         in sds_store (s\<lparr>sds_len := len\<rparr>) len [NUL]))"

definition sdsgrowzero :: "allocator \<Rightarrow> sds \<Rightarrow> nat \<Rightarrow> sds res" where
  "sdsgrowzero m s len =
     (let curlen = sdslen s
      in if len \<le> curlen then Inr s
         else bindR (sdsMakeRoomFor m s (len - curlen)) (\<lambda>s.
              bindR (sds_store s curlen (replicate (len - curlen + 1) NUL)) (\<lambda>s.
              Inr (sdssetlen s len))))"

section \<open>Copying and appending\<close>

definition sdscatlen :: "allocator \<Rightarrow> sds \<Rightarrow> char list \<Rightarrow> nat \<Rightarrow> sds res" where
  "sdscatlen m s t len =
     (let curlen = sdslen s
      in bindR (sdsMakeRoomFor m s len) (\<lambda>s.
         bindR (mem_read t 0 len) (\<lambda>bytes.
         bindR (sds_store s curlen bytes) (\<lambda>s.
         sds_store (sdssetlen s (curlen + len)) (curlen + len) [NUL]))))"

definition sdscat :: "allocator \<Rightarrow> sds \<Rightarrow> char list \<Rightarrow> sds res" where
  "sdscat m s t = bindR (c_strlen t) (sdscatlen m s t)"

definition sdscatsds :: "allocator \<Rightarrow> sds \<Rightarrow> sds \<Rightarrow> sds res" where
  "sdscatsds m s t = sdscatlen m s (sds_buf t) (sdslen t)"

definition sdscpylen :: "allocator \<Rightarrow> sds \<Rightarrow> char list \<Rightarrow> nat \<Rightarrow> sds res" where
  "sdscpylen m s t len =
     bindR (if sdsalloc s < len then sdsMakeRoomFor m s (len - sdslen s) else Inr s) (\<lambda>s.
     bindR (mem_read t 0 len) (\<lambda>bytes.
     bindR (sds_store s 0 bytes) (\<lambda>s.
     bindR (sds_store s len [NUL]) (\<lambda>s.
     Inr (sdssetlen s len)))))"

definition sdscpy :: "allocator \<Rightarrow> sds \<Rightarrow> char list \<Rightarrow> sds res" where
  "sdscpy m s t = bindR (c_strlen t) (sdscpylen m s t)"


section \<open>Well-formed strings\<close>

text \<open>
  The invariant every operation keeps: the length fits the allocation, the allocation fits
  both the block and the header field, and a NUL follows the string.
\<close>

definition wf_sds :: "sds \<Rightarrow> bool" where
  "wf_sds s \<longleftrightarrow>
     sds_len s \<le> sdsalloc s \<and> sdsalloc s < length (sds_buf s) \<and>
     sdsalloc s < 2 ^ hdr_bits (sds_type s) \<and> sds_buf s ! sds_len s = NUL"

text \<open>The part of it that also holds while a string is under construction.\<close>

definition wf_room :: "sds \<Rightarrow> bool" where
  "wf_room s \<longleftrightarrow>
     sds_len s \<le> sdsalloc s \<and> sdsalloc s < length (sds_buf s) \<and>
     sdsalloc s < 2 ^ hdr_bits (sds_type s)"

text \<open>The string an \<open>sds\<close> stands for.\<close>

definition sds_str :: "sds \<Rightarrow> string" where
  "sds_str s = take (sds_len s) (sds_buf s)"

lemma sds_store_eq_Inr [simp]:
  "sds_store s off xs = Inr s' \<longleftrightarrow>
     off + length xs \<le> length (sds_buf s) \<and>
     s' = s\<lparr>sds_buf := take off (sds_buf s) @ xs @ drop (off + length xs) (sds_buf s)\<rparr>"
  by (auto simp: sds_store_def bindR_eq_Inr)

lemma sds_store_Inr:
  "off + length xs \<le> length (sds_buf s) \<Longrightarrow>
     sds_store s off xs =
       Inr (s\<lparr>sds_buf := take off (sds_buf s) @ xs @ drop (off + length xs) (sds_buf s)\<rparr>)"
  by simp

lemma sds_load_Inr:
  "off + n \<le> length (sds_buf s) \<Longrightarrow> sds_load s off n = Inr (take n (drop off (sds_buf s)))"
  by (simp add: sds_load_def)

lemma mem_read_Inr: "off + n \<le> length p \<Longrightarrow> mem_read p off n = Inr (take n (drop off p))"
  by simp

lemma hdr_bits_le: "hdr_bits ty \<le> 64"
  by (cases ty) simp_all

lemma sdsHdrSize_le: "sdsHdrSize ty \<le> 17"
  by (cases ty) simp_all

lemma sdsReqType_fits: "n < 2 ^ 64 \<Longrightarrow> n < 2 ^ hdr_bits (sdsReqType n)"
  by (auto simp: sdsReqType_def)

lemma sdsReqType_room:
  "n < 2 ^ 64 \<Longrightarrow>
     n < 2 ^ hdr_bits (if sdsReqType n = SDS_TYPE_5 then SDS_TYPE_8 else sdsReqType n)"
  using sdsReqType_fits[of n] by (cases "sdsReqType n") auto

lemma sdsReqType_new:
  "n < 2 ^ 64 \<Longrightarrow>
     n < 2 ^ hdr_bits (if sdsReqType n = SDS_TYPE_5 \<and> n = 0 then SDS_TYPE_8 else sdsReqType n)"
  using sdsReqType_fits[of n] by auto

lemma sds_len_bound: "wf_sds s \<Longrightarrow> sds_len s < length (sds_buf s)"
  by (simp add: wf_sds_def)

lemma length_sds_str: "wf_sds s \<Longrightarrow> length (sds_str s) = sdslen s"
  by (simp add: sds_str_def sdslen_def wf_sds_def)

lemma sdsalloc_eq: "wf_sds s \<Longrightarrow> sdsalloc s = sdslen s + sdsavail s"
  by (auto simp: wf_sds_def sdsalloc_def sdsavail_def sdslen_def)

lemma sds_load_str:
  "wf_sds s \<Longrightarrow> sds_load s 0 (sdslen s + 1) = Inr (sds_str s @ [NUL])"
  by (simp add: sds_load_def sds_str_def sdslen_def take_Suc_conv_app_nth wf_sds_def)

text \<open>Storing a string and its NUL at the front of a large enough block.\<close>

lemma sdsnewlen_NULL_str:
  assumes "good_allocator m" "initlen + 18 < 2 ^ 64"
  shows "returns (sdsnewlen m None initlen) (\<lambda>s. wf_sds s \<and> sds_str s = replicate initlen NUL)"
proof -
  let ?ty = "if sdsReqType initlen = SDS_TYPE_5 \<and> initlen = 0 then SDS_TYPE_8
             else sdsReqType initlen"
  have fits: "initlen < 2 ^ hdr_bits ?ty" using assms(2) by (intro sdsReqType_new) simp
  have hdr: "sdsHdrSize ?ty \<le> 17" by (rule sdsHdrSize_le)
  show ?thesis
  proof (cases "m (sdsHdrSize ?ty + initlen + 1)")
    case None
    then show ?thesis using hdr assms(2) by (simp add: sdsnewlen_def Let_def)
  next
    case (Some b)
    with assms(1) have "length b = sdsHdrSize ?ty + initlen + 1" by (rule good_allocatorD)
    with Some fits hdr assms(2) show ?thesis
      by (auto simp: sdsnewlen_def Let_def sds_store_Inr wf_sds_def sds_str_def sdsalloc_def
          sdssetlen_def sdssetalloc_def nth_append min_def simp del: replicate_Suc)
  qed
qed

lemma sdsnewlen_str:
  assumes "good_allocator m" "initlen + 18 < 2 ^ 64" "initlen \<le> length p"
  shows "returns (sdsnewlen m (Some p) initlen) (\<lambda>s. wf_sds s \<and> sds_str s = take initlen p)"
proof -
  let ?ty = "if sdsReqType initlen = SDS_TYPE_5 \<and> initlen = 0 then SDS_TYPE_8
             else sdsReqType initlen"
  have fits: "initlen < 2 ^ hdr_bits ?ty" using assms(2) by (intro sdsReqType_new) simp
  have hdr: "sdsHdrSize ?ty \<le> 17" by (rule sdsHdrSize_le)
  show ?thesis
  proof (cases "m (sdsHdrSize ?ty + initlen + 1)")
    case None
    then show ?thesis using hdr assms(2) by (simp add: sdsnewlen_def Let_def)
  next
    case (Some b)
    with assms(1) have "length b = sdsHdrSize ?ty + initlen + 1" by (rule good_allocatorD)
    with Some fits hdr assms(2,3) show ?thesis
      by (auto simp: sdsnewlen_def Let_def sds_store_Inr wf_sds_def sds_str_def sdsalloc_def
          sdssetlen_def sdssetalloc_def nth_append min_def mem_read_Inr)
  qed
qed


lemma sdsempty_str: "good_allocator m \<Longrightarrow> returns (sdsempty m) (\<lambda>s. wf_sds s \<and> sds_str s = [])"
  unfolding sdsempty_def by (rule returns_mono[OF sdsnewlen_str]) auto

section \<open>Room\<close>

text \<open>What growing the block may change: nothing a caller can see but the free space.\<close>

definition same_front :: "sds \<Rightarrow> sds \<Rightarrow> bool" where
  "same_front s s' \<longleftrightarrow> sds_len s' = sds_len s \<and>
     take (Suc (sds_len s)) (sds_buf s') = take (Suc (sds_len s)) (sds_buf s)"

lemma wf_sds_room: "wf_sds s \<longleftrightarrow> wf_room s \<and> sds_buf s ! sds_len s = NUL"
  by (auto simp: wf_sds_def wf_room_def)

lemma same_front_str: "same_front s s' \<Longrightarrow> sds_str s' = sds_str s"
proof -
  assume eq: "same_front s s'"
  then have "take (sds_len s) (take (Suc (sds_len s)) (sds_buf s')) =
      take (sds_len s) (take (Suc (sds_len s)) (sds_buf s))" by (simp only: same_front_def)
  then have "take (sds_len s) (sds_buf s') = take (sds_len s) (sds_buf s)"
    by (simp add: min_def)
  with eq show ?thesis by (simp add: sds_str_def same_front_def)
qed

lemma same_front_wf: "same_front s s' \<Longrightarrow> wf_sds s \<Longrightarrow> wf_room s' \<Longrightarrow> wf_sds s'"
  using nth_take[of "sds_len s" "Suc (sds_len s)" "sds_buf s'"]
    nth_take[of "sds_len s" "Suc (sds_len s)" "sds_buf s"]
  by (simp add: same_front_def wf_sds_room)

lemma sds_move_room:
  assumes "good_allocator m" "wf_room s" "sdslen s \<le> newlen" "newlen + 18 < 2 ^ 64"
    "newlen < 2 ^ hdr_bits ty"
  shows "returns (sds_move m ty s newlen)
     (\<lambda>s'. sds_type s' = ty \<and> length (sds_buf s') = newlen + 1 \<and> same_front s s')"
proof (cases "m (sdsHdrSize ty + newlen + 1)")
  case None
  then show ?thesis using sdsHdrSize_le[of ty] assms(4) by (simp add: sds_move_def)
next
  case (Some b)
  with assms(1) have "length b = sdsHdrSize ty + newlen + 1" by (rule good_allocatorD)
  with Some assms sdsHdrSize_le[of ty] show ?thesis
    by (auto simp: sds_move_def sds_store_Inr sdssetlen_def sds_load_Inr sdslen_def wf_room_def
        same_front_def)
qed

lemma sds_realloc_body_str:
  assumes "good_allocator m" "sdsHdrSize ty + newlen + 1 < 2 ^ 64"
  shows "returns (sds_realloc_body m (sdsHdrSize ty) buf newlen)
     (\<lambda>b. length b = newlen + 1 \<and> take (newlen + 1) buf = take (length buf) b)"
proof (cases "m (sdsHdrSize ty + newlen + 1)")
  case None
  then show ?thesis using assms(2) by (simp add: sds_realloc_body_def)
next
  case (Some b)
  with assms(1) have "length b = sdsHdrSize ty + newlen + 1" by (rule good_allocatorD)
  with Some assms(2) show ?thesis by (auto simp: sds_realloc_body_def Let_def min_def)
qed

lemma realloc_keeps:
  assumes "length b = newlen + 1" "take (newlen + 1) buf = take (length buf) b"
    "k \<le> newlen" "k < length buf"
  shows "take k b = take k buf" "b ! k = buf ! k" "take (Suc k) b = take (Suc k) buf"
proof -
  have "take (Suc k) b = take (Suc k) (take (length buf) b)" using assms(4) by (simp add: min_def)
  also have "\<dots> = take (Suc k) (take (newlen + 1) buf)" by (simp only: assms(2))
  also have "\<dots> = take (Suc k) buf" using assms(3) by (simp add: min_def)
  finally have eq: "take (Suc k) b = take (Suc k) buf" .
  then show "take (Suc k) b = take (Suc k) buf" .
  from arg_cong[OF eq, of "take k"] show "take k b = take k buf" by (simp add: min_def)
  from arg_cong[OF eq, of "\<lambda>xs. xs ! k"] show "b ! k = buf ! k" by simp
qed

lemma sdsMakeRoomFor_room:
  assumes "good_allocator m" "wf_room s" "sdslen s + addlen < 2 ^ 62"
  shows "returns (sdsMakeRoomFor m s addlen)
     (\<lambda>s'. wf_room s' \<and> same_front s s' \<and> addlen \<le> sdsavail s')"
proof (cases "addlen \<le> sdsavail s")
  case True
  then show ?thesis using assms by (simp add: sdsMakeRoomFor_def same_front_def)
next
  case False
  define newlen where "newlen = (if sdslen s + addlen < SDS_MAX_PREALLOC then (sdslen s + addlen) * 2
      else sdslen s + addlen + SDS_MAX_PREALLOC)"
  define ty where "ty = (if sdsReqType newlen = SDS_TYPE_5 then SDS_TYPE_8 else sdsReqType newlen)"
  have le: "sdslen s + addlen \<le> newlen" and big: "newlen + 18 < 2 ^ 64"
    using assms(3) by (auto simp: newlen_def SDS_MAX_PREALLOC_def)
  have fits: "newlen < 2 ^ hdr_bits ty" unfolding ty_def using big by (intro sdsReqType_room) simp
  have ty5: "ty \<noteq> SDS_TYPE_5" by (simp add: ty_def)
  have bound: "sdsHdrSize ty + newlen + 1 < 2 ^ 64" using big sdsHdrSize_le[of ty] by simp
  let ?grow = "if sds_type s = ty
     then bindR (sds_realloc_body m (sdsHdrSize ty) (sds_buf s) newlen) (\<lambda>b. Inr (s\<lparr>sds_buf := b\<rparr>))
     else sds_move m ty s newlen"
  have eq: "sdsMakeRoomFor m s addlen = bindR ?grow (\<lambda>s'. Inr (sdssetalloc s' newlen))"
    using False assms(3)
    by (simp add: sdsMakeRoomFor_def newlen_def ty_def Let_def SDS_MAX_PREALLOC_def)
  have grown: "returns ?grow (\<lambda>s'. sds_type s' = ty \<and> length (sds_buf s') = newlen + 1 \<and> same_front s s')"
  proof (cases "sds_type s = ty")
    case True
    have "returns (bindR (sds_realloc_body m (sdsHdrSize ty) (sds_buf s) newlen)
        (\<lambda>b. Inr (s\<lparr>sds_buf := b\<rparr>))) (\<lambda>s'. sds_type s' = ty \<and> length (sds_buf s') = newlen + 1 \<and> same_front s s')"
    proof (rule returns_bind[OF sds_realloc_body_str[OF assms(1) bound]])
      fix b assume b: "length b = newlen + 1 \<and> take (newlen + 1) (sds_buf s) = take (length (sds_buf s)) b"
      have "sds_len s \<le> newlen" using le by (simp add: sdslen_def)
      moreover have "sds_len s < length (sds_buf s)" using assms(2) by (simp add: wf_room_def)
      ultimately have "take (Suc (sds_len s)) b = take (Suc (sds_len s)) (sds_buf s)"
        using realloc_keeps(3)[OF conjunct1[OF b] conjunct2[OF b]] by simp
      then show "returns (Inr (s\<lparr>sds_buf := b\<rparr>)) (\<lambda>s'. sds_type s' = ty \<and> length (sds_buf s') = newlen + 1 \<and> same_front s s')"
        using b True by (simp add: same_front_def)
    qed
    with True show ?thesis by simp
  next
    case False
    with sds_move_room[OF assms(1,2) _ big fits] le show ?thesis by simp
  qed
  show ?thesis unfolding eq
    by (rule returns_bind[OF grown])
      (use fits ty5 le in \<open>auto simp: sdssetalloc_def wf_room_def sdsalloc_def same_front_def sdslen_def sdsavail_def\<close>)
qed

lemma sdsMakeRoomFor_str:
  assumes "good_allocator m" "wf_sds s" "sdslen s + addlen < 2 ^ 62"
  shows "returns (sdsMakeRoomFor m s addlen)
     (\<lambda>s'. wf_sds s' \<and> sds_str s' = sds_str s \<and> sdslen s' = sdslen s \<and> addlen \<le> sdsavail s')"
proof (rule returns_mono[OF sdsMakeRoomFor_room[OF assms(1) _ assms(3)]])
  show "wf_room s" using assms(2) by (simp add: wf_sds_room)
  fix s' assume "wf_room s' \<and> same_front s s' \<and> addlen \<le> sdsavail s'"
  with assms(2) same_front_wf[of s s'] same_front_str[of s s']
  show "wf_sds s' \<and> sds_str s' = sds_str s \<and> sdslen s' = sdslen s \<and> addlen \<le> sdsavail s'"
    by (auto simp: same_front_def sdslen_def)
qed

lemma sds_move_str:
  assumes "good_allocator m" "wf_sds s" "sdslen s \<le> newlen" "newlen + 18 < 2 ^ 64"
    "newlen < 2 ^ hdr_bits ty"
  shows "returns (sds_move m ty s newlen)
     (\<lambda>s'. sds_type s' = ty \<and> sds_len s' = sds_len s \<and> length (sds_buf s') = newlen + 1 \<and>
           sds_str s' = sds_str s \<and> sds_buf s' ! sds_len s = NUL)"
proof (rule returns_mono[OF sds_move_room[OF assms(1) _ assms(3-5)]])
  show "wf_room s" using assms(2) by (simp add: wf_sds_room)
  fix s' assume s': "sds_type s' = ty \<and> length (sds_buf s') = newlen + 1 \<and> same_front s s'"
  then have "sds_buf s' ! sds_len s = sds_buf s ! sds_len s"
    using nth_take[of "sds_len s" "Suc (sds_len s)" "sds_buf s'"]
      nth_take[of "sds_len s" "Suc (sds_len s)" "sds_buf s"] by (simp add: same_front_def)
  with s' assms(2) same_front_str[of s s'] show "sds_type s' = ty \<and> sds_len s' = sds_len s \<and>
      length (sds_buf s') = newlen + 1 \<and> sds_str s' = sds_str s \<and> sds_buf s' ! sds_len s = NUL"
    by (simp add: same_front_def wf_sds_def)
qed

lemma sdsRemoveFreeSpace_str:
  assumes "good_allocator m" "wf_sds s" "sdslen s + 18 < 2 ^ 64"
  shows "returns (sdsRemoveFreeSpace m s)
     (\<lambda>s'. wf_sds s' \<and> sds_str s' = sds_str s \<and> sdsavail s' = 0)"
proof -
  let ?ty = "sdsReqType (sdslen s)"
  have fits: "sdslen s < 2 ^ hdr_bits ?ty" using assms(3) by (intro sdsReqType_fits) simp
  have bound: "sdsHdrSize ?ty + sdslen s + 1 < 2 ^ 64" using assms(3) sdsHdrSize_le[of ?ty] by simp
  show ?thesis
  proof (cases "sds_type s = ?ty")
    case True
    have "returns (bindR (sds_realloc_body m (sdsHdrSize ?ty) (sds_buf s) (sdslen s))
        (\<lambda>b. Inr (sdssetalloc (s\<lparr>sds_buf := b\<rparr>) (sdslen s))))
        (\<lambda>s'. wf_sds s' \<and> sds_str s' = sds_str s \<and> sdsavail s' = 0)"
    proof (rule returns_bind[OF sds_realloc_body_str[OF assms(1) bound]])
      fix b assume b: "length b = sdslen s + 1 \<and> take (sdslen s + 1) (sds_buf s) = take (length (sds_buf s)) b"
      have "sds_len s \<le> sdslen s" by (simp add: sdslen_def)
      note keeps = realloc_keeps[OF conjunct1[OF b] conjunct2[OF b] this sds_len_bound[OF assms(2)]]
      from keeps(1,2) show "returns (Inr (sdssetalloc (s\<lparr>sds_buf := b\<rparr>) (sdslen s)))
          (\<lambda>s'. wf_sds s' \<and> sds_str s' = sds_str s \<and> sdsavail s' = 0)"
        using b True[symmetric] fits assms(2)
        by (auto simp: sds_str_def wf_sds_def sdssetalloc_def sdsalloc_def sdsavail_def sdslen_def)
    qed
    with True show ?thesis by (simp add: sdsRemoveFreeSpace_def Let_def bindR_def split: sum.splits)
  next
    case False
    have "returns (bindR (sds_move m ?ty s (sdslen s)) (\<lambda>s'. Inr (sdssetalloc s' (sdslen s))))
        (\<lambda>s'. wf_sds s' \<and> sds_str s' = sds_str s \<and> sdsavail s' = 0)"
      by (rule returns_bind[OF sds_move_str[OF assms(1,2) _ assms(3) fits]])
        (use fits in \<open>auto simp: sdssetalloc_def wf_sds_def sdsalloc_def sdsavail_def sds_str_def sdslen_def\<close>)
    with False show ?thesis by (simp add: sdsRemoveFreeSpace_def Let_def)
  qed
qed


section \<open>The operations on the string they stand for\<close>

lemma sds_store_end:
  assumes "wf_sds s" "sdslen s + length xs \<le> sdsalloc s"
  shows "bindR (sds_store s (sdslen s) xs)
      (\<lambda>s'. sds_store (sdssetlen s' (sdslen s + length xs)) (sdslen s + length xs) [NUL]) =
    Inr (s\<lparr>sds_len := sdslen s + length xs,
           sds_buf := sds_str s @ xs @ NUL # drop (sdslen s + length xs + 1) (sds_buf s)\<rparr>)"
  using assms
  by (auto simp: sds_store_Inr wf_sds_def sdssetlen_def sds_str_def sdslen_def min_def)

lemma sdscatlen_str:
  assumes "good_allocator m" "wf_sds s" "sdslen s + len < 2 ^ 62" "len \<le> length t"
  shows "returns (sdscatlen m s t len) (\<lambda>s'. wf_sds s' \<and> sds_str s' = sds_str s @ take len t)"
  unfolding sdscatlen_def Let_def
proof (rule returns_bind[OF sdsMakeRoomFor_str[OF assms(1-3)]])
  fix s1
  assume s1: "wf_sds s1 \<and> sds_str s1 = sds_str s \<and> sdslen s1 = sdslen s \<and> len \<le> sdsavail s1"
  then have fit: "sdslen s1 + length (take len t) \<le> sdsalloc s1"
    using assms(4) sdsalloc_eq[of s1] by simp
  let ?s2 = "s1\<lparr>sds_len := sdslen s1 + len,
       sds_buf := sds_str s1 @ take len t @ NUL # drop (sdslen s1 + len + 1) (sds_buf s1)\<rparr>"
  have "bindR (sds_store s1 (sdslen s) (take len t))
      (\<lambda>s'. sds_store (sdssetlen s' (sdslen s + len)) (sdslen s + len) [NUL]) = Inr ?s2"
    using sds_store_end[OF conjunct1[OF s1] fit] s1 assms(4) by (simp add: min_absorb2)
  moreover have "wf_sds ?s2" "sds_str ?s2 = sds_str s @ take len t"
    using s1 fit assms(4) length_sds_str[of s1]
    by (auto simp: wf_sds_def sds_str_def sdsalloc_def sdslen_def nth_append split: if_splits)
  ultimately show "returns (bindR (mem_read t 0 len) (\<lambda>bytes. bindR (sds_store s1 (sdslen s) bytes)
      (\<lambda>s'. sds_store (sdssetlen s' (sdslen s + len)) (sdslen s + len) [NUL])))
      (\<lambda>s'. wf_sds s' \<and> sds_str s' = sds_str s @ take len t)"
    using assms(4) by (simp add: mem_read_Inr)
qed

lemma sdscat_str:
  assumes "good_allocator m" "wf_sds s" "sdslen s + length t < 2 ^ 62" "nul_free t"
  shows "returns (sdscat m s (cstr t)) (\<lambda>s'. wf_sds s' \<and> sds_str s' = sds_str s @ t)"
  using sdscatlen_str[OF assms(1-3), of "cstr t"] assms(4) by (simp add: sdscat_def)

lemma sdscatsds_str:
  assumes "good_allocator m" "wf_sds s" "wf_sds t" "sdslen s + sdslen t < 2 ^ 62"
  shows "returns (sdscatsds m s t) (\<lambda>s'. wf_sds s' \<and> sds_str s' = sds_str s @ sds_str t)"
  using sdscatlen_str[OF assms(1,2,4), of "sds_buf t"] assms(3)
  by (simp add: sdscatsds_def sds_str_def sdslen_def wf_sds_def)

lemma sdscpylen_str:
  assumes "good_allocator m" "wf_sds s" "len < 2 ^ 62" "len \<le> length t"
  shows "returns (sdscpylen m s t len) (\<lambda>s'. wf_sds s' \<and> sds_str s' = take len t)"
proof -
  have room: "returns (if sdsalloc s < len then sdsMakeRoomFor m s (len - sdslen s) else Inr s)
      (\<lambda>s'. wf_sds s' \<and> len \<le> sdsalloc s')"
  proof (cases "sdsalloc s < len")
    case True
    with assms(2) have "sdslen s + (len - sdslen s) = len" by (simp add: wf_sds_def sdslen_def)
    with sdsMakeRoomFor_str[OF assms(1,2), of "len - sdslen s"] assms(3) True show ?thesis
      by (auto intro: returns_mono simp: sdsalloc_eq)
  next
    case False
    with assms(2) show ?thesis by simp
  qed
  show ?thesis unfolding sdscpylen_def
  proof (rule returns_bind[OF room])
    fix s1 assume s1: "wf_sds s1 \<and> len \<le> sdsalloc s1"
    then have "len < length (sds_buf s1)" "len < 2 ^ hdr_bits (sds_type s1)"
      by (auto simp: wf_sds_def)
    then show "returns (bindR (mem_read t 0 len) (\<lambda>bytes. bindR (sds_store s1 0 bytes)
      (\<lambda>s. bindR (sds_store s len [NUL]) (\<lambda>s. Inr (sdssetlen s len)))))
      (\<lambda>s'. wf_sds s' \<and> sds_str s' = take len t)"
      using s1 assms(4)
      by (auto simp: mem_read_Inr sds_store_Inr sdssetlen_def wf_sds_def sds_str_def sdsalloc_def
          nth_append split: if_splits)
  qed
qed

lemma sdsgrowzero_str:
  assumes "good_allocator m" "wf_sds s" "len < 2 ^ 62"
  shows "returns (sdsgrowzero m s len)
     (\<lambda>s'. wf_sds s' \<and> sds_str s' = sds_str s @ replicate (len - sdslen s) NUL)"
proof (cases "len \<le> sdslen s")
  case True
  then show ?thesis using assms by (simp add: sdsgrowzero_def)
next
  case False
  then have lens: "sdslen s + (len - sdslen s) < 2 ^ 62" using assms(3) by simp
  show ?thesis unfolding sdsgrowzero_def Let_def
  proof (simp add: False del: replicate_Suc, rule returns_bind[OF sdsMakeRoomFor_str[OF assms(1,2) lens]])
    fix s1
    assume s1: "wf_sds s1 \<and> sds_str s1 = sds_str s \<and> sdslen s1 = sdslen s \<and> len - sdslen s \<le> sdsavail s1"
    then have "len \<le> sdsalloc s1" using False sdsalloc_eq[of s1] by linarith
    with s1 have "len < length (sds_buf s1)" "len < 2 ^ hdr_bits (sds_type s1)"
      by (auto simp: wf_sds_def)
    with s1 False \<open>len \<le> sdsalloc s1\<close>
    show "returns (bindR (sds_store s1 (sdslen s) (replicate (Suc (len - sdslen s)) NUL))
        (\<lambda>s. Inr (sdssetlen s len)))
      (\<lambda>s'. wf_sds s' \<and> sds_str s' = sds_str s @ replicate (len - sdslen s) NUL)"
      by (auto simp: sds_store_Inr sdssetlen_def wf_sds_def sds_str_def sdslen_def sdsalloc_def
          nth_append min_def Suc_diff_le simp del: replicate_Suc split: if_splits)
  qed
qed

lemma sdsIncrLen_str:
  assumes "wf_sds s" "0 \<le> int (sdslen s) + incr"
    "if sds_type s = SDS_TYPE_5 then incr < 0 else incr \<le> int (sdsavail s)"
  shows "\<exists>s'. sdsIncrLen s incr = Inr s' \<and> wf_sds s' \<and>
    sds_str s' = take (nat (int (sdslen s) + incr)) (sds_buf s)"
proof -
  define n where "n = nat (int (sdslen s) + incr)"
  have n: "n \<le> sdsalloc s" using assms sdsalloc_eq[OF assms(1)] by (auto simp: n_def split: if_splits)
  with assms(1) have n2: "n < length (sds_buf s)" "n mod 2 ^ hdr_bits (sds_type s) = n"
    by (auto simp: wf_sds_def)
  have "sdsIncrLen s incr = sds_store (s\<lparr>sds_len := n\<rparr>) n [NUL]"
    using assms n2(2) sdsalloc_eq[OF assms(1)]
    by (auto simp: sdsIncrLen_def Let_def n_def[unfolded sdslen_def, symmetric] sdslen_def sdsavail_def
        sdsalloc_def linorder_not_less[symmetric] split: if_splits)
  with n n2 assms show ?thesis unfolding n_def[symmetric]
    by (auto simp: sds_store_Inr wf_sds_def sds_str_def sdsalloc_def nth_append min_def
        split: if_splits)
qed


section \<open>With an allocator that never refuses\<close>

lemma total_not_None: "total_allocator m \<Longrightarrow> m n \<noteq> None"
  by (simp add: total_allocator_def)

lemma bindR_eq_oom:
  "bindR r f = Inl e \<longleftrightarrow> r = Inl e \<or> (\<exists>x. r = Inr x \<and> f x = Inl e)"
  by (cases r) auto

lemma sds_store_not_oom [simp]: "sds_store s off xs \<noteq> Inl OutOfMemory"
  by (simp add: sds_store_def bindR_not_oom)

lemma sdsnewlen_not_oom: "total_allocator m \<Longrightarrow> sdsnewlen m init initlen \<noteq> Inl OutOfMemory"
  by (auto simp: sdsnewlen_def Let_def bindR_eq_oom total_not_None split: option.splits if_splits)

lemma sds_move_not_oom: "total_allocator m \<Longrightarrow> sds_move m ty s n \<noteq> Inl OutOfMemory"
  by (auto simp: sds_move_def bindR_eq_oom total_not_None sds_load_def split: option.splits)

lemma sds_realloc_not_oom: "total_allocator m \<Longrightarrow> sds_realloc_body m h buf n \<noteq> Inl OutOfMemory"
  by (auto simp: sds_realloc_body_def Let_def total_not_None split: option.splits)

lemma sdsMakeRoomFor_not_oom: "total_allocator m \<Longrightarrow> sdsMakeRoomFor m s n \<noteq> Inl OutOfMemory"
  unfolding sdsMakeRoomFor_def Let_def
  by (auto simp: bindR_eq_oom sds_move_not_oom sds_realloc_not_oom split: if_splits)

lemma sdscatlen_not_oom: "total_allocator m \<Longrightarrow> sdscatlen m s t n \<noteq> Inl OutOfMemory"
  unfolding sdscatlen_def Let_def
  by (intro bindR_not_oom sdsMakeRoomFor_not_oom) simp_all

lemma sdsempty_ok: "total_allocator m \<Longrightarrow> succeeds (sdsempty m) (\<lambda>s. wf_sds s \<and> sds_str s = [])"
  by (rule succeedsI[OF sdsempty_str]) (simp_all add: sdsempty_def sdsnewlen_not_oom)

lemma sdsnewlen_ok:
  "total_allocator m \<Longrightarrow> initlen + 18 < 2 ^ 64 \<Longrightarrow> initlen \<le> length p \<Longrightarrow>
     succeeds (sdsnewlen m (Some p) initlen) (\<lambda>s. wf_sds s \<and> sds_str s = take initlen p)"
  by (rule succeedsI[OF sdsnewlen_str]) (simp_all add: sdsnewlen_not_oom)

lemma sdscatlen_ok:
  "total_allocator m \<Longrightarrow> wf_sds s \<Longrightarrow> sdslen s + len < 2 ^ 62 \<Longrightarrow> len \<le> length t \<Longrightarrow>
     succeeds (sdscatlen m s t len) (\<lambda>s'. wf_sds s' \<and> sds_str s' = sds_str s @ take len t)"
  by (rule succeedsI[OF sdscatlen_str]) (simp_all add: sdscatlen_not_oom)

lemma sdscat_ok:
  "total_allocator m \<Longrightarrow> wf_sds s \<Longrightarrow> sdslen s + length t < 2 ^ 62 \<Longrightarrow> nul_free t \<Longrightarrow>
     succeeds (sdscat m s (cstr t)) (\<lambda>s'. wf_sds s' \<and> sds_str s' = sds_str s @ t)"
  by (rule succeedsI[OF sdscat_str]) (simp_all add: sdscat_def sdscatlen_not_oom)

lemma sdscatsds_ok:
  "total_allocator m \<Longrightarrow> wf_sds s \<Longrightarrow> wf_sds t \<Longrightarrow> sdslen s + sdslen t < 2 ^ 62 \<Longrightarrow>
     succeeds (sdscatsds m s t) (\<lambda>s'. wf_sds s' \<and> sds_str s' = sds_str s @ sds_str t)"
  by (rule succeedsI[OF sdscatsds_str]) (simp_all add: sdscatsds_def sdscatlen_not_oom)

section \<open>Properties\<close>

text \<open>A string with one spare byte, for the concrete instances.\<close>

definition abc_sds :: sds where
  "abc_sds = \<lparr>sds_type = SDS_TYPE_8, sds_len = 3, sds_alloc = 4, sds_buf = ''abc'' @ [NUL, NUL]\<rparr>"

lemma abc_wf [simp]: "wf_sds abc_sds" "sds_str abc_sds = ''abc''" "sdslen abc_sds = 3"
  by (simp_all add: abc_sds_def wf_sds_def sds_str_def sdsalloc_def sdslen_def)

text \<open>C29: making room never changes the string, leaves at least the room asked for and keeps
  the representation well formed, through in-place growth and through a change of header type;
  a refused allocation is reported and nothing else can go wrong.\<close>

theorem sdsMakeRoomFor_keeps_string:
  assumes "good_allocator m" "wf_sds s" "sdslen s + addlen < 2 ^ 62"
  shows "returns (sdsMakeRoomFor m s addlen)
     (\<lambda>s'. wf_sds s' \<and> sds_str s' = sds_str s \<and> addlen \<le> sdsavail s')"
  by (rule returns_mono[OF sdsMakeRoomFor_str[OF assms]]) simp

theorem sdsMakeRoomFor_witness:
  "returns (sdsMakeRoomFor zero_alloc abc_sds 300)
     (\<lambda>s'. wf_sds s' \<and> sds_str s' = ''abc'' \<and> 300 \<le> sdsavail s')"
  using sdsMakeRoomFor_keeps_string[of zero_alloc abc_sds 300] by simp

text \<open>C30: appending \<open>len\<close> bytes of a buffer gives the old string followed by them, whatever
  bytes they are, with every read and write inside its block and the NUL restored.\<close>

theorem sdscatlen_appends:
  assumes "good_allocator m" "wf_sds s" "sdslen s + len < 2 ^ 62" "len \<le> length t"
  shows "returns (sdscatlen m s t len) (\<lambda>s'. wf_sds s' \<and> sds_str s' = sds_str s @ take len t)"
  by (rule sdscatlen_str[OF assms])

theorem sdscatlen_witness:
  "returns (sdscatlen zero_alloc abc_sds [NUL, CHR ''d''] 2)
     (\<lambda>s'. wf_sds s' \<and> sds_str s' = ''abc'' @ [NUL, CHR ''d''])"
  using sdscatlen_appends[of zero_alloc abc_sds 2 "[NUL, CHR ''d'']"] by simp

end
