(* ===== verification/SdsOps.thy ===== *)
theory SdsOps
  imports Sds
begin

text \<open>
  The in-place operations of src/redis/sds.c on dynamic strings (trimming, slicing, case,
  comparison, character mapping) and the operations on vectors of strings (split and join).
\<close>

section \<open>Trimming and slicing\<close>

text \<open>
  \<open>strchr(cset, c)\<close> also finds the terminator, so a NUL byte of the string counts as a
  member of every \<open>cset\<close>.
\<close>

definition strchr_found :: "string \<Rightarrow> char \<Rightarrow> bool" where
  "strchr_found cset c \<longleftrightarrow> c \<in> set cset \<or> c = NUL"

function trim_left :: "string \<Rightarrow> char list \<Rightarrow> int \<Rightarrow> int \<Rightarrow> int" where
  "trim_left cset buf endp sp =
     (if sp \<le> endp \<and> strchr_found cset (buf ! nat sp) then trim_left cset buf endp (sp + 1) else sp)"
  by pat_completeness auto
termination
  by (relation "measure (\<lambda>(cset, buf, endp, sp). nat (endp + 1 - sp))") auto

function trim_right :: "string \<Rightarrow> char list \<Rightarrow> int \<Rightarrow> int \<Rightarrow> int" where
  "trim_right cset buf sp ep =
     (if sp < ep \<and> strchr_found cset (buf ! nat ep) then trim_right cset buf sp (ep - 1) else ep)"
  by pat_completeness auto
termination
  by (relation "measure (\<lambda>(cset, buf, sp, ep). nat (ep - sp))") auto

declare trim_left.simps [simp del] trim_right.simps [simp del]

definition sdstrim :: "sds \<Rightarrow> string \<Rightarrow> sds res" where
  "sdstrim s cset =
     (let endp = int (sdslen s) - 1;
          sp = trim_left cset (sds_buf s) endp 0;
          ep = trim_right cset (sds_buf s) sp endp;
          len = (if ep < sp then 0 else nat (ep - sp + 1))
      in bindR (if sp \<noteq> 0 then bindR (sds_load s (nat sp) len) (sds_store s 0) else Inr s) (\<lambda>s.
         bindR (sds_store s len [NUL]) (\<lambda>s. Inr (sdssetlen s len))))"

text \<open>\<open>start\<close> and \<open>end\<close> are C ints, \<open>len\<close> a \<open>size_t\<close>; every store to one of them converts.\<close>

definition sdsrange :: "sds \<Rightarrow> int \<Rightarrow> int \<Rightarrow> sds res" where
  "sdsrange s start end' =
     (let len = int (sdslen s)
      in if len = 0 then Inr s
         else
           let start = (if start < 0 then (let st = to_int (len + start) in if st < 0 then 0 else st)
                        else start);
               end' = (if end' < 0 then (let en = to_int (len + end') in if en < 0 then 0 else en)
                       else end');
               newlen = (if start > end' then 0 else size_t (nat (to_int (end' - start + 1) mod 2 ^ 64)));
               (start, newlen) =
                 (if newlen \<noteq> 0
                  then if start \<ge> to_int len then (start, 0)
                       else if end' \<ge> to_int len
                       then let end'' = to_int (len - 1)
                            in (start, if start > end'' then 0
                                       else size_t (nat (to_int (end'' - start + 1) mod 2 ^ 64)))
                       else (start, newlen)
                  else (0, newlen))
           in bindR (if start \<noteq> 0 \<and> newlen \<noteq> 0
                     then bindR (sds_load s (nat start) newlen) (sds_store s 0) else Inr s) (\<lambda>s.
              bindR (sds_store s newlen [NUL]) (\<lambda>s. Inr (sdssetlen s newlen))))"

section \<open>Case, comparison, mapping\<close>

definition c_tolower :: "char \<Rightarrow> char" where
  "c_tolower c = (if 65 \<le> ord c \<and> ord c \<le> 90 then char_of (ord c + 32) else c)"

lemma c_tolower_fixed: "ord d < (65 :: nat) \<Longrightarrow> c_tolower c = d \<longleftrightarrow> c = d"
proof
  assume "ord d < (65 :: nat)" "c_tolower c = d"
  then have "ord c = (ord d :: nat)"
    by (auto simp: c_tolower_def split: if_splits)
  then show "c = d"
    by (simp only: of_char_eq_iff)
qed (simp add: c_tolower_def)

text \<open>The C library's \<open>strncasecmp(mem, word, strlen(word)) == 0\<close>: it stops at the first difference.\<close>

fun same_prefix :: "string \<Rightarrow> string \<Rightarrow> bool res" where
  "same_prefix mem [] = Inr True"
| "same_prefix [] (w # ws) = Inl OutOfBounds"
| "same_prefix (c # mem) (w # ws) = (if c_tolower c \<noteq> c_tolower w then Inr False else same_prefix mem ws)"

definition c_toupper :: "char \<Rightarrow> char" where
  "c_toupper c = (if 97 \<le> ord c \<and> ord c \<le> 122 then char_of (ord c - 32) else c)"

definition sdstolower :: "sds \<Rightarrow> sds" where
  "sdstolower s = s\<lparr>sds_buf := map c_tolower (take (sdslen s) (sds_buf s)) @ drop (sdslen s) (sds_buf s)\<rparr>"

definition sdstoupper :: "sds \<Rightarrow> sds" where
  "sdstoupper s = s\<lparr>sds_buf := map c_toupper (take (sdslen s) (sds_buf s)) @ drop (sdslen s) (sds_buf s)\<rparr>"

text \<open>\<open>memcmp\<close>: the difference of the first bytes that differ (only its sign is specified).\<close>

fun c_memcmp :: "char list \<Rightarrow> char list \<Rightarrow> nat \<Rightarrow> int" where
  "c_memcmp (x # xs) (y # ys) (Suc n) =
     (if x = y then c_memcmp xs ys n else int (ord x) - int (ord y))"
| "c_memcmp _ _ _ = 0"

definition sdscmp :: "sds \<Rightarrow> sds \<Rightarrow> int" where
  "sdscmp s1 s2 =
     (let l1 = sdslen s1; l2 = sdslen s2;
          minlen = (if l1 < l2 then l1 else l2);
          cmp = c_memcmp (sds_buf s1) (sds_buf s2) minlen
      in if cmp = 0 then to_int (int l1 - int l2) else cmp)"

fun mapchar :: "char list \<Rightarrow> char list \<Rightarrow> nat \<Rightarrow> char \<Rightarrow> char" where
  "mapchar (f # from) (t # to) (Suc setlen) c = (if c = f then t else mapchar from to setlen c)"
| "mapchar _ _ _ c = c"

definition sdsmapchars :: "sds \<Rightarrow> char list \<Rightarrow> char list \<Rightarrow> nat \<Rightarrow> sds" where
  "sdsmapchars s from to setlen =
     s\<lparr>sds_buf := map (mapchar from to setlen) (take (sdslen s) (sds_buf s)) @ drop (sdslen s) (sds_buf s)\<rparr>"


section \<open>What they compute\<close>

text \<open>Storing the first bytes of a string over the string and cutting it there.\<close>

lemma sds_cut:
  assumes "wf_sds s" "length xs \<le> sdsalloc s" "take (length xs) (sds_buf s) = xs"
  shows "bindR (sds_store s (length xs) [NUL]) (\<lambda>s'. Inr (sdssetlen s' (length xs))) =
      Inr (s\<lparr>sds_len := length xs, sds_buf := xs @ NUL # drop (length xs + 1) (sds_buf s)\<rparr>)"
    "wf_sds (s\<lparr>sds_len := length xs, sds_buf := xs @ NUL # drop (length xs + 1) (sds_buf s)\<rparr>)"
    "sds_str (s\<lparr>sds_len := length xs, sds_buf := xs @ NUL # drop (length xs + 1) (sds_buf s)\<rparr>) = xs"
  using assms
  by (auto simp: sds_store_Inr wf_sds_def sdssetlen_def sds_str_def sdsalloc_def split: if_splits)

lemma wf_sds_write:
  assumes "wf_sds s" "length xs \<le> sdslen s"
  shows "sds_store s 0 xs = Inr (s\<lparr>sds_buf := xs @ drop (length xs) (sds_buf s)\<rparr>)"
  using assms by (auto simp: sds_store_Inr wf_sds_def sdslen_def)

text \<open>Keeping a segment of the string: what trimming and slicing do.\<close>

lemma sds_keep_segment:
  assumes "wf_sds s" "a + n \<le> sdslen s"
  shows "succeeds (bindR (if b then bindR (sds_load s a n) (sds_store s 0) else Inr s) (\<lambda>s.
      bindR (sds_store s n [NUL]) (\<lambda>s. Inr (sdssetlen s n))))
      (\<lambda>s'. wf_sds s' \<and> sds_str s' = (if b then take n (drop a (sds_str s)) else take n (sds_str s)))"
proof (cases b)
  case True
  let ?xs = "take n (drop a (sds_buf s))"
  have len: "length ?xs = n" "a + n \<le> length (sds_buf s)"
    using assms sds_len_bound[OF assms(1)] by (auto simp: sdslen_def)
  let ?s1 = "s\<lparr>sds_buf := ?xs @ drop n (sds_buf s)\<rparr>"
  have store: "bindR (sds_load s a n) (sds_store s 0) = Inr ?s1"
    using len wf_sds_write[OF assms(1), of ?xs] assms(2) by (simp add: sds_load_Inr)
  have "wf_sds (s\<lparr>sds_len := n, sds_buf := ?xs @ NUL # drop (n + 1) (sds_buf s)\<rparr>)"
    using assms len by (auto simp: wf_sds_def sdsalloc_def sdslen_def nth_append split: if_splits)
  moreover have "n < length (sds_buf s)" using assms len by (simp add: wf_sds_def sdslen_def)
  ultimately show ?thesis using True len assms store
    by (auto simp: sds_store_Inr sdssetlen_def sds_str_def sdslen_def wf_sds_def sdsalloc_def
        min_def drop_take split: if_splits)
next
  case False
  have len: "length (take n (sds_buf s)) = n" "n \<le> sdsalloc s"
    using assms by (auto simp: wf_sds_def sdslen_def)
  from sds_cut[OF assms(1), of "take n (sds_buf s)"] len False assms(2) show ?thesis
    by (simp add: sds_str_def sdslen_def min_def)
qed

lemma trim_left_eq:
  assumes "0 \<le> sp" "sp \<le> int (length xs)" "take (length xs) buf = xs" "length xs \<le> length buf"
  shows "trim_left cset buf (int (length xs) - 1) sp =
    sp + int (length (takeWhile (strchr_found cset) (drop (nat sp) xs)))"
  using assms
proof (induction cset buf "int (length xs) - 1" sp rule: trim_left.induct)
  case (1 cset buf sp)
  show ?case
  proof (cases "sp < int (length xs)")
    case True
    then have n: "nat sp < length xs" using "1.prems"(1) by simp
    then have "drop (nat sp) xs = xs ! nat sp # drop (nat sp + 1) xs" by (simp add: Cons_nth_drop_Suc)
    moreover have "buf ! nat sp = xs ! nat sp" using "1.prems"(3) n by (metis nth_take)
    moreover have "nat (sp + 1) = nat sp + 1" using "1.prems"(1) by simp
    ultimately show ?thesis using 1 True
      by (subst trim_left.simps) auto
  next
    case False
    with "1.prems" show ?thesis by (subst trim_left.simps) simp
  qed
qed

lemma trim_right_eq:
  assumes "0 \<le> sp" "sp \<le> ep" "nat ep < length buf" "\<not> strchr_found cset (buf ! nat sp)"
  shows "sp \<le> trim_right cset buf sp ep \<and> trim_right cset buf sp ep \<le> ep \<and>
    take (nat (trim_right cset buf sp ep - sp + 1)) (drop (nat sp) buf) =
      rev (dropWhile (strchr_found cset) (rev (take (nat (ep - sp + 1)) (drop (nat sp) buf))))"
  using assms
proof (induction cset buf sp ep rule: trim_right.induct)
  case (1 cset buf sp ep)
  define k where "k = nat (ep - sp)"
  have k: "nat ep = nat sp + k" "nat (ep - sp + 1) = Suc k" using "1.prems" by (auto simp: k_def)
  with "1.prems"(3) have snoc: "take (nat (ep - sp + 1)) (drop (nat sp) buf) =
      take k (drop (nat sp) buf) @ [buf ! nat ep]"
    by (simp add: take_Suc_conv_app_nth)
  show ?case
  proof (cases "sp < ep \<and> strchr_found cset (buf ! nat ep)")
    case True
    have "nat (ep - 1 - sp + 1) = k" using "1.prems" True by (simp add: k_def)
    moreover have "nat (ep - 1) < length buf" using "1.prems"(3) by linarith
    ultimately show ?thesis using 1 True by (auto simp: snoc trim_right.simps[of _ _ _ ep])
  next
    case False
    with "1.prems" have "\<not> strchr_found cset (buf ! nat ep)" by (cases "sp = ep") auto
    with False "1.prems" show ?thesis by (simp add: snoc trim_right.simps[of _ _ _ ep])
  qed
qed

definition trim_both :: "(char \<Rightarrow> bool) \<Rightarrow> string \<Rightarrow> string" where
  "trim_both P xs = rev (dropWhile P (rev (dropWhile P xs)))"

lemma sdstrim_str:
  assumes "wf_sds s"
  shows "succeeds (sdstrim s cset)
    (\<lambda>s'. wf_sds s' \<and> sds_str s' = trim_both (strchr_found cset) (sds_str s))"
proof -
  let ?P = "strchr_found cset" and ?xs = "sds_str s" and ?buf = "sds_buf s"
  have len: "length ?xs = sdslen s" "take (length ?xs) ?buf = ?xs" "sdslen s < length ?buf"
    using assms length_sds_str[OF assms] sds_len_bound[OF assms]
    by (auto simp: sds_str_def sdslen_def)
  define a where "a = length (takeWhile ?P ?xs)"
  have a: "a \<le> sdslen s" using len length_takeWhile_le[of ?P ?xs] by (simp add: a_def)
  have left: "trim_left cset ?buf (int (sdslen s) - 1) 0 = int a"
    using trim_left_eq[of 0 ?xs ?buf cset] len by (simp add: a_def)
  have dropped: "dropWhile ?P ?xs = drop a ?xs" by (simp add: a_def dropWhile_eq_drop)
  show ?thesis
  proof (cases "a = sdslen s")
    case True
    then have "trim_right cset ?buf (int a) (int (sdslen s) - 1) = int (sdslen s) - 1"
      by (subst trim_right.simps) simp
    with sds_keep_segment[OF assms, of a 0 "a \<noteq> 0"] True len show ?thesis
      by (simp add: sdstrim_def left Let_def trim_both_def dropped split: if_splits)
  next
    case False
    with a have lt: "a < sdslen s" by simp
    then have "\<not> ?P (?xs ! a)" using nth_length_takeWhile[of ?P ?xs] len by (simp add: a_def)
    then have not: "\<not> ?P (?buf ! nat (int a))" using lt by (simp add: sds_str_def sdslen_def)
    let ?e = "trim_right cset ?buf (int a) (int (sdslen s) - 1)"
    have e: "int a \<le> ?e" "?e \<le> int (sdslen s) - 1"
      "take (nat (?e - int a + 1)) (drop a ?buf) =
        rev (dropWhile ?P (rev (take (nat (int (sdslen s) - 1 - int a + 1)) (drop a ?buf))))"
      using trim_right_eq[of "int a" "int (sdslen s) - 1" ?buf cset] lt len(3) not by auto
    define n where "n = nat (?e - int a + 1)"
    have n: "a + n \<le> sdslen s" using e(1,2) by (simp add: n_def)
    have "take n (drop a ?xs) = trim_both ?P ?xs"
      using e(3) n unfolding trim_both_def dropped n_def[symmetric]
      by (simp add: sds_str_def sdslen_def drop_take min_def nat_diff_distrib)
    moreover have "a = 0 \<Longrightarrow> nat (trim_right cset ?buf 0 (int (sdslen s) - 1) + 1) = n"
      by (simp add: n_def)
    ultimately show ?thesis using sds_keep_segment[OF assms n, of "a \<noteq> 0"] e(1)
      by (cases "a = 0") (simp_all add: sdstrim_def left Let_def n_def[symmetric])
  qed
qed


text \<open>
  The slice \<open>sdsrange\<close> is documented to keep: bounds are inclusive, negative ones count
  from the end, and ones outside the string are clipped to it.
\<close>

definition slice_index :: "nat \<Rightarrow> int \<Rightarrow> nat" where
  "slice_index len i = (if i < 0 then nat (int len + i) else nat i)"

definition slice :: "string \<Rightarrow> int \<Rightarrow> int \<Rightarrow> string" where
  "slice xs start end' =
     (let a = slice_index (length xs) start; b = slice_index (length xs) end'
      in take (b + 1 - a) (drop a xs))"

lemma sdsrange_str:
  assumes "wf_sds s" "sdslen s < 2 ^ 31" "- (2 ^ 31) \<le> start" "start < 2 ^ 31"
    "- (2 ^ 31) \<le> end'" "end' < 2 ^ 31 - 1"
  shows "succeeds (sdsrange s start end') (\<lambda>s'. wf_sds s' \<and> sds_str s' = slice (sds_str s) start end')"
proof (cases "sdslen s = 0")
  case True
  then show ?thesis using assms(1) length_sds_str[OF assms(1)] by (simp add: sdsrange_def slice_def)
next
  case False
  let ?len = "int (sdslen s)"
  let ?xs = "sds_str s"
  define a where "a = slice_index (sdslen s) start"
  define b where "b = slice_index (sdslen s) end'"
  have len: "length ?xs = sdslen s" by (rule length_sds_str[OF assms(1)])
  have st: "(if start < 0 then let st = to_int (?len + start) in if st < 0 then 0 else st else start) = int a"
    using assms(2-4) by (auto simp: a_def slice_index_def Let_def)
  have en: "(if end' < 0 then let en = to_int (?len + end') in if en < 0 then 0 else en else end') = int b"
    using assms(2,5,6) by (auto simp: b_def slice_index_def Let_def)
  have bounds: "int a < 2 ^ 31" "int b < 2 ^ 31 - 1"
    using assms(2-6) False by (auto simp: a_def b_def slice_index_def)
  have size: "size_t (nat (to_int (int j - int a + 1) mod 2 ^ 64)) = j + 1 - a"
    if "a \<le> j" "int j < 2 ^ 31 - 1" for j
  proof -
    have "int j - int a + 1 = int (j + 1 - a)" using that by simp
    moreover have "to_int (int (j + 1 - a)) = int (j + 1 - a)" using that bounds by (intro to_int_id) auto
    ultimately show ?thesis using that by simp
  qed
  have "succeeds (sdsrange s start end') (\<lambda>s'. wf_sds s' \<and>
      sds_str s' = take (min b (sdslen s - 1) + 1 - a) (drop a ?xs))"
  proof (cases "a \<le> b \<and> a < sdslen s")
    case True
    let ?n = "min b (sdslen s - 1) + 1 - a"
    have n: "a + ?n \<le> sdslen s" using True by auto
    have n0: "?n \<noteq> 0" using True by auto
    have eq: "sdsrange s start end' = bindR (if int a \<noteq> 0 \<and> ?n \<noteq> 0
        then bindR (sds_load s a ?n) (sds_store s 0) else Inr s) (\<lambda>s.
        bindR (sds_store s ?n [NUL]) (\<lambda>s. Inr (sdssetlen s ?n)))"
    proof (cases "b < sdslen s")
      case True
      then have "min b (sdslen s - 1) = b" by linarith
      with True \<open>a \<le> b \<and> a < sdslen s\<close> size[of b] bounds assms(2) show ?thesis
        by (simp add: sdsrange_def False st en Let_def)
    next
      case b: False
      then have "min b (sdslen s - 1) = sdslen s - 1" by linarith
      moreover have "nat (int (sdslen s) - int a) = sdslen s - a" by arith
      moreover note b \<open>a \<le> b \<and> a < sdslen s\<close> size[of b] size[of "sdslen s - 1"] bounds assms(2)
      ultimately show ?thesis by (simp add: sdsrange_def False st en Let_def of_nat_diff)
    qed
    from sds_keep_segment[OF assms(1) n, of "int a \<noteq> 0 \<and> ?n \<noteq> 0"] n0 show ?thesis
      unfolding eq by (auto split: if_splits)
  next
    case False2: False
    then have eq: "sdsrange s start end' = bindR (sds_store s 0 [NUL]) (\<lambda>s. Inr (sdssetlen s 0))"
      using size[of b] bounds assms(2) False by (auto simp: sdsrange_def st en Let_def)
    from sds_cut[OF assms(1), of "[]"] False2 len show ?thesis unfolding eq by auto
  qed
  moreover have "take (min b (sdslen s - 1) + 1 - a) (drop a ?xs) = slice ?xs start end'"
    using len by (auto simp: slice_def a_def[symmetric] b_def[symmetric] min_def)
  ultimately show ?thesis by simp
qed


text \<open>Comparison is the lexicographic order on bytes, a proper prefix being smaller.\<close>

fun byte_less :: "string \<Rightarrow> string \<Rightarrow> bool" where
  "byte_less _ [] = False"
| "byte_less [] (_ # _) = True"
| "byte_less (x # xs) (y # ys) = (ord x < ord y \<or> x = y \<and> byte_less xs ys)"

lemma c_memcmp_prefix:
  "n \<le> length xs \<Longrightarrow> n \<le> length ys \<Longrightarrow> c_memcmp (take n xs) (take n ys) n = c_memcmp xs ys n"
  by (induction xs ys n rule: c_memcmp.induct) auto

lemma c_memcmp_order:
  fixes xs ys :: string
  defines "c \<equiv> c_memcmp xs ys (min (length xs) (length ys))"
  defines "r \<equiv> if c = 0 then int (length xs) - int (length ys) else c"
  shows "(r < 0 \<longleftrightarrow> byte_less xs ys) \<and> (r = 0 \<longleftrightarrow> xs = ys)"
  unfolding r_def c_def
proof (induction xs ys rule: byte_less.induct)
  case (1 xs)
  then show ?case by (cases xs) auto
next
  case (3 x xs y ys)
  show ?case
  proof (cases "x = y")
    case False
    then have "ord x \<noteq> ord y" by (metis char_of_eq_iff of_char_of char_of_char)
    with False show ?thesis by auto
  qed (use 3 in auto)
qed simp

lemma sdscmp_order:
  assumes "wf_sds s" "wf_sds t" "sdslen s < 2 ^ 31" "sdslen t < 2 ^ 31"
  shows "(sdscmp s t < 0 \<longleftrightarrow> byte_less (sds_str s) (sds_str t)) \<and>
    (sdscmp s t = 0 \<longleftrightarrow> sds_str s = sds_str t)"
proof -
  let ?n = "min (sdslen s) (sdslen t)"
  have "?n \<le> length (sds_buf s)" "?n \<le> length (sds_buf t)"
    using sds_len_bound[OF assms(1)] sds_len_bound[OF assms(2)] by (auto simp: sdslen_def)
  then have "c_memcmp (sds_buf s) (sds_buf t) ?n = c_memcmp (take ?n (sds_buf s)) (take ?n (sds_buf t)) ?n"
    by (simp add: c_memcmp_prefix)
  also have "\<dots> = c_memcmp (sds_str s) (sds_str t) ?n"
    using c_memcmp_prefix[of ?n "sds_str s" "sds_str t"] length_sds_str[OF assms(1)]
      length_sds_str[OF assms(2)] by (simp add: sds_str_def sdslen_def min_def)
  finally have eq: "c_memcmp (sds_buf s) (sds_buf t) ?n = c_memcmp (sds_str s) (sds_str t) ?n" .
  have "(if sdslen s < sdslen t then sdslen s else sdslen t) = ?n" by simp
  with eq assms(3,4) have "sdscmp s t = (if c_memcmp (sds_str s) (sds_str t) ?n = 0
      then int (sdslen s) - int (sdslen t) else c_memcmp (sds_str s) (sds_str t) ?n)"
    by (simp add: sdscmp_def Let_def)
  with c_memcmp_order[of "sds_str s" "sds_str t", unfolded length_sds_str[OF assms(1)]
    length_sds_str[OF assms(2)]] show ?thesis by simp
qed

lemma sdsmapchars_str:
  "wf_sds s \<Longrightarrow> wf_sds (sdsmapchars s from to n) \<and>
     sds_str (sdsmapchars s from to n) = map (mapchar from to n) (sds_str s)"
  by (auto simp: sdsmapchars_def wf_sds_def sds_str_def sdslen_def sdsalloc_def nth_append min_def
      split: if_splits)

lemma sdstolower_str:
  "wf_sds s \<Longrightarrow> wf_sds (sdstolower s) \<and> sds_str (sdstolower s) = map c_tolower (sds_str s)"
  by (auto simp: sdstolower_def wf_sds_def sds_str_def sdslen_def sdsalloc_def nth_append min_def
      split: if_splits)

lemma sdstoupper_str:
  "wf_sds s \<Longrightarrow> wf_sds (sdstoupper s) \<and> sds_str (sdstoupper s) = map c_toupper (sds_str s)"
  by (auto simp: sdstoupper_def wf_sds_def sds_str_def sdslen_def sdsalloc_def nth_append min_def
      split: if_splits)

section \<open>Splitting and joining\<close>

text \<open>
  \<open>sdssplitlen\<close>: the loop at position \<open>j\<close>, with the start of the current token, the room
  of the vector and the tokens found so far.  The \<open>int\<close> arguments are given as naturals; the
  caller's test for negative ones is in \<open>sdssplitlen\<close>.
\<close>

definition sep_at :: "char list \<Rightarrow> char list \<Rightarrow> nat \<Rightarrow> nat \<Rightarrow> bool" where
  "sep_at s sep seplen j \<longleftrightarrow>
     (seplen = 1 \<and> s ! j = sep ! 0) \<or> c_memcmp (drop j s) sep seplen = 0"

function split_loop :: "allocator \<Rightarrow> char list \<Rightarrow> nat \<Rightarrow> char list \<Rightarrow> nat \<Rightarrow> nat \<Rightarrow> nat \<Rightarrow> nat \<Rightarrow> sds list \<Rightarrow>
    (nat \<times> sds list) res" where
  "split_loop m s len sep seplen j start slots tokens =
     (if \<not> j + seplen < len + 1 then Inr (start, tokens)
      else
        bindR (if slots < length tokens + 2
               then (case m (size_t (8 * (slots * 2))) of None \<Rightarrow> Inl OutOfMemory
                     | Some _ \<Rightarrow> Inr (slots * 2))
               else Inr slots) (\<lambda>slots.
        if sep_at s sep seplen j
        then bindR (sdsnewlen m (Some (drop start s)) (j - start)) (\<lambda>token.
             split_loop m s len sep seplen (j + max 1 seplen) (j + seplen) slots (tokens @ [token]))
        else split_loop m s len sep seplen (j + 1) start slots tokens))"
  by pat_completeness auto
termination
  by (relation "measure (\<lambda>(m, s, len, sep, seplen, j, start, slots, tokens). len + 1 - j)") auto

declare split_loop.simps [simp del]

definition sdssplitlen :: "allocator \<Rightarrow> char list \<Rightarrow> int \<Rightarrow> char list \<Rightarrow> int \<Rightarrow> sds list option res" where
  "sdssplitlen m s len sep seplen =
     (if seplen < 1 \<or> len < 0 then Inr None
      else case m (8 * 5) of None \<Rightarrow> Inl OutOfMemory
      | Some _ \<Rightarrow>
          if len = 0 then Inr (Some [])
          else bindR (split_loop m s (nat len) sep (nat seplen) 0 0 5 []) (\<lambda>(start, tokens).
               bindR (sdsnewlen m (Some (drop start s)) (nat len - start)) (\<lambda>token.
               Inr (Some (tokens @ [token])))))"

fun join_loop :: "(sds \<Rightarrow> 'a \<Rightarrow> sds res) \<Rightarrow> (sds \<Rightarrow> sds res) \<Rightarrow> sds res \<Rightarrow> 'a list \<Rightarrow> sds res" where
  "join_loop cat sep join [] = join"
| "join_loop cat sep join [x] = bind_unchecked join (\<lambda>s. cat s x)"
| "join_loop cat sep join (x # y # xs) =
     join_loop cat sep (bind_unchecked (bind_unchecked join (\<lambda>s. cat s x)) sep) (y # xs)"

definition sdsjoin :: "allocator \<Rightarrow> char list list \<Rightarrow> char list \<Rightarrow> sds res" where
  "sdsjoin m argv sep =
     join_loop (\<lambda>s arg. sdscat m s arg) (\<lambda>s. sdscat m s sep) (sdsempty m) argv"

definition sdsjoinsds :: "allocator \<Rightarrow> sds list \<Rightarrow> char list \<Rightarrow> nat \<Rightarrow> sds res" where
  "sdsjoinsds m argv sep seplen =
     join_loop (\<lambda>s arg. sdscatsds m s arg) (\<lambda>s. sdscatlen m s sep seplen) (sdsempty m) argv"


text \<open>
  Splitting loses nothing and leaves no separator inside a token: joining the tokens with the
  separator gives the input back, and no token contains the separator.
\<close>

definition contains :: "string \<Rightarrow> string \<Rightarrow> bool" where
  "contains xs sub \<longleftrightarrow> (\<exists>a b. xs = a @ sub @ b)"

fun intercalate :: "string \<Rightarrow> string list \<Rightarrow> string" where
  "intercalate sep [] = []"
| "intercalate sep [x] = x"
| "intercalate sep (x # y # xs) = x @ sep @ intercalate sep (y # xs)"

lemma intercalate_snoc: "intercalate sep (xs @ [x]) = concat (map (\<lambda>y. y @ sep) xs) @ x"
  by (induction sep xs rule: intercalate.induct) auto

lemma c_memcmp_eq_0:
  "n \<le> length xs \<Longrightarrow> n \<le> length ys \<Longrightarrow> c_memcmp xs ys n = 0 \<longleftrightarrow> take n xs = take n ys"
proof (induction xs ys n rule: c_memcmp.induct)
  case (1 x xs y ys n)
  then show ?case by (auto dest: arg_cong[where f = "char_of :: nat \<Rightarrow> char"])
qed auto

lemma sep_at_iff:
  assumes "j + seplen \<le> length s" "seplen = length sep" "seplen \<noteq> 0"
  shows "sep_at s sep seplen j \<longleftrightarrow> take seplen (drop j s) = sep"
proof -
  have "seplen = 1 \<Longrightarrow> s ! j = sep ! 0 \<Longrightarrow> take seplen (drop j s) = sep"
    using assms by (cases sep) (auto simp: take_Suc_conv_app_nth)
  with assms show ?thesis by (auto simp: sep_at_def c_memcmp_eq_0)
qed

definition split_inv :: "char list \<Rightarrow> char list \<Rightarrow> nat \<Rightarrow> nat \<Rightarrow> sds list \<Rightarrow> bool" where
  "split_inv s sep start j tokens \<longleftrightarrow>
     start \<le> j \<and> start \<le> length s \<and> (\<forall>t \<in> set tokens. wf_sds t \<and> \<not> contains (sds_str t) sep) \<and>
     concat (map (\<lambda>t. sds_str t @ sep) tokens) = take start s \<and>
     (\<forall>k. start \<le> k \<and> k < j \<longrightarrow> take (length sep) (drop k s) \<noteq> sep)"

lemma no_sep_inside:
  assumes "\<forall>k. start \<le> k \<and> k < j \<longrightarrow> take (length sep) (drop k s) \<noteq> sep" "sep \<noteq> []"
    "stop \<le> j + length sep - 1" "stop \<le> length s"
  shows "\<not> contains (take (stop - start) (drop start s)) sep"
proof
  assume "contains (take (stop - start) (drop start s)) sep"
  then obtain a b where ab: "take (stop - start) (drop start s) = a @ sep @ b"
    by (auto simp: contains_def)
  then have "length (a @ sep @ b) \<le> stop - start" by (metis length_take min.cobounded2)
  moreover have "drop (start + length a) s = sep @ b @ drop (stop - start) (drop start s)"
    by (metis ab append.assoc append_eq_conv_conj append_take_drop_id drop_drop add.commute)
  moreover have "0 < length sep" using assms(2) by simp
  ultimately have "take (length sep) (drop (start + length a) s) = sep"
    "length a + length sep \<le> stop - start" by simp_all
  moreover from this(2) \<open>0 < length sep\<close> assms(3) have "start + length a < j" by arith
  ultimately show False using assms(1) by auto
qed

lemma split_loop_inv:
  assumes "good_allocator m" "length s + 18 < 2 ^ 64" "sep \<noteq> []" "length s = len" "seplen = length sep"
    "split_inv s sep start j tokens"
  shows "returns (split_loop m s len sep seplen j start slots tokens)
    (\<lambda>(start', tokens'). \<exists>j' \<ge> len + 1 - length sep. split_inv s sep start' j' tokens')"
  using assms
proof (induction m s len sep seplen j start slots tokens rule: split_loop.induct)
  case (1 m s len sep seplen j start slots tokens)
  have "0 < length sep" using "1.prems"(3) by simp
  then have seplen: "seplen \<noteq> 0" "max 1 seplen = seplen" using "1.prems"(5) by linarith+
  show ?case
  proof (cases "j + seplen < len + 1")
    case False
    with "1.prems" show ?thesis
      by (subst split_loop.simps) (auto intro: exI[of _ j])
  next
    case True
    let ?room = "if slots < length tokens + 2
               then (case m (size_t (8 * (slots * 2))) of None \<Rightarrow> Inl OutOfMemory
                     | Some _ \<Rightarrow> Inr (slots * 2))
               else Inr slots"
    have room: "returns ?room (\<lambda>k. ?room = Inr k)" by (auto split: option.split)
    have sep: "sep_at s sep seplen j \<longleftrightarrow> take seplen (drop j s) = sep"
      using True "1.prems" seplen by (intro sep_at_iff) auto
    show ?thesis
    proof (subst split_loop.simps, simp only: True not_True_eq_False if_False, rule returns_bind[OF room])
      fix k assume k: "?room = Inr k"
      show "returns (if sep_at s sep seplen j
        then bindR (sdsnewlen m (Some (drop start s)) (j - start)) (\<lambda>token.
             split_loop m s len sep seplen (j + max 1 seplen) (j + seplen) k (tokens @ [token]))
        else split_loop m s len sep seplen (j + 1) start k tokens)
        (\<lambda>(start', tokens'). \<exists>j' \<ge> len + 1 - length sep. split_inv s sep start' j' tokens')"
      proof (cases "sep_at s sep seplen j")
        case found: True
        have "returns (sdsnewlen m (Some (drop start s)) (j - start))
            (\<lambda>t. wf_sds t \<and> sds_str t = take (j - start) (drop start s))"
          using "1.prems" True by (intro sdsnewlen_str) (auto simp: split_inv_def)
        then have "returns (bindR (sdsnewlen m (Some (drop start s)) (j - start)) (\<lambda>token.
             split_loop m s len sep seplen (j + max 1 seplen) (j + seplen) k (tokens @ [token])))
            (\<lambda>(start', tokens'). \<exists>j' \<ge> len + 1 - length sep. split_inv s sep start' j' tokens')"
        proof (rule returns_bind)
          fix t assume eq: "sdsnewlen m (Some (drop start s)) (j - start) = Inr t"
            and t: "wf_sds t \<and> sds_str t = take (j - start) (drop start s)"
          have "\<not> contains (sds_str t) sep"
          proof -
            have "j \<le> j + length sep - 1" "j \<le> length s"
              using \<open>0 < length sep\<close> "1.prems"(4) True by linarith+
            then show ?thesis
              using t "1.prems"(3,6) no_sep_inside[of start j sep s j] by (simp add: split_inv_def)
          qed
          moreover have "take start s @ sds_str t @ sep = take (j + seplen) s"
          proof -
            have "take (j + seplen) s = take j s @ sep" using found sep by (simp add: take_add)
            moreover have "take j s = take start s @ sds_str t"
              using t "1.prems"(6) by (simp add: split_inv_def flip: take_add)
            ultimately show ?thesis by simp
          qed
          ultimately have "split_inv s sep (j + seplen) (j + max 1 seplen) (tokens @ [t])"
            using "1.prems" True t seplen by (auto simp: split_inv_def)
          with 1(1)[OF _ k found eq] "1.prems" True seplen
          show "returns (split_loop m s len sep seplen (j + max 1 seplen) (j + seplen) k (tokens @ [t]))
            (\<lambda>(start', tokens'). \<exists>j' \<ge> len + 1 - length sep. split_inv s sep start' j' tokens')"
            by simp
        qed
        with found show ?thesis by simp
      next
        case missed: False
        with sep "1.prems" have "split_inv s sep start (j + 1) tokens"
          by (auto simp: split_inv_def less_Suc_eq)
        with 1(2)[OF _ k missed] "1.prems" True missed show ?thesis by simp
      qed
    qed
  qed
qed

theorem sdssplitlen_str:
  assumes "good_allocator m" "length s + 18 < 2 ^ 64" "sep \<noteq> []" "s \<noteq> []"
  shows "returns (sdssplitlen m s (int (length s)) sep (int (length sep)))
    (\<lambda>r. \<exists>tokens. r = Some tokens \<and> intercalate sep (map sds_str tokens) = s \<and>
       (\<forall>t \<in> set tokens. wf_sds t \<and> \<not> contains (sds_str t) sep))"
proof -
  have start: "split_inv s sep 0 0 []" by (simp add: split_inv_def)
  have sep: "length sep \<noteq> 0" using assms(3) by simp
  show ?thesis
  proof (cases "m 40")
    case None
    then show ?thesis using assms(3,4) by (simp add: sdssplitlen_def)
  next
    case (Some b)
    have "returns (bindR (split_loop m s (length s) sep (length sep) 0 0 5 []) (\<lambda>(start, tokens).
               bindR (sdsnewlen m (Some (drop start s)) (length s - start)) (\<lambda>token.
               Inr (Some (tokens @ [token])))))
       (\<lambda>r. \<exists>tokens. r = Some tokens \<and> intercalate sep (map sds_str tokens) = s \<and>
       (\<forall>t \<in> set tokens. wf_sds t \<and> \<not> contains (sds_str t) sep))"
    proof (rule returns_bind[OF split_loop_inv[OF assms(1-3) refl refl start]], clarify)
      fix st ts j' assume j': "length s + 1 - length sep \<le> j'" and inv: "split_inv s sep st j' ts"
      then have st: "st \<le> length s" by (simp add: split_inv_def)
      have "returns (sdsnewlen m (Some (drop st s)) (length s - st))
          (\<lambda>t. wf_sds t \<and> sds_str t = take (length s - st) (drop st s))"
        using assms st by (intro sdsnewlen_str) auto
      then show "returns (bindR (sdsnewlen m (Some (drop st s)) (length s - st)) (\<lambda>token.
               Inr (Some (ts @ [token]))))
       (\<lambda>r. \<exists>tokens. r = Some tokens \<and> intercalate sep (map sds_str tokens) = s \<and>
       (\<forall>t \<in> set tokens. wf_sds t \<and> \<not> contains (sds_str t) sep))"
      proof (rule returns_bind)
        fix t assume t: "wf_sds t \<and> sds_str t = take (length s - st) (drop st s)"
        have "\<not> contains (sds_str t) sep"
        proof -
          have "length s \<le> j' + length sep - 1" using j' sep by linarith
          then show ?thesis
            using t inv assms(3) no_sep_inside[of st j' sep s "length s"] by (simp add: split_inv_def)
        qed
        moreover have "concat (map ((\<lambda>y. y @ sep) \<circ> sds_str) ts) @ sds_str t = s"
          using inv t by (simp add: split_inv_def comp_def)
        ultimately show "returns (Inr (Some (ts @ [t])))
         (\<lambda>r. \<exists>tokens. r = Some tokens \<and> intercalate sep (map sds_str tokens) = s \<and>
           (\<forall>t \<in> set tokens. wf_sds t \<and> \<not> contains (sds_str t) sep))"
          using inv t by (auto simp: intercalate_snoc split_inv_def comp_def)
      qed
    qed
    with Some show ?thesis using assms(3,4) by (simp add: sdssplitlen_def)
  qed
qed

section \<open>Properties\<close>

text \<open>C35: \<open>sdsrange\<close> leaves the slice of the string from \<open>start\<close> to \<open>end\<close>, both included and
  counted from the right when negative, clipped to the string, without leaving the block.\<close>

theorem sdsrange_slices:
  assumes "wf_sds s" "sdslen s < 2 ^ 31" "- (2 ^ 31) \<le> start" "start < 2 ^ 31"
    "- (2 ^ 31) \<le> end'" "end' < 2 ^ 31 - 1"
  shows "succeeds (sdsrange s start end') (\<lambda>s'. wf_sds s' \<and> sds_str s' = slice (sds_str s) start end')"
  by (rule sdsrange_str[OF assms])

theorem sdsrange_witness:
  "succeeds (sdsrange abc_sds (- 2) (- 1)) (\<lambda>s'. wf_sds s' \<and> sds_str s' = ''bc'')"
  using sdsrange_slices[of abc_sds "- 2" "- 1"] by (simp add: slice_def slice_index_def Let_def)

text \<open>C36: splitting a text by a separator gives tokens that contain no separator and that give
  the text back when joined with it; the vector growth and the clean-up stay in bounds.\<close>

theorem sdssplitlen_tokens:
  assumes "good_allocator m" "length s + 18 < 2 ^ 64" "sep \<noteq> []" "s \<noteq> []"
  shows "returns (sdssplitlen m s (int (length s)) sep (int (length sep)))
    (\<lambda>r. \<exists>tokens. r = Some tokens \<and> intercalate sep (map sds_str tokens) = s \<and>
       (\<forall>t \<in> set tokens. wf_sds t \<and> \<not> contains (sds_str t) sep))"
  by (rule sdssplitlen_str[OF assms])

theorem sdssplitlen_witness:
  "returns (sdssplitlen zero_alloc ''a,,b'' 4 '','' 1)
    (\<lambda>r. \<exists>tokens. r = Some tokens \<and> intercalate '','' (map sds_str tokens) = ''a,,b'' \<and>
       (\<forall>t \<in> set tokens. wf_sds t \<and> \<not> contains (sds_str t) '',''))"
  using sdssplitlen_tokens[of zero_alloc "''a,,b''" "'',''"] by simp

end
