(* ===== verification/SdsText.thy ===== *)
theory SdsText
  imports SdsOps
begin

text \<open>
  Text in and out of dynamic strings (src/redis/sds.c): decimal numbers, the two formatted
  appends, the quoted representation and the splitting of a command line into arguments.
\<close>

section \<open>Decimal numbers\<close>

text \<open>
  \<open>sdsll2str\<close> and \<open>sdsull2str\<close> write the digits from the last to the first into a buffer of
  \<open>SDS_LLSTR_SIZE\<close> bytes and then reverse it in place; the model returns the bytes before the
  NUL.  Negating the least \<open>long long\<close> wraps, which gives the right unsigned value.
\<close>

definition SDS_LLSTR_SIZE :: nat where
  "SDS_LLSTR_SIZE = 21"

definition digit_char :: "nat \<Rightarrow> char" where
  "digit_char d = char_of (48 + d)"

fun digits_rev :: "nat \<Rightarrow> string" where
  "digits_rev v = digit_char (v mod 10) # (if v div 10 = 0 then [] else digits_rev (v div 10))"

declare digits_rev.simps [simp del]

function rev_in_place :: "char list \<Rightarrow> nat \<Rightarrow> nat \<Rightarrow> char list" where
  "rev_in_place buf i j =
     (if i < j then rev_in_place (buf[i := buf ! j, j := buf ! i]) (i + 1) (j - 1) else buf)"
  by pat_completeness auto
termination
  by (relation "measure (\<lambda>(buf, i, j). j - i)") auto

declare rev_in_place.simps [simp del]

definition sdsll2str :: "int \<Rightarrow> string" where
  "sdsll2str value =
     (let v = nat ((if value < 0 then - value else value) mod 2 ^ 64);
          buf = digits_rev v @ (if value < 0 then [CHR ''-''] else [])
      in rev_in_place buf 0 (length buf - 1))"

definition sdsull2str :: "nat \<Rightarrow> string" where
  "sdsull2str v = (let buf = digits_rev v in rev_in_place buf 0 (length buf - 1))"

definition sdsfromlonglong :: "allocator \<Rightarrow> int \<Rightarrow> sds res" where
  "sdsfromlonglong m value =
     (let buf = cstr (sdsll2str value) in sdsnewlen m (Some buf) (length buf - 1))"

section \<open>Formatted appends\<close>

text \<open>
  \<open>sdscatvprintf\<close>: \<open>out\<close> is the text \<open>vsnprintf\<close> would write into an unbounded buffer.  The
  code retries with a buffer twice as large until the byte before the last is still the NUL it
  put there.
\<close>

definition vsnprintf_buf :: "nat \<Rightarrow> string \<Rightarrow> char list" where
  "vsnprintf_buf buflen out = take (buflen - 1) out @ [NUL]"

function vprintf_loop :: "allocator \<Rightarrow> string \<Rightarrow> nat \<Rightarrow> char list res" where
  "vprintf_loop m out buflen =
     (if buflen \<ge> 2 \<and> buflen \<le> length out + 1 \<and> out ! (buflen - 2) \<noteq> NUL
      then (case m (size_t (buflen * 2)) of None \<Rightarrow> Inl OutOfMemory
            | Some _ \<Rightarrow> vprintf_loop m out (buflen * 2))
      else Inr (vsnprintf_buf buflen out))"
  by pat_completeness auto
termination
  by (relation "measure (\<lambda>(m, out, buflen). length out + 2 - buflen)") auto

declare vprintf_loop.simps [simp del]

definition sdscatvprintf :: "allocator \<Rightarrow> sds \<Rightarrow> nat \<Rightarrow> string \<Rightarrow> sds res" where
  "sdscatvprintf m s fmtlen out =
     bindR (if 1024 < fmtlen * 2
            then (case m (size_t (fmtlen * 2)) of None \<Rightarrow> Inl OutOfMemory
                  | Some _ \<Rightarrow> vprintf_loop m out (fmtlen * 2))
            else vprintf_loop m out 1024) (sdscat m s)"

text \<open>
  The variadic arguments of \<open>sdscatfmt\<close>.  Reading an \<open>unsigned int\<close> where the caller passed
  a \<open>size_t\<close> (as \<open>redisFormatSdsCommandArgv\<close> does) yields its low 32 bits on the platforms
  the code builds for; every other mismatch is a fault.
\<close>

datatype va = VaStr "char list" | VaSds sds | VaInt int | VaLL int | VaUInt nat | VaULL nat | VaDouble

definition catfmt_room :: "allocator \<Rightarrow> sds \<Rightarrow> nat \<Rightarrow> sds res" where
  "catfmt_room m s l = (if sdsavail s < l then sdsMakeRoomFor m s l else Inr s)"

text \<open>The write position is a C \<open>int\<close>.\<close>

definition catfmt_store :: "sds \<Rightarrow> int \<Rightarrow> char list \<Rightarrow> sds res" where
  "catfmt_store s i xs = (if i < 0 then Inl OutOfBounds else sds_store s (nat i) xs)"

definition catfmt_put :: "allocator \<Rightarrow> sds \<Rightarrow> int \<Rightarrow> char list \<Rightarrow> sds res" where
  "catfmt_put m s i xs =
     bind_unchecked (catfmt_room m s (length xs)) (\<lambda>s.
     bindR (catfmt_store s i xs) (\<lambda>s. Inr (sdsinclen s (length xs))))"

text \<open>The bytes a conversion appends, and the arguments left after it.\<close>

fun catfmt_arg :: "char \<Rightarrow> va list \<Rightarrow> (char list \<times> va list) res" where
  "catfmt_arg c args =
     (if c = CHR ''s'' then
        (case args of VaStr p # as \<Rightarrow> bindR (c_strlen p) (\<lambda>l. Inr (take l p, as)) | _ \<Rightarrow> Inl BadVarArg)
      else if c = CHR ''S'' then
        (case args of VaSds t # as \<Rightarrow> bindR (sds_load t 0 (sdslen t)) (\<lambda>xs. Inr (xs, as))
         | _ \<Rightarrow> Inl BadVarArg)
      else if c = CHR ''i'' then
        (case args of VaInt v # as \<Rightarrow> Inr (sdsll2str v, as) | _ \<Rightarrow> Inl BadVarArg)
      else if c = CHR ''I'' then
        (case args of VaLL v # as \<Rightarrow> Inr (sdsll2str v, as) | _ \<Rightarrow> Inl BadVarArg)
      else if c = CHR ''u'' then
        (case args of VaUInt v # as \<Rightarrow> Inr (sdsull2str v, as)
         | VaULL v # as \<Rightarrow> Inr (sdsull2str (v mod 2 ^ 32), as) | _ \<Rightarrow> Inl BadVarArg)
      else if c = CHR ''U'' then
        (case args of VaULL v # as \<Rightarrow> Inr (sdsull2str v, as) | _ \<Rightarrow> Inl BadVarArg)
      else Inr ([c], args))"

declare catfmt_arg.simps [simp del]

text \<open>The loop over the format, with the write position \<open>i\<close>.  A \<open>%\<close> at the end of the format
  makes the code step over the terminator.\<close>

fun catfmt_loop :: "allocator \<Rightarrow> sds \<Rightarrow> int \<Rightarrow> string \<Rightarrow> va list \<Rightarrow> sds res" where
  "catfmt_loop m s i [] args = catfmt_store s i [NUL]"
| "catfmt_loop m s i (f # fs) args =
     bind_unchecked (catfmt_room m s 1) (\<lambda>s.
     if f = CHR ''%'' then
       (case fs of [] \<Rightarrow> Inl OutOfBounds
        | c # fs' \<Rightarrow>
            bindR (catfmt_arg c args) (\<lambda>(xs, args').
            bindR (catfmt_put m s i xs) (\<lambda>s.
            catfmt_loop m s (to_int (i + int (length xs))) fs' args')))
     else bindR (catfmt_put m s i [f]) (\<lambda>s. catfmt_loop m s (to_int (i + 1)) fs args))"

definition sdscatfmt :: "allocator \<Rightarrow> sds \<Rightarrow> string \<Rightarrow> va list \<Rightarrow> sds res" where
  "sdscatfmt m s fmt args = catfmt_loop m s (to_int (int (sdslen s))) fmt args"

section \<open>Quoted strings\<close>

definition c_isprint :: "char \<Rightarrow> bool" where
  "c_isprint c \<longleftrightarrow> 32 \<le> ord c \<and> ord c \<le> 126"

definition c_isspace :: "char \<Rightarrow> bool" where
  "c_isspace c \<longleftrightarrow> ord c = 32 \<or> (9 \<le> ord c \<and> ord c \<le> 13)"

definition hex_digit :: "nat \<Rightarrow> char" where
  "hex_digit d = (if d < 10 then char_of (48 + d) else char_of (87 + d))"

text \<open>The text of one byte; the three last cases go through \<open>sdscatprintf\<close> in the code.\<close>

definition repr_char :: "char \<Rightarrow> string" where
  "repr_char c =
     (if c = CHR 0x5C \<or> c = CHR 0x22 then [CHR 0x5C, c]
      else if c = CHR 0x0A then [CHR 0x5C, CHR ''n'']
      else if c = CHR 0x0D then [CHR 0x5C, CHR ''r'']
      else if c = CHR 0x09 then [CHR 0x5C, CHR ''t'']
      else if c = CHR 0x07 then [CHR 0x5C, CHR ''a'']
      else if c = CHR 0x08 then [CHR 0x5C, CHR ''b'']
      else if c_isprint c then [c]
      else [CHR 0x5C, CHR ''x'', hex_digit (ord c div 16), hex_digit (ord c mod 16)])"

definition repr_put :: "allocator \<Rightarrow> sds \<Rightarrow> char \<Rightarrow> sds res" where
  "repr_put m s c =
     (if c = CHR 0x5C \<or> c = CHR 0x22 then sdscatvprintf m s 3 (repr_char c)
      else if c \<in> {CHR 0x0A, CHR 0x0D, CHR 0x09, CHR 0x07, CHR 0x08} then sdscatlen m s (repr_char c) 2
      else if c_isprint c then sdscatvprintf m s 2 (repr_char c)
      else sdscatvprintf m s 6 (repr_char c))"

fun repr_loop :: "allocator \<Rightarrow> sds res \<Rightarrow> char list \<Rightarrow> nat \<Rightarrow> sds res" where
  "repr_loop m s p 0 = s"
| "repr_loop m s [] (Suc n) = Inl OutOfBounds"
| "repr_loop m s (c # p) (Suc n) = repr_loop m (bind_unchecked s (\<lambda>s. repr_put m s c)) p n"

definition sdscatrepr :: "allocator \<Rightarrow> sds \<Rightarrow> char list \<Rightarrow> nat \<Rightarrow> sds res" where
  "sdscatrepr m s p len =
     bind_unchecked (repr_loop m (sdscatlen m s (cstr [CHR 0x22]) 1) p len)
       (\<lambda>s. sdscatlen m s (cstr [CHR 0x22]) 1)"

section \<open>Splitting a command line\<close>

definition is_hex_digit :: "char \<Rightarrow> bool" where
  "is_hex_digit c \<longleftrightarrow> (48 \<le> ord c \<and> ord c \<le> 57) \<or> (97 \<le> ord c \<and> ord c \<le> 102) \<or>
     (65 \<le> ord c \<and> ord c \<le> 70)"

definition hex_digit_to_int :: "char \<Rightarrow> nat" where
  "hex_digit_to_int c =
     (if 48 \<le> ord c \<and> ord c \<le> 57 then ord c - 48
      else if 97 \<le> ord c \<and> ord c \<le> 102 then ord c - 87
      else if 65 \<le> ord c \<and> ord c \<le> 70 then ord c - 55 else 0)"

definition unescape :: "char \<Rightarrow> char" where
  "unescape c =
     (if c = CHR ''n'' then CHR 0x0A else if c = CHR ''r'' then CHR 0x0D
      else if c = CHR ''t'' then CHR 0x09 else if c = CHR ''b'' then CHR 0x08
      else if c = CHR ''a'' then CHR 0x07 else c)"

text \<open>
  One token.  The line is the text before its NUL, so the empty suffix is the byte 0 the code
  tests.  \<open>None\<close> is the jump to the error exit; the append is unchecked, so it dereferences a
  NULL left by the append before it.
\<close>

datatype quoting = Unquoted | DoubleQuoted | SingleQuoted

definition put_char :: "allocator \<Rightarrow> sds res \<Rightarrow> char \<Rightarrow> sds res" where
  "put_char m cur c = bind_unchecked cur (\<lambda>s. sdscatlen m s [c] 1)"

definition closing_ok :: "string \<Rightarrow> bool" where
  "closing_ok rest \<longleftrightarrow> (case rest of [] \<Rightarrow> True | c # _ \<Rightarrow> c_isspace c)"

fun next_token :: "allocator \<Rightarrow> quoting \<Rightarrow> sds res \<Rightarrow> string \<Rightarrow> (sds res \<times> string) option" where
  "next_token m DoubleQuoted cur [] = None"
| "next_token m DoubleQuoted cur (c # p) =
     (if c = CHR 0x5C \<and> 3 \<le> length p \<and> p ! 0 = CHR ''x'' \<and> is_hex_digit (p ! 1) \<and> is_hex_digit (p ! 2)
      then next_token m DoubleQuoted
             (put_char m cur (char_of (hex_digit_to_int (p ! 1) * 16 + hex_digit_to_int (p ! 2)))) (drop 3 p)
      else if c = CHR 0x5C \<and> p \<noteq> []
      then next_token m DoubleQuoted (put_char m cur (unescape (hd p))) (drop 1 p)
      else if c = CHR 0x22
      then (if closing_ok p then Some (cur, p) else None)
      else next_token m DoubleQuoted (put_char m cur c) p)"
| "next_token m SingleQuoted cur [] = None"
| "next_token m SingleQuoted cur (c # p) =
     (if c = CHR 0x5C \<and> p \<noteq> [] \<and> hd p = CHR 0x27
      then next_token m SingleQuoted (put_char m cur (CHR 0x27)) (drop 1 p)
      else if c = CHR 0x27
      then (if closing_ok p then Some (cur, p) else None)
      else next_token m SingleQuoted (put_char m cur c) p)"
| "next_token m Unquoted cur [] = Some (cur, [])"
| "next_token m Unquoted cur (c # p) =
     (if c \<in> {CHR '' '', CHR 0x0A, CHR 0x0D, CHR 0x09} then Some (cur, p)
      else if c = CHR 0x22 then next_token m DoubleQuoted cur p
      else if c = CHR 0x27 then next_token m SingleQuoted cur p
      else next_token m Unquoted (put_char m cur c) p)"

lemma next_token_shorter: "next_token m q cur p = Some (cur', p') \<Longrightarrow> length p' \<le> length p"
proof (induction m q cur p rule: next_token.induct)
qed (auto split: if_splits)

lemma next_token_shorter': "next_token m q cur (c # p) = Some (cur', p') \<Longrightarrow> length p' \<le> length p"
  by (cases q) (auto split: if_splits dest!: next_token_shorter)

text \<open>
  The outer loop.  The vector grows by an unchecked \<open>realloc\<close> per token.  A token whose last
  append was refused is a NULL entry of the vector in the code and ends the model's run with
  \<open>OutOfMemory\<close>.
\<close>

function splitargs_loop :: "allocator \<Rightarrow> string \<Rightarrow> sds list \<Rightarrow> sds list option res" where
  "splitargs_loop m p vector =
     (case dropWhile c_isspace p of
        [] \<Rightarrow> (if vector = [] then (case m 8 of None \<Rightarrow> Inl OutOfMemory | Some _ \<Rightarrow> Inr (Some []))
              else Inr (Some vector))
      | c # p' \<Rightarrow>
          (case next_token m Unquoted (sdsempty m) (c # p') of
             None \<Rightarrow> Inr None
           | Some (cur, rest) \<Rightarrow>
               bindR cur (\<lambda>token.
               (case m (size_t ((length vector + 1) * 8)) of
                  None \<Rightarrow> Inl NullPointer
                | Some _ \<Rightarrow> splitargs_loop m rest (vector @ [token])))))"
  by pat_completeness auto
termination
proof (relation "measure (\<lambda>(m, p, vector). length p)", goal_cases)
  case (2 m p vector c p' x cur rest token b)
  have "length (c # p') \<le> length p" using 2(1) length_dropWhile_le[of c_isspace p] by simp
  moreover have "length rest \<le> length p'" using 2 next_token_shorter' by fastforce
  ultimately show ?case by simp
qed simp

declare splitargs_loop.simps [simp del]

definition sdssplitargs :: "allocator \<Rightarrow> string \<Rightarrow> sds list option res" where
  "sdssplitargs m line = splitargs_loop m line []"


section \<open>Numbers: what is printed\<close>

lemma length_rev_in_place [simp]: "length (rev_in_place buf i j) = length buf"
  by (induction buf i j rule: rev_in_place.induct) (subst rev_in_place.simps, simp)

lemma rev_in_place_nth:
  "j < length buf \<Longrightarrow> k < length buf \<Longrightarrow>
     rev_in_place buf i j ! k = (if i \<le> k \<and> k \<le> j then buf ! (i + j - k) else buf ! k)"
proof (induction buf i j rule: rev_in_place.induct)
  case (1 buf i j)
  show ?case
  proof (cases "i < j")
    case True
    with 1 have "j - 1 < length (buf[i := buf ! j, j := buf ! i])"
      "k < length (buf[i := buf ! j, j := buf ! i])" by auto
    from "1.IH"[OF True this] True "1.prems" show ?thesis
      by (subst rev_in_place.simps) (auto simp: nth_list_update intro: arg_cong[where f = "(!) buf"])
  next
    case False
    then have "i \<le> k \<Longrightarrow> k \<le> j \<Longrightarrow> i + j - k = k" by arith
    with False show ?thesis by (subst rev_in_place.simps) auto
  qed
qed

lemma rev_in_place_rev: "buf \<noteq> [] \<Longrightarrow> rev_in_place buf 0 (length buf - 1) = rev buf"
proof (rule nth_equalityI)
  fix i assume "buf \<noteq> []" "i < length (rev_in_place buf 0 (length buf - 1))"
  then show "rev_in_place buf 0 (length buf - 1) ! i = rev buf ! i"
    by (subst rev_in_place_nth) (auto simp: rev_nth Suc_le_eq)
qed simp

text \<open>The decimal numeral of a number and its value.\<close>

definition dec :: "nat \<Rightarrow> string" where
  "dec v = rev (digits_rev v)"

definition dec_val :: "string \<Rightarrow> nat" where
  "dec_val s = foldl (\<lambda>a c. 10 * a + (ord c - 48)) 0 s"

definition is_digit :: "char \<Rightarrow> bool" where
  "is_digit c \<longleftrightarrow> 48 \<le> ord c \<and> ord c \<le> 57"

lemma digits_rev_not_Nil [simp]: "digits_rev v \<noteq> []"
  by (subst digits_rev.simps) simp

lemma dec_not_Nil [simp]: "dec v \<noteq> []"
  by (simp add: dec_def)

lemma ord_digit_char [simp]: "d < 10 \<Longrightarrow> ord (digit_char d) = 48 + d"
  by (simp add: digit_char_def)

lemma dec_rec: "dec v = (if v < 10 then [] else dec (v div 10)) @ [digit_char (v mod 10)]"
  by (auto simp: dec_def digits_rev.simps[of v] div_eq_0_iff)

lemma dec_digits: "\<forall>c \<in> set (dec v). is_digit c"
proof (induction v rule: less_induct)
  case (less v)
  have "10 \<le> v \<Longrightarrow> \<forall>c \<in> set (dec (v div 10)). is_digit c" by (rule less.IH) simp
  then show ?case by (subst dec_rec) (auto simp: is_digit_def)
qed

lemma dec_val_snoc: "dec_val (s @ [c]) = 10 * dec_val s + (ord c - 48)"
  by (simp add: dec_val_def)

lemma dec_val_dec [simp]: "dec_val (dec v) = v"
proof (induction v rule: less_induct)
  case (less v)
  then show ?case
    by (subst dec_rec) (auto simp: dec_val_snoc, simp add: dec_val_def)
qed

lemma dec_length_bound: "v < 10 ^ k \<Longrightarrow> 0 < k \<Longrightarrow> length (dec v) \<le> k"
proof (induction v arbitrary: k rule: less_induct)
  case (less v)
  show ?case
  proof (cases "v < 10")
    case True
    with less.prems show ?thesis by (subst dec_rec) simp
  next
    case False
    with less.prems have k: "k \<noteq> 1" by auto
    with less.prems(2) obtain k' where k': "k = Suc k'" "0 < k'" by (cases k) auto
    with less.prems(1) have "v div 10 < 10 ^ k'" by (simp add: less_mult_imp_div_less)
    with less.IH[of "v div 10" k'] False k' show ?thesis by (subst dec_rec) simp
  qed
qed

lemma dec_no_leading_zero: "0 < v \<Longrightarrow> ord (hd (dec v)) \<noteq> 48"
proof (induction v rule: less_induct)
  case (less v)
  show ?case
  proof (cases "v < 10")
    case True
    with less.prems show ?thesis by (subst dec_rec) simp
  next
    case False
    with less.IH[of "v div 10"] show ?thesis by (subst dec_rec) simp
  qed
qed

lemma sdsull2str_dec: "sdsull2str v = dec v"
  using rev_in_place_rev[of "digits_rev v"] by (simp add: sdsull2str_def dec_def Let_def)

lemma sdsll2str_dec:
  assumes "- (2 ^ 63) \<le> v" "v < 2 ^ 63"
  shows "sdsll2str v = (if v < 0 then CHR ''-'' # dec (nat (- v)) else dec (nat v))"
proof -
  have "nat ((if v < 0 then - v else v) mod 2 ^ 64) = nat (if v < 0 then - v else v)"
    using assms by simp
  then show ?thesis
    unfolding sdsll2str_def Let_def
    by (subst rev_in_place_rev) (auto simp: dec_def)
qed

theorem sdsll2str_fits:
  assumes "- (2 ^ 63) \<le> v" "v < 2 ^ 63"
  shows "length (cstr (sdsll2str v)) \<le> SDS_LLSTR_SIZE"
proof (cases "v < 0")
  case True
  have "length (dec (nat (- v))) \<le> 19" using assms True by (intro dec_length_bound) auto
  with True assms show ?thesis by (simp add: sdsll2str_dec SDS_LLSTR_SIZE_def)
next
  case False
  have "length (dec (nat v)) \<le> 19" using assms False by (intro dec_length_bound) auto
  with False assms show ?thesis by (simp add: sdsll2str_dec SDS_LLSTR_SIZE_def)
qed

lemma sdsull2str_length: "v < 2 ^ 64 \<Longrightarrow> length (sdsull2str v) \<le> 20"
  unfolding sdsull2str_dec by (rule dec_length_bound) auto


section \<open>Formatted appends: what is appended\<close>

lemma takeWhile_take: "takeWhile P (take n xs) = take n (takeWhile P xs)"
  by (induction xs arbitrary: n) (auto simp: take_Cons split: nat.splits)

lemma takeWhile_NUL_snoc: "takeWhile (\<lambda>c. c \<noteq> NUL) (xs @ [NUL]) = takeWhile (\<lambda>c. c \<noteq> NUL) xs"
  by (induction xs) auto

lemma length_takeWhile_NUL: "NUL \<in> set p \<Longrightarrow> length (takeWhile (\<lambda>c. c \<noteq> NUL) p) < length p"
  by (induction p) auto

lemma vprintf_loop_text:
  "2 \<le> buflen \<Longrightarrow> total_allocator m \<Longrightarrow>
     \<exists>buf. vprintf_loop m out buflen = Inr buf \<and>
       c_strlen buf = Inr (length (takeWhile (\<lambda>c. c \<noteq> NUL) out)) \<and>
       take (length (takeWhile (\<lambda>c. c \<noteq> NUL) out)) buf = takeWhile (\<lambda>c. c \<noteq> NUL) out"
proof (induction m out buflen rule: vprintf_loop.induct)
  case (1 m out buflen)
  show ?case
  proof (cases "buflen \<ge> 2 \<and> buflen \<le> length out + 1 \<and> out ! (buflen - 2) \<noteq> NUL")
    case True
    obtain b where b: "m (size_t (buflen * 2)) = Some b"
      using "1.prems"(2) by (auto simp: total_allocator_def)
    from "1.IH"[OF True b] "1.prems" have
      "\<exists>buf. vprintf_loop m out (buflen * 2) = Inr buf \<and>
       c_strlen buf = Inr (length (takeWhile (\<lambda>c. c \<noteq> NUL) out)) \<and>
       take (length (takeWhile (\<lambda>c. c \<noteq> NUL) out)) buf = takeWhile (\<lambda>c. c \<noteq> NUL) out" by simp
    with True b show ?thesis by (subst vprintf_loop.simps) simp
  next
    case False
    let ?t = "takeWhile (\<lambda>c. c \<noteq> NUL) out"
    have short: "length ?t \<le> buflen - 1"
    proof (rule ccontr)
      assume "\<not> length ?t \<le> buflen - 1"
      then have lt: "buflen - 1 < length ?t" by simp
      with length_takeWhile_le[of "\<lambda>c. c \<noteq> NUL" out] have "buflen \<le> length out + 1" by linarith
      moreover have "?t ! (buflen - 2) \<in> set ?t" using lt by (intro nth_mem) simp
      then have "out ! (buflen - 2) \<noteq> NUL" using lt by (auto simp: takeWhile_nth dest: set_takeWhileD)
      ultimately show False using False "1.prems"(1) by simp
    qed
    have "takeWhile (\<lambda>c. c \<noteq> NUL) (vsnprintf_buf buflen out) = ?t"
      using short by (simp add: vsnprintf_buf_def takeWhile_NUL_snoc takeWhile_take)
    moreover have "length ?t < length (vsnprintf_buf buflen out)"
      using short length_takeWhile_le[of "\<lambda>c. c \<noteq> NUL" out] by (simp add: vsnprintf_buf_def)
    moreover have "take (length ?t) (vsnprintf_buf buflen out) = ?t"
      using calculation by (metis takeWhile_eq_take)
    ultimately have "c_strlen (vsnprintf_buf buflen out) = Inr (length ?t)"
      by (simp add: c_strlen_def)
    moreover have "vprintf_loop m out buflen = Inr (vsnprintf_buf buflen out)"
      using False by (subst vprintf_loop.simps) (simp only: if_False)
    ultimately show ?thesis using \<open>take (length ?t) (vsnprintf_buf buflen out) = ?t\<close> by blast
  qed
qed

lemma sdscatvprintf_ok:
  assumes "total_allocator m" "wf_sds s" "sdslen s + length out < 2 ^ 62"
  shows "succeeds (sdscatvprintf m s fmtlen out)
    (\<lambda>s'. wf_sds s' \<and> sds_str s' = sds_str s @ takeWhile (\<lambda>c. c \<noteq> NUL) out)"
proof -
  let ?t = "takeWhile (\<lambda>c. c \<noteq> NUL) out"
  define buflen where "buflen = (if 1024 < fmtlen * 2 then fmtlen * 2 else 1024)"
  obtain b where b: "m (size_t (fmtlen * 2)) = Some b"
    using assms(1) by (auto simp: total_allocator_def)
  have "2 \<le> buflen" by (simp add: buflen_def)
  from vprintf_loop_text[OF this assms(1), of out] obtain buf where buf:
    "vprintf_loop m out buflen = Inr buf" "c_strlen buf = Inr (length ?t)" "take (length ?t) buf = ?t"
    by blast
  have "sdscatvprintf m s fmtlen out = sdscatlen m s buf (length ?t)"
    using buf(1,2) b by (simp add: sdscatvprintf_def buflen_def sdscat_def split: if_splits)
  moreover have "length ?t \<le> length buf" using buf(3) by (metis length_take min.cobounded1)
  moreover have "sdslen s + length ?t < 2 ^ 62"
    using assms(3) length_takeWhile_le[of "\<lambda>c. c \<noteq> NUL" out] by linarith
  ultimately show ?thesis using sdscatlen_ok[OF assms(1,2), of "length ?t" buf] buf(3) by simp
qed

text \<open>What a format and its arguments stand for; \<open>None\<close> when they do not match.\<close>

fun render_arg :: "char \<Rightarrow> va list \<Rightarrow> (string \<times> va list) option" where
  "render_arg c args =
     (if c = CHR ''s'' then (case args of VaStr p # as \<Rightarrow>
          (if NUL \<in> set p then Some (takeWhile (\<lambda>c. c \<noteq> NUL) p, as) else None) | _ \<Rightarrow> None)
      else if c = CHR ''S'' then (case args of VaSds t # as \<Rightarrow>
          (if wf_sds t then Some (sds_str t, as) else None) | _ \<Rightarrow> None)
      else if c = CHR ''i'' then (case args of VaInt v # as \<Rightarrow> Some (sdsll2str v, as) | _ \<Rightarrow> None)
      else if c = CHR ''I'' then (case args of VaLL v # as \<Rightarrow> Some (sdsll2str v, as) | _ \<Rightarrow> None)
      else if c = CHR ''u'' then (case args of VaUInt v # as \<Rightarrow> Some (dec v, as)
          | VaULL v # as \<Rightarrow> Some (dec (v mod 2 ^ 32), as) | _ \<Rightarrow> None)
      else if c = CHR ''U'' then (case args of VaULL v # as \<Rightarrow> Some (dec v, as) | _ \<Rightarrow> None)
      else Some ([c], args))"

fun render :: "string \<Rightarrow> va list \<Rightarrow> string option" where
  "render [] args = Some []"
| "render (f # fs) args =
     (if f = CHR ''%'' then
        (case fs of [] \<Rightarrow> None
         | c # fs' \<Rightarrow> (case render_arg c args of None \<Rightarrow> None
             | Some (xs, args') \<Rightarrow> map_option ((@) xs) (render fs' args')))
      else map_option ((#) f) (render fs args))"

declare render_arg.simps [simp del]

lemma catfmt_arg_render:
  "render_arg c args = Some (xs, args') \<Longrightarrow> catfmt_arg c args = Inr (xs, args')"
  by (auto simp: render_arg.simps catfmt_arg.simps sdsull2str_dec c_strlen_def Let_def sds_str_def
      sds_load_def sdslen_def mem_read_def wf_sds_def takeWhile_eq_take[symmetric]
      length_takeWhile_NUL split: if_splits list.splits va.splits)

lemma catfmt_room_ok:
  assumes "total_allocator m" "wf_room s" "sdslen s + l < 2 ^ 62"
  shows "succeeds (catfmt_room m s l) (\<lambda>s'. wf_room s' \<and> sds_str s' = sds_str s \<and>
    sdslen s' = sdslen s \<and> l \<le> sdsavail s')"
proof (cases "sdsavail s < l")
  case True
  have "succeeds (sdsMakeRoomFor m s l) (\<lambda>s'. wf_room s' \<and> same_front s s' \<and> l \<le> sdsavail s')"
    using sdsMakeRoomFor_room[of m s l] sdsMakeRoomFor_not_oom[of m s l] assms
    by (auto intro: succeedsI)
  then have "succeeds (sdsMakeRoomFor m s l) (\<lambda>s'. wf_room s' \<and> sds_str s' = sds_str s \<and>
    sdslen s' = sdslen s \<and> l \<le> sdsavail s')"
  proof (rule succeeds_mono)
    fix s' assume s': "wf_room s' \<and> same_front s s' \<and> l \<le> sdsavail s'"
    then have "sdslen s' = sdslen s" by (simp only: same_front_def sdslen_def)
    with s' show "wf_room s' \<and> sds_str s' = sds_str s \<and> sdslen s' = sdslen s \<and> l \<le> sdsavail s'"
      by (simp add: same_front_str)
  qed
  with True show ?thesis by (simp add: catfmt_room_def)
next
  case False
  with assms show ?thesis by (simp add: catfmt_room_def)
qed

lemma catfmt_store_ok:
  assumes "wf_room s" "length xs \<le> sdsavail s"
  shows "bindR (catfmt_store s (int (sdslen s)) xs) (\<lambda>s. Inr (sdsinclen s (length xs))) =
    Inr (s\<lparr>sds_len := sdslen s + length xs,
           sds_buf := sds_str s @ xs @ drop (sdslen s + length xs) (sds_buf s)\<rparr>)"
  using assms
  by (auto simp: catfmt_store_def sds_store_Inr wf_room_def sdsinclen_def sds_str_def sdslen_def
      sdsavail_def sdsalloc_def split: if_splits)

lemma catfmt_put_ok:
  assumes "total_allocator m" "wf_room s" "sdslen s + length xs < 2 ^ 62"
  shows "succeeds (catfmt_put m s (int (sdslen s)) xs)
    (\<lambda>s'. wf_room s' \<and> sds_str s' = sds_str s @ xs \<and> sdslen s' = sdslen s + length xs)"
  unfolding catfmt_put_def
proof (rule succeeds_bind_unchecked[OF catfmt_room_ok[OF assms]])
  fix s1 assume s1: "wf_room s1 \<and> sds_str s1 = sds_str s \<and> sdslen s1 = sdslen s \<and> length xs \<le> sdsavail s1"
  then have "wf_room s1" by blast
  then have "length (sds_str s1) = sds_len s1" by (simp add: sds_str_def wf_room_def)
  with s1 catfmt_store_ok[of s1 xs] show "succeeds (bindR (catfmt_store s1 (int (sdslen s)) xs)
      (\<lambda>s. Inr (sdsinclen s (length xs)))) (\<lambda>s'. wf_room s' \<and> sds_str s' = sds_str s @ xs \<and>
        sdslen s' = sdslen s + length xs)"
    by (auto simp: wf_room_def sds_str_def sdslen_def sdsavail_def sdsalloc_def split: if_splits)
qed

lemma catfmt_finish:
  assumes "wf_room s" "sdslen s < 2 ^ 31"
  shows "succeeds (catfmt_store s (int (sdslen s)) [NUL]) (\<lambda>s'. wf_sds s' \<and> sds_str s' = sds_str s)"
  using assms
  by (auto simp: catfmt_store_def sds_store_Inr wf_room_def wf_sds_def sds_str_def sdslen_def
      sdsalloc_def nth_append split: if_splits)

lemma catfmt_loop_render:
  "render fmt args = Some out \<Longrightarrow> total_allocator m \<Longrightarrow> wf_room s \<Longrightarrow>
     sdslen s + length out + 1 < 2 ^ 31 \<Longrightarrow>
     succeeds (catfmt_loop m s (int (sdslen s)) fmt args)
       (\<lambda>s'. wf_sds s' \<and> sds_str s' = sds_str s @ out)"
proof (induction fmt args arbitrary: s out rule: render.induct)
  case (1 args)
  then show ?case using catfmt_finish[of s] by simp
next
  case (2 f fs args)
  have "sdslen s + 1 < 2 ^ 62" using "2.prems"(4) by simp
  from catfmt_room_ok[OF "2.prems"(2,3) this] obtain s1 where s1:
    "catfmt_room m s 1 = Inr s1" "wf_room s1" "sds_str s1 = sds_str s" "sdslen s1 = sdslen s"
    by (auto simp: succeeds_iff)
  show ?case
  proof (cases "f = CHR ''%''")
    case True
    with "2.prems"(1) obtain c fs' xs args' rest where r: "fs = c # fs'"
      "render_arg c args = Some (xs, args')" "render fs' args' = Some rest" "out = xs @ rest"
      by (auto split: list.splits option.splits)
    have "sdslen s1 + length xs < 2 ^ 62" using "2.prems"(4) r(4) s1(4) by simp
    from catfmt_put_ok[OF "2.prems"(2) s1(2) this] obtain s2 where s2:
      "catfmt_put m s1 (int (sdslen s)) xs = Inr s2" "wf_room s2" "sds_str s2 = sds_str s @ xs"
      "sdslen s2 = sdslen s + length xs"
      using s1 by (auto simp: succeeds_iff)
    have "succeeds (catfmt_loop m s2 (int (sdslen s2)) fs' args')
       (\<lambda>s'. wf_sds s' \<and> sds_str s' = sds_str s2 @ rest)"
      using "2.IH"(1)[OF True r(1,2) refl r(3) "2.prems"(2) s2(2)] "2.prems"(4) s2(4) r(4) by simp
    moreover have "to_int (int (sdslen s) + int (length xs)) = int (sdslen s2)"
      using "2.prems"(4) s2(4) r(4) by simp
    ultimately show ?thesis using True r s1 s2 catfmt_arg_render[OF r(2)] by simp
  next
    case False
    with "2.prems"(1) obtain rest where r: "render fs args = Some rest" "out = f # rest" by auto
    have "sdslen s1 + length [f] < 2 ^ 62" using "2.prems"(4) s1(4) by simp
    from catfmt_put_ok[OF "2.prems"(2) s1(2) this] obtain s2 where s2:
      "catfmt_put m s1 (int (sdslen s)) [f] = Inr s2" "wf_room s2" "sds_str s2 = sds_str s @ [f]"
      "sdslen s2 = sdslen s + 1"
      using s1 by (auto simp: succeeds_iff)
    have "succeeds (catfmt_loop m s2 (int (sdslen s2)) fs args)
       (\<lambda>s'. wf_sds s' \<and> sds_str s' = sds_str s2 @ rest)"
      using "2.IH"(2)[OF False r(1) "2.prems"(2) s2(2)] "2.prems"(4) s2(4) r(2) by simp
    moreover have "to_int (int (sdslen s) + 1) = int (sdslen s2)"
      using "2.prems"(4) s2(4) by simp
    ultimately show ?thesis using False r s1 s2 by simp
  qed
qed

lemma sdscatfmt_render:
  assumes "total_allocator m" "wf_sds s" "render fmt args = Some out"
    "sdslen s + length out + 1 < 2 ^ 31"
  shows "succeeds (sdscatfmt m s fmt args) (\<lambda>s'. wf_sds s' \<and> sds_str s' = sds_str s @ out)"
  using catfmt_loop_render[OF assms(3,1) _ assms(4)] assms(2,4)
  by (simp add: sdscatfmt_def wf_sds_room)

section \<open>The quoted representation\<close>

definition repr :: "string \<Rightarrow> string" where
  "repr xs = CHR 0x22 # concat (map repr_char xs) @ [CHR 0x22]"

lemma hex_digit_back:
  "d < 16 \<Longrightarrow> hex_digit_to_int (hex_digit d) = d" "d < 16 \<Longrightarrow> is_hex_digit (hex_digit d)"
  "d < 16 \<Longrightarrow> hex_digit d \<noteq> NUL"
  by (auto simp: hex_digit_def hex_digit_to_int_def is_hex_digit_def dest: arg_cong[of _ _ ord])

lemma ord_less: "ord c < 256"
  using of_char_eq_iff[of c] by (cases c) (auto simp: of_char_Char horner_sum_foldr)

lemma ord_div_16: "ord c div 16 < 16"
  using ord_less[of c] less_mult_imp_div_less[of "ord c" 16 16] by simp

lemma repr_char_nul_free: "NUL \<notin> set (repr_char c)"
  using ord_div_16[of c] hex_digit_back(3)[of "ord c div 16"] hex_digit_back(3)[of "ord c mod 16"]
  by (auto simp: repr_char_def c_isprint_def)

lemma repr_char_takeWhile: "takeWhile (\<lambda>x. x \<noteq> NUL) (repr_char c) = repr_char c"
  using repr_char_nul_free[of c] by (auto simp: takeWhile_eq_all_conv)

lemma repr_char_length: "length (repr_char c) \<le> 4"
  by (simp add: repr_char_def)

lemma length_concat_repr: "length (concat (map repr_char xs)) \<le> 4 * length xs"
proof (induction xs)
  case (Cons x xs)
  with repr_char_length[of x] show ?case by simp
qed simp

lemma repr_put_ok:
  assumes "total_allocator m" "wf_sds s" "sdslen s + 4 < 2 ^ 62"
  shows "succeeds (repr_put m s c) (\<lambda>s'. wf_sds s' \<and> sds_str s' = sds_str s @ repr_char c)"
proof -
  have "sdslen s + length (repr_char c) < 2 ^ 62" using repr_char_length[of c] assms(3) by linarith
  note v = sdscatvprintf_ok[OF assms(1,2) this, unfolded repr_char_takeWhile]
  show ?thesis
  proof (cases "c \<in> {CHR 0x0A, CHR 0x0D, CHR 0x09, CHR 0x07, CHR 0x08}")
    case True
    then have "length (repr_char c) = 2" "c \<noteq> CHR 0x5C" "c \<noteq> CHR 0x22" by (auto simp: repr_char_def)
    then have "repr_put m s c = sdscatlen m s (repr_char c) 2" "take 2 (repr_char c) = repr_char c"
      using True by (simp_all only: repr_put_def simp_thms if_False if_True take_all order_refl)
    then show ?thesis
      using sdscatlen_ok[OF assms(1,2), of 2 "repr_char c"] assms(3) \<open>length (repr_char c) = 2\<close>
      by simp
  next
    case False
    then show ?thesis using v by (simp add: repr_put_def)
  qed
qed

lemma repr_loop_ok:
  "total_allocator m \<Longrightarrow> succeeds r (\<lambda>s. wf_sds s \<and> sds_str s = acc) \<Longrightarrow> n \<le> length p \<Longrightarrow>
     length acc + 4 * n < 2 ^ 62 \<Longrightarrow>
     succeeds (repr_loop m r p n)
       (\<lambda>s. wf_sds s \<and> sds_str s = acc @ concat (map repr_char (take n p)))"
proof (induction m r p n arbitrary: acc rule: repr_loop.induct)
  case (3 m r c p n)
  from "3.prems"(2) obtain s where s: "r = Inr s" "wf_sds s" "sds_str s = acc"
    by (auto simp: succeeds_iff)
  with length_sds_str[of s] "3.prems"(4) have "sdslen s + 4 < 2 ^ 62" by simp
  from repr_put_ok[OF "3.prems"(1) s(2) this] s(3)
  have put: "succeeds (repr_put m s c) (\<lambda>s'. wf_sds s' \<and> sds_str s' = acc @ repr_char c)" by simp
  have "succeeds (repr_loop m (repr_put m s c) p n) (\<lambda>s. wf_sds s \<and>
      sds_str s = (acc @ repr_char c) @ concat (map repr_char (take n p)))"
    using "3.IH"[of "acc @ repr_char c"] "3.prems" s(1) put repr_char_length[of c] by simp
  then show ?case by (simp add: s(1))
qed simp_all

lemma sdscatrepr_repr:
  assumes "total_allocator m" "wf_sds s" "n \<le> length p" "sdslen s + 4 * n + 2 < 2 ^ 62"
  shows "succeeds (sdscatrepr m s p n) (\<lambda>s'. wf_sds s' \<and> sds_str s' = sds_str s @ repr (take n p))"
proof -
  have "sdslen s + 1 < 2 ^ 62" using assms(4) by simp
  from sdscatlen_ok[OF assms(1,2) this, of "cstr [CHR 0x22]"]
  have "succeeds (sdscatlen m s (cstr [CHR 0x22]) 1)
      (\<lambda>s'. wf_sds s' \<and> sds_str s' = sds_str s @ [CHR 0x22])"
    by (simp add: cstr_def)
  from repr_loop_ok[OF assms(1) this assms(3)] length_sds_str[OF assms(2)] assms(4)
  obtain t where t: "repr_loop m (sdscatlen m s (cstr [CHR 0x22]) 1) p n = Inr t" "wf_sds t"
    "sds_str t = (sds_str s @ [CHR 0x22]) @ concat (map repr_char (take n p))"
    by (auto simp: succeeds_iff)
  have "sdslen t = length (sds_str t)" using length_sds_str[OF t(2)] by simp
  also have "\<dots> \<le> sdslen s + 1 + 4 * n"
    using length_concat_repr[of "take n p"] length_sds_str[OF assms(2)] t(3) by simp
  finally have "sdslen t + 1 < 2 ^ 62" using assms(4) by simp
  from sdscatlen_ok[OF assms(1) t(2) this, of "cstr [CHR 0x22]"] t show ?thesis
    by (simp add: sdscatrepr_def repr_def cstr_def)
qed

lemma repr_nul_free: "nul_free (repr xs)"
  using repr_char_nul_free by (auto simp: repr_def nul_free_def)

lemma empty_repr:
  assumes "total_allocator m" "length x < 2 ^ 60"
  shows "succeeds (bindR (sdsempty m) (\<lambda>s. sdscatrepr m s x (length x)))
    (\<lambda>s. sds_str s = repr x \<and> nul_free (repr x))"
proof (rule succeeds_bind[OF sdsempty_ok[OF assms(1)]])
  fix s assume s: "wf_sds s \<and> sds_str s = []"
  then have "sdslen s = 0" using length_sds_str[of s] by simp
  then have "succeeds (sdscatrepr m s x (length x))
      (\<lambda>s'. wf_sds s' \<and> sds_str s' = sds_str s @ repr (take (length x) x))"
    using s assms by (intro sdscatrepr_repr) auto
  then show "succeeds (sdscatrepr m s x (length x)) (\<lambda>s. sds_str s = repr x \<and> nul_free (repr x))"
    by (rule succeeds_mono) (use s repr_nul_free in simp)
qed

section \<open>Reading the quoted representation back\<close>

definition put_chars :: "allocator \<Rightarrow> sds res \<Rightarrow> string \<Rightarrow> sds res" where
  "put_chars m cur xs = foldl (put_char m) cur xs"

lemma next_token_repr_char:
  "next_token m DoubleQuoted cur (repr_char c @ q) = next_token m DoubleQuoted (put_char m cur c) q"
proof (cases "c \<in> {CHR 0x5C, CHR 0x22, CHR 0x0A, CHR 0x0D, CHR 0x09, CHR 0x07, CHR 0x08}")
  case True
  then show ?thesis by (elim insertE emptyE) (simp_all add: repr_char_def unescape_def)
next
  case esc: False
  show ?thesis
  proof (cases "c_isprint c")
    case True
    with esc show ?thesis by (auto simp: repr_char_def)
  next
    case False
    have "char_of (hex_digit_to_int (hex_digit (ord c div 16)) * 16 +
        hex_digit_to_int (hex_digit (ord c mod 16))) = c"
      using ord_div_16[of c] by (simp add: hex_digit_back)
    with esc False ord_div_16[of c] show ?thesis by (simp add: repr_char_def hex_digit_back)
  qed
qed

lemma next_token_repr:
  "closing_ok rest \<Longrightarrow>
     next_token m DoubleQuoted cur (concat (map repr_char xs) @ CHR 0x22 # rest) =
       Some (put_chars m cur xs, rest)"
  by (induction xs arbitrary: cur) (simp_all add: put_chars_def next_token_repr_char)

lemma put_chars_ok:
  "total_allocator m \<Longrightarrow> succeeds cur (\<lambda>s. wf_sds s \<and> sds_str s = acc) \<Longrightarrow>
     length acc + length xs < 2 ^ 62 \<Longrightarrow>
     succeeds (put_chars m cur xs) (\<lambda>s. wf_sds s \<and> sds_str s = acc @ xs)"
proof (induction xs arbitrary: cur acc)
  case (Cons x xs)
  from Cons.prems(2) obtain s where s: "cur = Inr s" "wf_sds s" "sds_str s = acc"
    by (auto simp: succeeds_iff)
  have "sdslen s + 1 < 2 ^ 62" using s length_sds_str[of s] Cons.prems(3) by simp
  from sdscatlen_ok[OF Cons.prems(1) s(2) this, of "[x]"] s
  have "succeeds (put_char m cur x) (\<lambda>s. wf_sds s \<and> sds_str s = acc @ [x])"
    by (simp add: put_char_def)
  from Cons.IH[OF Cons.prems(1) this] Cons.prems(3) show ?case by (simp add: put_chars_def)
qed (simp add: put_chars_def)

definition arg_line :: "string list \<Rightarrow> string" where
  "arg_line xs = concat (map (\<lambda>x. CHR '' '' # repr x) xs)"

lemma closing_ok_arg_line: "closing_ok (arg_line xs)"
  by (cases xs) (simp_all add: closing_ok_def arg_line_def c_isspace_def)

lemma splitargs_loop_arg_line:
  "total_allocator m \<Longrightarrow> list_all (\<lambda>x. length x < 2 ^ 62) xs \<Longrightarrow> list_all wf_sds v \<Longrightarrow>
     succeeds (splitargs_loop m (arg_line xs) v)
       (\<lambda>r. \<exists>w. r = Some w \<and> list_all wf_sds w \<and> map sds_str w = map sds_str v @ xs)"
proof (induction xs arbitrary: v)
  case Nil
  have "m 8 \<noteq> None" using Nil.prems(1) by (simp add: total_allocator_def)
  with Nil show ?case
    by (subst splitargs_loop.simps) (auto simp: arg_line_def)
next
  case (Cons x xs)
  have line: "dropWhile c_isspace (arg_line (x # xs)) =
      CHR 0x22 # concat (map repr_char x) @ CHR 0x22 # arg_line xs"
    by (simp add: arg_line_def repr_def c_isspace_def)
  have tok: "next_token m Unquoted (sdsempty m)
      (CHR 0x22 # concat (map repr_char x) @ CHR 0x22 # arg_line xs) =
      Some (put_chars m (sdsempty m) x, arg_line xs)"
    by (simp add: next_token_repr closing_ok_arg_line)
  obtain t where t: "put_chars m (sdsempty m) x = Inr t" "wf_sds t" "sds_str t = x"
    using put_chars_ok[OF Cons.prems(1) sdsempty_ok[OF Cons.prems(1)], of x] Cons.prems(2)
    by (auto simp: succeeds_iff)
  obtain b where b: "m (size_t ((length v + 1) * 8)) = Some b"
    using Cons.prems(1) by (auto simp: total_allocator_def)
  have "splitargs_loop m (arg_line (x # xs)) v = splitargs_loop m (arg_line xs) (v @ [t])"
    by (subst splitargs_loop.simps) (simp only: line tok t(1) b list.case option.case prod.case bindR_simps)
  with Cons.IH[of "v @ [t]"] Cons.prems t show ?case by simp
qed

lemma sdssplitargs_arg_line:
  assumes "total_allocator m" "list_all (\<lambda>x. length x < 2 ^ 62) xs"
  shows "succeeds (sdssplitargs m (arg_line xs))
    (\<lambda>r. \<exists>w. r = Some w \<and> list_all wf_sds w \<and> map sds_str w = xs)"
  using splitargs_loop_arg_line[OF assms, of "[]"] by (simp add: sdssplitargs_def)

section \<open>Properties\<close>


lemma render_example: "render ''*%i=%s'' [VaInt (- 12), VaStr (cstr ''xy'')] = Some ''*-12=xy''"
proof -
  have "dec 12 = ''12''" by code_simp
  then have "sdsll2str (- 12) = ''-12''" by (simp add: sdsll2str_dec)
  then show ?thesis by (simp add: render_arg.simps cstr_def)
qed


text \<open>C22: a command line of quoted arguments splits back into exactly those arguments, whatever
  bytes they hold: the quoting of \<open>sdscatrepr\<close> and the parser of \<open>sdssplitargs\<close> are inverse.\<close>

theorem sdssplitargs_reads_repr:
  assumes "total_allocator m" "list_all (\<lambda>x. length x < 2 ^ 60) xs"
  shows "succeeds (sdssplitargs m (arg_line xs))
    (\<lambda>r. \<exists>w. r = Some w \<and> list_all wf_sds w \<and> map sds_str w = xs) \<and>
    list_all (\<lambda>x. succeeds (bindR (sdsempty m) (\<lambda>s. sdscatrepr m s x (length x)))
      (\<lambda>s. sds_str s = repr x \<and> nul_free (repr x))) xs"
proof
  show "succeeds (sdssplitargs m (arg_line xs))
    (\<lambda>r. \<exists>w. r = Some w \<and> list_all wf_sds w \<and> map sds_str w = xs)"
    using assms(2) by (intro sdssplitargs_arg_line[OF assms(1)]) (auto simp: list_all_iff)
  show "list_all (\<lambda>x. succeeds (bindR (sdsempty m) (\<lambda>s. sdscatrepr m s x (length x)))
      (\<lambda>s. sds_str s = repr x \<and> nul_free (repr x))) xs"
    using assms(2) empty_repr[OF assms(1)] by (simp add: list_all_iff)
qed

theorem sdssplitargs_witness:
  "succeeds (sdssplitargs zero_alloc (arg_line [''set'', [CHR 0x22, CHR 0x00, CHR 0x5C]]))
    (\<lambda>r. \<exists>w. r = Some w \<and> list_all wf_sds w \<and>
       map sds_str w = [''set'', [CHR 0x22, CHR 0x00, CHR 0x5C]])"
  using sdssplitargs_reads_repr[of zero_alloc "[''set'', [CHR 0x22, CHR 0x00, CHR 0x5C]]"] by simp

end
