(* ===== verification/Dict.thy ===== *)
theory Dict
  imports Prelude "HOL-Library.Multiset"
begin

text \<open>
  The chained hash table of src/redis/dict.c and src/redis/dict.h.

  A chain of \<open>dictEntry\<close> nodes is the list of its keys and values, its head first; the
  table is a list of chains, or \<open>None\<close> for a NULL pointer.  The callbacks of a \<open>dictType\<close>
  are functions, \<open>None\<close> where the pointer is NULL; those that may have effects read and
  update \<open>privdata\<close>.  The code uses the results of \<open>malloc\<close> and \<open>calloc\<close> unchecked, so a
  refused request is a \<open>NullPointer\<close> fault where the block is first used.
\<close>

unbundle bit_operations_syntax

section \<open>The table and its callbacks\<close>

record ('k, 'v, 'p) dictType =
  hashFunction :: "'k \<Rightarrow> 32 word"
  keyDup :: "('p \<Rightarrow> 'k \<Rightarrow> 'k \<times> 'p) option"
  valDup :: "('p \<Rightarrow> 'v \<Rightarrow> 'v \<times> 'p) option"
  keyCompare :: "('p \<Rightarrow> 'k \<Rightarrow> 'k \<Rightarrow> bool) option"
  keyDestructor :: "('p \<Rightarrow> 'k \<Rightarrow> 'p) option"
  valDestructor :: "('p \<Rightarrow> 'v \<Rightarrow> 'p) option"

type_synonym ('k, 'v) chain = "('k \<times> 'v) list"

record ('k, 'v, 'p) dict =
  ht_table :: "('k, 'v) chain list option"
  ht_type :: "('k, 'v, 'p) dictType"
  ht_size :: nat
  ht_sizemask :: nat
  ht_used :: nat
  privdata :: 'p

datatype dict_status = DICT_OK | DICT_ERR

definition DICT_HT_INITIAL_SIZE :: nat where
  "DICT_HT_INITIAL_SIZE = 4"

definition LONG_MAX :: nat where
  "LONG_MAX = 2 ^ 63 - 1"

definition dictCompareHashKeys :: "('k, 'v, 'p) dict \<Rightarrow> 'k \<Rightarrow> 'k \<Rightarrow> bool" where
  "dictCompareHashKeys ht key1 key2 =
     (case keyCompare (ht_type ht) of None \<Rightarrow> key1 = key2 | Some f \<Rightarrow> f (privdata ht) key1 key2)"

definition dictFreeEntryVal :: "('k, 'v, 'p) dict \<Rightarrow> 'k \<times> 'v \<Rightarrow> ('k, 'v, 'p) dict" where
  "dictFreeEntryVal ht e =
     (case valDestructor (ht_type ht) of None \<Rightarrow> ht
      | Some f \<Rightarrow> ht\<lparr>privdata := f (privdata ht) (snd e)\<rparr>)"

definition dictFreeEntryKey :: "('k, 'v, 'p) dict \<Rightarrow> 'k \<times> 'v \<Rightarrow> ('k, 'v, 'p) dict" where
  "dictFreeEntryKey ht e =
     (case keyDestructor (ht_type ht) of None \<Rightarrow> ht
      | Some f \<Rightarrow> ht\<lparr>privdata := f (privdata ht) (fst e)\<rparr>)"

text \<open>The value \<open>dictSetHashKey\<close> or \<open>dictSetHashVal\<close> stores into the entry.\<close>

definition dictSetHashKey :: "('k, 'v, 'p) dict \<Rightarrow> 'k \<Rightarrow> 'k \<times> ('k, 'v, 'p) dict" where
  "dictSetHashKey ht key =
     (case keyDup (ht_type ht) of None \<Rightarrow> (key, ht)
      | Some f \<Rightarrow> (fst (f (privdata ht) key), ht\<lparr>privdata := snd (f (privdata ht) key)\<rparr>))"

definition dictSetHashVal :: "('k, 'v, 'p) dict \<Rightarrow> 'v \<Rightarrow> 'v \<times> ('k, 'v, 'p) dict" where
  "dictSetHashVal ht val =
     (case valDup (ht_type ht) of None \<Rightarrow> (val, ht)
      | Some f \<Rightarrow> (fst (f (privdata ht) val), ht\<lparr>privdata := snd (f (privdata ht) val)\<rparr>))"

text \<open>\<open>h & sizemask\<close>, stored back into an \<open>unsigned int\<close>.\<close>

definition hash_index :: "('k, 'v, 'p) dictType \<Rightarrow> nat \<Rightarrow> 'k \<Rightarrow> nat" where
  "hash_index type sizemask key = unat (hashFunction type key) AND sizemask"

fun dictGenHashFunction :: "char list \<Rightarrow> 32 word" where
  "dictGenHashFunction buf = foldl (\<lambda>hash c. (push_bit 5 hash + hash) + of_char c) 5381 buf"

section \<open>Growing the table\<close>

definition slot_get :: "('k, 'v) chain list option \<Rightarrow> nat \<Rightarrow> ('k, 'v) chain res" where
  "slot_get table i =
     (case table of None \<Rightarrow> Inl NullPointer
      | Some t \<Rightarrow> if i < length t then Inr (t ! i) else Inl OutOfBounds)"

definition slot_set :: "('k, 'v) chain list option \<Rightarrow> nat \<Rightarrow> ('k, 'v) chain \<Rightarrow>
    ('k, 'v) chain list option res" where
  "slot_set table i c =
     (case table of None \<Rightarrow> Inl NullPointer
      | Some t \<Rightarrow> if i < length t then Inr (Some (t[i := c])) else Inl OutOfBounds)"

text \<open>\<open>used--\<close> on an \<open>unsigned long\<close>.\<close>

definition decr :: "nat \<Rightarrow> nat" where
  "decr n = size_t (n + (2 ^ 64 - 1))"

definition dictReset :: "('k, 'v, 'p) dict \<Rightarrow> ('k, 'v, 'p) dict" where
  "dictReset ht = ht\<lparr>ht_table := None, ht_size := 0, ht_sizemask := 0, ht_used := 0\<rparr>"

definition dictInit :: "('k, 'v, 'p) dict \<Rightarrow> ('k, 'v, 'p) dictType \<Rightarrow> 'p \<Rightarrow> ('k, 'v, 'p) dict" where
  "dictInit ht type privDataPtr = (dictReset ht)\<lparr>ht_type := type, privdata := privDataPtr\<rparr>"

definition dictCreate :: "allocator \<Rightarrow> ('k, 'v, 'p) dictType \<Rightarrow> 'p \<Rightarrow> ('k, 'v, 'p) dict res" where
  "dictCreate m type privDataPtr =
     (case m 48 of None \<Rightarrow> Inl NullPointer
      | Some _ \<Rightarrow>
          Inr (dictInit \<lparr>ht_table = None, ht_type = type, ht_size = 0, ht_sizemask = 0,
                 ht_used = 0, privdata = privDataPtr\<rparr> type privDataPtr))"

text \<open>The loop starts at 4 and doubles, so it is never called with 0.\<close>

function next_power :: "nat \<Rightarrow> nat \<Rightarrow> nat" where
  "next_power i n = (if n \<le> i \<or> i = 0 then i else next_power (i * 2) n)"
  by pat_completeness auto
termination
  by (relation "measure (\<lambda>(i, n). n - i)") auto

declare next_power.simps [simp del]

definition dictNextPower :: "nat \<Rightarrow> nat" where
  "dictNextPower n = (if LONG_MAX \<le> n then LONG_MAX else next_power DICT_HT_INITIAL_SIZE n)"

definition calloc_table :: "allocator \<Rightarrow> nat \<Rightarrow> ('k, 'v) chain list option" where
  "calloc_table m n =
     (if 2 ^ 64 \<le> n * 8 \<or> m (n * 8) = None then None else Some (replicate n []))"

fun rehash_chain :: "('k \<Rightarrow> nat) \<Rightarrow> ('k, 'v) chain list option \<Rightarrow> nat \<Rightarrow> ('k, 'v) chain \<Rightarrow>
    (('k, 'v) chain list option \<times> nat) res" where
  "rehash_chain index table used [] = Inr (table, used)"
| "rehash_chain index table used (he # nextHe) =
     bindR (slot_get table (index (fst he))) (\<lambda>c.
     bindR (slot_set table (index (fst he)) (he # c)) (\<lambda>table.
     rehash_chain index table (decr used) nextHe))"

function rehash_slots :: "('k \<Rightarrow> nat) \<Rightarrow> ('k, 'v) chain list option \<Rightarrow> nat \<Rightarrow> nat \<Rightarrow>
    ('k, 'v) chain list option \<Rightarrow> nat \<Rightarrow> (('k, 'v) chain list option \<times> nat) res" where
  "rehash_slots index old sz i table used =
     (if i < sz \<and> 0 < used then
        bindR (slot_get old i) (\<lambda>c.
        bindR (rehash_chain index table used c) (\<lambda>(table, used).
        rehash_slots index old sz (i + 1) table used))
      else Inr (table, used))"
  by pat_completeness auto
termination
  by (relation "measure (\<lambda>(index, old, sz, i, table, used). sz - i)") auto

declare rehash_slots.simps [simp del]

definition dictExpand :: "allocator \<Rightarrow> ('k, 'v, 'p) dict \<Rightarrow> nat \<Rightarrow>
    (dict_status \<times> ('k, 'v, 'p) dict) res" where
  "dictExpand m ht sz =
     (let realsize = dictNextPower sz in
      if sz < ht_used ht then Inr (DICT_ERR, ht)
      else
        let n = (dictInit ht (ht_type ht) (privdata ht))
               \<lparr>ht_size := realsize, ht_sizemask := realsize - 1,
                ht_table := calloc_table m realsize, ht_used := ht_used ht\<rparr> in
        bindR (rehash_slots (hash_index (ht_type ht) (ht_sizemask n)) (ht_table ht) (ht_size ht) 0
                 (ht_table n) (ht_used ht)) (\<lambda>(table, used).
        bindR (assertR (used = 0)) (\<lambda>_. Inr (DICT_OK, n\<lparr>ht_table := table\<rparr>))))"

definition dictExpandIfNeeded :: "allocator \<Rightarrow> ('k, 'v, 'p) dict \<Rightarrow>
    (dict_status \<times> ('k, 'v, 'p) dict) res" where
  "dictExpandIfNeeded m ht =
     (if ht_size ht = 0 then dictExpand m ht DICT_HT_INITIAL_SIZE
      else if ht_used ht = ht_size ht then dictExpand m ht (size_t (ht_size ht * 2))
      else Inr (DICT_OK, ht))"

section \<open>The map operations\<close>

text \<open>The free slot for a key, as a C \<open>int\<close>, or -1.\<close>

definition dictKeyIndex :: "allocator \<Rightarrow> ('k, 'v, 'p) dict \<Rightarrow> 'k \<Rightarrow> (int \<times> ('k, 'v, 'p) dict) res" where
  "dictKeyIndex m ht key =
     bindR (dictExpandIfNeeded m ht) (\<lambda>(st, ht).
     if st = DICT_ERR then Inr (- 1, ht)
     else
       let h = hash_index (ht_type ht) (ht_sizemask ht) key in
       bindR (slot_get (ht_table ht) h) (\<lambda>he.
       if list_ex (\<lambda>e. dictCompareHashKeys ht key (fst e)) he then Inr (- 1, ht)
       else Inr (to_int (int h), ht)))"

definition dictAdd :: "allocator \<Rightarrow> ('k, 'v, 'p) dict \<Rightarrow> 'k \<Rightarrow> 'v \<Rightarrow>
    (dict_status \<times> ('k, 'v, 'p) dict) res" where
  "dictAdd m ht key val =
     bindR (dictKeyIndex m ht key) (\<lambda>(index, ht).
     if index = - 1 then Inr (DICT_ERR, ht)
     else if m 24 = None then Inl NullPointer
     else if index < 0 then Inl OutOfBounds
     else
       bindR (slot_get (ht_table ht) (nat index)) (\<lambda>rest.
       let (k, ht) = dictSetHashKey ht key;
           (v, ht) = dictSetHashVal ht val in
       bindR (slot_set (ht_table ht) (nat index) ((k, v) # rest)) (\<lambda>table.
       Inr (DICT_OK, ht\<lparr>ht_table := table, ht_used := size_t (ht_used ht + 1)\<rparr>))))"

definition dictFind :: "('k, 'v, 'p) dict \<Rightarrow> 'k \<Rightarrow> ('k \<times> 'v) option res" where
  "dictFind ht key =
     (if ht_size ht = 0 then Inr None
      else
        bindR (slot_get (ht_table ht) (hash_index (ht_type ht) (ht_sizemask ht) key)) (\<lambda>he.
        Inr (List.find (\<lambda>e. dictCompareHashKeys ht key (fst e)) he)))"

text \<open>Changing, and unlinking, the first node of a chain that satisfies a predicate.\<close>

fun set_first :: "('e \<Rightarrow> bool) \<Rightarrow> ('e \<Rightarrow> 'e) \<Rightarrow> 'e list \<Rightarrow> 'e list" where
  "set_first P f [] = []"
| "set_first P f (e # es) = (if P e then f e # es else e # set_first P f es)"

fun unlink_first :: "('e \<Rightarrow> bool) \<Rightarrow> 'e list \<Rightarrow> 'e list" where
  "unlink_first P [] = []"
| "unlink_first P (e # es) = (if P e then es else e # unlink_first P es)"

text \<open>1 when the key was added, 0 when its value was updated.\<close>

definition dictReplace :: "allocator \<Rightarrow> ('k, 'v, 'p) dict \<Rightarrow> 'k \<Rightarrow> 'v \<Rightarrow>
    (int \<times> ('k, 'v, 'p) dict) res" where
  "dictReplace m ht key val =
     bindR (dictAdd m ht key val) (\<lambda>(st, ht).
     if st = DICT_OK then Inr (1, ht)
     else
       bindR (dictFind ht key) (\<lambda>entry.
       case entry of None \<Rightarrow> Inl NullPointer
       | Some auxentry \<Rightarrow>
           let h = hash_index (ht_type ht) (ht_sizemask ht) key in
           bindR (slot_get (ht_table ht) h) (\<lambda>he.
           let (v, ht') = dictSetHashVal ht val in
           bindR (slot_set (ht_table ht') h
                    (set_first (\<lambda>e. dictCompareHashKeys ht key (fst e)) (\<lambda>e. (fst e, v)) he)) (\<lambda>table.
           Inr (0, dictFreeEntryVal (ht'\<lparr>ht_table := table\<rparr>) auxentry)))))"

definition dictDelete :: "('k, 'v, 'p) dict \<Rightarrow> 'k \<Rightarrow> (dict_status \<times> ('k, 'v, 'p) dict) res" where
  "dictDelete ht key =
     (if ht_size ht = 0 then Inr (DICT_ERR, ht)
      else
        let h = hash_index (ht_type ht) (ht_sizemask ht) key;
            hit = (\<lambda>e. dictCompareHashKeys ht key (fst e)) in
        bindR (slot_get (ht_table ht) h) (\<lambda>chain.
        case List.find hit chain of None \<Rightarrow> Inr (DICT_ERR, ht)
        | Some de \<Rightarrow>
            bindR (slot_set (ht_table ht) h (unlink_first hit chain)) (\<lambda>table.
            let ht = dictFreeEntryVal (dictFreeEntryKey (ht\<lparr>ht_table := table\<rparr>) de) de
            in Inr (DICT_OK, ht\<lparr>ht_used := decr (ht_used ht)\<rparr>))))"

fun free_chain :: "('k, 'v, 'p) dict \<Rightarrow> ('k, 'v) chain \<Rightarrow> ('k, 'v, 'p) dict" where
  "free_chain ht [] = ht"
| "free_chain ht (he # nextHe) =
     (let ht = dictFreeEntryVal (dictFreeEntryKey ht he) he
      in free_chain (ht\<lparr>ht_used := decr (ht_used ht)\<rparr>) nextHe)"

function clear_slots :: "('k, 'v, 'p) dict \<Rightarrow> nat \<Rightarrow> nat \<Rightarrow> ('k, 'v, 'p) dict res" where
  "clear_slots ht sz i =
     (if i < sz \<and> 0 < ht_used ht
      then bindR (slot_get (ht_table ht) i) (\<lambda>he. clear_slots (free_chain ht he) sz (i + 1))
      else Inr ht)"
  by pat_completeness auto
termination
  by (relation "measure (\<lambda>(ht, sz, i). sz - i)") auto

declare clear_slots.simps [simp del]

definition dictClear :: "('k, 'v, 'p) dict \<Rightarrow> (dict_status \<times> ('k, 'v, 'p) dict) res" where
  "dictClear ht = bindR (clear_slots ht (ht_size ht) 0) (\<lambda>ht. Inr (DICT_OK, dictReset ht))"

text \<open>After \<open>dictRelease\<close> only the effects of the destructors remain.\<close>

definition dictRelease :: "('k, 'v, 'p) dict \<Rightarrow> 'p res" where
  "dictRelease ht = bindR (dictClear ht) (\<lambda>(_, ht). Inr (privdata ht))"

section \<open>Iteration\<close>

text \<open>
  The two entry pointers are the chains that start at them, empty for NULL.  \<open>nextEntry\<close> is
  saved before an entry is handed out, so the caller may delete that entry.
\<close>

record ('k, 'v) dictIterator =
  it_index :: int
  it_entry :: "('k, 'v) chain"
  it_nextEntry :: "('k, 'v) chain"

definition dictGetIterator :: "allocator \<Rightarrow> ('k, 'v) dictIterator res" where
  "dictGetIterator m =
     (case m 40 of None \<Rightarrow> Inl NullPointer
      | Some _ \<Rightarrow> Inr \<lparr>it_index = - 1, it_entry = [], it_nextEntry = []\<rparr>)"

function dictNext :: "('k, 'v, 'p) dict \<Rightarrow> ('k, 'v) dictIterator \<Rightarrow>
    (('k \<times> 'v) option \<times> ('k, 'v) dictIterator) res" where
  "dictNext ht iter =
     (if it_entry iter = [] then
        let index = it_index iter + 1 in
        if to_int (int (ht_size ht)) \<le> index then Inr (None, iter\<lparr>it_index := index\<rparr>)
        else if index < 0 then Inl OutOfBounds
        else
          bindR (slot_get (ht_table ht) (nat index)) (\<lambda>entry.
          case entry of [] \<Rightarrow> dictNext ht (iter\<lparr>it_index := index, it_entry := []\<rparr>)
          | e # rest \<Rightarrow>
              Inr (Some e, iter\<lparr>it_index := index, it_entry := entry, it_nextEntry := rest\<rparr>))
      else
        (case it_nextEntry iter of
           [] \<Rightarrow> dictNext ht (iter\<lparr>it_entry := []\<rparr>)
         | e # rest \<Rightarrow> Inr (Some e, iter\<lparr>it_entry := it_nextEntry iter, it_nextEntry := rest\<rparr>)))"
  by pat_completeness auto
termination
  by (relation "measures [\<lambda>(ht, iter). nat (to_int (int (ht_size ht)) - it_index iter),
        \<lambda>(ht, iter). if it_entry iter = [] then 0 else 1]") auto

declare dictNext.simps [simp del]

section \<open>Chains\<close>

text \<open>No two entries have equivalent keys.\<close>

fun uniq :: "('k \<Rightarrow> 'k \<Rightarrow> bool) \<Rightarrow> ('k \<times> 'v) list \<Rightarrow> bool" where
  "uniq eqv [] = True"
| "uniq eqv (e # es) = ((\<forall>x \<in> set es. \<not> eqv (fst e) (fst x)) \<and> uniq eqv es)"

definition slots_ok :: "('k \<Rightarrow> nat) \<Rightarrow> ('k, 'v) chain list \<Rightarrow> bool" where
  "slots_ok index t \<longleftrightarrow> (\<forall>i < length t. \<forall>e \<in> set (t ! i). index (fst e) = i)"

definition push :: "('k \<Rightarrow> nat) \<Rightarrow> ('k, 'v) chain list \<Rightarrow> 'k \<times> 'v \<Rightarrow> ('k, 'v) chain list" where
  "push index t e = t[index (fst e) := e # t ! index (fst e)]"

lemma set_in_concat: "i < length t \<Longrightarrow> e \<in> set (t ! i) \<Longrightarrow> e \<in> set (concat t)"
  using nth_mem[of i t] by auto

lemma mset_concat_update:
  "i < length t \<Longrightarrow> mset (concat (t[i := c])) + mset (t ! i) = mset c + mset (concat t)"
proof (induction t arbitrary: i)
  case (Cons x t)
  then show ?case by (cases i) (simp_all add: ac_simps)
qed simp

lemma mset_concat_push:
  "index (fst e) < length t \<Longrightarrow> mset (concat (push index t e)) = add_mset e (mset (concat t))"
  using mset_concat_update[of "index (fst e)" t "e # t ! index (fst e)"] by (simp add: push_def)

lemma length_push [simp]: "length (push index t e) = length t"
  by (simp add: push_def)

lemma slots_ok_update:
  "slots_ok index t \<Longrightarrow> \<forall>e \<in> set c. index (fst e) = i \<Longrightarrow> slots_ok index (t[i := c])"
  by (cases "i < length t") (auto simp: slots_ok_def nth_list_update split: if_splits)

lemma slots_ok_push:
  "slots_ok index t \<Longrightarrow> index (fst e) < length t \<Longrightarrow> slots_ok index (push index t e)"
  unfolding push_def by (rule slots_ok_update) (auto simp: slots_ok_def)

lemma length_push_all [simp]: "length (foldl (push index) t es) = length t"
  by (induction es arbitrary: t) simp_all

lemma push_all:
  "\<forall>e \<in> set es. index (fst e) < length t \<Longrightarrow> slots_ok index t \<Longrightarrow>
     length (foldl (push index) t es) = length t \<and> slots_ok index (foldl (push index) t es) \<and>
     mset (concat (foldl (push index) t es)) = mset (concat t) + mset es"
  by (induction es arbitrary: t) (simp_all add: mset_concat_push slots_ok_push)

lemma decr_pos [simp]: "0 < n \<Longrightarrow> n < 2 ^ 64 \<Longrightarrow> decr n = n - 1"
proof -
  assume "0 < n" "n < 2 ^ 64"
  then have "n + (2 ^ 64 - 1) = (n - 1) + 2 ^ 64" "n - 1 < 2 ^ 64" by auto
  then show ?thesis unfolding decr_def size_t_def by (simp only: mod_add_self2 mod_less)
qed

lemma rehash_chain_push:
  "\<forall>e \<in> set c. index (fst e) < length t \<Longrightarrow> length c \<le> used \<Longrightarrow> used < 2 ^ 64 \<Longrightarrow>
     rehash_chain index (Some t) used c = Inr (Some (foldl (push index) t c), used - length c)"
proof (induction c arbitrary: t used)
  case (Cons e c)
  then have "decr used = used - 1" by (intro decr_pos) auto
  moreover have "rehash_chain index (Some (push index t e)) (used - 1) c =
      Inr (Some (foldl (push index) (push index t e) c), used - 1 - length c)"
    using Cons.prems by (intro Cons.IH) auto
  ultimately show ?case using Cons.prems(1)
    by (simp add: slot_get_def slot_set_def flip: push_def)
qed simp

lemma concat_drop_Suc: "i < length t \<Longrightarrow> concat (drop i t) = t ! i @ concat (drop (Suc i) t)"
  by (simp add: Cons_nth_drop_Suc[symmetric])

lemma rehash_slots_push:
  "\<forall>e \<in> set (concat (drop i old)). index (fst e) < length t \<Longrightarrow>
     used = length (concat (drop i old)) \<Longrightarrow> used < 2 ^ 64 \<Longrightarrow>
     rehash_slots index (Some old) (length old) i (Some t) used =
       Inr (Some (foldl (push index) t (concat (drop i old))), 0)"
proof (induction "length old - i" arbitrary: i t used)
  case 0
  then show ?case by (subst rehash_slots.simps) simp
next
  case (Suc n)
  then have i: "i < length old" by simp
  note split = concat_drop_Suc[OF i]
  show ?case
  proof (cases "used = 0")
    case True
    then have "concat (drop i old) = []" using Suc.prems(2) by (metis length_0_conv)
    with True show ?thesis by (subst rehash_slots.simps) (simp del: concat_eq_Nil_conv)
  next
    case False
    let ?t = "foldl (push index) t (old ! i)"
    have "rehash_slots index (Some old) (length old) (Suc i) (Some ?t) (used - length (old ! i)) =
        Inr (Some (foldl (push index) ?t (concat (drop (Suc i) old))), 0)"
      using Suc.prems Suc.hyps(2) split by (intro Suc.hyps(1)) auto
    moreover have "rehash_chain index (Some t) used (old ! i) =
        Inr (Some ?t, used - length (old ! i))"
      using Suc.prems split by (intro rehash_chain_push) auto
    ultimately show ?thesis using False i
      by (subst rehash_slots.simps) (simp add: slot_get_def split)
  qed
qed

lemma next_power_pow:
  "n \<le> 2 ^ j \<Longrightarrow> \<exists>k. next_power (2 ^ i) n = 2 ^ k \<and> n \<le> 2 ^ k \<and> i \<le> k \<and> (k = i \<or> k \<le> j)"
proof (induction "j - i" arbitrary: i)
  case 0
  then have "(2::nat) ^ j \<le> 2 ^ i" by (intro power_increasing) auto
  with 0(2) have "n \<le> 2 ^ i" by (rule le_trans)
  then show ?case by (subst next_power.simps) auto
next
  case (Suc d)
  show ?case
  proof (cases "n \<le> 2 ^ i")
    case True
    then show ?thesis by (subst next_power.simps) auto
  next
    case False
    have "d = j - Suc i" using Suc.hyps(2) by simp
    from Suc.hyps(1)[OF this Suc.prems] Suc.hyps(2) obtain k where
      "next_power (2 ^ Suc i) n = 2 ^ k" "n \<le> 2 ^ k" "Suc i \<le> k" "k = Suc i \<or> k \<le> j" by blast
    then show ?thesis using False Suc.hyps(2)
      by (subst next_power.simps) (auto simp: mult.commute)
  qed
qed

section \<open>What the table asks of its callbacks\<close>

text \<open>
  \<open>eqv\<close> is the equality of keys the callbacks implement: an equivalence that determines the
  hash, and that a duplicated key keeps.
\<close>

locale dict_callbacks =
  fixes T :: "('k, 'v, 'p) dictType" and eqv :: "'k \<Rightarrow> 'k \<Rightarrow> bool"
  assumes compare: "keyCompare T = Some f \<Longrightarrow> f p k k' = eqv k k'"
    and compare_none: "keyCompare T = None \<Longrightarrow> eqv k k' = (k = k')"
    and eqv_refl: "eqv k k"
    and eqv_sym: "eqv k k' \<Longrightarrow> eqv k' k"
    and eqv_trans: "eqv k k' \<Longrightarrow> eqv k' k'' \<Longrightarrow> eqv k k''"
    and eqv_hash: "eqv k k' \<Longrightarrow> hashFunction T k = hashFunction T k'"
    and dup_eqv: "keyDup T = Some g \<Longrightarrow> eqv k (fst (g p k))"

text \<open>The entries of a table, its well-formedness and the map it stands for.\<close>

definition dict_entries :: "('k, 'v, 'p) dict \<Rightarrow> ('k \<times> 'v) list" where
  "dict_entries d = (case ht_table d of None \<Rightarrow> [] | Some t \<Rightarrow> concat t)"

definition dict_lookup :: "('k \<Rightarrow> 'k \<Rightarrow> bool) \<Rightarrow> ('k, 'v, 'p) dict \<Rightarrow> 'k \<Rightarrow> ('k \<times> 'v) option" where
  "dict_lookup eqv d key = List.find (\<lambda>e. eqv key (fst e)) (dict_entries d)"

definition table_ok :: "('k \<Rightarrow> 'k \<Rightarrow> bool) \<Rightarrow> ('k, 'v, 'p) dictType \<Rightarrow> nat \<Rightarrow> ('k, 'v) chain list \<Rightarrow> bool" where
  "table_ok eqv T k t \<longleftrightarrow>
     length t = 2 ^ k \<and> slots_ok (hash_index T (mask k)) t \<and> uniq eqv (concat t)"

definition size_exp :: "nat \<Rightarrow> bool" where
  "size_exp k \<longleftrightarrow> 2 \<le> k \<and> k \<le> 31"

definition wf_dict :: "('k \<Rightarrow> 'k \<Rightarrow> bool) \<Rightarrow> ('k, 'v, 'p) dict \<Rightarrow> bool" where
  "wf_dict eqv d \<longleftrightarrow>
     (ht_table d = None \<and> ht_size d = 0 \<and> ht_sizemask d = 0 \<and> ht_used d = 0) \<or>
     (\<exists>k t. ht_table d = Some t \<and> table_ok eqv (ht_type d) k t \<and> size_exp k \<and> ht_size d = 2 ^ k \<and>
        ht_sizemask d = mask k \<and> ht_used d = length (concat t) \<and> ht_used d \<le> ht_size d)"

lemma hash_index_mask: "hash_index T (mask k) key = unat (hashFunction T key) mod 2 ^ k"
  by (simp add: hash_index_def take_bit_eq_mask[symmetric] take_bit_eq_mod)

lemma hash_index_less: "hash_index T (mask k) key < 2 ^ k"
  by (simp add: hash_index_mask)

lemma hash_index_le: "hash_index T (mask k) key < 2 ^ 32"
  unfolding hash_index_mask
  by (rule le_less_trans[OF mod_less_eq_dividend]) (use unsigned_less[of "hashFunction T key"] in simp)

lemma wf_size: "wf_dict eqv d \<Longrightarrow> ht_size d \<le> 2 ^ 31"
proof -
  assume "wf_dict eqv d"
  then consider "ht_size d = 0" | k where "ht_size d = 2 ^ k" "k \<le> 31"
    by (auto simp: wf_dict_def size_exp_def)
  then show ?thesis
  proof cases
    case 2
    then show ?thesis using power_increasing[of k 31 "2::nat"] by simp
  qed simp
qed

text \<open>The size an insertion leaves: the table doubles exactly when it is full.\<close>

definition grown_size :: "('k, 'v, 'p) dict \<Rightarrow> nat" where
  "grown_size d = (if ht_size d = 0 then 4 else if ht_used d = ht_size d then 2 * ht_size d else ht_size d)"

context dict_callbacks
begin

lemma compare_keys: "ht_type d = T \<Longrightarrow> dictCompareHashKeys d = eqv"
  by (intro ext) (auto simp: dictCompareHashKeys_def compare compare_none split: option.splits)

lemma eqv_index: "eqv k k' \<Longrightarrow> hash_index T n k = hash_index T n k'"
  by (simp add: hash_index_def eqv_hash)

lemma eqv_class: "eqv k k' \<longleftrightarrow> Collect (eqv k) = Collect (eqv k')"
  unfolding set_eq_iff mem_Collect_eq using eqv_refl eqv_sym eqv_trans by blast

lemma uniq_distinct: "uniq eqv es \<longleftrightarrow> distinct (map (\<lambda>e. Collect (eqv (fst e))) es)"
  by (induction es) (auto simp: eqv_class)

lemma uniq_mset: "mset es = mset es' \<Longrightarrow> uniq eqv es = uniq eqv es'"
  unfolding uniq_distinct by (rule mset_eq_imp_distinct_iff) simp

lemma find_uniq:
  "uniq eqv es \<Longrightarrow> List.find (\<lambda>e. eqv key (fst e)) es = Some e \<longleftrightarrow> e \<in> set es \<and> eqv key (fst e)"
proof (induction es)
  case (Cons x es)
  show ?case
  proof (cases "eqv key (fst x)")
    case True
    have "\<not> eqv key (fst e)" if "e \<in> set es"
    proof
      assume "eqv key (fst e)"
      with eqv_trans[OF eqv_sym[OF True]] have "eqv (fst x) (fst e)" by blast
      with that Cons.prems show False by simp
    qed
    with True show ?thesis by auto
  next
    case False
    with Cons show ?thesis by auto
  qed
qed simp

lemma find_cong:
  assumes "uniq eqv es" "uniq eqv es'" "\<And>e. eqv key (fst e) \<Longrightarrow> e \<in> set es \<longleftrightarrow> e \<in> set es'"
  shows "List.find (\<lambda>e. eqv key (fst e)) es = List.find (\<lambda>e. eqv key (fst e)) es'"
proof (rule option.expand)
  show "(List.find (\<lambda>e. eqv key (fst e)) es = None) = (List.find (\<lambda>e. eqv key (fst e)) es' = None)"
    using assms(3) unfolding find_None_iff by blast
next
  assume "List.find (\<lambda>e. eqv key (fst e)) es \<noteq> None"
  then obtain e where e: "List.find (\<lambda>e. eqv key (fst e)) es = Some e" by auto
  then have "e \<in> set es" "eqv key (fst e)" using find_uniq[OF assms(1)] by blast+
  with assms(3) have "List.find (\<lambda>e. eqv key (fst e)) es' = Some e"
    using find_uniq[OF assms(2)] by blast
  with e show "the (List.find (\<lambda>e. eqv key (fst e)) es) = the (List.find (\<lambda>e. eqv key (fst e)) es')"
    by simp
qed

lemma uniq_chain: "uniq eqv (concat t) \<Longrightarrow> i < length t \<Longrightarrow> uniq eqv (t ! i)"
proof -
  assume i: "i < length t" and u: "uniq eqv (concat t)"
  have "concat t = concat (take i t) @ t ! i @ concat (drop (Suc i) t)"
    using i by (metis concat_append concat_drop_Suc append_take_drop_id)
  with u show ?thesis by (simp add: uniq_distinct)
qed

lemma find_in_chain:
  assumes "table_ok eqv T k t"
  shows "List.find (\<lambda>e. eqv key (fst e)) (t ! hash_index T (mask k) key) =
    List.find (\<lambda>e. eqv key (fst e)) (concat t)"
proof (rule find_cong)
  let ?i = "hash_index T (mask k) key"
  have i: "?i < length t" using assms hash_index_less[of T k key] by (simp add: table_ok_def)
  with assms show "uniq eqv (t ! ?i)" by (intro uniq_chain) (simp_all add: table_ok_def)
  show "uniq eqv (concat t)" using assms by (simp add: table_ok_def)
  fix e :: "'k \<times> 'v" assume e: "eqv key (fst e)"
  show "e \<in> set (t ! ?i) \<longleftrightarrow> e \<in> set (concat t)"
  proof
    assume "e \<in> set (concat t)"
    then obtain c where "c \<in> set t" "e \<in> set c" by auto
    then obtain j where j: "j < length t" "e \<in> set (t ! j)" by (metis in_set_conv_nth)
    with assms e have "j = ?i" by (auto simp: table_ok_def slots_ok_def eqv_index)
    with j show "e \<in> set (t ! ?i)" by simp
  qed (use i in \<open>auto intro: set_in_concat\<close>)
qed

lemma find_ok:
  assumes "ht_type d = T" "wf_dict eqv d"
  shows "dictFind d key = Inr (dict_lookup eqv d key)"
proof (cases "ht_size d = 0")
  case True
  with assms show ?thesis by (auto simp: dictFind_def wf_dict_def dict_lookup_def dict_entries_def)
next
  case False
  with assms obtain k t where t: "ht_table d = Some t" "table_ok eqv T k t" "ht_sizemask d = mask k"
    by (auto simp: wf_dict_def)
  moreover have "hash_index T (mask k) key < length t"
    using t(2) hash_index_less[of T k key] by (simp add: table_ok_def)
  ultimately show ?thesis using False assms(1)
    by (simp add: dictFind_def slot_get_def compare_keys find_in_chain dict_lookup_def dict_entries_def)
qed

lemma lookup_mset:
  assumes "uniq eqv (dict_entries d)" "mset (dict_entries d') = mset (dict_entries d)"
  shows "dict_lookup eqv d' = dict_lookup eqv d"
proof
  fix key
  have "uniq eqv (dict_entries d')" using assms uniq_mset by blast
  then show "dict_lookup eqv d' key = dict_lookup eqv d key"
    unfolding dict_lookup_def using assms by (intro find_cong) (simp_all flip: set_mset_mset)
qed

lemma wf_uniq: "ht_type d = T \<Longrightarrow> wf_dict eqv d \<Longrightarrow> uniq eqv (dict_entries d)"
  by (auto simp: wf_dict_def dict_entries_def table_ok_def)

lemma wf_used: "wf_dict eqv d \<Longrightarrow> ht_used d = length (dict_entries d)"
  by (auto simp: wf_dict_def dict_entries_def)

lemma expand_ok:
  assumes "total_allocator m" "ht_type d = T" "wf_dict eqv d" "2 \<le> k" "k \<le> 31" "ht_used d < 2 ^ k"
  shows "\<exists>d'. dictExpand m d (2 ^ k) = Inr (DICT_OK, d') \<and> ht_type d' = T \<and> privdata d' = privdata d \<and>
    wf_dict eqv d' \<and> ht_size d' = 2 ^ k \<and> ht_used d' = ht_used d \<and>
    mset (dict_entries d') = mset (dict_entries d)"
proof -
  let ?idx = "hash_index T (mask k)"
  have small: "(2::nat) ^ k \<le> 2 ^ 31" using assms(5) by (intro power_increasing) auto
  then have pow: "dictNextPower (2 ^ k) = 2 ^ k"
    using next_power_pow[of "2 ^ k" k 2] assms(4)
    by (auto simp: dictNextPower_def LONG_MAX_def DICT_HT_INITIAL_SIZE_def)
  have alloc: "(calloc_table m (2 ^ k) :: ('k, 'v) chain list option) = Some (replicate (2 ^ k) [])"
    using small assms(1) by (simp add: calloc_table_def total_allocator_def)
  define t where "t = foldl (push ?idx) (replicate (2 ^ k) []) (dict_entries d)"
  have "slots_ok ?idx (replicate (2 ^ k) [])" by (simp add: slots_ok_def)
  then have t: "length t = 2 ^ k" "slots_ok ?idx t" "mset (concat t) = mset (dict_entries d)"
    unfolding t_def using push_all[of "dict_entries d" ?idx "replicate (2 ^ k) []"]
    by (auto simp: hash_index_less)
  have "rehash_slots ?idx (ht_table d) (ht_size d) 0 (Some (replicate (2 ^ k) [])) (ht_used d) = Inr (Some t, 0)"
  proof (cases "ht_table d")
    case None
    with assms(3) have "ht_size d = 0" "ht_used d = 0" by (auto simp: wf_dict_def)
    with None show ?thesis by (subst rehash_slots.simps) (simp add: t_def dict_entries_def)
  next
    case (Some old)
    with assms(3) have old: "ht_size d = length old" "ht_used d = length (concat old)"
      by (auto simp: wf_dict_def table_ok_def)
    have "ht_used d < 2 ^ 64" using assms(6) small by simp
    with Some old rehash_slots_push[of 0 old ?idx "replicate (2 ^ k) []" "ht_used d"] show ?thesis
      by (simp add: t_def dict_entries_def hash_index_less)
  qed
  moreover have "uniq eqv (concat t)" using wf_uniq[OF assms(2,3)] uniq_mset t(3) by blast
  moreover have "length (concat t) = ht_used d"
    using wf_used[OF assms(3)] arg_cong[OF t(3), of size] by simp
  moreover have "(2::nat) ^ k - Suc 0 = mask k" by (simp add: mask_eq_exp_minus_1)
  ultimately have "dictExpand m d (2 ^ k) = Inr (DICT_OK,
      d\<lparr>ht_table := Some t, ht_size := 2 ^ k, ht_sizemask := mask k\<rparr>)"
    using assms(2,6) pow alloc
    by (simp add: dictExpand_def Let_def dictInit_def dictReset_def)
  moreover have "wf_dict eqv (d\<lparr>ht_table := Some t, ht_size := 2 ^ k, ht_sizemask := mask k\<rparr>)"
    using assms(2,4,5,6) t \<open>uniq eqv (concat t)\<close> \<open>length (concat t) = ht_used d\<close>
    by (auto simp: wf_dict_def table_ok_def size_exp_def)
  ultimately show ?thesis using assms(2) t(3)
    by (intro exI[of _ "d\<lparr>ht_table := Some t, ht_size := 2 ^ k, ht_sizemask := mask k\<rparr>"])
      (simp add: dict_entries_def)
qed

text \<open>Before an insertion the table has a free slot.\<close>

lemma expand_if_needed_ok:
  assumes "total_allocator m" "ht_type d = T" "wf_dict eqv d" "ht_size d < 2 ^ 31"
  obtains d' where "dictExpandIfNeeded m d = Inr (DICT_OK, d')" "ht_type d' = T"
    "privdata d' = privdata d" "wf_dict eqv d'" "ht_used d' < ht_size d'" "ht_size d' \<le> 2 ^ 31"
    "ht_size d' = grown_size d" "mset (dict_entries d') = mset (dict_entries d)"
proof (cases "ht_size d = 0")
  case True
  with assms(3) have used: "ht_used d = 0" by (auto simp: wf_dict_def)
  from expand_ok[OF assms(1-3), of 2] used obtain d' where
    "dictExpand m d 4 = Inr (DICT_OK, d')" "ht_type d' = T" "privdata d' = privdata d"
    "wf_dict eqv d'" "ht_size d' = 4" "ht_used d' = 0" "mset (dict_entries d') = mset (dict_entries d)"
    by auto
  with that[of d'] True show ?thesis
    by (simp add: grown_size_def dictExpandIfNeeded_def DICT_HT_INITIAL_SIZE_def)
next
  case False
  then obtain k where k: "2 \<le> k" "ht_size d = 2 ^ k" "ht_used d \<le> ht_size d"
    using assms(3) by (auto simp: wf_dict_def size_exp_def)
  show ?thesis
  proof (cases "ht_used d = ht_size d")
    case True
    have "(2::nat) ^ k < 2 ^ 31" using assms(4) by (simp only: k(2))
    then have "k < 31" by (rule power_less_imp_less_exp[rotated]) simp
    then have "Suc k \<le> 31" by simp
    have "ht_used d < 2 ^ Suc k" "2 \<le> Suc k" using True k by simp_all
    from expand_ok[OF assms(1-3) this(2) \<open>Suc k \<le> 31\<close> this(1)] obtain d' where d':
      "dictExpand m d (2 ^ Suc k) = Inr (DICT_OK, d')" "ht_type d' = T" "privdata d' = privdata d"
      "wf_dict eqv d'" "ht_size d' = 2 ^ Suc k" "ht_used d' = ht_used d"
      "mset (dict_entries d') = mset (dict_entries d)" by blast
    have "(2::nat) ^ Suc k \<le> 2 ^ 31" using \<open>Suc k \<le> 31\<close> by (intro power_increasing) auto
    moreover from this have "size_t (ht_size d * 2) = 2 ^ Suc k"
      unfolding k(2) by (subst size_t_id) (simp_all add: mult.commute)
    ultimately show ?thesis using that[of d'] d' True False k(2) \<open>ht_used d < 2 ^ Suc k\<close>
      by (simp add: grown_size_def dictExpandIfNeeded_def mult.commute)
  next
    case full: False
    then show ?thesis using that[of d] assms k False by (simp add: grown_size_def dictExpandIfNeeded_def)
  qed
qed

lemma find_mset:
  "uniq eqv es \<Longrightarrow> mset es' = mset es \<Longrightarrow>
     List.find (\<lambda>e. eqv key (fst e)) es' = List.find (\<lambda>e. eqv key (fst e)) es"
  using uniq_mset[of es' es] by (intro find_cong) (simp_all flip: set_mset_mset)

lemma lookup_None: "dict_lookup eqv d key = None \<longleftrightarrow> (\<forall>e \<in> set (dict_entries d). \<not> eqv key (fst e))"
  by (auto simp: dict_lookup_def find_None_iff)

lemma list_ex_find: "list_ex P xs \<longleftrightarrow> List.find P xs \<noteq> None"
  by (induction xs) auto

lemma key_index_ok:
  assumes "total_allocator m" "ht_type d = T" "wf_dict eqv d" "ht_size d < 2 ^ 31"
  obtains d' where "dictKeyIndex m d key =
      Inr (if dict_lookup eqv d key = None then int (hash_index T (ht_sizemask d') key) else - 1, d')"
    "ht_type d' = T" "privdata d' = privdata d" "wf_dict eqv d'" "ht_used d' < ht_size d'"
    "ht_size d' \<le> 2 ^ 31" "ht_size d' = grown_size d"
    "mset (dict_entries d') = mset (dict_entries d)"
proof -
  from expand_if_needed_ok[OF assms] obtain d' where d':
    "dictExpandIfNeeded m d = Inr (DICT_OK, d')" "ht_type d' = T" "privdata d' = privdata d"
    "wf_dict eqv d'" "ht_used d' < ht_size d'" "ht_size d' \<le> 2 ^ 31"
    "ht_size d' = grown_size d" "mset (dict_entries d') = mset (dict_entries d)" by blast
  then obtain k t where t: "ht_table d' = Some t" "table_ok eqv T k t" "ht_sizemask d' = mask k"
    "ht_size d' = 2 ^ k" by (auto simp: wf_dict_def)
  let ?h = "hash_index T (mask k) key"
  have h: "?h < length t" "?h < 2 ^ 31" using t hash_index_less[of T k key] d'(6)
    by (auto simp: table_ok_def)
  have "list_ex (\<lambda>e. eqv key (fst e)) (t ! ?h) \<longleftrightarrow> dict_lookup eqv d' key \<noteq> None"
    by (simp add: list_ex_find find_in_chain[OF t(2)] dict_lookup_def dict_entries_def t(1))
  also have "dict_lookup eqv d' = dict_lookup eqv d"
    using lookup_mset[OF wf_uniq[OF assms(2,3)] d'(8)] .
  finally have "dictKeyIndex m d key =
      Inr (if dict_lookup eqv d key = None then int ?h else - 1, d')"
    using d' t h by (simp add: dictKeyIndex_def slot_get_def compare_keys)
  then show ?thesis using that[of d'] d' t(3) by simp
qed

text \<open>The value a table stores for \<open>val\<close>.\<close>

definition stored_val :: "'v \<Rightarrow> 'v \<Rightarrow> bool" where
  "stored_val val v \<longleftrightarrow> (case valDup T of None \<Rightarrow> v = val | Some f \<Rightarrow> \<exists>p. v = fst (f p val))"

lemma set_key_ok:
  assumes "ht_type d = T"
  obtains k p where "dictSetHashKey d key = (k, d\<lparr>privdata := p\<rparr>)" "eqv key k"
proof (cases "keyDup T")
  case None
  then have "dictSetHashKey d key = (key, d\<lparr>privdata := privdata d\<rparr>)"
    using assms by (simp add: dictSetHashKey_def)
  then show ?thesis using that eqv_refl by blast
next
  case (Some f)
  then show ?thesis using that assms dup_eqv by (simp add: dictSetHashKey_def)
qed

lemma set_val_ok:
  assumes "ht_type d = T"
  obtains v p where "dictSetHashVal d val = (v, d\<lparr>privdata := p\<rparr>)" "stored_val val v"
proof (cases "valDup T")
  case None
  then have "dictSetHashVal d val = (val, d\<lparr>privdata := privdata d\<rparr>)"
    using assms by (simp add: dictSetHashVal_def)
  then show ?thesis using that[of val "privdata d"] None by (auto simp: stored_val_def)
next
  case (Some f)
  then show ?thesis using that assms by (auto simp: dictSetHashVal_def stored_val_def)
qed

lemma add_present:
  assumes "total_allocator m" "ht_type d = T" "wf_dict eqv d" "ht_size d < 2 ^ 31"
    "dict_lookup eqv d key \<noteq> None"
  obtains d' where "dictAdd m d key val = Inr (DICT_ERR, d')" "ht_type d' = T" "ht_size d' = grown_size d"
    "privdata d' = privdata d" "wf_dict eqv d'" "mset (dict_entries d') = mset (dict_entries d)"
proof -
  obtain d' where d': "dictKeyIndex m d key = Inr (- 1, d')" "ht_type d' = T" "ht_size d' = grown_size d"
    "privdata d' = privdata d" "wf_dict eqv d'" "mset (dict_entries d') = mset (dict_entries d)"
    by (rule key_index_ok[OF assms(1-4), of key]) (simp only: assms(5) if_False simp_thms)
  then show ?thesis using that[of d'] by (simp add: dictAdd_def)
qed

lemma add_absent:
  assumes "total_allocator m" "ht_type d = T" "wf_dict eqv d" "ht_size d < 2 ^ 31"
    "dict_lookup eqv d key = None"
  obtains d' k v where "dictAdd m d key val = Inr (DICT_OK, d')" "ht_type d' = T" "wf_dict eqv d'"
    "ht_size d' = grown_size d"
    "eqv key k" "stored_val val v" "mset (dict_entries d') = add_mset (k, v) (mset (dict_entries d))"
proof -
  obtain d1 where d1: "dictKeyIndex m d key = Inr (int (hash_index T (ht_sizemask d1) key), d1)"
    "ht_type d1 = T" "wf_dict eqv d1" "ht_used d1 < ht_size d1" "ht_size d1 \<le> 2 ^ 31"
    "mset (dict_entries d1) = mset (dict_entries d)" "ht_size d1 = grown_size d"
    by (rule key_index_ok[OF assms(1-4), of key]) (simp only: assms(5) if_True simp_thms)
  then obtain j t where t: "ht_table d1 = Some t" "table_ok eqv T j t" "size_exp j"
    "ht_size d1 = 2 ^ j" "ht_sizemask d1 = mask j" "ht_used d1 = length (concat t)"
    by (auto simp: wf_dict_def)
  let ?idx = "hash_index T (mask j)"
  have h: "?idx key < length t" using t(2) hash_index_less[of T j key] by (simp add: table_ok_def)
  obtain k p where k: "dictSetHashKey d1 key = (k, d1\<lparr>privdata := p\<rparr>)" "eqv key k"
    using set_key_ok[OF d1(2)] .
  have "ht_type (d1\<lparr>privdata := p\<rparr>) = T" using d1(2) by simp
  then obtain v q where v: "dictSetHashVal (d1\<lparr>privdata := p\<rparr>) val = (v, d1\<lparr>privdata := p\<rparr>\<lparr>privdata := q\<rparr>)"
    "stored_val val v" by (rule set_val_ok)
  let ?t = "push ?idx t (k, v)"
  let ?d = "d1\<lparr>privdata := q, ht_table := Some ?t, ht_used := ht_used d1 + 1\<rparr>"
  have idx: "?idx k = ?idx key" using k(2) eqv_index by simp
  have ms: "mset (concat ?t) = add_mset (k, v) (mset (dict_entries d))"
    using mset_concat_push[of ?idx "(k, v)" t] h idx d1(6) t(1) by (simp add: dict_entries_def)
  have absent: "\<forall>e \<in> set (dict_entries d). \<not> eqv k (fst e)"
    using assms(5) k(2) eqv_trans by (auto simp: lookup_None)
  have "uniq eqv ((k, v) # dict_entries d)" using absent wf_uniq[OF assms(2,3)] by simp
  then have "uniq eqv (concat ?t)" using ms uniq_mset[of "concat ?t" "(k, v) # dict_entries d"] by simp
  moreover have "length (concat ?t) = ht_used d1 + 1"
    using arg_cong[OF ms, of size] arg_cong[OF d1(6), of size] t by (simp add: dict_entries_def)
  ultimately have "wf_dict eqv ?d"
    using t d1(2,4) h idx slots_ok_push[of ?idx t "(k, v)"] by (simp add: wf_dict_def table_ok_def)
  moreover have "m 24 \<noteq> None" using assms(1) by (simp add: total_allocator_def)
  then have "dictAdd m d key val = Inr (DICT_OK, ?d)"
    using d1 t h k v idx by (simp add: dictAdd_def slot_get_def slot_set_def push_def)
  ultimately show ?thesis using that[of ?d k v] d1(2,7) k(2) v(2) ms by (simp add: dict_entries_def)
qed

lemma lookup_add_mset:
  assumes "uniq eqv (dict_entries d)" "mset (dict_entries d) = add_mset e (mset es)"
  shows "dict_lookup eqv d x = (if eqv x (fst e) then Some e else List.find (\<lambda>e. eqv x (fst e)) es)"
proof -
  have "uniq eqv (e # es)" using assms uniq_mset[of "dict_entries d" "e # es"] by simp
  then show ?thesis
    using find_mset[of "e # es" "dict_entries d" x] assms(2) by (simp add: dict_lookup_def)
qed

lemma free_key_ok: obtains p where "dictFreeEntryKey d e = d\<lparr>privdata := p\<rparr>"
  by (cases "keyDestructor (ht_type d)") (auto simp: dictFreeEntryKey_def intro: that[of "privdata d"])

lemma free_val_ok: obtains p where "dictFreeEntryVal d e = d\<lparr>privdata := p\<rparr>"
  by (cases "valDestructor (ht_type d)") (auto simp: dictFreeEntryVal_def intro: that[of "privdata d"])

lemma wf_privdata [simp]: "wf_dict eqv (d\<lparr>privdata := p\<rparr>) = wf_dict eqv d"
  by (simp add: wf_dict_def)

lemma entries_privdata [simp]: "dict_entries (d\<lparr>privdata := p\<rparr>) = dict_entries d"
  by (simp add: dict_entries_def)

lemma unlink_first_mset:
  "List.find P xs = Some e \<Longrightarrow> mset xs = add_mset e (mset (unlink_first P xs))"
  by (induction xs) (auto split: if_splits)

lemma set_first_mset:
  "List.find P xs = Some e \<Longrightarrow>
     mset xs = add_mset e (mset (unlink_first P xs)) \<and>
     mset (set_first P f xs) = add_mset (f e) (mset (unlink_first P xs))"
  by (induction xs) (auto split: if_splits)

lemma slots_ok_keys:
  "slots_ok index t \<Longrightarrow> i < length t \<Longrightarrow> fst ` set c \<subseteq> fst ` set (t ! i) \<Longrightarrow> slots_ok index (t[i := c])"
proof (rule slots_ok_update)
  assume ok: "slots_ok index t" "i < length t" and sub: "fst ` set c \<subseteq> fst ` set (t ! i)"
  show "\<forall>e \<in> set c. index (fst e) = i"
  proof
    fix e assume "e \<in> set c"
    with sub obtain x where "x \<in> set (t ! i)" "fst e = fst x" by blast
    with ok show "index (fst e) = i" by (simp add: slots_ok_def)
  qed
qed

lemma unlink_first_keys: "fst ` set (unlink_first P xs) \<subseteq> fst ` set xs"
  by (induction xs) auto

lemma set_first_keys: "fst ` set (set_first P (\<lambda>e. (fst e, v)) xs) \<subseteq> fst ` set xs"
  by (induction xs) auto

text \<open>A slot whose chain is replaced.\<close>

lemma wf_slot:
  assumes "ht_type d = T" "wf_dict eqv d" "ht_size d \<noteq> 0"
  obtains k t h where "ht_table d = Some t" "table_ok eqv T k t" "size_exp k" "ht_size d = 2 ^ k"
    "ht_sizemask d = mask k" "ht_used d = length (concat t)" "ht_used d \<le> ht_size d"
    "h = hash_index T (mask k) key" "h < length t"
    "List.find (\<lambda>e. eqv key (fst e)) (t ! h) = dict_lookup eqv d key"
proof -
  obtain k t where t: "ht_table d = Some t" "table_ok eqv T k t" "size_exp k" "ht_size d = 2 ^ k"
    "ht_sizemask d = mask k" "ht_used d = length (concat t)" "ht_used d \<le> ht_size d"
    using assms by (auto simp: wf_dict_def)
  moreover have "hash_index T (mask k) key < length t"
    using t(2) hash_index_less[of T k key] by (simp add: table_ok_def)
  ultimately show ?thesis
    using that find_in_chain[OF t(2)] by (simp add: dict_lookup_def dict_entries_def)
qed

lemma lookup_nonempty: "wf_dict eqv d \<Longrightarrow> dict_lookup eqv d key = Some e \<Longrightarrow> ht_size d \<noteq> 0"
  by (auto simp: wf_dict_def dict_lookup_def dict_entries_def)

lemma delete_absent:
  assumes "ht_type d = T" "wf_dict eqv d" "dict_lookup eqv d key = None"
  shows "dictDelete d key = Inr (DICT_ERR, d)"
proof (cases "ht_size d = 0")
  case False
  obtain k t h where "ht_table d = Some t" "ht_sizemask d = mask k"
    "h = hash_index T (mask k) key" "h < length t"
    "List.find (\<lambda>e. eqv key (fst e)) (t ! h) = dict_lookup eqv d key"
    by (rule wf_slot[OF assms(1,2) False])
  then show ?thesis using assms False
    by (simp add: dictDelete_def slot_get_def compare_keys)
qed (simp add: dictDelete_def)

lemma delete_present:
  assumes "ht_type d = T" "wf_dict eqv d" "dict_lookup eqv d key = Some e"
  obtains d' where "dictDelete d key = Inr (DICT_OK, d')" "ht_type d' = T" "wf_dict eqv d'"
    "ht_size d' = ht_size d" "mset (dict_entries d) = add_mset e (mset (dict_entries d'))"
proof -
  obtain k t h where t: "ht_table d = Some t" "table_ok eqv T k t" "size_exp k" "ht_size d = 2 ^ k"
    "ht_sizemask d = mask k" "ht_used d = length (concat t)" "ht_used d \<le> ht_size d"
    and h: "h = hash_index T (mask k) key" "h < length t"
    "List.find (\<lambda>e. eqv key (fst e)) (t ! h) = dict_lookup eqv d key"
    by (rule wf_slot[OF assms(1,2) lookup_nonempty[OF assms(2,3)]])
  let ?P = "\<lambda>e. eqv key (fst e)"
  let ?t = "t[h := unlink_first ?P (t ! h)]"
  have found: "List.find ?P (t ! h) = Some e" using h(3) assms(3) by simp
  have ms: "mset (concat t) = add_mset e (mset (concat ?t))"
    using mset_concat_update[OF h(2), of "unlink_first ?P (t ! h)"] unlink_first_mset[OF found] by simp
  have "slots_ok (hash_index T (mask k)) ?t"
    using t(2) h(2) by (intro slots_ok_keys unlink_first_keys) (simp_all add: table_ok_def)
  moreover have "uniq eqv (concat ?t)"
    using t(2) uniq_mset[of "concat t" "e # concat ?t"] ms by (simp add: table_ok_def)
  moreover have len: "length (concat t) = Suc (length (concat ?t))"
    using arg_cong[OF ms, of size] by simp
  ultimately have wf: "wf_dict eqv (d\<lparr>ht_table := Some ?t, ht_used := ht_used d - 1\<rparr>)"
    using assms(1) t by (simp add: wf_dict_def table_ok_def)
  obtain p where p: "dictFreeEntryKey (d\<lparr>ht_table := Some ?t\<rparr>) e = d\<lparr>ht_table := Some ?t\<rparr>\<lparr>privdata := p\<rparr>"
    by (rule free_key_ok)
  obtain q where q: "dictFreeEntryVal (d\<lparr>ht_table := Some ?t\<rparr>\<lparr>privdata := p\<rparr>) e =
      d\<lparr>ht_table := Some ?t\<rparr>\<lparr>privdata := p\<rparr>\<lparr>privdata := q\<rparr>"
    by (rule free_val_ok)
  let ?d = "d\<lparr>ht_table := Some ?t, ht_used := ht_used d - 1\<rparr>\<lparr>privdata := q\<rparr>"
  have "decr (ht_used d) = ht_used d - 1" using t(6,7) len wf_size[OF assms(2)] by (intro decr_pos) auto
  then have "dictDelete d key = Inr (DICT_OK, ?d)"
    using assms(1,3) t h found p q lookup_nonempty[OF assms(2,3)]
    by (simp add: dictDelete_def slot_get_def slot_set_def compare_keys Let_def)
  then show ?thesis using that[of ?d] wf assms(1) ms t(1) by (simp add: dict_entries_def)
qed

lemma replace_absent:
  assumes "total_allocator m" "ht_type d = T" "wf_dict eqv d" "ht_size d < 2 ^ 31"
    "dict_lookup eqv d key = None"
  obtains d' k v where "dictReplace m d key val = Inr (1, d')" "ht_type d' = T" "wf_dict eqv d'"
    "ht_size d' = grown_size d"
    "eqv key k" "stored_val val v" "mset (dict_entries d') = add_mset (k, v) (mset (dict_entries d))"
  by (rule add_absent[OF assms, of val]) (simp add: dictReplace_def)

lemma replace_present:
  assumes "total_allocator m" "ht_type d = T" "wf_dict eqv d" "ht_size d < 2 ^ 31"
    "dict_lookup eqv d key = Some e"
  obtains d' v es where "dictReplace m d key val = Inr (0, d')" "ht_type d' = T" "wf_dict eqv d'"
    "ht_size d' = grown_size d"
    "stored_val val v" "mset (dict_entries d) = add_mset e (mset es)"
    "mset (dict_entries d') = add_mset (fst e, v) (mset es)"
proof -
  have "dict_lookup eqv d key \<noteq> None" using assms(5) by simp
  then obtain d1 where d1: "dictAdd m d key val = Inr (DICT_ERR, d1)" "ht_type d1 = T"
    "wf_dict eqv d1" "mset (dict_entries d1) = mset (dict_entries d)" "ht_size d1 = grown_size d"
    by (rule add_present[OF assms(1-4)])
  have found1: "dict_lookup eqv d1 key = Some e"
    using lookup_mset[OF wf_uniq[OF assms(2,3)] d1(4)] assms(5) by simp
  obtain k t h where t: "ht_table d1 = Some t" "table_ok eqv T k t" "size_exp k" "ht_size d1 = 2 ^ k"
    "ht_sizemask d1 = mask k" "ht_used d1 = length (concat t)" "ht_used d1 \<le> ht_size d1"
    and h: "h = hash_index T (mask k) key" "h < length t"
    "List.find (\<lambda>e. eqv key (fst e)) (t ! h) = dict_lookup eqv d1 key"
    by (rule wf_slot[OF d1(2,3) lookup_nonempty[OF d1(3) found1]])
  let ?P = "\<lambda>e. eqv key (fst e)"
  have found: "List.find ?P (t ! h) = Some e" using h(3) found1 by simp
  obtain v p where v: "dictSetHashVal d1 val = (v, d1\<lparr>privdata := p\<rparr>)" "stored_val val v"
    by (rule set_val_ok[OF d1(2)])
  let ?c = "set_first ?P (\<lambda>e. (fst e, v)) (t ! h)"
  let ?t = "t[h := ?c]"
  let ?es = "concat (t[h := unlink_first ?P (t ! h)])"
  have ms: "mset (concat t) = add_mset e (mset ?es)"
    using mset_concat_update[OF h(2), of "unlink_first ?P (t ! h)"] unlink_first_mset[OF found] by simp
  have "add_mset e (mset (concat ?t)) = add_mset (fst e, v) (mset (concat t))"
    using mset_concat_update[OF h(2), of ?c] set_first_mset[OF found, of "\<lambda>e. (fst e, v)"] by simp
  then have "add_mset e (mset (concat ?t)) = add_mset e (add_mset (fst e, v) (mset ?es))"
    unfolding ms by (simp only: add_mset_commute)
  then have ms': "mset (concat ?t) = add_mset (fst e, v) (mset ?es)" by simp
  have "slots_ok (hash_index T (mask k)) ?t"
    using t(2) h(2) by (intro slots_ok_keys set_first_keys) (simp_all add: table_ok_def)
  moreover have "uniq eqv (e # ?es)" using t(2) ms uniq_mset[of "concat t" "e # ?es"] by (simp add: table_ok_def)
  then have "uniq eqv (concat ?t)" using uniq_mset[of "concat ?t" "(fst e, v) # ?es"] ms' by simp
  moreover have "length (concat ?t) = length (concat t)"
    using arg_cong[OF ms, of size] arg_cong[OF ms', of size] by simp
  ultimately have wf: "wf_dict eqv (d1\<lparr>ht_table := Some ?t\<rparr>)"
    using d1(2) t by (simp add: wf_dict_def table_ok_def)
  obtain q where q: "dictFreeEntryVal (d1\<lparr>privdata := p\<rparr>\<lparr>ht_table := Some ?t\<rparr>) e =
      d1\<lparr>privdata := p\<rparr>\<lparr>ht_table := Some ?t\<rparr>\<lparr>privdata := q\<rparr>"
    by (rule free_val_ok)
  let ?d = "d1\<lparr>ht_table := Some ?t\<rparr>\<lparr>privdata := q\<rparr>"
  have "dictReplace m d key val = Inr (0, ?d)"
    using d1 t h v q find_ok[OF d1(2,3), of key] found1 compare_keys[OF d1(2)]
    by (simp add: dictReplace_def slot_get_def slot_set_def Let_def)
  then show ?thesis using that[of ?d v ?es] wf d1(2,4,5) v(2) ms ms' t(1) by (simp add: dict_entries_def)
qed

end

section \<open>Releasing and iterating\<close>

text \<open>What freeing an entry does to \<open>privdata\<close>.\<close>

definition destroy_entry :: "('k, 'v, 'p) dictType \<Rightarrow> 'p \<Rightarrow> 'k \<times> 'v \<Rightarrow> 'p" where
  "destroy_entry T p e =
     (let p = (case keyDestructor T of None \<Rightarrow> p | Some f \<Rightarrow> f p (fst e))
      in case valDestructor T of None \<Rightarrow> p | Some f \<Rightarrow> f p (snd e))"

lemma free_entry: "dictFreeEntryVal (dictFreeEntryKey d e) e =
    d\<lparr>privdata := destroy_entry (ht_type d) (privdata d) e\<rparr>"
  by (simp add: dictFreeEntryVal_def dictFreeEntryKey_def destroy_entry_def Let_def split: option.split)

lemma free_chain_eq:
  "length c \<le> ht_used d \<Longrightarrow> ht_used d < 2 ^ 64 \<Longrightarrow>
     free_chain d c = d\<lparr>privdata := foldl (destroy_entry (ht_type d)) (privdata d) c,
       ht_used := ht_used d - length c\<rparr>"
proof (induction c arbitrary: d)
  case (Cons e c)
  have "decr (ht_used d) = ht_used d - 1" using Cons.prems by (intro decr_pos) auto
  with Cons.prems Cons.IH[of "d\<lparr>privdata := destroy_entry (ht_type d) (privdata d) e, ht_used := ht_used d - 1\<rparr>"]
  show ?case by (simp add: free_entry Let_def)
qed simp

lemma clear_slots_eq:
  "ht_table d = Some t \<Longrightarrow> ht_used d = length (concat (drop i t)) \<Longrightarrow> ht_used d < 2 ^ 64 \<Longrightarrow>
     clear_slots d (length t) i =
       Inr (d\<lparr>privdata := foldl (destroy_entry (ht_type d)) (privdata d) (concat (drop i t)), ht_used := 0\<rparr>)"
proof (induction "length t - i" arbitrary: i d)
  case 0
  then show ?case by (subst clear_slots.simps) simp
next
  case (Suc n)
  then have i: "i < length t" by simp
  note split = concat_drop_Suc[OF i]
  show ?case
  proof (cases "ht_used d = 0")
    case True
    then have "concat (drop i t) = []" using Suc.prems(2) by (metis length_0_conv)
    with True show ?thesis by (subst clear_slots.simps) (simp del: concat_eq_Nil_conv)
  next
    case False
    have "length (t ! i) \<le> ht_used d" using Suc.prems(2) split by simp
    note chain = free_chain_eq[OF this Suc.prems(3)]
    have "clear_slots (free_chain d (t ! i)) (length t) (Suc i) = Inr (d\<lparr>privdata :=
        foldl (destroy_entry (ht_type d)) (privdata d) (concat (drop i t)), ht_used := 0\<rparr>)"
      using Suc.hyps(1)[of "Suc i" "free_chain d (t ! i)"] Suc.hyps(2) Suc.prems split
      by (simp add: chain)
    with False i Suc.prems(1) show ?thesis by (subst clear_slots.simps) (simp add: slot_get_def)
  qed
qed

lemma release_ok:
  assumes "wf_dict eqv d"
  shows "dictRelease d = Inr (foldl (destroy_entry (ht_type d)) (privdata d) (dict_entries d))"
proof (cases "ht_table d")
  case None
  with assms(1) have "ht_size d = 0" by (auto simp: wf_dict_def)
  then have "clear_slots d (ht_size d) 0 = Inr d" by (subst clear_slots.simps) simp
  then show ?thesis using None by (simp add: dictRelease_def dictClear_def dictReset_def dict_entries_def)
next
  case (Some t)
  with assms have t: "ht_size d = length t" "ht_used d = length (concat t)" "ht_used d \<le> ht_size d"
    by (auto simp: wf_dict_def table_ok_def)
  then have small: "ht_used d < 2 ^ 64" using wf_size[OF assms] by simp
  from clear_slots_eq[OF Some _ small, of 0] t(1,2) Some show ?thesis
    by (simp add: dictRelease_def dictClear_def dictReset_def dict_entries_def)
qed

text \<open>The entries \<open>dictNext\<close> hands out, up to a number of calls.\<close>

fun dict_collect :: "nat \<Rightarrow> ('k, 'v, 'p) dict \<Rightarrow> ('k, 'v) dictIterator \<Rightarrow> ('k \<times> 'v) list res" where
  "dict_collect 0 ht iter = Inr []"
| "dict_collect (Suc n) ht iter =
     bindR (dictNext ht iter) (\<lambda>(e, iter).
     case e of None \<Rightarrow> Inr []
     | Some e \<Rightarrow> bindR (dict_collect n ht iter) (\<lambda>es. Inr (e # es)))"

definition it_rest :: "('k, 'v) chain list \<Rightarrow> ('k, 'v) dictIterator \<Rightarrow> ('k \<times> 'v) list" where
  "it_rest t iter = (if it_entry iter = [] then [] else it_nextEntry iter) @
     concat (drop (nat (it_index iter + 1)) t)"

lemma dictNext_rest:
  "ht_table d = Some t \<Longrightarrow> ht_size d = length t \<Longrightarrow> length t < 2 ^ 31 \<Longrightarrow> - 1 \<le> it_index iter \<Longrightarrow>
     (case it_rest t iter of
        [] \<Rightarrow> \<exists>iter'. dictNext d iter = Inr (None, iter')
      | e # es \<Rightarrow> \<exists>iter'. dictNext d iter = Inr (Some e, iter') \<and> it_rest t iter' = es \<and>
          - 1 \<le> it_index iter')"
proof (induction d iter rule: dictNext.induct)
  case (1 ht iter)
  have to_int: "to_int (int (length t)) = int (length t)" using "1.prems"(3) by simp
  show ?case
  proof (cases "it_entry iter = []")
    case empty: True
    define i where "i = nat (it_index iter + 1)"
    have i: "it_index iter + 1 = int i" using "1.prems"(4) by (simp add: i_def)
    show ?thesis
    proof (cases "i < length t")
      case True
      note split = concat_drop_Suc[OF True]
      show ?thesis
      proof (cases "t ! i")
        case Nil
        let ?it = "iter\<lparr>it_index := int i, it_entry := []\<rparr>"
        have "it_rest t iter = it_rest t ?it" using empty split Nil i by (simp add: it_rest_def nat_add_distrib)
        moreover have "dictNext ht iter = dictNext ht ?it"
          using empty i True Nil "1.prems" to_int by (subst dictNext.simps) (simp add: slot_get_def)
        moreover have "case it_rest t ?it of
            [] \<Rightarrow> \<exists>iter'. dictNext ht ?it = Inr (None, iter')
          | e # es \<Rightarrow> \<exists>iter'. dictNext ht ?it = Inr (Some e, iter') \<and> it_rest t iter' = es \<and>
              - 1 \<le> it_index iter'"
          using "1.IH"(1)[OF empty refl, unfolded i] True Nil "1.prems" to_int
          by (simp add: slot_get_def)
        ultimately show ?thesis by (simp only:)
      next
        case (Cons e es)
        with empty i True "1.prems" to_int split show ?thesis
          by (subst (1) dictNext.simps) (simp add: slot_get_def it_rest_def nat_add_distrib)
      qed
    next
      case False
      then show ?thesis using empty i "1.prems" to_int by (subst dictNext.simps) (simp add: it_rest_def)
    qed
  next
    case False
    show ?thesis
    proof (cases "it_nextEntry iter")
      case Nil
      have "it_rest t iter = it_rest t (iter\<lparr>it_entry := []\<rparr>)" using False Nil by (simp add: it_rest_def)
      moreover have "dictNext ht iter = dictNext ht (iter\<lparr>it_entry := []\<rparr>)"
        using False Nil by (subst dictNext.simps) simp
      moreover have "case it_rest t (iter\<lparr>it_entry := []\<rparr>) of
            [] \<Rightarrow> \<exists>iter'. dictNext ht (iter\<lparr>it_entry := []\<rparr>) = Inr (None, iter')
          | e # es \<Rightarrow> \<exists>iter'. dictNext ht (iter\<lparr>it_entry := []\<rparr>) = Inr (Some e, iter') \<and>
              it_rest t iter' = es \<and> - 1 \<le> it_index iter'"
        using "1.IH"(2)[OF False Nil] "1.prems" by simp
      ultimately show ?thesis by (simp only:)
    next
      case (Cons e es)
      with False "1.prems" show ?thesis by (subst dictNext.simps) (simp add: it_rest_def)
    qed
  qed
qed

lemma dict_collect_rest:
  "ht_table d = Some t \<Longrightarrow> ht_size d = length t \<Longrightarrow> length t < 2 ^ 31 \<Longrightarrow> - 1 \<le> it_index iter \<Longrightarrow>
     length (it_rest t iter) < n \<Longrightarrow> dict_collect n d iter = Inr (it_rest t iter)"
proof (induction n arbitrary: iter)
  case (Suc n)
  note step = dictNext_rest[OF Suc.prems(1-4)]
  show ?case
  proof (cases "it_rest t iter")
    case Nil
    then show ?thesis using step by auto
  next
    case (Cons e es)
    with step obtain iter' where it: "dictNext d iter = Inr (Some e, iter')" "it_rest t iter' = es"
      "- 1 \<le> it_index iter'" by auto
    with Suc.IH[OF Suc.prems(1-3) it(3)] Suc.prems(5) Cons show ?thesis by simp
  qed
qed simp

lemma iterate_ok:
  fixes d :: "('k, 'v, 'p) dict"
  assumes "wf_dict eqv d" "ht_size d < 2 ^ 31" "m 40 \<noteq> None" "ht_used d < n"
  shows "bindR (dictGetIterator m) (dict_collect n d) = Inr (dict_entries d)"
proof -
  let ?it = "\<lparr>it_index = - 1, it_entry = [], it_nextEntry = []\<rparr> :: ('k, 'v) dictIterator"
  obtain b where start: "dictGetIterator m = Inr ?it"
    using assms(3) by (auto simp: dictGetIterator_def)
  show ?thesis
  proof (cases "ht_table d")
    case None
    with assms have "ht_size d = 0" "0 < n" by (auto simp: wf_dict_def)
    then obtain n' where "n = Suc n'" by (cases n) auto
    moreover have "dictNext d ?it = Inr (None, ?it\<lparr>it_index := 0\<rparr>)"
      using \<open>ht_size d = 0\<close> by (subst dictNext.simps) simp
    ultimately show ?thesis using None by (simp add: start dict_entries_def)
  next
    case (Some t)
    with assms(1) have t: "ht_size d = length t" "ht_used d = length (concat t)"
      by (auto simp: wf_dict_def table_ok_def)
    have "dict_collect n d ?it = Inr (it_rest t ?it)"
      using assms t by (intro dict_collect_rest[OF Some]) (simp_all add: it_rest_def)
    with Some show ?thesis by (simp add: start it_rest_def dict_entries_def)
  qed
qed

section \<open>The table as a keyed map\<close>

text \<open>
  What a client of the table relies on.  \<open>room\<close> says that one more key can be put; \<open>same\<close> is
  the equality of keys.
\<close>

locale keyed_map =
  fixes inv :: "'s \<Rightarrow> bool" and room :: "'s \<Rightarrow> bool" and same :: "'k \<Rightarrow> 'k \<Rightarrow> bool"
    and get :: "'s \<Rightarrow> 'k \<Rightarrow> 'v option" and put :: "'k \<Rightarrow> 'v \<Rightarrow> 's \<Rightarrow> 's" and del :: "'k \<Rightarrow> 's \<Rightarrow> 's"
  assumes same_refl: "same k k"
    and same_sym: "same k k' \<Longrightarrow> same k' k"
    and same_trans: "same k k' \<Longrightarrow> same k' k'' \<Longrightarrow> same k k''"
    and inv_put: "inv s \<Longrightarrow> room s \<Longrightarrow> inv (put k v s)"
    and get_put: "inv s \<Longrightarrow> room s \<Longrightarrow> get (put k v s) k' = (if same k' k then Some v else get s k')"
    and inv_del: "inv s \<Longrightarrow> inv (del k s)"
    and room_del: "inv s \<Longrightarrow> room s \<Longrightarrow> room (del k s)"
    and get_del: "inv s \<Longrightarrow> get (del k s) k' = (if same k' k then None else get s k')"

datatype ('k, 'v) map_op = Put 'k 'v | Del 'k

text \<open>The value the last operation on a key leaves.\<close>

fun last_op :: "('k \<Rightarrow> 'k \<Rightarrow> bool) \<Rightarrow> ('k, 'v) map_op list \<Rightarrow> 'k \<Rightarrow> 'v option \<Rightarrow> 'v option" where
  "last_op same [] k v = v"
| "last_op same (Put k' v' # ops) k v = last_op same ops k (if same k k' then Some v' else v)"
| "last_op same (Del k' # ops) k v = last_op same ops k (if same k k' then None else v)"

context keyed_map
begin

fun run_ops :: "('k, 'v) map_op list \<Rightarrow> 's \<Rightarrow> 's" where
  "run_ops [] s = s"
| "run_ops (Put k v # ops) s = run_ops ops (put k v s)"
| "run_ops (Del k # ops) s = run_ops ops (del k s)"

text \<open>There is room before every insertion.\<close>

fun roomy :: "('k, 'v) map_op list \<Rightarrow> 's \<Rightarrow> bool" where
  "roomy [] s = True"
| "roomy (Put k v # ops) s = (room s \<and> roomy ops (put k v s))"
| "roomy (Del k # ops) s = roomy ops (del k s)"

lemma inv_run: "inv s \<Longrightarrow> roomy ops s \<Longrightarrow> inv (run_ops ops s)"
  by (induction ops s rule: run_ops.induct) (simp_all add: inv_put inv_del)

lemma get_run: "inv s \<Longrightarrow> roomy ops s \<Longrightarrow> get (run_ops ops s) k = last_op same ops k (get s k)"
  by (induction ops s rule: run_ops.induct) (simp_all add: inv_put inv_del get_put get_del)

lemma get_same: "inv s \<Longrightarrow> room s \<Longrightarrow> same k k' \<Longrightarrow> get (put k v s) k' = Some v"
  using same_sym by (simp add: get_put)

lemma put_put: "inv s \<Longrightarrow> room s \<Longrightarrow> room (put k v s) \<Longrightarrow> same k k' \<Longrightarrow>
    get (put k' v' (put k v s)) x = get (put k' v' s) x"
  using same_trans[of x k k'] by (simp add: get_put inv_put)

lemma del_put: "inv s \<Longrightarrow> room s \<Longrightarrow> get (del k (put k v s)) x = get (del k s) x"
  by (auto simp: get_put get_del inv_put)

end

end
