(* ===== verification/Async.thy ===== *)
theory Async
  imports SdsOps Dict
begin

text \<open>
  The callback registry of the asynchronous client (src/redis/async.c): the dictionary type
  \<open>callbackDict\<close> that keeps one callback per subscribed channel or pattern.
\<close>

section \<open>Callbacks and the type of their dictionary\<close>

text \<open>A function pointer is a number, \<open>None\<close> for NULL; the list link is not part of the value.\<close>

record redisCallback =
  cb_fn :: "nat option"
  pending_subs :: int
  cb_privdata :: nat

text \<open>The blocks the callbacks of the dictionary gave back to the allocator.\<close>

datatype freed = FreedKey sds | FreedVal redisCallback

type_synonym callback_dict = "(sds, redisCallback, freed list) dict"

text \<open>
  Both functions read the length into an \<open>int\<close>.  For a key of \<open>2 ^ 31\<close> bytes or more that is
  negative and the code reads out of bounds; the model then reads nothing.
\<close>

definition key_bytes :: "sds \<Rightarrow> char list" where
  "key_bytes key = take (nat (to_int (int (sdslen key)))) (sds_buf key)"

definition callbackHash :: "sds \<Rightarrow> 32 word" where
  "callbackHash key = dictGenHashFunction (key_bytes key)"

definition callbackKeyCompare :: "freed list \<Rightarrow> sds \<Rightarrow> sds \<Rightarrow> bool" where
  "callbackKeyCompare p key1 key2 =
     (let l1 = to_int (int (sdslen key1)); l2 = to_int (int (sdslen key2))
      in if l1 \<noteq> l2 then False else key_bytes key1 = key_bytes key2)"

definition callbackValDup :: "freed list \<Rightarrow> redisCallback \<Rightarrow> redisCallback \<times> freed list" where
  "callbackValDup p src = (src, p)"

definition callbackKeyDestructor :: "freed list \<Rightarrow> sds \<Rightarrow> freed list" where
  "callbackKeyDestructor p key = p @ [FreedKey key]"

definition callbackValDestructor :: "freed list \<Rightarrow> redisCallback \<Rightarrow> freed list" where
  "callbackValDestructor p val = p @ [FreedVal val]"

definition callbackDict :: "(sds, redisCallback, freed list) dictType" where
  "callbackDict =
     \<lparr>hashFunction = callbackHash, keyDup = None, valDup = Some callbackValDup,
      keyCompare = Some callbackKeyCompare, keyDestructor = Some callbackKeyDestructor,
      valDestructor = Some callbackValDestructor\<rparr>"

section \<open>The contract of the dictionary type\<close>

definition key_id :: "sds \<Rightarrow> int \<times> char list" where
  "key_id k = (to_int (int (sdslen k)), key_bytes k)"

definition same_key :: "sds \<Rightarrow> sds \<Rightarrow> bool" where
  "same_key k k' \<longleftrightarrow> key_id k = key_id k'"

lemma same_key_str:
  "wf_sds k \<Longrightarrow> wf_sds k' \<Longrightarrow> sdslen k < 2 ^ 31 \<Longrightarrow> sdslen k' < 2 ^ 31 \<Longrightarrow>
     same_key k k' \<longleftrightarrow> sds_str k = sds_str k'"
proof -
  assume wf: "wf_sds k" "wf_sds k'" "sdslen k < 2 ^ 31" "sdslen k' < 2 ^ 31"
  then have "key_id k = (int (length (sds_str k)), sds_str k)"
    "key_id k' = (int (length (sds_str k')), sds_str k')"
    by (simp_all add: key_id_def key_bytes_def length_sds_str) (simp_all add: sds_str_def sdslen_def)
  then show ?thesis by (auto simp: same_key_def)
qed

interpretation callbacks: dict_callbacks callbackDict same_key
  by unfold_locales
    (auto simp: callbackDict_def callbackKeyCompare_def callbackHash_def same_key_def key_id_def Let_def)

definition fresh_dict :: callback_dict where
  "fresh_dict = dictInit \<lparr>ht_table = None, ht_type = callbackDict, ht_size = 0, ht_sizemask = 0,
     ht_used = 0, privdata = []\<rparr> callbackDict []"

lemma fresh_wf: "wf_dict same_key fresh_dict" "ht_type fresh_dict = callbackDict"
  by (simp_all add: fresh_dict_def dictInit_def dictReset_def wf_dict_def)

section \<open>The registry as a keyed map\<close>

text \<open>The client's view: looking a callback up, registering one, removing one.\<close>

definition registry_ok :: "callback_dict \<Rightarrow> bool" where
  "registry_ok d \<longleftrightarrow> ht_type d = callbackDict \<and> wf_dict same_key d"

definition registry_room :: "callback_dict \<Rightarrow> bool" where
  "registry_room d \<longleftrightarrow> ht_size d < 2 ^ 31"

definition registered :: "callback_dict \<Rightarrow> sds \<Rightarrow> redisCallback option" where
  "registered d k = (case dictFind d k of Inr e \<Rightarrow> map_option snd e | Inl _ \<Rightarrow> None)"

definition register_cb :: "sds \<Rightarrow> redisCallback \<Rightarrow> callback_dict \<Rightarrow> callback_dict" where
  "register_cb k v d = (case dictReplace zero_alloc d k v of Inr (_, d') \<Rightarrow> d' | Inl _ \<Rightarrow> d)"

definition unregister_cb :: "sds \<Rightarrow> callback_dict \<Rightarrow> callback_dict" where
  "unregister_cb k d = (case dictDelete d k of Inr (_, d') \<Rightarrow> d' | Inl _ \<Rightarrow> d)"

lemma stored_callback: "callbacks.stored_val v w \<longleftrightarrow> w = v"
  by (simp add: callbacks.stored_val_def) (simp add: callbackDict_def callbackValDup_def)

lemma registered_lookup: "registry_ok d \<Longrightarrow> registered d k = map_option snd (dict_lookup same_key d k)"
  by (simp add: registered_def registry_ok_def callbacks.find_ok)

lemma replace_lookup:
  assumes "total_allocator m" "registry_ok d" "registry_room d"
  obtains r d' where "dictReplace m d k v = Inr (r, d')" "registry_ok d'"
    "ht_size d' = grown_size d" "ht_used d' \<le> ht_used d + 1"
    "r = (if dict_lookup same_key d k = None then 1 else 0)"
    "\<And>x. registered d' x = (if same_key x k then Some v else registered d x)"
proof (cases "dict_lookup same_key d k")
  case None
  from assms have d: "ht_type d = callbackDict" "wf_dict same_key d" "ht_size d < 2 ^ 31"
    by (simp_all add: registry_ok_def registry_room_def)
  obtain d' k' v' where d': "dictReplace m d k v = Inr (1, d')" "ht_type d' = callbackDict"
    "wf_dict same_key d'" "ht_size d' = grown_size d" "same_key k k'" "callbacks.stored_val v v'"
    "mset (dict_entries d') = add_mset (k', v') (mset (dict_entries d))"
    by (rule callbacks.replace_absent[OF assms(1) d None])
  have ok: "registry_ok d'" using d' by (simp add: registry_ok_def)
  have "registered d' x = (if same_key x k then Some v else registered d x)" for x
    using callbacks.lookup_add_mset[OF callbacks.wf_uniq[OF d'(2,3)] d'(7), of x] d'(5,6)

    by (auto simp: registered_lookup[OF ok] registered_lookup[OF assms(2)] stored_callback
        dict_lookup_def same_key_def)
  moreover have "ht_used d' = ht_used d + 1"
    using arg_cong[OF d'(7), of size] callbacks.wf_used[OF d'(3)] callbacks.wf_used[OF d(2)] by simp
  ultimately show ?thesis using that[of 1 d'] d'(1,4) ok None by simp
next
  case (Some e)
  from assms have d: "ht_type d = callbackDict" "wf_dict same_key d" "ht_size d < 2 ^ 31"
    by (simp_all add: registry_ok_def registry_room_def)
  obtain d' v' es where d': "dictReplace m d k v = Inr (0, d')" "ht_type d' = callbackDict"
    "wf_dict same_key d'" "ht_size d' = grown_size d" "callbacks.stored_val v v'" "mset (dict_entries d) = add_mset e (mset es)"
    "mset (dict_entries d') = add_mset (fst e, v') (mset es)"
    by (rule callbacks.replace_present[OF assms(1) d Some])
  have ok: "registry_ok d'" using d' by (simp add: registry_ok_def)
  have "same_key k (fst e)" using Some by (auto simp: dict_lookup_def find_Some_iff)
  then have "registered d' x = (if same_key x k then Some v else registered d x)" for x
    using callbacks.lookup_add_mset[OF callbacks.wf_uniq[OF d'(2,3)] d'(7), of x]
      callbacks.lookup_add_mset[OF callbacks.wf_uniq[OF d(1,2)] d'(6), of x] d'(5)

    by (auto simp: registered_lookup[OF ok] registered_lookup[OF assms(2)] stored_callback same_key_def)
  moreover have "ht_used d' = ht_used d"
    using arg_cong[OF d'(7), of size] arg_cong[OF d'(6), of size] callbacks.wf_used[OF d'(3)]
      callbacks.wf_used[OF d(2)] by simp
  ultimately show ?thesis using that[of 0 d'] d'(1,4) ok Some by simp
qed

lemma delete_lookup:
  assumes "registry_ok d"
  obtains r d' where "dictDelete d k = Inr (r, d')" "registry_ok d'"
    "r = (if dict_lookup same_key d k = None then DICT_ERR else DICT_OK)"
    "ht_size d' = ht_size d" "ht_used d' \<le> ht_used d"
    "\<And>x. registered d' x = (if same_key x k then None else registered d x)"
proof (cases "dict_lookup same_key d k")
  case None
  have "registered d x = None" if "same_key x k" for x
    using that None callbacks.lookup_None[of d k] callbacks.lookup_None[of d x]
    by (simp add: registered_lookup[OF assms] same_key_def)
  with that[of DICT_ERR d] None callbacks.delete_absent[of d k] assms show ?thesis
    by (auto simp: registry_ok_def)
next
  case (Some e)
  from assms have d: "ht_type d = callbackDict" "wf_dict same_key d" by (simp_all add: registry_ok_def)
  obtain d' where d': "dictDelete d k = Inr (DICT_OK, d')" "ht_type d' = callbackDict"
    "wf_dict same_key d'" "ht_size d' = ht_size d"
    "mset (dict_entries d) = add_mset e (mset (dict_entries d'))"
    by (rule callbacks.delete_present[OF d Some])
  have ok: "registry_ok d'" using d' by (simp add: registry_ok_def)
  have "same_key k (fst e)" using Some by (auto simp: dict_lookup_def find_Some_iff)
  moreover have "uniq same_key (e # dict_entries d')"
    using callbacks.wf_uniq[OF d] callbacks.uniq_mset[of "dict_entries d" "e # dict_entries d'"] d'(5)
    by simp
  ultimately have "registered d' x = None" if "same_key x k" for x
    using that callbacks.lookup_None[of d' x] by (simp add: registered_lookup[OF ok] same_key_def)
  then have "registered d' x = (if same_key x k then None else registered d x)" for x
    using callbacks.lookup_add_mset[OF callbacks.wf_uniq[OF d] d'(5), of x] \<open>same_key k (fst e)\<close>
    by (auto simp: registered_lookup[OF ok] registered_lookup[OF assms] same_key_def
        dict_lookup_def[of _ d'])
  moreover have "ht_used d' \<le> ht_used d"
    using arg_cong[OF d'(5), of size] callbacks.wf_used[OF d'(3)] callbacks.wf_used[OF d(2)] by simp
  ultimately show ?thesis using that[of DICT_OK d'] d'(1,4) ok Some by simp
qed

lemma register_ok:
  assumes "registry_ok d" "registry_room d"
  shows "registry_ok (register_cb k v d)"
    "registered (register_cb k v d) x = (if same_key x k then Some v else registered d x)"
    "ht_size (register_cb k v d) = grown_size d" "ht_used (register_cb k v d) \<le> ht_used d + 1"
  by (rule replace_lookup[OF total_zero_alloc assms, of k v], simp add: register_cb_def)+

lemma unregister_ok:
  assumes "registry_ok d"
  shows "registry_ok (unregister_cb k d)" "ht_size (unregister_cb k d) = ht_size d"
    "ht_used (unregister_cb k d) \<le> ht_used d"
    "registered (unregister_cb k d) x = (if same_key x k then None else registered d x)"
  by (rule delete_lookup[OF assms, of k], simp add: unregister_cb_def)+

interpretation registry: keyed_map registry_ok registry_room same_key registered register_cb unregister_cb
  by unfold_locales (simp_all add: register_ok unregister_ok registry_room_def, simp_all add: same_key_def)

text \<open>A table that has held fewer than \<open>2 ^ 30\<close> keys never needs more than \<open>2 ^ 30\<close> slots.\<close>

lemma roomy_small:
  "registry_ok d \<Longrightarrow> ht_size d \<le> 2 ^ 30 \<Longrightarrow> ht_used d + length ops < 2 ^ 30 \<Longrightarrow> registry.roomy ops d"
proof (induction ops d rule: registry.roomy.induct)
  case (2 k v ops s)
  then have room: "registry_room s" by (simp add: registry_room_def)
  have "grown_size s \<le> 2 ^ 30"
  proof (cases "ht_size s = 0")
    case False
    with "2.prems"(1) obtain j where "ht_size s = 2 ^ j" by (auto simp: registry_ok_def wf_dict_def)
    show ?thesis
    proof (cases "ht_used s = ht_size s")
      case True
      then have "(2::nat) ^ j < 2 ^ 30" using "2.prems"(3) \<open>ht_size s = 2 ^ j\<close> by simp
      then have "j < 30" by (rule power_less_imp_less_exp[rotated]) simp
      then have "(2::nat) ^ Suc j \<le> 2 ^ 30" by (intro power_increasing) auto
      then show ?thesis using True False \<open>ht_size s = 2 ^ j\<close> by (simp add: grown_size_def)
    qed (use "2.prems" False in \<open>simp add: grown_size_def\<close>)
  qed (simp add: grown_size_def)
  then show ?case using "2.IH" "2.prems" register_ok[OF "2.prems"(1) room, of k v] room by simp
next
  case (3 k ops s)
  then show ?case using unregister_ok[OF "3.prems"(1), of k] by simp
qed simp

section \<open>Properties\<close>

lemma fresh_ok: "registry_ok fresh_dict" "ht_size fresh_dict = 0" "ht_used fresh_dict = 0"
  "registered fresh_dict k = None"
  by (simp_all add: registry_ok_def fresh_wf)
    (simp_all add: fresh_dict_def dictInit_def dictReset_def registered_def dictFind_def)

text \<open>C14: over any sequence of fewer than \<open>2 ^ 30\<close> registrations and removals the registry
  answers a lookup with the callback registered last under that key and not removed since, and
  stays well formed: the growing hash table of src/redis/dict.c behaves as a map.\<close>

theorem registry_is_map:
  assumes "length ops < 2 ^ 30"
  shows "registry_ok (registry.run_ops ops fresh_dict) \<and>
    registered (registry.run_ops ops fresh_dict) k = last_op same_key ops k None"
proof -
  have "registry.roomy ops fresh_dict" using assms by (intro roomy_small) (simp_all add: fresh_ok)
  then show ?thesis
    using registry.inv_run[OF fresh_ok(1)] registry.get_run[OF fresh_ok(1)] by (simp add: fresh_ok(4))
qed

definition chan :: "string \<Rightarrow> sds" where
  "chan t = \<lparr>sds_type = SDS_TYPE_8, sds_len = length t, sds_alloc = length t, sds_buf = cstr t\<rparr>"

definition cb_of :: "nat \<Rightarrow> redisCallback" where
  "cb_of n = \<lparr>cb_fn = Some n, pending_subs = 1, cb_privdata = 0\<rparr>"

definition example_ops :: "(sds, redisCallback) map_op list" where
  "example_ops = [Put (chan ''a'') (cb_of 1), Put (chan ''b'') (cb_of 2), Del (chan ''a'')]"

lemma example_last: "last_op same_key example_ops (chan ''b'') v = Some (cb_of 2)"
  unfolding example_ops_def last_op.simps by (simp add: same_key_def key_id_def key_bytes_def chan_def cstr_def sdslen_def)

theorem registry_witness:
  "registered (registry.run_ops example_ops fresh_dict) (chan ''b'') = Some (cb_of 2)"
  using registry_is_map[of example_ops "chan ''b''"] by (simp add: example_last) (simp add: example_ops_def)

end
