(* ===== verification/Reader.thy ===== *)
theory Reader
  imports SdsText
begin

text \<open>
  The incremental parser of the Redis protocol (src/redis/read.c, src/redis/read.h).

  Objects of the client are pointers, numbers with 0 for NULL; the functions that build them are
  the entries of a function table and act on a world \<open>'w\<close> of their own.  A \<open>redisReadTask\<close> refers to its
  parent by the index of the parent in the task stack.  The loop over the items is a partial
  function: a run that never ends is the fault \<open>Diverges\<close>.
\<close>

section \<open>Data\<close>

definition REDIS_ERR_IO :: int where "REDIS_ERR_IO = 1"
definition REDIS_ERR_OTHER :: int where "REDIS_ERR_OTHER = 2"
definition REDIS_ERR_EOF :: int where "REDIS_ERR_EOF = 3"
definition REDIS_ERR_PROTOCOL :: int where "REDIS_ERR_PROTOCOL = 4"
definition REDIS_ERR_OOM :: int where "REDIS_ERR_OOM = 5"

abbreviation REDIS_REPLY_STRING :: int where "REDIS_REPLY_STRING \<equiv> 1"
abbreviation REDIS_REPLY_ARRAY :: int where "REDIS_REPLY_ARRAY \<equiv> 2"
abbreviation REDIS_REPLY_INTEGER :: int where "REDIS_REPLY_INTEGER \<equiv> 3"
abbreviation REDIS_REPLY_NIL :: int where "REDIS_REPLY_NIL \<equiv> 4"
abbreviation REDIS_REPLY_STATUS :: int where "REDIS_REPLY_STATUS \<equiv> 5"
abbreviation REDIS_REPLY_ERROR :: int where "REDIS_REPLY_ERROR \<equiv> 6"

definition REDIS_READER_MAX_BUF :: nat where
  "REDIS_READER_MAX_BUF = 1024 * 16"

text \<open>\<open>REDIS_OK\<close> and \<open>REDIS_ERR\<close>.\<close>

datatype redis_status = REDIS_OK | REDIS_ERR

record redisReadTask =
  task_type :: int
  task_elements :: int
  task_idx :: int
  task_obj :: nat
  task_parent :: "nat option"
  task_privdata :: nat

text \<open>A creating function sees its task and the task of the enclosing array.\<close>

record 'w redisReplyObjectFunctions =
  createString :: "(redisReadTask \<Rightarrow> redisReadTask option \<Rightarrow> string \<Rightarrow> 'w \<Rightarrow> (nat \<times> 'w) res) option"
  createArray :: "(redisReadTask \<Rightarrow> redisReadTask option \<Rightarrow> int \<Rightarrow> 'w \<Rightarrow> (nat \<times> 'w) res) option"
  createInteger :: "(redisReadTask \<Rightarrow> redisReadTask option \<Rightarrow> int \<Rightarrow> 'w \<Rightarrow> (nat \<times> 'w) res) option"
  createNil :: "(redisReadTask \<Rightarrow> redisReadTask option \<Rightarrow> 'w \<Rightarrow> (nat \<times> 'w) res) option"
  freeObject :: "(nat \<Rightarrow> 'w \<Rightarrow> 'w res) option"

record 'w redisReader =
  rd_err :: int
  rd_errstr :: string
  rd_buf :: "sds option"
  rd_pos :: nat
  rd_len :: nat
  rd_maxbuf :: nat
  rd_rstack :: "redisReadTask list"
  rd_ridx :: int
  rd_reply :: nat
  rd_fn :: "'w redisReplyObjectFunctions option"
  rd_privdata :: nat

text \<open>The bytes behind \<open>r->buf\<close>.\<close>

definition rd_bytes :: "'w redisReader \<Rightarrow> char list" where
  "rd_bytes r = (case rd_buf r of None \<Rightarrow> [] | Some s \<Rightarrow> sds_buf s)"

section \<open>Errors\<close>

definition fn_freeObject :: "'w redisReader \<Rightarrow> (nat \<Rightarrow> 'w \<Rightarrow> 'w res) option" where
  "fn_freeObject r = Option.bind (rd_fn r) freeObject"

definition redisReaderSetError :: "'w redisReader \<Rightarrow> 'w \<Rightarrow> int \<Rightarrow> string \<Rightarrow> ('w redisReader \<times> 'w) res" where
  "redisReaderSetError r w type str =
     bindR (if rd_reply r \<noteq> 0 then (case fn_freeObject r of None \<Rightarrow> Inr (r, w)
              | Some f \<Rightarrow> bindR (f (rd_reply r) w) (\<lambda>w. Inr (r\<lparr>rd_reply := 0\<rparr>, w)))
            else Inr (r, w)) (\<lambda>(r, w).
     Inr (r\<lparr>rd_buf := None, rd_pos := 0, rd_len := 0, rd_ridx := - 1, rd_err := type,
            rd_errstr := take 127 str\<rparr>, w))"

definition chrtos :: "char \<Rightarrow> string" where
  "chrtos byte =
     (if byte = CHR 0x5C \<or> byte = CHR 0x22 then [CHR 0x22, CHR 0x5C, byte, CHR 0x22]
      else if byte = CHR 0x0A then [CHR 0x22, CHR 0x5C, CHR ''n'', CHR 0x22]
      else if byte = CHR 0x0D then [CHR 0x22, CHR 0x5C, CHR ''r'', CHR 0x22]
      else if byte = CHR 0x09 then [CHR 0x22, CHR 0x5C, CHR ''t'', CHR 0x22]
      else if byte = CHR 0x07 then [CHR 0x22, CHR 0x5C, CHR ''a'', CHR 0x22]
      else if byte = CHR 0x08 then [CHR 0x22, CHR 0x5C, CHR ''b'', CHR 0x22]
      else if c_isprint byte then [CHR 0x22, byte, CHR 0x22]
      else [CHR 0x22, CHR 0x5C, CHR ''x'', hex_digit (ord byte div 16), hex_digit (ord byte mod 16), CHR 0x22])"

text \<open>\<open>cbuf\<close> holds 8 bytes, the terminator included.\<close>

definition redisReaderSetErrorProtocolByte :: "'w redisReader \<Rightarrow> 'w \<Rightarrow> char \<Rightarrow> ('w redisReader \<times> 'w) res" where
  "redisReaderSetErrorProtocolByte r w byte =
     redisReaderSetError r w REDIS_ERR_PROTOCOL
       (take 127 (''Protocol error, got '' @ take 7 (chrtos byte) @ '' as reply type byte''))"

definition redisReaderSetErrorOOM :: "'w redisReader \<Rightarrow> 'w \<Rightarrow> ('w redisReader \<times> 'w) res" where
  "redisReaderSetErrorOOM r w = redisReaderSetError r w REDIS_ERR_OOM ''Out of memory''"

section \<open>Reading from the buffer\<close>

text \<open>Positions are offsets from \<open>r->buf\<close>, \<open>None\<close> for NULL.\<close>

definition readBytes :: "'w redisReader \<Rightarrow> nat \<Rightarrow> (nat \<times> 'w redisReader) option" where
  "readBytes r bytes =
     (if bytes \<le> usub (rd_len r) (rd_pos r)
      then Some (rd_pos r, r\<lparr>rd_pos := size_t (rd_pos r + bytes)\<rparr>) else None)"

text \<open>The two nested loops only move \<open>pos\<close> forward, one byte at a time.\<close>

function seek_loop :: "char list \<Rightarrow> nat \<Rightarrow> nat \<Rightarrow> nat option res" where
  "seek_loop s pos n =
     (if n \<le> pos then Inr None
      else if length s \<le> pos then Inl OutOfBounds
      else if s ! pos \<noteq> CHR 0x0D then seek_loop s (pos + 1) n
      else if length s \<le> pos + 1 then Inl OutOfBounds
      else if s ! (pos + 1) = CHR 0x0A then Inr (Some pos)
      else seek_loop s (pos + 1) n)"
  by pat_completeness auto
termination
  by (relation "measure (\<lambda>(s, pos, n). n - pos)") auto

declare seek_loop.simps [simp del]

definition seekNewline :: "char list \<Rightarrow> nat \<Rightarrow> nat option res" where
  "seekNewline s len = seek_loop s 0 (nat (to_int (int (usub len 1))))"

fun digits_loop :: "nat \<Rightarrow> string \<Rightarrow> nat option" where
  "digits_loop v [] = Some v"
| "digits_loop v (c # p) =
     (if 48 \<le> ord c \<and> ord c \<le> 57 then
        (if v > (2 ^ 64 - 1) div 10 then None
         else if v * 10 > (2 ^ 64 - 1) - (ord c - 48) then None
         else digits_loop (v * 10 + (ord c - 48)) p)
      else None)"

definition string2ll :: "string \<Rightarrow> int option" where
  "string2ll s =
     (if s = [] then None
      else if length s = 1 \<and> hd s = CHR ''0'' then Some 0
      else
        let negative = (hd s = CHR ''-''); p = (if negative then tl s else s) in
        if p = [] then None
        else if 49 \<le> ord (hd p) \<and> ord (hd p) \<le> 57 then
          (case digits_loop (ord (hd p) - 48) (tl p) of
             None \<Rightarrow> None
           | Some v \<Rightarrow>
               if negative then (if v > 2 ^ 63 then None else Some (to_llong (- int v)))
               else (if v > 2 ^ 63 - 1 then None else Some (int v)))
        else None)"

definition readLine :: "'w redisReader \<Rightarrow> ((nat \<times> nat) option \<times> 'w redisReader) res" where
  "readLine r =
     bindR (seekNewline (drop (rd_pos r) (rd_bytes r)) (usub (rd_len r) (rd_pos r))) (\<lambda>s.
     case s of None \<Rightarrow> Inr (None, r)
     | Some len \<Rightarrow> Inr (Some (rd_pos r, len), r\<lparr>rd_pos := size_t (rd_pos r + len + 2)\<rparr>))"

section \<open>The task stack\<close>

definition task_at :: "'w redisReader \<Rightarrow> int \<Rightarrow> redisReadTask res" where
  "task_at r i =
     (if 0 \<le> i \<and> nat i < length (rd_rstack r) then Inr (rd_rstack r ! nat i) else Inl OutOfBounds)"

definition set_task :: "'w redisReader \<Rightarrow> int \<Rightarrow> redisReadTask \<Rightarrow> 'w redisReader res" where
  "set_task r i t =
     (if 0 \<le> i \<and> nat i < length (rd_rstack r) then Inr (r\<lparr>rd_rstack := (rd_rstack r)[nat i := t]\<rparr>)
      else Inl OutOfBounds)"

text \<open>The parent task a creating function may follow.\<close>

definition parent_of :: "'w redisReader \<Rightarrow> redisReadTask \<Rightarrow> redisReadTask option" where
  "parent_of r t = map_option (\<lambda>i. rd_rstack r ! i) (task_parent t)"

function move_loop :: "'w redisReader \<Rightarrow> 'w redisReader res" where
  "move_loop r =
     (if rd_ridx r < 0 then Inr r
      else if rd_ridx r = 0 then Inr (r\<lparr>rd_ridx := - 1\<rparr>)
      else
        bindR (task_at r (rd_ridx r)) (\<lambda>cur.
        bindR (task_at r (rd_ridx r - 1)) (\<lambda>prv.
        bindR (assertR (task_type prv = REDIS_REPLY_ARRAY)) (\<lambda>_.
        if task_idx cur = task_elements prv - 1 then move_loop (r\<lparr>rd_ridx := rd_ridx r - 1\<rparr>)
        else
          bindR (assertR (task_idx cur < task_elements prv)) (\<lambda>_.
          set_task r (rd_ridx r)
            (cur\<lparr>task_type := - 1, task_elements := - 1, task_idx := task_idx cur + 1\<rparr>))))))"
  by pat_completeness auto
termination
  by (relation "measure (\<lambda>r. nat (rd_ridx r))") auto

declare move_loop.simps [simp del]

definition moveToNextTask :: "'w redisReader \<Rightarrow> 'w redisReader res" where
  "moveToNextTask r = move_loop r"

section \<open>Items\<close>

text \<open>Calling a creating function; where it is missing the object is the constant of its type.\<close>

definition make_string :: "'w redisReader \<Rightarrow> redisReadTask \<Rightarrow> string res \<Rightarrow> nat \<Rightarrow> 'w \<Rightarrow> (nat \<times> 'w) res" where
  "make_string r cur str dflt w =
     (case Option.bind (rd_fn r) createString of
        None \<Rightarrow> Inr (dflt, w)
      | Some f \<Rightarrow> bindR str (\<lambda>str. f cur (parent_of r cur) str w))"

definition make_array :: "'w redisReader \<Rightarrow> redisReadTask \<Rightarrow> int \<Rightarrow> 'w \<Rightarrow> (nat \<times> 'w) res" where
  "make_array r cur n w =
     (case Option.bind (rd_fn r) createArray of
        None \<Rightarrow> Inr (nat REDIS_REPLY_ARRAY, w) | Some f \<Rightarrow> f cur (parent_of r cur) n w)"

definition make_nil :: "'w redisReader \<Rightarrow> redisReadTask \<Rightarrow> 'w \<Rightarrow> (nat \<times> 'w) res" where
  "make_nil r cur w =
     (case Option.bind (rd_fn r) createNil of
        None \<Rightarrow> Inr (nat REDIS_REPLY_NIL, w) | Some f \<Rightarrow> f cur (parent_of r cur) w)"

type_synonym 'w step = "redis_status \<times> 'w redisReader \<times> 'w"

text \<open>Failing with an error set, and going on to the next task with a finished object.\<close>

definition fail_with :: "('w redisReader \<times> 'w) res \<Rightarrow> 'w step res" where
  "fail_with e = bindR e (\<lambda>(r, w). Inr (REDIS_ERR, r, w))"

definition finish_item :: "'w redisReader \<Rightarrow> nat \<Rightarrow> 'w \<Rightarrow> 'w step res" where
  "finish_item r obj w =
     bindR (moveToNextTask (if rd_ridx r = 0 then r\<lparr>rd_reply := obj\<rparr> else r)) (\<lambda>r.
     Inr (REDIS_OK, r, w))"

definition processLineItem :: "'w redisReader \<Rightarrow> 'w \<Rightarrow> 'w step res" where
  "processLineItem r w =
     bindR (task_at r (rd_ridx r)) (\<lambda>cur.
     bindR (readLine r) (\<lambda>(line, r).
     case line of None \<Rightarrow> Inr (REDIS_ERR, r, w)
     | Some (p, len) \<Rightarrow>
         let text = mem_read (rd_bytes r) p len in
         bindR
           (if task_type cur = REDIS_REPLY_INTEGER then
              (case Option.bind (rd_fn r) createInteger of
                 None \<Rightarrow> Inr (Some (nat REDIS_REPLY_INTEGER, w))
               | Some f \<Rightarrow>
                   bindR text (\<lambda>t.
                   case string2ll t of None \<Rightarrow> Inr None
                   | Some v \<Rightarrow> bindR (f cur (parent_of r cur) v w) (\<lambda>ow. Inr (Some ow))))
            else bindR (make_string r cur text (nat (task_type cur)) w) (\<lambda>ow. Inr (Some ow)))
           (\<lambda>made.
            case made of None \<Rightarrow> fail_with (redisReaderSetError r w REDIS_ERR_PROTOCOL ''Bad integer value'')
            | Some (obj, w) \<Rightarrow>
                if obj = 0 then fail_with (redisReaderSetErrorOOM r w) else finish_item r obj w)))"

definition processBulkItem :: "'w redisReader \<Rightarrow> 'w \<Rightarrow> 'w step res" where
  "processBulkItem r w =
     bindR (task_at r (rd_ridx r)) (\<lambda>cur.
     bindR (seekNewline (drop (rd_pos r) (rd_bytes r)) (usub (rd_len r) (rd_pos r))) (\<lambda>s.
     case s of None \<Rightarrow> Inr (REDIS_ERR, r, w)
     | Some s \<Rightarrow>
         let bytelen = s + 2 in
         bindR (mem_read (rd_bytes r) (rd_pos r) (bytelen - 2)) (\<lambda>digits.
         case string2ll digits of
           None \<Rightarrow> fail_with (redisReaderSetError r w REDIS_ERR_PROTOCOL ''Bad bulk string length'')
         | Some len \<Rightarrow>
             if len < - 1 then
               fail_with (redisReaderSetError r w REDIS_ERR_PROTOCOL ''Bulk string length out of range'')
             else
               let whole = size_t (bytelen + nat len + 2);
                   bytelen = (if len = - 1 then bytelen else whole) in
               bindR
                 (if len = - 1 then bindR (make_nil r cur w) (\<lambda>ow. Inr (Some ow))
                  else if size_t (rd_pos r + whole) \<le> rd_len r
                  then bindR (make_string r cur (mem_read (rd_bytes r) (rd_pos r + s + 2) (nat len))
                                (nat REDIS_REPLY_STRING) w) (\<lambda>ow. Inr (Some ow))
                  else Inr None)
                 (\<lambda>made.
                  case made of None \<Rightarrow> Inr (REDIS_ERR, r, w)
                  | Some (obj, w) \<Rightarrow>
                      if obj = 0 then fail_with (redisReaderSetErrorOOM r w)
                      else finish_item (r\<lparr>rd_pos := size_t (rd_pos r + bytelen)\<rparr>) obj w))))"

text \<open>The task for the first element of the array of task \<open>i\<close>.\<close>

definition child_task :: "'w redisReader \<Rightarrow> int \<Rightarrow> redisReadTask" where
  "child_task r i =
     \<lparr>task_type = - 1, task_elements = - 1, task_idx = 0, task_obj = 0,
      task_parent = Some (nat i), task_privdata = rd_privdata r\<rparr>"

definition processMultiBulkItem :: "'w redisReader \<Rightarrow> 'w \<Rightarrow> 'w step res" where
  "processMultiBulkItem r w =
     bindR (task_at r (rd_ridx r)) (\<lambda>cur.
     if rd_ridx r = 8 then
       fail_with (redisReaderSetError r w REDIS_ERR_PROTOCOL
         ''No support for nested multi bulk replies with depth > 7'')
     else
       bindR (readLine r) (\<lambda>(line, r).
       case line of None \<Rightarrow> Inr (REDIS_ERR, r, w)
       | Some (p, len) \<Rightarrow>
           bindR (mem_read (rd_bytes r) p len) (\<lambda>digits.
           case string2ll digits of
             None \<Rightarrow> fail_with (redisReaderSetError r w REDIS_ERR_PROTOCOL ''Bad multi-bulk length'')
           | Some elements \<Rightarrow>
               let root = (rd_ridx r = 0) in
               if elements < - 1 \<or> elements > 2 ^ 31 - 1 then
                 fail_with (redisReaderSetError r w REDIS_ERR_PROTOCOL ''Multi-bulk length out of range'')
               else
                 bindR (if elements = - 1 then make_nil r cur w else make_array r cur elements w)
                   (\<lambda>(obj, w).
                 if obj = 0 then fail_with (redisReaderSetErrorOOM r w)
                 else
                   bindR
                     (if elements > 0 then
                        bindR (set_task r (rd_ridx r) (cur\<lparr>task_elements := elements, task_obj := obj\<rparr>)) (\<lambda>r'.
                        let r' = r'\<lparr>rd_ridx := rd_ridx r + 1\<rparr> in
                        set_task r' (rd_ridx r') (child_task r (rd_ridx r)))
                      else moveToNextTask r)
                     (\<lambda>r'. Inr (REDIS_OK, if root then r'\<lparr>rd_reply := obj\<rparr> else r', w))))))"

definition reply_type :: "char \<Rightarrow> int option" where
  "reply_type c =
     (if c = CHR ''-'' then Some REDIS_REPLY_ERROR
      else if c = CHR ''+'' then Some REDIS_REPLY_STATUS
      else if c = CHR '':'' then Some REDIS_REPLY_INTEGER
      else if c = CHR ''$'' then Some REDIS_REPLY_STRING
      else if c = CHR ''*'' then Some REDIS_REPLY_ARRAY
      else None)"

definition process_typed :: "'w redisReader \<Rightarrow> 'w \<Rightarrow> 'w step res" where
  "process_typed r w =
     bindR (task_at r (rd_ridx r)) (\<lambda>cur.
     if task_type cur \<in> {REDIS_REPLY_ERROR, REDIS_REPLY_STATUS, REDIS_REPLY_INTEGER} then processLineItem r w
     else if task_type cur = REDIS_REPLY_STRING then processBulkItem r w
     else if task_type cur = REDIS_REPLY_ARRAY then processMultiBulkItem r w
     else Inl AssertFailed)"

definition processItem :: "'w redisReader \<Rightarrow> 'w \<Rightarrow> 'w step res" where
  "processItem r w =
     bindR (task_at r (rd_ridx r)) (\<lambda>cur.
     if task_type cur < 0 then
       (case readBytes r 1 of
          None \<Rightarrow> Inr (REDIS_ERR, r, w)
        | Some (p, r) \<Rightarrow>
            bindR (mem_read (rd_bytes r) p 1) (\<lambda>byte.
            case reply_type (hd byte) of
              None \<Rightarrow> fail_with (redisReaderSetErrorProtocolByte r w (hd byte))
            | Some type \<Rightarrow>
                bindR (set_task r (rd_ridx r) (cur\<lparr>task_type := type\<rparr>)) (\<lambda>r. process_typed r w)))
     else process_typed r w)"

section \<open>The reader\<close>

text \<open>\<open>calloc\<close> leaves the task stack zeroed; the client sets \<open>privdata\<close> later.\<close>

definition zero_task :: redisReadTask where
  "zero_task = \<lparr>task_type = 0, task_elements = 0, task_idx = 0, task_obj = 0, task_parent = None,
     task_privdata = 0\<rparr>"

definition redisReaderCreateWithFunctions :: "allocator \<Rightarrow> 'w redisReplyObjectFunctions option \<Rightarrow>
    'w redisReader res" where
  "redisReaderCreateWithFunctions m fn =
     (case m 560 of None \<Rightarrow> Inl OutOfMemory
      | Some _ \<Rightarrow>
          bindR (sdsempty m) (\<lambda>buf.
          Inr \<lparr>rd_err = 0, rd_errstr = [], rd_buf = Some buf, rd_pos = 0, rd_len = 0,
               rd_maxbuf = REDIS_READER_MAX_BUF, rd_rstack = replicate 9 zero_task, rd_ridx = - 1,
               rd_reply = 0, rd_fn = fn, rd_privdata = 0\<rparr>))"

definition redisReaderFree :: "'w redisReader option \<Rightarrow> 'w \<Rightarrow> 'w res" where
  "redisReaderFree r w =
     (case r of None \<Rightarrow> Inr w
      | Some r \<Rightarrow>
          if rd_reply r \<noteq> 0
          then (case fn_freeObject r of None \<Rightarrow> Inr w | Some f \<Rightarrow> f (rd_reply r) w)
          else Inr w)"

definition rd_sds :: "'w redisReader \<Rightarrow> sds res" where
  "rd_sds r = (case rd_buf r of None \<Rightarrow> Inl NullPointer | Some s \<Rightarrow> Inr s)"

text \<open>\<open>buf\<close> is \<open>None\<close> for NULL, else the bytes from the pointer on.\<close>

definition redisReaderFeed :: "allocator \<Rightarrow> 'w redisReader \<Rightarrow> 'w \<Rightarrow> char list option \<Rightarrow> nat \<Rightarrow> 'w step res" where
  "redisReaderFeed m r w buf len =
     (if rd_err r \<noteq> 0 then Inr (REDIS_ERR, r, w)
      else case buf of None \<Rightarrow> Inr (REDIS_OK, r, w)
      | Some bytes \<Rightarrow>
          if len < 1 then Inr (REDIS_OK, r, w)
          else
            bindR
              (if rd_len r = 0 \<and> rd_maxbuf r \<noteq> 0 then
                 bindR (rd_sds r) (\<lambda>s.
                 if sdsavail s > rd_maxbuf r
                 then (case sdsempty m of Inl OutOfMemory \<Rightarrow> Inl AssertFailed | Inl e \<Rightarrow> Inl e
                       | Inr s \<Rightarrow> Inr (r\<lparr>rd_buf := Some s, rd_pos := 0\<rparr>))
                 else Inr r)
               else Inr r) (\<lambda>r.
            bindR (rd_sds r) (\<lambda>s.
            case sdscatlen m s bytes len of
              Inl OutOfMemory \<Rightarrow> bindR (redisReaderSetErrorOOM r w) (\<lambda>(r, w). Inr (REDIS_ERR, r, w))
            | Inl e \<Rightarrow> Inl e
            | Inr s \<Rightarrow> Inr (REDIS_OK, r\<lparr>rd_buf := Some s, rd_len := sdslen s\<rparr>, w))))"

partial_function (option) process_loop :: "'w redisReader \<Rightarrow> 'w \<Rightarrow> ('w redisReader \<times> 'w) res option" where
  "process_loop r w =
     (if rd_ridx r < 0 then Some (Inr (r, w))
      else case processItem r w of
        Inl e \<Rightarrow> Some (Inl e)
      | Inr (st, r', w') \<Rightarrow> if st = REDIS_OK then process_loop r' w' else Some (Inr (r', w')))"

definition process_items :: "'w redisReader \<Rightarrow> 'w \<Rightarrow> ('w redisReader \<times> 'w) res" where
  "process_items r w = (case process_loop r w of None \<Rightarrow> Inl Diverges | Some res \<Rightarrow> res)"

definition root_task :: "'w redisReader \<Rightarrow> redisReadTask" where
  "root_task r = \<lparr>task_type = - 1, task_elements = - 1, task_idx = - 1, task_obj = 0,
     task_parent = None, task_privdata = rd_privdata r\<rparr>"

text \<open>The consumed front of the buffer is dropped once it reaches 1024 bytes.\<close>

definition discard :: "'w redisReader \<Rightarrow> 'w redisReader res" where
  "discard r =
     (if 1024 \<le> rd_pos r then
        bindR (rd_sds r) (\<lambda>s.
        bindR (sdsrange s (to_int (int (rd_pos r))) (- 1)) (\<lambda>s.
        Inr (r\<lparr>rd_buf := Some s, rd_pos := 0, rd_len := sdslen s\<rparr>)))
      else Inr r)"

text \<open>The reply is a pointer, 0 for NULL.\<close>

definition redisReaderGetReply :: "'w redisReader \<Rightarrow> 'w \<Rightarrow> (redis_status \<times> nat \<times> 'w redisReader \<times> 'w) res" where
  "redisReaderGetReply r w =
     (if rd_err r \<noteq> 0 then Inr (REDIS_ERR, 0, r, w)
      else if rd_len r = 0 then Inr (REDIS_OK, 0, r, w)
      else
        bindR (if rd_ridx r = - 1
               then bindR (set_task r 0 (root_task r)) (\<lambda>r. Inr (r\<lparr>rd_ridx := 0\<rparr>)) else Inr r) (\<lambda>r.
        bindR (process_items r w) (\<lambda>(r, w).
        if rd_err r \<noteq> 0 then Inr (REDIS_ERR, 0, r, w)
        else
          bindR (discard r) (\<lambda>r.
          if rd_ridx r = - 1 then Inr (REDIS_OK, rd_reply r, r\<lparr>rd_reply := 0\<rparr>, w)
          else Inr (REDIS_OK, 0, r, w)))))"

section \<open>Numbers read back\<close>

abbreviation dec_from :: "nat \<Rightarrow> string \<Rightarrow> nat" where
  "dec_from a s \<equiv> foldl (\<lambda>a c. 10 * a + (ord c - 48)) a s"

lemma dec_from_mono: "a \<le> dec_from a s"
proof (induction s arbitrary: a)
  case (Cons c s)
  have "a \<le> 10 * a + (ord c - 48)" by simp
  also have "\<dots> \<le> dec_from (10 * a + (ord c - 48)) s" by (rule Cons.IH)
  finally show ?case by simp
qed simp

lemma digits_loop_dec:
  "\<forall>c \<in> set s. is_digit c \<Longrightarrow> dec_from a s < 2 ^ 64 \<Longrightarrow> digits_loop a s = Some (dec_from a s)"
proof (induction s arbitrary: a)
  case (Cons c s)
  let ?a = "10 * a + (ord c - 48)"
  have "?a \<le> dec_from ?a s" by (rule dec_from_mono)
  then have "?a < 2 ^ 64" using Cons.prems(2) by simp
  then have "\<not> (2 ^ 64 - 1) div 10 < a" "\<not> (2 ^ 64 - 1) - (ord c - 48) < a * 10" by linarith+
  moreover have "48 \<le> ord c \<and> ord c \<le> 57" using Cons.prems(1) by (simp add: is_digit_def)
  moreover have "digits_loop (a * 10 + (ord c - 48)) s = Some (dec_from ?a s)"
    using Cons.IH[of ?a] Cons.prems by (simp add: mult.commute)
  ultimately show ?case by (simp only: digits_loop.simps if_True if_False foldl.simps simp_thms)
qed simp

lemma dec_split: "dec v = hd (dec v) # tl (dec v)"
  by simp

lemma dec_from_hd: "dec_from (ord (hd (dec v)) - 48) (tl (dec v)) = v"
proof -
  obtain c s where "dec v = c # s" using dec_not_Nil[of v] by (cases "dec v") auto
  then show ?thesis using dec_val_dec[of v] by (simp add: dec_val_def)
qed

lemma dec_hd_range: "0 < v \<Longrightarrow> 49 \<le> ord (hd (dec v)) \<and> ord (hd (dec v)) \<le> 57"
proof -
  assume "0 < v"
  moreover have "is_digit (hd (dec v))" using dec_digits[of v] by simp
  ultimately show ?thesis using dec_no_leading_zero[of v] by (auto simp: is_digit_def)
qed

lemma digits_loop_tl: "0 < v \<Longrightarrow> v < 2 ^ 64 \<Longrightarrow> digits_loop (ord (hd (dec v)) - 48) (tl (dec v)) = Some v"
  using digits_loop_dec[of "tl (dec v)" "ord (hd (dec v)) - 48"] dec_digits[of v]
  by (metis dec_from_hd dec_split list.set_intros(2))

lemma hd_dec_sign: "0 < v \<Longrightarrow> hd (dec v) \<noteq> CHR ''-'' \<and> hd (dec v) \<noteq> CHR ''0''"
  using dec_hd_range[of v] by (auto simp: dest!: arg_cong[of _ _ ord])

lemma dec_0: "dec 0 = ''0''"
  by code_simp

lemma string2ll_sdsll2str:
  assumes "- (2 ^ 63) \<le> v" "v < 2 ^ 63"
  shows "string2ll (sdsll2str v) = Some v"
proof (cases "v < 0")
  case True
  let ?n = "nat (- v)"
  have n: "0 < ?n" "?n < 2 ^ 64" "?n \<le> 2 ^ 63" using True assms by auto
  have "to_llong (- int ?n) = v" using True assms by simp
  with n dec_hd_range[OF n(1)] digits_loop_tl[OF n(1,2)] show ?thesis
    using True by (simp add: sdsll2str_dec[OF assms] string2ll_def Let_def)
next
  case False
  show ?thesis
  proof (cases "v = 0")
    case True
    then show ?thesis using sdsll2str_dec[of 0] by (simp add: dec_0 string2ll_def)
  next
    case nz: False
    let ?n = "nat v"
    have n: "0 < ?n" "?n < 2 ^ 64" "?n \<le> 2 ^ 63 - 1" using False nz assms by auto
    then show ?thesis
      using False nz dec_hd_range[OF n(1)] digits_loop_tl[OF n(1,2)] hd_dec_sign[OF n(1)]
      by (simp add: sdsll2str_dec[OF assms] string2ll_def Let_def)
  qed
qed

lemma dec_no_cr: "CHR 0x0D \<notin> set (dec v)"
  using dec_digits[of v] by (auto simp: is_digit_def)

lemma sdsll2str_no_cr: "- (2 ^ 63) \<le> v \<Longrightarrow> v < 2 ^ 63 \<Longrightarrow> CHR 0x0D \<notin> set (sdsll2str v)"
  by (simp add: sdsll2str_dec dec_no_cr)

section \<open>The unread input\<close>

definition rd_input :: "'w redisReader \<Rightarrow> string" where
  "rd_input r = take (rd_len r - rd_pos r) (drop (rd_pos r) (rd_bytes r))"

definition buf_ok :: "'w redisReader \<Rightarrow> bool" where
  "buf_ok r \<longleftrightarrow> rd_pos r \<le> rd_len r \<and> rd_len r \<le> length (rd_bytes r) \<and> rd_len r < 2 ^ 31"

definition consume :: "nat \<Rightarrow> 'w redisReader \<Rightarrow> 'w redisReader" where
  "consume n r = r\<lparr>rd_pos := rd_pos r + n\<rparr>"

text \<open>The position of the first CR LF.\<close>

fun find_crlf :: "string \<Rightarrow> nat option" where
  "find_crlf [] = None"
| "find_crlf (c # s) =
     (if c = CHR 0x0D \<and> s \<noteq> [] \<and> hd s = CHR 0x0A then Some 0 else map_option Suc (find_crlf s))"

lemma find_crlf_bound: "find_crlf s = Some n \<Longrightarrow> n + 2 \<le> length s"
  by (induction s arbitrary: n) (auto split: if_splits simp: Suc_le_eq neq_Nil_conv)

lemma find_crlf_line: "CHR 0x0D \<notin> set s \<Longrightarrow> find_crlf (s @ CHR 0x0D # CHR 0x0A # rest) = Some (length s)"
  by (induction s) auto

lemma seek_loop_step:
  "pos < n \<Longrightarrow> pos + 1 < length s \<Longrightarrow> seek_loop s pos n =
     (if s ! pos = CHR 0x0D \<and> s ! (pos + 1) = CHR 0x0A then Inr (Some pos) else seek_loop s (pos + 1) n)"
  by (subst seek_loop.simps) simp

lemma seek_loop_find:
  "seek_loop (pre @ inp @ post) (length pre) (length pre + length inp - 1) =
     Inr (map_option ((+) (length pre)) (find_crlf inp))"
proof (induction inp arbitrary: pre)
  case Nil
  then show ?case by (subst seek_loop.simps) simp
next
  case (Cons c inp)
  let ?s = "pre @ (c # inp) @ post"
  have IH: "seek_loop ?s (length pre + 1) (length pre + length (c # inp) - 1) =
      Inr (map_option ((+) (length pre + 1)) (find_crlf inp))"
    using Cons.IH[of "pre @ [c]"] by (cases "find_crlf inp") simp_all
  show ?case
  proof (cases "inp")
    case Nil
    then show ?thesis by (subst seek_loop.simps) simp
  next
    case (Cons d inp')
    have chars: "?s ! length pre = c" "?s ! (length pre + 1) = d" "length pre + 1 < length ?s"
      using Cons by (simp_all add: nth_append)
    have "seek_loop ?s (length pre) (length pre + length (c # inp) - 1) =
        (if c = CHR 0x0D \<and> d = CHR 0x0A then Inr (Some (length pre))
         else Inr (map_option ((+) (length pre + 1)) (find_crlf inp)))"
      using seek_loop_step[OF _ chars(3), of "length pre + length (c # inp) - 1"] chars(1,2) IH Cons
      by (simp only:) simp
    then show ?thesis using Cons by (cases "find_crlf inp") auto
  qed
qed

lemma seekNewline_find:
  assumes "length inp < 2 ^ 31"
  shows "seekNewline (inp @ post) (length inp) = Inr (find_crlf inp)"
proof (cases inp)
  case Nil
  have "usub 0 1 = 18446744073709551615" by (simp add: usub_def size_t_def)
  then have "to_int (int (usub 0 1)) = - 1" by (simp add: to_int_def)
  then show ?thesis using Nil by (simp add: seekNewline_def) (subst seek_loop.simps, simp)
next
  case (Cons c inp')
  then have "to_int (int (usub (length inp) 1)) = int (length inp - 1)" using assms by simp
  then show ?thesis using seek_loop_find[of "[]" inp post] by (cases "find_crlf inp") (simp_all add: seekNewline_def)
qed

lemma input_split: "buf_ok r \<Longrightarrow> \<exists>post. drop (rd_pos r) (rd_bytes r) = rd_input r @ post"
  by (simp add: rd_input_def) (metis append_take_drop_id)

lemma length_input: "buf_ok r \<Longrightarrow> length (rd_input r) = rd_len r - rd_pos r"
  by (auto simp: rd_input_def buf_ok_def)

lemma buf_ok_bounds: "buf_ok r \<Longrightarrow> rd_pos r < 2 ^ 31" "buf_ok r \<Longrightarrow> rd_len r < 2 ^ 31"
  by (auto simp: buf_ok_def)

lemma seek_input:
  "buf_ok r \<Longrightarrow> seekNewline (drop (rd_pos r) (rd_bytes r)) (usub (rd_len r) (rd_pos r)) =
     Inr (find_crlf (rd_input r))"
proof -
  assume ok: "buf_ok r"
  obtain post where "drop (rd_pos r) (rd_bytes r) = rd_input r @ post" using input_split[OF ok] by blast
  moreover have "usub (rd_len r) (rd_pos r) = length (rd_input r)"
    using ok by (simp add: length_input buf_ok_def)
  moreover have "length (rd_input r) < 2 ^ 31" using length_input[OF ok] ok by (auto simp: buf_ok_def)
  ultimately show ?thesis using seekNewline_find by simp
qed

lemma read_input:
  "buf_ok r \<Longrightarrow> n \<le> length (rd_input r) \<Longrightarrow> mem_read (rd_bytes r) (rd_pos r) n = Inr (take n (rd_input r))"
  by (auto simp: length_input) (auto simp: buf_ok_def rd_input_def min_def)

lemma read_input_at:
  "buf_ok r \<Longrightarrow> k + n \<le> length (rd_input r) \<Longrightarrow>
     mem_read (rd_bytes r) (rd_pos r + k) n = Inr (take n (drop k (rd_input r)))"
  by (auto simp: length_input) (auto simp: buf_ok_def rd_input_def min_def drop_take add.commute)

lemma consume_ok: "buf_ok r \<Longrightarrow> n \<le> length (rd_input r) \<Longrightarrow> buf_ok (consume n r)"
  by (auto simp: length_input) (auto simp: buf_ok_def consume_def rd_bytes_def)

lemma consume_input: "rd_input (consume n r) = drop n (rd_input r)"
  by (simp add: rd_input_def consume_def rd_bytes_def drop_take add.commute)

lemma readBytes_input:
  "buf_ok r \<Longrightarrow> readBytes r 1 = (if rd_input r = [] then None else Some (rd_pos r, consume 1 r))"
proof -
  assume ok: "buf_ok r"
  then have "rd_input r = [] \<longleftrightarrow> rd_len r = rd_pos r" using length_input[OF ok] by (auto simp: buf_ok_def)
  then show ?thesis using ok by (auto simp: readBytes_def buf_ok_def consume_def)
qed

lemma readLine_input:
  "buf_ok r \<Longrightarrow> readLine r = Inr (case find_crlf (rd_input r) of None \<Rightarrow> (None, r)
     | Some n \<Rightarrow> (Some (rd_pos r, n), consume (n + 2) r))"
proof -
  assume ok: "buf_ok r"
  have "find_crlf (rd_input r) = Some n \<Longrightarrow> rd_pos r + n + 2 < 2 ^ 64" for n
    using find_crlf_bound[of "rd_input r" n] length_input[OF ok] ok by (auto simp: buf_ok_def)
  then show ?thesis
    by (auto simp: readLine_def seek_input[OF ok] consume_def split: option.splits)
qed

section \<open>The protocol and the recursive reference parser\<close>

datatype resp = RString string | RStatus string | RError string | RInteger int | RNil | RArray "resp list"

abbreviation crlf :: string where "crlf \<equiv> [CHR 0x0D, CHR 0x0A]"

text \<open>What a server writes for a reply.\<close>

fun ser :: "resp \<Rightarrow> string" where
  "ser (RString s) = CHR ''$'' # sdsll2str (int (length s)) @ crlf @ s @ crlf"
| "ser (RStatus s) = CHR ''+'' # s @ crlf"
| "ser (RError s) = CHR ''-'' # s @ crlf"
| "ser (RInteger i) = CHR '':'' # sdsll2str i @ crlf"
| "ser RNil = CHR ''$'' # sdsll2str (- 1) @ crlf"
| "ser (RArray vs) = CHR ''*'' # sdsll2str (int (length vs)) @ crlf @ concat (map ser vs)"

text \<open>Arrays nested at most \<open>d\<close> deep, and the texts and numbers the protocol can carry.\<close>

fun resp_ok :: "nat \<Rightarrow> resp \<Rightarrow> bool" where
  "resp_ok d (RString s) = (length s < 2 ^ 31)"
| "resp_ok d (RStatus s) = (CHR 0x0D \<notin> set s)"
| "resp_ok d (RError s) = (CHR 0x0D \<notin> set s)"
| "resp_ok d (RInteger i) = (- (2 ^ 63) \<le> i \<and> i < 2 ^ 63)"
| "resp_ok d RNil = True"
| "resp_ok d (RArray vs) = (0 < d \<and> length vs < 2 ^ 31 \<and> list_all (resp_ok (d - 1)) vs)"

text \<open>
  A creating function only looks at the type and index of its task and at the object of the
  enclosing array; \<open>place\<close> holds that object and the index.
\<close>

type_synonym place = "(nat \<times> nat) option"

definition view_task :: "int \<Rightarrow> place \<Rightarrow> redisReadTask" where
  "view_task type pl = \<lparr>task_type = type, task_elements = - 1,
     task_idx = (case pl of None \<Rightarrow> - 1 | Some (_, i) \<Rightarrow> int i), task_obj = 0, task_parent = None,
     task_privdata = 0\<rparr>"

definition view_parent :: "place \<Rightarrow> redisReadTask option" where
  "view_parent pl = map_option (\<lambda>(obj, _).
     \<lparr>task_type = REDIS_REPLY_ARRAY, task_elements = 0, task_idx = 0, task_obj = obj,
      task_parent = None, task_privdata = 0\<rparr>) pl"

text \<open>Building a reply by recursive descent, with the functions of the table.\<close>

fun build :: "'w redisReplyObjectFunctions \<Rightarrow> place \<Rightarrow> resp \<Rightarrow> 'w \<Rightarrow> (nat \<times> 'w) res"
  and build_elems :: "'w redisReplyObjectFunctions \<Rightarrow> nat \<Rightarrow> nat \<Rightarrow> resp list \<Rightarrow> 'w \<Rightarrow> 'w res" where
  "build fns pl (RString s) w =
     the (createString fns) (view_task REDIS_REPLY_STRING pl) (view_parent pl) s w"
| "build fns pl (RStatus s) w =
     the (createString fns) (view_task REDIS_REPLY_STATUS pl) (view_parent pl) s w"
| "build fns pl (RError s) w =
     the (createString fns) (view_task REDIS_REPLY_ERROR pl) (view_parent pl) s w"
| "build fns pl (RInteger i) w =
     the (createInteger fns) (view_task REDIS_REPLY_INTEGER pl) (view_parent pl) i w"
| "build fns pl RNil w = the (createNil fns) (view_task REDIS_REPLY_STRING pl) (view_parent pl) w"
| "build fns pl (RArray vs) w =
     bindR (the (createArray fns) (view_task REDIS_REPLY_ARRAY pl) (view_parent pl) (int (length vs)) w)
       (\<lambda>(obj, w). bindR (build_elems fns obj 0 vs w) (\<lambda>w. Inr (obj, w)))"
| "build_elems fns obj i [] w = Inr w"
| "build_elems fns obj i (v # vs) w =
     bindR (build fns (Some (obj, i)) v w) (\<lambda>(_, w). build_elems fns obj (i + 1) vs w)"

section \<open>What the parser asks of the functions that build objects\<close>

definition same_view :: "redisReadTask \<Rightarrow> redisReadTask option \<Rightarrow> redisReadTask \<Rightarrow> redisReadTask option \<Rightarrow> bool" where
  "same_view t p t' p' \<longleftrightarrow> task_type t = task_type t' \<and> task_idx t = task_idx t' \<and>
     map_option task_obj p = map_option task_obj p'"

text \<open>\<open>slot w obj i\<close>: the object is an array with an element \<open>i\<close>.\<close>

locale reply_builder =
  fixes fns :: "'w redisReplyObjectFunctions"
    and good :: "'w \<Rightarrow> bool" and slot :: "'w \<Rightarrow> nat \<Rightarrow> nat \<Rightarrow> bool"
    and cs :: "redisReadTask \<Rightarrow> redisReadTask option \<Rightarrow> string \<Rightarrow> 'w \<Rightarrow> (nat \<times> 'w) res"
    and ca :: "redisReadTask \<Rightarrow> redisReadTask option \<Rightarrow> int \<Rightarrow> 'w \<Rightarrow> (nat \<times> 'w) res"
    and ci :: "redisReadTask \<Rightarrow> redisReadTask option \<Rightarrow> int \<Rightarrow> 'w \<Rightarrow> (nat \<times> 'w) res"
    and cn :: "redisReadTask \<Rightarrow> redisReadTask option \<Rightarrow> 'w \<Rightarrow> (nat \<times> 'w) res"
  assumes fns: "createString fns = Some cs" "createArray fns = Some ca"
      "createInteger fns = Some ci" "createNil fns = Some cn"
    and view: "same_view t p t' p' \<Longrightarrow> cs t p s w = cs t' p' s w"
      "same_view t p t' p' \<Longrightarrow> ca t p n w = ca t' p' n w"
      "same_view t p t' p' \<Longrightarrow> ci t p n w = ci t' p' n w"
      "same_view t p t' p' \<Longrightarrow> cn t p w = cn t' p' w"
    and string_ok: "good w \<Longrightarrow> task_type t \<in> {REDIS_REPLY_STRING, REDIS_REPLY_STATUS, REDIS_REPLY_ERROR} \<Longrightarrow>
      (\<And>q. p = Some q \<Longrightarrow> 0 \<le> task_idx t \<and> slot w (task_obj q) (nat (task_idx t))) \<Longrightarrow>
      \<exists>obj w'. cs t p s w = Inr (obj, w') \<and> obj \<noteq> 0 \<and> good w' \<and> (\<forall>q i. slot w q i \<longrightarrow> slot w' q i)"
    and array_ok: "good w \<Longrightarrow> 0 \<le> n \<Longrightarrow> n < 2 ^ 31 \<Longrightarrow>
      (\<And>q. p = Some q \<Longrightarrow> 0 \<le> task_idx t \<and> slot w (task_obj q) (nat (task_idx t))) \<Longrightarrow>
      \<exists>obj w'. ca t p n w = Inr (obj, w') \<and> obj \<noteq> 0 \<and> good w' \<and> (\<forall>q i. slot w q i \<longrightarrow> slot w' q i) \<and>
        (\<forall>i < nat n. slot w' obj i)"
    and integer_ok: "good w \<Longrightarrow>
      (\<And>q. p = Some q \<Longrightarrow> 0 \<le> task_idx t \<and> slot w (task_obj q) (nat (task_idx t))) \<Longrightarrow>
      \<exists>obj w'. ci t p n w = Inr (obj, w') \<and> obj \<noteq> 0 \<and> good w' \<and> (\<forall>q i. slot w q i \<longrightarrow> slot w' q i)"
    and nil_ok: "good w \<Longrightarrow>
      (\<And>q. p = Some q \<Longrightarrow> 0 \<le> task_idx t \<and> slot w (task_obj q) (nat (task_idx t))) \<Longrightarrow>
      \<exists>obj w'. cn t p w = Inr (obj, w') \<and> obj \<noteq> 0 \<and> good w' \<and> (\<forall>q i. slot w q i \<longrightarrow> slot w' q i)"

section \<open>The stack of tasks\<close>

definition cur_task :: "'w redisReader \<Rightarrow> redisReadTask" where
  "cur_task r = rd_rstack r ! nat (rd_ridx r)"

definition stack_ok :: "'w redisReader \<Rightarrow> bool" where
  "stack_ok r \<longleftrightarrow> length (rd_rstack r) = 9 \<and> 0 \<le> rd_ridx r \<and> rd_ridx r \<le> 8 \<and>
     (\<forall>i \<le> nat (rd_ridx r). task_parent (rd_rstack r ! i) = (if i = 0 then None else Some (i - 1))) \<and>
     (\<forall>i < nat (rd_ridx r). task_type (rd_rstack r ! i) = REDIS_REPLY_ARRAY \<and>
        0 \<le> task_idx (rd_rstack r ! Suc i) \<and>
        task_idx (rd_rstack r ! Suc i) < task_elements (rd_rstack r ! i))"

text \<open>Where the object of the current task goes.\<close>

definition place_of :: "'w redisReader \<Rightarrow> place" where
  "place_of r = (if rd_ridx r = 0 then None
     else Some (task_obj (rd_rstack r ! (nat (rd_ridx r) - 1)), nat (task_idx (cur_task r))))"

text \<open>The current task with its type read.\<close>

definition typed :: "'w redisReader \<Rightarrow> int \<Rightarrow> 'w redisReader" where
  "typed r type = (consume 1 r)
     \<lparr>rd_rstack := (rd_rstack r)[nat (rd_ridx r) := (cur_task r)\<lparr>task_type := type\<rparr>]\<rparr>"

text \<open>An item of \<open>n\<close> bytes is read and its object stored; the stack below is as before.\<close>

definition item_done :: "'w redisReader \<Rightarrow> nat \<Rightarrow> nat \<Rightarrow> 'w redisReader \<Rightarrow> bool" where
  "item_done r n obj r' \<longleftrightarrow>
     (\<exists>st. r' = r\<lparr>rd_pos := rd_pos r + n, rd_rstack := st,
             rd_reply := if rd_ridx r = 0 then obj else rd_reply r\<rparr> \<and>
        length st = length (rd_rstack r) \<and> take (nat (rd_ridx r)) st = take (nat (rd_ridx r)) (rd_rstack r) \<and>
        task_idx (st ! nat (rd_ridx r)) = task_idx (cur_task r) \<and>
        task_parent (st ! nat (rd_ridx r)) = task_parent (cur_task r))"

definition go_on :: "'w redisReader \<Rightarrow> 'w \<Rightarrow> ('w redisReader \<times> 'w) res option" where
  "go_on r w = (case moveToNextTask r of Inl e \<Rightarrow> Some (Inl e) | Inr r' \<Rightarrow> process_loop r' w)"

lemma stack_bound: "stack_ok r \<Longrightarrow> nat (rd_ridx r) < length (rd_rstack r)"
  by (auto simp: stack_ok_def)

lemma task_at_cur: "stack_ok r \<Longrightarrow> task_at r (rd_ridx r) = Inr (cur_task r)"
  by (auto simp: task_at_def cur_task_def stack_ok_def)

lemma set_task_cur: "stack_ok r \<Longrightarrow>
    set_task r (rd_ridx r) t = Inr (r\<lparr>rd_rstack := (rd_rstack r)[nat (rd_ridx r) := t]\<rparr>)"
  by (auto simp: set_task_def stack_ok_def)

lemma typed_simps [simp]:
  "rd_ridx (typed r type) = rd_ridx r" "rd_fn (typed r type) = rd_fn r" "rd_reply (typed r type) = rd_reply r"
  "rd_bytes (typed r type) = rd_bytes r" "rd_pos (typed r type) = rd_pos r + 1"
  "rd_rstack (typed r type) = (rd_rstack r)[nat (rd_ridx r) := (cur_task r)\<lparr>task_type := type\<rparr>]"
  by (simp_all add: typed_def consume_def rd_bytes_def)

lemma typed_cur: "stack_ok r \<Longrightarrow> cur_task (typed r type) = (cur_task r)\<lparr>task_type := type\<rparr>"
  using stack_bound[of r] by (simp add: cur_task_def)

lemma typed_stack: "stack_ok r \<Longrightarrow> stack_ok (typed r type)"
  unfolding stack_ok_def cur_task_def by (auto simp: nth_list_update cur_task_def)

lemma typed_place: "stack_ok r \<Longrightarrow> place_of (typed r type) = place_of r"
proof -
  assume ok: "stack_ok r"
  then have "nat (rd_ridx r) \<noteq> nat (rd_ridx r) - 1" if "rd_ridx r \<noteq> 0" using that by (auto simp: stack_ok_def)
  then show ?thesis using typed_cur[OF ok] by (simp add: place_of_def)
qed

lemma typed_input: "rd_input (typed r type) = drop 1 (rd_input r)"
  using consume_input[of 1 r] by (simp add: typed_def rd_input_def rd_bytes_def)

lemma typed_buf: "buf_ok r \<Longrightarrow> rd_input r \<noteq> [] \<Longrightarrow> buf_ok (typed r type)"
  using consume_ok[of r 1] by (simp add: typed_def buf_ok_def rd_bytes_def Suc_le_eq)

lemma processItem_typed:
  assumes "buf_ok r" "stack_ok r" "task_type (cur_task r) = - 1" "rd_input r = c # inp" "reply_type c = Some type"
  shows "processItem r w = process_typed (typed r type) w"
proof -
  have "readBytes r 1 = Some (rd_pos r, consume 1 r)" using readBytes_input[OF assms(1)] assms(4) by simp
  moreover have "mem_read (rd_bytes (consume 1 r)) (rd_pos r) 1 = Inr [c]"
    using read_input[OF assms(1), of 1] assms(4) by (simp add: consume_def rd_bytes_def)
  moreover have "set_task (consume 1 r) (rd_ridx (consume 1 r)) (cur_task r\<lparr>task_type := type\<rparr>) = Inr (typed r type)"
    using stack_bound[OF assms(2)] assms(2) by (auto simp: set_task_def typed_def consume_def stack_ok_def)
  ultimately show ?thesis
    using assms(3,5)
    by (simp add: processItem_def task_at_cur[OF assms(2)] del: mem_read_eq_Inr One_nat_def)
qed

lemma item_doneI:
  assumes "length st = length (rd_rstack r)"
    "take (nat (rd_ridx r)) st = take (nat (rd_ridx r)) (rd_rstack r)"
    "task_idx (st ! nat (rd_ridx r)) = task_idx (cur_task r)"
    "task_parent (st ! nat (rd_ridx r)) = task_parent (cur_task r)"
  shows "item_done r n obj (r\<lparr>rd_pos := rd_pos r + n, rd_rstack := st,
    rd_reply := if rd_ridx r = 0 then obj else rd_reply r\<rparr>)"
  using assms unfolding item_done_def by blast

text \<open>Handing a finished object over and going on.\<close>

lemma go_on_finish:
  assumes "0 \<le> rd_ridx r" "processItem r w = finish_item (r'\<lparr>rd_pos := p\<rparr>) obj w'"
    "rd_ridx r' = rd_ridx r"
  shows "process_loop r w = go_on (r'\<lparr>rd_pos := p, rd_reply := if rd_ridx r = 0 then obj else rd_reply r'\<rparr>) w'"
proof -
  have "(if rd_ridx (r'\<lparr>rd_pos := p\<rparr>) = 0 then r'\<lparr>rd_pos := p\<rparr>\<lparr>rd_reply := obj\<rparr> else r'\<lparr>rd_pos := p\<rparr>) =
      r'\<lparr>rd_pos := p, rd_reply := if rd_ridx r = 0 then obj else rd_reply r'\<rparr>"
    using assms(3) by simp
  then have "finish_item (r'\<lparr>rd_pos := p\<rparr>) obj w' = bindR (moveToNextTask
      (r'\<lparr>rd_pos := p, rd_reply := if rd_ridx r = 0 then obj else rd_reply r'\<rparr>)) (\<lambda>r. Inr (REDIS_OK, r, w'))"
    by (simp only: finish_item_def)
  then show ?thesis using assms(1,2)
    by (subst process_loop.simps) (simp add: go_on_def bindR_def split: sum.splits)
qed

lemma typed_done:
  "stack_ok r \<Longrightarrow> item_done r n obj ((typed r type)\<lparr>rd_pos := rd_pos r + n,
     rd_reply := if rd_ridx r = 0 then obj else rd_reply r\<rparr>)"
proof -
  assume ok: "stack_ok r"
  have "(typed r type)\<lparr>rd_pos := rd_pos r + n, rd_reply := if rd_ridx r = 0 then obj else rd_reply r\<rparr> =
      r\<lparr>rd_pos := rd_pos r + n, rd_rstack := rd_rstack (typed r type),
        rd_reply := if rd_ridx r = 0 then obj else rd_reply r\<rparr>"
    by (simp add: typed_def consume_def)
  moreover have "item_done r n obj \<dots>"
    using stack_bound[OF ok] by (intro item_doneI) simp_all
  ultimately show ?thesis by simp
qed

text \<open>The arguments the functions get agree with the place of the current task.\<close>

lemma view_current:
  assumes "stack_ok r" "rd_ridx r = 0 \<longrightarrow> task_idx (cur_task r) = - 1"
  shows "same_view (cur_task r) (parent_of r (cur_task r))
    (view_task (task_type (cur_task r)) (place_of r)) (view_parent (place_of r))"
proof (cases "rd_ridx r = 0")
  case True
  with assms show ?thesis
    by (simp add: same_view_def view_task_def view_parent_def place_of_def parent_of_def stack_ok_def cur_task_def)
next
  case False
  with assms(1) obtain k where k: "nat (rd_ridx r) = Suc k"
    by (cases "nat (rd_ridx r)") (auto simp: stack_ok_def)
  with assms(1) have "task_parent (cur_task r) = Some k" "0 \<le> task_idx (cur_task r)"
    by (auto simp: stack_ok_def cur_task_def)
  then show ?thesis using False k
    by (simp add: same_view_def view_task_def view_parent_def place_of_def parent_of_def)
qed

definition ready :: "'w redisReplyObjectFunctions \<Rightarrow> 'w redisReader \<Rightarrow> string \<Rightarrow> bool" where
  "ready fns r inp \<longleftrightarrow> buf_ok r \<and> stack_ok r \<and> task_type (cur_task r) = - 1 \<and>
     (rd_ridx r = 0 \<longrightarrow> task_idx (cur_task r) = - 1) \<and> rd_fn r = Some fns \<and> rd_input r = inp"

definition advanced :: "'w redisReader \<Rightarrow> int \<Rightarrow> nat \<Rightarrow> nat \<Rightarrow> 'w redisReader" where
  "advanced r type n obj = (typed r type)\<lparr>rd_pos := rd_pos r + n,
     rd_reply := if rd_ridx r = 0 then obj else rd_reply r\<rparr>"

lemma ready_typed:
  assumes "ready fns r (c # inp)" "reply_type c = Some type"
  shows "processItem r w = process_typed (typed r type) w" "buf_ok (typed r type)"
    "stack_ok (typed r type)" "rd_input (typed r type) = inp" "rd_fn (typed r type) = Some fns"
    "task_at (typed r type) (rd_ridx r) = Inr (cur_task (typed r type))"
    "task_type (cur_task (typed r type)) = type"
    "same_view (cur_task (typed r type)) (parent_of (typed r type) (cur_task (typed r type)))
       (view_task type (place_of r)) (view_parent (place_of r))"
proof -
  from assms(1) have r: "buf_ok r" "stack_ok r" "task_type (cur_task r) = - 1"
    "rd_ridx r = 0 \<longrightarrow> task_idx (cur_task r) = - 1" "rd_fn r = Some fns" "rd_input r = c # inp"
    by (simp_all add: ready_def)
  show "processItem r w = process_typed (typed r type) w"
    by (rule processItem_typed[OF r(1-3,6) assms(2)])
  show "buf_ok (typed r type)" using typed_buf[OF r(1)] r(6) by simp
  show st: "stack_ok (typed r type)" by (rule typed_stack[OF r(2)])
  show "rd_input (typed r type) = inp" using r(6) by (simp add: typed_input)
  show "rd_fn (typed r type) = Some fns" using r(5) by simp
  show "task_at (typed r type) (rd_ridx r) = Inr (cur_task (typed r type))"
    using task_at_cur[OF st] by simp
  show ty: "task_type (cur_task (typed r type)) = type" using typed_cur[OF r(2)] by simp
  show "same_view (cur_task (typed r type)) (parent_of (typed r type) (cur_task (typed r type)))
       (view_task type (place_of r)) (view_parent (place_of r))"
    using view_current[OF st] r(4) typed_cur[OF r(2)] ty typed_place[OF r(2)] by simp
qed

text \<open>After a line is read: the reader and the text.\<close>

lemma line_read:
  assumes "buf_ok r" "rd_input r = line @ crlf @ rest" "CHR 0x0D \<notin> set line"
  shows "readLine r = Inr (Some (rd_pos r, length line), consume (length line + 2) r)"
    "mem_read (rd_bytes r) (rd_pos r) (length line) = Inr line"
    "rd_input (consume (length line + 2) r) = rest" "buf_ok (consume (length line + 2) r)"
proof -
  show "readLine r = Inr (Some (rd_pos r, length line), consume (length line + 2) r)"
    using readLine_input[OF assms(1)] assms(2) find_crlf_line[OF assms(3), of rest] by simp
  show "mem_read (rd_bytes r) (rd_pos r) (length line) = Inr line"
    using read_input[OF assms(1), of "length line"] assms(2) by simp
  show "rd_input (consume (length line + 2) r) = rest" by (simp add: consume_input assms(2))
  show "buf_ok (consume (length line + 2) r)" using consume_ok[OF assms(1)] assms(2) by simp
qed

lemma typed_consume: "consume n (typed r type) = (typed r type)\<lparr>rd_pos := rd_pos r + (n + 1)\<rparr>"
  by (simp add: consume_def)

lemma line_integer:
  assumes "task_at r (rd_ridx r) = Inr cur" "task_type cur = REDIS_REPLY_INTEGER"
    "readLine r = Inr (Some (p, n), r')" "mem_read (rd_bytes r') p n = Inr line"
    "rd_fn r' = Some fns" "createInteger fns = Some f" "string2ll line = Some v"
    "f cur (parent_of r' cur) v w = Inr (obj, w')" "obj \<noteq> 0"
  shows "processLineItem r w = finish_item r' obj w'"
  using assms by (simp add: processLineItem_def del: mem_read_eq_Inr)

lemma line_text:
  assumes "task_at r (rd_ridx r) = Inr cur" "task_type cur \<noteq> REDIS_REPLY_INTEGER"
    "readLine r = Inr (Some (p, n), r')" "mem_read (rd_bytes r') p n = Inr line"
    "rd_fn r' = Some fns" "createString fns = Some f"
    "f cur (parent_of r' cur) line w = Inr (obj, w')" "obj \<noteq> 0"
  shows "processLineItem r w = finish_item r' obj w'"
  using assms by (simp add: processLineItem_def make_string_def del: mem_read_eq_Inr)

lemma bulk_nil:
  assumes "task_at r (rd_ridx r) = Inr cur"
    "seekNewline (drop (rd_pos r) (rd_bytes r)) (usub (rd_len r) (rd_pos r)) = Inr (Some n)"
    "mem_read (rd_bytes r) (rd_pos r) n = Inr digits" "string2ll digits = Some (- 1)"
    "rd_fn r = Some fns" "createNil fns = Some f" "f cur (parent_of r cur) w = Inr (obj, w')" "obj \<noteq> 0"
  shows "processBulkItem r w = finish_item (r\<lparr>rd_pos := size_t (rd_pos r + (n + 2))\<rparr>) obj w'"
  using assms by (simp add: processBulkItem_def make_nil_def Let_def del: mem_read_eq_Inr)

lemma bulk_string:
  assumes "task_at r (rd_ridx r) = Inr cur"
    "seekNewline (drop (rd_pos r) (rd_bytes r)) (usub (rd_len r) (rd_pos r)) = Inr (Some n)"
    "mem_read (rd_bytes r) (rd_pos r) n = Inr digits" "string2ll digits = Some (int k)"
    "n + 2 + k + 2 < 2 ^ 32" "rd_pos r + (n + 2 + k + 2) \<le> rd_len r" "rd_len r < 2 ^ 31"
    "mem_read (rd_bytes r) (rd_pos r + n + 2) k = Inr str"
    "rd_fn r = Some fns" "createString fns = Some f" "f cur (parent_of r cur) str w = Inr (obj, w')" "obj \<noteq> 0"
  shows "processBulkItem r w = finish_item (r\<lparr>rd_pos := rd_pos r + (n + 2 + k + 2)\<rparr>) obj w'"
proof -
  have "size_t (n + 2 + k + 2) = n + 2 + k + 2" "size_t (rd_pos r + (n + 2 + k + 2)) = rd_pos r + (n + 2 + k + 2)"
    using assms(5-7) by simp_all
  with assms show ?thesis
    by (simp add: processBulkItem_def make_string_def Let_def del: mem_read_eq_Inr)
qed

lemma multi_array:
  assumes "task_at r (rd_ridx r) = Inr cur" "rd_ridx r \<noteq> 8" "readLine r = Inr (Some (p, n), r')"
    "rd_ridx r' = rd_ridx r" "mem_read (rd_bytes r') p n = Inr digits" "string2ll digits = Some k"
    "0 \<le> k" "k < 2 ^ 31" "rd_fn r' = Some fns" "createArray fns = Some f"
    "f cur (parent_of r' cur) k w = Inr (obj, w')" "obj \<noteq> 0"
  shows "processMultiBulkItem r w =
    bindR (if k > 0 then
             bindR (set_task r' (rd_ridx r) (cur\<lparr>task_elements := k, task_obj := obj\<rparr>)) (\<lambda>r''.
             set_task (r''\<lparr>rd_ridx := rd_ridx r + 1\<rparr>) (rd_ridx r + 1) (child_task r' (rd_ridx r)))
           else moveToNextTask r')
      (\<lambda>r''. Inr (REDIS_OK, if rd_ridx r = 0 then r''\<lparr>rd_reply := obj\<rparr> else r'', w'))"
  using assms by (simp add: processMultiBulkItem_def make_array_def Let_def del: mem_read_eq_Inr)

lemma rd_bytes_pos [simp]: "rd_bytes (r\<lparr>rd_pos := p\<rparr>) = rd_bytes r" "rd_bytes (consume n r) = rd_bytes r"
  by (simp_all add: rd_bytes_def consume_def)

lemma go_on_advanced:
  assumes "0 \<le> rd_ridx r" "processItem r w = finish_item ((typed r type)\<lparr>rd_pos := rd_pos r + n\<rparr>) obj w'"
  shows "process_loop r w = go_on (advanced r type n obj) w'"
  using go_on_finish[OF assms] by (simp add: advanced_def)

lemma parent_of_pos [simp]: "parent_of (r\<lparr>rd_pos := p\<rparr>) = parent_of r"
  by (intro ext) (simp add: parent_of_def)

context reply_builder
begin

lemma text_item:
  assumes "ready fns r (c # line @ crlf @ rest)" "reply_type c = Some type"
    "type = REDIS_REPLY_STATUS \<or> type = REDIS_REPLY_ERROR" "CHR 0x0D \<notin> set line"
    "cs (view_task type (place_of r)) (view_parent (place_of r)) line w = Inr (obj, w')" "obj \<noteq> 0"
  shows "process_loop r w = go_on (advanced r type (length line + 3) obj) w'"
proof (rule go_on_advanced)
  note t = ready_typed[OF assms(1,2)]
  note l = line_read[OF t(2,4) assms(4)]
  show "0 \<le> rd_ridx r" using assms(1) by (simp add: ready_def stack_ok_def)
  let ?r = "typed r type"
  let ?c = "?r\<lparr>rd_pos := rd_pos r + (length line + 3)\<rparr>"
  have c: "consume (length line + 2) ?r = ?c" by (simp add: typed_consume numeral_eq_Suc)
  have "processLineItem ?r w = finish_item ?c obj w'"
  proof (rule line_text)
    show "task_at ?r (rd_ridx ?r) = Inr (cur_task ?r)" using t(6) by simp
    show "task_type (cur_task ?r) \<noteq> REDIS_REPLY_INTEGER" using t(7) assms(3) by auto
    show "readLine ?r = Inr (Some (rd_pos ?r, length line), ?c)" using l(1) c by simp
    show "mem_read (rd_bytes ?c) (rd_pos ?r) (length line) = Inr line"
      using l(2) by (simp only: rd_bytes_pos)
    show "rd_fn ?c = Some fns" using t(5) by simp
    show "createString fns = Some cs" by (rule fns(1))
    show "cs (cur_task ?r) (parent_of ?c (cur_task ?r)) line w = Inr (obj, w')"
      using view(1)[OF t(8)] assms(5) by simp
  qed (rule assms(6))
  then show "processItem r w = finish_item ?c obj w'"
    using t(1,6,7) assms(3) by (auto simp: process_typed_def)
qed

lemma integer_item:
  assumes "ready fns r (CHR '':'' # sdsll2str i @ crlf @ rest)" "- (2 ^ 63) \<le> i" "i < 2 ^ 63"
    "ci (view_task REDIS_REPLY_INTEGER (place_of r)) (view_parent (place_of r)) i w = Inr (obj, w')" "obj \<noteq> 0"
  shows "process_loop r w = go_on (advanced r REDIS_REPLY_INTEGER (length (sdsll2str i) + 3) obj) w'"
proof (rule go_on_advanced)
  have type: "reply_type CHR '':'' = Some REDIS_REPLY_INTEGER" by (simp add: reply_type_def)
  note t = ready_typed[OF assms(1) type]
  note l = line_read[OF t(2,4) sdsll2str_no_cr[OF assms(2,3)]]
  show "0 \<le> rd_ridx r" using assms(1) by (simp add: ready_def stack_ok_def)
  let ?r = "typed r REDIS_REPLY_INTEGER"
  let ?c = "?r\<lparr>rd_pos := rd_pos r + (length (sdsll2str i) + 3)\<rparr>"
  have c: "consume (length (sdsll2str i) + 2) ?r = ?c" by (simp add: typed_consume numeral_eq_Suc)
  have "processLineItem ?r w = finish_item ?c obj w'"
  proof (rule line_integer)
    show "task_at ?r (rd_ridx ?r) = Inr (cur_task ?r)" using t(6) by simp
    show "task_type (cur_task ?r) = REDIS_REPLY_INTEGER" by (rule t(7))
    show "readLine ?r = Inr (Some (rd_pos ?r, length (sdsll2str i)), ?c)" using l(1) c by simp
    show "mem_read (rd_bytes ?c) (rd_pos ?r) (length (sdsll2str i)) = Inr (sdsll2str i)"
      using l(2) by (simp only: rd_bytes_pos)
    show "rd_fn ?c = Some fns" using t(5) by simp
    show "createInteger fns = Some ci" by (rule fns(3))
    show "string2ll (sdsll2str i) = Some i" by (rule string2ll_sdsll2str[OF assms(2,3)])
    show "ci (cur_task ?r) (parent_of ?c (cur_task ?r)) i w = Inr (obj, w')"
      using view(3)[OF t(8)] assms(4) by simp
  qed (rule assms(5))
  then show "processItem r w = finish_item ?c obj w'"
    using t(1,6,7) by (simp add: process_typed_def)
qed

lemma nil_item:
  assumes "ready fns r (CHR ''$'' # sdsll2str (- 1) @ crlf @ rest)"
    "cn (view_task REDIS_REPLY_STRING (place_of r)) (view_parent (place_of r)) w = Inr (obj, w')" "obj \<noteq> 0"
  shows "process_loop r w = go_on (advanced r REDIS_REPLY_STRING (length (sdsll2str (- 1)) + 3) obj) w'"
proof (rule go_on_advanced)
  let ?n = "length (sdsll2str (- 1))"
  have type: "reply_type CHR ''$'' = Some REDIS_REPLY_STRING" by (simp add: reply_type_def)
  note t = ready_typed[OF assms(1) type]
  have nocr: "CHR 0x0D \<notin> set (sdsll2str (- 1))" by (rule sdsll2str_no_cr) simp_all
  note l = line_read[OF t(2,4) nocr]
  show "0 \<le> rd_ridx r" using assms(1) by (simp add: ready_def stack_ok_def)
  let ?r = "typed r REDIS_REPLY_STRING"
  have len: "rd_pos r + (?n + 3) < 2 ^ 64"
    using length_input[OF t(2)] t(2,4) by (auto simp: buf_ok_def)
  have "processBulkItem ?r w = finish_item (?r\<lparr>rd_pos := size_t (rd_pos ?r + (?n + 2))\<rparr>) obj w'"
  proof (rule bulk_nil)
    show "task_at ?r (rd_ridx ?r) = Inr (cur_task ?r)" using t(6) by simp
    show "seekNewline (drop (rd_pos ?r) (rd_bytes ?r)) (usub (rd_len ?r) (rd_pos ?r)) = Inr (Some ?n)"
      using seek_input[OF t(2)] t(4) find_crlf_line[OF nocr, of rest] by simp
    show "mem_read (rd_bytes ?r) (rd_pos ?r) ?n = Inr (sdsll2str (- 1))" by (rule l(2))
    show "string2ll (sdsll2str (- 1)) = Some (- 1)" by (rule string2ll_sdsll2str) simp_all
    show "rd_fn ?r = Some fns" by (rule t(5))
    show "createNil fns = Some cn" by (rule fns(4))
    show "cn (cur_task ?r) (parent_of ?r (cur_task ?r)) w = Inr (obj, w')"
      using view(4)[OF t(8)] assms(2) by simp
  qed (rule assms(3))
  moreover have "size_t (rd_pos ?r + (?n + 2)) = rd_pos r + (?n + 3)" using len by (subst size_t_id) simp_all
  ultimately show "processItem r w = finish_item (?r\<lparr>rd_pos := rd_pos r + (?n + 3)\<rparr>) obj w'"
    using t(1,6,7) by (simp add: process_typed_def)
qed

lemma string_item:
  assumes "ready fns r (CHR ''$'' # sdsll2str (int (length str)) @ crlf @ str @ crlf @ rest)"
    "length str < 2 ^ 31"
    "cs (view_task REDIS_REPLY_STRING (place_of r)) (view_parent (place_of r)) str w = Inr (obj, w')" "obj \<noteq> 0"
  shows "process_loop r w =
    go_on (advanced r REDIS_REPLY_STRING (length (sdsll2str (int (length str))) + length str + 5) obj) w'"
proof (rule go_on_advanced)
  let ?d = "sdsll2str (int (length str))" and ?k = "length str"
  let ?n = "length ?d"
  have type: "reply_type CHR ''$'' = Some REDIS_REPLY_STRING" by (simp add: reply_type_def)
  note t = ready_typed[OF assms(1) type]
  have range: "- (2 ^ 63) \<le> int ?k" "int ?k < 2 ^ 63" using assms(2) by simp_all
  note nocr = sdsll2str_no_cr[OF range]
  note l = line_read[OF t(2,4) nocr]
  show "0 \<le> rd_ridx r" using assms(1) by (simp add: ready_def stack_ok_def)
  let ?r = "typed r REDIS_REPLY_STRING"
  have len: "rd_pos ?r + (?n + 2 + ?k + 2) \<le> rd_len ?r" "rd_len ?r < 2 ^ 31"
    using length_input[OF t(2)] t(2,4) by (auto simp: buf_ok_def)
  have "processBulkItem ?r w = finish_item (?r\<lparr>rd_pos := rd_pos ?r + (?n + 2 + ?k + 2)\<rparr>) obj w'"
  proof (rule bulk_string)
    show "task_at ?r (rd_ridx ?r) = Inr (cur_task ?r)" using t(6) by simp
    show "seekNewline (drop (rd_pos ?r) (rd_bytes ?r)) (usub (rd_len ?r) (rd_pos ?r)) = Inr (Some ?n)"
      using seek_input[OF t(2)] t(4) find_crlf_line[OF nocr] by simp
    show "mem_read (rd_bytes ?r) (rd_pos ?r) ?n = Inr ?d" by (rule l(2))
    show "string2ll ?d = Some (int ?k)" by (rule string2ll_sdsll2str[OF range])
    show "?n + 2 + ?k + 2 < 2 ^ 32" using len by simp
    show "mem_read (rd_bytes ?r) (rd_pos ?r + ?n + 2) ?k = Inr str"
      using read_input_at[OF t(2), of "?n + 2" ?k] t(4) by (simp add: add.assoc)
    show "rd_fn ?r = Some fns" by (rule t(5))
    show "createString fns = Some cs" by (rule fns(1))
    show "cs (cur_task ?r) (parent_of ?r (cur_task ?r)) str w = Inr (obj, w')"
      using view(1)[OF t(8)] assms(3) by simp
  qed (use len assms(4) in simp_all)
  moreover have "rd_pos ?r + (?n + 2 + ?k + 2) = rd_pos r + (?n + ?k + 5)" by simp
  ultimately have "processBulkItem ?r w = finish_item (?r\<lparr>rd_pos := rd_pos r + (?n + ?k + 5)\<rparr>) obj w'"
    by (simp only:)
  then show "processItem r w = finish_item (?r\<lparr>rd_pos := rd_pos r + (?n + ?k + 5)\<rparr>) obj w'"
    using t(1,6,7) by (simp add: process_typed_def)
qed

end

lemma move_reply:
  "moveToNextTask (r\<lparr>rd_reply := x\<rparr>) = bindR (moveToNextTask r) (\<lambda>r. Inr (r\<lparr>rd_reply := x\<rparr>))"
  unfolding moveToNextTask_def
proof (induction r rule: move_loop.induct)
  case (1 r)
  have at: "task_at (r\<lparr>rd_reply := x\<rparr>) = task_at r" by (intro ext) (simp add: task_at_def)
  show ?case
  proof (cases "rd_ridx r \<le> 0")
    case True
    then show ?thesis by (auto simp: move_loop.simps[of r] move_loop.simps[of "r\<lparr>rd_reply := x\<rparr>"])
  next
    case False
    show ?thesis
    proof (cases "task_at r (rd_ridx r)"; cases "task_at r (rd_ridx r - 1)")
      fix cur prv assume c: "task_at r (rd_ridx r) = Inr cur" and p: "task_at r (rd_ridx r - 1) = Inr prv"
      show ?thesis
      proof (cases "task_type prv = REDIS_REPLY_ARRAY")
        case True
        show ?thesis
        proof (cases "task_idx cur = task_elements prv - 1")
          case last: True
          have "move_loop (r\<lparr>rd_ridx := rd_ridx r - 1\<rparr>\<lparr>rd_reply := x\<rparr>) =
              bindR (move_loop (r\<lparr>rd_ridx := rd_ridx r - 1\<rparr>)) (\<lambda>r. Inr (r\<lparr>rd_reply := x\<rparr>))"
            using "1.IH"[of cur prv] c p True last False by simp
          moreover have swap: "r\<lparr>rd_reply := x, rd_ridx := rd_ridx r - 1\<rparr> =
              r\<lparr>rd_ridx := rd_ridx r - 1, rd_reply := x\<rparr>" by simp
          ultimately show ?thesis using c p True last False at
            by (simp add: swap move_loop.simps[of r] move_loop.simps[of "r\<lparr>rd_reply := x\<rparr>"])
        next
          case more: False
          then show ?thesis using c p True False at
            by (simp add: move_loop.simps[of r] move_loop.simps[of "r\<lparr>rd_reply := x\<rparr>"] set_task_def
                assertR_def)
        qed
      next
        case bad: False
        then show ?thesis using c p False at
          by (simp add: move_loop.simps[of r] move_loop.simps[of "r\<lparr>rd_reply := x\<rparr>"])
      qed
    qed (use False at in \<open>simp_all add: move_loop.simps[of r] move_loop.simps[of "r\<lparr>rd_reply := x\<rparr>"]\<close>)
  qed
qed

text \<open>Moving on from an element of an array.\<close>

lemma move_last:
  assumes "stack_ok r" "0 < rd_ridx r"
    "task_idx (cur_task r) = task_elements (rd_rstack r ! (nat (rd_ridx r) - 1)) - 1"
  shows "go_on r w = go_on (r\<lparr>rd_ridx := rd_ridx r - 1\<rparr>) w"
proof -
  have "task_at r (rd_ridx r - 1) = Inr (rd_rstack r ! (nat (rd_ridx r) - 1))"
    using assms(1,2) by (auto simp: task_at_def stack_ok_def nat_diff_distrib)
  moreover have "task_type (rd_rstack r ! (nat (rd_ridx r) - 1)) = REDIS_REPLY_ARRAY"
    using assms(1,2) by (auto simp: stack_ok_def)
  ultimately show ?thesis
    using task_at_cur[OF assms(1)] assms(2,3)
    by (simp add: go_on_def moveToNextTask_def move_loop.simps[of r])
qed

lemma move_more:
  assumes "stack_ok r" "0 < rd_ridx r"
    "task_idx (cur_task r) < task_elements (rd_rstack r ! (nat (rd_ridx r) - 1)) - 1"
  shows "go_on r w = process_loop (r\<lparr>rd_rstack := (rd_rstack r)[nat (rd_ridx r) :=
     (cur_task r)\<lparr>task_type := - 1, task_elements := - 1, task_idx := task_idx (cur_task r) + 1\<rparr>]\<rparr>) w"
proof -
  have "task_at r (rd_ridx r - 1) = Inr (rd_rstack r ! (nat (rd_ridx r) - 1))"
    using assms(1,2) by (auto simp: task_at_def stack_ok_def nat_diff_distrib)
  moreover have "task_type (rd_rstack r ! (nat (rd_ridx r) - 1)) = REDIS_REPLY_ARRAY"
    using assms(1,2) by (auto simp: stack_ok_def)
  ultimately show ?thesis
    using task_at_cur[OF assms(1)] set_task_cur[OF assms(1)] assms(2,3)
    by (simp add: go_on_def moveToNextTask_def move_loop.simps[of r])
qed

text \<open>After an item: the fields of the reader.\<close>

lemma item_done_simps:
  assumes "item_done r n obj r'"
  shows "rd_ridx r' = rd_ridx r" "rd_fn r' = rd_fn r" "rd_pos r' = rd_pos r + n" "rd_len r' = rd_len r"
    "rd_bytes r' = rd_bytes r" "length (rd_rstack r') = length (rd_rstack r)"
    "take (nat (rd_ridx r)) (rd_rstack r') = take (nat (rd_ridx r)) (rd_rstack r)"
    "task_idx (cur_task r') = task_idx (cur_task r)" "task_parent (cur_task r') = task_parent (cur_task r)"
    "rd_privdata r' = rd_privdata r" "rd_err r' = rd_err r"
    "rd_reply r' = (if rd_ridx r = 0 then obj else rd_reply r)"
  using assms by (auto simp: item_done_def rd_bytes_def cur_task_def)

lemma stack_ok_take:
  assumes "stack_ok r" "rd_ridx r' = rd_ridx r" "length (rd_rstack r') = length (rd_rstack r)"
    "take (nat (rd_ridx r)) (rd_rstack r') = take (nat (rd_ridx r)) (rd_rstack r)"
    "task_parent (cur_task r') = task_parent (cur_task r)"
    "rd_ridx r \<noteq> 0 \<Longrightarrow> 0 \<le> task_idx (cur_task r') \<and>
       task_idx (cur_task r') < task_elements (rd_rstack r ! (nat (rd_ridx r) - 1))"
  shows "stack_ok r'"
proof -
  let ?k = "nat (rd_ridx r)"
  have below: "rd_rstack r' ! i = rd_rstack r ! i" if "i < ?k" for i
    using that assms(4) by (metis nth_take)
  have "task_parent (rd_rstack r' ! i) = (if i = 0 then None else Some (i - 1))" if "i \<le> ?k" for i
    using assms(1,2,5) below[of i] that by (cases "i = ?k") (auto simp: stack_ok_def cur_task_def)
  moreover have "task_type (rd_rstack r' ! i) = REDIS_REPLY_ARRAY \<and> 0 \<le> task_idx (rd_rstack r' ! Suc i) \<and>
      task_idx (rd_rstack r' ! Suc i) < task_elements (rd_rstack r' ! i)" if "i < ?k" for i
  proof (cases "Suc i = ?k")
    case True
    then have "rd_ridx r \<noteq> 0" "?k - 1 = i" by auto
    with assms(1,2,6) below[of i] that True show ?thesis by (simp add: stack_ok_def cur_task_def)
  next
    case False
    with assms(1) below[of i] below[of "Suc i"] that show ?thesis by (simp add: stack_ok_def)
  qed
  ultimately show ?thesis using assms(1-3) by (simp add: stack_ok_def)
qed

lemma cur_idx:
  assumes "stack_ok r" "0 < rd_ridx r"
  shows "0 \<le> task_idx (cur_task r)"
    "task_idx (cur_task r) < task_elements (rd_rstack r ! (nat (rd_ridx r) - 1))"
proof -
  obtain j where j: "nat (rd_ridx r) = Suc j" using assms(2) by (cases "nat (rd_ridx r)") auto
  with assms(1) show "0 \<le> task_idx (cur_task r)"
    "task_idx (cur_task r) < task_elements (rd_rstack r ! (nat (rd_ridx r) - 1))"
    by (auto simp: stack_ok_def cur_task_def)
qed

lemma input_after: "rd_len r' = rd_len r \<Longrightarrow> rd_bytes r' = rd_bytes r \<Longrightarrow> rd_pos r' = rd_pos r + n \<Longrightarrow>
    rd_input r' = drop n (rd_input r)"
  by (simp add: rd_input_def drop_take add.commute)

lemma buf_ok_after: "buf_ok r \<Longrightarrow> rd_len r' = rd_len r \<Longrightarrow> rd_bytes r' = rd_bytes r \<Longrightarrow>
    rd_pos r' = rd_pos r + n \<Longrightarrow> n \<le> length (rd_input r) \<Longrightarrow> buf_ok r'"
  by (auto simp: length_input) (auto simp: buf_ok_def)

context reply_builder
begin

definition placed :: "'w \<Rightarrow> place \<Rightarrow> bool" where
  "placed w pl \<longleftrightarrow> (case pl of None \<Rightarrow> True | Some (obj, i) \<Rightarrow> slot w obj i)"

definition grows :: "'w \<Rightarrow> 'w \<Rightarrow> bool" where
  "grows w w' \<longleftrightarrow> (\<forall>q i. slot w q i \<longrightarrow> slot w' q i)"

text \<open>The parser, at a fresh task in front of \<open>ser v\<close>, does what \<open>build\<close> does.\<close>

definition parses :: "resp \<Rightarrow> bool" where
  "parses v \<longleftrightarrow> (\<forall>r rest w. ready fns r (ser v @ rest) \<longrightarrow> resp_ok (nat (8 - rd_ridx r)) v \<longrightarrow> good w \<longrightarrow>
     placed w (place_of r) \<longrightarrow>
     (\<exists>obj w' r'. build fns (place_of r) v w = Inr (obj, w') \<and> obj \<noteq> 0 \<and> good w' \<and> grows w w' \<and>
        item_done r (length (ser v)) obj r' \<and> process_loop r w = go_on r' w'))"

lemma parsesD:
  assumes "parses v" "ready fns r (ser v @ rest)" "resp_ok (nat (8 - rd_ridx r)) v" "good w"
    "placed w (place_of r)"
  obtains obj w' r' where "build fns (place_of r) v w = Inr (obj, w')" "obj \<noteq> 0" "good w'" "grows w w'"
    "item_done r (length (ser v)) obj r'" "process_loop r w = go_on r' w'"
  using assms unfolding parses_def by blast

lemma view_placed:
  assumes "placed w pl"
  shows "\<And>q. view_parent pl = Some q \<Longrightarrow> 0 \<le> task_idx (view_task type pl) \<and>
    slot w (task_obj q) (nat (task_idx (view_task type pl)))"
  using assms by (auto simp: view_parent_def view_task_def placed_def split: option.splits)

lemma advanced_done: "stack_ok r \<Longrightarrow> item_done r n obj (advanced r type n obj)"
  unfolding advanced_def by (rule typed_done)

lemma view_type [simp]: "task_type (view_task type pl) = type"
  by (simp add: view_task_def)

lemma create_ok:
  assumes "good w" "placed w pl"
  shows "type \<in> {REDIS_REPLY_STRING, REDIS_REPLY_STATUS, REDIS_REPLY_ERROR} \<Longrightarrow>
      \<exists>obj w'. cs (view_task type pl) (view_parent pl) s w = Inr (obj, w') \<and> obj \<noteq> 0 \<and> good w' \<and> grows w w'"
    "0 \<le> n \<Longrightarrow> n < 2 ^ 31 \<Longrightarrow>
      \<exists>obj w'. ca (view_task type pl) (view_parent pl) n w = Inr (obj, w') \<and> obj \<noteq> 0 \<and> good w' \<and>
        grows w w' \<and> (\<forall>i < nat n. slot w' obj i)"
    "\<exists>obj w'. ci (view_task type pl) (view_parent pl) n w = Inr (obj, w') \<and> obj \<noteq> 0 \<and> good w' \<and> grows w w'"
    "\<exists>obj w'. cn (view_task type pl) (view_parent pl) w = Inr (obj, w') \<and> obj \<noteq> 0 \<and> good w' \<and> grows w w'"
  unfolding grows_def
  using string_ok[OF assms(1) _ view_placed[OF assms(2)]] array_ok[OF assms(1) _ _ view_placed[OF assms(2)]]
    integer_ok[OF assms(1) view_placed[OF assms(2)]] nil_ok[OF assms(1) view_placed[OF assms(2)]]
  by (simp_all only: view_type)

lemma parsesI:
  assumes "\<And>r rest w. ready fns r (ser v @ rest) \<Longrightarrow> resp_ok (nat (8 - rd_ridx r)) v \<Longrightarrow> good w \<Longrightarrow>
     placed w (place_of r) \<Longrightarrow>
     \<exists>obj w' r'. build fns (place_of r) v w = Inr (obj, w') \<and> obj \<noteq> 0 \<and> good w' \<and> grows w w' \<and>
        item_done r (length (ser v)) obj r' \<and> process_loop r w = go_on r' w'"
  shows "parses v"
  using assms unfolding parses_def by blast

lemma parses_leaf:
  assumes "\<And>r rest w. ready fns r (ser v @ rest) \<Longrightarrow> resp_ok (nat (8 - rd_ridx r)) v \<Longrightarrow> good w \<Longrightarrow>
     placed w (place_of r) \<Longrightarrow>
     \<exists>obj w'. build fns (place_of r) v w = Inr (obj, w') \<and> obj \<noteq> 0 \<and> good w' \<and> grows w w' \<and>
        process_loop r w = go_on (advanced r type (length (ser v)) obj) w'"
  shows "parses v"
proof (rule parsesI)
  fix r rest w
  assume a: "ready fns r (ser v @ rest)" "resp_ok (nat (8 - rd_ridx r)) v" "good w" "placed w (place_of r)"
  have "stack_ok r" using a(1) by (simp add: ready_def)
  from assms[OF a] advanced_done[OF this]
  show "\<exists>obj w' r'. build fns (place_of r) v w = Inr (obj, w') \<and> obj \<noteq> 0 \<and> good w' \<and> grows w w' \<and>
        item_done r (length (ser v)) obj r' \<and> process_loop r w = go_on r' w'" by blast
qed

lemma parses_text:
  assumes "v = RStatus s \<and> type = REDIS_REPLY_STATUS \<or> v = RError s \<and> type = REDIS_REPLY_ERROR"
  shows "parses v"
proof (rule parses_leaf[where type = type])
  fix r rest w
  assume a: "ready fns r (ser v @ rest)" "resp_ok (nat (8 - rd_ridx r)) v" "good w" "placed w (place_of r)"
  from create_ok(1)[OF a(3,4), of type s] assms obtain obj w' where
    o: "cs (view_task type (place_of r)) (view_parent (place_of r)) s w = Inr (obj, w')"
      "obj \<noteq> 0" "good w'" "grows w w'" by auto
  define c where "c = (if type = REDIS_REPLY_STATUS then CHR ''+'' else CHR ''-'')"
  have "reply_type c = Some type" "ready fns r (c # s @ crlf @ rest)" "CHR 0x0D \<notin> set s"
    using assms a(1,2) by (auto simp: c_def reply_type_def)
  from text_item[OF this(2,1) _ this(3) o(1,2)] assms o fns(1)
  show "\<exists>obj w'. build fns (place_of r) v w = Inr (obj, w') \<and> obj \<noteq> 0 \<and> good w' \<and> grows w w' \<and>
        process_loop r w = go_on (advanced r type (length (ser v)) obj) w'"
    by (auto simp: numeral_eq_Suc)
qed

lemma parses_string: "parses (RString s)"
proof (rule parses_leaf[where type = REDIS_REPLY_STRING])
  fix r rest w
  assume a: "ready fns r (ser (RString s) @ rest)" "resp_ok (nat (8 - rd_ridx r)) (RString s)" "good w"
    "placed w (place_of r)"
  from create_ok(1)[OF a(3,4), of REDIS_REPLY_STRING s] obtain obj w' where
    o: "cs (view_task REDIS_REPLY_STRING (place_of r)) (view_parent (place_of r)) s w = Inr (obj, w')"
      "obj \<noteq> 0" "good w'" "grows w w'" by auto
  from a(1,2) have "ready fns r (CHR ''$'' # sdsll2str (int (length s)) @ crlf @ s @ crlf @ rest)"
    "length s < 2 ^ 31" by simp_all
  from string_item[OF this o(1,2)] o fns(1)
  show "\<exists>obj w'. build fns (place_of r) (RString s) w = Inr (obj, w') \<and> obj \<noteq> 0 \<and> good w' \<and> grows w w' \<and>
        process_loop r w = go_on (advanced r REDIS_REPLY_STRING (length (ser (RString s))) obj) w'"
    by (auto simp: numeral_eq_Suc)
qed

lemma parses_integer: "parses (RInteger i)"
proof (rule parses_leaf[where type = REDIS_REPLY_INTEGER])
  fix r rest w
  assume a: "ready fns r (ser (RInteger i) @ rest)" "resp_ok (nat (8 - rd_ridx r)) (RInteger i)" "good w"
    "placed w (place_of r)"
  from create_ok(3)[OF a(3,4), of REDIS_REPLY_INTEGER i] obtain obj w' where
    o: "ci (view_task REDIS_REPLY_INTEGER (place_of r)) (view_parent (place_of r)) i w = Inr (obj, w')"
      "obj \<noteq> 0" "good w'" "grows w w'" by auto
  from a(1,2) have "ready fns r (CHR '':'' # sdsll2str i @ crlf @ rest)"
    "- (2 ^ 63) \<le> i" "i < 2 ^ 63" by simp_all
  from integer_item[OF this o(1,2)] o fns(3)
  show "\<exists>obj w'. build fns (place_of r) (RInteger i) w = Inr (obj, w') \<and> obj \<noteq> 0 \<and> good w' \<and> grows w w' \<and>
        process_loop r w = go_on (advanced r REDIS_REPLY_INTEGER (length (ser (RInteger i))) obj) w'"
    by (auto simp: numeral_eq_Suc)
qed

lemma parses_nil: "parses RNil"
proof (rule parses_leaf[where type = REDIS_REPLY_STRING])
  fix r rest w
  assume a: "ready fns r (ser RNil @ rest)" "good w" "placed w (place_of r)"
  from create_ok(4)[OF a(2,3), of REDIS_REPLY_STRING] obtain obj w' where
    o: "cn (view_task REDIS_REPLY_STRING (place_of r)) (view_parent (place_of r)) w = Inr (obj, w')"
      "obj \<noteq> 0" "good w'" "grows w w'" by auto
  from a(1) have "ready fns r (CHR ''$'' # sdsll2str (- 1) @ crlf @ rest)" by simp
  from nil_item[OF this o(1,2)] o fns(4)
  show "\<exists>obj w'. build fns (place_of r) RNil w = Inr (obj, w') \<and> obj \<noteq> 0 \<and> good w' \<and> grows w w' \<and>
        process_loop r w = go_on (advanced r REDIS_REPLY_STRING (length (ser RNil)) obj) w'"
    by (auto simp: numeral_eq_Suc)
qed

lemma elems_parse:
  assumes "\<And>u. u \<in> set us \<Longrightarrow> parses u" "us \<noteq> []" "ready fns e (concat (map ser us) @ rest)"
    "0 < rd_ridx e" "place_of e = Some (obj, i)"
    "task_elements (rd_rstack e ! (nat (rd_ridx e) - 1)) = int (i + length us)"
    "list_all (resp_ok (nat (8 - rd_ridx e))) us" "good w" "\<forall>j < i + length us. slot w obj j"
  shows "\<exists>w' st. build_elems fns obj i us w = Inr w' \<and> good w' \<and> grows w w' \<and>
    length st = length (rd_rstack e) \<and> take (nat (rd_ridx e)) st = take (nat (rd_ridx e)) (rd_rstack e) \<and>
    process_loop e w = go_on (e\<lparr>rd_pos := rd_pos e + length (concat (map ser us)), rd_rstack := st,
      rd_ridx := rd_ridx e - 1\<rparr>) w'"
  using assms
proof (induction us arbitrary: e i w)
  case (Cons u us)
  let ?k = "nat (rd_ridx e)" and ?n = "length (ser u)"
  have e: "buf_ok e" "stack_ok e" "rd_fn e = Some fns" "rd_input e = ser u @ concat (map ser us) @ rest"
    using Cons.prems(3) by (simp_all add: ready_def)
  have idx: "task_idx (cur_task e) = int i"
    using Cons.prems(4,5) cur_idx(1)[OF e(2)] by (auto simp: place_of_def)
  have pl: "placed w (place_of e)" using Cons.prems(5,9) by (simp add: placed_def)
  have ok: "resp_ok (nat (8 - rd_ridx e)) u" using Cons.prems(7) by simp
  have "ready fns e (ser u @ concat (map ser us) @ rest)" using Cons.prems(3) by simp
  then obtain o1 w1 e1 where v: "build fns (Some (obj, i)) u w = Inr (o1, w1)" "good w1" "grows w w1"
    "item_done e ?n o1 e1" "process_loop e w = go_on e1 w1"
    using parsesD[OF Cons.prems(1)[of u] _ ok Cons.prems(8) pl] Cons.prems(5) by (metis list.set_intros(1))
  note d = item_done_simps[OF v(4)]
  have cur1: "task_idx (cur_task e1) = int i" using d(8) idx by simp
  have below: "rd_rstack e1 ! (?k - 1) = rd_rstack e ! (?k - 1)"
    using Cons.prems(4) arg_cong[OF d(7), of "\<lambda>xs. xs ! (?k - 1)"] by simp
  have st1: "stack_ok e1"
    using stack_ok_take[OF e(2) d(1,6,7,9)] Cons.prems(4,6) cur1 by simp
  show ?case
  proof (cases us)
    case Nil
    then have "task_idx (cur_task e1) = task_elements (rd_rstack e1 ! (nat (rd_ridx e1) - 1)) - 1"
      using Cons.prems(6) cur1 below d(1) by simp
    with move_last[OF st1] Cons.prems(4) d(1) have "go_on e1 w1 = go_on (e1\<lparr>rd_ridx := rd_ridx e1 - 1\<rparr>) w1"
      by simp
    moreover obtain st where st: "e1 = e\<lparr>rd_pos := rd_pos e + ?n, rd_rstack := st, rd_reply := rd_reply e\<rparr>"
      using v(4) Cons.prems(4) by (auto simp: item_done_def)
    then have "e1\<lparr>rd_ridx := rd_ridx e1 - 1\<rparr> =
        e\<lparr>rd_pos := rd_pos e + ?n, rd_rstack := rd_rstack e1, rd_ridx := rd_ridx e - 1\<rparr>" by simp
    ultimately show ?thesis using v d(6,7) Nil by (intro exI[of _ w1] exI[of _ "rd_rstack e1"]) simp
  next
    case (Cons u' us')
    let ?t = "(cur_task e1)\<lparr>task_type := - 1, task_elements := - 1, task_idx := task_idx (cur_task e1) + 1\<rparr>"
    let ?e2 = "e1\<lparr>rd_rstack := (rd_rstack e1)[?k := ?t]\<rparr>"
    have "task_idx (cur_task e1) < task_elements (rd_rstack e1 ! (nat (rd_ridx e1) - 1)) - 1"
      using Cons.prems(6) cur1 below d(1) \<open>us = u' # us'\<close> by simp
    with move_more[OF st1] Cons.prems(4) d(1) have go: "go_on e1 w1 = process_loop ?e2 w1" by simp
    have cur2: "cur_task ?e2 = ?t" using stack_bound[OF st1] d(1) by (simp add: cur_task_def)
    have below2: "rd_rstack ?e2 ! (?k - 1) = rd_rstack e ! (?k - 1)"
      using below Cons.prems(4) by (simp add: nth_list_update)
    have st2: "stack_ok ?e2"
    proof (rule stack_ok_take[OF st1])
      show "task_parent (cur_task ?e2) = task_parent (cur_task e1)" using cur2 by simp
      show "0 \<le> task_idx (cur_task ?e2) \<and>
          task_idx (cur_task ?e2) < task_elements (rd_rstack e1 ! (nat (rd_ridx e1) - 1))"
        using cur1 cur2 below d(1) Cons.prems(6) \<open>us = u' # us'\<close> by simp
    qed (simp_all add: d(1))
    have len: "?n \<le> length (rd_input e)" using e(4) by simp
    have "ready fns ?e2 (concat (map ser us) @ rest)"
      using st2 cur2 d e(3) Cons.prems(4) buf_ok_after[OF e(1) d(4,5,3) len] input_after[OF d(4,5,3)] e(4)
      by (simp add: ready_def buf_ok_def rd_bytes_def rd_input_def)
    moreover have "place_of ?e2 = Some (obj, i + 1)"
      using Cons.prems(4,5) cur1 cur2 below2 d(1) by (auto simp: place_of_def nat_add_distrib)
    moreover have "task_elements (rd_rstack ?e2 ! (nat (rd_ridx ?e2) - 1)) = int (i + 1 + length us)"
      using below2 d(1) Cons.prems(6) by simp
    moreover have "\<forall>j < i + 1 + length us. slot w1 obj j" using Cons.prems(9) v(3) by (simp add: grows_def)
    ultimately obtain w' st where r: "build_elems fns obj (i + 1) us w1 = Inr w'" "good w'" "grows w1 w'"
      "length st = length (rd_rstack ?e2)" "take ?k st = take ?k (rd_rstack ?e2)"
      "process_loop ?e2 w1 = go_on (?e2\<lparr>rd_pos := rd_pos ?e2 + length (concat (map ser us)),
         rd_rstack := st, rd_ridx := rd_ridx ?e2 - 1\<rparr>) w'"
      using Cons.IH[of ?e2 "i + 1" w1] Cons.prems(1,4,7) v(2) d(1) \<open>us = u' # us'\<close> by auto
    obtain st' where st': "e1 = e\<lparr>rd_pos := rd_pos e + ?n, rd_rstack := st', rd_reply := rd_reply e\<rparr>"
      using v(4) Cons.prems(4) by (auto simp: item_done_def)
    then have "?e2\<lparr>rd_pos := rd_pos ?e2 + length (concat (map ser us)), rd_rstack := st, rd_ridx := rd_ridx ?e2 - 1\<rparr> =
        e\<lparr>rd_pos := rd_pos e + length (concat (map ser (u # us))), rd_rstack := st, rd_ridx := rd_ridx e - 1\<rparr>"
      by simp
    moreover have "grows w w'" using v(3) r(3) by (simp add: grows_def)
    ultimately show ?thesis using v(1,5) go r d(6,7)
      by (intro exI[of _ w'] exI[of _ st]) simp
  qed
qed simp

text \<open>The header of an array: the reader at the first element, or behind an empty array.\<close>

definition entered :: "'w redisReader \<Rightarrow> nat \<Rightarrow> int \<Rightarrow> nat \<Rightarrow> 'w redisReader" where
  "entered r n elements obj = r\<lparr>rd_pos := rd_pos r + n, rd_ridx := rd_ridx r + 1,
     rd_rstack := (rd_rstack r)[nat (rd_ridx r) := (cur_task r)
         \<lparr>task_type := REDIS_REPLY_ARRAY, task_elements := elements, task_obj := obj\<rparr>,
       Suc (nat (rd_ridx r)) := child_task r (rd_ridx r)],
     rd_reply := if rd_ridx r = 0 then obj else rd_reply r\<rparr>"

lemma array_header:
  assumes "ready fns r (CHR ''*'' # sdsll2str (int k) @ crlf @ inp)" "rd_ridx r < 8" "k < 2 ^ 31"
    "ca (view_task REDIS_REPLY_ARRAY (place_of r)) (view_parent (place_of r)) (int k) w = Inr (obj, w')" "obj \<noteq> 0"
  shows "k = 0 \<Longrightarrow> process_loop r w = go_on (advanced r REDIS_REPLY_ARRAY (length (sdsll2str (int k)) + 3) obj) w'"
    "0 < k \<Longrightarrow> process_loop r w = process_loop (entered r (length (sdsll2str (int k)) + 3) (int k) obj) w'"
proof -
  let ?d = "sdsll2str (int k)"
  let ?n = "length ?d"
  have type: "reply_type CHR ''*'' = Some REDIS_REPLY_ARRAY" by (simp add: reply_type_def)
  note t = ready_typed[OF assms(1) type]
  have range: "- (2 ^ 63) \<le> int k" "int k < 2 ^ 63" using assms(3) by simp_all
  note nocr = sdsll2str_no_cr[OF range]
  note l = line_read[OF t(2,4) nocr]
  have r: "stack_ok r" "0 \<le> rd_ridx r" using assms(1) by (simp_all add: ready_def stack_ok_def)
  let ?r = "typed r REDIS_REPLY_ARRAY"
  let ?c = "?r\<lparr>rd_pos := rd_pos r + (?n + 3)\<rparr>"
  have c: "consume (?n + 2) ?r = ?c" by (simp add: typed_consume numeral_eq_Suc)
  have cur: "cur_task ?r = (cur_task r)\<lparr>task_type := REDIS_REPLY_ARRAY\<rparr>" by (rule typed_cur[OF r(1)])
  have multi: "processMultiBulkItem ?r w =
    bindR (if int k > 0 then
             bindR (set_task ?c (rd_ridx ?r) ((cur_task ?r)\<lparr>task_elements := int k, task_obj := obj\<rparr>)) (\<lambda>r''.
             set_task (r''\<lparr>rd_ridx := rd_ridx ?r + 1\<rparr>) (rd_ridx ?r + 1) (child_task ?c (rd_ridx ?r)))
           else moveToNextTask ?c)
      (\<lambda>r''. Inr (REDIS_OK, if rd_ridx ?r = 0 then r''\<lparr>rd_reply := obj\<rparr> else r'', w'))"
  proof (rule multi_array)
    show "task_at ?r (rd_ridx ?r) = Inr (cur_task ?r)" using t(6) by simp
    show "rd_ridx ?r \<noteq> 8" using assms(2) by simp
    show "readLine ?r = Inr (Some (rd_pos ?r, ?n), ?c)" using l(1) c by simp
    show "mem_read (rd_bytes ?c) (rd_pos ?r) ?n = Inr ?d" using l(2) by (simp only: rd_bytes_pos)
    show "string2ll ?d = Some (int k)" by (rule string2ll_sdsll2str[OF range])
    show "rd_fn ?c = Some fns" using t(5) by simp
    show "createArray fns = Some ca" by (rule fns(2))
    show "ca (cur_task ?r) (parent_of ?c (cur_task ?r)) (int k) w = Inr (obj, w')"
      using view(2)[OF t(8)] assms(4) by simp
  qed (use assms(3,5) in simp_all)
  have item: "processItem r w = processMultiBulkItem ?r w" using t(1,6,7) by (simp add: process_typed_def)
  show "process_loop r w = go_on (advanced r REDIS_REPLY_ARRAY (?n + 3) obj) w'" if "k = 0"
  proof -
    have "advanced r REDIS_REPLY_ARRAY (?n + 3) obj = (if rd_ridx r = 0 then ?c\<lparr>rd_reply := obj\<rparr> else ?c)"
      by (simp add: advanced_def)
    then show ?thesis using multi item that r(2)
      by (subst process_loop.simps) (simp add: go_on_def move_reply bindR_def split: sum.splits)
  qed
  show "process_loop r w = process_loop (entered r (?n + 3) (int k) obj) w'" if "0 < k"
  proof -
    let ?k = "nat (rd_ridx r)"
    have len: "length (rd_rstack r) = 9" "?k < 9" "nat (rd_ridx r + 1) = Suc ?k" "Suc ?k < 9"
      using r assms(2) by (auto simp: stack_ok_def)
    have "processMultiBulkItem ?r w = Inr (REDIS_OK, entered r (?n + 3) (int k) obj, w')"
      using multi[unfolded cur] that len r(2)
      by (simp add: set_task_def entered_def child_task_def typed_def consume_def)
    then show ?thesis using item r(2) by (subst process_loop.simps) simp
  qed
qed

lemma entered_ready:
  fixes obj :: nat
  assumes "ready fns r (CHR ''*'' # sdsll2str (int k) @ crlf @ inp)" "rd_ridx r < 8" "0 < k"
  defines "e \<equiv> entered r (length (sdsll2str (int k)) + 3) (int k) obj"
  shows "ready fns e inp" "place_of e = Some (obj, 0)"
    "task_elements (rd_rstack e ! (nat (rd_ridx e) - 1)) = int k" "rd_ridx e = rd_ridx r + 1"
    "length (rd_rstack e) = length (rd_rstack r)" "rd_pos e = rd_pos r + (length (sdsll2str (int k)) + 3)"
    "take (nat (rd_ridx r)) (rd_rstack e) = take (nat (rd_ridx r)) (rd_rstack r)"
    "rd_rstack e ! nat (rd_ridx r) =
       (cur_task r)\<lparr>task_type := REDIS_REPLY_ARRAY, task_elements := int k, task_obj := obj\<rparr>"
proof -
  let ?k = "nat (rd_ridx r)" and ?n = "length (sdsll2str (int k)) + 3"
  from assms(1) have r: "buf_ok r" "stack_ok r" "rd_fn r = Some fns"
    "rd_input r = CHR ''*'' # sdsll2str (int k) @ crlf @ inp" by (simp_all add: ready_def)
  have len: "length (rd_rstack r) = 9" "?k < 9" "nat (rd_ridx r + 1) = Suc ?k" "Suc ?k < 9" "0 \<le> rd_ridx r"
    using r(2) assms(2) by (auto simp: stack_ok_def)
  show ridx: "rd_ridx e = rd_ridx r + 1" and "length (rd_rstack e) = length (rd_rstack r)"
    "rd_pos e = rd_pos r + ?n"
    "take ?k (rd_rstack e) = take ?k (rd_rstack r)"
    by (simp_all add: e_def entered_def)
  show elem: "rd_rstack e ! ?k =
      (cur_task r)\<lparr>task_type := REDIS_REPLY_ARRAY, task_elements := int k, task_obj := obj\<rparr>"
    using len by (simp add: e_def entered_def nth_list_update)
  have cur: "cur_task e = child_task r (rd_ridx r)"
    using len by (simp add: e_def entered_def cur_task_def)
  have below: "rd_rstack e ! i = rd_rstack r ! i" if "i < ?k" for i
    using that by (simp add: e_def entered_def)
  have parents: "task_parent (rd_rstack e ! i) = (if i = 0 then None else Some (i - 1))" if le: "i \<le> Suc ?k" for i
  proof -
    consider "i < ?k" | "i = ?k" | "i = Suc ?k" using le by arith
    then show ?thesis
      using r(2) below elem cur ridx len
      by cases (auto simp: stack_ok_def cur_task_def child_task_def)
  qed
  have links: "task_type (rd_rstack e ! i) = REDIS_REPLY_ARRAY \<and> 0 \<le> task_idx (rd_rstack e ! Suc i) \<and>
      task_idx (rd_rstack e ! Suc i) < task_elements (rd_rstack e ! i)" if le: "i < Suc ?k" for i
  proof -
    consider "Suc i < ?k" | "Suc i = ?k" | "i = ?k" using le by arith
    then show ?thesis
    proof cases
      case 2
      then have "0 < rd_ridx r" "?k - 1 = i" "i < ?k" by auto
      then show ?thesis
        using cur_idx[OF r(2)] r(2) below[of i] elem 2 by (auto simp: stack_ok_def)
    next
      case 3
      then show ?thesis using elem cur ridx len assms(3) by (simp add: cur_task_def child_task_def)
    qed (use r(2) below in \<open>auto simp: stack_ok_def\<close>)
  qed
  have st: "stack_ok e"
    using parents links ridx len assms(2) by (simp add: stack_ok_def) (simp add: e_def entered_def)
  have fields: "rd_len e = rd_len r" "rd_bytes e = rd_bytes r" "rd_pos e = rd_pos r + ?n" "rd_fn e = rd_fn r"
    by (simp_all add: e_def entered_def rd_bytes_def)
  have "buf_ok e" by (rule buf_ok_after[OF r(1) fields(1-3)]) (simp add: r(4))
  moreover have "rd_input e = inp" using input_after[OF fields(1-3)] r(4) by (simp add: numeral_eq_Suc)
  ultimately show "ready fns e inp"
    using st cur fields(4) r(3) ridx len(5) by (simp add: ready_def child_task_def)
  show "place_of e = Some (obj, 0)" using ridx elem cur len by (simp add: place_of_def child_task_def)
  show "task_elements (rd_rstack e ! (nat (rd_ridx e) - 1)) = int k" using ridx elem len by simp
qed

lemma parses_array:
  assumes "\<And>v. v \<in> set vs \<Longrightarrow> parses v"
  shows "parses (RArray vs)"
proof (rule parsesI)
  fix r rest w
  assume a: "ready fns r (ser (RArray vs) @ rest)" "resp_ok (nat (8 - rd_ridx r)) (RArray vs)" "good w"
    "placed w (place_of r)"
  let ?k = "length vs" and ?inp = "concat (map ser vs) @ rest"
  let ?n = "length (sdsll2str (int ?k)) + 3"
  have r: "stack_ok r" "0 \<le> rd_ridx r" using a(1) by (simp_all add: ready_def stack_ok_def)
  have head: "ready fns r (CHR ''*'' # sdsll2str (int ?k) @ crlf @ ?inp)" using a(1) by simp
  have small: "rd_ridx r < 8" "?k < 2 ^ 31" using a(2) by auto
  obtain obj w1 where o: "ca (view_task REDIS_REPLY_ARRAY (place_of r)) (view_parent (place_of r)) (int ?k) w = Inr (obj, w1)"
    "obj \<noteq> 0" "good w1" "grows w w1" "\<forall>i < ?k. slot w1 obj i"
    using create_ok(2)[OF a(3,4), of "int ?k" REDIS_REPLY_ARRAY] small(2) by auto
  note header = array_header[OF head small o(1,2)]
  show "\<exists>obj w' r'. build fns (place_of r) (RArray vs) w = Inr (obj, w') \<and> obj \<noteq> 0 \<and> good w' \<and>
      grows w w' \<and> item_done r (length (ser (RArray vs))) obj r' \<and> process_loop r w = go_on r' w'"
  proof (cases "vs = []")
    case True
    then have "item_done r (length (ser (RArray vs))) obj (advanced r REDIS_REPLY_ARRAY ?n obj)"
      using advanced_done[OF r(1), of ?n obj REDIS_REPLY_ARRAY] by (simp add: numeral_eq_Suc)
    moreover have "build fns (place_of r) (RArray vs) w = Inr (obj, w1)" using True o(1) fns(2) by simp
    ultimately show ?thesis using header(1) True o(2-4) by auto
  next
    case False
    then have pos: "0 < ?k" by simp
    let ?e = "entered r ?n (int ?k) obj"
    note e = entered_ready[OF head small(1) pos, of obj]
    have "nat (8 - rd_ridx ?e) = nat (8 - rd_ridx r) - 1" using e(4) r(2) by simp
    then have ok: "list_all (resp_ok (nat (8 - rd_ridx ?e))) vs" using a(2) by simp
    have inner: "0 < rd_ridx ?e" using e(4) r(2) by simp
    have slots: "\<forall>j < 0 + ?k. slot w1 obj j" using o(5) by simp
    have elements: "task_elements (rd_rstack ?e ! (nat (rd_ridx ?e) - 1)) = int (0 + ?k)" using e(3) by simp
    obtain w' st where el: "build_elems fns obj 0 vs w1 = Inr w'" "good w'" "grows w1 w'"
      "length st = length (rd_rstack ?e)" "take (nat (rd_ridx ?e)) st = take (nat (rd_ridx ?e)) (rd_rstack ?e)"
      "process_loop ?e w1 = go_on (?e\<lparr>rd_pos := rd_pos ?e + length (concat (map ser vs)),
         rd_rstack := st, rd_ridx := rd_ridx ?e - 1\<rparr>) w'"
      using elems_parse[OF assms False e(1) inner e(2) elements ok o(3) slots] by blast
    let ?r = "r\<lparr>rd_pos := rd_pos r + length (ser (RArray vs)), rd_rstack := st,
      rd_reply := if rd_ridx r = 0 then obj else rd_reply r\<rparr>"
    have k: "nat (rd_ridx ?e) = Suc (nat (rd_ridx r))" using e(4) r(2) by simp
    have "st ! nat (rd_ridx r) = rd_rstack ?e ! nat (rd_ridx r)"
      using arg_cong[OF el(5), of "\<lambda>xs. xs ! nat (rd_ridx r)"] k by simp
    moreover have "take (nat (rd_ridx r)) st = take (nat (rd_ridx r)) (rd_rstack ?e)"
      using arg_cong[OF el(5), of "take (nat (rd_ridx r))"] k by (simp add: min_def)
    ultimately have "item_done r (length (ser (RArray vs))) obj ?r"
      using el(4) e(5,7,8) by (intro item_doneI) simp_all
    moreover have "?e\<lparr>rd_pos := rd_pos ?e + length (concat (map ser vs)), rd_rstack := st,
        rd_ridx := rd_ridx ?e - 1\<rparr> = ?r"
      by (simp add: entered_def numeral_eq_Suc)
    moreover have "grows w w'" using o(4) el(3) by (simp add: grows_def)
    moreover have "build fns (place_of r) (RArray vs) w = Inr (obj, w')" using o(1) el(1) fns(2) by simp
    ultimately show ?thesis using header(2)[OF pos] el(2,6) o(2) by (intro exI[of _ obj] exI[of _ w'] exI[of _ ?r]) simp
  qed
qed

lemma parses_all: "parses v"
proof (induction v)
  case (RStatus s)
  show ?case by (rule parses_text[of _ s REDIS_REPLY_STATUS]) simp
next
  case (RError s)
  show ?case by (rule parses_text[of _ s REDIS_REPLY_ERROR]) simp
qed (auto intro: parses_string parses_integer parses_nil parses_array)

end

section \<open>Getting a reply\<close>

text \<open>A reader between two replies.\<close>

definition idle :: "'w redisReader \<Rightarrow> bool" where
  "idle r \<longleftrightarrow> rd_err r = 0 \<and> rd_ridx r = - 1 \<and> rd_reply r = 0 \<and> length (rd_rstack r) = 9 \<and>
     (\<exists>s. rd_buf r = Some s \<and> wf_sds s \<and> rd_len r = sdslen s \<and> rd_pos r \<le> rd_len r \<and> rd_len r < 2 ^ 31)"

lemma idle_buf_ok: "idle r \<Longrightarrow> buf_ok r"
  by (auto simp: idle_def buf_ok_def rd_bytes_def wf_sds_def sdslen_def)

lemma slice_tail: "pos \<le> length xs \<Longrightarrow> slice xs (int pos) (- 1) = drop pos xs"
  by (auto simp: slice_def slice_index_def Let_def)

text \<open>Dropping the consumed front of the buffer keeps the unread input.\<close>

lemma discard_ok:
  assumes "rd_buf r = Some s" "wf_sds s" "rd_len r = sdslen s" "rd_pos r \<le> rd_len r" "rd_len r < 2 ^ 31"
  obtains s' p where "discard r = Inr (r\<lparr>rd_buf := Some s', rd_pos := p, rd_len := sdslen s'\<rparr>)"
    "wf_sds s'" "p \<le> sdslen s'" "sdslen s' < 2 ^ 31"
    "rd_input (r\<lparr>rd_buf := Some s', rd_pos := p, rd_len := sdslen s'\<rparr>) = rd_input r" "sdslen s' \<le> rd_len r"
proof (cases "1024 \<le> rd_pos r")
  case False
  then have "discard r = Inr (r\<lparr>rd_buf := Some s, rd_pos := rd_pos r, rd_len := sdslen s\<rparr>)"
    using assms(1,3) by (simp add: discard_def)
  moreover have eq: "r\<lparr>rd_buf := Some s, rd_len := sdslen s\<rparr> = r" using assms(1,3) by (cases r) simp
  ultimately show ?thesis using that[of s "rd_pos r"] assms by (simp add: eq)
next
  case True
  have pos: "to_int (int (rd_pos r)) = int (rd_pos r)" using assms(4,5) by simp
  have "succeeds (sdsrange s (int (rd_pos r)) (- 1))
      (\<lambda>s'. wf_sds s' \<and> sds_str s' = slice (sds_str s) (int (rd_pos r)) (- 1))"
    using assms by (intro sdsrange_str) auto
  then obtain s' where s': "sdsrange s (int (rd_pos r)) (- 1) = Inr s'" "wf_sds s'"
    "sds_str s' = drop (rd_pos r) (sds_str s)"
    using slice_tail[of "rd_pos r" "sds_str s"] length_sds_str[OF assms(2)] assms(3,4)
    by (auto simp: succeeds_iff)
  have "discard r = Inr (r\<lparr>rd_buf := Some s', rd_pos := 0, rd_len := sdslen s'\<rparr>)"
    using True pos s'(1) assms(1) by (simp add: discard_def rd_sds_def)
  moreover have "sdslen s' = rd_len r - rd_pos r"
    using length_sds_str[OF s'(2)] length_sds_str[OF assms(2)] s'(3) assms(3) by simp
  moreover have "rd_input (r\<lparr>rd_buf := Some s', rd_pos := 0, rd_len := sdslen s'\<rparr>) = sds_str s'"
    by (simp add: rd_input_def rd_bytes_def sds_str_def sdslen_def)
  moreover have "rd_input r = sds_str s'"
    using assms(1,3) s'(3) by (simp add: rd_input_def rd_bytes_def sds_str_def sdslen_def drop_take)
  ultimately show ?thesis using that[of s' 0] s'(2) assms(4,5) by simp
qed

lemma ser_not_Nil: "ser v \<noteq> []"
  by (cases v) simp_all

context reply_builder
begin

theorem get_reply:
  assumes "idle r" "rd_fn r = Some fns" "good w" "rd_input r = ser v @ rest" "resp_ok 8 v"
  shows "\<exists>obj w' r'. build fns None v w = Inr (obj, w') \<and> good w' \<and>
    redisReaderGetReply r w = Inr (REDIS_OK, obj, r', w') \<and> idle r' \<and> rd_input r' = rest \<and>
    rd_fn r' = Some fns"
proof -
  let ?r = "r\<lparr>rd_rstack := (rd_rstack r)[0 := root_task r], rd_ridx := 0\<rparr>"
  from assms(1) obtain s where r: "rd_err r = 0" "rd_ridx r = - 1" "length (rd_rstack r) = 9"
    "rd_buf r = Some s" "wf_sds s" "rd_len r = sdslen s" "rd_pos r \<le> rd_len r" "rd_len r < 2 ^ 31"
    by (auto simp: idle_def)
  have cur: "cur_task ?r = root_task r" using r(3) by (simp add: cur_task_def)
  have "stack_ok ?r" using r(3) by (simp add: stack_ok_def root_task_def)
  then have ready: "ready fns ?r (ser v @ rest)"
    using idle_buf_ok[OF assms(1)] assms(2,4) cur
    by (simp add: ready_def root_task_def buf_ok_def rd_bytes_def rd_input_def)
  have place: "place_of ?r = None" by (simp add: place_of_def)
  have "resp_ok (nat (8 - rd_ridx ?r)) v" using assms(5) by simp
  moreover have "placed w (place_of ?r)" using place by (simp add: placed_def)
  ultimately obtain obj w' r1 where v: "build fns None v w = Inr (obj, w')" "good w'"
    "item_done ?r (length (ser v)) obj r1" "process_loop ?r w = go_on r1 w'"
    using parsesD[OF parses_all ready _ assms(3)] place by metis
  note d = item_done_simps[OF v(3)]
  let ?r1 = "r1\<lparr>rd_ridx := - 1\<rparr>"
  have "moveToNextTask r1 = Inr ?r1" using d(1) by (simp add: moveToNextTask_def move_loop.simps[of r1])
  then have "process_loop ?r w = Some (Inr (?r1, w'))"
    using v(4) by (simp add: go_on_def process_loop.simps[of ?r1])
  then have items: "process_items ?r w = Inr (?r1, w')" by (simp add: process_items_def)
  have buf: "rd_buf ?r1 = Some s" "rd_len ?r1 = sdslen s" using v(3) r(4,6) by (auto simp: item_done_def)
  have pos: "rd_pos ?r1 \<le> rd_len ?r1"
    using d(3,4) length_input[OF idle_buf_ok[OF assms(1)]] assms(4) r(7) by simp
  have in1: "rd_input ?r1 = rest"
    using input_after[of ?r1 r "length (ser v)"] d(3-5) assms(4) by (simp add: rd_bytes_def)
  obtain s' p where di: "discard ?r1 = Inr (?r1\<lparr>rd_buf := Some s', rd_pos := p, rd_len := sdslen s'\<rparr>)"
    "wf_sds s'" "p \<le> sdslen s'" "sdslen s' < 2 ^ 31"
    "rd_input (?r1\<lparr>rd_buf := Some s', rd_pos := p, rd_len := sdslen s'\<rparr>) = rd_input ?r1"
    "sdslen s' \<le> rd_len ?r1"
    by (rule discard_ok[OF buf(1) r(5) buf(2) pos]) (use buf(2) r(6,8) in simp)
  let ?r2 = "?r1\<lparr>rd_buf := Some s', rd_pos := p, rd_len := sdslen s', rd_reply := 0\<rparr>"
  have "length (rd_input r) \<noteq> 0" using assms(4) ser_not_Nil[of v] by simp
  then have "rd_len r \<noteq> 0" using length_input[OF idle_buf_ok[OF assms(1)]] by simp
  moreover have "set_task r 0 (root_task r) = Inr (r\<lparr>rd_rstack := (rd_rstack r)[0 := root_task r]\<rparr>)"
    using r(3) by (simp add: set_task_def)
  ultimately have "redisReaderGetReply r w = Inr (REDIS_OK, obj, ?r2, w')"
    using r(1,2) items di(1) d(11,12) by (simp add: redisReaderGetReply_def)
  moreover have "rd_input ?r2 = rest" using di(5) in1 by (simp add: rd_input_def rd_bytes_def)
  moreover have "idle ?r2" using di(2-4) r(1,3) d(6,11) by (simp add: idle_def)
  moreover have "rd_fn ?r2 = Some fns" using d(2) assms(2) by simp
  ultimately show ?thesis using v(1,2) by blast
qed

end

section \<open>Feeding the reader piecemeal\<close>

text \<open>What moving on keeps.\<close>

lemma move_fields:
  "moveToNextTask r = Inr r' \<Longrightarrow> \<exists>st i. r' = r\<lparr>rd_rstack := st, rd_ridx := i\<rparr>"
  unfolding moveToNextTask_def
proof (induction r arbitrary: r' rule: move_loop.induct)
  case (1 r)
  have same: "\<exists>st i. r = r\<lparr>rd_rstack := st, rd_ridx := i\<rparr>"
    by (intro exI[of _ "rd_rstack r"] exI[of _ "rd_ridx r"]) simp
  show ?case
  proof (cases "rd_ridx r \<le> 0")
    case True
    have "\<exists>st i. r\<lparr>rd_ridx := - 1\<rparr> = r\<lparr>rd_rstack := st, rd_ridx := i\<rparr>"
      by (intro exI[of _ "rd_rstack r"] exI[of _ "- 1"]) simp
    moreover have "r' = r \<or> r' = r\<lparr>rd_ridx := - 1\<rparr>"
      using True "1.prems" by (auto simp: move_loop.simps[of r] split: if_splits)
    ultimately show ?thesis using same by blast
  next
    case False
    with "1.prems" obtain cur prv where t: "task_at r (rd_ridx r) = Inr cur" "task_at r (rd_ridx r - 1) = Inr prv"
      "task_type prv = REDIS_REPLY_ARRAY"
      by (auto simp: move_loop.simps[of r] bindR_eq_Inr assertR_def split: if_splits)
    show ?thesis
    proof (cases "task_idx cur = task_elements prv - 1")
      case True
      with t False "1.prems" have "move_loop (r\<lparr>rd_ridx := rd_ridx r - 1\<rparr>) = Inr r'"
        by (simp add: move_loop.simps[of r])
      with "1.IH"[of cur prv "()" r'] t True False show ?thesis by auto
    next
      case more: False
      with t False "1.prems" obtain st where "r' = r\<lparr>rd_rstack := st\<rparr>"
        by (auto simp: move_loop.simps[of r] bindR_eq_Inr assertR_def set_task_def split: if_splits)
      then show ?thesis by (intro exI[of _ st] exI[of _ "rd_ridx r"]) simp
    qed
  qed
qed

definition rebuf :: "sds option \<Rightarrow> nat \<Rightarrow> nat \<Rightarrow> 'w redisReader \<Rightarrow> 'w redisReader" where
  "rebuf b p l r = r\<lparr>rd_buf := b, rd_pos := p, rd_len := l\<rparr>"

lemma rebuf_simps [simp]:
  "rd_ridx (rebuf b p l r) = rd_ridx r" "rd_rstack (rebuf b p l r) = rd_rstack r"
  "rd_fn (rebuf b p l r) = rd_fn r" "rd_err (rebuf b p l r) = rd_err r"
  "rd_reply (rebuf b p l r) = rd_reply r" "rd_privdata (rebuf b p l r) = rd_privdata r"
  "task_at (rebuf b p l r) i = task_at r i" "parent_of (rebuf b p l r) = parent_of r"
  "rd_buf (rebuf b p l r) = b" "rd_pos (rebuf b p l r) = p" "rd_len (rebuf b p l r) = l"
  by (auto simp: rebuf_def task_at_def parent_of_def fun_eq_iff)

lemma rebuf_upd:
  "(rebuf b p l r)\<lparr>rd_rstack := st\<rparr> = rebuf b p l (r\<lparr>rd_rstack := st\<rparr>)"
  "(rebuf b p l r)\<lparr>rd_ridx := i\<rparr> = rebuf b p l (r\<lparr>rd_ridx := i\<rparr>)"
  "(rebuf b p l r)\<lparr>rd_reply := x\<rparr> = rebuf b p l (r\<lparr>rd_reply := x\<rparr>)"
  "(rebuf b p l r)\<lparr>rd_pos := q\<rparr> = rebuf b q l r"
  by (simp_all add: rebuf_def)

lemma set_task_rebuf: "set_task (rebuf b p l r) i t = bindR (set_task r i t) (\<lambda>r. Inr (rebuf b p l r))"
  by (simp add: set_task_def rebuf_upd)

lemma move_rebuf: "moveToNextTask (rebuf b p l r) = bindR (moveToNextTask r) (\<lambda>r. Inr (rebuf b p l r))"
  unfolding moveToNextTask_def
proof (induction r rule: move_loop.induct)
  case (1 r)
  show ?case
  proof (cases "rd_ridx r \<le> 0")
    case True
    then show ?thesis by (auto simp: move_loop.simps[of r] move_loop.simps[of "rebuf b p l r"] rebuf_upd)
  next
    case False
    show ?thesis
    proof (cases "task_at r (rd_ridx r)"; cases "task_at r (rd_ridx r - 1)")
      fix cur prv assume t: "task_at r (rd_ridx r) = Inr cur" "task_at r (rd_ridx r - 1) = Inr prv"
      show ?thesis
      proof (cases "task_type prv = REDIS_REPLY_ARRAY \<and> task_idx cur = task_elements prv - 1")
        case True
        then show ?thesis using "1.IH"[of cur prv] t False
          by (simp add: move_loop.simps[of r] move_loop.simps[of "rebuf b p l r"] rebuf_upd)
      next
        case more: False
        then show ?thesis using t False
          by (auto simp: move_loop.simps[of r] move_loop.simps[of "rebuf b p l r"] set_task_rebuf assertR_def)
      qed
    qed (use False in \<open>simp_all add: move_loop.simps[of r] move_loop.simps[of "rebuf b p l r"]\<close>)
  qed
qed

lemma setError_rebuf: "redisReaderSetError (rebuf b p l r) w type str = redisReaderSetError r w type str"
  by (auto simp: redisReaderSetError_def rebuf_def fn_freeObject_def bindR_def split: option.splits sum.splits)

lemma setErrorByte_rebuf:
  "redisReaderSetErrorProtocolByte (rebuf b p l r) w c = redisReaderSetErrorProtocolByte r w c"
  "redisReaderSetErrorOOM (rebuf b p l r) w = redisReaderSetErrorOOM r w"
  by (simp_all add: redisReaderSetErrorProtocolByte_def redisReaderSetErrorOOM_def setError_rebuf)

text \<open>\<open>more x r r'\<close>: the readers differ only in their buffers, and \<open>r'\<close> has \<open>x\<close> behind the input of \<open>r\<close>.\<close>

definition more_input :: "string \<Rightarrow> 'w redisReader \<Rightarrow> 'w redisReader \<Rightarrow> bool" where
  "more_input x r r' \<longleftrightarrow> buf_ok r \<and> buf_ok r' \<and> rd_input r' = rd_input r @ x \<and> (\<exists>b p l. r' = rebuf b p l r)"

definition same_outcome :: "string \<Rightarrow> 'w step res \<Rightarrow> 'w step res \<Rightarrow> bool" where
  "same_outcome x o1 o2 \<longleftrightarrow> (case o1 of Inl e \<Rightarrow> o2 = Inl e
     | Inr (st, r1, w1) \<Rightarrow> \<exists>r2. o2 = Inr (st, r2, w1) \<and>
         (if st = REDIS_OK then more_input x r1 r2 else r2 = r1 \<and> rd_err r1 \<noteq> 0))"

lemma find_crlf_append: "find_crlf s = Some n \<Longrightarrow> find_crlf (s @ x) = Some n"
  by (induction s arbitrary: n) (auto simp: hd_append split: if_splits)

lemma more_fields:
  assumes "more_input x r r'"
  shows "rd_ridx r' = rd_ridx r" "rd_rstack r' = rd_rstack r" "rd_fn r' = rd_fn r" "rd_err r' = rd_err r"
    "rd_reply r' = rd_reply r" "rd_privdata r' = rd_privdata r" "task_at r' = task_at r"
    "parent_of r' = parent_of r" "rd_input r' = rd_input r @ x" "buf_ok r" "buf_ok r'"
    "redisReaderSetError r' w type str = redisReaderSetError r w type str"
    "redisReaderSetErrorProtocolByte r' w c = redisReaderSetErrorProtocolByte r w c"
    "redisReaderSetErrorOOM r' w = redisReaderSetErrorOOM r w"
  using assms by (auto simp: more_input_def setError_rebuf setErrorByte_rebuf)

lemma more_consume: "more_input x r r' \<Longrightarrow> n \<le> length (rd_input r) \<Longrightarrow> more_input x (consume n r) (consume n r')"
proof -
  assume m: "more_input x r r'" "n \<le> length (rd_input r)"
  then obtain b p l where r': "r' = rebuf b p l r" by (auto simp: more_input_def)
  have "consume n (rebuf b p l r) = rebuf b (p + n) l (consume n r)" by (simp add: consume_def rebuf_def)
  then have "\<exists>b p l. consume n r' = rebuf b p l (consume n r)" using r' by blast
  then show ?thesis
    using m consume_ok[of r n] consume_ok[of r' n] by (simp add: more_input_def consume_input)
qed

lemma more_same_buf:
  assumes "more_input x r r'" "rd_buf s = rd_buf r" "rd_pos s = rd_pos r" "rd_len s = rd_len r"
    "s' = rebuf (rd_buf r') (rd_pos r') (rd_len r') s"
  shows "more_input x s s'"
  using assms by (auto simp: more_input_def buf_ok_def rd_input_def rd_bytes_def)

lemma same_bind:
  "(\<And>y. m = Inr y \<Longrightarrow> same_outcome x (f y) (g y)) \<Longrightarrow> same_outcome x (bindR m f) (bindR m g)"
  by (cases m) (auto simp: same_outcome_def)

lemma setError_err: "redisReaderSetError r w t str = Inr (r1, w1) \<Longrightarrow> rd_err r1 = t"
  by (auto simp: redisReaderSetError_def bindR_eq_Inr)

lemma same_fail: "t \<noteq> 0 \<Longrightarrow>
    same_outcome x (fail_with (redisReaderSetError r w t str)) (fail_with (redisReaderSetError r w t str))"
  using setError_err[of r w t str]
  by (cases "redisReaderSetError r w t str") (auto simp: fail_with_def same_outcome_def)

lemma err_codes [simp]: "REDIS_ERR_PROTOCOL \<noteq> 0" "REDIS_ERR_OOM \<noteq> 0"
  by (simp_all add: REDIS_ERR_PROTOCOL_def REDIS_ERR_OOM_def)

lemma same_fail_more:
  assumes "more_input x r r'"
  shows "t \<noteq> 0 \<Longrightarrow> same_outcome x (fail_with (redisReaderSetError r w t s)) (fail_with (redisReaderSetError r' w t s))"
    "same_outcome x (fail_with (redisReaderSetErrorOOM r w)) (fail_with (redisReaderSetErrorOOM r' w))"
    "same_outcome x (fail_with (redisReaderSetErrorProtocolByte r w c))
       (fail_with (redisReaderSetErrorProtocolByte r' w c))"
proof -
  show "t \<noteq> 0 \<Longrightarrow> same_outcome x (fail_with (redisReaderSetError r w t s)) (fail_with (redisReaderSetError r' w t s))"
    unfolding more_fields(12)[OF assms] by (rule same_fail)
  show "same_outcome x (fail_with (redisReaderSetErrorOOM r w)) (fail_with (redisReaderSetErrorOOM r' w))"
    unfolding more_fields(14)[OF assms] unfolding redisReaderSetErrorOOM_def by (rule same_fail) simp
  show "same_outcome x (fail_with (redisReaderSetErrorProtocolByte r w c))
       (fail_with (redisReaderSetErrorProtocolByte r' w c))"
    unfolding more_fields(13)[OF assms] unfolding redisReaderSetErrorProtocolByte_def
    by (rule same_fail) simp
qed

lemma more_moved:
  assumes "more_input x r (rebuf b p l r)" "moveToNextTask r = Inr r1"
  shows "more_input x r1 (rebuf b p l r1)"
proof -
  obtain st i where "r1 = r\<lparr>rd_rstack := st, rd_ridx := i\<rparr>" using move_fields[OF assms(2)] by blast
  then show ?thesis by (intro more_same_buf[OF assms(1)]) simp_all
qed

lemma same_finish:
  assumes "more_input x r r'"
  shows "same_outcome x (finish_item r obj w) (finish_item r' obj w)"
proof -
  obtain b p l where r': "r' = rebuf b p l r" using assms by (auto simp: more_input_def)
  let ?s = "if rd_ridx r = 0 then r\<lparr>rd_reply := obj\<rparr> else r"
  have s': "(if rd_ridx r' = 0 then r'\<lparr>rd_reply := obj\<rparr> else r') = rebuf b p l ?s"
    using r' by (simp add: rebuf_upd)
  have "more_input x ?s (rebuf b p l ?s)"
    using assms r' by (intro more_same_buf[OF assms]) simp_all
  then show ?thesis
    unfolding finish_item_def s' move_rebuf
    by (cases "moveToNextTask ?s") (auto simp: same_outcome_def dest: more_moved)
qed

lemma more_read:
  "more_input x r r' \<Longrightarrow> k + n \<le> length (rd_input r) \<Longrightarrow>
     mem_read (rd_bytes r) (rd_pos r + k) n = Inr (take n (drop k (rd_input r))) \<and>
     mem_read (rd_bytes r') (rd_pos r' + k) n = Inr (take n (drop k (rd_input r)))"
  using read_input_at[of r k n] read_input_at[of r' k n] more_fields(9-11)[of x r r'] by simp

lemma line_more:
  assumes "more_input x r r'"
  shows "processLineItem r w = Inr (REDIS_ERR, r, w) \<or>
    same_outcome x (processLineItem r w) (processLineItem r' w)"
proof (cases "find_crlf (rd_input r)")
  case None
  then show ?thesis
    using readLine_input[OF more_fields(10)[OF assms]] more_fields[OF assms]
    by (cases "task_at r (rd_ridx r)") (auto simp: processLineItem_def same_outcome_def)
next
  case (Some n)
  note f = more_fields[OF assms]
  have n: "n + 2 \<le> length (rd_input r)" by (rule find_crlf_bound[OF Some])
  define d d' where "d = consume (n + 2) r" and "d' = consume (n + 2) r'"
  have c: "more_input x d d'" unfolding d_def d'_def using more_consume[OF assms n] .
  have bytes: "rd_bytes d = rd_bytes r" "rd_bytes d' = rd_bytes r'" by (simp_all add: d_def d'_def)
  have read: "mem_read (rd_bytes r) (rd_pos r) n = Inr (take n (rd_input r))"
    "mem_read (rd_bytes r') (rd_pos r') n = Inr (take n (rd_input r))"
    using more_read[OF assms, of 0 n] n by (simp_all del: mem_read_eq_Inr)
  have line: "readLine r = Inr (Some (rd_pos r, n), d)" "readLine r' = Inr (Some (rd_pos r', n), d')"
    using readLine_input[OF f(10)] readLine_input[OF f(11)] Some find_crlf_append[OF Some] f(9)
    by (simp_all add: d_def d'_def)
  have eqs: "task_at r' (rd_ridx r') = task_at r (rd_ridx r)" "rd_fn d' = rd_fn d" "parent_of d' = parent_of d"
    using f more_fields[OF c] by simp_all
  have "same_outcome x (processLineItem r w) (processLineItem r' w)"
    unfolding processLineItem_def line bytes bindR_simps prod.case option.case read Let_def eqs
      make_string_def
    by (intro same_bind) (auto intro!: same_fail_more[OF c] same_finish[OF c] split: option.splits)
  then show ?thesis by blast
qed

lemma string2ll_less: "string2ll s = Some v \<Longrightarrow> v < 2 ^ 63"
  by (auto simp: string2ll_def Let_def split: if_splits option.splits)

lemma pos_update: "buf_ok r \<Longrightarrow> n \<le> length (rd_input r) \<Longrightarrow> r\<lparr>rd_pos := size_t (rd_pos r + n)\<rparr> = consume n r"
proof -
  assume ok: "buf_ok r" "n \<le> length (rd_input r)"
  then have "rd_pos r + n < 2 ^ 64" using length_input[OF ok(1)] by (auto simp: buf_ok_def)
  then show ?thesis by (simp add: consume_def)
qed

text \<open>A bulk item, in terms of the unread input.\<close>

lemma bulk_head:
  assumes ok: "buf_ok q" and line: "find_crlf (rd_input q) = Some n"
  shows "processBulkItem q w = bindR (task_at q (rd_ridx q)) (\<lambda>cur.
      case string2ll (take n (rd_input q)) of
        None \<Rightarrow> fail_with (redisReaderSetError q w REDIS_ERR_PROTOCOL ''Bad bulk string length'')
      | Some len \<Rightarrow>
          if len < - 1 then
            fail_with (redisReaderSetError q w REDIS_ERR_PROTOCOL ''Bulk string length out of range'')
          else if len = - 1 then
            bindR (make_nil q cur w) (\<lambda>(obj, w).
              if obj = 0 then fail_with (redisReaderSetErrorOOM q w)
              else finish_item (consume (n + 2) q) obj w)
          else if n + 2 + nat len + 2 \<le> length (rd_input q) then
            bindR (make_string q cur (Inr (take (nat len) (drop (n + 2) (rd_input q)))) (nat REDIS_REPLY_STRING) w)
              (\<lambda>(obj, w). if obj = 0 then fail_with (redisReaderSetErrorOOM q w)
                 else finish_item (consume (n + 2 + nat len + 2) q) obj w)
          else Inr (REDIS_ERR, q, w))"
proof -
  have n: "n + 2 \<le> length (rd_input q)" by (rule find_crlf_bound[OF line])
  note L = length_input[OF ok] and B = buf_ok_bounds[OF ok]
  have read: "mem_read (rd_bytes q) (rd_pos q) n = Inr (take n (rd_input q))"
    using read_input[OF ok] n by (simp del: mem_read_eq_Inr)
  show ?thesis
  proof (cases "task_at q (rd_ridx q)")
    case (Inr cur)
    show ?thesis
    proof (cases "string2ll (take n (rd_input q))")
      case None
      then show ?thesis using Inr read
        by (simp add: processBulkItem_def seek_input[OF ok] line del: mem_read_eq_Inr)
    next
      case (Some len)
      define j k where "j = n + 2" and "k = n + 2 + nat len + 2"
      have len: "nat len < 2 ^ 63"
        using string2ll_less[OF Some] by (cases "0 \<le> len") (simp_all add: nat_less_iff)
      have "rd_pos q + k < 2 ^ 64" using len n L B by (simp add: k_def)
      then have wraps: "size_t k = k" "size_t (rd_pos q + k) = rd_pos q + k" by simp_all
      have whole: "rd_pos q + k \<le> rd_len q \<longleftrightarrow> k \<le> length (rd_input q)"
        using L ok by (auto simp: buf_ok_def)
      have str: "mem_read (rd_bytes q) (Suc (Suc (rd_pos q + n))) (nat len) = Inr (take (nat len) (drop j (rd_input q)))"
        if "k \<le> length (rd_input q)"
        using read_input_at[OF ok, of j "nat len"] that
        by (simp add: add.assoc j_def k_def del: mem_read_eq_Inr)
      have upd: "q\<lparr>rd_pos := size_t (rd_pos q + j)\<rparr> = consume j q"
        "q\<lparr>rd_pos := rd_pos q + k\<rparr> = consume k q"
        using pos_update[OF ok n] by (simp_all add: consume_def j_def)
      show ?thesis
        unfolding processBulkItem_def seek_input[OF ok] line Inr bindR_simps option.case Let_def
          diff_add_inverse2 read Some k_def[symmetric] unfolding j_def[symmetric] wraps(1) 
        by (cases "len < - 1"; cases "len = - 1"; cases "k \<le> length (rd_input q)")
          (simp_all add: bindR_assoc case_prod_unfold upd whole wraps str del: mem_read_eq_Inr cong: if_cong)
    qed
  qed (simp add: processBulkItem_def)
qed

lemma bulk_more:
  assumes "more_input x r r'"
  shows "processBulkItem r w = Inr (REDIS_ERR, r, w) \<or>
    same_outcome x (processBulkItem r w) (processBulkItem r' w)"
proof (cases "find_crlf (rd_input r)")
  case None
  then show ?thesis using seek_input[OF more_fields(10)[OF assms]] more_fields[OF assms]
    by (cases "task_at r (rd_ridx r)") (auto simp: processBulkItem_def same_outcome_def)
next
  case (Some n)
  note f = more_fields[OF assms]
  have n: "n + 2 \<le> length (rd_input r)" by (rule find_crlf_bound[OF Some])
  have line': "find_crlf (rd_input r') = Some n" using find_crlf_append[OF Some] f(9) by simp
  have eqs: "task_at r' (rd_ridx r') = task_at r (rd_ridx r)" "rd_fn r' = rd_fn r" "parent_of r' = parent_of r"
    "take n (rd_input r') = take n (rd_input r)"
    using f n by simp_all
  have makes: "make_nil r' cur w = make_nil r cur w" "make_string r' cur str d w = make_string r cur str d w"
    for cur str d unfolding make_nil_def make_string_def eqs(2,3) by (rule refl)+
  have fin: "same_outcome x (finish_item (consume k r) obj w) (finish_item (consume k r') obj w)"
    if "k \<le> length (rd_input r)" for k obj w
    by (rule same_finish[OF more_consume[OF assms that]])
  show ?thesis
  proof (cases "task_at r (rd_ridx r)")
    case (Inl e)
    then show ?thesis using f by (simp add: processBulkItem_def same_outcome_def)
  next
    case (Inr cur)
    show ?thesis
    proof (cases "string2ll (take n (rd_input r))")
      case None
      then show ?thesis
        using same_fail_more(1)[OF assms err_codes(1)]
        by (simp add: bulk_head[OF f(10) Some] bulk_head[OF f(11) line'] eqs(1,4) Inr)
    next
      case len: (Some len)
      let ?k = "n + 2 + nat len + 2"
      have whole: "take (nat len) (drop (n + 2) (rd_input r')) = take (nat len) (drop (n + 2) (rd_input r))"
        "?k \<le> length (rd_input r')" if "?k \<le> length (rd_input r)"
        using that f(9) by simp_all
      show ?thesis
        unfolding bulk_head[OF f(10) Some] bulk_head[OF f(11) line'] eqs(1,4) Inr bindR_simps len option.case makes
        using whole same_fail_more[OF assms] fin n
        by (cases "len < - 1"; cases "len = - 1"; cases "?k \<le> length (rd_input r)") 
          (auto intro!: same_bind)
    qed
  qed
qed

lemma same_update:
  assumes more: "more_input x d (rebuf b p l d)"
    and m: "m' = bindR m (\<lambda>y. Inr (rebuf b p l y))"
    and keeps: "\<And>y. m = Inr y \<Longrightarrow> \<exists>st i. y = d\<lparr>rd_rstack := st, rd_ridx := i\<rparr>"
    and g: "\<And>y. f (rebuf b p l y) = rebuf b p l (f y)"
      "\<And>y. rd_buf (f y) = rd_buf y \<and> rd_pos (f y) = rd_pos y \<and> rd_len (f y) = rd_len y"
  shows "same_outcome x (bindR m (\<lambda>y. Inr (REDIS_OK, f y, w))) (bindR m' (\<lambda>y. Inr (REDIS_OK, f y, w)))"
proof (cases m)
  case (Inr y)
  then obtain st i where y: "y = d\<lparr>rd_rstack := st, rd_ridx := i\<rparr>" using keeps by blast
  have "more_input x (f y) (rebuf b p l (f y))" using g(2) y by (intro more_same_buf[OF more]) simp_all
  then show ?thesis using Inr m g(1) by (simp add: same_outcome_def)
qed (simp add: m same_outcome_def)

lemma set_task_fields: "set_task r i t = Inr r' \<Longrightarrow> r' = r\<lparr>rd_rstack := (rd_rstack r)[nat i := t]\<rparr>"
  by (simp add: set_task_def split: if_splits)

text \<open>The array of a task entered or skipped.\<close>

definition enter_array :: "'w redisReader \<Rightarrow> redisReadTask \<Rightarrow> int \<Rightarrow> nat \<Rightarrow> 'w redisReader res" where
  "enter_array d cur elements obj =
     (if elements > 0 then
        bindR (set_task d (rd_ridx d) (cur\<lparr>task_elements := elements, task_obj := obj\<rparr>)) (\<lambda>r'.
        set_task (r'\<lparr>rd_ridx := rd_ridx d + 1\<rparr>) (rd_ridx d + 1) (child_task d (rd_ridx d)))
      else moveToNextTask d)"

lemma enter_fields: "enter_array d cur n obj = Inr y \<Longrightarrow> \<exists>st i. y = d\<lparr>rd_rstack := st, rd_ridx := i\<rparr>"
proof (cases "n > 0")
  case True
  assume "enter_array d cur n obj = Inr y"
  with True obtain t where t: "set_task d (rd_ridx d) (cur\<lparr>task_elements := n, task_obj := obj\<rparr>) = Inr t"
    "set_task (t\<lparr>rd_ridx := rd_ridx d + 1\<rparr>) (rd_ridx d + 1) (child_task d (rd_ridx d)) = Inr y"
    by (auto simp: enter_array_def bindR_eq_Inr)
  have "y = d\<lparr>rd_rstack := rd_rstack y, rd_ridx := rd_ridx d + 1\<rparr>"
    by (simp add: set_task_fields[OF t(1)] set_task_fields[OF t(2)])
  then show ?thesis by blast
qed (auto simp: enter_array_def dest: move_fields)

lemma enter_rebuf: "enter_array (rebuf b p l d) cur n obj = bindR (enter_array d cur n obj) (\<lambda>y. Inr (rebuf b p l y))"
  by (simp add: enter_array_def set_task_rebuf move_rebuf bindR_assoc child_task_def rebuf_upd)

lemma ridx_upd: "rd_ridx (r\<lparr>rd_ridx := v\<rparr>) = v"
  by simp

lemma multi_enter:
  "processMultiBulkItem r w =
     bindR (task_at r (rd_ridx r)) (\<lambda>cur.
     if rd_ridx r = 8 then
       fail_with (redisReaderSetError r w REDIS_ERR_PROTOCOL
         ''No support for nested multi bulk replies with depth > 7'')
     else
       bindR (readLine r) (\<lambda>(line, r).
       case line of None \<Rightarrow> Inr (REDIS_ERR, r, w)
       | Some (p, len) \<Rightarrow>
           bindR (mem_read (rd_bytes r) p len) (\<lambda>digits.
           case string2ll digits of
             None \<Rightarrow> fail_with (redisReaderSetError r w REDIS_ERR_PROTOCOL ''Bad multi-bulk length'')
           | Some elements \<Rightarrow>
               if elements < - 1 \<or> elements > 2 ^ 31 - 1 then
                 fail_with (redisReaderSetError r w REDIS_ERR_PROTOCOL ''Multi-bulk length out of range'')
               else
                 bindR (if elements = - 1 then make_nil r cur w else make_array r cur elements w)
                   (\<lambda>(obj, w).
                 if obj = 0 then fail_with (redisReaderSetErrorOOM r w)
                 else bindR (enter_array r cur elements obj) (\<lambda>r'.
                   Inr (REDIS_OK, if rd_ridx r = 0 then r'\<lparr>rd_reply := obj\<rparr> else r', w))))))"
  unfolding processMultiBulkItem_def enter_array_def Let_def ridx_upd by (rule refl)

lemma multi_more:
  assumes "more_input x r r'"
  shows "processMultiBulkItem r w = Inr (REDIS_ERR, r, w) \<or>
    same_outcome x (processMultiBulkItem r w) (processMultiBulkItem r' w)"
proof (cases "find_crlf (rd_input r)")
  case None
  note f = more_fields[OF assms]
  show ?thesis
  proof (cases "task_at r (rd_ridx r)")
    case (Inl e)
    then show ?thesis using f by (simp add: processMultiBulkItem_def same_outcome_def)
  next
    case (Inr cur)
    then show ?thesis
      using readLine_input[OF f(10)] f(1,7) None same_fail_more(1)[OF assms err_codes(1)]
      by (cases "rd_ridx r = 8") (simp_all add: processMultiBulkItem_def)
  qed
next
  case (Some n)
  note f = more_fields[OF assms]
  have n: "n + 2 \<le> length (rd_input r)" by (rule find_crlf_bound[OF Some])
  define d d' where "d = consume (n + 2) r" and "d' = consume (n + 2) r'"
  have c: "more_input x d d'" unfolding d_def d'_def using more_consume[OF assms n] .
  obtain b p l where rb: "d' = rebuf b p l d" using c by (auto simp: more_input_def)
  have bytes: "rd_bytes d = rd_bytes r" "rd_bytes d' = rd_bytes r'" by (simp_all add: d_def d'_def)
  have read: "mem_read (rd_bytes r) (rd_pos r) n = Inr (take n (rd_input r))"
    "mem_read (rd_bytes r') (rd_pos r') n = Inr (take n (rd_input r))"
    using more_read[OF assms, of 0 n] n by (simp_all del: mem_read_eq_Inr)
  have line: "readLine r = Inr (Some (rd_pos r, n), d)" "readLine r' = Inr (Some (rd_pos r', n), d')"
    using readLine_input[OF f(10)] readLine_input[OF f(11)] Some find_crlf_append[OF Some] f(9)
    by (simp_all add: d_def d'_def)
  have eqs: "task_at r' = task_at r" "rd_fn d' = rd_fn d" "parent_of d' = parent_of d"
    "rd_ridx r' = rd_ridx r" "rd_ridx d' = rd_ridx d"
    using f more_fields[OF c] by simp_all
  have makes: "make_nil d' cur w = make_nil d cur w" "make_array d' cur k w = make_array d cur k w"
    for cur k unfolding make_nil_def make_array_def eqs(2,3) by (rule refl)+
  have enter: "same_outcome x
      (bindR (enter_array d cur k obj) (\<lambda>r'. Inr (REDIS_OK, if rd_ridx d = 0 then r'\<lparr>rd_reply := obj\<rparr> else r', w)))
      (bindR (enter_array d' cur k obj) (\<lambda>r'. Inr (REDIS_OK, if rd_ridx d = 0 then r'\<lparr>rd_reply := obj\<rparr> else r', w)))"
    for cur k obj w
    unfolding rb
    by (rule same_update[OF c[unfolded rb] enter_rebuf]) (simp_all add: enter_fields rebuf_upd)
  have "same_outcome x (processMultiBulkItem r w) (processMultiBulkItem r' w)"
    unfolding multi_enter line bytes bindR_simps prod.case option.case read eqs makes
    by (intro same_bind) (auto intro!: same_bind same_fail_more[OF assms] same_fail_more[OF c] enter split: option.splits)
  then show ?thesis by blast
qed

lemma typed_more:
  assumes "more_input x r r'"
  shows "process_typed r w = Inr (REDIS_ERR, r, w) \<or> same_outcome x (process_typed r w) (process_typed r' w)"
  using line_more[OF assms, of w] bulk_more[OF assms, of w] multi_more[OF assms, of w] more_fields(1,7)[OF assms]
  by (cases "task_at r (rd_ridx r)") (auto simp: process_typed_def same_outcome_def)

text \<open>A step that succeeds uses some of the input.\<close>

definition uses_input :: "'w redisReader \<Rightarrow> 'w redisReader \<Rightarrow> bool" where
  "uses_input r r' \<longleftrightarrow> buf_ok r' \<and> rd_err r' = rd_err r \<and> rd_buf r' = rd_buf r \<and> rd_len r' = rd_len r \<and>
     length (rd_input r') < length (rd_input r)"

lemma uses_moved:
  assumes "buf_ok r" "0 < n" "n \<le> length (rd_input r)" "r' = (consume n r)\<lparr>rd_rstack := st, rd_ridx := i, rd_reply := o'\<rparr>"
  shows "uses_input r r'"
proof -
  have "buf_ok r' = buf_ok (consume n r)" "rd_input r' = rd_input (consume n r)"
    by (simp_all add: assms(4) buf_ok_def rd_input_def rd_bytes_def)
  moreover have "rd_err r' = rd_err r" "rd_buf r' = rd_buf r" "rd_len r' = rd_len r"
    by (simp_all add: assms(4) consume_def)
  ultimately show ?thesis using assms(1-3) consume_ok[of r n] by (simp add: uses_input_def consume_input)
qed

lemma finish_uses:
  assumes "buf_ok r" "0 < n" "n \<le> length (rd_input r)" "finish_item (consume n r) obj w = Inr (st, r', w')"
  shows "uses_input r r'"
proof -
  let ?s = "if rd_ridx (consume n r) = 0 then (consume n r)\<lparr>rd_reply := obj\<rparr> else consume n r"
  have "moveToNextTask ?s = Inr r'" using assms(4) by (auto simp: finish_item_def bindR_eq_Inr)
  then obtain st i where "r' = ?s\<lparr>rd_rstack := st, rd_ridx := i\<rparr>" using move_fields by blast
  then have "r' = (consume n r)\<lparr>rd_rstack := st, rd_ridx := i, rd_reply := rd_reply ?s\<rparr>"
    by (cases "consume n r") auto
  then show ?thesis by (rule uses_moved[OF assms(1-3)])
qed

lemma fail_not_ok: "fail_with e \<noteq> Inr (REDIS_OK, r, w)"
  by (cases e) (auto simp: fail_with_def)

lemma line_uses:
  assumes ok: "buf_ok r" and "processLineItem r w = Inr (REDIS_OK, r', w')"
  shows "uses_input r r'"
proof (cases "find_crlf (rd_input r)")
  case None
  then show ?thesis using assms readLine_input[OF ok] by (auto simp: processLineItem_def bindR_eq_Inr)
next
  case (Some n)
  have "uses_input r r'" if "finish_item (consume (n + 2) r) obj w1 = Inr (REDIS_OK, r', w')" for obj w1
    by (rule finish_uses[OF ok _ find_crlf_bound[OF Some] that]) simp
  moreover obtain made where "(case made of
        None \<Rightarrow> fail_with (redisReaderSetError (consume (n + 2) r) w REDIS_ERR_PROTOCOL ''Bad integer value'')
      | Some (obj, w) \<Rightarrow> if obj = 0 then fail_with (redisReaderSetErrorOOM (consume (n + 2) r) w)
          else finish_item (consume (n + 2) r) obj w) = Inr (REDIS_OK, r', w')"
    using assms(2) readLine_input[OF ok] Some
    by (auto simp: processLineItem_def bindR_eq_Inr Let_def simp del: add_2_eq_Suc add_2_eq_Suc')
  ultimately show ?thesis by (auto simp: fail_not_ok split: option.splits if_splits)
qed

lemma bulk_uses:
  assumes ok: "buf_ok r" and "processBulkItem r w = Inr (REDIS_OK, r', w')"
  shows "uses_input r r'"
proof (cases "find_crlf (rd_input r)")
  case None
  then show ?thesis using assms seek_input[OF ok] by (auto simp: processBulkItem_def bindR_eq_Inr)
next
  case (Some n)
  have "uses_input r r'" if "finish_item (consume k r) obj w1 = Inr (REDIS_OK, r', w')" "0 < k"
    "k \<le> length (rd_input r)" for k obj w1
    by (rule finish_uses[OF ok that(2,3,1)])
  then show ?thesis
    using assms(2) find_crlf_bound[OF Some] unfolding bulk_head[OF ok Some]
    by (auto simp: bindR_eq_Inr fail_not_ok split: option.splits if_splits)
qed

lemma multi_uses:
  assumes ok: "buf_ok r" and "processMultiBulkItem r w = Inr (REDIS_OK, r', w')"
  shows "uses_input r r'"
proof (cases "find_crlf (rd_input r)")
  case None
  then show ?thesis using assms readLine_input[OF ok]
    by (auto simp: processMultiBulkItem_def bindR_eq_Inr fail_not_ok split: if_splits)
next
  case (Some n)
  have "uses_input r r'" if e: "enter_array (consume (n + 2) r) cur k obj = Inr y" and y: "r' = y \<or> r' = y\<lparr>rd_reply := obj\<rparr>"
    for cur k obj y
  proof -
    obtain st i where "y = (consume (n + 2) r)\<lparr>rd_rstack := st, rd_ridx := i\<rparr>"
      using enter_fields[OF e] by blast
    with y have "\<exists>st i o'. r' = (consume (n + 2) r)\<lparr>rd_rstack := st, rd_ridx := i, rd_reply := o'\<rparr>"
      by (cases "consume (n + 2) r") auto
    then show ?thesis using uses_moved[OF ok _ find_crlf_bound[OF Some]] by fastforce
  qed
  then show ?thesis
    using assms(2) readLine_input[OF ok] Some unfolding multi_enter
    by (auto simp: bindR_eq_Inr fail_not_ok split: option.splits if_splits)
qed

lemma typed_uses: "buf_ok r \<Longrightarrow> process_typed r w = Inr (REDIS_OK, r', w') \<Longrightarrow> uses_input r r'"
  by (auto simp: process_typed_def bindR_eq_Inr split: if_splits intro: line_uses bulk_uses multi_uses)

text \<open>The type of the current item is known, or there is nothing to read it from.\<close>

definition settled :: "'w redisReader \<Rightarrow> bool" where
  "settled r \<longleftrightarrow> (\<forall>t. task_at r (rd_ridx r) = Inr t \<longrightarrow> 0 \<le> task_type t \<or> rd_input r = [])"

lemma settled_stalls:
  assumes "more_input x r r'" "settled r"
  shows "processItem r w = Inr (REDIS_ERR, r, w) \<or> same_outcome x (processItem r w) (processItem r' w)"
proof (cases "task_at r (rd_ridx r)")
  case (Inl e)
  then show ?thesis using more_fields(1,7)[OF assms(1)] by (simp add: processItem_def same_outcome_def)
next
  case (Inr t)
  then show ?thesis
    using assms(2) typed_more[OF assms(1), of w] more_fields(1,7)[OF assms(1)]
      readBytes_input[OF more_fields(10)[OF assms(1)]]
    by (cases "task_type t < 0") (auto simp: processItem_def settled_def)
qed

lemma settled_uses:
  assumes "buf_ok r" "settled r" "processItem r w = Inr (REDIS_OK, r', w')"
  shows "uses_input r r'"
proof -
  from assms(3) obtain t where t: "task_at r (rd_ridx r) = Inr t" by (auto simp: processItem_def bindR_eq_Inr)
  then show ?thesis
    using assms typed_uses[OF assms(1)] readBytes_input[OF assms(1)]
    by (cases "task_type t < 0") (auto simp: processItem_def settled_def)
qed

text \<open>Otherwise the type byte is read first, and either it is no type or the rest is the step of a settled reader.\<close>

lemma item_type:
  assumes more: "more_input x r r'" and "\<not> settled r"
  shows "same_outcome x (processItem r w) (processItem r' w) \<and> (\<forall>y v. processItem r w \<noteq> Inr (REDIS_OK, y, v)) \<or>
    (\<exists>t t'. settled t \<and> more_input x t t' \<and> processItem r w = processItem t w \<and>
      processItem r' w = processItem t' w \<and> uses_input r t \<and> 0 \<le> rd_ridx t)"
proof -
  note f = more_fields[OF more]
  obtain cur where cur: "task_at r (rd_ridx r) = Inr cur" "task_type cur < 0" and ne: "rd_input r \<noteq> []"
    using assms(2) by (auto simp: settled_def)
  have one: "1 \<le> length (rd_input r)" "rd_input r' \<noteq> []" using ne f(9) by (cases "rd_input r"; simp)+
  have c: "more_input x (consume 1 r) (consume 1 r')" by (rule more_consume[OF more one(1)])
  have read: "mem_read (rd_bytes r) (rd_pos r) 1 = Inr (take 1 (rd_input r))"
    "mem_read (rd_bytes r') (rd_pos r') 1 = Inr (take 1 (rd_input r))"
    using more_read[OF more, of 0 1] one by (simp_all del: mem_read_eq_Inr)
  have hd: "hd (take 1 (rd_input r)) = hd (rd_input r)" using ne by (cases "rd_input r") auto
  have body: "processItem q w = (case reply_type (hd (rd_input r)) of
        None \<Rightarrow> fail_with (redisReaderSetErrorProtocolByte (consume 1 q) w (hd (rd_input r)))
      | Some type \<Rightarrow> bindR (set_task (consume 1 q) (rd_ridx r) (cur\<lparr>task_type := type\<rparr>)) (\<lambda>r. process_typed r w))"
    if "q = r \<or> q = r'" for q
  proof -
    have q: "task_at q (rd_ridx q) = Inr cur" "readBytes q 1 = Some (rd_pos q, consume 1 q)"
      "mem_read (rd_bytes q) (rd_pos q) 1 = Inr (take 1 (rd_input r))" "rd_ridx (consume 1 q) = rd_ridx r"
      using that cur f(1,7) readBytes_input[OF f(10)] readBytes_input[OF f(11)] ne one(2) read
      by (auto simp: consume_def simp del: mem_read_eq_Inr One_nat_def)
    show ?thesis
      unfolding processItem_def q bindR_simps option.case prod.case hd rd_bytes_pos using cur(2) by simp
  qed
  show ?thesis
  proof (cases "reply_type (hd (rd_input r))")
    case None
    then show ?thesis using body[of r] body[of r'] same_fail_more(3)[OF c] by (simp add: fail_not_ok)
  next
    case (Some type)
    then have type: "0 \<le> type" by (auto simp: reply_type_def split: if_splits)
    let ?s = "\<lambda>q. (consume 1 q)\<lparr>rd_rstack := (rd_rstack r)[nat (rd_ridx r) := cur\<lparr>task_type := type\<rparr>]\<rparr>"
    have idx: "0 \<le> rd_ridx r" "nat (rd_ridx r) < length (rd_rstack r)"
      using cur(1) by (auto simp: task_at_def split: if_splits)
    then have set: "set_task (consume 1 q) (rd_ridx r) (cur\<lparr>task_type := type\<rparr>) = Inr (?s q)" if "q = r \<or> q = r'" for q
      using that f(2) by (auto simp: set_task_def consume_def)
    obtain b p l where rb: "consume 1 r' = rebuf b p l (consume 1 r)" using c by (auto simp: more_input_def)
    have more': "more_input x (?s r) (?s r')" unfolding rb by (rule more_same_buf[OF c[unfolded rb]]) (simp_all add: rebuf_upd)
    have at: "task_at (?s r) (rd_ridx (?s r)) = Inr (cur\<lparr>task_type := type\<rparr>)"
      using idx by (simp add: task_at_def consume_def)
    have at': "task_at (?s r') (rd_ridx (?s r')) = Inr (cur\<lparr>task_type := type\<rparr>)"
      using at more_fields(1,7)[OF more'] by simp
    have "processItem r w = processItem (?s r) w" "processItem r' w = processItem (?s r') w"
      using body[of r] body[of r'] Some set at at' type by (simp_all add: processItem_def)
    moreover have "settled (?s r)" using at type by (simp add: settled_def)
    moreover have "uses_input r (?s r)"
      by (rule uses_moved[OF f(10) _ one(1), where i = "rd_ridx r" and o' = "rd_reply r"]) (simp_all add: consume_def)
    moreover have "rd_ridx (?s r) = rd_ridx r" by (simp add: consume_def)
    ultimately show ?thesis using more' idx(1) by metis
  qed
qed

lemma loop_step:
  assumes "0 \<le> rd_ridx r"
  shows "process_loop r w = (case processItem r w of Inl e \<Rightarrow> Some (Inl e)
     | Inr (st, r', w') \<Rightarrow> if st = REDIS_OK then process_loop r' w' else Some (Inr (r', w')))"
  using assms by (simp add: process_loop.simps[of r])

lemma loop_more:
  assumes "more_input x r r'" "rd_err r = 0"
  shows "\<exists>res. process_loop r w = Some res \<and> (case res of Inl e \<Rightarrow> process_loop r' w = Some (Inl e)
     | Inr (r1, w1) \<Rightarrow>
         if rd_err r1 \<noteq> 0 then process_loop r' w = Some (Inr (r1, w1))
         else buf_ok r1 \<and> rd_buf r1 = rd_buf r \<and> rd_len r1 = rd_len r \<and>
           (\<exists>r2. more_input x r1 r2 \<and> process_loop r' w = process_loop r2 w1) \<and>
           (rd_ridx r1 < 0 \<or> settled r1 \<and> processItem r1 w1 = Inr (REDIS_ERR, r1, w1)))"
  using assms
proof (induction "length (rd_input r)" arbitrary: r r' w rule: less_induct)
  case less
  note f = more_fields[OF less.prems(1)]
  show ?case
  proof (cases "rd_ridx r < 0")
    case True
    then show ?thesis using less.prems f(10) by (auto simp: process_loop.simps[of r])
  next
    case False
    then have idx: "0 \<le> rd_ridx r" "0 \<le> rd_ridx r'" using f(1) by simp_all
    consider (bad) "same_outcome x (processItem r w) (processItem r' w)" "\<forall>y v. processItem r w \<noteq> Inr (REDIS_OK, y, v)"
      | (item) t t' where "settled t" "more_input x t t'" "processItem r w = processItem t w"
        "processItem r' w = processItem t' w" "length (rd_input t) \<le> length (rd_input r)" "rd_err t = 0" "0 \<le> rd_ridx t"
        "rd_buf t = rd_buf r" "rd_len t = rd_len r"
    proof (cases "settled r")
      case True
      then show ?thesis using item[of r r'] less.prems idx by simp
    next
      case False
      from item_type[OF less.prems(1) this, of w] show ?thesis
        using bad item less.prems(2) by (auto simp: uses_input_def)
    qed
    then show ?thesis
    proof cases
      case bad
      then show ?thesis
        using loop_step[OF idx(1)] loop_step[OF idx(2)]
        by (cases "processItem r w") (auto simp: same_outcome_def split: if_splits)
    next
      case item
      note ft = more_fields[OF item(2)]
      have idx': "0 \<le> rd_ridx t'" using item(7) ft(1) by simp
      have loops: "process_loop r w = process_loop t w" "process_loop r' w = process_loop t' w"
        using loop_step[OF idx(1)] loop_step[OF idx(2)] loop_step[OF item(7)] loop_step[OF idx'] item(3,4) by simp_all
      show ?thesis
      proof (cases "processItem t w = Inr (REDIS_ERR, t, w)")
        case True
        then show ?thesis unfolding loops
          using loop_step[OF item(7), of w] item(1,2,6,8,9) ft(10) by auto
      next
        case False
        then have same: "same_outcome x (processItem t w) (processItem t' w)"
          using settled_stalls[OF item(2,1)] by blast
        show ?thesis
        proof (cases "processItem t w")
          case (Inl e)
          then show ?thesis unfolding loops
            using same loop_step[OF item(7), of w] loop_step[OF idx', of w] by (auto simp: same_outcome_def)
        next
          case (Inr y)
          then obtain st r1 w1 where y: "processItem t w = Inr (st, r1, w1)" by (cases y) auto
          then obtain r2 where r2: "processItem t' w = Inr (st, r2, w1)"
            "if st = REDIS_OK then more_input x r1 r2 else r2 = r1 \<and> rd_err r1 \<noteq> 0"
            using same by (auto simp: same_outcome_def)
          show ?thesis
          proof (cases "st = REDIS_OK")
            case True
            then have "uses_input t r1" using settled_uses[OF ft(10) item(1)] y by simp
            then have "length (rd_input r1) < length (rd_input r)" "rd_err r1 = 0"
              "rd_buf r = rd_buf r1" "rd_len r = rd_len r1"
              using item(5,6,8,9) by (auto simp: uses_input_def)
            moreover have pl: "process_loop r w = process_loop r1 w1" "process_loop r' w = process_loop r2 w1"
              unfolding loops using r2 True y loop_step[OF item(7), of w] loop_step[OF idx', of w] by simp_all
            moreover have "more_input x r1 r2" using r2 True by simp
            ultimately show ?thesis
              unfolding pl \<open>rd_buf r = rd_buf r1\<close> \<open>rd_len r = rd_len r1\<close> by (intro less.hyps)
          next
            case False
            then show ?thesis unfolding loops
              using r2 y loop_step[OF item(7), of w] loop_step[OF idx', of w] by simp
          qed
        qed
      qed
    qed
  qed
qed

text \<open>The loop ends.\<close>

lemma loop_ends: "buf_ok r \<Longrightarrow> rd_err r = 0 \<Longrightarrow> \<exists>res. process_loop r w = Some res"
proof -
  assume ok: "buf_ok r" "rd_err r = 0"
  have "r = rebuf (rd_buf r) (rd_pos r) (rd_len r) r" by (simp add: rebuf_def)
  then have "more_input [] r r" using ok(1) unfolding more_input_def by auto
  from loop_more[OF this ok(2), of w] show ?thesis by blast
qed

text \<open>Two readers that differ only in their buffers.\<close>

lemma more_input_iff: "more_input x r r' \<longleftrightarrow>
    buf_ok r \<and> buf_ok r' \<and> rd_input r' = rd_input r @ x \<and> rebuf None 0 0 r' = rebuf None 0 0 r"
proof -
  have "(\<exists>b p l. r' = rebuf b p l r) \<longleftrightarrow> rebuf None 0 0 r' = rebuf None 0 0 r"
  proof
    assume "rebuf None 0 0 r' = rebuf None 0 0 r"
    then have "r' = rebuf (rd_buf r') (rd_pos r') (rd_len r') r" by (cases r; cases r') (simp add: rebuf_def)
    then show "\<exists>b p l. r' = rebuf b p l r" by blast
  qed (auto simp: rebuf_def)
  then show ?thesis by (simp add: more_input_def)
qed

lemma more_trans: "more_input x r a \<Longrightarrow> more_input y a b \<Longrightarrow> more_input (x @ y) r b"
  "more_input (x @ y) r b \<Longrightarrow> more_input x r a \<Longrightarrow> more_input y a b"
  by (auto simp: more_input_iff)

lemma more_refl: "buf_ok r \<Longrightarrow> more_input [] r r"
  by (simp add: more_input_iff)

text \<open>Some reader has any given text more.\<close>

lemma more_exists: "buf_ok r \<Longrightarrow> length (rd_input r @ x) < 2 ^ 31 \<Longrightarrow> \<exists>r'. more_input x r r'"
proof -
  assume ok: "buf_ok r" "length (rd_input r @ x) < 2 ^ 31"
  define s where "s = \<lparr>sds_type = SDS_TYPE_8, sds_len = 0, sds_alloc = 0, sds_buf = rd_input r @ x\<rparr>"
  have input: "rd_input (rebuf (Some t) 0 (length (sds_buf t)) r) = sds_buf t" for t
    by (simp add: rd_input_def rd_bytes_def)
  have "buf_ok (rebuf (Some s) 0 (length (rd_input r @ x)) r)"
    using ok(2) by (simp add: buf_ok_def rd_bytes_def s_def)
  moreover have "rd_input (rebuf (Some s) 0 (length (rd_input r @ x)) r) = rd_input r @ x"
    using input[of s] by (simp add: s_def)
  ultimately show ?thesis using ok(1) unfolding more_input_def by blast
qed

lemma same_loop:
  assumes "process_loop r w = Some (Inr (r1, w1))" "rd_err r = 0" "rd_err r1 = 0" "more_input [] r r'"
  shows "\<exists>r2. more_input [] r1 r2 \<and> process_loop r' w = Some (Inr (r2, w1))"
proof -
  from loop_more[OF assms(4,2), of w] assms(1,3) obtain r2 where r2: "more_input [] r1 r2"
    "process_loop r' w = process_loop r2 w1" "rd_ridx r1 < 0 \<or> settled r1 \<and> processItem r1 w1 = Inr (REDIS_ERR, r1, w1)"
    by auto
  show ?thesis
  proof (cases "rd_ridx r1 < 0")
    case True
    then show ?thesis using r2(1,2) more_fields(1)[OF r2(1)] by (simp add: process_loop.simps[of r2])
  next
    case False
    then have st: "settled r1" "processItem r1 w1 = Inr (REDIS_ERR, r1, w1)" "0 \<le> rd_ridx r2"
      using r2(3) more_fields(1)[OF r2(1)] by auto
    have rev: "more_input [] r2 r1" using r2(1) by (simp add: more_input_iff)
    have "settled r2" using st(1) more_fields(1,7,9)[OF r2(1)] by (simp add: settled_def)
    then have "processItem r2 w1 = Inr (REDIS_ERR, r2, w1) \<or> same_outcome [] (processItem r2 w1) (processItem r1 w1)"
      by (rule settled_stalls[OF rev])
    then have "processItem r2 w1 = Inr (REDIS_ERR, r2, w1)"
      using st(2) assms(3) by (auto simp: same_outcome_def split: sum.splits)
    then show ?thesis using r2(1,2) loop_step[OF st(3), of w1] by simp
  qed
qed

section \<open>A reply that arrives in pieces\<close>

text \<open>A reader without error, idle or in the middle of a reply.\<close>

definition live :: "'w redisReader \<Rightarrow> bool" where
  "live r \<longleftrightarrow> rd_err r = 0 \<and> (rd_ridx r = - 1 \<longrightarrow> length (rd_rstack r) = 9) \<and>
     (\<exists>s. rd_buf r = Some s \<and> wf_sds s \<and> rd_len r = sdslen s \<and> rd_pos r \<le> rd_len r \<and> rd_len r < 2 ^ 31)"

lemma live_buf_ok: "live r \<Longrightarrow> buf_ok r"
  by (auto simp: live_def buf_ok_def rd_bytes_def wf_sds_def sdslen_def)

lemma live_rebuf:
  assumes "live r" "wf_sds s" "p \<le> sdslen s" "sdslen s < 2 ^ 31"
  shows "live (rebuf (Some s) p (sdslen s) r)"
  using assms unfolding live_def by simp

lemma rebuf_self: "r\<lparr>rd_buf := b, rd_len := l\<rparr> = rebuf b (rd_pos r) l r"
  "r\<lparr>rd_buf := b, rd_pos := p, rd_len := l\<rparr> = rebuf b p l r"
  by (simp_all add: rebuf_def)

lemma rebuf_str: "p \<le> sdslen s \<Longrightarrow> rd_input (rebuf (Some s) p (sdslen s) r) = drop p (sds_str s)"
  by (simp add: rd_input_def rd_bytes_def sds_str_def sdslen_def drop_take)

text \<open>Feeding puts the bytes behind the unread input.\<close>

lemma feed_ok:
  assumes "live r" "total_allocator m" "len \<le> length bytes" "0 < len" "rd_len r + len < 2 ^ 31"
  obtains r' where "redisReaderFeed m r w (Some bytes) len = Inr (REDIS_OK, r', w)" "live r'"
    "more_input (take len bytes) r r'" "rd_len r' \<le> rd_len r + len" "rd_len r' \<noteq> 0"
proof -
  from assms(1) obtain s where s: "rd_err r = 0" "rd_buf r = Some s" "wf_sds s" "rd_len r = sdslen s"
    "rd_pos r \<le> rd_len r" by (auto simp: live_def)
  have r: "rd_input r = drop (rd_pos r) (sds_str s)"
    using s by (simp add: rd_input_def rd_bytes_def sds_str_def sdslen_def drop_take)
  note goal = that
  have out: thesis if s1: "wf_sds s1" "sds_str s1 = drop q (sds_str s)" "q \<le> rd_pos r" 
    and feed: "\<And>s'. sdscatlen m s1 bytes len = Inr s' \<Longrightarrow> redisReaderFeed m r w (Some bytes) len =
      Inr (REDIS_OK, rebuf (Some s') (rd_pos r - q) (sdslen s') r, w)" for s1 q
  proof -
    have len1: "sdslen s1 = sdslen s - q" using s1 length_sds_str[OF s1(1)] length_sds_str[OF s(3)] by simp
    have "succeeds (sdscatlen m s1 bytes len) (\<lambda>s'. wf_sds s' \<and> sds_str s' = sds_str s1 @ take len bytes)"
      using assms(2,3,5) s(4) len1 s1(1) by (intro sdscatlen_ok) simp_all
    then obtain s' where s': "sdscatlen m s1 bytes len = Inr s'" "wf_sds s'"
      "sds_str s' = sds_str s1 @ take len bytes" by (auto simp: succeeds_iff)
    have len': "sdslen s' = sdslen s - q + len"
      using length_sds_str[OF s'(2)] s'(3) length_sds_str[OF s1(1)] len1 assms(3) by simp
    let ?r = "rebuf (Some s') (rd_pos r - q) (sdslen s') r"
    have pos: "rd_pos r - q \<le> sdslen s'" using s(4,5) len' by simp
    have live: "live ?r" using assms(1,5) s'(2) pos len' s(4) by (intro live_rebuf) simp_all
    have "rd_input ?r = drop (rd_pos r - q) (drop q (sds_str s) @ take len bytes)"
      using rebuf_str[OF pos] s'(3) s1(2) by simp
    also have "\<dots> = rd_input r @ take len bytes"
      using r s1(3) s(4,5) length_sds_str[OF s(3)] by simp
    finally have "more_input (take len bytes) r ?r"
      using live_buf_ok[OF assms(1)] live_buf_ok[OF live] unfolding more_input_def by blast
    then show thesis
      using goal[OF feed[OF s'(1)] live] len' s(4) assms(4) by simp
  qed
  show thesis
  proof (cases "rd_len r = 0 \<and> rd_maxbuf r \<noteq> 0 \<and> sdsavail s > rd_maxbuf r")
    case False
    have "redisReaderFeed m r w (Some bytes) len = Inr (REDIS_OK, rebuf (Some s') (rd_pos r - 0) (sdslen s') r, w)"
      if "sdscatlen m s bytes len = Inr s'" for s'
      using that False s assms(4) by (auto simp: redisReaderFeed_def rd_sds_def rebuf_def)
    then show thesis using out[of s 0] s(3) by simp
  next
    case True
    obtain e where e: "sdsempty m = Inr e" "wf_sds e" "sds_str e = []"
      using sdsempty_ok[OF assms(2)] by (auto simp: succeeds_iff)
    have "redisReaderFeed m r w (Some bytes) len =
        Inr (REDIS_OK, rebuf (Some s') (rd_pos r - rd_pos r) (sdslen s') r, w)"
      if "sdscatlen m e bytes len = Inr s'" for s'
      using that True s assms(4) e(1) by (auto simp: redisReaderFeed_def rd_sds_def rebuf_def)
    moreover have "sds_str e = drop (rd_pos r) (sds_str s)" using True s(4,5) e(3) length_sds_str[OF s(3)] by simp
    ultimately show thesis using out[OF e(2), of "rd_pos r"] by simp
  qed
qed

text \<open>The reader with the task of the whole reply in place.\<close>

definition rooted :: "'w redisReader \<Rightarrow> 'w redisReader" where
  "rooted r = (if rd_ridx r = - 1 then r\<lparr>rd_rstack := (rd_rstack r)[0 := root_task r], rd_ridx := 0\<rparr> else r)"

lemma rooted_simps [simp]:
  "rd_err (rooted r) = rd_err r" "rd_buf (rooted r) = rd_buf r" "rd_pos (rooted r) = rd_pos r"
  "rd_len (rooted r) = rd_len r" "rd_input (rooted r) = rd_input r" "buf_ok (rooted r) = buf_ok r"
  by (simp_all add: rooted_def rd_input_def rd_bytes_def buf_ok_def)

lemma rooted_rebuf: "rooted (rebuf b p l r) = rebuf b p l (rooted r)"
  by (simp add: rooted_def root_task_def rebuf_upd)

lemma rooted_more: "more_input x r r' \<Longrightarrow> more_input x (rooted r) (rooted r')"
proof -
  assume m: "more_input x r r'"
  then obtain b p l where "r' = rebuf b p l r" by (auto simp: more_input_def)
  then have "rooted r' = rebuf b p l (rooted r)" by (simp only: rooted_rebuf)
  then show ?thesis using m unfolding more_input_def rooted_simps by blast
qed

text \<open>The reader is idle again, with the reply \<open>obj\<close> and nothing left to read.\<close>

definition complete :: "'w redisReader \<Rightarrow> nat \<Rightarrow> 'w redisReplyObjectFunctions \<Rightarrow> bool" where
  "complete r obj fns \<longleftrightarrow> rd_err r = 0 \<and> rd_ridx r = - 1 \<and> rd_reply r = obj \<and> length (rd_rstack r) = 9 \<and>
     rd_fn r = Some fns \<and> rd_input r = []"

lemma complete_same: "more_input [] r r' \<Longrightarrow> complete r obj fns \<Longrightarrow> complete r' obj fns"
  using more_fields[of "[]" r r'] by (simp add: complete_def)

text \<open>When \<open>todo\<close> arrives, the reader will have read \<open>obj\<close>.\<close>

definition owes :: "'w redisReplyObjectFunctions \<Rightarrow> 'w redisReader \<Rightarrow> 'w \<Rightarrow> string \<Rightarrow> nat \<Rightarrow> 'w \<Rightarrow> bool" where
  "owes fns r w todo obj w' \<longleftrightarrow> live r \<and> rd_len r + length todo < 2 ^ 31 \<and>
     (\<forall>r'. more_input todo (rooted r) r' \<longrightarrow>
        (\<exists>r2. process_loop r' w = Some (Inr (r2, w')) \<and> complete r2 obj fns))"

lemma discard_live:
  assumes "rd_err r = 0" "rd_buf r = Some s" "wf_sds s" "rd_len r = sdslen s" "buf_ok r"
    "rd_ridx r = - 1 \<longrightarrow> length (rd_rstack r) = 9"
  obtains r' where "discard r = Inr r'" "live r'" "more_input [] r r'" "rd_len r' \<le> rd_len r"
proof -
  have le: "rd_pos r \<le> rd_len r" "rd_len r < 2 ^ 31" using assms(5) by (auto simp: buf_ok_def)
  have lr: "live r" using assms le by (simp add: live_def)
  obtain s' p where d: "discard r = Inr (rebuf (Some s') p (sdslen s') r)" "wf_sds s'" "p \<le> sdslen s'"
    "sdslen s' < 2 ^ 31" "rd_input (rebuf (Some s') p (sdslen s') r) = rd_input r"
    "sdslen s' \<le> rd_len r"
    by (rule discard_ok[OF assms(2-4) le]) (simp add: rebuf_def)
  let ?r = "rebuf (Some s') p (sdslen s') r"
  have live: "live ?r" by (rule live_rebuf[OF lr d(2-4)])
  then have more: "more_input [] r ?r"
    using d(5) live_buf_ok[OF live] assms(5) unfolding more_input_def by auto
  show thesis using that[OF d(1) live more] d(6) by simp
qed

lemma getReply_loop:
  assumes "live r" "rd_len r \<noteq> 0" "process_loop (rooted r) w = Some (Inr (r1, w1))" "rd_err r1 = 0"
    "discard r1 = Inr r2" "rd_ridx r2 = rd_ridx r1"
  shows "redisReaderGetReply r w = Inr (if rd_ridx r1 = - 1 then (REDIS_OK, rd_reply r2, r2\<lparr>rd_reply := 0\<rparr>, w1)
     else (REDIS_OK, 0, r2, w1))"
proof -
  have "(if rd_ridx r = - 1 then bindR (set_task r 0 (root_task r)) (\<lambda>r. Inr (r\<lparr>rd_ridx := 0\<rparr>)) else Inr r) = Inr (rooted r)"
    using assms(1) by (simp add: rooted_def set_task_def live_def)
  then show ?thesis using assms by (simp add: redisReaderGetReply_def process_items_def live_def)
qed

text \<open>Asking for the reply: it is there when nothing more is owed.\<close>

lemma loop_more_ok:
  assumes "more_input x r r'" "rd_err r = 0" "process_loop r' w = Some (Inr (z, w'))" "rd_err z = 0"
  obtains r1 w1 y where "process_loop r w = Some (Inr (r1, w1))" "rd_err r1 = 0" "buf_ok r1"
    "rd_buf r1 = rd_buf r" "rd_len r1 = rd_len r" "more_input x r1 y" "process_loop r' w = process_loop y w1"
    "rd_ridx r1 < 0 \<or> settled r1 \<and> processItem r1 w1 = Inr (REDIS_ERR, r1, w1)"
proof -
  obtain res where res: "process_loop r w = Some res" and c: "case res of Inl e \<Rightarrow> process_loop r' w = Some (Inl e)
     | Inr (r1, w1) \<Rightarrow>
         if rd_err r1 \<noteq> 0 then process_loop r' w = Some (Inr (r1, w1))
         else buf_ok r1 \<and> rd_buf r1 = rd_buf r \<and> rd_len r1 = rd_len r \<and>
           (\<exists>r2. more_input x r1 r2 \<and> process_loop r' w = process_loop r2 w1) \<and>
           (rd_ridx r1 < 0 \<or> settled r1 \<and> processItem r1 w1 = Inr (REDIS_ERR, r1, w1))"
    using loop_more[OF assms(1,2), of w] by blast
  show thesis
  proof (cases res)
    case (Inl e)
    then show thesis using c assms(3) by simp
  next
    case (Inr p)
    then show thesis
      using that[of "fst p" "snd p"] res c assms(3,4) by (cases "rd_err (fst p) = 0") (auto simp: case_prod_unfold)
  qed
qed

lemma owes_get:
  assumes "owes fns a w todo obj w'" "rd_len a \<noteq> 0"
  shows "if todo = []
     then \<exists>r2. redisReaderGetReply a w = Inr (REDIS_OK, obj, r2, w') \<and> idle r2 \<and> rd_fn r2 = Some fns \<and> rd_input r2 = []
     else \<exists>r2 w1. redisReaderGetReply a w = Inr (REDIS_OK, 0, r2, w1) \<and> owes fns r2 w1 todo obj w'"
proof -
  have o: "live a" "rd_len a + length todo < 2 ^ 31"
    "\<And>r'. more_input todo (rooted a) r' \<Longrightarrow> \<exists>r2. process_loop r' w = Some (Inr (r2, w')) \<and> complete r2 obj fns"
    using assms(1) by (simp_all add: owes_def)
  have ok: "buf_ok (rooted a)" "rd_err (rooted a) = 0" using live_buf_ok[OF o(1)] o(1) by (simp_all add: live_def)
  have "length (rd_input (rooted a) @ todo) < 2 ^ 31"
    using length_input[OF live_buf_ok[OF o(1)]] o(2) by simp
  then obtain b where b: "more_input todo (rooted a) b" using more_exists[OF ok(1)] by blast
  obtain z where z: "process_loop b w = Some (Inr (z, w'))" "complete z obj fns"
    using o(3)[OF b] by blast
  have cz: "rd_err z = 0" "rd_ridx z = - 1" "rd_input z = []" "rd_reply z = obj" "length (rd_rstack z) = 9"
    "rd_fn z = Some fns"
    using z(2) by (simp_all add: complete_def)
  obtain r1 w1 y where r1: "process_loop (rooted a) w = Some (Inr (r1, w1))" "rd_err r1 = 0" "buf_ok r1"
    "rd_buf r1 = rd_buf a" "rd_len r1 = rd_len a" "more_input todo r1 y" "process_loop b w = process_loop y w1"
    "rd_ridx r1 < 0 \<or> settled r1 \<and> processItem r1 w1 = Inr (REDIS_ERR, r1, w1)"
    by (rule loop_more_ok[OF b ok(2) z(1) cz(1)]) simp
  note y = more_fields[OF r1(6)]
  obtain s where s: "rd_buf r1 = Some s" "wf_sds s" "rd_len r1 = sdslen s"
    using o(1) r1(4,5) by (auto simp: live_def)
  have yz: "y = z \<and> w1 = w'" if "rd_ridx r1 < 0"
    using that r1(7) z(1) y(1) by (simp add: process_loop.simps[of y])
  have fin: "todo = [] \<longleftrightarrow> rd_ridx r1 < 0"
  proof
    assume "todo = []"
    then have "more_input [] y r1" using r1(6) by (simp add: more_input_iff)
    moreover have "process_loop y w1 = Some (Inr (z, w'))" using r1(7) z(1) by simp
    ultimately obtain q where q: "more_input [] z q" "process_loop r1 w1 = Some (Inr (q, w'))"
      using same_loop[of y w1 z w' r1] r1(2) y(4) cz(1) by auto
    show "rd_ridx r1 < 0"
    proof (rule ccontr)
      assume "\<not> rd_ridx r1 < 0"
      then have "q = r1" "0 \<le> rd_ridx r1" using q(2) r1(8) loop_step[of r1 w1] by auto
      then show False using more_fields(1)[OF q(1)] cz(2) by simp
    qed
  next
    assume "rd_ridx r1 < 0"
    then show "todo = []" using yz y(9) cz(3) by simp
  qed
  have idx: "rd_ridx r1 = - 1" "complete r1 obj fns" if "todo = []"
  proof -
    have "more_input [] z r1" using that fin yz r1(6) by (simp add: more_input_iff)
    from complete_same[OF this z(2)] show "complete r1 obj fns" .
    then show "rd_ridx r1 = - 1" by (simp add: complete_def)
  qed
  have nine: "rd_ridx r1 = - 1 \<longrightarrow> length (rd_rstack r1) = 9"
    using idx(2) fin unfolding complete_def by linarith
  obtain r2 where r2: "discard r1 = Inr r2" "live r2" "more_input [] r1 r2" "rd_len r2 \<le> rd_len r1"
    by (rule discard_live[OF r1(2) s r1(3) nine])
  note f2 = more_fields[OF r2(3)]
  have get: "redisReaderGetReply a w = Inr (if rd_ridx r1 = - 1
      then (REDIS_OK, rd_reply r2, r2\<lparr>rd_reply := 0\<rparr>, w1) else (REDIS_OK, 0, r2, w1))"
    by (rule getReply_loop[OF o(1) assms(2) r1(1,2) r2(1) f2(1)])
  show ?thesis
  proof (cases "todo = []")
    case True
    have c2: "complete r2 obj fns" by (rule complete_same[OF r2(3) idx(2)[OF True]])
    then have "idle (r2\<lparr>rd_reply := 0\<rparr>)" using r2(2) by (auto simp: idle_def live_def complete_def)
    moreover have "rd_input (r2\<lparr>rd_reply := 0\<rparr>) = []"
      using c2 by (simp add: complete_def rd_input_def rd_bytes_def)
    ultimately show ?thesis using get idx(1)[OF True] True c2 yz fin by (auto simp: complete_def)
  next
    case False
    then have pos: "0 \<le> rd_ridx r1" using fin by simp
    have "owes fns r2 w1 todo obj w'"
      unfolding owes_def
    proof (intro conjI allI impI)
      show "live r2" by (rule r2(2))
      show "rd_len r2 + length todo < 2 ^ 31" using r2(4) r1(5) o(2) by simp
      fix r' assume "more_input todo (rooted r2) r'"
      then have m: "more_input todo r2 r'" using pos f2(1) by (simp add: rooted_def)
      have "more_input [] y r'" using more_trans(1)[OF r2(3) m] r1(6) by (simp add: more_input_iff)
      from same_loop[OF _ _ cz(1) this, of w1 w'] show "\<exists>r2. process_loop r' w1 = Some (Inr (r2, w')) \<and> complete r2 obj fns"
        using r1(2,7) z y(4) complete_same by metis
    qed
    then show ?thesis using get pos False by auto
  qed
qed

lemma owes_wait:
  assumes "owes fns r w todo obj w'" "todo \<noteq> []"
  shows "\<exists>r2 w1. redisReaderGetReply r w = Inr (REDIS_OK, 0, r2, w1) \<and> owes fns r2 w1 todo obj w'"
proof (cases "rd_len r = 0")
  case True
  then show ?thesis using assms by (auto simp: redisReaderGetReply_def owes_def live_def)
next
  case False
  then show ?thesis using owes_get[OF assms(1)] assms(2) by simp
qed

text \<open>One more piece: the reply, or the rest of it is still owed.\<close>

lemma owes_feed:
  assumes "owes fns r w (c @ todo) obj w'" "total_allocator m" "c \<noteq> []"
  obtains a where "redisReaderFeed m r w (Some c) (length c) = Inr (REDIS_OK, a, w)" "owes fns a w todo obj w'"
    "rd_len a \<noteq> 0"
proof -
  have o: "live r" "rd_len r + length c + length todo < 2 ^ 31"
    "\<And>r'. more_input (c @ todo) (rooted r) r' \<Longrightarrow> \<exists>r2. process_loop r' w = Some (Inr (r2, w')) \<and> complete r2 obj fns"
    using assms(1) by (simp_all add: owes_def add.assoc)
  obtain a where a: "redisReaderFeed m r w (Some c) (length c) = Inr (REDIS_OK, a, w)" "live a"
    "more_input c r a" "rd_len a \<le> rd_len r + length c" "rd_len a \<noteq> 0"
    using feed_ok[OF o(1) assms(2), of "length c" c w thesis] assms(3) o(2) by auto
  have "owes fns a w todo obj w'"
    unfolding owes_def
  proof (intro conjI allI impI)
    fix r' assume "more_input todo (rooted a) r'"
    from o(3)[OF more_trans(1)[OF rooted_more[OF a(3)] this]]
    show "\<exists>r2. process_loop r' w = Some (Inr (r2, w')) \<and> complete r2 obj fns" .
  qed (use a o(2) in simp_all)
  then show thesis by (rule that[OF a(1) _ a(5)])
qed

lemma idle_live: "idle r \<Longrightarrow> live r"
  by (auto simp: idle_def live_def)

context reply_builder
begin

lemma owes_start:
  assumes "idle r" "rd_fn r = Some fns" "good w" "rd_input r = []" "resp_ok 8 v"
    "rd_len r + length (ser v) < 2 ^ 31"
  shows "\<exists>obj w'. build fns None v w = Inr (obj, w') \<and> obj \<noteq> 0 \<and> good w' \<and> owes fns r w (ser v) obj w'"
proof -
  from assms(1) have r: "rd_err r = 0" "rd_ridx r = - 1" "length (rd_rstack r) = 9" by (auto simp: idle_def)
  have key: "\<exists>obj w' r1. build fns None v w = Inr (obj, w') \<and> obj \<noteq> 0 \<and> good w' \<and>
      process_loop r' w = Some (Inr (r1, w')) \<and> complete r1 obj fns"
    if "more_input (ser v) (rooted r) r'" for r'
  proof -
    note f = more_fields[OF that]
    have st: "rd_ridx r' = 0" "length (rd_rstack r') = 9" "cur_task r' = root_task r"
      using f(1,2) r by (simp_all add: rooted_def cur_task_def)
    have fn: "rd_fn r' = Some fns" using f(3) assms(2) by (simp add: rooted_def)
    have "stack_ok r'" using st by (simp add: stack_ok_def root_task_def cur_task_def)
    then have ready: "ready fns r' (ser v @ [])"
      using f(11) f(9)[unfolded rooted_simps] fn st assms(4) by (simp add: ready_def root_task_def)
    have place: "place_of r' = None" using st(1) by (simp add: place_of_def)
    have "resp_ok (nat (8 - rd_ridx r')) v" using assms(5) st(1) by simp
    moreover have "placed w (place_of r')" using place by (simp add: placed_def)
    ultimately obtain obj w' r1 where v: "build fns None v w = Inr (obj, w')" "obj \<noteq> 0" "good w'"
      "item_done r' (length (ser v)) obj r1" "process_loop r' w = go_on r1 w'"
      using parsesD[OF parses_all ready _ assms(3)] place by metis
    note d = item_done_simps[OF v(4)]
    let ?r1 = "r1\<lparr>rd_ridx := - 1\<rparr>"
    have "moveToNextTask r1 = Inr ?r1" using d(1) st(1) by (simp add: moveToNextTask_def move_loop.simps[of r1])
    then have "process_loop r' w = Some (Inr (?r1, w'))"
      using v(5) by (simp add: go_on_def process_loop.simps[of ?r1])
    moreover have "rd_input ?r1 = []"
      using input_after[of ?r1 r' "length (ser v)"] d(3-5) f(9)[unfolded rooted_simps] assms(4) by (simp add: rd_bytes_def)
    then have "complete ?r1 obj fns"
      using d(2,6,11,12) st(1,2) f(4)[unfolded rooted_simps] fn r(1) by (simp add: complete_def)
    ultimately show ?thesis using v(1-3) by blast
  qed
  have len: "length (rd_input (rooted r) @ ser v) < 2 ^ 31" using assms(4,6) by simp
  have "buf_ok (rooted r)" using idle_buf_ok[OF assms(1)] by simp
  then obtain r' where "more_input (ser v) (rooted r) r'" using more_exists len by blast
  from key[OF this] obtain obj w' where b: "build fns None v w = Inr (obj, w')" "obj \<noteq> 0" "good w'" by blast
  then have "owes fns r w (ser v) obj w'"
    using idle_live[OF assms(1)] assms(6) key unfolding owes_def by fastforce
  then show ?thesis using b by blast
qed

end

section \<open>Errors stay\<close>

lemma err_sticky:
  "rd_err r \<noteq> 0 \<Longrightarrow> redisReaderGetReply r w = Inr (REDIS_ERR, 0, r, w) \<and>
     redisReaderFeed m r w buf len = Inr (REDIS_ERR, r, w)"
  by (simp add: redisReaderGetReply_def redisReaderFeed_def)

end
