(* ===== verification/Reply.thy ===== *)
theory Reply
  imports Reader
begin

text \<open>
  The reply objects of the client (src/redis/hiredis.c, hiredis.h): a heap of \<open>redisReply\<close>
  structures, the functions of \<open>defaultFunctions\<close> that build them for the parser, and
  \<open>freeReplyObject\<close>.  A structure owns its string and its vector of elements, which are stored in
  it.  \<open>calloc\<close> and \<open>malloc\<close> hand out addresses in increasing order; NULL is 0.
\<close>

section \<open>The heap of replies\<close>

record redisReply =
  r_type :: int
  r_integer :: int
  r_len :: nat
  r_str :: "char list option"
  r_elements :: nat
  r_element :: "nat list option"

record heap =
  h_objs :: "nat \<Rightarrow> redisReply option"
  h_next :: nat

definition empty_heap :: heap where
  "empty_heap = \<lparr>h_objs = \<lambda>_. None, h_next = 1\<rparr>"

definition get_obj :: "heap \<Rightarrow> nat \<Rightarrow> redisReply res" where
  "get_obj h p = (if p = 0 then Inl NullPointer
     else case h_objs h p of None \<Rightarrow> Inl UseAfterFree | Some r \<Rightarrow> Inr r)"

definition put_obj :: "heap \<Rightarrow> nat \<Rightarrow> redisReply \<Rightarrow> heap" where
  "put_obj h p r = h\<lparr>h_objs := (h_objs h)(p := Some r)\<rparr>"

definition free_obj :: "heap \<Rightarrow> nat \<Rightarrow> heap" where
  "free_obj h p = h\<lparr>h_objs := (h_objs h)(p := None)\<rparr>"

section \<open>Building replies\<close>

definition createReplyObject :: "allocator \<Rightarrow> int \<Rightarrow> heap \<Rightarrow> nat \<times> heap" where
  "createReplyObject m type h =
     (case m 48 of None \<Rightarrow> (0, h)
      | Some _ \<Rightarrow>
          (h_next h, put_obj h (h_next h) \<lparr>r_type = type, r_integer = 0, r_len = 0, r_str = None,
             r_elements = 0, r_element = None\<rparr> \<lparr>h_next := h_next h + 1\<rparr>))"

text \<open>\<open>if (task->parent)\<close>: the object becomes an element of the enclosing array.\<close>

definition attach :: "redisReadTask \<Rightarrow> redisReadTask option \<Rightarrow> nat \<Rightarrow> heap \<Rightarrow> heap res" where
  "attach task parent r h =
     (case parent of None \<Rightarrow> Inr h
      | Some q \<Rightarrow>
          bindR (get_obj h (task_obj q)) (\<lambda>par.
          bindR (assertR (r_type par = REDIS_REPLY_ARRAY)) (\<lambda>_.
          case r_element par of None \<Rightarrow> Inl NullPointer
          | Some es \<Rightarrow>
              if 0 \<le> task_idx task \<and> nat (task_idx task) < length es
              then Inr (put_obj h (task_obj q) (par\<lparr>r_element := Some (es[nat (task_idx task) := r])\<rparr>))
              else Inl OutOfBounds)))"

definition createStringObject :: "allocator \<Rightarrow> redisReadTask \<Rightarrow> redisReadTask option \<Rightarrow> string \<Rightarrow> heap \<Rightarrow>
    (nat \<times> heap) res" where
  "createStringObject m task parent str h =
     (let (r, h) = createReplyObject m (task_type task) h in
      if r = 0 then Inr (0, h)
      else case m (length str + 1) of None \<Rightarrow> Inr (0, free_obj h r)
      | Some buf \<Rightarrow>
          bindR (assertR (task_type task = REDIS_REPLY_ERROR \<or> task_type task = REDIS_REPLY_STATUS \<or>
                          task_type task = REDIS_REPLY_STRING)) (\<lambda>_.
          bindR (mem_write buf 0 str) (\<lambda>buf.
          bindR (mem_write buf (length str) [NUL]) (\<lambda>buf.
          bindR (get_obj h r) (\<lambda>obj.
          bindR (attach task parent r (put_obj h r (obj\<lparr>r_str := Some buf, r_len := length str\<rparr>))) (\<lambda>h.
          Inr (r, h)))))))"

definition createArrayObject :: "allocator \<Rightarrow> redisReadTask \<Rightarrow> redisReadTask option \<Rightarrow> int \<Rightarrow> heap \<Rightarrow>
    (nat \<times> heap) res" where
  "createArrayObject m task parent elements h =
     (let (r, h) = createReplyObject m REDIS_REPLY_ARRAY h in
      if r = 0 then Inr (0, h)
      else if elements > 0 \<and> m (nat elements * 8) = None then Inr (0, free_obj h r)
      else
        bindR (get_obj h r) (\<lambda>obj.
        bindR (attach task parent r (put_obj h r (obj\<lparr>r_elements := nat (elements mod 2 ^ 64),
          r_element := if elements > 0 then Some (replicate (nat elements) 0) else None\<rparr>))) (\<lambda>h.
        Inr (r, h))))"

definition createIntegerObject :: "allocator \<Rightarrow> redisReadTask \<Rightarrow> redisReadTask option \<Rightarrow> int \<Rightarrow> heap \<Rightarrow>
    (nat \<times> heap) res" where
  "createIntegerObject m task parent value h =
     (let (r, h) = createReplyObject m REDIS_REPLY_INTEGER h in
      if r = 0 then Inr (0, h)
      else
        bindR (get_obj h r) (\<lambda>obj.
        bindR (attach task parent r (put_obj h r (obj\<lparr>r_integer := value\<rparr>))) (\<lambda>h.
        Inr (r, h))))"

definition createNilObject :: "allocator \<Rightarrow> redisReadTask \<Rightarrow> redisReadTask option \<Rightarrow> heap \<Rightarrow> (nat \<times> heap) res" where
  "createNilObject m task parent h =
     (let (r, h) = createReplyObject m REDIS_REPLY_NIL h in
      if r = 0 then Inr (0, h)
      else bindR (attach task parent r h) (\<lambda>h. Inr (r, h)))"

section \<open>Freeing replies\<close>

text \<open>
  The recursion of \<open>freeReplyObject\<close> is as deep as the replies are nested.  The first argument is
  the stack left; a nest deeper than the number of objects ever allocated has a cycle.
\<close>

fun free_reply :: "nat \<Rightarrow> nat \<Rightarrow> heap \<Rightarrow> heap res"
  and free_replies :: "nat \<Rightarrow> nat list \<Rightarrow> heap \<Rightarrow> heap res" where
  "free_reply 0 p h = Inl Diverges"
| "free_reply (Suc n) p h =
     (if p = 0 then Inr h
      else
        bindR (get_obj h p) (\<lambda>r.
        bindR (if r_type r = REDIS_REPLY_ARRAY
               then (case r_element r of None \<Rightarrow> Inr h
                 | Some es \<Rightarrow>
                     if r_elements r \<le> length es then free_replies n (take (r_elements r) es) h
                     else Inl OutOfBounds)
               else Inr h) (\<lambda>h.
        bindR (get_obj h p) (\<lambda>_.
        Inr (free_obj h p)))))"
| "free_replies n [] h = Inr h"
| "free_replies n (p # ps) h = bindR (free_reply n p h) (free_replies n ps)"

definition freeReplyObject :: "nat \<Rightarrow> heap \<Rightarrow> heap res" where
  "freeReplyObject reply h = free_reply (Suc (h_next h)) reply h"

definition defaultFunctions :: "allocator \<Rightarrow> heap redisReplyObjectFunctions" where
  "defaultFunctions m =
     \<lparr>createString = Some (createStringObject m), createArray = Some (createArrayObject m),
      createInteger = Some (createIntegerObject m), createNil = Some (createNilObject m),
      freeObject = Some freeReplyObject\<rparr>"

section \<open>What the builders do\<close>

definition heap_ok :: "heap \<Rightarrow> bool" where
  "heap_ok h \<longleftrightarrow> 0 < h_next h \<and> (\<forall>p. h_objs h p \<noteq> None \<longrightarrow> 0 < p \<and> p < h_next h)"

definition slot :: "heap \<Rightarrow> nat \<Rightarrow> nat \<Rightarrow> bool" where
  "slot h q i \<longleftrightarrow> (\<exists>r es. h_objs h q = Some r \<and> r_type r = REDIS_REPLY_ARRAY \<and>
     r_element r = Some es \<and> i < length es)"

lemma heap_ok_empty: "heap_ok empty_heap"
  by (simp add: heap_ok_def empty_heap_def)

text \<open>A new object, stored in its place.\<close>

definition link :: "place \<Rightarrow> nat \<Rightarrow> (nat \<Rightarrow> redisReply option) \<Rightarrow> nat \<Rightarrow> redisReply option" where
  "link pl r objs = (case pl of None \<Rightarrow> objs
     | Some (q, i) \<Rightarrow> objs(q := map_option (\<lambda>par.
         par\<lparr>r_element := map_option (\<lambda>es. es[i := r]) (r_element par)\<rparr>) (objs q)))"

definition new_obj :: "heap \<Rightarrow> redisReply \<Rightarrow> place \<Rightarrow> heap" where
  "new_obj h r pl = \<lparr>h_objs = (link pl (h_next h) (h_objs h))(h_next h := Some r), h_next = h_next h + 1\<rparr>"

definition in_place :: "heap \<Rightarrow> place \<Rightarrow> bool" where
  "in_place h pl \<longleftrightarrow> (case pl of None \<Rightarrow> True | Some (q, i) \<Rightarrow> slot h q i)"

definition place_for :: "redisReadTask \<Rightarrow> redisReadTask option \<Rightarrow> place" where
  "place_for t p = map_option (\<lambda>q. (task_obj q, nat (task_idx t))) p"

definition idx_ok :: "heap \<Rightarrow> redisReadTask \<Rightarrow> redisReadTask option \<Rightarrow> bool" where
  "idx_ok h t p \<longleftrightarrow> (\<forall>q. p = Some q \<longrightarrow> 0 \<le> task_idx t \<and> slot h (task_obj q) (nat (task_idx t)))"

lemma slot_old: "heap_ok h \<Longrightarrow> slot h q i \<Longrightarrow> 0 < q \<and> q < h_next h"
  by (auto simp: heap_ok_def slot_def)

lemma attach_new:
  assumes "heap_ok h" "idx_ok h t p"
  shows "attach t p (h_next h) (put_obj h (h_next h) r\<lparr>h_next := h_next h + 1\<rparr>) = Inr (new_obj h r (place_for t p))"
proof (cases p)
  case None
  then show ?thesis by (simp add: attach_def new_obj_def put_obj_def place_for_def link_def)
next
  case (Some q)
  then have q: "0 \<le> task_idx t" "slot h (task_obj q) (nat (task_idx t))" using assms(2) by (auto simp: idx_ok_def)
  have "task_obj q \<noteq> h_next h" "task_obj q \<noteq> 0" using slot_old[OF assms(1) q(2)] by auto
  then show ?thesis
    using Some q by (auto simp: attach_def new_obj_def put_obj_def place_for_def link_def get_obj_def slot_def
        fun_upd_twist)
qed

lemma create_new: "total_allocator m \<Longrightarrow> createReplyObject m type h =
    (h_next h, put_obj h (h_next h) \<lparr>r_type = type, r_integer = 0, r_len = 0, r_str = None,
             r_elements = 0, r_element = None\<rparr> \<lparr>h_next := h_next h + 1\<rparr>)"
  using total_not_None[of m 48] by (auto simp: createReplyObject_def)

lemma get_new: "0 < h_next h \<Longrightarrow> get_obj (put_obj h (h_next h) r\<lparr>h_next := k\<rparr>) (h_next h) = Inr r"
  by (simp add: get_obj_def put_obj_def)

lemma put_new: "put_obj (put_obj h p r\<lparr>h_next := k\<rparr>) p r' = put_obj h p r'\<lparr>h_next := k\<rparr>"
  by (simp add: put_obj_def)

text \<open>The structure of a reply; \<open>es\<close> are its elements.\<close>

definition text_reply :: "int \<Rightarrow> string \<Rightarrow> redisReply" where
  "text_reply type s = \<lparr>r_type = type, r_integer = 0, r_len = length s, r_str = Some (s @ [NUL]),
     r_elements = 0, r_element = None\<rparr>"

definition array_reply :: "nat list \<Rightarrow> redisReply" where
  "array_reply es = \<lparr>r_type = REDIS_REPLY_ARRAY, r_integer = 0, r_len = 0, r_str = None,
     r_elements = length es, r_element = if es = [] then None else Some es\<rparr>"

definition integer_reply :: "int \<Rightarrow> redisReply" where
  "integer_reply v = \<lparr>r_type = REDIS_REPLY_INTEGER, r_integer = v, r_len = 0, r_str = None,
     r_elements = 0, r_element = None\<rparr>"

definition nil_reply :: redisReply where
  "nil_reply = \<lparr>r_type = REDIS_REPLY_NIL, r_integer = 0, r_len = 0, r_str = None,
     r_elements = 0, r_element = None\<rparr>"

lemma heap_ok_next: "heap_ok h \<Longrightarrow> 0 < h_next h"
  by (simp add: heap_ok_def)

lemma createString_new:
  assumes "total_allocator m" "heap_ok h" "idx_ok h t p"
    "task_type t \<in> {REDIS_REPLY_STRING, REDIS_REPLY_STATUS, REDIS_REPLY_ERROR}"
  shows "createStringObject m t p s h = Inr (h_next h, new_obj h (text_reply (task_type t) s) (place_for t p))"
proof -
  obtain buf where buf: "m (length s + 1) = Some buf" "length buf = length s + 1"
    using total_not_None[OF assms(1), of "length s + 1"] total_good[OF assms(1)]
    by (auto dest: good_allocatorD)
  obtain c buf' where c: "drop (length s) buf = c # buf'" using buf(2) by (cases "drop (length s) buf") auto
  have "length (drop (length s) buf) = 1" using buf(2) by simp
  then have "drop (length s) buf = [c]" using c by simp
  then have w: "mem_write buf 0 s = Inr (s @ [c])" "mem_write (s @ [c]) (length s) [NUL] = Inr (s @ [NUL])"
    using buf(2) by simp_all
  show ?thesis
    using assms(4) buf(1) w attach_new[OF assms(2,3)] heap_ok_next[OF assms(2)]
    by (auto simp: createStringObject_def create_new[OF assms(1)] get_new put_new text_reply_def
        simp del: mem_write_eq_Inr)
qed

lemma createArray_new:
  assumes "total_allocator m" "heap_ok h" "idx_ok h t p" "0 \<le> n" "n < 2 ^ 31"
  shows "createArrayObject m t p n h = Inr (h_next h, new_obj h (array_reply (replicate (nat n) 0)) (place_for t p))"
  using assms(4,5) total_not_None[OF assms(1), of "nat n * 8"] attach_new[OF assms(2,3)] heap_ok_next[OF assms(2)]
  by (auto simp: createArrayObject_def create_new[OF assms(1)] get_new put_new array_reply_def)

lemma createInteger_new:
  assumes "total_allocator m" "heap_ok h" "idx_ok h t p"
  shows "createIntegerObject m t p v h = Inr (h_next h, new_obj h (integer_reply v) (place_for t p))"
  using attach_new[OF assms(2,3)] heap_ok_next[OF assms(2)]
  by (simp add: createIntegerObject_def create_new[OF assms(1)] get_new put_new integer_reply_def)

lemma createNil_new:
  assumes "total_allocator m" "heap_ok h" "idx_ok h t p"
  shows "createNilObject m t p h = Inr (h_next h, new_obj h nil_reply (place_for t p))"
  using attach_new[OF assms(2,3)] heap_ok_next[OF assms(2)]
  by (simp add: createNilObject_def create_new[OF assms(1)] nil_reply_def)

lemma new_ok: "heap_ok h \<Longrightarrow> heap_ok (new_obj h r pl)"
  by (auto simp: heap_ok_def new_obj_def link_def less_Suc_eq split: option.splits)

lemma new_keeps_slots: "heap_ok h \<Longrightarrow> slot h q i \<Longrightarrow> slot (new_obj h r pl) q i"
  using slot_old[of h q i] by (auto simp: slot_def new_obj_def link_def split: option.splits)

lemma new_array_slots: "i < length es \<Longrightarrow> slot (new_obj h (array_reply es) pl) (h_next h) i"
  by (auto simp: slot_def new_obj_def array_reply_def)

text \<open>The default functions keep the contract of the parser, wherever the allocator grants every request.\<close>

lemma builders_ok:
  assumes "total_allocator m"
  shows "reply_builder (defaultFunctions m) heap_ok slot (createStringObject m) (createArrayObject m)
    (createIntegerObject m) (createNilObject m)"
proof
  fix t p t' p' s n w assume v: "same_view t p t' p'"
  have ty: "task_type t = task_type t'" using v by (simp add: same_view_def)
  have a: "attach t p r h = attach t' p' r h" for r h
    using v by (cases p; cases p') (auto simp: attach_def same_view_def cong: option.case_cong if_cong)
  show "createStringObject m t p s w = createStringObject m t' p' s w"
    "createArrayObject m t p n w = createArrayObject m t' p' n w"
    "createIntegerObject m t p n w = createIntegerObject m t' p' n w"
    "createNilObject m t p w = createNilObject m t' p' w"
    unfolding createStringObject_def createArrayObject_def createIntegerObject_def createNilObject_def a ty
    by (rule refl)+
next
  fix w and t :: redisReadTask and p :: "redisReadTask option" and s n
  assume ok: "heap_ok w" and p: "\<And>q. p = Some q \<Longrightarrow> 0 \<le> task_idx t \<and> slot w (task_obj q) (nat (task_idx t))"
  have i: "idx_ok w t p" using p by (simp add: idx_ok_def)
  note nz = heap_ok_next[OF ok] and new = new_ok[OF ok] new_keeps_slots[OF ok]
  show "\<exists>obj w'. createIntegerObject m t p n w = Inr (obj, w') \<and> obj \<noteq> 0 \<and> heap_ok w' \<and> (\<forall>q i. slot w q i \<longrightarrow> slot w' q i)"
    using createInteger_new[OF assms ok i] nz new by auto
  show "\<exists>obj w'. createNilObject m t p w = Inr (obj, w') \<and> obj \<noteq> 0 \<and> heap_ok w' \<and> (\<forall>q i. slot w q i \<longrightarrow> slot w' q i)"
    using createNil_new[OF assms ok i] nz new by auto
  show "\<exists>obj w'. createStringObject m t p s w = Inr (obj, w') \<and> obj \<noteq> 0 \<and> heap_ok w' \<and> (\<forall>q i. slot w q i \<longrightarrow> slot w' q i)"
    if "task_type t \<in> {REDIS_REPLY_STRING, REDIS_REPLY_STATUS, REDIS_REPLY_ERROR}"
    using createString_new[OF assms ok i that] nz new by auto
  show "\<exists>obj w'. createArrayObject m t p n w = Inr (obj, w') \<and> obj \<noteq> 0 \<and> heap_ok w' \<and> (\<forall>q i. slot w q i \<longrightarrow> slot w' q i) \<and>
      (\<forall>i < nat n. slot w' obj i)" if "0 \<le> n" "n < 2 ^ 31"
    using createArray_new[OF assms ok i that] nz new new_array_slots[of _ "replicate (nat n) 0" w] by auto
qed (simp_all add: defaultFunctions_def)

text \<open>How \<open>build\<close> lays a reply out: the objects in preorder from an address on.\<close>

fun cnt :: "resp \<Rightarrow> nat" where
  "cnt (RArray vs) = 1 + sum_list (map cnt vs)"
| "cnt _ = 1"

fun addrs :: "nat \<Rightarrow> resp list \<Rightarrow> nat list" where
  "addrs a [] = []"
| "addrs a (v # vs) = a # addrs (a + cnt v) vs"

lemma length_addrs [simp]: "length (addrs a vs) = length vs"
  by (induction vs arbitrary: a) simp_all

fun node :: "nat \<Rightarrow> resp \<Rightarrow> redisReply" where
  "node a (RString s) = text_reply REDIS_REPLY_STRING s"
| "node a (RStatus s) = text_reply REDIS_REPLY_STATUS s"
| "node a (RError s) = text_reply REDIS_REPLY_ERROR s"
| "node a (RInteger v) = integer_reply v"
| "node a RNil = nil_reply"
| "node a (RArray vs) = array_reply (addrs (a + 1) vs)"

fun laid :: "heap \<Rightarrow> nat \<Rightarrow> resp \<Rightarrow> bool" and laids :: "heap \<Rightarrow> nat \<Rightarrow> resp list \<Rightarrow> bool" where
  "laid h a (RArray vs) = (h_objs h a = Some (node a (RArray vs)) \<and> laids h (a + 1) vs)"
| "laid h a v = (h_objs h a = Some (node a v))"
| "laids h a [] = True"
| "laids h a (v # vs) = (laid h a v \<and> laids h (a + cnt v) vs)"

lemma cnt_pos [simp]: "0 < cnt v"
  by (cases v) simp_all

lemma laid_frame:
  "(\<And>q. a \<le> q \<Longrightarrow> q < a + cnt v \<Longrightarrow> h_objs h' q = h_objs h q) \<Longrightarrow> laid h a v \<Longrightarrow> laid h' a v"
  "(\<And>q. a \<le> q \<Longrightarrow> q < a + sum_list (map cnt vs) \<Longrightarrow> h_objs h' q = h_objs h q) \<Longrightarrow> laids h a vs \<Longrightarrow> laids h' a vs"
  by (induction h a v and h a vs rule: laid_laids.induct) auto

lemma view_idx: "in_place h pl \<Longrightarrow> idx_ok h (view_task type pl) (view_parent pl)"
  "place_for (view_task type pl) (view_parent pl) = pl" "task_type (view_task type pl) = type"
  by (auto simp: in_place_def idx_ok_def view_task_def view_parent_def place_for_def split: option.splits)

lemma link_old: "q < h_next h \<Longrightarrow> h_objs (new_obj h r pl) q = link pl (h_next h) (h_objs h) q"
  "h_objs (new_obj h r pl) (h_next h) = Some r" "h_next (new_obj h r pl) = h_next h + 1"
  by (simp_all add: new_obj_def)

text \<open>What one \<open>build\<close> does to the heap.\<close>

definition builds :: "allocator \<Rightarrow> resp \<Rightarrow> bool" where
  "builds m v \<longleftrightarrow> (\<forall>h pl. heap_ok h \<longrightarrow> in_place h pl \<longrightarrow>
     (\<exists>h'. build (defaultFunctions m) pl v h = Inr (h_next h, h') \<and> heap_ok h' \<and> h_next h' = h_next h + cnt v \<and>
        laid h' (h_next h) v \<and> (\<forall>q < h_next h. h_objs h' q = link pl (h_next h) (h_objs h) q)))"

lemma builds_leaf:
  assumes "total_allocator m" "\<not> (\<exists>vs. v = RArray vs)"
  shows "builds m v"
  unfolding builds_def
proof (intro allI impI)
  fix h pl assume ok: "heap_ok h" and pl: "in_place h pl"
  note i = view_idx(1)[OF pl]
  have "build (defaultFunctions m) pl v h = Inr (h_next h, new_obj h (node (h_next h) v) pl)"
    using assms(2) createString_new[OF assms(1) ok i] createInteger_new[OF assms(1) ok i] createNil_new[OF assms(1) ok i]
    by (cases v) (simp_all add: defaultFunctions_def view_idx(2,3))
  moreover have "laid (new_obj h (node (h_next h) v) pl) (h_next h) v" "cnt v = 1"
    using assms(2) by (cases v; simp add: link_old)+
  ultimately show "\<exists>h'. build (defaultFunctions m) pl v h = Inr (h_next h, h') \<and> heap_ok h' \<and>
      h_next h' = h_next h + cnt v \<and> laid h' (h_next h) v \<and>
      (\<forall>q < h_next h. h_objs h' q = link pl (h_next h) (h_objs h) q)"
    using new_ok[OF ok] link_old by auto
qed

lemma builds_elems:
  assumes "\<And>v. v \<in> set vs \<Longrightarrow> builds m v"
  shows "heap_ok h \<Longrightarrow> h_objs h obj = Some (array_reply es) \<Longrightarrow> i + length vs = length es \<Longrightarrow>
    \<exists>h'. build_elems (defaultFunctions m) obj i vs h = Inr h' \<and> heap_ok h' \<and>
      h_next h' = h_next h + sum_list (map cnt vs) \<and> laids h' (h_next h) vs \<and>
      (\<forall>q < h_next h. h_objs h' q = ((h_objs h)(obj := Some (array_reply (take i es @ addrs (h_next h) vs)))) q)"
  using assms
proof (induction vs arbitrary: h i es)
  case Nil
  then show ?case by auto
next
  case (Cons v vs)
  let ?a = "h_next h"
  have old: "obj < ?a" using Cons.prems(1,2) by (auto simp: heap_ok_def)
  have ne: "es \<noteq> []" "i < length es" using Cons.prems(3) by auto
  then have "in_place h (Some (obj, i))" using Cons.prems(2) by (simp add: in_place_def slot_def array_reply_def)
  then obtain h1 where h1: "build (defaultFunctions m) (Some (obj, i)) v h = Inr (?a, h1)" "heap_ok h1"
    "h_next h1 = ?a + cnt v" "laid h1 ?a v"
    "\<And>q. q < ?a \<Longrightarrow> h_objs h1 q = link (Some (obj, i)) ?a (h_objs h) q"
    using Cons.prems(1) Cons.prems(4)[of v] unfolding builds_def list.set_intros by (metis list.set_intros(1))
  have linked: "link (Some (obj, i)) ?a (h_objs h) = (h_objs h)(obj := Some (array_reply (es[i := ?a])))"
    using Cons.prems(2) ne by (simp add: link_def array_reply_def)
  have obj1: "h_objs h1 obj = Some (array_reply (es[i := ?a]))" using h1(5)[OF old] linked by simp
  obtain h2 where h2: "build_elems (defaultFunctions m) obj (i + 1) vs h1 = Inr h2" "heap_ok h2"
    "h_next h2 = h_next h1 + sum_list (map cnt vs)" "laids h2 (h_next h1) vs"
    "\<And>q. q < h_next h1 \<Longrightarrow> h_objs h2 q =
      ((h_objs h1)(obj := Some (array_reply (take (i + 1) (es[i := ?a]) @ addrs (h_next h1) vs)))) q"
    using Cons.IH[OF h1(2) obj1, of "i + 1"] Cons.prems(3,4) by auto
  have arr: "take (i + 1) (es[i := ?a]) @ addrs (h_next h1) vs = take i es @ addrs ?a (v # vs)"
    using ne(2) h1(3) by (simp add: take_Suc_conv_app_nth)
  have "laid h2 ?a v"
    by (rule laid_frame(1)[OF _ h1(4)]) (use h2(5) h1(3) old in auto)
  then have "laids h2 ?a (v # vs)" using h2(4) h1(3) by simp
  moreover have "\<forall>q < ?a. h_objs h2 q = ((h_objs h)(obj := Some (array_reply (take i es @ addrs ?a (v # vs))))) q"
    using h2(5) h1(3,5) linked arr by auto
  ultimately show ?case using h1(1,3) h2(1-3) by auto
qed

lemma builds_all: "total_allocator m \<Longrightarrow> resp_ok d v \<Longrightarrow> builds m v"
proof (induction v arbitrary: d)
  case (RArray vs)
  show ?case unfolding builds_def
  proof (intro allI impI)
    fix h pl assume ok: "heap_ok h" and pl: "in_place h pl"
    let ?n = "length vs" and ?a = "h_next h"
    let ?h = "new_obj h (array_reply (replicate ?n 0)) pl"
    have small: "int ?n < 2 ^ 31" and vs: "\<And>v. v \<in> set vs \<Longrightarrow> resp_ok (d - 1) v"
      using RArray.prems(2) by (auto simp: list_all_iff)
    have create: "createArrayObject m (view_task REDIS_REPLY_ARRAY pl) (view_parent pl) (int ?n) h = Inr (?a, ?h)"
      using createArray_new[OF RArray.prems(1) ok view_idx(1)[OF pl] _ small] by (simp add: view_idx(2))
    have "builds m v" if "v \<in> set vs" for v by (rule RArray.IH[OF that RArray.prems(1) vs[OF that]])
    then obtain h' where h': "build_elems (defaultFunctions m) ?a 0 vs ?h = Inr h'" "heap_ok h'"
      "h_next h' = ?a + 1 + sum_list (map cnt vs)" "laids h' (?a + 1) vs"
      "\<And>q. q < ?a + 1 \<Longrightarrow> h_objs h' q = ((h_objs ?h)(?a := Some (array_reply (addrs (?a + 1) vs)))) q"
      using builds_elems[of vs m ?h ?a "replicate ?n 0" 0] new_ok[OF ok] link_old[where h = h] by auto
    have "build (defaultFunctions m) pl (RArray vs) h = Inr (?a, h')"
      using create h'(1) by (simp add: defaultFunctions_def)
    moreover have "laid h' ?a (RArray vs)" using h'(4) h'(5)[of ?a] by simp
    moreover have "\<forall>q < ?a. h_objs h' q = link pl ?a (h_objs h) q"
      using h'(5) link_old(1)[where h = h] by auto
    ultimately show "\<exists>h'. build (defaultFunctions m) pl (RArray vs) h = Inr (?a, h') \<and> heap_ok h' \<and>
        h_next h' = ?a + cnt (RArray vs) \<and> laid h' ?a (RArray vs) \<and>
        (\<forall>q < ?a. h_objs h' q = link pl ?a (h_objs h) q)"
      using h'(2,3) by auto
  qed
qed (simp_all add: builds_leaf)

section \<open>The reply a heap object stands for\<close>

fun represents :: "heap \<Rightarrow> nat \<Rightarrow> resp \<Rightarrow> bool"
  and represents_all :: "heap \<Rightarrow> nat list \<Rightarrow> resp list \<Rightarrow> bool" where
  "represents h p (RString s) = (h_objs h p = Some (text_reply REDIS_REPLY_STRING s))"
| "represents h p (RStatus s) = (h_objs h p = Some (text_reply REDIS_REPLY_STATUS s))"
| "represents h p (RError s) = (h_objs h p = Some (text_reply REDIS_REPLY_ERROR s))"
| "represents h p (RInteger i) = (h_objs h p = Some (integer_reply i))"
| "represents h p RNil = (h_objs h p = Some nil_reply)"
| "represents h p (RArray vs) =
     (case h_objs h p of None \<Rightarrow> False
      | Some r \<Rightarrow> let es = (case r_element r of None \<Rightarrow> [] | Some es \<Rightarrow> es) in
          r = array_reply es \<and> represents_all h es vs)"
| "represents_all h [] vs = (vs = [])"
| "represents_all h (p # ps) vs = (case vs of [] \<Rightarrow> False
     | v # vs \<Rightarrow> represents h p v \<and> represents_all h ps vs)"

lemma array_reply_elems: "(case r_element (array_reply es) of None \<Rightarrow> [] | Some es \<Rightarrow> es) = es"
  by (simp add: array_reply_def)

lemma laid_represents:
  "laid h a v \<Longrightarrow> represents h a v" "laids h a vs \<Longrightarrow> represents_all h (addrs a vs) vs"
  by (induction h a v and h a vs rule: laid_laids.induct) (simp_all add: array_reply_elems)

definition erase :: "nat \<Rightarrow> nat \<Rightarrow> heap \<Rightarrow> heap" where
  "erase a n h = h\<lparr>h_objs := \<lambda>q. if a \<le> q \<and> q < a + n then None else h_objs h q\<rparr>"

lemma erase_simps: "erase a 0 h = h" "erase (a + n) k (erase a n h) = erase a (n + k) h"
  by (cases h; auto simp: erase_def fun_eq_iff)+

lemma laids_erase: "laids h (a + n) vs \<Longrightarrow> laids (erase a n h) (a + n) vs"
  by (rule laid_frame(2)) (auto simp: erase_def)

lemma free_laid:
  "laid h a v \<Longrightarrow> 0 < a \<Longrightarrow> cnt v \<le> n \<Longrightarrow> free_reply n a h = Inr (erase a (cnt v) h)"
proof (induction v arbitrary: h a n)
  case (RArray vs)
  obtain k where n: "n = Suc k" "sum_list (map cnt vs) \<le> k" using RArray.prems(3) by (cases n) auto
  have elems: "laids h b ws \<Longrightarrow> 0 < b \<Longrightarrow> set ws \<subseteq> set vs \<Longrightarrow> sum_list (map cnt ws) \<le> k \<Longrightarrow>
      free_replies k (addrs b ws) h = Inr (erase b (sum_list (map cnt ws)) h)" for h b ws
  proof (induction ws arbitrary: h b)
    case (Cons w ws)
    then have "free_reply k b h = Inr (erase b (cnt w) h)" using RArray.IH[of w h b k] by auto
    moreover have "laids (erase b (cnt w) h) (b + cnt w) ws" using Cons.prems(1) by (simp add: laids_erase)
    ultimately show ?case using Cons by (simp add: erase_simps)
  qed (simp add: erase_simps)
  have node: "h_objs h a = Some (array_reply (addrs (a + 1) vs))" "laids h (a + 1) vs"
    using RArray.prems(1) by simp_all
  let ?k = "sum_list (map cnt vs)" and ?es = "addrs (a + 1) vs"
  have sub: "(if r_type (array_reply ?es) = REDIS_REPLY_ARRAY
      then (case r_element (array_reply ?es) of None \<Rightarrow> Inr h
        | Some es \<Rightarrow> if r_elements (array_reply ?es) \<le> length es
            then free_replies k (take (r_elements (array_reply ?es)) es) h else Inl OutOfBounds)
      else Inr h) = Inr (erase (a + 1) ?k h)"
    using elems[OF node(2)] n(2) by (cases vs) (simp_all add: array_reply_def erase_simps)
  have "free_obj (erase (a + 1) ?k h) a = erase a (cnt (RArray vs)) h"
    by (auto simp: free_obj_def erase_def fun_eq_iff)
  moreover have get: "get_obj h a = Inr (array_reply ?es)" "get_obj (erase (a + 1) ?k h) a = Inr (array_reply ?es)"
    using node(1) RArray.prems(2) by (simp_all add: get_obj_def erase_def)
  ultimately show ?case
    unfolding n(1) free_reply.simps(2) get(1) bindR_simps sub get(2) using RArray.prems(2) by simp
qed (auto simp: get_obj_def free_obj_def erase_def text_reply_def integer_reply_def nil_reply_def
    fun_eq_iff gr0_conv_Suc dest!: Suc_le_D)

text \<open>A reply that was built, and is then freed, leaves the heap as it was.\<close>

lemma build_then_free:
  assumes "total_allocator m" "heap_ok h" "resp_ok d v" "build (defaultFunctions m) None v h = Inr (obj, h')"
  shows "represents h' obj v" "\<exists>h''. freeReplyObject obj h' = Inr h'' \<and> h_objs h'' = h_objs h"
proof -
  have none: "in_place h None" by (simp add: in_place_def)
  obtain h1 where h1: "build (defaultFunctions m) None v h = Inr (h_next h, h1)" "heap_ok h1"
    "h_next h1 = h_next h + cnt v" "laid h1 (h_next h) v" "\<forall>q < h_next h. h_objs h1 q = link None (h_next h) (h_objs h) q"
    using builds_all[OF assms(1,3)] assms(2) none unfolding builds_def by blast
  then have h': "obj = h_next h" "h' = h1" using assms(4) by simp_all
  show "represents h' obj v" using laid_represents(1)[OF h1(4)] h' by simp
  have "freeReplyObject obj h' = Inr (erase obj (cnt v) h')"
    unfolding freeReplyObject_def using h1(3,4) h' heap_ok_next[OF assms(2)] by (intro free_laid) simp_all
  moreover have "h_objs (erase obj (cnt v) h') = h_objs h"
  proof
    fix q
    show "h_objs (erase obj (cnt v) h') q = h_objs h q"
    proof (cases "q < h_next h")
      case True
      then show ?thesis using h1(5) h' by (simp add: erase_def link_def)
    next
      case False
      then have "h_objs h q = None" using assms(2) by (cases "h_objs h q") (auto simp: heap_ok_def)
      moreover have "q < h_next h + cnt v \<or> h_objs h1 q = None"
        using h1(2,3) by (cases "h_objs h1 q") (auto simp: heap_ok_def)
      ultimately have "h_objs h q = None" "q < h_next h + cnt v \<or> h_objs h1 q = None" by blast+
      then show ?thesis using False h' by (auto simp: erase_def)
    qed
  qed
  ultimately show "\<exists>h''. freeReplyObject obj h' = Inr h'' \<and> h_objs h'' = h_objs h" by blast
qed

text \<open>Any allocator, with the requests it refuses granted.\<close>

definition granted :: "allocator \<Rightarrow> allocator" where
  "granted m = (\<lambda>n. case m n of None \<Rightarrow> Some (replicate n NUL) | Some b \<Rightarrow> Some (if length b = n then b else replicate n NUL))"

lemma granted_total [simp]: "total_allocator (granted m)"
  by (auto simp: granted_def total_allocator_def good_allocator_def split: option.splits)

lemma granted_id: "total_allocator m \<Longrightarrow> granted m = m"
  by (auto simp: granted_def total_allocator_def good_allocator_def fun_eq_iff split: option.splits)

interpretation default: reply_builder "defaultFunctions (granted m)" heap_ok slot
    "createStringObject (granted m)" "createArrayObject (granted m)"
    "createIntegerObject (granted m)" "createNilObject (granted m)" for m
  by (rule builders_ok) simp

section \<open>Parsing and freeing a reply\<close>

text \<open>C11: a server's reply is read back as the heap object that represents it, the bytes behind it
  stay unread, and freeing the object restores the heap.\<close>

theorem reply_roundtrip:
  assumes "total_allocator m" "idle r" "rd_fn r = Some (defaultFunctions m)" "heap_ok h"
    "rd_input r = ser v @ rest" "resp_ok 8 v"
  shows "\<exists>obj h' r'. redisReaderGetReply r h = Inr (REDIS_OK, obj, r', h') \<and> represents h' obj v \<and>
    idle r' \<and> rd_input r' = rest \<and> (\<exists>h''. freeReplyObject obj h' = Inr h'' \<and> h_objs h'' = h_objs h)"
proof -
  obtain obj h' r' where "build (defaultFunctions m) None v h = Inr (obj, h')"
    "redisReaderGetReply r h = Inr (REDIS_OK, obj, r', h')" "idle r'" "rd_input r' = rest"
    using default.get_reply[of r m h v rest] assms(2-6) granted_id[OF assms(1)] by auto
  then show ?thesis using build_then_free[OF assms(1,4,6)] by blast
qed

definition sample_reply :: resp where
  "sample_reply = RArray [RInteger (- 7), RString [NUL, CHR ''a''], RArray [RNil, RStatus ''OK'']]"

definition sample_reader :: "heap redisReader" where
  "sample_reader = (let inp = ser sample_reply @ ''+x'' in
     \<lparr>rd_err = 0, rd_errstr = [], rd_buf = Some \<lparr>sds_type = SDS_TYPE_8, sds_len = length inp,
        sds_alloc = length inp, sds_buf = inp @ [NUL]\<rparr>, rd_pos = 0, rd_len = length inp,
      rd_maxbuf = REDIS_READER_MAX_BUF, rd_rstack = replicate 9 zero_task, rd_ridx = - 1, rd_reply = 0,
      rd_fn = Some (defaultFunctions zero_alloc), rd_privdata = 0\<rparr>)"

lemma sample_length: "length (ser sample_reply @ ''+x'') = 33"
  by code_simp

lemma sample_idle: "idle sample_reader"
  using sample_length
  by (simp add: idle_def sample_reader_def Let_def wf_sds_def sdsalloc_def sdslen_def hdr_bits_def nth_append)

lemma sample_input: "rd_input sample_reader = ser sample_reply @ ''+x''"
  by (simp add: rd_input_def rd_bytes_def sample_reader_def Let_def)

lemma sample_ok: "resp_ok 8 sample_reply"
  by (simp add: sample_reply_def)

theorem reply_roundtrip_witness:
  "\<exists>obj h' r'. redisReaderGetReply sample_reader empty_heap = Inr (REDIS_OK, obj, r', h') \<and>
     represents h' obj sample_reply \<and> idle r' \<and> rd_input r' = ''+x'' \<and>
     (\<exists>h''. freeReplyObject obj h' = Inr h'' \<and> h_objs h'' = h_objs empty_heap)"
  by (rule reply_roundtrip[OF total_zero_alloc sample_idle _ heap_ok_empty sample_input sample_ok])
    (simp add: sample_reader_def Let_def)

end
