(* ===== verification/Command.thy ===== *)
theory Command
  imports Reader
begin

text \<open>
  Commands written in the Redis protocol (src/redis/hiredis.c): the three formatting functions.
  A command is a block of bytes; the position in it is a C \<open>int\<close>.  A variadic argument is a value of
  \<open>va\<close>; what \<open>vsnprintf\<close> prints for a numeric conversion is a parameter of the model.
\<close>

section \<open>Sizes\<close>

function count_loop :: "nat \<Rightarrow> nat \<Rightarrow> nat" where
  "count_loop v result =
     (if v < 10 then result
      else if v < 100 then result + 1
      else if v < 1000 then result + 2
      else if v < 10000 then result + 3
      else count_loop (v div 10000) (result + 4))"
  by pat_completeness auto
termination
  by (relation "measure fst") auto

declare count_loop.simps [simp del]

definition countDigits :: "nat \<Rightarrow> nat" where
  "countDigits v = count_loop v 1"

definition bulklen :: "nat \<Rightarrow> nat" where
  "bulklen len = size_t (1 + countDigits len + 2 + len + 2)"

text \<open>The \<open>int\<close> argument of \<open>countDigits\<close> is widened to 64 bits.\<close>

definition header_len :: "int \<Rightarrow> int" where
  "header_len argc = 1 + int (countDigits (nat (argc mod 2 ^ 64))) + 2"

section \<open>Writing a command\<close>

text \<open>What \<open>sprintf\<close> writes for \<open>%d\<close> and \<open>%zu\<close>.\<close>

definition fmt_d :: "int \<Rightarrow> string" where
  "fmt_d v = (if v < 0 then CHR ''-'' # dec (nat (- v)) else dec (nat v))"

definition cmd_write :: "char list \<Rightarrow> int \<Rightarrow> char list \<Rightarrow> char list res" where
  "cmd_write buf pos xs = (if pos < 0 then Inl OutOfBounds else mem_write buf (nat pos) xs)"

text \<open>One argument of \<open>len\<close> bytes at \<open>src\<close>.\<close>

definition put_bulk :: "char list \<Rightarrow> int \<Rightarrow> char list \<Rightarrow> nat \<Rightarrow> (char list \<times> int) res" where
  "put_bulk buf pos src len =
     (let hdr = CHR ''$'' # dec len @ crlf in
      bindR (cmd_write buf pos (cstr hdr)) (\<lambda>buf.
      let pos = to_int (pos + int (length hdr)) in
      bindR (mem_read src 0 len) (\<lambda>xs.
      bindR (cmd_write buf pos xs) (\<lambda>buf.
      let pos = to_int (pos + int len) in
      bindR (cmd_write buf pos [CHR 0x0D]) (\<lambda>buf.
      let pos = to_int (pos + 1) in
      bindR (cmd_write buf pos [CHR 0x0A]) (\<lambda>buf.
      Inr (buf, to_int (pos + 1))))))))"

fun put_bulks :: "char list \<Rightarrow> int \<Rightarrow> (char list \<times> nat) list \<Rightarrow> (char list \<times> int) res" where
  "put_bulks buf pos [] = Inr (buf, pos)"
| "put_bulks buf pos ((src, len) # items) =
     bindR (put_bulk buf pos src len) (\<lambda>(buf, pos). put_bulks buf pos items)"

definition write_command :: "allocator \<Rightarrow> int \<Rightarrow> int \<Rightarrow> (char list \<times> nat) list \<Rightarrow> char list res" where
  "write_command m totlen argc items =
     (case m (nat (to_int (totlen + 1) mod 2 ^ 64)) of None \<Rightarrow> Inl OutOfMemory
      | Some cmd \<Rightarrow>
          let hdr = CHR ''*'' # fmt_d argc @ crlf in
          bindR (cmd_write cmd 0 (cstr hdr)) (\<lambda>cmd.
          bindR (put_bulks cmd (int (length hdr)) items) (\<lambda>(cmd, pos).
          bindR (assertR (pos = totlen)) (\<lambda>_.
          cmd_write cmd pos [NUL]))))"

text \<open>The return value and \<open>*target\<close>; where memory runs out the code returns -1.\<close>

type_synonym formatted = "int \<times> char list option"

definition or_oom :: "formatted res \<Rightarrow> formatted res" where
  "or_oom r = (case r of Inl OutOfMemory \<Rightarrow> Inr (- 1, None) | _ \<Rightarrow> r)"

section \<open>Argument vectors\<close>

text \<open>\<open>argv\<close> holds \<open>argc\<close> pointers; without \<open>argvlen\<close> they point to C strings.\<close>

definition arg_len :: "char list list \<Rightarrow> nat list option \<Rightarrow> nat \<Rightarrow> nat res" where
  "arg_len argv argvlen j =
     (case argvlen of
        Some ls \<Rightarrow> if j < length ls then Inr (ls ! j) else Inl OutOfBounds
      | None \<Rightarrow> if j < length argv then c_strlen (argv ! j) else Inl OutOfBounds)"

fun arg_items :: "char list list \<Rightarrow> nat list option \<Rightarrow> nat list \<Rightarrow> (char list \<times> nat) list res" where
  "arg_items argv argvlen [] = Inr []"
| "arg_items argv argvlen (j # js) =
     bindR (arg_len argv argvlen j) (\<lambda>len.
     if j < length argv
     then bindR (arg_items argv argvlen js) (\<lambda>items. Inr ((argv ! j, len) # items))
     else Inl OutOfBounds)"

definition add_bulklen :: "int \<Rightarrow> nat \<Rightarrow> int" where
  "add_bulklen totlen len = to_int (totlen + int (bulklen len))"

definition redisFormatCommandArgv :: "allocator \<Rightarrow> int \<Rightarrow> char list list \<Rightarrow> nat list option \<Rightarrow> formatted res" where
  "redisFormatCommandArgv m argc argv argvlen =
     bindR (arg_items argv argvlen [0..<nat argc]) (\<lambda>items.
     let totlen = foldl add_bulklen (header_len argc) (map snd items) in
     or_oom (bindR (write_command m totlen argc items) (\<lambda>cmd. Inr (totlen, Some cmd))))"

text \<open>The variant that builds a dynamic string checks only its first two appends for NULL.\<close>

fun sds_bulks :: "allocator \<Rightarrow> sds res \<Rightarrow> (char list \<times> nat) list \<Rightarrow> sds res" where
  "sds_bulks m cmd [] = cmd"
| "sds_bulks m cmd ((src, len) # items) =
     sds_bulks m
       (bind_unchecked (bind_unchecked (bind_unchecked cmd
          (\<lambda>s. sdscatfmt m s (''$%u'' @ crlf) [VaULL len]))
          (\<lambda>s. sdscatlen m s src len))
          (\<lambda>s. sdscatlen m s (cstr crlf) 2)) items"

definition redisFormatSdsCommandArgv :: "allocator \<Rightarrow> int \<Rightarrow> char list list \<Rightarrow> nat list option \<Rightarrow>
    (int \<times> sds option) res" where
  "redisFormatSdsCommandArgv m argc argv argvlen =
     bindR (arg_items argv argvlen [0..<nat argc]) (\<lambda>items.
     let totlen = foldl (\<lambda>t len. size_t (t + bulklen len)) (nat (header_len argc)) (map snd items) in
     case bindR (sdsempty m) (\<lambda>cmd. sdsMakeRoomFor m cmd totlen) of
       Inl OutOfMemory \<Rightarrow> Inr (- 1, None)
     | Inl e \<Rightarrow> Inl e
     | Inr cmd \<Rightarrow>
         bind_unchecked (sds_bulks m (sdscatfmt m cmd (''*%i'' @ crlf) [VaInt argc]) items) (\<lambda>cmd.
         bindR (assertR (sdslen cmd = totlen)) (\<lambda>_.
         Inr (to_int (int totlen), Some cmd))))"

section \<open>Format strings\<close>

text \<open>\<open>strchr\<close> also finds the terminator of its string, the head of an empty suffix here.\<close>

definition in_chars :: "string \<Rightarrow> string \<Rightarrow> bool" where
  "in_chars s p = (case p of [] \<Rightarrow> True | c # _ \<Rightarrow> c \<in> set s)"

definition in_chars_nz :: "string \<Rightarrow> string \<Rightarrow> bool" where
  "in_chars_nz s p = (case p of [] \<Rightarrow> False | c # _ \<Rightarrow> c \<in> set s)"

definition skip_spec :: "string \<Rightarrow> string" where
  "skip_spec p =
     (let p = dropWhile is_digit (dropWhile (\<lambda>c. c \<in> set ''#0-+ '') p) in
      case p of [] \<Rightarrow> [] | c # p' \<Rightarrow> if c = CHR ''.'' then dropWhile is_digit p' else p)"

text \<open>The suffix at the conversion character and the arguments left, or \<open>None\<close> for \<open>fmt_invalid\<close>.\<close>

definition take_int :: "va list \<Rightarrow> va list res" where
  "take_int args = (case args of VaInt _ # as \<Rightarrow> Inr as | VaUInt _ # as \<Rightarrow> Inr as | _ \<Rightarrow> Inl BadVarArg)"

definition take_long :: "va list \<Rightarrow> va list res" where
  "take_long args = (case args of VaLL _ # as \<Rightarrow> Inr as | VaULL _ # as \<Rightarrow> Inr as | _ \<Rightarrow> Inl BadVarArg)"

definition take_double :: "va list \<Rightarrow> va list res" where
  "take_double args = (case args of VaDouble # as \<Rightarrow> Inr as | _ \<Rightarrow> Inl BadVarArg)"

definition intfmts :: string where
  "intfmts = ''diouxX''"

definition conversion :: "string \<Rightarrow> va list \<Rightarrow> (string \<times> va list) option res" where
  "conversion p args =
     (if in_chars intfmts p then bindR (take_int args) (\<lambda>as. Inr (Some (p, as)))
      else if in_chars ''eEfFgGaA'' p then bindR (take_double args) (\<lambda>as. Inr (Some (p, as)))
      else if take 2 p = ''hh'' then
        (if in_chars_nz intfmts (drop 2 p) then bindR (take_int args) (\<lambda>as. Inr (Some (drop 2 p, as))) else Inr None)
      else if take 1 p = ''h'' then
        (if in_chars_nz intfmts (drop 1 p) then bindR (take_int args) (\<lambda>as. Inr (Some (drop 1 p, as))) else Inr None)
      else if take 2 p = ''ll'' then
        (if in_chars_nz intfmts (drop 2 p) then bindR (take_long args) (\<lambda>as. Inr (Some (drop 2 p, as))) else Inr None)
      else if take 1 p = ''l'' then
        (if in_chars_nz intfmts (drop 1 p) then bindR (take_long args) (\<lambda>as. Inr (Some (drop 1 p, as))) else Inr None)
      else Inr None)"

text \<open>
  A conversion: \<open>fs\<close> is the format behind the \<open>%\<close>.  \<open>None\<close> is \<open>format_err\<close>; else the argument
  built so far, the rest of the format (\<open>None\<close> behind the terminator), and the arguments left.
  A numeric conversion of 14 characters or more consumes its argument and prints nothing.
\<close>

definition format_number :: "allocator \<Rightarrow> (string \<Rightarrow> va list \<Rightarrow> string) \<Rightarrow> string \<Rightarrow> va list \<Rightarrow> sds \<Rightarrow>
    (sds \<times> string option \<times> va list) option res" where
  "format_number m pf fs args cur =
     bindR (conversion (skip_spec fs) args) (\<lambda>conv.
     case conv of None \<Rightarrow> Inr None
     | Some (p, as) \<Rightarrow>
         let l = length fs - length p + 2 in
         if l < 14 then
           bindR (sdscatvprintf m cur (min l (length fs + 1)) (pf (take l (CHR ''%'' # fs)) args)) (\<lambda>cur.
           Inr (Some (cur, (case p of [] \<Rightarrow> None | _ # p' \<Rightarrow> Some p'), as)))
         else Inr (Some (cur, Some (tl fs), as)))"

definition format_arg :: "allocator \<Rightarrow> (string \<Rightarrow> va list \<Rightarrow> string) \<Rightarrow> string \<Rightarrow> va list \<Rightarrow> sds \<Rightarrow>
    (sds \<times> string option \<times> va list) option res" where
  "format_arg m pf fs args cur =
     (if take 1 fs = ''s'' then
        (case args of
           VaStr arg # as \<Rightarrow>
             bindR (c_strlen arg) (\<lambda>sz.
             bindR (if 0 < sz then sdscatlen m cur arg sz else Inr cur) (\<lambda>cur.
             Inr (Some (cur, Some (tl fs), as))))
         | _ \<Rightarrow> Inl BadVarArg)
      else if take 1 fs = ''b'' then
        (case args of
           VaStr arg # VaULL sz # as \<Rightarrow>
             bindR (if 0 < sz then sdscatlen m cur arg sz else Inr cur) (\<lambda>cur.
             Inr (Some (cur, Some (tl fs), as)))
         | _ \<Rightarrow> Inl BadVarArg)
      else if take 1 fs = ''%'' then
        bindR (sdscat m cur (cstr ''%'')) (\<lambda>cur. Inr (Some (cur, Some (tl fs), args)))
      else format_number m pf fs args cur)"

definition push_arg :: "allocator \<Rightarrow> sds \<Rightarrow> sds list \<Rightarrow> int \<Rightarrow> (sds list \<times> int) res" where
  "push_arg m cur argv totlen =
     (case m (8 * (length argv + 1)) of None \<Rightarrow> Inl OutOfMemory
      | Some _ \<Rightarrow> Inr (argv @ [cur], add_bulklen totlen (sdslen cur)))"

lemma length_skip_spec: "length (skip_spec p) \<le> length p"
proof -
  have "length (dropWhile Q (dropWhile P p)) \<le> length p" for P Q :: "char \<Rightarrow> bool"
    by (meson length_dropWhile_le order_trans)
  moreover have "length (dropWhile is_digit p') \<le> length p'" for p' by (rule length_dropWhile_le)
  ultimately show ?thesis unfolding skip_spec_def Let_def
    by (auto split: list.splits) (metis (no_types, lifting) Suc_leD length_Cons order_trans)+
qed

lemma conversion_shorter: "conversion p args = Inr (Some (p', as)) \<Longrightarrow> length p' \<le> length p"
  by (auto simp: conversion_def bindR_eq_Inr split: if_splits)

lemma format_number_shorter:
  assumes "format_number m pf fs args cur = Inr (Some (cur', Some c', as))"
  shows "length c' \<le> length fs"
proof -
  obtain p as' where c: "conversion (skip_spec fs) args = Inr (Some (p, as'))"
    using assms by (auto simp: format_number_def bindR_eq_Inr split: option.splits)
  have "length p \<le> length fs" using conversion_shorter[OF c] length_skip_spec[of fs] by simp
  then show ?thesis using assms c
    by (auto simp: format_number_def bindR_eq_Inr Let_def split: if_splits list.splits)
qed

lemma format_arg_shorter:
  "format_arg m pf fs args cur = Inr (Some (cur', Some c', as)) \<Longrightarrow> length c' \<le> length fs"
  by (auto simp: format_arg_def bindR_eq_Inr split: if_splits list.splits va.splits dest: format_number_shorter)

function format_loop :: "allocator \<Rightarrow> (string \<Rightarrow> va list \<Rightarrow> string) \<Rightarrow> string \<Rightarrow> va list \<Rightarrow> sds \<Rightarrow> bool \<Rightarrow>
    sds list \<Rightarrow> int \<Rightarrow> (sds list \<times> int) option res" where
  "format_loop m pf [] args cur touched argv totlen =
     (if touched then bindR (push_arg m cur argv totlen) (\<lambda>x. Inr (Some x)) else Inr (Some (argv, totlen)))"
| "format_loop m pf (f # fs) args cur touched argv totlen =
     (if f \<noteq> CHR ''%'' \<or> fs = [] then
        (if f = CHR '' '' then
           (if touched then
              bindR (push_arg m cur argv totlen) (\<lambda>(argv, totlen).
              bindR (sdsempty m) (\<lambda>cur. format_loop m pf fs args cur False argv totlen))
            else format_loop m pf fs args cur touched argv totlen)
         else bindR (sdscatlen m cur (f # fs) 1) (\<lambda>cur. format_loop m pf fs args cur True argv totlen))
      else
        bindR (format_arg m pf fs args cur) (\<lambda>r.
        case r of None \<Rightarrow> Inr None
        | Some (cur, rest, as) \<Rightarrow>
            (case rest of None \<Rightarrow> Inl OutOfBounds
             | Some c \<Rightarrow> format_loop m pf c as cur True argv totlen)))"
  by pat_completeness auto
termination
  by (relation "measure (\<lambda>(m, pf, c, _). length c)") (auto dest: format_arg_shorter simp: less_Suc_eq_le)

declare format_loop.simps [simp del]

definition redisvFormatCommand :: "allocator \<Rightarrow> (string \<Rightarrow> va list \<Rightarrow> string) \<Rightarrow> string \<Rightarrow> va list \<Rightarrow> formatted res" where
  "redisvFormatCommand m pf format ap =
     or_oom (bindR (sdsempty m) (\<lambda>cur.
       bindR (format_loop m pf format ap cur False [] 0) (\<lambda>r.
       case r of None \<Rightarrow> Inr (- 2, None)
       | Some (argv, totlen) \<Rightarrow>
           let argc = int (length argv); totlen = to_int (totlen + header_len argc) in
           bindR (write_command m totlen argc (map (\<lambda>s. (sds_buf s, sdslen s)) argv)) (\<lambda>cmd.
           Inr (totlen, Some cmd)))))"

definition redisFormatCommand :: "allocator \<Rightarrow> (string \<Rightarrow> va list \<Rightarrow> string) \<Rightarrow> string \<Rightarrow> va list \<Rightarrow> formatted res" where
  "redisFormatCommand m pf format ap =
     bindR (redisvFormatCommand m pf format ap) (\<lambda>(len, target).
     Inr (if len < 0 then - 1 else len, target))"

section \<open>Sizes are right\<close>

lemma dec_div: "10 \<le> v \<Longrightarrow> length (dec v) = length (dec (v div 10)) + 1"
  by (subst dec_rec) simp

lemma count_loop_dec: "count_loop v r + 1 = r + length (dec v)"
proof (induction v r rule: count_loop.induct)
  case (1 v r)
  have small: "v < 10 \<Longrightarrow> length (dec v) = 1" for v by (subst dec_rec) simp
  show ?case
  proof (cases "v < 10000")
    case True
    then show ?thesis
      using small[of v] small[of "v div 10"] small[of "v div 10 div 10"] small[of "v div 10 div 10 div 10"]
        dec_div[of v] dec_div[of "v div 10"] dec_div[of "v div 10 div 10"]
      by (subst count_loop.simps) auto
  next
    case False
    have "v div 10 div 10 div 10 div 10 = v div 10000" by (simp add: div_mult2_eq[symmetric])
    then have "length (dec v) = length (dec (v div 10000)) + 4"
      using False dec_div[of v] dec_div[of "v div 10"] dec_div[of "v div 10 div 10"] dec_div[of "v div 10 div 10 div 10"]
      by simp
    then show ?thesis using 1 False by (subst count_loop.simps) auto
  qed
qed

lemma countDigits_dec: "countDigits v = length (dec v)"
  using count_loop_dec[of v 1] by (simp add: countDigits_def)

text \<open>A command as the server reads it: an array of bulk strings.\<close>

definition command :: "string list \<Rightarrow> string" where
  "command args = ser (RArray (map RString args))"

definition bulk :: "string \<Rightarrow> string" where
  "bulk s = CHR ''$'' # dec (length s) @ crlf @ s @ crlf"

lemma ser_bulk: "length s < 2 ^ 31 \<Longrightarrow> ser (RString s) = bulk s"
  by (simp add: bulk_def sdsll2str_dec)

lemma length_bulk: "length (bulk s) = 1 + countDigits (length s) + 2 + length s + 2"
  by (simp add: bulk_def countDigits_dec)

lemma bulklen_bulk: "length (bulk s) < 2 ^ 64 \<Longrightarrow> bulklen (length s) = length (bulk s)"
  unfolding bulklen_def length_bulk by simp

lemma command_bulks:
  "length args < 2 ^ 31 \<Longrightarrow> \<forall>a \<in> set args. length a < 2 ^ 31 \<Longrightarrow>
     command args = CHR ''*'' # dec (length args) @ crlf @ concat (map bulk args)"
proof -
  assume small: "length args < 2 ^ 31" "\<forall>a \<in> set args. length a < 2 ^ 31"
  have eq: "map (ser \<circ> RString) args = map bulk args" using small(2) by (simp add: ser_bulk del: ser.simps)
  show ?thesis unfolding command_def ser.simps(6) map_map eq using small(1) by (simp add: sdsll2str_dec)
qed

text \<open>A command of fewer than \<open>2 ^ 31\<close> bytes has so many arguments, each that short.\<close>

definition raw_command :: "string list \<Rightarrow> string" where
  "raw_command args = CHR ''*'' # dec (length args) @ crlf @ concat (map bulk args)"

lemma bulk_in: "a \<in> set args \<Longrightarrow> length a \<le> length (concat (map bulk args))"
  by (induction args) (auto simp: bulk_def)

lemma length_bulks: "length args \<le> length (concat (map bulk args))"
  by (induction args) (auto simp: bulk_def)

lemma raw_command_eq: "length (raw_command args) < 2 ^ 31 \<Longrightarrow> command args = raw_command args"
  using bulk_in[of _ args] length_bulks[of args] unfolding raw_command_def
  by (intro command_bulks) fastforce+

section \<open>The writing loop\<close>

lemma cmd_write_at:
  "length xs \<le> length post \<Longrightarrow>
     cmd_write (pre @ post) (int (length pre)) xs = Inr ((pre @ xs) @ drop (length xs) post)"
  by (simp add: cmd_write_def)

lemma put_bulk_at:
  assumes "len \<le> length src" "length (bulk (take len src)) < length post" "length pre + length post < 2 ^ 31 + 1"
  shows "put_bulk (pre @ post) (int (length pre)) src len =
    Inr ((pre @ bulk (take len src)) @ drop (length (bulk (take len src))) post,
      int (length (pre @ bulk (take len src))))"
proof -
  let ?hdr = "CHR ''$'' # dec len @ crlf" and ?x = "take len src"
  have x: "length ?x = len" "bulk ?x = ?hdr @ ?x @ crlf" using assms(1) by (simp_all add: bulk_def)
  have L: "length ?hdr + len + 2 < length post" using assms(2) x by simp
  have small: "length pre + length ?hdr + len + 2 < 2 ^ 31" using L assms(3) by linarith
  have post: "[NUL] @ drop (length ?hdr + 1) post = NUL # drop (length ?hdr + 1) post" by simp
  have hdr: "cmd_write (pre @ post) (int (length pre)) (cstr ?hdr) =
      Inr ((pre @ ?hdr) @ (NUL # drop (length ?hdr + 1) post))"
    using cmd_write_at[of "cstr ?hdr" post pre] L by (simp add: cstr_def)
  have rest: "NUL # drop (length ?hdr + 1) post = (NUL # drop (length ?hdr + 1) post)" ..
  define q where "q = NUL # drop (length ?hdr + 1) post"
  have q: "length q = length post - length ?hdr" "\<And>k. 0 < k \<Longrightarrow> drop k q = drop (length ?hdr + k) post"
    using L by (auto simp: q_def drop_Cons' add.commute)
  have pos: "to_int (int (length pre) + int (length ?hdr)) = int (length (pre @ ?hdr))"
    "to_int (int (length (pre @ ?hdr)) + int len) = int (length ((pre @ ?hdr) @ ?x))"
    "to_int (int (length ((pre @ ?hdr) @ ?x)) + 1) = int (length (((pre @ ?hdr) @ ?x) @ [CHR 0x0D]))"
    "to_int (int (length (((pre @ ?hdr) @ ?x) @ [CHR 0x0D])) + 1) = int (length (pre @ bulk ?x))"
    using small x by simp_all
  have body: "cmd_write ((pre @ ?hdr) @ q) (int (length (pre @ ?hdr))) ?x =
      Inr (((pre @ ?hdr) @ ?x) @ drop len q)"
    using cmd_write_at[of ?x q "pre @ ?hdr"] L q(1) x(1) by simp
  have cr: "cmd_write (((pre @ ?hdr) @ ?x) @ drop len q) (int (length ((pre @ ?hdr) @ ?x))) [CHR 0x0D] =
      Inr ((((pre @ ?hdr) @ ?x) @ [CHR 0x0D]) @ drop (len + 1) q)"
    using cmd_write_at[of "[CHR 0x0D]" "drop len q" "(pre @ ?hdr) @ ?x"] L q(1) by (simp add: add.commute)
  have lf: "cmd_write ((((pre @ ?hdr) @ ?x) @ [CHR 0x0D]) @ drop (len + 1) q)
      (int (length (((pre @ ?hdr) @ ?x) @ [CHR 0x0D]))) [CHR 0x0A] =
      Inr ((pre @ bulk ?x) @ drop (length (bulk ?x)) post)"
    using cmd_write_at[of "[CHR 0x0A]" "drop (len + 1) q" "((pre @ ?hdr) @ ?x) @ [CHR 0x0D]"] L q x
    by (simp add: add.commute add.left_commute)
  have read: "mem_read src 0 len = Inr ?x" using assms(1) by simp
  show ?thesis
    unfolding put_bulk_def Let_def hdr q_def[symmetric] bindR_simps pos read body cr lf ..
qed

abbreviation item_text :: "char list \<times> nat \<Rightarrow> string" where
  "item_text it \<equiv> take (snd it) (fst it)"

lemma put_bulks_at:
  "\<forall>it \<in> set items. snd it \<le> length (fst it) \<Longrightarrow>
   length (concat (map (\<lambda>it. bulk (item_text it)) items)) < length post \<Longrightarrow> length pre + length post < 2 ^ 31 + 1 \<Longrightarrow>
   put_bulks (pre @ post) (int (length pre)) items =
     Inr ((pre @ concat (map (\<lambda>it. bulk (item_text it)) items)) @
            drop (length (concat (map (\<lambda>it. bulk (item_text it)) items))) post,
          int (length (pre @ concat (map (\<lambda>it. bulk (item_text it)) items))))"
proof (induction items arbitrary: pre post)
  case (Cons it items)
  obtain src len where it: "it = (src, len)" by (cases it)
  let ?b = "bulk (take len src)"
  have one: "put_bulk (pre @ post) (int (length pre)) src len =
      Inr ((pre @ ?b) @ drop (length ?b) post, int (length (pre @ ?b)))"
    using Cons.prems it by (intro put_bulk_at) auto
  have "put_bulks ((pre @ ?b) @ drop (length ?b) post) (int (length (pre @ ?b))) items =
      Inr (((pre @ ?b) @ concat (map (\<lambda>it. bulk (item_text it)) items)) @
            drop (length (concat (map (\<lambda>it. bulk (item_text it)) items))) (drop (length ?b) post),
          int (length ((pre @ ?b) @ concat (map (\<lambda>it. bulk (item_text it)) items))))"
    using Cons.prems it by (intro Cons.IH) auto
  then show ?case unfolding it put_bulks.simps one bindR_simps prod.case by (simp add: add.commute)
qed simp

lemma fmt_d_nat: "fmt_d (int n) = dec n"
  by (simp add: fmt_d_def)

lemma write_command_ok:
  assumes "total_allocator m" "\<forall>it \<in> set items. snd it \<le> length (fst it)"
    "length (raw_command (map item_text items)) < 2 ^ 31 - 1"
  shows "write_command m (int (length (raw_command (map item_text items)))) (int (length items)) items =
    Inr (raw_command (map item_text items) @ [NUL])"
proof -
  let ?c = "raw_command (map item_text items)" and ?hdr = "CHR ''*'' # dec (length items) @ crlf"
  let ?body = "concat (map (\<lambda>it. bulk (item_text it)) items)"
  have c: "?c = ?hdr @ ?body" by (simp add: raw_command_def comp_def)
  have size: "nat (to_int (int (length ?c) + 1) mod 2 ^ 64) = length ?c + 1" using assms(3) by simp
  obtain cmd where cmd: "m (length ?c + 1) = Some cmd" "length cmd = length ?c + 1"
    using total_not_None[OF assms(1), of "length ?c + 1"] total_good[OF assms(1)] by (auto dest: good_allocatorD)
  define q where "q = NUL # drop (length ?hdr + 1) cmd"
  have q: "length q = length ?body + 1" using cmd(2) c by (simp add: q_def)
  have hdr: "cmd_write cmd 0 (cstr ?hdr) = Inr (?hdr @ q)"
    using cmd_write_at[of "cstr ?hdr" cmd "[]"] cmd(2) c by (simp add: cstr_def q_def)
  have "length ?hdr + length q < 2 ^ 31 + 1" using assms(3) q c by simp
  then have body: "put_bulks (?hdr @ q) (int (length ?hdr)) items =
      Inr ((?hdr @ ?body) @ drop (length ?body) q, int (length (?hdr @ ?body)))"
    using assms(2) q by (intro put_bulks_at) simp_all
  have last: "cmd_write (?c @ drop (length ?body) q) (int (length ?c)) [NUL] = Inr (?c @ [NUL])"
    using cmd_write_at[of "[NUL]" "drop (length ?body) q" ?c] q by simp
  show ?thesis
    unfolding write_command_def size cmd(1) option.case Let_def fmt_d_nat hdr bindR_simps body prod.case c[symmetric]
    using last by simp
qed

text \<open>The lengths add up.\<close>

lemma add_bulklens:
  "t + int (length (concat (map bulk xs))) < 2 ^ 31 \<Longrightarrow> 0 \<le> t \<Longrightarrow>
     foldl add_bulklen t (map length xs) = t + int (length (concat (map bulk xs)))"
proof (induction xs arbitrary: t)
  case (Cons x xs)
  have "bulklen (length x) = length (bulk x)" using Cons.prems by (intro bulklen_bulk) simp
  then have "add_bulklen t (length x) = t + int (length (bulk x))" using Cons.prems by (simp add: add_bulklen_def)
  then show ?case using Cons by simp
qed simp

lemma header_len_nat: "n < 2 ^ 64 \<Longrightarrow> header_len (int n) = int (length (CHR ''*'' # dec n @ crlf))"
  by (simp add: header_len_def countDigits_dec nat_mod_distrib)

text \<open>Argument vectors that stand for the strings \<open>args\<close>.\<close>

definition argv_for :: "char list list \<Rightarrow> nat list option \<Rightarrow> string list \<Rightarrow> bool" where
  "argv_for argv argvlen args \<longleftrightarrow> length argv = length args \<and>
     (case argvlen of
        None \<Rightarrow> list_all nul_free args \<and> argv = map cstr args
      | Some ls \<Rightarrow> ls = map length args \<and> list_all2 (\<lambda>p a. take (length a) p = a) argv args)"

lemma arg_items_ok:
  assumes "argv_for argv argvlen args"
  shows "arg_items argv argvlen [i..<length args] = Inr (map (\<lambda>j. (argv ! j, length (args ! j))) [i..<length args])"
proof -
  have len: "arg_len argv argvlen j = Inr (length (args ! j))" if "j < length args" for j
    using assms that by (auto simp: argv_for_def arg_len_def list_all_length split: option.splits)
  have key: "set js \<subseteq> {..<length args} \<Longrightarrow> arg_items argv argvlen js = Inr (map (\<lambda>j. (argv ! j, length (args ! j))) js)" for js
    using assms by (induction js) (auto simp: len argv_for_def)
  show ?thesis by (rule key) auto
qed

lemma argv_items:
  assumes "argv_for argv argvlen args"
  defines "items \<equiv> map (\<lambda>j. (argv ! j, length (args ! j))) [0..<length args]"
  shows "map item_text items = args" "map snd items = map length args" "length items = length args"
    "\<forall>it \<in> set items. snd it \<le> length (fst it)"
proof -
  have at: "take (length (args ! j)) (argv ! j) = args ! j" "length (args ! j) \<le> length (argv ! j)" if "j < length args" for j
  proof -
    show "take (length (args ! j)) (argv ! j) = args ! j"
      using assms(1) that by (auto simp: argv_for_def list_all2_conv_all_nth split: option.splits)
    then show "length (args ! j) \<le> length (argv ! j)" by (metis length_take min.absorb_iff2 min.commute nat_le_linear)
  qed
  show "map item_text items = args" using at(1) by (auto simp: items_def intro!: nth_equalityI)
  show "map snd items = map length args" by (auto simp: items_def intro!: nth_equalityI)
  show "length items = length args" "\<forall>it \<in> set items. snd it \<le> length (fst it)"
    using at(2) by (auto simp: items_def)
qed

lemma formatCommandArgv_ok:
  assumes "total_allocator m" "argv_for argv argvlen args" "length (raw_command args) < 2 ^ 31 - 1"
  shows "redisFormatCommandArgv m (int (length args)) argv argvlen =
    Inr (int (length (raw_command args)), Some (raw_command args @ [NUL]))"
proof -
  define items where "items = map (\<lambda>j. (argv ! j, length (args ! j))) [0..<length args]"
  note it = argv_items[OF assms(2), folded items_def]
  have items: "arg_items argv argvlen [0..<nat (int (length args))] = Inr items"
    using arg_items_ok[OF assms(2), of 0] by (simp add: items_def)
  have n: "length args < 2 ^ 64" using length_bulks[of args] assms(3) by (simp add: raw_command_def)
  have "foldl add_bulklen (header_len (int (length args))) (map length args) = int (length (raw_command args))"
    using add_bulklens[of "header_len (int (length args))" args] header_len_nat[OF n] assms(3)
    by (simp add: raw_command_def)
  moreover have "write_command m (int (length (raw_command args))) (int (length args)) items = Inr (raw_command args @ [NUL])"
    using write_command_ok[OF assms(1) it(4)] assms(3) it(1,3) by simp
  ultimately show ?thesis
    unfolding redisFormatCommandArgv_def items bindR_simps Let_def it(2) by (simp add: or_oom_def)
qed

section \<open>The dynamic-string variant\<close>

lemma render_count: "- (2 ^ 63) \<le> n \<Longrightarrow> n < 2 ^ 63 \<Longrightarrow> render (''*%i'' @ crlf) [VaInt n] = Some (CHR ''*'' # sdsll2str n @ crlf)"
  by (simp add: render_arg.simps)

lemma render_len: "len < 2 ^ 32 \<Longrightarrow> render (''$%u'' @ crlf) [VaULL len] = Some (CHR ''$'' # dec len @ crlf)"
  by (simp add: render_arg.simps sdsull2str_dec)

lemma sds_bulks_ok:
  assumes "total_allocator m"
  shows "succeeds cmd (\<lambda>s. wf_sds s \<and> sds_str s = pre) \<Longrightarrow> \<forall>it \<in> set items. snd it \<le> length (fst it) \<Longrightarrow>
    length pre + length (concat (map (\<lambda>it. bulk (item_text it)) items)) + 1 < 2 ^ 31 \<Longrightarrow>
    succeeds (sds_bulks m cmd items)
      (\<lambda>s. wf_sds s \<and> sds_str s = pre @ concat (map (\<lambda>it. bulk (item_text it)) items))"
proof (induction items arbitrary: cmd pre)
  case (Cons it items)
  obtain src len where it: "it = (src, len)" by (cases it)
  have len: "len \<le> length src" "length (take len src) = len" using Cons.prems(2) it by auto
  let ?x = "take len src" and ?hdr = "CHR ''$'' # dec len @ crlf"
  have fit: "length pre + length ?hdr + len + 2 + 1 < 2 ^ 31" using Cons.prems(3) it len by (simp add: bulk_def)
  have "succeeds (bind_unchecked (bind_unchecked (bind_unchecked cmd
          (\<lambda>s. sdscatfmt m s (''$%u'' @ crlf) [VaULL len]))
          (\<lambda>s. sdscatlen m s src len))
          (\<lambda>s. sdscatlen m s (cstr crlf) 2)) (\<lambda>s. wf_sds s \<and> sds_str s = ((pre @ ?hdr) @ ?x) @ crlf)"
  proof (intro succeeds_bind_unchecked)
    show "succeeds cmd (\<lambda>s. wf_sds s \<and> sds_str s = pre)" by (rule Cons.prems(1))
    show "succeeds (sdscatfmt m s (''$%u'' @ crlf) [VaULL len]) (\<lambda>s. wf_sds s \<and> sds_str s = pre @ ?hdr)"
      if "wf_sds s \<and> sds_str s = pre" for s
      using sdscatfmt_render[OF assms conjunct1[OF that] render_len] that fit length_sds_str[of s] by simp
    show "succeeds (sdscatlen m s src len) (\<lambda>s. wf_sds s \<and> sds_str s = (pre @ ?hdr) @ ?x)"
      if "wf_sds s \<and> sds_str s = pre @ ?hdr" for s
      using sdscatlen_ok[OF assms conjunct1[OF that], of len src] that fit len(1) length_sds_str[of s] by simp
    show "succeeds (sdscatlen m s (cstr crlf) 2) (\<lambda>s. wf_sds s \<and> sds_str s = ((pre @ ?hdr) @ ?x) @ crlf)"
      if "wf_sds s \<and> sds_str s = (pre @ ?hdr) @ ?x" for s
      using sdscatlen_ok[OF assms conjunct1[OF that], of 2 "cstr crlf"] that fit len length_sds_str[of s]
      by (simp add: cstr_def)
  qed
  then have "succeeds (bind_unchecked (bind_unchecked (bind_unchecked cmd
          (\<lambda>s. sdscatfmt m s (''$%u'' @ crlf) [VaULL len]))
          (\<lambda>s. sdscatlen m s src len))
          (\<lambda>s. sdscatlen m s (cstr crlf) 2)) (\<lambda>s. wf_sds s \<and> sds_str s = pre @ bulk ?x)"
    using len(2) by (simp add: bulk_def)
  from Cons.IH[OF this] show ?case using Cons.prems(2,3) it by simp
qed simp

lemma sds_totlen:
  "t + length (concat (map bulk xs)) < 2 ^ 64 \<Longrightarrow>
     foldl (\<lambda>t len. size_t (t + bulklen len)) t (map length xs) = t + length (concat (map bulk xs))"
proof (induction xs arbitrary: t)
  case (Cons x xs)
  have "bulklen (length x) = length (bulk x)" using Cons.prems by (intro bulklen_bulk) simp
  then show ?case using Cons by simp
qed simp

lemma formatSdsCommandArgv_ok:
  assumes "total_allocator m" "argv_for argv argvlen args" "length (raw_command args) < 2 ^ 31 - 1"
  shows "succeeds (redisFormatSdsCommandArgv m (int (length args)) argv argvlen)
    (\<lambda>(len, t). len = int (length (raw_command args)) \<and>
       (\<exists>s. t = Some s \<and> wf_sds s \<and> sds_str s = raw_command args))"
proof -
  define items where "items = map (\<lambda>j. (argv ! j, length (args ! j))) [0..<length args]"
  note it = argv_items[OF assms(2), folded items_def]
  let ?n = "int (length args)" and ?hdr = "CHR ''*'' # dec (length args) @ crlf" and ?c = "raw_command args"
  have items: "arg_items argv argvlen [0..<nat ?n] = Inr items"
    using arg_items_ok[OF assms(2), of 0] by (simp add: items_def)
  have n: "length args < 2 ^ 31" using length_bulks[of args] assms(3) by (simp add: raw_command_def)
  have tot: "foldl (\<lambda>t len. size_t (t + bulklen len)) (nat (header_len ?n)) (map length args) = length ?c"
    using sds_totlen[of "nat (header_len ?n)" args] header_len_nat[of "length args"] n assms(3)
    by (simp add: raw_command_def)
  have "succeeds (bindR (sdsempty m) (\<lambda>cmd. sdsMakeRoomFor m cmd (length ?c))) (\<lambda>s. wf_sds s \<and> sds_str s = [])"
  proof (rule succeeds_bind[OF sdsempty_ok[OF assms(1)]])
    fix e assume e: "wf_sds e \<and> sds_str e = []"
    have "sdslen e = 0" using e length_sds_str[of e] by simp
    then have "returns (sdsMakeRoomFor m e (length ?c)) (\<lambda>s. wf_sds s \<and> sds_str s = sds_str e \<and>
        sdslen s = sdslen e \<and> length ?c \<le> sdsavail s)"
      using e assms(1,3) by (intro sdsMakeRoomFor_str) simp_all
    from succeedsI[OF this sdsMakeRoomFor_not_oom[OF assms(1)]] show
      "succeeds (sdsMakeRoomFor m e (length ?c)) (\<lambda>s. wf_sds s \<and> sds_str s = [])"
      by (rule succeeds_mono) (use e in simp)
  qed
  then obtain e where e: "bindR (sdsempty m) (\<lambda>cmd. sdsMakeRoomFor m cmd (length ?c)) = Inr e"
    "wf_sds e" "sds_str e = []" by (auto simp: succeeds_iff)
  have "succeeds (sdscatfmt m e (''*%i'' @ crlf) [VaInt ?n]) (\<lambda>s. wf_sds s \<and> sds_str s = ?hdr)"
    using sdscatfmt_render[OF assms(1) e(2) render_count[of ?n]] e(3) length_sds_str[OF e(2)] n assms(3)
    by (simp add: sdsll2str_dec raw_command_def)
  then have "succeeds (sds_bulks m (sdscatfmt m e (''*%i'' @ crlf) [VaInt ?n]) items)
      (\<lambda>s. wf_sds s \<and> sds_str s = ?hdr @ concat (map (\<lambda>it. bulk (item_text it)) items))"
    using it(1,4) assms(3) by (intro sds_bulks_ok[OF assms(1)]) (auto simp: raw_command_def comp_def)
  moreover have "?hdr @ concat (map (\<lambda>it. bulk (item_text it)) items) = ?c"
    using it(1) by (auto simp: raw_command_def comp_def)
  ultimately obtain s where s: "sds_bulks m (sdscatfmt m e (''*%i'' @ crlf) [VaInt ?n]) items = Inr s"
    "wf_sds s" "sds_str s = ?c" by (auto simp: succeeds_iff)
  have "sdslen s = length ?c" using length_sds_str[OF s(2)] s(3) by simp
  then show ?thesis
    unfolding redisFormatSdsCommandArgv_def items bindR_simps Let_def it(2) tot e(1) sum.case s(1) bind_unchecked_Inr
    using s(2,3) assms(3) by simp
qed

section \<open>What a format string means\<close>

text \<open>
  The arguments a format stands for, for formats of literal text, \<open>%s\<close>, \<open>%b\<close> and \<open>%%\<close>: blanks
  outside the conversions separate them, and \<open>cur\<close> is the argument read so far.
\<close>

fun format_words :: "string \<Rightarrow> va list \<Rightarrow> string \<Rightarrow> bool \<Rightarrow> string list option" where
  "format_words [] args cur touched = Some (if touched then [cur] else [])"
| "format_words (f # fs) args cur touched =
     (if f \<noteq> CHR ''%'' \<or> fs = [] then
        (if f = CHR '' '' then
           (if touched then map_option ((#) cur) (format_words fs args [] False)
            else format_words fs args cur touched)
         else format_words fs args (cur @ [f]) True)
      else if hd fs = CHR ''s'' then
        (case args of VaStr p # as \<Rightarrow>
           if NUL \<in> set p then format_words (tl fs) as (cur @ takeWhile (\<lambda>c. c \<noteq> NUL) p) True else None
         | _ \<Rightarrow> None)
      else if hd fs = CHR ''b'' then
        (case args of VaStr p # VaULL n # as \<Rightarrow>
           if n \<le> length p then format_words (tl fs) as (cur @ take n p) True else None
         | _ \<Rightarrow> None)
      else if hd fs = CHR ''%'' then format_words (tl fs) args (cur @ ''%'') True
      else None)"

lemma words_grow:
  "format_words fmt args cur touched = Some ws \<Longrightarrow> touched \<Longrightarrow> ws \<noteq> [] \<and> length cur \<le> length (hd ws)"
proof (induction fmt args cur touched arbitrary: ws rule: format_words.induct)
qed (fastforce split: if_splits list.splits va.splits)+

lemma words_fit:
  "format_words fmt args cur True = Some ws \<Longrightarrow> length cur \<le> length (concat (map bulk ws))"
proof -
  assume "format_words fmt args cur True = Some ws"
  then have "ws \<noteq> []" "length cur \<le> length (hd ws)" using words_grow by blast+
  moreover have "hd ws \<in> set ws" using \<open>ws \<noteq> []\<close> by simp
  ultimately show ?thesis using bulk_in[of "hd ws" ws] by linarith
qed

lemma push_arg_ok:
  assumes "total_allocator m" "wf_sds cur" "0 \<le> tot" "tot + int (length (bulk (sds_str cur))) < 2 ^ 31"
  shows "push_arg m cur argv tot = Inr (argv @ [cur], tot + int (length (bulk (sds_str cur))))"
proof -
  have "bulklen (sdslen cur) = length (bulk (sds_str cur))"
    using bulklen_bulk[of "sds_str cur"] length_sds_str[OF assms(2)] assms(3,4) by simp
  then show ?thesis using total_not_None[OF assms(1), of "8 * (length argv + 1)"] assms(3,4)
    by (auto simp: push_arg_def add_bulklen_def)
qed

text \<open>A vector of dynamic strings, with the sum of the lengths so far.\<close>

definition collected :: "string list \<Rightarrow> (sds list \<times> int) option \<Rightarrow> bool" where
  "collected ws r \<longleftrightarrow> (\<exists>argv. r = Some (argv, int (length (concat (map bulk ws)))) \<and>
     list_all wf_sds argv \<and> map sds_str argv = ws)"

lemma format_arg_word:
  assumes "total_allocator m" "wf_sds cur" "sds_str cur = c" "hd fs \<in> {CHR ''s'', CHR ''b'', CHR ''%''}"
    "format_words (CHR ''%'' # fs) args c touched = Some ws" "fs \<noteq> []" "length (concat (map bulk ws)) < 2 ^ 31"
  shows "\<exists>cur' as x. format_arg m pf fs args cur = Inr (Some (cur', Some (tl fs), as)) \<and> wf_sds cur' \<and>
    sds_str cur' = c @ x \<and> format_words (tl fs) as (c @ x) True = Some ws"
proof -
  obtain f fs' where fs: "fs = f # fs'" using assms(6) by (cases fs) auto
  have app: "\<exists>cur'. (if 0 < n then sdscatlen m cur p n else Inr cur) = Inr cur' \<and> wf_sds cur' \<and> sds_str cur' = c @ take n p"
    if n: "n \<le> length p" and w: "format_words fs' as (c @ take n p) True = Some ws" for n p as
  proof (cases "0 < n")
    case True
    have "length c + n < 2 ^ 31" using words_fit[OF w] n assms(7) by simp
    then have "succeeds (sdscatlen m cur p n) (\<lambda>s'. wf_sds s' \<and> sds_str s' = sds_str cur @ take n p)"
      using assms(1-3) n length_sds_str[OF assms(2)] by (intro sdscatlen_ok) simp_all
    then show ?thesis using True assms(3) by (auto simp: succeeds_iff)
  qed (use assms(2,3) in simp)
  consider (s) "f = CHR ''s''" | (b) "f = CHR ''b''" | (p) "f = CHR ''%''" using assms(4) fs by auto
  then show ?thesis
  proof cases
    case s
    then obtain p as where args: "args = VaStr p # as" "NUL \<in> set p"
      "format_words fs' as (c @ takeWhile (\<lambda>c. c \<noteq> NUL) p) True = Some ws"
      using assms(5) fs by (auto split: list.splits va.splits if_splits)
    let ?n = "length (takeWhile (\<lambda>c. c \<noteq> NUL) p)"
    have n: "c_strlen p = Inr ?n" "?n \<le> length p" "take ?n p = takeWhile (\<lambda>c. c \<noteq> NUL) p"
      using length_takeWhile_NUL[OF args(2)] by (auto simp: c_strlen_def Let_def takeWhile_eq_take[symmetric])
    obtain cur' where "(if 0 < ?n then sdscatlen m cur p ?n else Inr cur) = Inr cur'" "wf_sds cur'"
      "sds_str cur' = c @ take ?n p"
      using app[OF n(2), of as] args(3) n(3) by auto
    then show ?thesis using s fs args n by (auto simp: format_arg_def)
  next
    case b
    then obtain p n as where args: "args = VaStr p # VaULL n # as" "n \<le> length p"
      "format_words fs' as (c @ take n p) True = Some ws"
      using assms(5) fs by (auto split: list.splits va.splits if_splits)
    obtain cur' where "(if 0 < n then sdscatlen m cur p n else Inr cur) = Inr cur'" "wf_sds cur'"
      "sds_str cur' = c @ take n p"
      using app[OF args(2,3)] by auto
    then show ?thesis using b fs args by (auto simp: format_arg_def)
  next
    case p
    then have w: "format_words fs' args (c @ ''%'') True = Some ws" using assms(5) fs by simp
    have "length c + 1 < 2 ^ 62" using words_fit[OF w] assms(7) by simp
    then have "succeeds (sdscat m cur (cstr ''%'')) (\<lambda>s'. wf_sds s' \<and> sds_str s' = sds_str cur @ ''%'')"
      using assms(1-3) length_sds_str[OF assms(2)] by (intro sdscat_ok) (simp_all add: nul_free_def)
    then show ?thesis using p fs w assms(3) by (auto simp: succeeds_iff format_arg_def)
  qed
qed

lemma format_loop_words:
  assumes "total_allocator m"
  shows "format_words fmt args c touched = Some ws \<Longrightarrow> wf_sds cur \<Longrightarrow> sds_str cur = c \<Longrightarrow>
    list_all wf_sds argv \<Longrightarrow> map sds_str argv = done' \<Longrightarrow>
    length (concat (map bulk (done' @ ws))) < 2 ^ 31 \<Longrightarrow>
    succeeds (format_loop m pf fmt args cur touched argv (int (length (concat (map bulk done'))))) (collected (done' @ ws))"
proof (induction "length fmt" arbitrary: fmt args c touched ws cur argv done' rule: less_induct)
  case less
  note [simp] = length_concat
  let ?tot = "int (length (concat (map bulk done')))"
  show ?case
  proof (cases fmt)
    case Nil
    then have ws: "ws = (if touched then [c] else [])" using less.prems(1) by simp
    show ?thesis
    proof (cases touched)
      case True
      then have "push_arg m cur argv ?tot = Inr (argv @ [cur], ?tot + int (length (bulk c)))"
        using push_arg_ok[OF assms less.prems(2), of ?tot argv] less.prems(3,6) ws by simp
      then show ?thesis using True Nil ws less.prems by (simp add: format_loop.simps collected_def)
    next
      case False
      then show ?thesis using Nil ws less.prems by (simp add: format_loop.simps collected_def)
    qed
  next
    case (Cons f fs)
    have shorter: "length fs < length fmt" using Cons by simp
    consider (sep) "f = CHR '' ''" touched | (blank) "f = CHR '' ''" "\<not> touched"
      | (lit) "f \<noteq> CHR '' ''" "f \<noteq> CHR ''%'' \<or> fs = []"
      | (conv) "f = CHR ''%''" "fs \<noteq> []" by blast
    then show ?thesis
    proof cases
      case sep
      then obtain ws' where ws: "format_words fs args [] False = Some ws'" "ws = c # ws'"
        using less.prems(1) Cons by auto
      have push: "push_arg m cur argv ?tot = Inr (argv @ [cur], ?tot + int (length (bulk c)))"
        using push_arg_ok[OF assms less.prems(2), of ?tot argv] less.prems(3,6) ws by simp
      obtain e where e: "sdsempty m = Inr e" "wf_sds e" "sds_str e = []"
        using sdsempty_ok[OF assms] by (auto simp: succeeds_iff)
      have "succeeds (format_loop m pf fs args e False (argv @ [cur]) (int (length (concat (map bulk (done' @ [c]))))))
          (collected ((done' @ [c]) @ ws'))"
        using less.prems e ws by (intro less.hyps[OF shorter ws(1)]) simp_all
      then show ?thesis using sep Cons push e ws by (simp add: format_loop.simps)
    next
      case blank
      then show ?thesis using less.hyps[OF shorter, of args c touched ws] less.prems Cons
        by (simp add: format_loop.simps)
    next
      case lit
      then have w: "format_words fs args (c @ [f]) True = Some ws" using less.prems(1) Cons by auto
      have "length c + 1 < 2 ^ 62" using words_fit[OF w] less.prems(6) by simp
      then have "succeeds (sdscatlen m cur (f # fs) 1) (\<lambda>s'. wf_sds s' \<and> sds_str s' = sds_str cur @ take 1 (f # fs))"
        using less.prems(2,3) length_sds_str[OF less.prems(2)] by (intro sdscatlen_ok[OF assms]) simp_all
      then obtain cur' where cur': "sdscatlen m cur (f # fs) 1 = Inr cur'" "wf_sds cur'" "sds_str cur' = c @ [f]"
        using less.prems(3) by (auto simp: succeeds_iff)
      then have "format_loop m pf fmt args cur touched argv ?tot = format_loop m pf fs args cur' True argv ?tot"
        using lit Cons by (simp add: format_loop.simps)
      then show ?thesis using less.hyps[OF shorter w cur'(2,3) less.prems(4,5,6)] by simp
    next
      case conv
      have h: "hd fs \<in> {CHR ''s'', CHR ''b'', CHR ''%''}"
        using less.prems(1) Cons conv by (auto split: if_splits)
      have fits: "length (concat (map bulk ws)) < 2 ^ 31" using less.prems(6) by simp
      obtain cur' as x where a: "format_arg m pf fs args cur = Inr (Some (cur', Some (tl fs), as))" "wf_sds cur'"
        "sds_str cur' = c @ x" "format_words (tl fs) as (c @ x) True = Some ws"
        using format_arg_word[OF assms less.prems(2,3) h _ conv(2) fits] less.prems(1) Cons conv(1) by blast
      then have "format_loop m pf fmt args cur touched argv ?tot = format_loop m pf (tl fs) as cur' True argv ?tot"
        using conv Cons by (simp add: format_loop.simps)
      moreover have "length (tl fs) < length fmt" using Cons by simp
      ultimately show ?thesis using less.hyps[OF _ a(4,2,3) less.prems(4,5,6)] by simp
    qed
  qed
qed

lemma vFormatCommand_ok:
  assumes "total_allocator m" "format_words fmt args [] False = Some ws" "length (raw_command ws) < 2 ^ 31 - 1"
  shows "redisvFormatCommand m pf fmt args = Inr (int (length (raw_command ws)), Some (raw_command ws @ [NUL]))"
proof -
  obtain e where e: "sdsempty m = Inr e" "wf_sds e" "sds_str e = []"
    using sdsempty_ok[OF assms(1)] by (auto simp: succeeds_iff)
  have "length (concat (map bulk ([] @ ws))) < 2 ^ 31" using assms(3) by (simp add: raw_command_def)
  then have "succeeds (format_loop m pf fmt args e False [] (int (length (concat (map bulk []))))) (collected ([] @ ws))"
    using assms(1,2) e by (intro format_loop_words) simp_all
  then obtain argv where loop: "format_loop m pf fmt args e False [] 0 =
      Inr (Some (argv, int (length (concat (map bulk ws)))))" "list_all wf_sds argv" "map sds_str argv = ws"
    by (auto simp: succeeds_iff collected_def)
  define items where "items = map (\<lambda>s. (sds_buf s, sdslen s)) argv"
  have words: "map item_text items = ws" using loop(3) by (auto simp: items_def sds_str_def sdslen_def)
  have fit: "\<forall>it \<in> set items. snd it \<le> length (fst it)"
    using loop(2) by (auto simp: items_def list_all_iff wf_sds_def sdslen_def)
  have n: "length argv = length ws" "length items = length ws"
    using arg_cong[OF loop(3), of length] by (simp_all add: items_def)
  have "length ws < 2 ^ 64" using length_bulks[of ws] assms(3) by (simp add: raw_command_def)
  then have "to_int (int (length (concat (map bulk ws))) + header_len (int (length ws))) = int (length (raw_command ws))"
    using assms(3) by (simp add: header_len_nat raw_command_def)
  moreover have "write_command m (int (length (raw_command ws))) (int (length ws)) items = Inr (raw_command ws @ [NUL])"
    using write_command_ok[OF assms(1) fit] assms(3) words n(2) by simp
  ultimately show ?thesis
    unfolding redisvFormatCommand_def e(1) bindR_simps loop(1) option.case prod.case Let_def n(1) items_def[symmetric]
    by (simp add: or_oom_def)
qed

section \<open>Properties\<close>

text \<open>C21: a format of literal text, strings and binary blocks is written as the protocol's array of its
  words, in a block of exactly the length returned plus the terminator.\<close>

theorem formatCommand_encodes:
  assumes "total_allocator m" "format_words fmt args [] False = Some ws" "length (command ws) < 2 ^ 31 - 1"
    "length ws < 2 ^ 31" "\<forall>a \<in> set ws. length a < 2 ^ 31"
  shows "redisFormatCommand m pf fmt args = Inr (int (length (command ws)), Some (command ws @ [NUL]))"
  using vFormatCommand_ok[OF assms(1,2), of pf] command_bulks[OF assms(4,5)] assms(3)
  by (simp add: redisFormatCommand_def raw_command_def)

lemma set_words: "format_words ''SET %s x%b'' [VaStr (cstr ''k''), VaStr [NUL, CHR ''a''], VaULL 2] [] False =
    Some [''SET'', ''k'', CHR ''x'' # [NUL, CHR ''a'']]"
  by (simp add: cstr_def)

lemma set_size: "length (command [''SET'', ''k'', CHR ''x'' # [NUL, CHR ''a'']]) = 29"
  by code_simp

theorem formatCommand_encodes_witness:
  "redisFormatCommand zero_alloc (\<lambda>_ _. []) ''SET %s x%b'' [VaStr (cstr ''k''), VaStr [NUL, CHR ''a''], VaULL 2] =
     Inr (29, Some (command [''SET'', ''k'', CHR ''x'' # [NUL, CHR ''a'']] @ [NUL]))"
  using formatCommand_encodes[OF total_zero_alloc set_words, of "\<lambda>_ _. []"] set_size by simp

text \<open>C20: the two functions that format an argument vector write the same bytes, the array of bulk strings
  the protocol asks for, whether the lengths are given or measured.\<close>

theorem formatCommandArgv_encodes:
  assumes "total_allocator m" "argv_for argv argvlen args" "length (raw_command args) < 2 ^ 31 - 1"
  shows "redisFormatCommandArgv m (int (length args)) argv argvlen =
      Inr (int (length (command args)), Some (command args @ [NUL])) \<and>
    succeeds (redisFormatSdsCommandArgv m (int (length args)) argv argvlen)
      (\<lambda>(len, t). len = int (length (command args)) \<and> (\<exists>s. t = Some s \<and> wf_sds s \<and> sds_str s = command args))"
proof -
  have "command args = raw_command args" using assms(3) by (intro raw_command_eq) simp
  then show ?thesis using formatCommandArgv_ok[OF assms] formatSdsCommandArgv_ok[OF assms] by simp
qed

lemma get_size: "length (raw_command [''GET'', ''key'']) = 22"
  by code_simp

theorem formatCommandArgv_encodes_witness:
  "redisFormatCommandArgv zero_alloc 2 [cstr ''GET'', cstr ''key''] None =
     Inr (int (length (command [''GET'', ''key''])), Some (command [''GET'', ''key''] @ [NUL])) \<and>
   succeeds (redisFormatSdsCommandArgv zero_alloc 2 [cstr ''GET'', cstr ''key''] None)
     (\<lambda>(len, t). len = int (length (command [''GET'', ''key''])) \<and>
       (\<exists>s. t = Some s \<and> wf_sds s \<and> sds_str s = command [''GET'', ''key'']))"
  using formatCommandArgv_encodes[OF total_zero_alloc, of "[cstr ''GET'', cstr ''key'']" None "[''GET'', ''key'']"]
    get_size by (simp add: argv_for_def nul_free_def)

end
