(* ===== verification/Context.thy ===== *)
theory Context
  imports Reply Command
begin

text \<open>
  The client's connection context (src/redis/hiredis.c, hiredis.h): its buffers, the calls that read
  and write the socket, and the blocking request loop.

  The world outside is a script of results: what each \<open>read\<close> and \<open>write\<close> of the socket returns.  A
  \<open>read\<close> beyond the script never returns.  What net.c does to connect is a parameter, \<open>net\<close>.
\<close>

unbundle bit_operations_syntax

section \<open>Data\<close>

type_synonym flags = "32 word"

definition REDIS_BLOCK :: flags where "REDIS_BLOCK = 0x1"
definition REDIS_CONNECTED :: flags where "REDIS_CONNECTED = 0x2"
definition REDIS_DISCONNECTING :: flags where "REDIS_DISCONNECTING = 0x4"
definition REDIS_FREEING :: flags where "REDIS_FREEING = 0x8"
definition REDIS_IN_CALLBACK :: flags where "REDIS_IN_CALLBACK = 0x10"
definition REDIS_SUBSCRIBED :: flags where "REDIS_SUBSCRIBED = 0x20"
definition REDIS_MONITORING :: flags where "REDIS_MONITORING = 0x40"
definition REDIS_REUSEADDR :: flags where "REDIS_REUSEADDR = 0x80"

text \<open>\<open>flags & bit\<close>.\<close>

definition has_flag :: "flags \<Rightarrow> flags \<Rightarrow> bool" where
  "has_flag f b \<longleftrightarrow> f AND b \<noteq> 0"

datatype redisConnectionType = REDIS_CONN_TCP | REDIS_CONN_UNIX

record redisContext =
  c_err :: int
  c_errstr :: string
  c_fd :: int
  c_flags :: flags
  c_obuf :: "sds option"
  c_reader :: "heap redisReader option"
  c_type :: redisConnectionType
  c_timeout :: "(int \<times> int) option"
  c_host :: "string option"
  c_source :: "string option"
  c_port :: int
  c_path :: "string option"

datatype errno = EAGAIN | EINTR | EOTHER nat

datatype read_event = RdData string | RdFail errno

datatype write_event = WrCount nat | WrFail errno

record world =
  w_reads :: "read_event list"
  w_writes :: "write_event list"
  w_sent :: string
  w_closed :: "int list"
  w_heap :: heap

text \<open>\<open>read(fd, buf, n)\<close>: more than \<open>n\<close> bytes stay for the next call.\<close>

fun sys_read :: "nat \<Rightarrow> read_event list \<Rightarrow> (read_event \<times> read_event list) option" where
  "sys_read n [] = None"
| "sys_read n (RdFail e # es) = Some (RdFail e, es)"
| "sys_read n (RdData s # es) =
     (if length s \<le> n then Some (RdData s, es) else Some (RdData (take n s), RdData (drop n s) # es))"

section \<open>Errors\<close>

text \<open>Without a description the text is that of \<open>errno\<close>, which only an I/O error may ask for.\<close>

definition redisSetError :: "redisContext \<Rightarrow> int \<Rightarrow> string option \<Rightarrow> string \<Rightarrow> redisContext res" where
  "redisSetError c type str errno_text =
     (case str of
        Some s \<Rightarrow> Inr (c\<lparr>c_err := type, c_errstr := take 127 s\<rparr>)
      | None \<Rightarrow>
          bindR (assertR (type = REDIS_ERR_IO)) (\<lambda>_.
          Inr (c\<lparr>c_err := type, c_errstr := take 127 errno_text\<rparr>)))"

definition need :: "'a option \<Rightarrow> 'a res" where
  "need p = (case p of None \<Rightarrow> Inl NullPointer | Some x \<Rightarrow> Inr x)"

section \<open>Life cycle\<close>

definition redisReaderCreate :: "allocator \<Rightarrow> heap redisReader res" where
  "redisReaderCreate m = redisReaderCreateWithFunctions m (Some (defaultFunctions m))"

text \<open>A pointer that is NULL where memory ran out.\<close>

definition or_null :: "'a res \<Rightarrow> 'a option res" where
  "or_null r = (case r of Inl OutOfMemory \<Rightarrow> Inr None | Inl e \<Rightarrow> Inl e | Inr x \<Rightarrow> Inr (Some x))"

definition redisFree :: "redisContext option \<Rightarrow> world \<Rightarrow> world res" where
  "redisFree c w =
     (case c of None \<Rightarrow> Inr w
      | Some c \<Rightarrow>
          let w = (if c_fd c > 0 then w\<lparr>w_closed := w_closed w @ [c_fd c]\<rparr> else w) in
          bindR (redisReaderFree (c_reader c) (w_heap w)) (\<lambda>h. Inr (w\<lparr>w_heap := h\<rparr>)))"

definition redisFreeKeepFd :: "redisContext \<Rightarrow> world \<Rightarrow> (int \<times> world) res" where
  "redisFreeKeepFd c w = bindR (redisFree (Some (c\<lparr>c_fd := - 1\<rparr>)) w) (\<lambda>w. Inr (c_fd c, w))"

definition redisContextInit :: "allocator \<Rightarrow> world \<Rightarrow> (redisContext option \<times> world) res" where
  "redisContextInit m w =
     (case m 256 of None \<Rightarrow> Inr (None, w)
      | Some _ \<Rightarrow>
          bindR (or_null (sdsempty m)) (\<lambda>obuf.
          bindR (or_null (redisReaderCreate m)) (\<lambda>reader.
          let c = \<lparr>c_err = 0, c_errstr = [], c_fd = 0, c_flags = 0, c_obuf = obuf, c_reader = reader,
                   c_type = REDIS_CONN_TCP, c_timeout = None, c_host = None, c_source = None, c_port = 0,
                   c_path = None\<rparr> in
          if obuf = None \<or> reader = None then bindR (redisFree (Some c) w) (\<lambda>w. Inr (None, w))
          else Inr (Some c, w))))"

text \<open>The functions of net.c the context calls.\<close>

datatype net_request =
    ConnectBindTcp "string option" int "(int \<times> int) option" "string option"
  | ConnectUnix "string option" "(int \<times> int) option"
  | SetTimeout "int \<times> int"
  | KeepAlive int

type_synonym net = "net_request \<Rightarrow> redisContext \<Rightarrow> world \<Rightarrow> (redis_status \<times> redisContext \<times> world) res"

definition redisReconnect :: "allocator \<Rightarrow> net \<Rightarrow> redisContext \<Rightarrow> world \<Rightarrow> (redis_status \<times> redisContext \<times> world) res" where
  "redisReconnect m net c w =
     (let c = c\<lparr>c_err := 0, c_errstr := []\<rparr>;
          w = (if c_fd c > 0 then w\<lparr>w_closed := w_closed w @ [c_fd c]\<rparr> else w) in
      bindR (redisReaderFree (c_reader c) (w_heap w)) (\<lambda>h.
      bindR (or_null (sdsempty m)) (\<lambda>obuf.
      bindR (or_null (redisReaderCreate m)) (\<lambda>reader.
      let c = c\<lparr>c_obuf := obuf, c_reader := reader\<rparr>; w = w\<lparr>w_heap := h\<rparr> in
      case c_type c of
        REDIS_CONN_TCP \<Rightarrow> net (ConnectBindTcp (c_host c) (c_port c) (c_timeout c) (c_source c)) c w
      | REDIS_CONN_UNIX \<Rightarrow> net (ConnectUnix (c_path c) (c_timeout c)) c w))))"

text \<open>The connecting functions differ in the flags they set and in the call of net.c.\<close>

definition connect_with :: "allocator \<Rightarrow> net \<Rightarrow> (flags \<Rightarrow> flags) \<Rightarrow> net_request \<Rightarrow> world \<Rightarrow>
    (redisContext option \<times> world) res" where
  "connect_with m net setf req w =
     bindR (redisContextInit m w) (\<lambda>(c, w).
     case c of None \<Rightarrow> Inr (None, w)
     | Some c \<Rightarrow>
         bindR (net req (c\<lparr>c_flags := setf (c_flags c)\<rparr>) w) (\<lambda>(_, c, w). Inr (Some c, w)))"

definition redisConnect :: "allocator \<Rightarrow> net \<Rightarrow> string \<Rightarrow> int \<Rightarrow> world \<Rightarrow> (redisContext option \<times> world) res" where
  "redisConnect m net ip port w =
     connect_with m net (\<lambda>f. f OR REDIS_BLOCK) (ConnectBindTcp (Some ip) port None None) w"

definition redisConnectWithTimeout :: "allocator \<Rightarrow> net \<Rightarrow> string \<Rightarrow> int \<Rightarrow> int \<times> int \<Rightarrow> world \<Rightarrow>
    (redisContext option \<times> world) res" where
  "redisConnectWithTimeout m net ip port tv w =
     connect_with m net (\<lambda>f. f OR REDIS_BLOCK) (ConnectBindTcp (Some ip) port (Some tv) None) w"

definition redisConnectNonBlock :: "allocator \<Rightarrow> net \<Rightarrow> string \<Rightarrow> int \<Rightarrow> world \<Rightarrow> (redisContext option \<times> world) res" where
  "redisConnectNonBlock m net ip port w =
     connect_with m net (\<lambda>f. f AND NOT REDIS_BLOCK) (ConnectBindTcp (Some ip) port None None) w"

definition redisConnectBindNonBlock :: "allocator \<Rightarrow> net \<Rightarrow> string \<Rightarrow> int \<Rightarrow> string \<Rightarrow> world \<Rightarrow>
    (redisContext option \<times> world) res" where
  "redisConnectBindNonBlock m net ip port source w =
     connect_with m net (\<lambda>f. f AND NOT REDIS_BLOCK) (ConnectBindTcp (Some ip) port None (Some source)) w"

definition redisConnectBindNonBlockWithReuse :: "allocator \<Rightarrow> net \<Rightarrow> string \<Rightarrow> int \<Rightarrow> string \<Rightarrow> world \<Rightarrow>
    (redisContext option \<times> world) res" where
  "redisConnectBindNonBlockWithReuse m net ip port source w =
     connect_with m net (\<lambda>f. (f AND NOT REDIS_BLOCK) OR REDIS_REUSEADDR)
       (ConnectBindTcp (Some ip) port None (Some source)) w"

definition redisConnectUnix :: "allocator \<Rightarrow> net \<Rightarrow> string \<Rightarrow> world \<Rightarrow> (redisContext option \<times> world) res" where
  "redisConnectUnix m net path w = connect_with m net (\<lambda>f. f OR REDIS_BLOCK) (ConnectUnix (Some path) None) w"

definition redisConnectUnixWithTimeout :: "allocator \<Rightarrow> net \<Rightarrow> string \<Rightarrow> int \<times> int \<Rightarrow> world \<Rightarrow>
    (redisContext option \<times> world) res" where
  "redisConnectUnixWithTimeout m net path tv w =
     connect_with m net (\<lambda>f. f OR REDIS_BLOCK) (ConnectUnix (Some path) (Some tv)) w"

definition redisConnectUnixNonBlock :: "allocator \<Rightarrow> net \<Rightarrow> string \<Rightarrow> world \<Rightarrow> (redisContext option \<times> world) res" where
  "redisConnectUnixNonBlock m net path w =
     connect_with m net (\<lambda>f. f AND NOT REDIS_BLOCK) (ConnectUnix (Some path) None) w"

definition redisConnectFd :: "allocator \<Rightarrow> int \<Rightarrow> world \<Rightarrow> (redisContext option \<times> world) res" where
  "redisConnectFd m fd w =
     bindR (redisContextInit m w) (\<lambda>(c, w).
     Inr (map_option (\<lambda>c. c\<lparr>c_fd := fd, c_flags := c_flags c OR (REDIS_BLOCK OR REDIS_CONNECTED)\<rparr>) c, w))"

definition redisSetTimeout :: "net \<Rightarrow> redisContext \<Rightarrow> int \<times> int \<Rightarrow> world \<Rightarrow> (redis_status \<times> redisContext \<times> world) res" where
  "redisSetTimeout net c tv w =
     (if has_flag (c_flags c) REDIS_BLOCK then net (SetTimeout tv) c w else Inr (REDIS_ERR, c, w))"

definition redisEnableKeepAlive :: "net \<Rightarrow> redisContext \<Rightarrow> world \<Rightarrow> (redis_status \<times> redisContext \<times> world) res" where
  "redisEnableKeepAlive net c w = net (KeepAlive 15) c w"

section \<open>Reading and writing the socket\<close>

text \<open>\<open>strerror\<close> names the errors of the system; a system call that fails sets \<open>errno\<close>.\<close>

definition again :: "redisContext \<Rightarrow> errno \<Rightarrow> bool" where
  "again c e \<longleftrightarrow> (e = EAGAIN \<and> \<not> has_flag (c_flags c) REDIS_BLOCK) \<or> e = EINTR"

type_synonym 'a io = "('a \<times> redisContext \<times> world) res"

text \<open>The error of the reader becomes the error of the context.\<close>

definition reader_error :: "redisContext \<Rightarrow> heap redisReader \<Rightarrow> world \<Rightarrow> redis_status io" where
  "reader_error c r w =
     bindR (redisSetError (c\<lparr>c_reader := Some r\<rparr>) (rd_err r) (Some (rd_errstr r)) []) (\<lambda>c. Inr (REDIS_ERR, c, w))"

definition redisBufferRead :: "allocator \<Rightarrow> (errno \<Rightarrow> string) \<Rightarrow> redisContext \<Rightarrow> world \<Rightarrow> redis_status io" where
  "redisBufferRead m strerror c w =
     (if c_err c \<noteq> 0 then Inr (REDIS_ERR, c, w)
      else case sys_read (1024 * 16) (w_reads w) of
        None \<Rightarrow> Inl Diverges
      | Some (RdFail e, rest) \<Rightarrow>
          let w = w\<lparr>w_reads := rest\<rparr> in
          if again c e then Inr (REDIS_OK, c, w)
          else bindR (redisSetError c REDIS_ERR_IO None (strerror e)) (\<lambda>c. Inr (REDIS_ERR, c, w))
      | Some (RdData buf, rest) \<Rightarrow>
          let w = w\<lparr>w_reads := rest\<rparr> in
          if buf = [] then
            bindR (redisSetError c REDIS_ERR_EOF (Some ''Server closed the connection'') []) (\<lambda>c.
            Inr (REDIS_ERR, c, w))
          else
            bindR (need (c_reader c)) (\<lambda>r.
            bindR (redisReaderFeed m r (w_heap w) (Some buf) (length buf)) (\<lambda>(st, r, h).
            let w = w\<lparr>w_heap := h\<rparr> in
            if st \<noteq> REDIS_OK then reader_error c r w
            else Inr (REDIS_OK, c\<lparr>c_reader := Some r\<rparr>, w))))"

text \<open>A \<open>write\<close> beyond the script never returns; \<open>*done\<close> is part of the result.\<close>

definition redisBufferWrite :: "allocator \<Rightarrow> (errno \<Rightarrow> string) \<Rightarrow> redisContext \<Rightarrow> world \<Rightarrow>
    (redis_status \<times> bool) io" where
  "redisBufferWrite m strerror c w =
     (if c_err c \<noteq> 0 then Inr ((REDIS_ERR, False), c, w)
      else
        bindR (need (c_obuf c)) (\<lambda>obuf.
        bindR
          (if sdslen obuf > 0 then
             (case w_writes w of
                [] \<Rightarrow> Inl Diverges
              | WrFail e # rest \<Rightarrow>
                  let w = w\<lparr>w_writes := rest\<rparr> in
                  if again c e then Inr (REDIS_OK, c, w)
                  else bindR (redisSetError c REDIS_ERR_IO None (strerror e)) (\<lambda>c. Inr (REDIS_ERR, c, w))
              | WrCount k # rest \<Rightarrow>
                  let n = min k (sdslen obuf);
                      w = w\<lparr>w_writes := rest, w_sent := w_sent w @ take n (sds_buf obuf)\<rparr> in
                  if n = 0 then Inr (REDIS_OK, c, w)
                  else if to_int (int n) = to_int (int (sdslen obuf)) then
                    bindR (or_null (sdsempty m)) (\<lambda>s. Inr (REDIS_OK, c\<lparr>c_obuf := s\<rparr>, w))
                  else
                    bindR (sdsrange obuf (to_int (int n)) (- 1)) (\<lambda>s. Inr (REDIS_OK, c\<lparr>c_obuf := Some s\<rparr>, w)))
           else Inr (REDIS_OK, c, w))
          (\<lambda>(st, c, w).
           if st = REDIS_ERR then Inr ((REDIS_ERR, False), c, w)
           else bindR (need (c_obuf c)) (\<lambda>obuf. Inr ((REDIS_OK, sdslen obuf = 0), c, w)))))"

definition redisGetReplyFromReader :: "redisContext \<Rightarrow> world \<Rightarrow> (redis_status \<times> nat) io" where
  "redisGetReplyFromReader c w =
     bindR (need (c_reader c)) (\<lambda>r.
     bindR (redisReaderGetReply r (w_heap w)) (\<lambda>(st, reply, r, h).
     let w = w\<lparr>w_heap := h\<rparr> in
     if st = REDIS_ERR
     then bindR (reader_error c r w) (\<lambda>(_, c, w). Inr ((REDIS_ERR, 0), c, w))
     else Inr ((REDIS_OK, reply), c\<lparr>c_reader := Some r\<rparr>, w)))"

section \<open>Blocking requests\<close>

text \<open>The two loops; every round that goes on uses up some of the script.\<close>

fun read_size :: "read_event list \<Rightarrow> nat" where
  "read_size [] = 0"
| "read_size (RdData s # es) = Suc (length s) + read_size es"
| "read_size (RdFail e # es) = Suc (read_size es)"

lemma sys_read_shorter: "0 < n \<Longrightarrow> sys_read n es = Some (e, es') \<Longrightarrow> read_size es' < read_size es"
  by (cases es rule: read_size.cases) (auto split: if_splits)

lemma bufferRead_shorter:
  assumes "redisBufferRead m strerror c w = Inr (REDIS_OK, c', w')"
  shows "read_size (w_reads w') < read_size (w_reads w)"
proof -
  from assms obtain e rest where s: "sys_read (1024 * 16) (w_reads w) = Some (e, rest)"
    by (auto simp: redisBufferRead_def split: if_splits option.splits)
  then have "w_reads w' = rest"
    using assms by (cases e) (auto simp: redisBufferRead_def Let_def bindR_eq_Inr reader_error_def split: if_splits)
  then show ?thesis using sys_read_shorter[OF _ s] by simp
qed

lemma getReplyFromReader_reads: "redisGetReplyFromReader c w = Inr (r, c', w') \<Longrightarrow> w_reads w' = w_reads w"
  by (auto simp: redisGetReplyFromReader_def Let_def bindR_eq_Inr reader_error_def split: if_splits)

function read_until :: "allocator \<Rightarrow> (errno \<Rightarrow> string) \<Rightarrow> redisContext \<Rightarrow> world \<Rightarrow> (redis_status \<times> nat) io" where
  "read_until m strerror c w =
     (case redisBufferRead m strerror c w of
        Inl e \<Rightarrow> Inl e
      | Inr (st, c1, w1) \<Rightarrow>
          if st = REDIS_ERR then Inr ((REDIS_ERR, 0), c1, w1)
          else
            (case redisGetReplyFromReader c1 w1 of
               Inl e \<Rightarrow> Inl e
             | Inr ((st, aux), c2, w2) \<Rightarrow>
                 if st = REDIS_ERR then Inr ((REDIS_ERR, 0), c2, w2)
                 else if aux = 0 then read_until m strerror c2 w2
                 else Inr ((REDIS_OK, aux), c2, w2)))"
  by pat_completeness auto
termination
proof (relation "measure (\<lambda>(m, se, c, w). read_size (w_reads w))", goal_cases)
  case (2 m se c w p st q c1 w1 r s t aux u c2 w2)
  then have "redisBufferRead m se c w = Inr (REDIS_OK, c1, w1)" by (cases st) auto
  from bufferRead_shorter[OF this] show ?case using 2 getReplyFromReader_reads by fastforce
qed simp

declare read_until.simps [simp del]

lemma bufferWrite_shorter:
  assumes "redisBufferWrite m strerror c w = Inr ((REDIS_OK, False), c', w')"
  shows "length (w_writes w') < length (w_writes w)"
proof -
  from assms obtain obuf where obuf: "c_obuf c = Some obuf" "c_err c = 0"
    by (auto simp: redisBufferWrite_def need_def split: if_splits option.splits)
  show ?thesis
  proof (cases "sdslen obuf > 0")
    case True
    then show ?thesis using assms obuf
      by (cases "w_writes w")
        (auto simp: redisBufferWrite_def need_def Let_def bindR_eq_Inr split: if_splits write_event.splits option.splits)
  next
    case False
    then show ?thesis using assms obuf by (auto simp: redisBufferWrite_def need_def)
  qed
qed

function write_until :: "allocator \<Rightarrow> (errno \<Rightarrow> string) \<Rightarrow> redisContext \<Rightarrow> world \<Rightarrow> redis_status io" where
  "write_until m strerror c w =
     (case redisBufferWrite m strerror c w of
        Inl e \<Rightarrow> Inl e
      | Inr ((st, wdone), c1, w1) \<Rightarrow>
          if st = REDIS_ERR then Inr (REDIS_ERR, c1, w1)
          else if wdone then Inr (REDIS_OK, c1, w1) else write_until m strerror c1 w1)"
  by pat_completeness auto
termination
proof (relation "measure (\<lambda>(m, se, c, w). length (w_writes w))", goal_cases)
  case (2 m se c w p a b st wdone c1 w1)
  then have "redisBufferWrite m se c w = Inr ((REDIS_OK, False), c1, w1)" by (cases st) auto
  from bufferWrite_shorter[OF this] show ?case by simp
qed simp

declare write_until.simps [simp del]

definition redisGetReply :: "allocator \<Rightarrow> (errno \<Rightarrow> string) \<Rightarrow> redisContext \<Rightarrow> world \<Rightarrow> (redis_status \<times> nat) io" where
  "redisGetReply m strerror c w =
     bindR (redisGetReplyFromReader c w) (\<lambda>((st, aux), c, w).
     if st = REDIS_ERR then Inr ((REDIS_ERR, 0), c, w)
     else if aux = 0 \<and> has_flag (c_flags c) REDIS_BLOCK then
       bindR (write_until m strerror c w) (\<lambda>(st, c, w).
       if st = REDIS_ERR then Inr ((REDIS_ERR, 0), c, w)
       else read_until m strerror c w)
     else Inr ((REDIS_OK, aux), c, w))"

section \<open>Commands\<close>

definition redisAppendFormattedCommand :: "allocator \<Rightarrow> redisContext \<Rightarrow> char list \<Rightarrow> nat \<Rightarrow> (redis_status \<times> redisContext) res" where
  "redisAppendFormattedCommand m c cmd len =
     bindR (need (c_obuf c)) (\<lambda>obuf.
     case sdscatlen m obuf cmd len of
       Inl OutOfMemory \<Rightarrow>
         bindR (redisSetError c REDIS_ERR_OOM (Some ''Out of memory'') []) (\<lambda>c. Inr (REDIS_ERR, c))
     | Inl e \<Rightarrow> Inl e
     | Inr newbuf \<Rightarrow> Inr (REDIS_OK, c\<lparr>c_obuf := Some newbuf\<rparr>))"

text \<open>The \<open>int\<close> length becomes a \<open>size_t\<close>.\<close>

definition redisvAppendCommand :: "allocator \<Rightarrow> (string \<Rightarrow> va list \<Rightarrow> string) \<Rightarrow> redisContext \<Rightarrow> string \<Rightarrow> va list \<Rightarrow>
    (redis_status \<times> redisContext) res" where
  "redisvAppendCommand m pf c format ap =
     bindR (redisvFormatCommand m pf format ap) (\<lambda>(len, cmd).
     if len = - 1 then
       bindR (redisSetError c REDIS_ERR_OOM (Some ''Out of memory'') []) (\<lambda>c. Inr (REDIS_ERR, c))
     else if len = - 2 then
       bindR (redisSetError c REDIS_ERR_OTHER (Some ''Invalid format string'') []) (\<lambda>c. Inr (REDIS_ERR, c))
     else bindR (need cmd) (\<lambda>cmd. redisAppendFormattedCommand m c cmd (nat (len mod 2 ^ 64))))"

definition redisAppendCommand :: "allocator \<Rightarrow> (string \<Rightarrow> va list \<Rightarrow> string) \<Rightarrow> redisContext \<Rightarrow> string \<Rightarrow> va list \<Rightarrow>
    (redis_status \<times> redisContext) res" where
  "redisAppendCommand m pf c format args = redisvAppendCommand m pf c format args"

definition redisAppendCommandArgv :: "allocator \<Rightarrow> redisContext \<Rightarrow> int \<Rightarrow> char list list \<Rightarrow> nat list option \<Rightarrow>
    (redis_status \<times> redisContext) res" where
  "redisAppendCommandArgv m c argc argv argvlen =
     bindR (redisFormatSdsCommandArgv m argc argv argvlen) (\<lambda>(len, cmd).
     if len = - 1 then
       bindR (redisSetError c REDIS_ERR_OOM (Some ''Out of memory'') []) (\<lambda>c. Inr (REDIS_ERR, c))
     else bindR (need cmd) (\<lambda>cmd. redisAppendFormattedCommand m c (sds_buf cmd) (nat (len mod 2 ^ 64))))"

definition redisBlockForReply :: "allocator \<Rightarrow> (errno \<Rightarrow> string) \<Rightarrow> redisContext \<Rightarrow> world \<Rightarrow> nat io" where
  "redisBlockForReply m strerror c w =
     (if has_flag (c_flags c) REDIS_BLOCK then
        bindR (redisGetReply m strerror c w) (\<lambda>((st, reply), c, w).
        Inr (if st \<noteq> REDIS_OK then 0 else reply, c, w))
      else Inr (0, c, w))"

definition redisvCommand :: "allocator \<Rightarrow> (string \<Rightarrow> va list \<Rightarrow> string) \<Rightarrow> (errno \<Rightarrow> string) \<Rightarrow> redisContext \<Rightarrow>
    string \<Rightarrow> va list \<Rightarrow> world \<Rightarrow> nat io" where
  "redisvCommand m pf strerror c format ap w =
     bindR (redisvAppendCommand m pf c format ap) (\<lambda>(st, c).
     if st \<noteq> REDIS_OK then Inr (0, c, w) else redisBlockForReply m strerror c w)"

definition redisCommand :: "allocator \<Rightarrow> (string \<Rightarrow> va list \<Rightarrow> string) \<Rightarrow> (errno \<Rightarrow> string) \<Rightarrow> redisContext \<Rightarrow>
    string \<Rightarrow> va list \<Rightarrow> world \<Rightarrow> nat io" where
  "redisCommand m pf strerror c format args w = redisvCommand m pf strerror c format args w"

definition redisCommandArgv :: "allocator \<Rightarrow> (errno \<Rightarrow> string) \<Rightarrow> redisContext \<Rightarrow> int \<Rightarrow> char list list \<Rightarrow>
    nat list option \<Rightarrow> world \<Rightarrow> nat io" where
  "redisCommandArgv m strerror c argc argv argvlen w =
     bindR (redisAppendCommandArgv m c argc argv argvlen) (\<lambda>(st, c).
     if st \<noteq> REDIS_OK then Inr (0, c, w) else redisBlockForReply m strerror c w)"

section \<open>A request and its reply\<close>

text \<open>A script of writes that takes \<open>n\<close> bytes, and one of reads that brings the text \<open>t\<close>, in pieces of
  any size and with interruptions.\<close>

fun takes :: "nat \<Rightarrow> write_event list \<Rightarrow> bool" where
  "takes n [] = (n = 0)"
| "takes n (WrCount k # ws) = (n = 0 \<or> takes (n - k) ws)"
| "takes n (WrFail e # ws) = (n = 0 \<or> e = EINTR \<and> takes n ws)"

fun brings :: "read_event list \<Rightarrow> string \<Rightarrow> bool" where
  "brings [] t = (t = [])"
| "brings (RdFail e # es) t = (t = [] \<or> e = EINTR \<and> brings es t)"
| "brings (RdData s # es) t = (t = [] \<or> s \<noteq> [] \<and> take (length s) t = s \<and> brings es (drop (length s) t))"

lemma write_until_ok:
  assumes "total_allocator m"
  shows "takes (sdslen s) (w_writes w) \<Longrightarrow> c_err c = 0 \<Longrightarrow> c_obuf c = Some s \<Longrightarrow> wf_sds s \<Longrightarrow> sdslen s < 2 ^ 31 \<Longrightarrow>
    \<exists>s' ws. write_until m strerror c w =
      Inr (REDIS_OK, c\<lparr>c_obuf := Some s'\<rparr>, w\<lparr>w_writes := ws, w_sent := w_sent w @ sds_str s\<rparr>) \<and>
      wf_sds s' \<and> sds_str s' = []"
proof (induction "w_writes w" arbitrary: c w s)
  case Nil
  then have "sds_str s = []" "sdslen s = 0" using length_sds_str[of s] by auto
  then show ?case using Nil
    by (intro exI[of _ s] exI[of _ "w_writes w"])
      (simp add: write_until.simps redisBufferWrite_def need_def)
next
  case (Cons ev evs)
  note str = length_sds_str[OF Cons.prems(4)]
  show ?case
  proof (cases "sdslen s = 0")
    case True
    then have "sds_str s = []" using str by auto
    then show ?thesis using Cons.prems True
      by (intro exI[of _ s] exI[of _ "w_writes w"])
        (simp add: write_until.simps redisBufferWrite_def need_def)
  next
    case False
    show ?thesis
    proof (cases ev)
      case (WrFail e)
      let ?w = "w\<lparr>w_writes := evs\<rparr>"
      have e: "e = EINTR" "takes (sdslen s) evs" using Cons.prems(1) Cons.hyps(2) WrFail False by (auto simp flip: Cons.hyps(2))
      have "write_until m strerror c w = write_until m strerror c ?w"
        using Cons.prems(2,3) Cons.hyps(2)[symmetric] WrFail False e(1)
        by (subst write_until.simps) (simp add: redisBufferWrite_def need_def again_def)
      moreover obtain s' ws where "write_until m strerror c ?w =
          Inr (REDIS_OK, c\<lparr>c_obuf := Some s'\<rparr>, ?w\<lparr>w_writes := ws, w_sent := w_sent ?w @ sds_str s\<rparr>)"
        "wf_sds s'" "sds_str s' = []"
        using Cons.hyps(1)[of ?w s c] e(2) Cons.prems by auto
      ultimately show ?thesis by auto
    next
      case (WrCount k)
      define n where "n = min k (sdslen s)"
      let ?w = "w\<lparr>w_writes := evs, w_sent := w_sent w @ take n (sds_str s)\<rparr>"
      have tk: "takes (sdslen s - k) evs" using Cons.prems(1) Cons.hyps(2)[symmetric] WrCount False by simp
      have small: "to_int (int n) = int n" "to_int (int (sdslen s)) = int (sdslen s)" "n \<le> sdslen s"
        using Cons.prems(5) by (simp_all add: n_def)
      have buf: "take n (sds_buf s) = take n (sds_str s)" using small(3) by (simp add: sds_str_def sdslen_def min_def)
      show ?thesis
      proof (cases "n = sdslen s")
        case True
        obtain e where e: "sdsempty m = Inr e" "wf_sds e" "sds_str e = []"
          using sdsempty_ok[OF assms] by (auto simp: succeeds_iff)
        have "sdslen e = 0" using length_sds_str[OF e(2)] e(3) by simp
        then have "write_until m strerror c w = Inr (REDIS_OK, c\<lparr>c_obuf := Some e\<rparr>, ?w)"
          using Cons.prems(2,3) Cons.hyps(2)[symmetric] WrCount False e(1) buf small True
          by (subst write_until.simps) (simp add: redisBufferWrite_def need_def or_null_def n_def[symmetric] Let_def)
        moreover have "take n (sds_str s) = sds_str s" using True str by simp
        ultimately show ?thesis using e by auto
      next
        case part: False
        have "succeeds (sdsrange s (int n) (- 1)) (\<lambda>s'. wf_sds s' \<and> sds_str s' = slice (sds_str s) (int n) (- 1))"
          using Cons.prems(4,5) small by (intro sdsrange_str) auto
        moreover have "slice (sds_str s) (int n) (- 1) = drop n (sds_str s)"
          using small(3) str by (intro slice_tail) simp
        ultimately obtain s1 where s1: "sdsrange s (int n) (- 1) = Inr s1" "wf_sds s1" "sds_str s1 = drop n (sds_str s)"
          by (auto simp: succeeds_iff)
        have len1: "sdslen s1 = sdslen s - n" using length_sds_str[OF s1(2)] s1(3) str by simp
        have n: "n = k" using part by (simp add: n_def min_def split: if_splits)
        let ?s1 = "if n = 0 then s else s1"
        have same: "c\<lparr>c_obuf := Some s\<rparr> = c" using Cons.prems(3) by (cases c) simp
        have wr: "redisBufferWrite m strerror c w =
            Inr ((REDIS_OK, False), if n = 0 then c else c\<lparr>c_obuf := Some s1\<rparr>, ?w)"
          using Cons.prems(2,3) Cons.hyps(2)[symmetric] WrCount False s1(1) buf small part len1
          by (simp add: redisBufferWrite_def need_def n_def[symmetric] Let_def)
        have step: "write_until m strerror c w = write_until m strerror (c\<lparr>c_obuf := Some ?s1\<rparr>) ?w"
        proof (cases "n = 0")
          case True
          then have "(c\<lparr>c_obuf := Some ?s1\<rparr>) = c" using same by simp
          then show ?thesis using wr True by (subst write_until.simps) (simp del: redisContext.update_convs)
        qed (use wr in \<open>subst write_until.simps, simp\<close>)
        have "\<exists>s' ws. write_until m strerror (c\<lparr>c_obuf := Some ?s1\<rparr>) ?w =
            Inr (REDIS_OK, (c\<lparr>c_obuf := Some ?s1\<rparr>)\<lparr>c_obuf := Some s'\<rparr>,
              ?w\<lparr>w_writes := ws, w_sent := w_sent ?w @ sds_str ?s1\<rparr>) \<and> wf_sds s' \<and> sds_str s' = []"
          using tk n len1 Cons.prems s1(2) by (intro Cons.hyps(1)) auto
        then show ?thesis unfolding step using s1(3) by (auto split: if_splits)
      qed
    qed
  qed
qed

lemma reader_waits:
  assumes "owes fns r (w_heap w) todo obj h'" "todo \<noteq> []" "c_reader c = Some r"
  obtains r2 h1 where "redisGetReplyFromReader c w = Inr ((REDIS_OK, 0), c\<lparr>c_reader := Some r2\<rparr>, w\<lparr>w_heap := h1\<rparr>)"
    "owes fns r2 h1 todo obj h'"
proof -
  obtain r2 h1 where "redisReaderGetReply r (w_heap w) = Inr (REDIS_OK, 0, r2, h1)" "owes fns r2 h1 todo obj h'"
    using owes_wait[OF assms(1,2)] by blast
  then show thesis using that assms(3) by (simp add: redisGetReplyFromReader_def need_def)
qed

lemma read_until_ok:
  assumes "total_allocator m" "obj \<noteq> 0"
  shows "brings (w_reads w) todo \<Longrightarrow> owes fns r (w_heap w) todo obj h' \<Longrightarrow> todo \<noteq> [] \<Longrightarrow>
    c_reader c = Some r \<Longrightarrow> c_err c = 0 \<Longrightarrow>
    \<exists>r2 es. read_until m strerror c w =
      Inr ((REDIS_OK, obj), c\<lparr>c_reader := Some r2\<rparr>, w\<lparr>w_reads := es, w_heap := h'\<rparr>) \<and>
      idle r2 \<and> rd_fn r2 = Some fns \<and> rd_input r2 = []"
proof (induction "read_size (w_reads w)" arbitrary: w todo r c rule: less_induct)
  case less
  obtain ev es where w: "w_reads w = ev # es" using less.prems(1,3) by (cases "w_reads w") auto
  show ?case
  proof (cases ev)
    case (RdFail e)
    let ?w = "w\<lparr>w_reads := es\<rparr>"
    have e: "e = EINTR" "brings es todo" using less.prems(1,3) w RdFail by auto
    obtain r2 h1 where r2: "redisGetReplyFromReader c ?w = Inr ((REDIS_OK, 0), c\<lparr>c_reader := Some r2\<rparr>, ?w\<lparr>w_heap := h1\<rparr>)"
      "owes fns r2 h1 todo obj h'"
      using reader_waits[of fns r ?w todo obj h' c] less.prems by auto
    have step: "read_until m strerror c w = read_until m strerror (c\<lparr>c_reader := Some r2\<rparr>) (?w\<lparr>w_heap := h1\<rparr>)"
      using less.prems(5) w RdFail e(1) r2(1)
      by (subst read_until.simps) (simp add: redisBufferRead_def again_def)
    have "\<exists>r3 es'. read_until m strerror (c\<lparr>c_reader := Some r2\<rparr>) (?w\<lparr>w_heap := h1\<rparr>) =
        Inr ((REDIS_OK, obj), (c\<lparr>c_reader := Some r2\<rparr>)\<lparr>c_reader := Some r3\<rparr>,
          (?w\<lparr>w_heap := h1\<rparr>)\<lparr>w_reads := es', w_heap := h'\<rparr>) \<and> idle r3 \<and> rd_fn r3 = Some fns \<and> rd_input r3 = []"
      using less.prems r2(2) e(2) w RdFail by (intro less.hyps) simp_all
    then show ?thesis unfolding step by auto
  next
    case (RdData s)
    define n where "n = min (length s) (1024 * 16)"
    define x where "x = take n s"
    define es1 where "es1 = (if length s \<le> 1024 * 16 then es else RdData (drop n s) # es)"
    have s: "s \<noteq> []" "take (length s) todo = s" "brings es (drop (length s) todo)"
      using less.prems(1,3) w RdData by auto
    have read: "sys_read (1024 * 16) (w_reads w) = Some (RdData x, es1)"
      using w RdData by (simp add: n_def x_def es1_def)
    have x: "x \<noteq> []" "length x = n" using s(1) by (auto simp: x_def n_def)
    have todo: "todo = x @ drop n todo"
      using s(2) by (metis append_take_drop_id min.cobounded1 n_def take_take x_def min.absorb1 min.commute)
    have bring: "brings es1 (drop n todo)"
    proof (cases "length s \<le> 1024 * 16")
      case True
      then show ?thesis using s(3) by (simp add: es1_def n_def)
    next
      case False
      then have "take (length (drop n s)) (drop n todo) = drop n s"
        using s(2) by (metis drop_take length_drop)
      moreover have "drop n s \<noteq> []" "drop (length (drop n s)) (drop n todo) = drop (length s) todo"
        using False by (simp_all add: n_def add.commute)
      ultimately show ?thesis using False s(3) by (simp add: es1_def)
    qed
    have owed: "owes fns r (w_heap w) (x @ drop n todo) obj h'" using less.prems(2) todo by simp
    obtain a where a: "redisReaderFeed m r (w_heap w) (Some x) (length x) = Inr (REDIS_OK, a, w_heap w)"
      "owes fns a (w_heap w) (drop n todo) obj h'" "rd_len a \<noteq> 0"
      by (rule owes_feed[OF owed assms(1) x(1)])
    let ?w = "w\<lparr>w_reads := es1\<rparr>" and ?c = "c\<lparr>c_reader := Some a\<rparr>"
    have buffer: "redisBufferRead m strerror c w = Inr (REDIS_OK, ?c, ?w)"
      using less.prems(4,5) read x(1) a(1) by (simp add: redisBufferRead_def need_def)
    show ?thesis
    proof (cases "drop n todo = []")
      case True
      obtain r2 where r2: "redisReaderGetReply a (w_heap w) = Inr (REDIS_OK, obj, r2, h')" "idle r2"
        "rd_fn r2 = Some fns" "rd_input r2 = []"
        using owes_get[OF a(2,3)] True by auto
      then show ?thesis using buffer assms(2)
        by (intro exI[of _ r2] exI[of _ es1]) (subst read_until.simps, simp add: redisGetReplyFromReader_def need_def)
    next
      case False
      obtain r2 h1 where r2: "redisGetReplyFromReader ?c ?w = Inr ((REDIS_OK, 0), ?c\<lparr>c_reader := Some r2\<rparr>, ?w\<lparr>w_heap := h1\<rparr>)"
        "owes fns r2 h1 (drop n todo) obj h'"
        using reader_waits[of fns a ?w "drop n todo" obj h' ?c] a(2) False by auto
      have step: "read_until m strerror c w = read_until m strerror (?c\<lparr>c_reader := Some r2\<rparr>) (?w\<lparr>w_heap := h1\<rparr>)"
        using buffer r2(1) by (subst read_until.simps) simp
      have "read_size es1 < read_size (w_reads w)"
        by (rule sys_read_shorter[OF _ read]) simp
      then have "\<exists>r3 es'. read_until m strerror (?c\<lparr>c_reader := Some r2\<rparr>) (?w\<lparr>w_heap := h1\<rparr>) =
          Inr ((REDIS_OK, obj), (?c\<lparr>c_reader := Some r2\<rparr>)\<lparr>c_reader := Some r3\<rparr>,
            (?w\<lparr>w_heap := h1\<rparr>)\<lparr>w_reads := es', w_heap := h'\<rparr>) \<and> idle r3 \<and> rd_fn r3 = Some fns \<and> rd_input r3 = []"
        using less.hyps[of "?w\<lparr>w_heap := h1\<rparr>" "drop n todo" r2 "?c\<lparr>c_reader := Some r2\<rparr>"] less.prems bring r2(2) False
        by simp
      then show ?thesis unfolding step by auto
    qed
  qed
qed

text \<open>A blocking connection with nothing pending in either direction.\<close>

definition quiet :: "allocator \<Rightarrow> redisContext \<Rightarrow> bool" where
  "quiet m c \<longleftrightarrow> c_err c = 0 \<and> has_flag (c_flags c) REDIS_BLOCK \<and>
     (\<exists>s. c_obuf c = Some s \<and> wf_sds s \<and> sds_str s = []) \<and>
     (\<exists>r. c_reader c = Some r \<and> idle r \<and> rd_fn r = Some (defaultFunctions m) \<and> rd_input r = [])"

text \<open>The room the reader has left before its buffer reaches \<open>2 ^ 31\<close> bytes.\<close>

definition rd_room :: "redisContext \<Rightarrow> nat" where
  "rd_room c = (case c_reader c of None \<Rightarrow> 0 | Some r \<Rightarrow> 2 ^ 31 - 1 - rd_len r)"

lemma block_for_reply:
  assumes "total_allocator m" "quiet m c" "length (ser v) \<le> rd_room c" "heap_ok (w_heap w)" "resp_ok 8 v"
    "sdscatlen m (the (c_obuf c)) cmd len = Inr s" "wf_sds s" "sds_str s = out" "length out < 2 ^ 31"
    "takes (length out) (w_writes w)" "brings (w_reads w) (ser v)"
  shows "\<exists>obj c' w'. redisBlockForReply m strerror (c\<lparr>c_obuf := Some s\<rparr>) w = Inr (obj, c', w') \<and> obj \<noteq> 0 \<and>
    w_sent w' = w_sent w @ out \<and> quiet m c' \<and> represents (w_heap w') obj v \<and>
    (\<exists>h. freeReplyObject obj (w_heap w') = Inr h \<and> h_objs h = h_objs (w_heap w))"
proof -
  obtain r where r: "c_reader c = Some r" "idle r" "rd_fn r = Some (defaultFunctions m)" "rd_input r = []"
    "c_err c = 0" "has_flag (c_flags c) REDIS_BLOCK"
    using assms(2) by (auto simp: quiet_def)
  have "rd_len r + length (ser v) < 2 ^ 31"
    using assms(3) r(1,2) ser_not_Nil[of v] by (auto simp: rd_room_def idle_def)
  then obtain obj h1 where b: "build (defaultFunctions m) None v (w_heap w) = Inr (obj, h1)" "obj \<noteq> 0"
    "owes (defaultFunctions m) r (w_heap w) (ser v) obj h1"
    using default.owes_start[of r m "w_heap w" v] assms(4,5) r granted_id[OF assms(1)] by auto
  note free = build_then_free[OF assms(1,4,5) b(1)]
  let ?c = "c\<lparr>c_obuf := Some s\<rparr>"
  obtain r1 h2 where w1: "redisGetReplyFromReader ?c w = Inr ((REDIS_OK, 0), ?c\<lparr>c_reader := Some r1\<rparr>, w\<lparr>w_heap := h2\<rparr>)"
    "owes (defaultFunctions m) r1 h2 (ser v) obj h1"
    using reader_waits[OF b(3), of ?c] r(1) ser_not_Nil[of v] by auto
  let ?c1 = "?c\<lparr>c_reader := Some r1\<rparr>" and ?w1 = "w\<lparr>w_heap := h2\<rparr>"
  have "sdslen s = length out" using length_sds_str[OF assms(7)] assms(8) by simp
  then obtain s2 ws where w2: "write_until m strerror ?c1 ?w1 =
      Inr (REDIS_OK, ?c1\<lparr>c_obuf := Some s2\<rparr>, ?w1\<lparr>w_writes := ws, w_sent := w_sent ?w1 @ sds_str s\<rparr>)"
    "wf_sds s2" "sds_str s2 = []"
    using write_until_ok[OF assms(1), of s ?w1 ?c1 strerror] assms(7,9,10) r(5) by auto
  let ?c2 = "?c1\<lparr>c_obuf := Some s2\<rparr>" and ?w2 = "?w1\<lparr>w_writes := ws, w_sent := w_sent ?w1 @ sds_str s\<rparr>"
  obtain r3 es where w3: "read_until m strerror ?c2 ?w2 =
      Inr ((REDIS_OK, obj), ?c2\<lparr>c_reader := Some r3\<rparr>, ?w2\<lparr>w_reads := es, w_heap := h1\<rparr>)"
    "idle r3" "rd_fn r3 = Some (defaultFunctions m)" "rd_input r3 = []"
    using read_until_ok[OF assms(1) b(2), of ?w2 "ser v" "defaultFunctions m" r1 h1 ?c2 strerror]
      assms(11) w1(2) ser_not_Nil[of v] r(5) by auto
  have "redisBlockForReply m strerror ?c w =
      Inr (obj, ?c2\<lparr>c_reader := Some r3\<rparr>, ?w2\<lparr>w_reads := es, w_heap := h1\<rparr>)"
    using r(6) w1(1) w2(1) w3(1) by (simp add: redisBlockForReply_def redisGetReply_def)
  moreover have "quiet m (?c2\<lparr>c_reader := Some r3\<rparr>)" using w2(2,3) w3(2-4) r(5,6) by (simp add: quiet_def)
  ultimately show ?thesis using free b(2) assms(8) by auto
qed

lemma append_ok:
  assumes "total_allocator m" "quiet m c" "len \<le> length cmd" "len < 2 ^ 31"
  obtains s where "redisAppendFormattedCommand m c cmd len = Inr (REDIS_OK, c\<lparr>c_obuf := Some s\<rparr>)"
    "sdscatlen m (the (c_obuf c)) cmd len = Inr s" "wf_sds s" "sds_str s = take len cmd"
proof -
  obtain s0 where s0: "c_obuf c = Some s0" "wf_sds s0" "sds_str s0 = []" using assms(2) by (auto simp: quiet_def)
  have "sdslen s0 = 0" using length_sds_str[OF s0(2)] s0(3) by simp
  then have "succeeds (sdscatlen m s0 cmd len) (\<lambda>s. wf_sds s \<and> sds_str s = sds_str s0 @ take len cmd)"
    using assms(3,4) s0(2) by (intro sdscatlen_ok[OF assms(1)]) simp_all
  then obtain s where "sdscatlen m s0 cmd len = Inr s" "wf_sds s" "sds_str s = take len cmd"
    using s0(3) by (auto simp: succeeds_iff)
  then show thesis using that s0(1) by (simp add: redisAppendFormattedCommand_def need_def)
qed

section \<open>Properties\<close>

text \<open>C10: over a blocking connection a command is sent as the protocol's array of its words, and the reply the
  server sends comes back as the object that represents it, however the network cuts both into pieces and
  interrupts the calls; the connection is then ready for the next command, and freeing the reply leaves
  nothing behind.\<close>

theorem command_roundtrip:
  assumes "total_allocator m" "quiet m c" "length (ser v) \<le> rd_room c" "heap_ok (w_heap w)" "resp_ok 8 v"
    "format_words fmt args [] False = Some ws" "length (raw_command ws) < 2 ^ 31 - 1"
    "takes (length (command ws)) (w_writes w)" "brings (w_reads w) (ser v)"
  shows "\<exists>obj c' w'. redisCommand m pf strerror c fmt args w = Inr (obj, c', w') \<and> obj \<noteq> 0 \<and>
    w_sent w' = w_sent w @ command ws \<and> quiet m c' \<and> represents (w_heap w') obj v \<and>
    (\<exists>h. freeReplyObject obj (w_heap w') = Inr h \<and> h_objs h = h_objs (w_heap w))"
proof -
  let ?n = "length (raw_command ws)"
  have eq: "command ws = raw_command ws" using assms(7) by (intro raw_command_eq) simp
  have n: "nat (int ?n mod 2 ^ 64) = ?n" "int ?n \<noteq> - 1" "int ?n \<noteq> - 2" using assms(7) by simp_all
  have pre: "?n \<le> length (raw_command ws @ [NUL])" "?n < 2 ^ 31" using assms(7) by simp_all
  obtain s where s: "redisAppendFormattedCommand m c (raw_command ws @ [NUL]) ?n = Inr (REDIS_OK, c\<lparr>c_obuf := Some s\<rparr>)"
    "sdscatlen m (the (c_obuf c)) (raw_command ws @ [NUL]) ?n = Inr s" "wf_sds s"
    "sds_str s = take ?n (raw_command ws @ [NUL])"
    by (rule append_ok[OF assms(1,2) pre])
  have "redisCommand m pf strerror c fmt args w = redisBlockForReply m strerror (c\<lparr>c_obuf := Some s\<rparr>) w"
    using vFormatCommand_ok[OF assms(1,6,7), of pf] s(1) n
    by (simp add: redisCommand_def redisvCommand_def redisvAppendCommand_def need_def)
  moreover have out: "sds_str s = command ws" "length (command ws) < 2 ^ 31" using s(4) eq assms(7) by simp_all
  ultimately show ?thesis using block_for_reply[OF assms(1-5) s(2,3) out(1,2) assms(8,9)] by simp
qed

text \<open>A fresh connection, and a script in which both sides dribble.\<close>

definition empty_sds :: sds where
  "empty_sds = \<lparr>sds_type = SDS_TYPE_8, sds_len = 0, sds_alloc = 0, sds_buf = [NUL]\<rparr>"

definition fresh_context :: redisContext where
  "fresh_context = \<lparr>c_err = 0, c_errstr = [], c_fd = 3, c_flags = REDIS_BLOCK OR REDIS_CONNECTED,
     c_obuf = Some empty_sds,
     c_reader = Some \<lparr>rd_err = 0, rd_errstr = [], rd_buf = Some empty_sds, rd_pos = 0, rd_len = 0,
       rd_maxbuf = REDIS_READER_MAX_BUF, rd_rstack = replicate 9 zero_task, rd_ridx = - 1, rd_reply = 0,
       rd_fn = Some (defaultFunctions zero_alloc), rd_privdata = 0\<rparr>,
     c_type = REDIS_CONN_TCP, c_timeout = None, c_host = None, c_source = None, c_port = 0, c_path = None\<rparr>"

definition dribble :: world where
  "dribble = \<lparr>w_reads = [RdData ''+O'', RdFail EINTR, RdData (''K'' @ crlf)],
     w_writes = [WrCount 5, WrFail EINTR, WrCount 1000], w_sent = [], w_closed = [], w_heap = empty_heap\<rparr>"

lemma empty_sds_wf: "wf_sds empty_sds" "sds_str empty_sds = []" "sdslen empty_sds = 0"
  by (simp_all add: empty_sds_def wf_sds_def sds_str_def sdsalloc_def sdslen_def)

lemma fresh_quiet: "quiet zero_alloc fresh_context" "rd_room fresh_context = 2 ^ 31 - 1"
  by (auto simp: quiet_def fresh_context_def empty_sds_wf idle_def rd_input_def has_flag_def REDIS_BLOCK_def
      REDIS_CONNECTED_def rd_room_def)

lemma set_kv: "format_words ''SET %s %s'' [VaStr (cstr ''k''), VaStr (cstr ''v'')] [] False = Some [''SET'', ''k'', ''v'']"
  by (simp add: cstr_def)

lemma set_kv_size: "length (raw_command [''SET'', ''k'', ''v'']) = 27" "length (command [''SET'', ''k'', ''v'']) = 27"
  by code_simp+

theorem command_roundtrip_witness:
  "\<exists>obj c' w'. redisCommand zero_alloc (\<lambda>_ _. []) (\<lambda>_. []) fresh_context ''SET %s %s''
      [VaStr (cstr ''k''), VaStr (cstr ''v'')] dribble = Inr (obj, c', w') \<and> obj \<noteq> 0 \<and>
    w_sent w' = w_sent dribble @ command [''SET'', ''k'', ''v''] \<and> quiet zero_alloc c' \<and>
    represents (w_heap w') obj (RStatus ''OK'') \<and>
    (\<exists>h. freeReplyObject obj (w_heap w') = Inr h \<and> h_objs h = h_objs (w_heap dribble))"
  by (rule command_roundtrip[OF total_zero_alloc fresh_quiet(1) _ _ _ set_kv])
    (simp_all add: fresh_quiet(2) set_kv_size dribble_def heap_ok_empty)

end
