(* ===== verification/TextUtil.thy ===== *)
theory TextUtil
  imports SdsText
begin

text \<open>
  The string helpers of the service: src/base/util.cc (splitting, numbers, the question marks of a
  query template, URL escapes, searching a block of memory) and the string part of
  src/base/tc_common.cc (trimming, query parameters, file suffixes, random names).

  A \<open>std::string\<close> is a list of bytes; a \<open>char *\<close> is the memory from the address on, as in
  the theory \<open>Prelude\<close>.
\<close>

section \<open>src/base/util.cc\<close>

subsection \<open>Splitting\<close>

text \<open>
  \<open>CStrExplode\<close> walks over the text twice: it counts separators, then cuts.  \<open>cur\<close> holds the
  characters from \<open>start\<close> to \<open>pos\<close>; a separator at \<open>start\<close> itself is no cut.  The vector has one
  slot per counted item, and a slot that is never assigned stays uninitialised (\<open>None\<close>).
\<close>

fun explode_loop :: "char \<Rightarrow> string \<Rightarrow> string \<Rightarrow> string list" where
  "explode_loop sep cur [] = (if cur = [] then [] else [cur])"
| "explode_loop sep cur (c # cs) =
     (if cur \<noteq> [] \<and> c = sep then cur # explode_loop sep [] cs else explode_loop sep (cur @ [c]) cs)"

definition CStrExplode :: "string \<Rightarrow> char \<Rightarrow> string option list" where
  "CStrExplode str sep =
     (let item_cnt = 1 + length (filter (\<lambda>c. c = sep) str); items = explode_loop sep [] str
      in map Some items @ replicate (item_cnt - length items) None)"

definition GetItem :: "string option list \<Rightarrow> nat \<Rightarrow> string res" where
  "GetItem items idx =
     (if idx < length items then (case items ! idx of None \<Rightarrow> Inl Uninitialised | Some s \<Rightarrow> Inr s)
      else Inl OutOfBounds)"

definition ReplaceStr :: "char list \<Rightarrow> char \<Rightarrow> char \<Rightarrow> char list res" where
  "ReplaceStr src old new =
     bindR (c_strlen src) (\<lambda>n. Inr (map (\<lambda>c. if c = old then new else c) (take n src) @ drop n src))"

subsection \<open>Numbers\<close>

text \<open>
  \<open>atoi\<close> and \<open>atoll\<close> of the C library: white space, a sign, digits; \<open>strtol\<close> saturates at 64 bits and
  \<open>atoi\<close> keeps the low 32 of them.
\<close>

definition c_str :: "string \<Rightarrow> string" where
  "c_str s = takeWhile (\<lambda>c. c \<noteq> NUL) s"

definition strtol :: "string \<Rightarrow> int" where
  "strtol s =
     (let s = dropWhile c_isspace s;
          neg = (s \<noteq> [] \<and> hd s = CHR ''-'');
          s = (if s \<noteq> [] \<and> (hd s = CHR ''-'' \<or> hd s = CHR ''+'') then tl s else s);
          v = int (dec_val (takeWhile is_digit s))
      in if neg then max (- (2 ^ 63)) (- v) else min (2 ^ 63 - 1) v)"

definition atoi :: "string \<Rightarrow> int" where
  "atoi s = to_int (strtol s)"

definition atoll :: "string \<Rightarrow> int" where
  "atoll s = strtol s"

definition Int2String :: "32 word \<Rightarrow> string" where
  "Int2String user_id = dec (unat user_id)"

definition String2Int :: "string \<Rightarrow> 32 word" where
  "String2Int value = word_of_int (atoi (c_str value))"

subsection \<open>Question marks of a query\<close>

text \<open>\<open>str.find('?', begin_pos)\<close>\<close>

definition find_from :: "char \<Rightarrow> string \<Rightarrow> nat \<Rightarrow> nat option" where
  "find_from c str begin_pos =
     (let n = length (takeWhile (\<lambda>x. x \<noteq> c) (drop begin_pos str))
      in if begin_pos + n < length str then Some (begin_pos + n) else None)"

text \<open>Both overloads put a text in place of the mark; \<open>begin_pos\<close> is a \<open>uint32_t\<close>.\<close>

definition replace_at :: "string \<Rightarrow> nat \<Rightarrow> string \<Rightarrow> string" where
  "replace_at str pos new = take pos str @ new @ drop (pos + 1) str"

definition ReplaceMark :: "string \<Rightarrow> string \<Rightarrow> 32 word \<Rightarrow> string \<times> 32 word" where
  "ReplaceMark str new_value begin_pos =
     (case find_from CHR ''?'' str (unat begin_pos) of
        None \<Rightarrow> (str, begin_pos)
      | Some pos \<Rightarrow>
          let prime = [CHR 0x27] @ new_value @ [CHR 0x27]
          in (replace_at str pos prime, word_of_nat (pos + length prime)))"

definition ReplaceMark_int :: "string \<Rightarrow> 32 word \<Rightarrow> 32 word \<Rightarrow> string \<times> 32 word" where
  "ReplaceMark_int str new_value begin_pos =
     (let str_value = dec (unat new_value)
      in case find_from CHR ''?'' str (unat begin_pos) of
           None \<Rightarrow> (str, begin_pos)
         | Some pos \<Rightarrow> (replace_at str pos str_value, word_of_nat (pos + length str_value)))"

subsection \<open>URL escapes\<close>

text \<open>The digit functions compute in \<open>unsigned char\<close>.\<close>

definition ToHex :: "nat \<Rightarrow> nat" where
  "ToHex x = (if x > 9 then x - 10 + 65 else x + 48) mod 256"

definition FromHex :: "nat \<Rightarrow> nat" where
  "FromHex x = (if 48 \<le> x \<and> x \<le> 57 then x - 48 else (x + 256 - 65 + 10) mod 256)"

definition c_isalnum :: "char \<Rightarrow> bool" where
  "c_isalnum c \<longleftrightarrow> is_digit c \<or> (65 \<le> ord c \<and> ord c \<le> 90) \<or> (97 \<le> ord c \<and> ord c \<le> 122)"

definition encode_char :: "char \<Rightarrow> string" where
  "encode_char c =
     (if c_isalnum c then [c]
      else [CHR ''%'', char_of (ToHex (drop_bit 4 (ord c))), char_of (ToHex (ord c mod 16))])"

definition URLEncode :: "string \<Rightarrow> string" where
  "URLEncode s = concat (map encode_char s)"

text \<open>\<open>in[in.size()]\<close> is the terminator; an index beyond it is outside the string.\<close>

definition str_at :: "string \<Rightarrow> nat \<Rightarrow> char res" where
  "str_at s i = (if i < length s then Inr (s ! i) else if i = length s then Inr NUL else Inl OutOfBounds)"

function decode_loop :: "string \<Rightarrow> nat \<Rightarrow> string res" where
  "decode_loop s ix =
     (if ix < length s then
        if s ! ix = CHR ''%'' then
          bindR (str_at s (ix + 1)) (\<lambda>a. bindR (str_at s (ix + 2)) (\<lambda>b.
          let ch = or (push_bit 4 (FromHex (ord a)) mod 256) (FromHex (ord b))
          in bindR (decode_loop s (ix + 3)) (\<lambda>t. Inr (char_of ch # t))))
        else
          bindR (decode_loop s (ix + 1)) (\<lambda>t. Inr ((if s ! ix = CHR ''+'' then CHR '' '' else s ! ix) # t))
      else Inr [])"
  by pat_completeness auto
termination
  by (relation "measure (\<lambda>(s, ix). length s - ix)") auto

declare decode_loop.simps [simp del]

definition URLDecode :: "string \<Rightarrow> string res" where
  "URLDecode s = decode_loop s 0"

subsection \<open>Searching a block\<close>

text \<open>
  \<open>src\<close> and \<open>sub\<close> are the memory at the two addresses.  The lengths are unsigned, so
  \<open>src_len - sub_len\<close> wraps when \<open>strlen\<close> replaced an empty \<open>sub_len\<close> by a longer one.
\<close>

function find_forward :: "char list \<Rightarrow> char list \<Rightarrow> nat \<Rightarrow> nat \<Rightarrow> nat \<Rightarrow> nat option res" where
  "find_forward src sub sub_len end' i =
     (if i < end' then
        bindR (mem_read src i sub_len) (\<lambda>p. bindR (mem_read sub 0 sub_len) (\<lambda>q.
        if p = q then Inr (Some i) else find_forward src sub sub_len end' (i + 1)))
      else Inr None)"
  by pat_completeness auto
termination
  by (relation "measure (\<lambda>(src, sub, n, e, i). e - i)") auto

fun find_backward :: "char list \<Rightarrow> char list \<Rightarrow> nat \<Rightarrow> nat \<Rightarrow> nat option res" where
  "find_backward src sub sub_len i =
     bindR (mem_read src i sub_len) (\<lambda>p. bindR (mem_read sub 0 sub_len) (\<lambda>q.
     if p = q then Inr (Some i) else (case i of 0 \<Rightarrow> Inr None | Suc j \<Rightarrow> find_backward src sub sub_len j)))"

declare find_forward.simps [simp del] find_backward.simps [simp del]

definition MemFind :: "char list option \<Rightarrow> nat \<Rightarrow> char list option \<Rightarrow> nat \<Rightarrow> bool \<Rightarrow> nat option res" where
  "MemFind src_str src_len sub_str sub_len forward =
     (case (src_str, sub_str) of
        (Some src, Some sub) \<Rightarrow>
          if src_len = 0 \<or> src_len < sub_len then Inr None
          else
            bindR (if sub_len = 0 then c_strlen sub else Inr sub_len) (\<lambda>sub_len.
            if src_len = sub_len then
              bindR (mem_read src 0 src_len) (\<lambda>p. bindR (mem_read sub 0 src_len) (\<lambda>q.
              Inr (if p = q then Some 0 else None)))
            else if forward then find_forward src sub sub_len (usub src_len sub_len) 0
            else
              let i = to_int (int (usub src_len sub_len)) in
              if i < 0 then Inr None else find_backward src sub sub_len (nat i))
      | _ \<Rightarrow> Inr None)"

section \<open>src/base/tc_common.cc\<close>

subsection \<open>Trimming\<close>

text \<open>A read at an \<open>int\<close> index.\<close>

definition char_at :: "char list \<Rightarrow> int \<Rightarrow> char res" where
  "char_at buf i = (if 0 \<le> i \<and> i < int (length buf) then Inr (buf ! nat i) else Inl OutOfBounds)"

function skip_space :: "char list \<Rightarrow> int \<Rightarrow> int res" where
  "skip_space buf i =
     (case char_at buf i of
        Inl e \<Rightarrow> Inl e
      | Inr c \<Rightarrow> if c_isspace c \<and> c \<noteq> NUL then skip_space buf (i + 1) else Inr i)"
  by pat_completeness auto
termination
  by (relation "measure (\<lambda>(buf, i). nat (int (length buf) - i))") (auto simp: char_at_def split: if_splits)

function trim_end :: "char list \<Rightarrow> int \<Rightarrow> int \<Rightarrow> int res" where
  "trim_end buf i j =
     (case char_at buf j of
        Inl e \<Rightarrow> Inl e
      | Inr c \<Rightarrow> if c_isspace c \<and> j > i then trim_end buf i (j - 1) else Inr j)"
  by pat_completeness auto
termination
  by (relation "measure (\<lambda>(buf, i, j). nat (j - i))") auto

declare skip_space.simps [simp del] trim_end.simps [simp del]

text \<open>The string moves to the front of its own buffer; \<open>strncpy\<close> copies forwards.\<close>

definition TrimSpace :: "char list \<Rightarrow> (int \<times> char list) res" where
  "TrimSpace inbuf =
     bindR (c_strlen inbuf) (\<lambda>len.
     bindR (skip_space inbuf 0) (\<lambda>i.
     bindR (trim_end inbuf i (int len - 1)) (\<lambda>j.
     let count = nat (j - i + 1) in
     bindR (mem_read inbuf (nat i) count) (\<lambda>t.
     bindR (mem_write inbuf 0 t) (\<lambda>b.
     bindR (mem_write b count [NUL]) (\<lambda>b. Inr (0, b)))))))"

subsection \<open>Query parameters and suffixes\<close>

text \<open>\<open>strstr\<close>: the first offset at which the key starts.\<close>

definition prefix_at :: "string \<Rightarrow> string \<Rightarrow> nat \<Rightarrow> bool" where
  "prefix_at key s i \<longleftrightarrow> take (length key) (drop i s) = key"

definition strstr :: "string \<Rightarrow> string \<Rightarrow> nat option" where
  "strstr s key = find (prefix_at key s) [0..<Suc (length s)]"

definition value_char :: "char \<Rightarrow> bool" where
  "value_char c \<longleftrightarrow> c \<noteq> NUL \<and> c \<noteq> CHR ''#'' \<and> c \<noteq> CHR ''&''"

text \<open>
  The scan starts one byte after the key, whatever is there; it must meet one of the three stops
  inside the query's memory.  \<open>value\<close> is the buffer of the caller.
\<close>

definition QueryParseKeyValue :: "char list \<Rightarrow> string \<Rightarrow> char list \<Rightarrow> (int \<times> char list \<times> nat) res" where
  "QueryParseKeyValue query key value =
     bindR (c_strlen query) (\<lambda>n.
     case strstr (take n query) key of
       None \<Rightarrow> Inr (- 1, value, 0)
     | Some at \<Rightarrow>
         let temp = drop (at + length key + 1) query; val = takeWhile value_char temp in
         if length val < length temp then
           bindR (mem_write value 0 (val @ [NUL])) (\<lambda>value. Inr (0, value, length val))
         else Inl OutOfBounds)"

text \<open>\<open>after_dot t\<close>: the characters after the last dot, if there is one.\<close>

fun scan_dot :: "string \<Rightarrow> string \<Rightarrow> string option" where
  "scan_dot [] acc = None"
| "scan_dot (c # rs) acc = (if c = CHR ''.'' then Some acc else scan_dot rs (c # acc))"

definition GetFileSuffix :: "char list option \<Rightarrow> char list \<Rightarrow> (int \<times> char list) res" where
  "GetFileSuffix file_name suffix =
     (case file_name of
        None \<Rightarrow> Inr (- 1, suffix)
      | Some p \<Rightarrow>
          bindR (c_strlen p) (\<lambda>n.
          bindR (mem_write suffix 0
                   (case scan_dot (rev (take n p)) [] of
                      None \<Rightarrow> ''null'' @ [NUL]
                    | Some k \<Rightarrow> if length k \<noteq> 0 then k @ [NUL] else ''null'' @ [NUL])) (\<lambda>b.
          Inr (0, b))))"

subsection \<open>Random names\<close>

text \<open>\<open>rnd i\<close> is the \<open>i\<close>-th number the generator yields.\<close>

definition RandomString :: "(nat \<Rightarrow> nat) \<Rightarrow> int \<Rightarrow> string" where
  "RandomString rnd len = map (\<lambda>idx. char_of (97 + rnd idx mod 26)) [0..<nat len]"

text \<open>\<open>std::hex\<close> prints a digit below 16 in lower case.\<close>

definition hex_digits :: "(nat \<Rightarrow> nat) \<Rightarrow> nat \<Rightarrow> nat \<Rightarrow> string" where
  "hex_digits dist from n = map (\<lambda>i. hex_digit (dist (from + i))) [0..<n]"

definition SpawnUUID :: "(nat \<Rightarrow> nat) \<Rightarrow> string" where
  "SpawnUUID dist =
     hex_digits dist 0 8 @ ''-'' @ hex_digits dist 8 4 @ ''-4'' @ hex_digits dist 12 3 @ ''-'' @
     [hex_digit (or (and (dist 15) 3) 8)] @ hex_digits dist 16 3 @ ''-'' @ hex_digits dist 19 12"

section \<open>Splitting and filling in\<close>

text \<open>Pieces that are not empty and hold no separator come back.\<close>

lemma explode_loop_piece:
  "sep \<notin> set x \<Longrightarrow> explode_loop sep cur (x @ rest) = explode_loop sep (cur @ x) rest"
  by (induction x arbitrary: cur) auto

lemma explode_loop_items:
  "\<forall>x \<in> set items. x \<noteq> [] \<and> sep \<notin> set x \<Longrightarrow> explode_loop sep [] (intercalate [sep] items) = items"
proof (induction items rule: induct_list012)
  case (2 x)
  then show ?case using explode_loop_piece[of sep x "[]" "[]"] by simp
next
  case (3 x y zs)
  then show ?case using explode_loop_piece[of sep x "[]" "sep # intercalate [sep] (y # zs)"] by simp
qed simp

lemma separators: "items \<noteq> [] \<Longrightarrow> \<forall>x \<in> set items. sep \<notin> set x \<Longrightarrow>
    1 + length (filter (\<lambda>c. c = sep) (intercalate [sep] items)) = length items"
proof (induction items rule: induct_list012)
  case (3 x y zs)
  have "filter (\<lambda>c. c = sep) x = []" using "3.prems"(2) by (auto simp: filter_empty_conv)
  then show ?case using 3 by simp
qed (auto simp: filter_empty_conv)

lemma explode_items:
  assumes "items \<noteq> []" "\<forall>x \<in> set items. x \<noteq> [] \<and> sep \<notin> set x"
  shows "CStrExplode (intercalate [sep] items) sep = map Some items"
  using separators[OF assms(1)] assms explode_loop_items[OF assms(2)] by (simp add: CStrExplode_def Let_def)

text \<open>A template with its marks replaced from left to right.\<close>

fun fill :: "string \<Rightarrow> string list \<Rightarrow> string" where
  "fill t [] = t"
| "fill t (v # vs) =
     takeWhile (\<lambda>c. c \<noteq> CHR ''?'') t @
     (case dropWhile (\<lambda>c. c \<noteq> CHR ''?'') t of [] \<Rightarrow> []
      | q # rest \<Rightarrow> [CHR 0x27] @ v @ [CHR 0x27] @ fill rest vs)"

lemma mark_cases:
  obtains (absent) "c \<notin> set t" | (marked) k rest where "t = k @ c # rest" "c \<notin> set k"
  by (meson split_list_first)

lemma stop_at: "c \<notin> set k \<Longrightarrow> takeWhile (\<lambda>x. x \<noteq> c) (k @ c # rest) = k"
  "c \<notin> set k \<Longrightarrow> dropWhile (\<lambda>x. x \<noteq> c) (k @ c # rest) = c # rest"
  "c \<notin> set t \<Longrightarrow> takeWhile (\<lambda>x. x \<noteq> c) t = t" "c \<notin> set t \<Longrightarrow> dropWhile (\<lambda>x. x \<noteq> c) t = []"
  by (induction k) (auto simp: takeWhile_eq_all_conv)

lemma fill_absent: "CHR ''?'' \<notin> set t \<Longrightarrow> fill t vs = t"
  by (cases vs) (auto simp: stop_at)

lemma fill_marked: "CHR ''?'' \<notin> set k \<Longrightarrow>
    fill (k @ CHR ''?'' # rest) (v # vs) = k @ [CHR 0x27] @ v @ [CHR 0x27] @ fill rest vs"
  by (simp add: stop_at)

lemma find_from_absent: "c \<notin> set t \<Longrightarrow> find_from c (a @ t) (length a) = None"
  by (simp add: find_from_def stop_at)

lemma find_from_marked: "c \<notin> set k \<Longrightarrow> find_from c (a @ k @ c # rest) (length a) = Some (length a + length k)"
  by (simp add: find_from_def stop_at)

lemma unat_small: "n < 2 ^ 32 \<Longrightarrow> unat (word_of_nat n :: 32 word) = n"
  by (simp add: unat_of_nat take_bit_nat_eq_self)

lemma fill_marks:
  assumes "length a + length t + length (concat vs) + 2 * length vs < 2 ^ 32"
  shows "fst (foldl (\<lambda>(s, p) v. ReplaceMark s v p) (a @ t, word_of_nat (length a)) vs) = a @ fill t vs"
  using assms
proof (induction vs arbitrary: a t)
  case (Cons v vs)
  have n: "unat (word_of_nat (length a) :: 32 word) = length a" using Cons.prems by (intro unat_small) simp
  show ?case
  proof (cases t rule: mark_cases[of "CHR ''?''"])
    case absent
    then have "ReplaceMark (a @ t) v (word_of_nat (length a)) = (a @ t, word_of_nat (length a))"
      by (simp add: ReplaceMark_def n find_from_absent)
    then show ?thesis using Cons.IH[of a t] Cons.prems absent by (simp add: fill_absent del: fill.simps)
  next
    case (marked k rest)
    let ?b = "a @ k @ [CHR 0x27] @ v @ [CHR 0x27]"
    have "ReplaceMark (a @ t) v (word_of_nat (length a)) = (?b @ rest, word_of_nat (length ?b))"
      using marked by (simp add: ReplaceMark_def n find_from_marked Let_def replace_at_def ac_simps)
    moreover have "length ?b + length rest + length (concat vs) + 2 * length vs < 2 ^ 32"
      using Cons.prems marked(1) by simp
    ultimately show ?thesis using Cons.IH[of ?b rest] marked by (simp add: fill_marked del: fill.simps)
  qed
qed simp

section \<open>URL escapes and numbers\<close>

lemma hex_nibble: "d < 16 \<Longrightarrow> FromHex (ToHex d mod 256) = d"
  by (auto simp: ToHex_def FromHex_def)

lemma hex_alnum: "d < 16 \<Longrightarrow> c_isalnum (char_of (ToHex d))"
  by (auto simp: ToHex_def c_isalnum_def is_digit_def)

lemma nibbles: "n < 256 \<Longrightarrow> or (push_bit 4 (n div 16) mod 256) (n mod 16) = (n::nat)"
proof -
  assume "n < 256"
  then have "push_bit 4 (n div 16) mod 256 = push_bit 4 (drop_bit 4 n)" "n mod 16 = take_bit 4 n"
    by (simp_all add: drop_bit_eq_div push_bit_eq_mult take_bit_eq_mod)
  moreover have "or (push_bit 4 (drop_bit 4 n)) (take_bit 4 n) = n"
    by (rule bit_eqI) (auto simp: bit_simps)
  ultimately show ?thesis by simp
qed

lemma str_at_mid: "str_at (a @ x # b # c) (Suc (length a)) = Inr b"
  "str_at (a @ x # y # b # c) (Suc (Suc (length a))) = Inr b"
  by (simp_all add: str_at_def nth_append)

lemma decode_plain:
  assumes "c \<noteq> CHR ''%''" "c \<noteq> CHR ''+''"
  shows "decode_loop (a @ c # t) (length a) = bindR (decode_loop ((a @ [c]) @ t) (length (a @ [c]))) (\<lambda>u. Inr (c # u))"
  using assms by (subst decode_loop.simps) simp

lemma decode_escape:
  assumes "c = char_of (or (push_bit 4 (FromHex (ord x)) mod 256) (FromHex (ord y)))"
  shows "decode_loop (a @ CHR ''%'' # x # y # t) (length a) =
    bindR (decode_loop ((a @ [CHR ''%'', x, y]) @ t) (length (a @ [CHR ''%'', x, y]))) (\<lambda>u. Inr (c # u))"
  using assms by (subst decode_loop.simps) (simp add: str_at_mid Let_def numeral_3_eq_3)

lemma decode_encode: "decode_loop (a @ URLEncode t) (length a) = Inr t"
proof (induction t arbitrary: a)
  case (Cons c t)
  show ?case
  proof (cases "c_isalnum c")
    case True
    then have "c \<noteq> CHR ''%''" "c \<noteq> CHR ''+''" by (auto simp: c_isalnum_def is_digit_def)
    from decode_plain[OF this] show ?thesis using True Cons.IH[of "a @ [c]"]
      by (simp add: URLEncode_def encode_char_def)
  next
    case False
    let ?x = "char_of (ToHex (drop_bit 4 (ord c)))" and ?y = "char_of (ToHex (ord c mod 16))"
    have "ord c < 256" by (rule ord_less)
    then have "c = char_of (or (push_bit 4 (FromHex (ord ?x)) mod 256) (FromHex (ord ?y)))"
      using nibbles[of "ord c"] ord_div_16[of c] by (simp add: drop_bit_eq_div hex_nibble)
    from decode_escape[OF this, of a "URLEncode t"] show ?thesis
      using False Cons.IH[of "a @ [CHR ''%'', ?x, ?y]"] by (simp add: URLEncode_def encode_char_def)
  qed
qed (simp add: URLEncode_def decode_loop.simps)

lemma encode_alphabet: "\<forall>c \<in> set (URLEncode s). c_isalnum c \<or> c = CHR ''%''"
proof
  fix c assume "c \<in> set (URLEncode s)"
  then obtain x where "c \<in> set (encode_char x)" by (auto simp: URLEncode_def)
  moreover have "ord x div 16 < 16" "ord x mod 16 < 16" by (rule ord_div_16) simp
  ultimately show "c_isalnum c \<or> c = CHR ''%''"
    by (auto simp: encode_char_def drop_bit_eq_div hex_alnum split: if_splits)
qed

lemma strtol_dec: "v < 2 ^ 63 \<Longrightarrow> strtol (dec v) = int v"
proof -
  assume v: "v < 2 ^ 63"
  obtain c cs where d: "dec v = c # cs" by (cases "dec v") simp_all
  have c: "is_digit c" and all: "\<forall>c \<in> set (dec v). is_digit c" using dec_digits[of v] d by auto
  have "\<not> c_isspace c" "c \<noteq> CHR ''-''" "c \<noteq> CHR ''+''" using c by (auto simp: is_digit_def c_isspace_def)
  moreover have "takeWhile is_digit (dec v) = dec v" using all by (simp add: takeWhile_eq_all_conv)
  ultimately show ?thesis using v d dec_val_dec[of v] by (simp add: strtol_def Let_def)
qed

lemma c_str_dec [simp]: "c_str (dec v) = dec v"
  using dec_digits[of v] by (auto simp: c_str_def takeWhile_eq_all_conv is_digit_def)

lemma String2Int_Int2String: "String2Int (Int2String n) = n"
proof -
  have n: "unat n < 2 ^ 32" using unsigned_less[of n] by simp
  have "strtol (dec (unat n)) = uint n" using n by (subst strtol_dec) (simp_all add: less_trans)
  moreover have "word_of_int (to_int (uint n)) = n"
    unfolding to_int_def by (rule bit_word_eqI) (auto simp: bit_simps)
  ultimately show ?thesis by (simp add: String2Int_def Int2String_def atoi_def)
qed

section \<open>Searching, trimming and query parameters\<close>

definition occurs :: "char list \<Rightarrow> char list \<Rightarrow> nat \<Rightarrow> nat \<Rightarrow> bool" where
  "occurs src sub n i \<longleftrightarrow> take n (drop i src) = take n sub"

lemma find_forward_ok:
  "n \<le> length sub \<Longrightarrow> e + n \<le> length src \<Longrightarrow> i \<le> e \<Longrightarrow>
     find_forward src sub n e i = Inr (find (occurs src sub n) [i..<e])"
proof (induction "e - i" arbitrary: i)
  case (Suc k)
  then have "[i..<e] = i # [Suc i..<e]" by (simp add: upt_conv_Cons)
  moreover have "i < e" "k = e - Suc i" using Suc.hyps(2) by auto
  ultimately show ?case using Suc.hyps(1)[of "Suc i"] Suc.prems
    by (subst find_forward.simps) (simp add: mem_read_def occurs_def)
qed (simp add: find_forward.simps)

lemma find_backward_ok:
  "n \<le> length sub \<Longrightarrow> i + n \<le> length src \<Longrightarrow>
     find_backward src sub n i = Inr (find (occurs src sub n) (rev [0..<Suc i]))"
  by (induction i) (simp_all add: find_backward.simps mem_read_def occurs_def)

lemma MemFind_ok:
  assumes "src_len \<le> length src" "sub_len \<le> length sub" "0 < sub_len" "sub_len < src_len" "src_len < 2 ^ 31"
  shows "MemFind (Some src) src_len (Some sub) sub_len True =
      Inr (find (occurs src sub sub_len) [0..<src_len - sub_len])"
    "MemFind (Some src) src_len (Some sub) sub_len False =
      Inr (find (occurs src sub sub_len) (rev [0..<Suc (src_len - sub_len)]))"
proof -
  have d: "usub src_len sub_len = src_len - sub_len" using assms by (intro usub_le) simp_all
  have "int (src_len - sub_len) < 2 ^ 31" using assms by simp
  then have "to_int (int (usub src_len sub_len)) = int (src_len - sub_len)" unfolding d by (intro to_int_id) simp_all
  then show "MemFind (Some src) src_len (Some sub) sub_len True =
      Inr (find (occurs src sub sub_len) [0..<src_len - sub_len])"
    "MemFind (Some src) src_len (Some sub) sub_len False =
      Inr (find (occurs src sub sub_len) (rev [0..<Suc (src_len - sub_len)]))"
    using assms d by (simp_all add: MemFind_def Let_def find_forward_ok find_backward_ok del: upt_Suc of_nat_diff int_ops(6))
qed

lemma not_space_NUL [simp]: "\<not> c_isspace NUL"
  by (simp add: c_isspace_def)

lemma char_at_mid [simp]: "char_at (a @ c # r) (int (length a)) = Inr c"
  by (simp add: char_at_def)

lemma skip_space_ok:
  "\<forall>c \<in> set sp. c_isspace c \<Longrightarrow> \<not> c_isspace x \<Longrightarrow>
     skip_space (a @ sp @ x # r) (int (length a)) = Inr (int (length a + length sp))"
proof (induction sp arbitrary: a)
  case Nil
  then show ?case by (subst skip_space.simps) simp
next
  case (Cons c sp)
  then have "c \<noteq> NUL" by auto
  then show ?case using Cons.prems Cons.IH[of "a @ [c]"] by (subst skip_space.simps) (simp add: add.commute)
qed

lemma trim_end_ok:
  "\<forall>c \<in> set w. c_isspace c \<Longrightarrow> \<not> c_isspace x \<Longrightarrow> i \<le> int (length a) \<Longrightarrow>
     trim_end (a @ x # w @ r) i (int (length a + length w)) = Inr (int (length a))"
proof (induction w arbitrary: r rule: rev_induct)
  case Nil
  then show ?case by (subst trim_end.simps) simp
next
  case (snoc c w)
  have c: "char_at (a @ x # w @ c # r) (int (length a + Suc (length w))) = Inr c"
    using char_at_mid[of "a @ x # w" c r] by simp
  have "trim_end (a @ x # w @ c # r) i (int (length a + length w)) = Inr (int (length a))"
    using snoc by simp
  then show ?case using c snoc.prems by (subst trim_end.simps) simp
qed

lemma trim_parts:
  obtains sp w where "t = sp @ trim_both P t @ w" "\<forall>c \<in> set sp. P c" "\<forall>c \<in> set w. P c"
    "trim_both P t = [] \<longrightarrow> w = []"
    "trim_both P t \<noteq> [] \<longrightarrow> \<not> P (hd (trim_both P t)) \<and> \<not> P (last (trim_both P t))"
proof -
  let ?u = "dropWhile P t"
  let ?w = "rev (takeWhile P (rev ?u))"
  have u: "?u = trim_both P t @ ?w"
    unfolding trim_both_def by (metis rev_append rev_rev_ident takeWhile_dropWhile_id)
  then have t: "t = takeWhile P t @ trim_both P t @ ?w" by (metis takeWhile_dropWhile_id)
  have "\<forall>c \<in> set (takeWhile P t). P c" "\<forall>c \<in> set ?w. P c" by (auto dest: set_takeWhileD)
  moreover have "trim_both P t = [] \<longrightarrow> ?w = []"
  proof
    assume "trim_both P t = []"
    then have "\<forall>c \<in> set ?u. P c" by (simp add: trim_both_def)
    then have "?u = []" by (metis dropWhile_eq_Nil_conv hd_dropWhile list.set_sel(1))
    then show "?w = []" by (metis list.simps(8) rev.simps(1) takeWhile.simps(1))
  qed
  moreover have "trim_both P t \<noteq> [] \<longrightarrow> \<not> P (hd (trim_both P t)) \<and> \<not> P (last (trim_both P t))"
  proof
    assume n: "trim_both P t \<noteq> []"
    have "hd ?u = hd (trim_both P t)" using u n by (metis hd_append2)
    moreover have "?u \<noteq> []" using u n by (metis append_is_Nil_conv)
    moreover have "\<not> P (last (trim_both P t))"
      using n unfolding trim_both_def by (metis hd_dropWhile last_rev rev_is_Nil_conv)
    moreover from \<open>?u \<noteq> []\<close> have "\<not> P (hd ?u)" by (rule hd_dropWhile)
    ultimately show "\<not> P (hd (trim_both P t)) \<and> \<not> P (last (trim_both P t))" by simp
  qed
  ultimately show ?thesis using that[OF t] by blast
qed

lemma TrimSpace_ok:
  assumes "nul_free t" "t \<noteq> []"
  shows "\<exists>b rest'. TrimSpace (t @ NUL # rest) = Inr (0, b) \<and> b = trim_both c_isspace t @ NUL # rest' \<and>
    length b = length (t @ NUL # rest)"
proof -
  let ?v = "trim_both c_isspace t" and ?buf = "t @ NUL # rest"
  obtain sp w where p: "t = sp @ ?v @ w" "\<forall>c \<in> set sp. c_isspace c" "\<forall>c \<in> set w. c_isspace c"
    "?v = [] \<longrightarrow> w = []" "?v \<noteq> [] \<longrightarrow> \<not> c_isspace (hd ?v) \<and> \<not> c_isspace (last ?v)"
    by (rule trim_parts[of t c_isspace])
  have len: "c_strlen ?buf = Inr (length t)"
    using assms(1) by (auto simp: c_strlen_def nul_free_def takeWhile_append Let_def)
  have ends: "skip_space ?buf 0 = Inr (int (length sp)) \<and>
      trim_end ?buf (int (length sp)) (int (length t) - 1) = Inr (int (length sp + length ?v) - 1)"
  proof (cases "?v = []")
    case True
    then have t: "t = sp" using p(1,4) by simp
    obtain sp' x where x: "sp = sp' @ [x]" using assms(2) t by (cases sp rule: rev_cases) auto
    have "char_at ?buf (int (length sp')) = Inr x" using t x by simp
    then show ?thesis using skip_space_ok[OF p(2) not_space_NUL, of "[]" rest] t x True
      by (subst trim_end.simps) simp
  next
    case False
    then obtain v' x where v: "?v = v' @ [x]" by (cases ?v rule: rev_cases) auto
    obtain y v'' where v2: "?v = y # v''" using False by (cases ?v) auto
    have b1: "?buf = [] @ sp @ y # (v'' @ w @ NUL # rest)" and b2: "?buf = (sp @ v') @ x # w @ NUL # rest"
      by (subst p(1), simp add: v2) (subst p(1), simp add: v)
    have "length t = length sp + length v' + 1 + length w" by (subst p(1)) (simp add: v)
    then have j: "int (length t) - 1 = int (length (sp @ v') + length w)" by simp
    have "skip_space ?buf 0 = Inr (int (length sp))"
      using skip_space_ok[OF p(2), of y "[]" "v'' @ w @ NUL # rest"] False p(5) v2 unfolding b1 by simp
    moreover have "trim_end ?buf (int (length sp)) (int (length t) - 1) = Inr (int (length (sp @ v')))"
      unfolding b2 j using p(3,5) v by (intro trim_end_ok) auto
    ultimately show ?thesis by (simp add: v)
  qed
  have fit: "length sp + length ?v + length w = length t" using arg_cong[OF p(1), of length] by simp
  have "take (length ?v) (drop (length sp) ?buf) = ?v" by (subst p(1)) simp
  then have r: "mem_read ?buf (length sp) (length ?v) = Inr ?v" using fit by (simp add: mem_read_def)
  have w1: "mem_write ?buf 0 ?v = Inr (?v @ drop (length ?v) ?buf)" using fit by (simp add: mem_write_def)
  have "drop (length ?v) ?buf = (?buf ! length ?v) # drop (Suc (length ?v)) ?buf"
    using fit by (intro Cons_nth_drop_Suc[symmetric]) simp
  then have w2: "mem_write (?v @ drop (length ?v) ?buf) (length ?v) [NUL] = Inr (?v @ NUL # drop (Suc (length ?v)) ?buf)"
    using fit by (simp add: mem_write_def)
  have n: "nat (int (length sp + length ?v) - 1 - int (length sp) + 1) = length ?v" by simp
  have "TrimSpace ?buf = Inr (0, ?v @ NUL # drop (Suc (length ?v)) ?buf)"
    unfolding TrimSpace_def len bindR_simps ends[THEN conjunct1] ends[THEN conjunct2] Let_def n nat_int r w1 w2
    by (rule refl)
  then show ?thesis using fit by simp
qed

lemma mem_write_front: "length xs \<le> length b \<Longrightarrow> mem_write b 0 xs = Inr (xs @ drop (length xs) b)"
  by (simp add: mem_write_def)

text \<open>The value of a query parameter, and the suffix of a file name.\<close>

lemma find_skip: "\<forall>x \<in> set xs. \<not> P x \<Longrightarrow> find P (xs @ ys) = find P ys"
  by (induction xs) auto

lemma strstr_first:
  assumes "\<And>i. i < length a \<Longrightarrow> \<not> prefix_at key (a @ key @ b) i"
  shows "strstr (a @ key @ b) key = Some (length a)"
proof -
  have l: "[0..<Suc (length (a @ key @ b))] = [0..<length a] @ length a # [Suc (length a)..<Suc (length (a @ key @ b))]"
    using upt_add_eq_append[of 0 "length a" "Suc (length key + length b)"]
    by (simp add: upt_conv_Cons[of "length a"] del: upt_Suc)
  have "\<forall>i \<in> set [0..<length a]. \<not> prefix_at key (a @ key @ b) i" using assms by simp
  moreover have "prefix_at key (a @ key @ b) (length a)" by (simp add: prefix_at_def)
  ultimately show ?thesis unfolding strstr_def l by (simp only: find_skip find.simps if_True)
qed

lemma QueryParse_scan:
  assumes "nul_free (pre @ key @ ''='' @ val @ rest)" "\<forall>c \<in> set val. value_char c"
    "rest = [] \<or> hd rest = CHR ''&'' \<or> hd rest = CHR ''#''"
    "\<And>i. i < length pre \<Longrightarrow> \<not> prefix_at key (pre @ key @ ''='' @ val @ rest) i"
  shows "QueryParseKeyValue (cstr (pre @ key @ ''='' @ val @ rest)) key value =
    bindR (mem_write value 0 (val @ [NUL])) (\<lambda>value. Inr (0, value, length val))"
proof -
  let ?q = "pre @ key @ ''='' @ val @ rest"
  have at: "strstr ?q key = Some (length pre)" using strstr_first[of pre key "''='' @ val @ rest"] assms(4) by simp
  have temp: "drop (length pre + length key + 1) (cstr ?q) = val @ rest @ [NUL]" by (simp add: cstr_def)
  have "takeWhile value_char (rest @ [NUL]) = []"
    using assms(3) by (cases rest) (auto simp: value_char_def)
  then have val: "takeWhile value_char (val @ rest @ [NUL]) = val" using assms(2) by (simp add: takeWhile_append2)
  show ?thesis
    unfolding QueryParseKeyValue_def c_strlen_cstr[OF assms(1)] bindR_simps take_cstr at option.case Let_def temp val
    by simp
qed

lemma QueryParse_ok:
  assumes "nul_free (pre @ key @ ''='' @ val @ rest)" "\<forall>c \<in> set val. value_char c"
    "rest = [] \<or> hd rest = CHR ''&'' \<or> hd rest = CHR ''#''"
    "\<And>i. i < length pre \<Longrightarrow> \<not> prefix_at key (pre @ key @ ''='' @ val @ rest) i" "length val < length value"
  shows "QueryParseKeyValue (cstr (pre @ key @ ''='' @ val @ rest)) key value =
    Inr (0, val @ NUL # drop (Suc (length val)) value, length val)"
  using QueryParse_scan[OF assms(1-4)] assms(5) by (simp add: mem_write_front)

lemma QueryParse_full:
  assumes "nul_free (pre @ key @ ''='' @ val @ rest)" "\<forall>c \<in> set val. value_char c"
    "rest = [] \<or> hd rest = CHR ''&'' \<or> hd rest = CHR ''#''"
    "\<And>i. i < length pre \<Longrightarrow> \<not> prefix_at key (pre @ key @ ''='' @ val @ rest) i" "length value \<le> length val"
  shows "QueryParseKeyValue (cstr (pre @ key @ ''='' @ val @ rest)) key value = Inl OutOfBounds"
  using QueryParse_scan[OF assms(1-4)] assms(5) by (simp add: mem_write_def)

lemma scan_dot_found: "CHR ''.'' \<notin> set w \<Longrightarrow> scan_dot (w @ CHR ''.'' # v) acc = Some (rev w @ acc)"
  by (induction w arbitrary: acc) auto

lemma scan_dot_none: "CHR ''.'' \<notin> set w \<Longrightarrow> scan_dot w acc = None"
  by (induction w arbitrary: acc) auto

lemma GetFileSuffix_ok:
  assumes "nul_free (stem @ ''.'' @ ext)" "ext \<noteq> []" "CHR ''.'' \<notin> set ext" "length ext < length suffix"
  shows "GetFileSuffix (Some (cstr (stem @ ''.'' @ ext))) suffix = Inr (0, ext @ NUL # drop (Suc (length ext)) suffix)"
proof -
  have "scan_dot (rev (stem @ ''.'' @ ext)) [] = Some ext"
    using scan_dot_found[of "rev ext" "rev stem" "[]"] assms(3) by simp
  then show ?thesis
    unfolding GetFileSuffix_def option.case c_strlen_cstr[OF assms(1)] bindR_simps take_cstr
    using assms(2,4) by (simp add: mem_write_front)
qed

lemma GetFileSuffix_none:
  assumes "nul_free name" "CHR ''.'' \<notin> set name \<or> (\<exists>stem. name = stem @ ''.'')" "5 \<le> length suffix"
  shows "GetFileSuffix (Some (cstr name)) suffix = Inr (0, ''null'' @ NUL # drop 5 suffix)"
proof -
  have "scan_dot (rev name) [] = None \<or> scan_dot (rev name) [] = Some []"
    using assms(2) by (auto simp: scan_dot_none)
  then show ?thesis
    unfolding GetFileSuffix_def option.case c_strlen_cstr[OF assms(1)] bindR_simps take_cstr
    using assms(3) by (auto simp: mem_write_front eval_nat_numeral)
qed

text \<open>The shape of a version 4 UUID: \<open>x\<close> stands for a hexadecimal digit, \<open>y\<close> for one of the variant.\<close>

definition fits_shape :: "char \<Rightarrow> char \<Rightarrow> bool" where
  "fits_shape p c \<longleftrightarrow>
     (if p = CHR ''x'' then \<exists>d \<in> {..<16}. c = hex_digit d
      else if p = CHR ''y'' then c \<in> set ''89ab'' else c = p)"

lemma hex_digits_fit: "\<forall>i. dist i < 16 \<Longrightarrow> list_all2 fits_shape (replicate n CHR ''x'') (hex_digits dist from n)"
  by (auto simp: list_all2_conv_all_nth hex_digits_def fits_shape_def)

lemma low_bits: "and d 3 = d mod 4" for d :: nat
  using take_bit_eq_mask[of 2 d] by (simp add: take_bit_eq_mod mask_eq_exp_minus_1)

lemma variant_fit: "fits_shape CHR ''y'' (hex_digit (or (and d 3) 8))" for d :: nat
proof -
  have "\<forall>k \<in> {0, 1, 2, 3::nat}. fits_shape CHR ''y'' (hex_digit (or k 8))" by code_simp
  moreover have "d mod 4 \<in> {0, 1, 2, 3}" by auto
  ultimately show ?thesis unfolding low_bits by (rule bspec)
qed

lemma uuid_shape: "''xxxxxxxx-xxxx-4xxx-yxxx-xxxxxxxxxxxx'' =
    replicate 8 CHR ''x'' @ ''-'' @ replicate 4 CHR ''x'' @ ''-4'' @ replicate 3 CHR ''x'' @ ''-'' @ ''y'' @
    replicate 3 CHR ''x'' @ ''-'' @ replicate 12 CHR ''x''"
  by code_simp

section \<open>Inputs the helpers get wrong\<close>

lemma explode_gap: "CStrExplode ''a,,b'' CHR '','' = [Some ''a'', Some '',b'', None]"
  by code_simp

lemma memfind_misses_end: "MemFind (Some ''ab'') 2 (Some ''b'') 1 True = Inr None"
  using MemFind_ok(1)[of 2 "''ab''" 1 "''b''"] by (simp add: occurs_def)

lemma decode_past_end: "URLDecode ''a%'' = Inl OutOfBounds"
  by (simp add: URLDecode_def decode_loop.simps[of "''a%''"] str_at_def)

lemma decode_lower_case: "URLDecode ''%0a'' = Inr ''*''"
  by (simp add: URLDecode_def decode_loop.simps[of "''%0a''"] str_at_def FromHex_def Let_def, code_simp)

lemma trim_empty: "TrimSpace (NUL # rest) = Inl OutOfBounds"
proof -
  have "skip_space (NUL # rest) 0 = Inr 0" by (subst skip_space.simps) (simp add: char_at_def)
  moreover have "trim_end (NUL # rest) 0 (- 1) = Inl OutOfBounds" by (subst trim_end.simps) (simp add: char_at_def)
  ultimately show ?thesis by (simp add: TrimSpace_def c_strlen_def Let_def)
qed

section \<open>Properties\<close>

text \<open>A list of names joined by a separator is split into those names, if none of them is empty or
  holds the separator: every slot of the vector is filled.\<close>

theorem CStrExplode_roundtrip:
  assumes "items \<noteq> []" "\<forall>x \<in> set items. x \<noteq> [] \<and> sep \<notin> set x" "i < length items"
  shows "length (CStrExplode (intercalate [sep] items) sep) = length items \<and>
    GetItem (CStrExplode (intercalate [sep] items) sep) i = Inr (items ! i)"
  using assms by (simp add: explode_items GetItem_def)

theorem CStrExplode_witness:
  "GetItem (CStrExplode (intercalate [CHR '',''] [''token'', ''ranking'']) CHR '','') 1 = Inr ''ranking''"
  using CStrExplode_roundtrip[of "[''token'', ''ranking'']" "CHR '',''" 1] by simp

text \<open>C38: URL encoding writes only letters, digits and escapes, and decoding gives back every text.\<close>

theorem URL_roundtrip:
  "URLDecode (URLEncode s) = Inr s \<and> set (URLEncode s) \<subseteq> {c. c_isalnum c} \<union> {CHR ''%''}"
  using decode_encode[of "[]" s] encode_alphabet[of s] by (auto simp: URLDecode_def)

text \<open>C33: replacing the marks of a query template one after the other puts the i-th quoted value in place
  of the i-th mark; a mark inside a value already inserted is never replaced.\<close>

theorem ReplaceMark_fills:
  assumes "length template + length (concat vs) + 2 * length vs < 2 ^ 32"
  shows "fst (foldl (\<lambda>(s, pos) v. ReplaceMark s v pos) (template, 0) vs) = fill template vs"
  using fill_marks[of "[]" template vs] assms by simp

theorem ReplaceMark_witness:
  "fst (foldl (\<lambda>(s, pos) v. ReplaceMark s v pos) (''a=? and b=?'', 0) [''w?o'', ''z'']) =
     ''a='' @ [CHR 0x27] @ ''w?o'' @ [CHR 0x27] @ '' and b='' @ [CHR 0x27] @ ''z'' @ [CHR 0x27]"
  using ReplaceMark_fills[of "''a=? and b=?''" "[''w?o'', ''z'']"] by simp

text \<open>Trimming a text that is not empty leaves it without the white space at both ends, inside its own
  buffer.\<close>

theorem TrimSpace_trims:
  assumes "nul_free t" "t \<noteq> []"
  shows "\<exists>rest'. TrimSpace (t @ NUL # rest) = Inr (0, trim_both c_isspace t @ NUL # rest') \<and>
    length (trim_both c_isspace t) + length rest' = length t + length rest"
  using TrimSpace_ok[OF assms, of rest] by auto

theorem TrimSpace_witness:
  "\<exists>rest'. TrimSpace ('' ab '' @ [NUL]) = Inr (0, ''ab'' @ NUL # rest') \<and> length rest' = 2"
  using TrimSpace_trims[of "'' ab ''" "[]"] by (simp add: nul_free_def trim_both_def c_isspace_def numeral_2_eq_2)



text \<open>C40: whatever the generator yields, a spawned identifier has the shape of a version 4 UUID.\<close>

theorem SpawnUUID_shape:
  assumes "\<forall>i. dist i < 16"
  shows "list_all2 fits_shape ''xxxxxxxx-xxxx-4xxx-yxxx-xxxxxxxxxxxx'' (SpawnUUID dist)"
  unfolding uuid_shape SpawnUUID_def
  by (intro list_all2_appendI hex_digits_fit assms) (simp_all add: variant_fit, simp_all add: fits_shape_def)

theorem SpawnUUID_witness:
  "list_all2 fits_shape ''xxxxxxxx-xxxx-4xxx-yxxx-xxxxxxxxxxxx'' (SpawnUUID (\<lambda>i. 7 * i mod 16))"
  using SpawnUUID_shape[of "\<lambda>i. 7 * i mod 16"] by simp

end
