(* ===== verification/Pdu.thy ===== *)
theory Pdu
  imports TextUtil
begin

text \<open>
  The packet helpers of src/base/util_pdu.cc: the growing byte buffer \<open>CSimpleBuffer\<close>, the stream
  \<open>CByteStream\<close> that writes and reads big-endian fields in a block or such a buffer, and the
  identifiers in base 36.

  The \<open>uint32_t\<close> members are 32-bit words, so the checks of the code wrap as they do there.
\<close>

unbundle bit_operations_syntax

section \<open>The buffer\<close>

record CSimpleBuffer =
  sb_buf :: "char list option"
  alloc_size :: "32 word"
  write_offset :: "32 word"

definition empty_buffer :: CSimpleBuffer where
  "empty_buffer = \<lparr>sb_buf = None, alloc_size = 0, write_offset = 0\<rparr>"

text \<open>\<open>realloc\<close>: the new block starts with what fits of the old one.\<close>

definition realloc :: "allocator \<Rightarrow> char list option \<Rightarrow> nat \<Rightarrow> char list option" where
  "realloc m p n =
     (case m n of None \<Rightarrow> None
      | Some b \<Rightarrow> (case p of None \<Rightarrow> Some b | Some old \<Rightarrow> Some (take (length b) old @ drop (length old) b)))"

definition Extend :: "allocator \<Rightarrow> CSimpleBuffer \<Rightarrow> 32 word \<Rightarrow> CSimpleBuffer" where
  "Extend m s len =
     (let n = write_offset s + len; n = n + drop_bit 2 n
      in s\<lparr>alloc_size := n, sb_buf := realloc m (sb_buf s) (unat n)\<rparr>)"

text \<open>A copy through a pointer that may be NULL.\<close>

definition copy_to :: "char list option \<Rightarrow> nat \<Rightarrow> char list \<Rightarrow> char list option res" where
  "copy_to p off xs =
     (case p of None \<Rightarrow> if xs = [] then Inr None else Inl NullPointer
      | Some b \<Rightarrow> bindR (mem_write b off xs) (\<lambda>b. Inr (Some b)))"

definition copy_from :: "char list option \<Rightarrow> nat \<Rightarrow> nat \<Rightarrow> char list res" where
  "copy_from p off n =
     (case p of None \<Rightarrow> if n = 0 then Inr [] else Inl NullPointer | Some b \<Rightarrow> mem_read b off n)"

definition Write :: "allocator \<Rightarrow> CSimpleBuffer \<Rightarrow> char list option \<Rightarrow> 32 word \<Rightarrow> (32 word \<times> CSimpleBuffer) res" where
  "Write m s buf len =
     (let s = (if write_offset s + len > alloc_size s then Extend m s len else s) in
      bindR
        (case buf of None \<Rightarrow> Inr (sb_buf s)
         | Some p \<Rightarrow> bindR (mem_read p 0 (unat len)) (copy_to (sb_buf s) (unat (write_offset s)))) (\<lambda>b.
      Inr (len, s\<lparr>sb_buf := b, write_offset := write_offset s + len\<rparr>)))"

text \<open>The bytes read are part of the result, whether or not the caller gives a place for them.\<close>

definition Read :: "CSimpleBuffer \<Rightarrow> 32 word \<Rightarrow> (32 word \<times> char list \<times> CSimpleBuffer) res" where
  "Read s len =
     (if len = 0 then Inr (0, [], s)
      else
        let len = (if len > write_offset s then write_offset s else len); n = write_offset s - len in
        bindR (copy_from (sb_buf s) 0 (unat len)) (\<lambda>out.
        bindR (copy_from (sb_buf s) (unat len) (unat n)) (\<lambda>rest.
        bindR (copy_to (sb_buf s) 0 rest) (\<lambda>b.
        Inr (len, out, s\<lparr>sb_buf := b, write_offset := n\<rparr>)))))"

section \<open>The stream\<close>

record CByteStream =
  simple_buf :: "CSimpleBuffer option"
  st_buf :: "char list option"
  st_len :: "32 word"
  st_pos :: "32 word"

definition ERROR_CODE_PARSE_FAILED :: nat where
  "ERROR_CODE_PARSE_FAILED = 1"

definition stream_on :: "char list \<Rightarrow> 32 word \<Rightarrow> CByteStream" where
  "stream_on buf len = \<lparr>simple_buf = None, st_buf = Some buf, st_len = len, st_pos = 0\<rparr>"

definition stream_on_buffer :: "CSimpleBuffer \<Rightarrow> 32 word \<Rightarrow> CByteStream" where
  "stream_on_buffer s pos = \<lparr>simple_buf = Some s, st_buf = None, st_len = 0, st_pos = pos\<rparr>"

definition GetBuf :: "CByteStream \<Rightarrow> char list option" where
  "GetBuf st = (case simple_buf st of None \<Rightarrow> st_buf st | Some s \<Rightarrow> sb_buf s)"

definition Skip :: "CByteStream \<Rightarrow> 32 word \<Rightarrow> CByteStream res" where
  "Skip st len =
     (let st = st\<lparr>st_pos := st_pos st + len\<rparr> in
      if st_pos st > st_len st then Inl (Exception ERROR_CODE_PARSE_FAILED) else Inr st)"

definition ReadByte :: "CByteStream \<Rightarrow> 32 word \<Rightarrow> (char list \<times> CByteStream) res" where
  "ReadByte st len =
     (if st_pos st + len > st_len st then Inl (Exception ERROR_CODE_PARSE_FAILED)
      else
        bindR (case simple_buf st of
                 Some s \<Rightarrow> bindR (Read s len) (\<lambda>(_, out, s). Inr (out, st\<lparr>simple_buf := Some s\<rparr>))
               | None \<Rightarrow> bindR (copy_from (st_buf st) (unat (st_pos st)) (unat len)) (\<lambda>out. Inr (out, st)))
          (\<lambda>(out, st). Inr (out, st\<lparr>st_pos := st_pos st + len\<rparr>)))"

definition WriteByte :: "allocator \<Rightarrow> CByteStream \<Rightarrow> char list \<Rightarrow> 32 word \<Rightarrow> CByteStream res" where
  "WriteByte m st buf len =
     (if st_buf st \<noteq> None \<and> st_pos st + len > st_len st then Inr st
      else
        bindR (case simple_buf st of
                 Some s \<Rightarrow> bindR (Write m s (Some buf) len) (\<lambda>(_, s). Inr (st\<lparr>simple_buf := Some s\<rparr>))
               | None \<Rightarrow>
                   bindR (mem_read buf 0 (unat len)) (\<lambda>xs.
                   bindR (copy_to (st_buf st) (unat (st_pos st)) xs) (\<lambda>b. Inr (st\<lparr>st_buf := b\<rparr>))))
          (\<lambda>st. Inr (st\<lparr>st_pos := st_pos st + len\<rparr>)))"

section \<open>Big-endian fields\<close>

text \<open>\<open>static_cast<uchar_t>\<close>, and a byte as a word of any width.\<close>

definition uchar :: "'a::len word \<Rightarrow> char" where
  "uchar w = char_of (unat (take_bit 8 w))"

definition byte_at :: "char list \<Rightarrow> nat \<Rightarrow> 'a::len word" where
  "byte_at buf i = word_of_nat (ord (buf ! i))"

definition bytes16 :: "16 word \<Rightarrow> char list" where
  "bytes16 w = [uchar (drop_bit 8 w), uchar (w AND 0xFF)]"

definition bytes32 :: "32 word \<Rightarrow> char list" where
  "bytes32 w = [uchar (drop_bit 24 w), uchar (drop_bit 16 w AND 0xFF), uchar (drop_bit 8 w AND 0xFF), uchar (w AND 0xFF)]"

text \<open>The signed versions shift arithmetically.\<close>

definition signed_bytes16 :: "16 word \<Rightarrow> char list" where
  "signed_bytes16 w = [uchar (signed_drop_bit 8 w), uchar (w AND 0xFF)]"

definition signed_bytes32 :: "32 word \<Rightarrow> char list" where
  "signed_bytes32 w =
     [uchar (signed_drop_bit 24 w), uchar (signed_drop_bit 16 w AND 0xFF), uchar (signed_drop_bit 8 w AND 0xFF),
      uchar (w AND 0xFF)]"

text \<open>The bytes are promoted to \<open>int\<close>, shifted, and the result is narrowed.\<close>

definition join16 :: "char list \<Rightarrow> 16 word" where
  "join16 buf = ucast (push_bit 8 (byte_at buf 0) OR byte_at buf 1 :: 32 word)"

definition join32 :: "char list \<Rightarrow> 32 word" where
  "join32 buf = push_bit 24 (byte_at buf 0) OR push_bit 16 (byte_at buf 1) OR push_bit 8 (byte_at buf 2) OR byte_at buf 3"

definition ReadUint16 :: "char list \<Rightarrow> 16 word res" where
  "ReadUint16 buf = bindR (mem_read buf 0 2) (\<lambda>b. Inr (join16 b))"

definition ReadInt16 :: "char list \<Rightarrow> 16 word res" where
  "ReadInt16 buf = bindR (mem_read buf 0 2) (\<lambda>b. Inr (join16 b))"

definition ReadUint32 :: "char list \<Rightarrow> 32 word res" where
  "ReadUint32 buf = bindR (mem_read buf 0 4) (\<lambda>b. Inr (join32 b))"

definition ReadInt32 :: "char list \<Rightarrow> 32 word res" where
  "ReadInt32 buf = bindR (mem_read buf 0 4) (\<lambda>b. Inr (join32 b))"

definition WriteUint16 :: "char list \<Rightarrow> 16 word \<Rightarrow> char list res" where
  "WriteUint16 buf data = mem_write buf 0 (bytes16 data)"

definition WriteInt16 :: "char list \<Rightarrow> 16 word \<Rightarrow> char list res" where
  "WriteInt16 buf data = mem_write buf 0 (signed_bytes16 data)"

definition WriteUint32 :: "char list \<Rightarrow> 32 word \<Rightarrow> char list res" where
  "WriteUint32 buf data = mem_write buf 0 (bytes32 data)"

definition WriteInt32 :: "char list \<Rightarrow> 32 word \<Rightarrow> char list res" where
  "WriteInt32 buf data = mem_write buf 0 (signed_bytes32 data)"

text \<open>The stream operators; the 8-bit ones serve \<open>int8_t\<close> and \<open>uint8_t\<close>.\<close>

definition put8 :: "allocator \<Rightarrow> CByteStream \<Rightarrow> 8 word \<Rightarrow> CByteStream res" where
  "put8 m st data = WriteByte m st [uchar data] 1"

definition put_uint16 :: "allocator \<Rightarrow> CByteStream \<Rightarrow> 16 word \<Rightarrow> CByteStream res" where
  "put_uint16 m st data = WriteByte m st (bytes16 data) 2"

definition put_int16 :: "allocator \<Rightarrow> CByteStream \<Rightarrow> 16 word \<Rightarrow> CByteStream res" where
  "put_int16 m st data = WriteByte m st (signed_bytes16 data) 2"

definition put_uint32 :: "allocator \<Rightarrow> CByteStream \<Rightarrow> 32 word \<Rightarrow> CByteStream res" where
  "put_uint32 m st data = WriteByte m st (bytes32 data) 4"

definition put_int32 :: "allocator \<Rightarrow> CByteStream \<Rightarrow> 32 word \<Rightarrow> CByteStream res" where
  "put_int32 m st data = WriteByte m st (signed_bytes32 data) 4"

definition get8 :: "CByteStream \<Rightarrow> (8 word \<times> CByteStream) res" where
  "get8 st = bindR (ReadByte st 1) (\<lambda>(b, st). Inr (byte_at b 0, st))"

definition get_int16 :: "CByteStream \<Rightarrow> (16 word \<times> CByteStream) res" where
  "get_int16 st = bindR (ReadByte st 2) (\<lambda>(b, st). Inr (join16 b, st))"

definition get_uint16 :: "CByteStream \<Rightarrow> (16 word \<times> CByteStream) res" where
  "get_uint16 st = bindR (ReadByte st 2) (\<lambda>(b, st). Inr (join16 b, st))"

definition get_int32 :: "CByteStream \<Rightarrow> (32 word \<times> CByteStream) res" where
  "get_int32 st = bindR (ReadByte st 4) (\<lambda>(b, st). Inr (join32 b, st))"

definition get_uint32 :: "CByteStream \<Rightarrow> (32 word \<times> CByteStream) res" where
  "get_uint32 st = bindR (ReadByte st 4) (\<lambda>(b, st). Inr (join32 b, st))"

definition WriteString :: "allocator \<Rightarrow> CByteStream \<Rightarrow> char list option \<Rightarrow> CByteStream res" where
  "WriteString m st str =
     bindR (case str of None \<Rightarrow> Inr 0 | Some p \<Rightarrow> c_strlen p) (\<lambda>n.
     let size = word_of_nat n in
     bindR (put_uint32 m st size) (\<lambda>st. WriteByte m st (case str of None \<Rightarrow> [] | Some p \<Rightarrow> p) size))"

definition WriteString_len :: "allocator \<Rightarrow> CByteStream \<Rightarrow> char list \<Rightarrow> 32 word \<Rightarrow> CByteStream res" where
  "WriteString_len m st str len = bindR (put_uint32 m st len) (\<lambda>st. WriteByte m st str len)"

definition WriteData :: "allocator \<Rightarrow> CByteStream \<Rightarrow> char list \<Rightarrow> 32 word \<Rightarrow> CByteStream res" where
  "WriteData m st data len = bindR (put_uint32 m st len) (\<lambda>st. WriteByte m st data len)"

text \<open>The result is the length and the offset of the text in the stream's block.\<close>

definition ReadString :: "CByteStream \<Rightarrow> (32 word \<times> 32 word \<times> CByteStream) res" where
  "ReadString st =
     bindR (get_uint32 st) (\<lambda>(len, st).
     let pStr = st_pos st in bindR (Skip st len) (\<lambda>st. Inr (len, pStr, st)))"

definition ReadData :: "CByteStream \<Rightarrow> (32 word \<times> 32 word \<times> CByteStream) res" where
  "ReadData st =
     bindR (get_uint32 st) (\<lambda>(len, st).
     let pData = st_pos st in bindR (Skip st len) (\<lambda>st. Inr (len, pData, st)))"

section \<open>Identifiers in base 36\<close>

definition digits36 :: string where
  "digits36 = ''0123456789abcdefghijklmnopqrstuvwxyz''"

text \<open>\<open>ptr\<close> is the offset in the static buffer of 64 bytes, the digits written so far follow it.\<close>

function url_digits :: "nat \<Rightarrow> 32 word \<Rightarrow> string \<Rightarrow> nat \<times> string" where
  "url_digits ptr value acc =
     (let ptr = ptr - 1; acc = digits36 ! unat (value mod 36) # acc; value = value div 36
      in if ptr > 0 \<and> value \<noteq> 0 then url_digits ptr value acc else (ptr, acc))"
  by pat_completeness auto
termination
  by (relation "measure (\<lambda>(ptr, value, acc). ptr)") auto

declare url_digits.simps [simp del]

definition idtourl :: "32 word \<Rightarrow> string res" where
  "idtourl ident =
     (let (ptr, acc) = url_digits 63 (ident * 2 + 56) []
      in if ptr > 0 then Inr (CHR ''1'' # acc) else Inl OutOfBounds)"

definition url_char :: "char \<Rightarrow> nat option" where
  "url_char c =
     (if 48 \<le> ord c \<and> ord c \<le> 57 then Some (ord c - 48)
      else if 97 \<le> ord c \<and> ord c \<le> 122 then Some (ord c - 87)
      else if 65 \<le> ord c \<and> ord c \<le> 90 then Some (ord c - 55) else None)"

fun url_number :: "32 word \<Rightarrow> string \<Rightarrow> 32 word" where
  "url_number number [] = number"
| "url_number number (c # cs) =
     (case url_char c of None \<Rightarrow> url_number number cs
      | Some d \<Rightarrow> url_number (number * 36 + word_of_nat d) cs)"

definition urltoid :: "string \<Rightarrow> 32 word" where
  "urltoid url = drop_bit 1 (url_number 0 (drop 1 url) - 56)"

section \<open>Fields come back\<close>

lemma ord_uchar: "ord (uchar w) = unat (take_bit 8 w)"
proof -
  have "unat (take_bit 8 w) = unat w mod 256" by (simp add: unsigned_take_bit_eq) (simp add: take_bit_eq_mod)
  then show ?thesis by (simp add: uchar_def)
qed

lemma byte_at_uchar: "buf ! i = uchar w \<Longrightarrow> byte_at buf i = ucast (take_bit 8 w)"
  by (simp add: byte_at_def ord_uchar)

lemma low_byte: "w AND 0xFF = take_bit 8 (w :: 'a::len word)"
proof -
  have "mask 8 = (0xFF :: 'a word)" by (simp add: mask_eq_exp_minus_1 diff_eq_eq)
  then show ?thesis by (simp add: take_bit_eq_mask)
qed

lemma join_bytes16: "join16 (bytes16 w) = w" "join16 (signed_bytes16 w) = w"
  unfolding join16_def bytes16_def signed_bytes16_def low_byte
  by (rule bit_word_eqI, auto simp: byte_at_uchar bit_simps not_less)+

lemma byte_range: fixes n :: nat
  obtains "n < 8" | "8 \<le> n" "\<not> n < 8" "n < 16" "n - 8 < 8" | "16 \<le> n" "8 \<le> n" "\<not> n < 16" "\<not> n < 8" "\<not> n - 8 < 8" "n < 24" "n - 16 < 8"
    | "24 \<le> n" "16 \<le> n" "8 \<le> n" "\<not> n < 24" "\<not> n < 16" "\<not> n < 8" "\<not> n - 8 < 8" "\<not> n - 16 < 8"
  by (cases "n < 8"; cases "n < 16"; cases "n < 24"; force)

lemma join_bytes32: "join32 (bytes32 w) = w" "join32 (signed_bytes32 w) = w"
proof -
  have "bit (join32 (bytes32 w)) n = bit w n \<and> bit (join32 (signed_bytes32 w)) n = bit w n" if "n < 32" for n
    unfolding join32_def bytes32_def signed_bytes32_def low_byte using that
    by (cases n rule: byte_range) (auto simp: byte_at_uchar bit_simps)
  then show "join32 (bytes32 w) = w" "join32 (signed_bytes32 w) = w"
    by (auto intro!: bit_word_eqI)
qed

text \<open>A stream over a block: \<open>a\<close> is behind the position, \<open>b\<close> ahead of it.\<close>

definition stream_at :: "char list \<Rightarrow> char list \<Rightarrow> 32 word \<Rightarrow> CByteStream" where
  "stream_at a b len = \<lparr>simple_buf = None, st_buf = Some (a @ b), st_len = len, st_pos = word_of_nat (length a)\<rparr>"

lemma unat_pos:
  assumes "length a + n \<le> unat (len :: 32 word)"
  shows "unat (word_of_nat (length a) :: 32 word) = length a"
    "unat (word_of_nat n :: 32 word) = n"
    "\<not> len < word_of_nat (length a) + word_of_nat n"
proof -
  have "unat len < 2 ^ 32" using unsigned_less[of len] by simp
  then have b: "length a + n < 2 ^ 32" using assms by simp
  then show "unat (word_of_nat (length a) :: 32 word) = length a" "unat (word_of_nat n :: 32 word) = n"
    by (simp_all add: unat_small)
  have "unat (word_of_nat (length a + n) :: 32 word) = length a + n" using b by (rule unat_small)
  then show "\<not> len < word_of_nat (length a) + word_of_nat n" using assms by (simp add: word_less_nat_alt)
qed

lemma WriteByte_ok:
  assumes "length xs \<le> length b" "length a + length xs \<le> unat len"
  shows "WriteByte m (stream_at a b len) (xs @ junk) (word_of_nat (length xs)) =
    Inr (stream_at (a @ xs) (drop (length xs) b) len)"
  using assms unat_pos[OF assms(2)]
  by (simp add: WriteByte_def stream_at_def copy_to_def mem_read_def mem_write_def)

lemma ReadByte_ok:
  assumes "length a + length xs \<le> unat len"
  shows "ReadByte (stream_at a (xs @ b) len) (word_of_nat (length xs)) = Inr (xs, stream_at (a @ xs) b len)"
  using unat_pos[OF assms] by (simp add: ReadByte_def stream_at_def copy_from_def mem_read_def)

lemma Skip_ok:
  assumes "length a + length xs \<le> unat len"
  shows "Skip (stream_at a (xs @ b) len) (word_of_nat (length xs)) = Inr (stream_at (a @ xs) b len)"
  using unat_pos(3)[OF assms] by (simp add: Skip_def stream_at_def Let_def)

text \<open>One value of each kind a packet holds.\<close>

datatype field = F8 "8 word" | FU16 "16 word" | FI16 "16 word" | FU32 "32 word" | FI32 "32 word" | FText string

fun field_bytes :: "field \<Rightarrow> char list" where
  "field_bytes (F8 w) = [uchar w]"
| "field_bytes (FU16 w) = bytes16 w"
| "field_bytes (FI16 w) = signed_bytes16 w"
| "field_bytes (FU32 w) = bytes32 w"
| "field_bytes (FI32 w) = signed_bytes32 w"
| "field_bytes (FText t) = bytes32 (word_of_nat (length t)) @ t"

fun put_field :: "allocator \<Rightarrow> CByteStream \<Rightarrow> field \<Rightarrow> CByteStream res" where
  "put_field m st (F8 w) = put8 m st w"
| "put_field m st (FU16 w) = put_uint16 m st w"
| "put_field m st (FI16 w) = put_int16 m st w"
| "put_field m st (FU32 w) = put_uint32 m st w"
| "put_field m st (FI32 w) = put_int32 m st w"
| "put_field m st (FText t) = WriteString_len m st t (word_of_nat (length t))"

text \<open>Reading a field of the kind of a given one.\<close>

fun get_like :: "field \<Rightarrow> CByteStream \<Rightarrow> (field \<times> CByteStream) res" where
  "get_like (F8 _) st = bindR (get8 st) (\<lambda>(w, st). Inr (F8 w, st))"
| "get_like (FU16 _) st = bindR (get_uint16 st) (\<lambda>(w, st). Inr (FU16 w, st))"
| "get_like (FI16 _) st = bindR (get_int16 st) (\<lambda>(w, st). Inr (FI16 w, st))"
| "get_like (FU32 _) st = bindR (get_uint32 st) (\<lambda>(w, st). Inr (FU32 w, st))"
| "get_like (FI32 _) st = bindR (get_int32 st) (\<lambda>(w, st). Inr (FI32 w, st))"
| "get_like (FText _) st =
     bindR (ReadString st) (\<lambda>(len, at, st).
     bindR (copy_from (GetBuf st) (unat at) (unat len)) (\<lambda>t. Inr (FText t, st)))"

fun put_fields :: "allocator \<Rightarrow> CByteStream \<Rightarrow> field list \<Rightarrow> CByteStream res" where
  "put_fields m st [] = Inr st"
| "put_fields m st (f # fs) = bindR (put_field m st f) (\<lambda>st. put_fields m st fs)"

fun get_fields :: "field list \<Rightarrow> CByteStream \<Rightarrow> (field list \<times> CByteStream) res" where
  "get_fields [] st = Inr ([], st)"
| "get_fields (f # fs) st =
     bindR (get_like f st) (\<lambda>(g, st). bindR (get_fields fs st) (\<lambda>(gs, st). Inr (g # gs, st)))"

definition packet :: "field list \<Rightarrow> char list" where
  "packet fs = concat (map field_bytes fs)"

lemma byte8: "byte_at [uchar w] 0 = (w :: 8 word)"
  by (simp add: byte_at_uchar) (use take_bit_length_eq[of w] in simp)

lemma field_sizes: "length (bytes16 w) = 2" "length (signed_bytes16 w) = 2" "length (bytes32 v) = 4"
  "length (signed_bytes32 v) = 4"
  by (simp_all add: bytes16_def signed_bytes16_def bytes32_def signed_bytes32_def)

lemma put_field_ok:
  assumes "length (field_bytes f) \<le> length b" "length a + length (field_bytes f) \<le> unat len"
  shows "put_field m (stream_at a b len) f = Inr (stream_at (a @ field_bytes f) (drop (length (field_bytes f)) b) len)"
proof -
  have w: "length xs = k \<Longrightarrow> k \<le> length b \<Longrightarrow> length a + k \<le> unat len \<Longrightarrow>
      WriteByte m (stream_at a b len) xs (word_of_nat k) = Inr (stream_at (a @ xs) (drop k b) len)" for xs k
    using WriteByte_ok[of xs b a len m "[]"] by auto
  show ?thesis
  proof (cases f)
    case (FText t)
    let ?h = "bytes32 (word_of_nat (length t))"
    have "length (a @ ?h) + length t \<le> unat len" "length t \<le> length (drop 4 b)"
      using assms FText by (simp_all add: field_sizes)
    from WriteByte_ok[OF this(2,1), of m "[]"] show ?thesis
      using FText assms w[of ?h 4] by (simp add: WriteString_len_def put_uint32_def field_sizes add.commute)
  qed (use assms w[of "field_bytes f" 1] w[of "field_bytes f" 2] w[of "field_bytes f" 4] in
    \<open>simp_all add: put8_def put_uint16_def put_int16_def put_uint32_def put_int32_def field_sizes\<close>)
qed

lemma get_like_ok:
  assumes "length a + length (field_bytes f) \<le> unat len"
  shows "get_like f (stream_at a (field_bytes f @ b) len) = Inr (f, stream_at (a @ field_bytes f) b len)"
proof -
  have r: "length xs = k \<Longrightarrow> length a + k \<le> unat len \<Longrightarrow>
      ReadByte (stream_at a (xs @ c) len) (word_of_nat k) = Inr (xs, stream_at (a @ xs) c len)" for xs k c
    using ReadByte_ok[of a xs len c] by auto
  show ?thesis
  proof (cases f)
    case (FText t)
    let ?h = "bytes32 (word_of_nat (length t))"
    have fit: "length (a @ ?h) + length t \<le> unat len" "length a + 4 \<le> unat len"
      using assms FText by (simp_all add: field_sizes)
    have "ReadString (stream_at a (?h @ t @ b) len) =
        Inr (word_of_nat (length t), word_of_nat (length (a @ ?h)), stream_at ((a @ ?h) @ t) b len)"
      using r[of ?h 4 "t @ b"] fit(2) Skip_ok[OF fit(1), of b]
      by (simp add: ReadString_def get_uint32_def field_sizes join_bytes32 Let_def) (simp add: stream_at_def field_sizes)
    then show ?thesis using FText unat_pos(1,2)[OF fit(1)]
      by (simp add: GetBuf_def stream_at_def copy_from_def mem_read_def)
  qed (use assms r[of "field_bytes f" 1] r[of "field_bytes f" 2] r[of "field_bytes f" 4] in
    \<open>simp_all add: get8_def get_uint16_def get_int16_def get_uint32_def get_int32_def field_sizes join_bytes16
       join_bytes32 byte8\<close>)
qed

lemma put_fields_ok:
  "length (packet fs) \<le> length b \<Longrightarrow> length a + length (packet fs) \<le> unat len \<Longrightarrow>
    put_fields m (stream_at a b len) fs = Inr (stream_at (a @ packet fs) (drop (length (packet fs)) b) len)"
proof (induction fs arbitrary: a b)
  case (Cons f fs)
  then show ?case using put_field_ok[of f b a len m] by (simp add: packet_def add.commute add.assoc)
qed (simp add: packet_def)

lemma get_fields_ok:
  "length a + length (packet fs) \<le> unat len \<Longrightarrow>
    get_fields fs (stream_at a (packet fs @ b) len) = Inr (fs, stream_at (a @ packet fs) b len)"
proof (induction fs arbitrary: a)
  case (Cons f fs)
  then show ?case using get_like_ok[of a f len "packet fs @ b"] Cons.IH[of "a @ field_bytes f"]
    by (simp add: packet_def)
qed (simp add: packet_def)

section \<open>The buffer is a queue\<close>

text \<open>
  What the users of the buffer rely on: bytes put in come out in order, and nothing is lost.
  \<open>cap\<close> bounds the bytes it may hold at one time.
\<close>

locale byte_queue =
  fixes ok :: "'s \<Rightarrow> bool" and content :: "'s \<Rightarrow> char list"
    and put :: "char list \<Rightarrow> 's \<Rightarrow> 's" and get :: "nat \<Rightarrow> 's \<Rightarrow> char list \<times> 's" and cap :: nat
  assumes put_queue: "ok s \<Longrightarrow> length (content s) + length xs < cap \<Longrightarrow>
      ok (put xs s) \<and> content (put xs s) = content s @ xs"
    and get_queue: "ok s \<Longrightarrow> n < cap \<Longrightarrow>
      ok (snd (get n s)) \<and> fst (get n s) = take n (content s) \<and> content (snd (get n s)) = drop n (content s)"

datatype queue_op = Put_bytes string | Get_bytes nat

definition put_total :: "queue_op list \<Rightarrow> string" where
  "put_total ops = concat (map (\<lambda>x. case x of Put_bytes xs \<Rightarrow> xs | Get_bytes _ \<Rightarrow> []) ops)"

context byte_queue
begin

fun run :: "queue_op list \<Rightarrow> 's \<Rightarrow> char list \<times> 's" where
  "run [] s = ([], s)"
| "run (Put_bytes xs # ops) s = run ops (put xs s)"
| "run (Get_bytes n # ops) s = (let (out, s) = get n s; (outs, s) = run ops s in (out @ outs, s))"

fun sizes_ok :: "queue_op list \<Rightarrow> bool" where
  "sizes_ok [] = True"
| "sizes_ok (Put_bytes xs # ops) = sizes_ok ops"
| "sizes_ok (Get_bytes n # ops) = (n < cap \<and> sizes_ok ops)"

lemma run_order:
  "ok s \<Longrightarrow> length (content s) + length (put_total ops) < cap \<Longrightarrow> sizes_ok ops \<Longrightarrow>
     ok (snd (run ops s)) \<and> fst (run ops s) @ content (snd (run ops s)) = content s @ put_total ops"
proof (induction ops s rule: run.induct)
  case (2 xs ops s)
  then have "ok (put xs s) \<and> content (put xs s) = content s @ xs"
    by (intro put_queue) (simp_all add: put_total_def)
  then show ?case using 2 by (simp add: put_total_def)
next
  case (3 n ops s)
  then have g: "ok (snd (get n s)) \<and> fst (get n s) = take n (content s) \<and> content (snd (get n s)) = drop n (content s)"
    by (intro get_queue) simp_all
  obtain out s1 where s1: "get n s = (out, s1)" by fastforce
  have "ok (snd (run ops s1)) \<and> fst (run ops s1) @ content (snd (run ops s1)) = content s1 @ put_total ops"
    using 3 g s1 by (simp add: put_total_def)
  then show ?case using g s1 by (simp add: put_total_def split_def Let_def)
qed (simp add: put_total_def)

end

definition buffer_ok :: "CSimpleBuffer \<Rightarrow> bool" where
  "buffer_ok s \<longleftrightarrow> write_offset s \<le> alloc_size s \<and>
     (case sb_buf s of None \<Rightarrow> alloc_size s = 0 | Some b \<Rightarrow> length b = unat (alloc_size s))"

definition buffered :: "CSimpleBuffer \<Rightarrow> char list" where
  "buffered s = take (unat (write_offset s)) (case sb_buf s of None \<Rightarrow> [] | Some b \<Rightarrow> b)"

lemma length_buffered: "buffer_ok s \<Longrightarrow> length (buffered s) = unat (write_offset s)"
  by (auto simp: buffer_ok_def buffered_def word_le_nat_alt split: option.splits)

lemma unat_add_small: "unat a + unat b < 2 ^ 32 \<Longrightarrow> unat (a + b :: 32 word) = unat a + unat b"
  by (rule unat_add_lem[THEN iffD1]) simp

lemma Extend_ok:
  assumes "total_allocator m" "buffer_ok s" "unat (write_offset s) + unat len < 2 ^ 31"
    "alloc_size s < write_offset s + len"
  shows "buffer_ok (Extend m s len)" "buffered (Extend m s len) = buffered s"
    "write_offset (Extend m s len) = write_offset s" "write_offset s + len \<le> alloc_size (Extend m s len)"
proof -
  let ?n = "write_offset s + len" and ?e = "Extend m s len"
  have n: "unat ?n = unat (write_offset s) + unat len" using assms(3) by (intro unat_add_small) simp
  have "unat (drop_bit 2 ?n) = unat ?n div 4" by (subst unat_drop_bit_eq) (simp add: drop_bit_eq_div)
  then have a: "unat (?n + drop_bit 2 ?n) = unat ?n + unat ?n div 4" using n assms(3) by (subst unat_add_small) simp_all
  obtain b where b: "m (unat (?n + drop_bit 2 ?n)) = Some b" "length b = unat (?n + drop_bit 2 ?n)"
    using assms(1) total_not_None[OF assms(1)] good_allocatorD[OF total_good[OF assms(1)]] by (metis not_None_eq)
  have old: "unat (alloc_size s) < unat ?n" using assms(4) by (simp add: word_less_nat_alt)
  have e: "write_offset ?e = write_offset s" "alloc_size ?e = ?n + drop_bit 2 ?n"
    "sb_buf ?e = (case sb_buf s of None \<Rightarrow> Some b | Some c \<Rightarrow> Some (take (length b) c @ drop (length c) b))"
    by (simp_all add: Extend_def Let_def realloc_def b(1) split: option.splits)
  show "write_offset ?e = write_offset s" by (rule e(1))
  show "?n \<le> alloc_size ?e" unfolding e(2) word_le_nat_alt a by simp
  show "buffer_ok ?e" using assms(2) a b(2) n old e
    by (auto simp: buffer_ok_def word_le_nat_alt split: option.splits)
  show "buffered ?e = buffered s" using assms(2) e b(2) a old
    by (auto simp: buffer_ok_def buffered_def word_le_nat_alt split: option.splits)
qed

lemma word32_size: "length xs < 2 ^ 32 \<Longrightarrow> unat (word_of_nat (length xs) :: 32 word) = length xs"
  by (rule unat_small)

lemma Write_ok:
  assumes "total_allocator m" "buffer_ok s" "length (buffered s) + length xs < 2 ^ 31"
  obtains s' where "Write m s (Some xs) (word_of_nat (length xs)) = Inr (word_of_nat (length xs), s')"
    "buffer_ok s'" "buffered s' = buffered s @ xs"
proof -
  let ?len = "word_of_nat (length xs) :: 32 word"
  have len: "unat ?len = length xs" using assms(3) by (intro word32_size) simp
  have fit: "unat (write_offset s) + unat ?len < 2 ^ 31" using assms(2,3) len by (simp add: length_buffered)
  define t where "t = (if write_offset s + ?len > alloc_size s then Extend m s ?len else s)"
  have t: "buffer_ok t" "buffered t = buffered s" "write_offset t = write_offset s"
    "write_offset s + ?len \<le> alloc_size t"
    using Extend_ok[OF assms(1,2) fit] assms(2) by (auto simp: t_def)
  have n: "unat (write_offset s + ?len) = unat (write_offset s) + length xs"
    using fit len by (subst unat_add_small) simp_all
  have W: "Write m s (Some xs) ?len = bindR (copy_to (sb_buf t) (unat (write_offset t)) xs)
      (\<lambda>b. Inr (?len, t\<lparr>sb_buf := b, write_offset := write_offset t + ?len\<rparr>))"
    using len by (simp add: Write_def Let_def t_def[symmetric] mem_read_def)
  show ?thesis
  proof (cases "sb_buf t")
    case None
    then have xs: "xs = []" using t(1,4) n by (auto simp: buffer_ok_def word_le_nat_alt)
    have "Write m s (Some xs) ?len = Inr (?len, t)" unfolding W using None xs by (simp add: copy_to_def)
    then show ?thesis using that[of t] t xs by simp
  next
    case (Some b)
    then have b: "unat (write_offset s) + length xs \<le> length b"
      using t(1,4) n by (simp add: buffer_ok_def word_le_nat_alt)
    let ?b = "take (unat (write_offset s)) b @ xs @ drop (unat (write_offset s) + length xs) b"
    have "Write m s (Some xs) ?len = Inr (?len, t\<lparr>sb_buf := Some ?b, write_offset := write_offset s + ?len\<rparr>)"
      unfolding W using Some b t(3) by (simp add: copy_to_def mem_write_def)
    moreover have "buffer_ok (t\<lparr>sb_buf := Some ?b, write_offset := write_offset s + ?len\<rparr>)"
      using t(1,4) Some b by (simp add: buffer_ok_def)
    moreover have "buffered (t\<lparr>sb_buf := Some ?b, write_offset := write_offset s + ?len\<rparr>) = buffered s @ xs"
      unfolding t(2)[symmetric] using Some b n t(3) by (simp add: buffered_def)
    ultimately show ?thesis by (rule that)
  qed
qed

lemma Read_ok:
  assumes "buffer_ok s" "n < 2 ^ 32"
  obtains s' where "Read s (word_of_nat n) = Inr (word_of_nat (min n (length (buffered s))), take n (buffered s), s')"
    "buffer_ok s'" "buffered s' = drop n (buffered s)"
proof -
  let ?n = "word_of_nat n :: 32 word" and ?k = "min n (length (buffered s))"
  define len where "len = (if ?n > write_offset s then write_offset s else ?n)"
  have n: "unat ?n = n" using assms(2) by (rule unat_small)
  have k: "unat len = ?k" using n assms(1) by (auto simp: len_def length_buffered word_less_nat_alt)
  have "len = word_of_nat (unat len)" by simp
  then have len: "len = word_of_nat ?k" unfolding k .
  have le: "len \<le> write_offset s" by (auto simp: len_def)
  have rest: "unat (write_offset s - len) = length (buffered s) - ?k"
    using unat_sub[OF le] k length_buffered[OF assms(1)] by simp
  show ?thesis
  proof (cases "n = 0")
    case True
    then show ?thesis using that[of s] assms(1) by (simp add: Read_def)
  next
    case False
    then have "?n \<noteq> 0" using n by auto
    show ?thesis
    proof (cases "sb_buf s")
      case None
      then have "write_offset s = 0" "buffered s = []" using assms(1) by (auto simp: buffer_ok_def buffered_def)
      then show ?thesis using that[of "s\<lparr>write_offset := 0\<rparr>"] None \<open>?n \<noteq> 0\<close> assms(1) n
        by (auto simp: Read_def Let_def copy_from_def copy_to_def buffer_ok_def buffered_def word_less_nat_alt)
    next
      case (Some b)
      let ?c = "buffered s"
      have c: "?c = take (length ?c) b" "length ?c \<le> length b"
        using Some assms(1) length_buffered[OF assms(1)] by (simp_all add: buffered_def buffer_ok_def word_le_nat_alt)
      let ?r = "drop ?k ?c"
      have r: "take (length ?c - ?k) (drop ?k b) = ?r" by (subst (3) c(1)) (simp add: drop_take)
      have o: "take ?k b = take n ?c" by (subst (2) c(1)) (simp add: min.commute)
      let ?s = "s\<lparr>sb_buf := Some (?r @ drop (length ?r) b), write_offset := write_offset s - len\<rparr>"
      have "Read s ?n = Inr (len, take n ?c, ?s)"
        using \<open>?n \<noteq> 0\<close> Some k rest r o c(2) le_trans[OF min.cobounded2 c(2), of n] le_trans[OF diff_le_self c(2), of ?k]
        by (simp add: Read_def Let_def len_def[symmetric] copy_from_def copy_to_def mem_read_def mem_write_def)
      moreover have "buffer_ok ?s" using assms(1) Some c(2) rest length_buffered[OF assms(1)]
        by (auto simp: buffer_ok_def word_le_nat_alt)
      moreover have "buffered ?s = drop n ?c" using rest by (simp add: buffered_def) (simp add: min_def)
      ultimately show ?thesis using that len by metis
    qed
  qed
qed

text \<open>Putting and taking, for a caller that expects no fault.\<close>

definition buffer_put :: "char list \<Rightarrow> CSimpleBuffer \<Rightarrow> CSimpleBuffer" where
  "buffer_put xs s = (case Write zero_alloc s (Some xs) (word_of_nat (length xs)) of Inr (_, s) \<Rightarrow> s | Inl _ \<Rightarrow> s)"

definition buffer_get :: "nat \<Rightarrow> CSimpleBuffer \<Rightarrow> char list \<times> CSimpleBuffer" where
  "buffer_get n s = (case Read s (word_of_nat n) of Inr (_, out, s) \<Rightarrow> (out, s) | Inl _ \<Rightarrow> ([], s))"

definition buffer_cap :: nat where
  "buffer_cap = 2 ^ 31"

interpretation packet_buffer: byte_queue buffer_ok buffered buffer_put buffer_get buffer_cap
proof
  fix s and xs :: "char list"
  assume "buffer_ok s" "length (buffered s) + length xs < buffer_cap"
  then have "buffer_ok s" "length (buffered s) + length xs < 2 ^ 31" by (simp_all add: buffer_cap_def)
  then show "buffer_ok (buffer_put xs s) \<and> buffered (buffer_put xs s) = buffered s @ xs"
    by (rule Write_ok[OF total_zero_alloc]) (simp add: buffer_put_def)
next
  fix s n
  assume "buffer_ok s" "n < buffer_cap"
  then have s: "buffer_ok s" "n < 2 ^ 32" by (simp_all add: buffer_cap_def)
  show "buffer_ok (snd (buffer_get n s)) \<and> fst (buffer_get n s) = take n (buffered s) \<and>
      buffered (snd (buffer_get n s)) = drop n (buffered s)"
    by (rule Read_ok[OF s]) (simp add: buffer_get_def)
qed

section \<open>Identifiers\<close>

lemma url_char_digits: "map url_char digits36 = map Some [0..<36]"
  by (simp add: digits36_def url_char_def upt_rec)

lemma length_digits36: "length digits36 = 36"
  by (simp add: digits36_def)

lemma url_char_digit: "d < 36 \<Longrightarrow> url_char (digits36 ! d) = Some d"
  using arg_cong[OF url_char_digits, of "\<lambda>xs. xs ! d"] length_digits36 by (simp add: nth_map)

lemma url_number_append: "url_number n (xs @ ys) = url_number (url_number n xs) ys"
  by (induction n xs rule: url_number.induct) (simp_all split: option.splits)

lemma url_digits_ok:
  "0 < k \<Longrightarrow> k < ptr \<Longrightarrow> unat v < 36 ^ k \<Longrightarrow>
     \<exists>ptr' ds. url_digits ptr v acc = (ptr', ds @ acc) \<and> 0 < ptr' \<and> url_number 0 ds = v"
proof (induction k arbitrary: ptr v acc)
  case (Suc k)
  have d: "unat (v mod 36) < 36" by (simp add: unat_mod)
  have last: "url_number n [digits36 ! unat (v mod 36)] = n * 36 + v mod 36" for n
    using url_char_digit[OF d] by simp
  have v: "v div 36 * 36 + v mod 36 = v" by (rule div_mult_mod_eq)
  have q: "unat (v div 36) = unat v div 36" by (simp add: unat_div)
  let ?acc = "digits36 ! unat (v mod 36) # acc"
  show ?case
  proof (cases "v div 36 = 0")
    case True
    then have "url_digits ptr v acc = (ptr - 1, [digits36 ! unat (v mod 36)] @ acc)" by (subst url_digits.simps) simp
    moreover have "url_number 0 [digits36 ! unat (v mod 36)] = v" using last[of 0] v True by simp
    ultimately show ?thesis using Suc.prems by (intro exI[of _ "ptr - 1"]) auto
  next
    case False
    then have "unat v div 36 \<noteq> 0" using q by (metis unat_eq_zero)
    then have "0 < k" using Suc.prems(3) by (cases k) auto
    moreover have "unat (v div 36) < 36 ^ k" unfolding q using Suc.prems(3) by (simp add: less_mult_imp_div_less mult.commute)
    moreover have "k < ptr - 1" using Suc.prems(2) by simp
    ultimately obtain ptr' ds where ds: "url_digits (ptr - 1) (v div 36) ?acc = (ptr', ds @ ?acc)" "0 < ptr'"
      "url_number 0 ds = v div 36" using Suc.IH by blast
    have "url_digits ptr v acc = url_digits (ptr - 1) (v div 36) ?acc"
      using False Suc.prems(2) by (subst url_digits.simps) simp
    moreover have "url_number 0 (ds @ [digits36 ! unat (v mod 36)]) = v"
      unfolding url_number_append last ds(3) by (rule v)
    ultimately show ?thesis using ds(1,2) by (intro exI[of _ ptr'] exI[of _ "ds @ [digits36 ! unat (v mod 36)]"]) simp
  qed
qed simp

lemma idtourl_ok: "\<exists>url. idtourl ident = Inr (CHR ''1'' # url) \<and> url_number 0 url = ident * 2 + 56"
proof -
  have "unat (ident * 2 + 56) < 36 ^ 7"
    using unsigned_less[of "ident * 2 + 56"] by (rule less_le_trans) simp
  then show ?thesis using url_digits_ok[of 7 63 "ident * 2 + 56" "[]"] by (auto simp: idtourl_def)
qed

lemma halve: "drop_bit 1 (ident * 2) = take_bit 31 (ident :: 32 word)"
proof -
  have "unat (ident * 2) = unat ident * 2 mod 2 ^ 32" by (subst unat_word_ariths(2)) simp
  then have "unat (drop_bit 1 (ident * 2)) = unat ident mod 2 ^ 31"
    using mult_mod_right[of 2 "unat ident" "2 ^ 31"]
    by (subst unat_drop_bit_eq) (simp add: drop_bit_eq_div mult.commute)
  also have "\<dots> = unat (take_bit 31 ident)" by (subst unsigned_take_bit_eq) (rule take_bit_eq_mod[symmetric])
  finally show ?thesis by (rule unsigned_word_eqI)
qed

section \<open>Lengths that wrap\<close>

text \<open>A packet of four bytes whose text claims \<open>2 ^ 32 - 4\<close> of them is accepted, and the position goes back.\<close>

lemma ReadString_wraps:
  "ReadString (stream_on (bytes32 0xFFFFFFFC) 4) =
     Inr (0xFFFFFFFC, 4, stream_on (bytes32 0xFFFFFFFC) 4)"
proof -
  have "ReadByte (stream_on (bytes32 0xFFFFFFFC) 4) 4 = Inr (bytes32 0xFFFFFFFC, (stream_on (bytes32 0xFFFFFFFC) 4)\<lparr>st_pos := 4\<rparr>)"
    by (simp add: ReadByte_def stream_on_def copy_from_def mem_read_def field_sizes)
  then show ?thesis
    by (simp add: ReadString_def get_uint32_def join_bytes32 Skip_def Let_def) (simp add: stream_on_def)
qed

section \<open>Properties\<close>

text \<open>C24: the values written to a stream, in either byte signedness and with texts of any bytes, take the
  length their encoding says, and reading the block back in the same order gives them all.\<close>

theorem packet_roundtrip:
  assumes "length (packet fs) \<le> length buf" "length (packet fs) \<le> unat len"
  shows "\<exists>st st'. put_fields m (stream_on buf len) fs = Inr st \<and> unat (st_pos st) = length (packet fs) \<and>
    get_fields fs (stream_on (the (st_buf st)) len) = Inr (fs, st') \<and> st_pos st' = st_pos st"
proof -
  have put: "put_fields m (stream_on buf len) fs = Inr (stream_at (packet fs) (drop (length (packet fs)) buf) len)"
    using put_fields_ok[of fs buf "[]" len m] assms by (simp add: stream_on_def stream_at_def)
  moreover have "get_fields fs (stream_on (packet fs @ drop (length (packet fs)) buf) len) =
      Inr (fs, stream_at (packet fs) (drop (length (packet fs)) buf) len)"
    using get_fields_ok[of "[]" fs len] assms by (simp add: stream_on_def stream_at_def)
  moreover have "unat (word_of_nat (length (packet fs)) :: 32 word) = length (packet fs)"
    using unat_pos(2)[of "[]" "length (packet fs)" len] assms by simp
  ultimately show ?thesis by (simp add: stream_at_def)
qed

definition login_packet :: "field list" where
  "login_packet = [FU16 0x1234, F8 0xFF, FI32 0xFFFFFFFE, FText ''bob'']"

lemma login_packet_size: "length (packet login_packet) = 14"
  by (simp add: login_packet_def packet_def field_sizes)

theorem packet_roundtrip_witness:
  "\<exists>st st'. put_fields zero_alloc (stream_on (replicate 16 NUL) 16) login_packet = Inr st \<and> unat (st_pos st) = 14 \<and>
    get_fields login_packet (stream_on (the (st_buf st)) 16) = Inr (login_packet, st') \<and> st_pos st' = st_pos st"
  using packet_roundtrip[of login_packet "replicate 16 NUL" 16] by (simp add: login_packet_size)


lemma empty_buffer_ok: "buffer_ok empty_buffer" "buffered empty_buffer = []"
  by (simp_all add: empty_buffer_def buffer_ok_def buffered_def)

lemma small_caps: "2 < buffer_cap" "Suc (Suc (Suc (Suc (Suc 0)))) < buffer_cap" "9 < buffer_cap"
  by (simp_all add: buffer_cap_def)


text \<open>C39: an identifier can be turned into its base 36 text for every value, and the text gives back its low
  31 bits: the identifier itself exactly below \<open>2 ^ 31\<close>.\<close>

theorem idtourl_urltoid: "\<exists>url. idtourl ident = Inr url \<and> urltoid url = take_bit 31 ident"
  using idtourl_ok[of ident] halve[of ident] by (auto simp: urltoid_def)

end
