(* ===== verification/Json.thy ===== *)
theory Json
  imports TextUtil
begin

text \<open>
  The JSON library of the service (src/jsoncpp): the value type with the accessors the handlers use
  (json_value.cpp), the reader (json_reader.cpp, default features: comments allowed) and the two
  writers (json_writer.cpp: \<open>FastWriter\<close> and \<open>StyledWriter\<close>).

  A value owns C strings, so a string or a member name ends at its first NUL.  The members of an object
  are kept in the order of a \<open>std::map\<close> whose keys compare by \<open>strcmp\<close>.  A double is its 64 bits;
  \<open>sscanf\<close> with \<open>%lf\<close>, \<open>snprintf\<close> with \<open>%.16g\<close> and the conversion to \<open>int\<close> are
  parameters.  Comments, which no handler writes, and the list of error messages, which none reads, are
  left out: a failed parse is \<open>None\<close>.
\<close>

section \<open>Values\<close>

datatype json =
    JNull
  | JInt int
  | JUInt int
  | JReal "64 word"
  | JString string
  | JBool bool
  | JArray "json list"
  | JObject "(string \<times> json) list"

record double_ops =
  scan_lf :: "string \<Rightarrow> 64 word option"
  print_g16 :: "64 word \<Rightarrow> string"
  double_to_int :: "64 word \<Rightarrow> int option"

text \<open>\<open>JSON_FAIL_MESSAGE\<close> throws a \<open>std::runtime_error\<close>.\<close>

definition runtime_error :: fault where
  "runtime_error = Exception 0"

definition isNull :: "json \<Rightarrow> bool" where
  "isNull v \<longleftrightarrow> v = JNull"

text \<open>\<open>Value(const std::string &)\<close>, and \<open>Value(const char *)\<close>, which does not test for NULL.\<close>

definition json_string :: "string \<Rightarrow> json" where
  "json_string s = JString (c_str s)"

definition json_cstring :: "string option \<Rightarrow> json res" where
  "json_cstring p = (case p of None \<Rightarrow> Inl NullPointer | Some s \<Rightarrow> Inr (JString (c_str s)))"

text \<open>\<open>value = -value\<close> of the most negative number is that number again; \<open>LargestUInt\<close> reads it unsigned.\<close>

definition print_int :: "int \<Rightarrow> string" where
  "print_int i = (if i < 0 then CHR ''-'' # dec (nat (to_llong (- i) mod 2 ^ 64)) else dec (nat i))"

definition asString :: "double_ops \<Rightarrow> json \<Rightarrow> string res" where
  "asString d v =
     (case v of
        JNull \<Rightarrow> Inr []
      | JString s \<Rightarrow> Inr s
      | JBool b \<Rightarrow> Inr (if b then ''true'' else ''false'')
      | JInt i \<Rightarrow> Inr (print_int i)
      | JUInt n \<Rightarrow> Inr (dec (nat n))
      | JReal r \<Rightarrow> Inr (map (\<lambda>c. if c = CHR '','' then CHR ''.'' else c) (print_g16 d r))
      | _ \<Rightarrow> Inl runtime_error)"

definition asInt :: "double_ops \<Rightarrow> json \<Rightarrow> int res" where
  "asInt d v =
     (case v of
        JInt i \<Rightarrow> if - (2 ^ 31) \<le> i \<and> i \<le> 2 ^ 31 - 1 then Inr i else Inl runtime_error
      | JUInt n \<Rightarrow> if n \<le> 2 ^ 31 - 1 then Inr n else Inl runtime_error
      | JReal r \<Rightarrow> (case double_to_int d r of None \<Rightarrow> Inl runtime_error | Some i \<Rightarrow> Inr i)
      | JNull \<Rightarrow> Inr 0
      | JBool b \<Rightarrow> Inr (if b then 1 else 0)
      | _ \<Rightarrow> Inl runtime_error)"

definition json_size :: "json \<Rightarrow> nat" where
  "json_size v = (case v of JArray vs \<Rightarrow> length vs | JObject ms \<Rightarrow> length ms | _ \<Rightarrow> 0)"

text \<open>
  \<open>(*this)[key]\<close>.  \<open>lower_bound\<close> finds the member or the place where a null one is inserted: the
  access returns the member and changes the object.
\<close>

fun insert_null :: "string \<Rightarrow> (string \<times> json) list \<Rightarrow> (string \<times> json) list" where
  "insert_null k [] = [(k, JNull)]"
| "insert_null k ((k', v) # ms) =
     (if k = k' then (k', v) # ms
      else if byte_less k k' then (k, JNull) # (k', v) # ms else (k', v) # insert_null k ms)"

definition find_member :: "string \<Rightarrow> (string \<times> json) list \<Rightarrow> json" where
  "find_member k ms = (case map_of ms k of None \<Rightarrow> JNull | Some v \<Rightarrow> v)"

definition resolveReference :: "json \<Rightarrow> string \<Rightarrow> (json \<times> json) res" where
  "resolveReference v key =
     (case v of
        JNull \<Rightarrow> Inr (JObject [(c_str key, JNull)], JNull)
      | JObject ms \<Rightarrow> Inr (JObject (insert_null (c_str key) ms), find_member (c_str key) ms)
      | _ \<Rightarrow> Inl runtime_error)"

text \<open>The access through a \<open>const\<close> reference changes nothing.\<close>

definition const_member :: "json \<Rightarrow> string \<Rightarrow> json res" where
  "const_member v key =
     (case v of
        JNull \<Rightarrow> Inr JNull
      | JObject ms \<Rightarrow> Inr (find_member (c_str key) ms)
      | _ \<Rightarrow> Inl runtime_error)"

text \<open>\<open>v[key] = x\<close> and \<open>v.append(x)\<close>\<close>

fun replace_member :: "string \<Rightarrow> json \<Rightarrow> (string \<times> json) list \<Rightarrow> (string \<times> json) list" where
  "replace_member k x [] = []"
| "replace_member k x ((k', v) # ms) = (if k = k' then (k', x) # ms else (k', v) # replace_member k x ms)"

definition assign_member :: "json \<Rightarrow> string \<Rightarrow> json \<Rightarrow> json res" where
  "assign_member v key x =
     bindR (resolveReference v key) (\<lambda>(v', _).
       case v' of JObject ms \<Rightarrow> Inr (JObject (replace_member (c_str key) x ms)) | _ \<Rightarrow> Inl runtime_error)"

definition append_value :: "json \<Rightarrow> json \<Rightarrow> json res" where
  "append_value v x =
     (case v of JNull \<Rightarrow> Inr (JArray [x]) | JArray vs \<Rightarrow> Inr (JArray (vs @ [x])) | _ \<Rightarrow> Inl runtime_error)"

section \<open>Reader\<close>

subsection \<open>Tokens\<close>

datatype token_type =
    TObjectBegin | TObjectEnd | TArrayBegin | TArrayEnd | TString | TNumber | TTrue | TFalse | TNull
  | TArraySeparator | TMemberSeparator | TComment | TEndOfStream | TError

text \<open>The text from \<open>current_\<close> to \<open>end_\<close> is the state of the reader.\<close>

definition json_space :: "char \<Rightarrow> bool" where
  "json_space c \<longleftrightarrow> c \<in> set '' '' \<or> ord c \<in> {9, 13, 10}"

definition skipSpaces :: "string \<Rightarrow> string" where
  "skipSpaces s = dropWhile json_space s"

definition match :: "string \<Rightarrow> string \<Rightarrow> bool \<times> string" where
  "match pat s = (if take (length pat) s = pat then (True, drop (length pat) s) else (False, s))"

abbreviation "backslash \<equiv> CHR 0x5C"
abbreviation "quote \<equiv> CHR 0x22"

fun readCStyleComment :: "string \<Rightarrow> bool \<times> string" where
  "readCStyleComment [] = (False, [])"
| "readCStyleComment (c # s) =
     (if c = CHR ''*'' \<and> s \<noteq> [] \<and> hd s = CHR ''/'' then (True, tl s) else readCStyleComment s)"

fun readCppStyleComment :: "string \<Rightarrow> bool \<times> string" where
  "readCppStyleComment [] = (True, [])"
| "readCppStyleComment (c # s) = (if ord c = 13 \<or> ord c = 10 then (True, s) else readCppStyleComment s)"

definition readComment :: "string \<Rightarrow> bool \<times> string" where
  "readComment s =
     (case s of
        [] \<Rightarrow> (False, [])
      | c # s' \<Rightarrow>
          if c = CHR ''*'' then readCStyleComment s'
          else if c = CHR ''/'' then readCppStyleComment s' else (False, s'))"

definition number_char :: "char \<Rightarrow> bool" where
  "number_char c \<longleftrightarrow> is_digit c \<or> c \<in> set ''.eE+-''"

definition readNumber :: "string \<Rightarrow> string" where
  "readNumber s = dropWhile number_char s"

fun readString :: "string \<Rightarrow> bool \<times> string" where
  "readString [] = (False, [])"
| "readString [c] = (c = quote, [])"
| "readString (c # d # s) =
     (if c = backslash then readString s
      else if c = quote then (True, d # s) else readString (d # s))"

text \<open>A token: its type, its text from \<open>start_\<close> to \<open>end_\<close> and the rest of the document.\<close>

definition scan_token :: "char \<Rightarrow> string \<Rightarrow> token_type \<times> bool \<times> string" where
  "scan_token c s =
     (if c = CHR ''{'' then (TObjectBegin, True, s)
      else if c = CHR ''}'' then (TObjectEnd, True, s)
      else if c = CHR ''['' then (TArrayBegin, True, s)
      else if c = CHR '']'' then (TArrayEnd, True, s)
      else if c = quote then (TString, readString s)
      else if c = CHR ''/'' then (TComment, readComment s)
      else if is_digit c \<or> c = CHR ''-'' then (TNumber, True, readNumber s)
      else if c = CHR ''t'' then (TTrue, match ''rue'' s)
      else if c = CHR ''f'' then (TFalse, match ''alse'' s)
      else if c = CHR ''n'' then (TNull, match ''ull'' s)
      else if c = CHR '','' then (TArraySeparator, True, s)
      else if c = CHR '':'' then (TMemberSeparator, True, s)
      else if c = NUL then (TEndOfStream, True, s)
      else (TError, False, s))"

definition readToken :: "string \<Rightarrow> token_type \<times> string \<times> string" where
  "readToken s =
     (case skipSpaces s of
        [] \<Rightarrow> (TEndOfStream, [], [])
      | c # s' \<Rightarrow>
          (let (t, ok, r) = scan_token c s'
           in (if ok then t else TError, c # take (length s' - length r) s', r)))"

lemma readCStyleComment_length: "length (snd (readCStyleComment s)) \<le> length s"
  by (induction s rule: readCStyleComment.induct) auto

lemma readCppStyleComment_length: "length (snd (readCppStyleComment s)) \<le> length s"
  by (induction s rule: readCppStyleComment.induct) auto

lemma readComment_length: "length (snd (readComment s)) \<le> length s"
  using readCStyleComment_length[of "tl s"] readCppStyleComment_length[of "tl s"]
  by (cases s) (simp_all add: readComment_def)

lemma readString_length: "length (snd (readString s)) \<le> length s"
  by (induction s rule: readString.induct) (simp_all add: le_SucI)

lemma match_length: "length (snd (match p s)) \<le> length s"
  by (simp add: match_def)

lemma shorter_if:
  "length (snd (snd x)) \<le> n \<Longrightarrow> length (snd (snd y)) \<le> n \<Longrightarrow> length (snd (snd (if b then x else y))) \<le> n"
  by simp

lemma scan_token_length: "length (snd (snd (scan_token c s))) \<le> length s"
  unfolding scan_token_def
  by (intro shorter_if)
    (simp_all only: snd_conv order_refl readString_length readComment_length match_length
      readNumber_def length_dropWhile_le)

lemma readToken_length_le: "length (snd (snd (readToken s))) \<le> length s"
  using scan_token_length length_dropWhile_le[of json_space s]
  by (auto simp: readToken_def skipSpaces_def Let_def split: list.split prod.split)
    (metis Suc_leD le_trans length_Cons snd_conv)

lemma readToken_length:
  assumes "readToken s = (t, x, r)" "t \<noteq> TEndOfStream"
  shows "length r < length s"
proof -
  from assms obtain c s' where s: "dropWhile json_space s = c # s'"
    by (cases "dropWhile json_space s") (simp_all add: readToken_def skipSpaces_def)
  have "r = snd (snd (scan_token c s'))"
    using assms(1) s by (auto simp: readToken_def skipSpaces_def Let_def split: prod.splits)
  with s scan_token_length[of c s'] length_dropWhile_le[of json_space s] show ?thesis by simp
qed

function skipCommentTokens :: "string \<Rightarrow> token_type \<times> string \<times> string" where
  "skipCommentTokens s =
     (case readToken s of (t, x, r) \<Rightarrow> if t = TComment then skipCommentTokens r else (t, x, r))"
  by auto
termination
proof (relation "measure length")
  fix s x y xa ya assume "(x, y) = readToken s" "(xa, ya) = y" "x = TComment"
  then have "length ya < length s" using readToken_length[of s x xa ya] by auto
  then show "(ya, s) \<in> measure length" by simp
qed simp

declare skipCommentTokens.simps [simp del]

subsection \<open>Strings\<close>

definition hex_digit :: "char \<Rightarrow> nat option" where
  "hex_digit c =
     (if is_digit c then Some (ord c - 48)
      else if 97 \<le> ord c \<and> ord c \<le> 102 then Some (ord c - 97 + 10)
      else if 65 \<le> ord c \<and> ord c \<le> 70 then Some (ord c - 65 + 10) else None)"

fun hex_number :: "nat \<Rightarrow> string \<Rightarrow> nat option" where
  "hex_number u [] = Some u"
| "hex_number u (c # cs) = (case hex_digit c of None \<Rightarrow> None | Some d \<Rightarrow> hex_number (u * 16 + d) cs)"

definition decodeUnicodeEscapeSequence :: "string \<Rightarrow> (nat \<times> string) option" where
  "decodeUnicodeEscapeSequence s =
     (if length s < 4 then None
      else case hex_number 0 (take 4 s) of None \<Rightarrow> None | Some u \<Rightarrow> Some (u, drop 4 s))"

definition decodeUnicodeCodePoint :: "string \<Rightarrow> (nat \<times> string) option" where
  "decodeUnicodeCodePoint s =
     (case decodeUnicodeEscapeSequence s of
        None \<Rightarrow> None
      | Some (u, r) \<Rightarrow>
          if 0xD800 \<le> u \<and> u \<le> 0xDBFF then
            (if length r < 6 then None
             else if r ! 0 = backslash \<and> r ! 1 = CHR ''u'' then
               (case decodeUnicodeEscapeSequence (drop 2 r) of
                  None \<Rightarrow> None
                | Some (v, r') \<Rightarrow> Some (0x10000 + (u mod 0x400) * 0x400 + v mod 0x400, r'))
             else None)
          else Some (u, r))"

definition codePointToUTF8 :: "nat \<Rightarrow> string" where
  "codePointToUTF8 cp =
     (if cp \<le> 0x7F then [char_of cp]
      else if cp \<le> 0x7FF then [char_of (0xC0 + cp div 0x40 mod 0x20), char_of (0x80 + cp mod 0x40)]
      else if cp \<le> 0xFFFF then
        [char_of (0xE0 + cp div 0x1000 mod 0x10), char_of (0x80 + cp div 0x40 mod 0x40),
         char_of (0x80 + cp mod 0x40)]
      else if cp \<le> 0x10FFFF then
        [char_of (0xF0 + cp div 0x40000 mod 0x8), char_of (0x80 + cp div 0x1000 mod 0x40),
         char_of (0x80 + cp div 0x40 mod 0x40), char_of (0x80 + cp mod 0x40)]
      else [])"

text \<open>The character a one-letter escape stands for.\<close>

definition simple_escape :: "char \<Rightarrow> char option" where
  "simple_escape e =
     (if e = quote \<or> e = CHR ''/'' \<or> e = backslash then Some e
      else if e = CHR ''b'' then Some (CHR 0x08)
      else if e = CHR ''f'' then Some (CHR 0x0C)
      else if e = CHR ''n'' then Some (CHR 0x0A)
      else if e = CHR ''r'' then Some (CHR 0x0D)
      else if e = CHR ''t'' then Some (CHR 0x09) else None)"

lemma escape_shorter: "decodeUnicodeEscapeSequence s = Some (u, r) \<Longrightarrow> length r < length s"
  by (auto simp: decodeUnicodeEscapeSequence_def split: if_splits option.splits)

lemma code_point_shorter: "decodeUnicodeCodePoint s = Some (u, r) \<Longrightarrow> length r < length s"
  by (auto simp: decodeUnicodeCodePoint_def split: if_splits option.splits dest!: escape_shorter)

text \<open>\<open>decodeString\<close> on the text between the quotes.\<close>

function decode_chars :: "string \<Rightarrow> string option" where
  "decode_chars [] = Some []"
| "decode_chars (c # s) =
     (if c = quote then Some []
      else if c = backslash then
        (case s of
           [] \<Rightarrow> None
         | e # s' \<Rightarrow>
             (case simple_escape e of
                Some x \<Rightarrow> map_option ((#) x) (decode_chars s')
              | None \<Rightarrow>
                  if e = CHR ''u'' then
                    (case decodeUnicodeCodePoint s' of
                       None \<Rightarrow> None
                     | Some (u, r) \<Rightarrow> map_option ((@) (codePointToUTF8 u)) (decode_chars r))
                  else None))
      else map_option ((#) c) (decode_chars s))"
  by pat_completeness auto
termination
  by (relation "measure length") (auto dest: sym code_point_shorter intro: less_SucI)

definition decodeString :: "string \<Rightarrow> string option" where
  "decodeString token = decode_chars (take (length token - 2) (drop 1 token))"

subsection \<open>Numbers\<close>

definition decodeDouble :: "double_ops \<Rightarrow> string \<Rightarrow> json option" where
  "decodeDouble d token = map_option JReal (scan_lf d (c_str token))"

text \<open>
  The loop over the digits.  It gives up on a character that is no digit (\<open>None\<close>) and asks for a
  double (\<open>Some None\<close>) when the next digit would overflow.
\<close>

fun number_loop :: "int \<Rightarrow> int \<Rightarrow> string \<Rightarrow> int option option" where
  "number_loop maxInteger v [] = Some (Some v)"
| "number_loop maxInteger v (c # cs) =
     (if \<not> is_digit c then None
      else let digit = int (ord c - 48); threshold = maxInteger div 10 in
        if threshold \<le> v \<and> (threshold < v \<or> cs \<noteq> [] \<or> maxInteger mod 10 < digit) then Some None
        else number_loop maxInteger (v * 10 + digit) cs)"

definition is_double :: "string \<Rightarrow> bool" where
  "is_double token \<longleftrightarrow> (\<exists>c \<in> set token. c \<in> set ''.eE+'') \<or> CHR ''-'' \<in> set (tl token)"

definition decodeNumber :: "double_ops \<Rightarrow> string \<Rightarrow> json option" where
  "decodeNumber d token =
     (if is_double token then decodeDouble d token
      else let isNegative = (token \<noteq> [] \<and> hd token = CHR ''-'');
               digits = (if isNegative then tl token else token);
               maxInteger = (if isNegative then 2 ^ 63 else 2 ^ 64 - 1)
           in case number_loop maxInteger 0 digits of
                None \<Rightarrow> None
              | Some None \<Rightarrow> decodeDouble d token
              | Some (Some v) \<Rightarrow>
                  Some (if isNegative then JInt (to_llong (- to_llong v))
                        else if v \<le> 2 ^ 31 - 1 then JInt v else JUInt v))"

subsection \<open>Documents\<close>

text \<open>A member name with its colon, and what ends a member: the type of the token that stands for the comma.\<close>

definition member_name :: "string \<Rightarrow> (string \<times> string) option" where
  "member_name s =
     (let (t, token, r) = skipCommentTokens s in
      if t = TString then
        (case decodeString token of
           None \<Rightarrow> None
         | Some name \<Rightarrow> (let (t, token, r) = readToken r in if t = TMemberSeparator then Some (name, r) else None))
      else None)"

definition end_of_member :: "string \<Rightarrow> (token_type \<times> string) option" where
  "end_of_member s =
     (let (t, token, r) = readToken s in
      if t \<noteq> TObjectEnd \<and> t \<noteq> TArraySeparator \<and> t \<noteq> TComment then None
      else let (t, token, r) = (if t = TComment then skipCommentTokens r else (t, token, r)) in Some (t, r))"

definition put_member :: "string \<Rightarrow> json \<Rightarrow> (string \<times> json) list \<Rightarrow> (string \<times> json) list" where
  "put_member k v ms = replace_member k v (insert_null k ms)"

text \<open>
  \<open>readValue\<close>, the loop of \<open>readObject\<close> and the loop of \<open>readArray\<close>.  The result is
  \<open>None\<close> after a syntax error, or the value and the rest of the document.  Every call uses up one unit
  of fuel; \<open>reader_fuel\<close> below is always enough.  \<open>name\<close> is the last member name: an object may
  end after a comma when that name was empty.  After a comment that follows a member, any token at all is
  accepted in place of the comma.
\<close>

fun readValue :: "double_ops \<Rightarrow> nat \<Rightarrow> string \<Rightarrow> (json \<times> string) option res"
  and readObject :: "double_ops \<Rightarrow> nat \<Rightarrow> string \<Rightarrow> (string \<times> json) list \<Rightarrow> string \<Rightarrow> (json \<times> string) option res"
  and readArray :: "double_ops \<Rightarrow> nat \<Rightarrow> json list \<Rightarrow> string \<Rightarrow> (json \<times> string) option res" where
  "readValue d 0 s = Inl Diverges"
| "readValue d (Suc n) s =
     (let (t, token, r) = skipCommentTokens s in
      if t = TObjectBegin then readObject d n [] [] r
      else if t = TArrayBegin then
        (let r' = skipSpaces r in
         if r' \<noteq> [] \<and> hd r' = CHR '']'' then Inr (Some (JArray [], tl r')) else readArray d n [] r')
      else if t = TNumber then Inr (map_option (\<lambda>v. (v, r)) (decodeNumber d token))
      else if t = TString then Inr (map_option (\<lambda>x. (json_string x, r)) (decodeString token))
      else if t = TTrue then Inr (Some (JBool True, r))
      else if t = TFalse then Inr (Some (JBool False, r))
      else if t = TNull then Inr (Some (JNull, r))
      else Inr None)"
| "readObject d 0 name ms s = Inl Diverges"
| "readObject d (Suc n) name ms s =
     (let (t, token, r) = skipCommentTokens s in
      if t = TObjectEnd \<and> name = [] then Inr (Some (JObject ms, r))
      else case member_name s of
        None \<Rightarrow> Inr None
      | Some (name', r) \<Rightarrow>
          bindR (readValue d n r) (\<lambda>x. case x of
             None \<Rightarrow> Inr None
           | Some (v, r) \<Rightarrow>
               (case end_of_member r of
                  None \<Rightarrow> Inr None
                | Some (t, r) \<Rightarrow>
                    if t = TObjectEnd then Inr (Some (JObject (put_member (c_str name') v ms), r))
                    else readObject d n name' (put_member (c_str name') v ms) r)))"
| "readArray d 0 vs s = Inl Diverges"
| "readArray d (Suc n) vs s =
     bindR (readValue d n s) (\<lambda>x. case x of
        None \<Rightarrow> Inr None
      | Some (v, r) \<Rightarrow>
          (let (t, token, r') = skipCommentTokens r in
           if t = TArraySeparator then readArray d n (vs @ [v]) r'
           else if t = TArrayEnd then Inr (Some (JArray (vs @ [v]), r'))
           else Inr None))"

definition reader_fuel :: "string \<Rightarrow> nat" where
  "reader_fuel s = 2 * length s + 2"

text \<open>\<open>parse\<close>: what follows the value is not looked at.\<close>

definition parse :: "double_ops \<Rightarrow> string \<Rightarrow> json option res" where
  "parse d document = bindR (readValue d (reader_fuel document) document) (\<lambda>x. Inr (map_option fst x))"

section \<open>Writers\<close>

definition isControlCharacter :: "char \<Rightarrow> bool" where
  "isControlCharacter c \<longleftrightarrow> 0 < ord c \<and> ord c \<le> 0x1F"

definition upper_hex :: "nat \<Rightarrow> char" where
  "upper_hex x = char_of (if x \<le> 9 then 48 + x else 55 + x)"

definition escape_char :: "char \<Rightarrow> string" where
  "escape_char c =
     (if c = quote then [backslash, quote]
      else if c = backslash then [backslash, backslash]
      else if ord c = 8 then [backslash, CHR ''b'']
      else if ord c = 12 then [backslash, CHR ''f'']
      else if ord c = 10 then [backslash, CHR ''n'']
      else if ord c = 13 then [backslash, CHR ''r'']
      else if ord c = 9 then [backslash, CHR ''t'']
      else if isControlCharacter c then
        [backslash, CHR ''u'', CHR ''0'', CHR ''0'', upper_hex (ord c div 16), upper_hex (ord c mod 16)]
      else [c])"

definition needs_escape :: "char \<Rightarrow> bool" where
  "needs_escape c \<longleftrightarrow> c = quote \<or> c = backslash \<or> ord c \<in> {8, 12, 10, 13, 9} \<or> isControlCharacter c"

definition valueToQuotedString :: "string \<Rightarrow> string" where
  "valueToQuotedString value =
     (let s = c_str value
      in if \<not> list_ex needs_escape s then quote # s @ [quote]
         else quote # concat (map escape_char s) @ [quote])"

subsection \<open>FastWriter\<close>

fun fast_value :: "double_ops \<Rightarrow> json \<Rightarrow> string"
  and fast_items :: "double_ops \<Rightarrow> json list \<Rightarrow> string"
  and fast_members :: "double_ops \<Rightarrow> (string \<times> json) list \<Rightarrow> string" where
  "fast_value d JNull = ''null''"
| "fast_value d (JInt i) = print_int i"
| "fast_value d (JUInt n) = dec (nat n)"
| "fast_value d (JReal r) = map (\<lambda>c. if c = CHR '','' then CHR ''.'' else c) (print_g16 d r)"
| "fast_value d (JString s) = valueToQuotedString s"
| "fast_value d (JBool b) = (if b then ''true'' else ''false'')"
| "fast_value d (JArray vs) = ''['' @ fast_items d vs @ '']''"
| "fast_value d (JObject ms) = ''{'' @ fast_members d ms @ ''}''"
| "fast_items d [] = []"
| "fast_items d (v # vs) = fast_value d v @ (if vs = [] then [] else '','' @ fast_items d vs)"
| "fast_members d [] = []"
| "fast_members d ((k, v) # ms) =
     valueToQuotedString k @ '':'' @ fast_value d v @ (if ms = [] then [] else '','' @ fast_members d ms)"

definition FastWriter_write :: "double_ops \<Rightarrow> json \<Rightarrow> string" where
  "FastWriter_write d root = fast_value d root @ [CHR 0x0A]"

subsection \<open>StyledWriter\<close>

text \<open>The document written so far is the state; the indentation is passed down.\<close>

definition rightMargin :: nat where "rightMargin = 74"

definition indent :: "string \<Rightarrow> string" where
  "indent ind = ind @ ''   ''"

definition writeIndent :: "string \<Rightarrow> string \<Rightarrow> string" where
  "writeIndent ind doc =
     (if doc = [] then ind
      else if last doc = CHR '' '' then doc
      else (if last doc \<noteq> CHR 0x0A then doc @ [CHR 0x0A] else doc) @ ind)"

definition writeWithIndent :: "string \<Rightarrow> string \<Rightarrow> string \<Rightarrow> string" where
  "writeWithIndent ind value doc = writeIndent ind doc @ value"

text \<open>What \<open>writeValue\<close> pushes for an element of an array that may fit on one line.\<close>

definition child_text :: "double_ops \<Rightarrow> json \<Rightarrow> string" where
  "child_text d v = (case v of JArray _ \<Rightarrow> ''[]'' | JObject _ \<Rightarrow> ''{}'' | _ \<Rightarrow> fast_value d v)"

definition isMultineArray :: "double_ops \<Rightarrow> json list \<Rightarrow> bool \<times> string list" where
  "isMultineArray d vs =
     (if rightMargin \<le> length vs * 3 \<or> list_ex (\<lambda>v. 0 < json_size v) vs then (True, [])
      else let children = map (child_text d) vs
           in (rightMargin \<le> 4 + (length vs - 1) * 2 + sum_list (map length children), children))"

fun comma_list :: "string list \<Rightarrow> string" where
  "comma_list [] = []"
| "comma_list [x] = x"
| "comma_list (x # y # xs) = x @ '', '' @ comma_list (y # xs)"

fun child_lines :: "string \<Rightarrow> string list \<Rightarrow> string \<Rightarrow> string" where
  "child_lines ind [] doc = doc"
| "child_lines ind (x # xs) doc =
     (let doc = writeWithIndent ind x doc
      in if xs = [] then doc else child_lines ind xs (doc @ '',''))"

fun styled_value :: "double_ops \<Rightarrow> string \<Rightarrow> json \<Rightarrow> string \<Rightarrow> string"
  and styled_items :: "double_ops \<Rightarrow> string \<Rightarrow> json list \<Rightarrow> string \<Rightarrow> string"
  and styled_members :: "double_ops \<Rightarrow> string \<Rightarrow> (string \<times> json) list \<Rightarrow> string \<Rightarrow> string" where
  "styled_value d ind (JArray vs) doc =
     (if vs = [] then doc @ ''[]''
      else let (multi, children) = isMultineArray d vs in
        if multi then
          let doc = writeWithIndent ind ''['' doc;
              doc = (if children \<noteq> [] then child_lines (indent ind) children doc
                     else styled_items d (indent ind) vs doc)
          in writeWithIndent ind '']'' doc
        else doc @ ''[ '' @ comma_list children @ '' ]'')"
| "styled_value d ind (JObject ms) doc =
     (if ms = [] then doc @ ''{}''
      else let doc = writeWithIndent ind ''{'' doc;
               doc = styled_members d (indent ind) ms doc
           in writeWithIndent ind ''}'' doc)"
| "styled_value d ind v doc = doc @ fast_value d v"
| "styled_items d ind [] doc = doc"
| "styled_items d ind (v # vs) doc =
     (let doc = styled_value d ind v (writeIndent ind doc)
      in if vs = [] then doc else styled_items d ind vs (doc @ '',''))"
| "styled_members d ind [] doc = doc"
| "styled_members d ind ((k, v) # ms) doc =
     (let doc = writeWithIndent ind (valueToQuotedString k) doc;
          doc = styled_value d ind v (doc @ '' : '')
      in if ms = [] then doc else styled_members d ind ms (doc @ '',''))"

definition toStyledString :: "double_ops \<Rightarrow> json \<Rightarrow> string" where
  "toStyledString d root = styled_value d [] root [] @ [CHR 0x0A]"

end
