(* ===== verification/JsonText.thy ===== *)
theory JsonText
  imports Json
begin

text \<open>
  What the writers print, the reader reads: any text laid out from the printed atoms with white space
  between tokens is parsed to the value, and both writers produce such a text.  Also: the reader always
  returns.
\<close>

section \<open>The reader returns\<close>

definition returns_rest :: "string \<Rightarrow> (json \<times> string) option res \<Rightarrow> bool" where
  "returns_rest s x \<longleftrightarrow> (\<exists>r. x = Inr r \<and> (\<forall>v s'. r = Some (v, s') \<longrightarrow> length s' \<le> length s))"

lemma skipCommentTokens_length:
  "skipCommentTokens s = (t, x, r) \<Longrightarrow> length r \<le> length s \<and> (t \<noteq> TEndOfStream \<longrightarrow> length r < length s)"
proof (induction s arbitrary: t x r rule: skipCommentTokens.induct)
  case (1 s)
  obtain t' x' r' where rt: "readToken s = (t', x', r')" by (cases "readToken s")
  have le: "length r' \<le> length s" using readToken_length_le[of s] rt by simp
  show ?case
  proof (cases "t' = TComment")
    case True
    then have "skipCommentTokens r' = (t, x, r)" using 1(2) rt by (subst (asm) skipCommentTokens.simps) simp
    with 1(1)[OF rt[symmetric] refl True] le readToken_length[OF rt] True show ?thesis by fastforce
  next
    case False
    then have "(t', x', r') = (t, x, r)" using 1(2) rt by (subst (asm) skipCommentTokens.simps) simp
    with le readToken_length[OF rt] show ?thesis by auto
  qed
qed

lemma skipSpaces_length: "length (skipSpaces s) \<le> length s"
  by (simp add: skipSpaces_def length_dropWhile_le)

lemma returns_rest_simps [simp]:
  "returns_rest s (Inr None)"
  "returns_rest s (Inr (Some (v, s'))) \<longleftrightarrow> length s' \<le> length s"
  by (simp_all add: returns_rest_def)

lemma returns_rest_le: "returns_rest s' x \<Longrightarrow> length s' \<le> length s \<Longrightarrow> returns_rest s x"
  by (fastforce simp: returns_rest_def)

lemma returns_rest_bind:
  assumes "returns_rest s x" "\<And>v r. length r \<le> length s \<Longrightarrow> returns_rest s (f (Some (v, r)))"
    "returns_rest s (f None)"
  shows "returns_rest s (bindR x f)"
proof -
  from assms(1) obtain y where "x = Inr y" "\<forall>v s'. y = Some (v, s') \<longrightarrow> length s' \<le> length s"
    by (auto simp: returns_rest_def)
  with assms(2,3) show ?thesis by (cases y) auto
qed

lemma member_name_shorter: "member_name s = Some (k, r) \<Longrightarrow> length r < length s"
proof -
  assume m: "member_name s = Some (k, r)"
  obtain t x r1 where st: "skipCommentTokens s = (t, x, r1)" by (cases "skipCommentTokens s")
  obtain t2 x2 r2 where rt: "readToken r1 = (t2, x2, r2)" by (cases "readToken r1")
  from m st rt have "t = TString" "r = r2"
    by (auto simp: member_name_def split: if_splits option.splits)
  with skipCommentTokens_length[OF st] readToken_length_le[of r1] rt show ?thesis by auto
qed

lemma end_of_member_shorter: "end_of_member s = Some (t, r) \<Longrightarrow> length r < length s"
proof -
  assume m: "end_of_member s = Some (t, r)"
  obtain t1 x1 r1 where rt: "readToken s = (t1, x1, r1)" by (cases "readToken s")
  obtain t2 x2 r2 where st: "skipCommentTokens r1 = (t2, x2, r2)" by (cases "skipCommentTokens r1")
  from m rt st have "t1 \<noteq> TEndOfStream" "r = r1 \<or> r = r2"
    by (auto simp: end_of_member_def split: if_splits)
  with readToken_length[OF rt] skipCommentTokens_length[OF st] show ?thesis by auto
qed

lemma reader_returns:
  "(2 * length s + 1 \<le> n \<longrightarrow> returns_rest s (readValue d n s)) \<and>
   (2 * length s + 2 \<le> n \<longrightarrow> returns_rest s (readObject d n nm ms s)) \<and>
   (2 * length s + 2 \<le> n \<longrightarrow> returns_rest s (readArray d n vs s))"
proof (induction n arbitrary: s nm ms vs)
  case 0
  then show ?case by simp
next
  case (Suc n)
  have V: "2 * length s + 1 \<le> n \<Longrightarrow> returns_rest s (readValue d n s)"
    and O: "2 * length s + 2 \<le> n \<Longrightarrow> returns_rest s (readObject d n nm ms s)"
    and A: "2 * length s + 2 \<le> n \<Longrightarrow> returns_rest s (readArray d n vs s)" for s nm ms vs
    using Suc.IH by blast+
  show ?case
  proof (intro conjI impI)
    assume n: "2 * length s + 1 \<le> Suc n"
    obtain t x r where st: "skipCommentTokens s = (t, x, r)" by (cases "skipCommentTokens s")
    note len = skipCommentTokens_length[OF st]
    have m: "t \<noteq> TEndOfStream \<Longrightarrow> 2 * length r + 2 \<le> n" using len n by auto
    have sp: "length (skipSpaces r) \<le> length r" by (rule skipSpaces_length)
    have tl: "length (tl (skipSpaces r)) \<le> length s" using sp len by (simp, linarith)
    have a: "t = TArrayBegin \<Longrightarrow> returns_rest s (readArray d n [] (skipSpaces r))"
      using m sp len by (intro returns_rest_le[OF A]) auto
    have ob: "t = TObjectBegin \<Longrightarrow> returns_rest s (readObject d n [] [] r)"
      using m len by (intro returns_rest_le[OF O]) auto
    have opt: "returns_rest s (Inr (map_option (\<lambda>y. (f y, r)) z))" for f :: "'b \<Rightarrow> json" and z
      using len by (cases z) auto
    show "returns_rest s (readValue d (Suc n) s)"
      using a ob tl len by (simp add: st Let_def opt)
  next
    assume n: "2 * length s + 2 \<le> Suc n"
    obtain t x r where st: "skipCommentTokens s = (t, x, r)" by (cases "skipCommentTokens s")
    note len = skipCommentTokens_length[OF st]
    show "returns_rest s (readObject d (Suc n) nm ms s)"
    proof (cases "member_name s")
      case None
      then show ?thesis using len by (simp add: st)
    next
      case (Some p)
      obtain nm' r1 where p: "p = (nm', r1)" by (cases p)
      have l1: "length r1 < length s" using member_name_shorter Some p by simp
      obtain y where y: "readValue d n r1 = Inr y" and ly: "\<forall>v s'. y = Some (v, s') \<longrightarrow> length s' \<le> length r1"
        using V[of r1] l1 n by (auto simp: returns_rest_def)
      have step: "returns_rest s (readObject d n nm' ms' r3)" "length r3 \<le> length s"
        if "y = Some (v, r2)" "end_of_member r2 = Some (t3, r3)" for v r2 t3 r3 ms'
      proof -
        have l3: "length r3 < length s" using end_of_member_shorter[OF that(2)] ly that(1) l1 by auto
        then show "length r3 \<le> length s" by simp
        from l3 n show "returns_rest s (readObject d n nm' ms' r3)" by (intro returns_rest_le[OF O]) auto
      qed
      show ?thesis
        using len step by (auto simp: st Some p y split: option.split)
    qed
  next
    assume n: "2 * length s + 2 \<le> Suc n"
    obtain y where y: "readValue d n s = Inr y" and ly: "\<forall>v s'. y = Some (v, s') \<longrightarrow> length s' \<le> length s"
      using V[of s] n by (auto simp: returns_rest_def)
    show "returns_rest s (readArray d (Suc n) vs s)"
    proof (cases y)
      case None
      with y show ?thesis by simp
    next
      case (Some p)
      obtain v r where p: "p = (v, r)" by (cases p)
      obtain t x r' where st: "skipCommentTokens r = (t, x, r')" by (cases "skipCommentTokens r")
      have l: "t \<noteq> TEndOfStream \<Longrightarrow> length r' < length s"
        using skipCommentTokens_length[OF st] ly Some p by auto
      then have "t = TArraySeparator \<Longrightarrow> returns_rest s (readArray d n (vs @ [v]) r')"
        using n by (intro returns_rest_le[OF A]) auto
      moreover from l have "t = TArrayEnd \<Longrightarrow> length r' \<le> length s" by simp
      ultimately show ?thesis by (simp add: y Some p st)
    qed
  qed
qed

section \<open>Printed text\<close>

text \<open>The numbers and objects the reader builds, and the values it can give back.\<close>

fun canonical :: "json \<Rightarrow> json" where
  "canonical (JInt i) = (if i \<le> 2 ^ 31 - 1 then JInt i else JUInt i)"
| "canonical (JUInt n) = (if n \<le> 2 ^ 31 - 1 then JInt n else JUInt n)"
| "canonical (JArray vs) = JArray (map canonical vs)"
| "canonical (JObject ms) = JObject (map (\<lambda>m. (fst m, canonical (snd m))) ms)"
| "canonical v = v"

fun json_ok :: "json \<Rightarrow> bool" where
  "json_ok (JInt i) \<longleftrightarrow> - (2 ^ 63) \<le> i \<and> i < 2 ^ 63"
| "json_ok (JUInt n) \<longleftrightarrow> 0 \<le> n \<and> n < 2 ^ 64"
| "json_ok (JReal r) \<longleftrightarrow> False"
| "json_ok (JString s) \<longleftrightarrow> nul_free s"
| "json_ok (JArray vs) \<longleftrightarrow> list_all json_ok vs"
| "json_ok (JObject ms) \<longleftrightarrow>
     list_all (\<lambda>m. nul_free (fst m) \<and> json_ok (snd m)) ms \<and> sorted_wrt byte_less (map fst ms)"
| "json_ok _ \<longleftrightarrow> True"

definition blank :: "string \<Rightarrow> bool" where
  "blank w \<longleftrightarrow> list_all json_space w"

definition follows :: "string \<Rightarrow> bool" where
  "follows s \<longleftrightarrow> s = [] \<or> \<not> number_char (hd s)"

text \<open>\<open>reads d v t\<close>: the text \<open>t\<close> is parsed to \<open>v\<close>, up to white space left behind.\<close>

definition reads :: "double_ops \<Rightarrow> json \<Rightarrow> string \<Rightarrow> bool" where
  "reads d v t \<longleftrightarrow>
     (\<forall>n rest. 2 * length t + 1 \<le> n \<longrightarrow> follows rest \<longrightarrow>
        (\<exists>w. blank w \<and> readValue d n (t @ rest) = Inr (Some (v, w @ rest))))"

lemma blank_simps [simp]:
  "blank []" "blank (c # w) \<longleftrightarrow> json_space c \<and> blank w" "blank (v @ w) \<longleftrightarrow> blank v \<and> blank w"
  by (simp_all add: blank_def)

lemma skipSpaces_blank [simp]: "blank w \<Longrightarrow> skipSpaces (w @ s) = skipSpaces s"
  by (induction w) (simp_all add: skipSpaces_def)

lemma readToken_blank [simp]: "blank w \<Longrightarrow> readToken (w @ s) = readToken s"
  by (simp add: readToken_def)

lemma skipCommentTokens_blank [simp]: "blank w \<Longrightarrow> skipCommentTokens (w @ s) = skipCommentTokens s"
  by (subst (1 2) skipCommentTokens.simps) simp

lemma readValue_blank: "blank w \<Longrightarrow> readValue d n (w @ s) = readValue d n s"
  by (cases n) simp_all

lemma reads_leading: "blank w \<Longrightarrow> reads d v t \<Longrightarrow> reads d v (w @ t)"
  by (simp add: reads_def readValue_blank)

lemma space_no_number: "json_space c \<Longrightarrow> \<not> number_char c"
  by (auto simp: json_space_def number_char_def is_digit_def)

lemma follows_blank: "blank w \<Longrightarrow> follows s \<Longrightarrow> follows (w @ s)"
  by (cases w) (auto simp: follows_def space_no_number)

lemma reads_trailing:
  assumes "blank w" "reads d v t" shows "reads d v (t @ w)"
  unfolding reads_def
proof (intro allI impI)
  fix n rest assume "2 * length (t @ w) + 1 \<le> n" "follows rest"
  then have "2 * length t + 1 \<le> n" "follows (w @ rest)" using assms(1) by (simp_all add: follows_blank)
  with assms(2) obtain w' where "blank w'" "readValue d n (t @ w @ rest) = Inr (Some (v, w' @ w @ rest))"
    unfolding reads_def by blast
  with assms(1) show "\<exists>w'. blank w' \<and> readValue d n ((t @ w) @ rest) = Inr (Some (v, w' @ rest))"
    by (intro exI[of _ "w' @ w"]) simp
qed

lemma readToken_head:
  "\<not> json_space c \<Longrightarrow> readToken (c # s) =
     (let (t, ok, r) = scan_token c s in (if ok then t else TError, c # take (length s - length r) s, r))"
  by (simp add: readToken_def skipSpaces_def)

lemma skipCommentTokens_other:
  "readToken s = (t, x, r) \<Longrightarrow> t \<noteq> TComment \<Longrightarrow> skipCommentTokens s = (t, x, r)"
  by (subst skipCommentTokens.simps) simp

lemma punctuation:
  "readToken (CHR ''{'' # s) = (TObjectBegin, ''{'', s)"
  "readToken (CHR ''}'' # s) = (TObjectEnd, ''}'', s)"
  "readToken (CHR ''['' # s) = (TArrayBegin, ''['', s)"
  "readToken (CHR '']'' # s) = (TArrayEnd, '']'', s)"
  "readToken (CHR '','' # s) = (TArraySeparator, '','', s)"
  "readToken (CHR '':'' # s) = (TMemberSeparator, '':'', s)"
  by (simp_all add: readToken_head json_space_def scan_token_def is_digit_def)

lemmas punctuation_skip = punctuation[THEN skipCommentTokens_other, simplified]

subsection \<open>Atoms\<close>

lemma readToken_atom:
  assumes "\<not> json_space c" "scan_token c (s @ rest) = (t, True, rest)"
  shows "readToken (c # s @ rest) = (t, c # s, rest)"
  using assms by (simp add: readToken_head)

lemma keyword_tokens:
  "readToken (''null'' @ rest) = (TNull, ''null'', rest)"
  "readToken (''true'' @ rest) = (TTrue, ''true'', rest)"
  "readToken (''false'' @ rest) = (TFalse, ''false'', rest)"
  by (simp_all add: readToken_head json_space_def scan_token_def is_digit_def match_def)

text \<open>Numbers.\<close>

lemma nat_bound:
  "k * nat y \<le> F \<Longrightarrow> int F \<le> M \<Longrightarrow> 0 \<le> y \<Longrightarrow> int k * y \<le> M"
  by (metis int_nat_eq of_nat_le_iff of_nat_mult order_trans)

lemma number_loop_value:
  assumes "list_all is_digit cs" "0 \<le> v" "10 \<le> M"
    "int (foldl (\<lambda>a c. 10 * a + (ord c - 48)) (nat v) cs) \<le> M"
  shows "number_loop M v cs = Some (Some (int (foldl (\<lambda>a c. 10 * a + (ord c - 48)) (nat v) cs)))"
  using assms
proof (induction cs arbitrary: v)
  case (Cons c cs)
  let ?g = "\<lambda>a c. 10 * a + (ord c - 48)"
  define x where "x = int (ord c - 48)"
  have x: "0 \<le> x" "x \<le> 9" using Cons.prems(1) by (auto simp: x_def is_digit_def)
  have grow: "a \<le> foldl ?g a ds" for a :: nat and ds :: string
  proof (induction ds arbitrary: a)
    case (Cons c ds)
    show ?case using Cons.IH[of "?g a c"] by simp
  qed simp
  have grow10: "ds \<noteq> [] \<Longrightarrow> 10 * a \<le> foldl ?g a ds" for a :: nat and ds :: string
  proof (cases ds)
    case (Cons c ds')
    then show ?thesis using grow[of "?g a c" ds'] by simp
  qed simp
  have step: "nat (v * 10 + x) = 10 * nat v + (ord c - 48)"
    using Cons.prems(2) by (simp add: x_def nat_add_distrib nat_mult_distrib)
  have final: "int (foldl ?g (nat (v * 10 + x)) cs) \<le> M" using Cons.prems(4) by (simp only: step foldl_Cons)
  have le: "v * 10 + x \<le> M" using nat_bound[of 1, OF _ final] grow[of "nat (v * 10 + x)" cs] Cons.prems(2) x(1) by simp
  have le10: "cs \<noteq> [] \<Longrightarrow> (v * 10 + x) * 10 \<le> M"
  proof -
    assume "cs \<noteq> []"
    from nat_bound[OF grow10[OF this] final] Cons.prems(2) x(1) show ?thesis by simp
  qed
  obtain q m where q: "q = M div 10" and m: "m = M mod 10" by blast
  have M: "M = 10 * q + m" "0 \<le> m" "m < 10" "1 \<le> q"
    using Cons.prems(3) by (simp_all add: q m)
  have no_overflow: "\<not> (M div 10 \<le> v \<and> (M div 10 < v \<or> cs \<noteq> [] \<or> M mod 10 < x))"
  proof (cases "q \<le> v")
    case True
    then have "\<not> q < v" "\<not> m < x" using le x M by linarith+
    moreover have "cs = []"
    proof (rule ccontr)
      assume "cs \<noteq> []"
      from le10[OF this] True x M show False by (simp add: algebra_simps)
    qed
    ultimately show ?thesis unfolding q[symmetric] m[symmetric] by simp
  qed (simp add: q)
  have "number_loop M (v * 10 + x) cs = Some (Some (int (foldl ?g (nat (v * 10 + x)) cs)))"
    using Cons.prems x final by (intro Cons.IH) auto
  then show ?case
    using no_overflow Cons.prems(1) by (simp add: Let_def x_def[symmetric] step)
qed simp

lemma number_loop_dec: "int n \<le> M \<Longrightarrow> 10 \<le> M \<Longrightarrow> number_loop M 0 (dec n) = Some (Some (int n))"
  using number_loop_value[of "dec n" 0 M] dec_digits[of n] dec_val_dec[of n]
  by (simp add: dec_val_def list_all_iff)

lemma digit_number_char: "is_digit c \<Longrightarrow> number_char c"
  by (simp add: number_char_def)

lemma digit_plain:
  "is_digit c \<Longrightarrow> c \<notin> set ''.eE+'' \<and> c \<noteq> CHR ''-'' \<and> \<not> json_space c"
  by (auto simp: is_digit_def json_space_def)

lemma scan_number:
  "is_digit c \<or> c = CHR ''-'' \<Longrightarrow> scan_token c s = (TNumber, True, readNumber s)"
  by (auto simp: scan_token_def is_digit_def)

lemma readNumber_digits:
  "list_all number_char ds \<Longrightarrow> follows rest \<Longrightarrow> readNumber (ds @ rest) = rest"
  by (cases rest) (auto simp: readNumber_def follows_def list_all_iff dropWhile_append)

lemma readToken_number:
  assumes "ds \<noteq> []" "list_all is_digit ds" "follows rest"
  shows "readToken (ds @ rest) = (TNumber, ds, rest)"
    "readToken (CHR ''-'' # ds @ rest) = (TNumber, CHR ''-'' # ds, rest)"
proof -
  obtain c cs where ds: "ds = c # cs" using assms(1) by (cases ds) auto
  have c: "is_digit c" "list_all number_char cs" "list_all number_char ds"
    using assms(2) ds by (auto simp: list_all_iff digit_number_char)
  have s: "\<not> json_space c" "\<not> json_space (CHR ''-'')" using digit_plain[OF c(1)] by (auto simp: json_space_def)
  show "readToken (ds @ rest) = (TNumber, ds, rest)"
    unfolding ds append_Cons
    by (rule readToken_atom) (use s c scan_number assms(3) readNumber_digits in auto)
  show "readToken (CHR ''-'' # ds @ rest) = (TNumber, CHR ''-'' # ds, rest)"
    by (rule readToken_atom) (use s c scan_number assms(3) readNumber_digits in auto)
qed

lemma digits_no_double: "list_all is_digit ds \<Longrightarrow> \<not> is_double ds \<and> \<not> is_double (CHR ''-'' # ds)"
  using digit_plain by (cases ds) (fastforce simp: is_double_def list_all_iff)+

lemma decodeNumber_dec:
  "int n < 2 ^ 64 \<Longrightarrow> decodeNumber d (dec n) = Some (if int n \<le> 2 ^ 31 - 1 then JInt (int n) else JUInt (int n))"
proof -
  assume n: "int n < 2 ^ 64"
  have "is_digit (hd (dec n))" using dec_digits[of n] by (cases "dec n") auto
  then have "hd (dec n) \<noteq> CHR ''-''" using digit_plain by blast
  then show ?thesis
    using number_loop_dec[of n "2 ^ 64 - 1"] digits_no_double[of "dec n"] dec_digits[of n] n
    by (simp add: decodeNumber_def list_all_iff)
qed

lemma decodeNumber_negative:
  assumes "0 < n" "int n \<le> 2 ^ 63"
  shows "decodeNumber d (CHR ''-'' # dec n) = Some (JInt (- int n))"
proof -
  have "to_llong (- to_llong (int n)) = - int n"
  proof (cases "int n = 2 ^ 63")
    case True
    have "to_llong (- to_llong (2 ^ 63)) = - (2 ^ 63)" by (simp add: to_llong_def)
    with True show ?thesis by (simp only:)
  next
    case False
    with assms show ?thesis by simp
  qed
  then show ?thesis
    using number_loop_dec[of n "2 ^ 63"] digits_no_double[of "dec n"] dec_digits[of n] assms
    by (simp add: decodeNumber_def list_all_iff)
qed

text \<open>Strings.\<close>

lemma quoted_eq:
  "nul_free s \<Longrightarrow> valueToQuotedString s = quote # concat (map escape_char s) @ [quote]"
proof -
  assume "nul_free s"
  then have c: "c_str s = s" by (auto simp: c_str_def nul_free_def takeWhile_eq_all_conv)
  have "\<not> needs_escape x \<Longrightarrow> escape_char x = [x]" for x
    by (simp add: needs_escape_def escape_char_def)
  then have "\<not> list_ex needs_escape s \<Longrightarrow> concat (map escape_char s) = s"
    by (induction s) auto
  with c show ?thesis by (simp add: valueToQuotedString_def)
qed

lemma upper_hex_digit: "x < 16 \<Longrightarrow> hex_digit (upper_hex x) = Some x"
  by (auto simp: hex_digit_def upper_hex_def is_digit_def)

lemma upper_hex_plain: "x < 16 \<Longrightarrow> upper_hex x \<noteq> backslash \<and> upper_hex x \<noteq> quote"
  using upper_hex_digit[of x] by (auto simp: hex_digit_def is_digit_def)

lemma ord_eqI: "ord c = n \<Longrightarrow> n = ord c' \<Longrightarrow> c = c'"
  by (metis of_char_eq_iff)

lemma escape_cases:
  assumes "c \<noteq> NUL"
  obtains (plain) "escape_char c = [c]" "c \<noteq> quote" "c \<noteq> backslash"
  | (simple) e where "escape_char c = [backslash, e]" "simple_escape e = Some c"
  | (control) "escape_char c =
       [backslash, CHR ''u'', CHR ''0'', CHR ''0'', upper_hex (ord c div 16), upper_hex (ord c mod 16)]"
       "ord c < 32"
proof -
  have chars: "ord c = 8 \<Longrightarrow> c = CHR 0x08" "ord c = 12 \<Longrightarrow> c = CHR 0x0C" "ord c = 10 \<Longrightarrow> c = CHR 0x0A"
    "ord c = 13 \<Longrightarrow> c = CHR 0x0D" "ord c = 9 \<Longrightarrow> c = CHR 0x09"
    by (auto intro: ord_eqI)
  show ?thesis
  proof (cases "ord c \<in> {8, 12, 10, 13, 9} \<or> c = quote \<or> c = backslash")
    case True
    with chars have "c = quote \<or> c = backslash \<or> c = CHR 0x08 \<or> c = CHR 0x0C \<or> c = CHR 0x0A \<or> c = CHR 0x0D \<or> c = CHR 0x09"
      by auto
    then have "\<exists>e. escape_char c = [backslash, e] \<and> simple_escape e = Some c"
      by (elim disjE) (simp_all add: escape_char_def simple_escape_def)
    with simple show ?thesis by blast
  next
    case False
    then have e: "escape_char c = (if isControlCharacter c then
        [backslash, CHR ''u'', CHR ''0'', CHR ''0'', upper_hex (ord c div 16), upper_hex (ord c mod 16)] else [c])"
      by (simp add: escape_char_def)
    from False control plain show ?thesis by (cases "isControlCharacter c") (auto simp: e isControlCharacter_def)
  qed
qed

lemma readString_escape:
  assumes "c \<noteq> NUL" "X \<noteq> []" shows "readString (escape_char c @ X) = readString X"
proof -
  obtain x xs where X: "X = x # xs" using assms(2) by (cases X) auto
  from assms(1) show ?thesis
  proof (cases rule: escape_cases)
    case control
    have h: "upper_hex (ord c div 16) \<noteq> backslash" "upper_hex (ord c div 16) \<noteq> quote"
      "upper_hex (ord c mod 16) \<noteq> backslash" "upper_hex (ord c mod 16) \<noteq> quote"
      using control(2) upper_hex_plain[of "ord c div 16"] upper_hex_plain[of "ord c mod 16"] by auto
    show ?thesis unfolding control(1) X by (simp add: h)
  qed (simp_all add: X)
qed

lemma readString_quoted:
  "nul_free s \<Longrightarrow> readString (concat (map escape_char s) @ quote # rest) = (True, rest)"
proof (induction s)
  case Nil
  then show ?case by (cases rest) simp_all
next
  case (Cons c s)
  then have "c \<noteq> NUL" "nul_free s" by (auto simp: nul_free_def)
  with readString_escape[of c "concat (map escape_char s) @ quote # rest"] Cons.IH show ?case by simp
qed

lemma four_digits: "length (a # b # c # d # X) \<ge> 4" "take 4 (a # b # c # d # X) = [a, b, c, d]"
  "drop 4 (a # b # c # d # X) = X"
  by (simp_all add: numeral_eq_Suc)

lemma control_code_point:
  assumes "ord c < 32"
  shows "decodeUnicodeCodePoint (CHR ''0'' # CHR ''0'' # upper_hex (ord c div 16) # upper_hex (ord c mod 16) # X) = Some (ord c, X)"
proof -
  have h: "hex_digit (CHR ''0'') = Some 0" "hex_digit (upper_hex (ord c div 16)) = Some (ord c div 16)"
    "hex_digit (upper_hex (ord c mod 16)) = Some (ord c mod 16)"
    using assms by (simp_all add: upper_hex_digit hex_digit_def[of "CHR ''0''"] is_digit_def)
  have "decodeUnicodeEscapeSequence (CHR ''0'' # CHR ''0'' # upper_hex (ord c div 16) # upper_hex (ord c mod 16) # X)
      = Some (ord c, X)"
    using four_digits[of "CHR ''0''" "CHR ''0''" "upper_hex (ord c div 16)" "upper_hex (ord c mod 16)" X] h
    by (simp only: decodeUnicodeEscapeSequence_def hex_number.simps option.case not_le[symmetric] if_False simp_thms
        if_True mult_0 add_0 div_mult_mod_eq)
  with assms show ?thesis by (simp add: decodeUnicodeCodePoint_def)
qed

lemma decode_chars_escape:
  assumes "c \<noteq> NUL" shows "decode_chars (escape_char c @ X) = map_option ((#) c) (decode_chars X)"
  using assms
proof (cases rule: escape_cases)
  case control
  have "simple_escape (CHR ''u'') = None" by (simp add: simple_escape_def)
  moreover have "codePointToUTF8 (ord c) = [c]" using control(2) by (simp add: codePointToUTF8_def)
  ultimately show ?thesis using control control_code_point[OF control(2), of X] by (cases "decode_chars X") simp_all
qed simp_all

lemma decode_chars_escaped: "nul_free s \<Longrightarrow> decode_chars (concat (map escape_char s)) = Some s"
  by (induction s) (auto simp: nul_free_def decode_chars_escape)

lemma readToken_quoted:
  assumes "nul_free s"
  shows "readToken (valueToQuotedString s @ rest) = (TString, valueToQuotedString s, rest)"
    "decodeString (valueToQuotedString s) = Some s"
proof -
  show "readToken (valueToQuotedString s @ rest) = (TString, valueToQuotedString s, rest)"
    unfolding quoted_eq[OF assms] append_Cons append.assoc
    using readString_quoted[OF assms, of rest]
    by (subst readToken_head) (simp_all add: json_space_def scan_token_def)
  show "decodeString (valueToQuotedString s) = Some s"
    using decode_chars_escaped[OF assms] by (simp add: quoted_eq[OF assms] decodeString_def)
qed

subsection \<open>Values\<close>

lemma readsI:
  assumes "\<And>n rest. 2 * length t \<le> n \<Longrightarrow> follows rest \<Longrightarrow>
     \<exists>w. blank w \<and> readValue d (Suc n) (t @ rest) = Inr (Some (v, w @ rest))"
  shows "reads d v t"
  unfolding reads_def
proof (intro allI impI)
  fix n rest assume "2 * length t + 1 \<le> n" "follows rest"
  then show "\<exists>w. blank w \<and> readValue d n (t @ rest) = Inr (Some (v, w @ rest))"
    using assms[of "n - 1" rest] by (cases n) auto
qed

lemma reads_token:
  assumes "\<And>rest. follows rest \<Longrightarrow> readToken (t @ rest) = (k, t, rest)"
    "k = TNumber \<and> decodeNumber d t = Some v \<or> k = TString \<and> map_option json_string (decodeString t) = Some v
     \<or> k = TTrue \<and> v = JBool True \<or> k = TFalse \<and> v = JBool False \<or> k = TNull \<and> v = JNull"
  shows "reads d v t"
proof (rule readsI)
  fix n rest assume "follows rest"
  then have "skipCommentTokens (t @ rest) = (k, t, rest)"
    using assms by (intro skipCommentTokens_other) auto
  with assms(2) show "\<exists>w. blank w \<and> readValue d (Suc n) (t @ rest) = Inr (Some (v, w @ rest))"
    by (intro exI[of _ "[]"]) (auto simp: Let_def)
qed

lemma reads_dec: "int n < 2 ^ 64 \<Longrightarrow> reads d (if int n \<le> 2 ^ 31 - 1 then JInt (int n) else JUInt (int n)) (dec n)"
  using dec_digits[of n] decodeNumber_dec[of n d]
  by (intro reads_token[where k = TNumber]) (simp_all add: readToken_number list_all_iff)

lemma reads_negative:
  "0 < n \<Longrightarrow> int n \<le> 2 ^ 63 \<Longrightarrow> reads d (JInt (- int n)) (CHR ''-'' # dec n)"
  using dec_digits[of n] decodeNumber_negative[of n d]
  by (intro reads_token[where k = TNumber]) (simp_all add: readToken_number list_all_iff)

text \<open>The text of the elements of an array and of the members of an object.\<close>

fun reads_items :: "double_ops \<Rightarrow> json list \<Rightarrow> string \<Rightarrow> bool" where
  "reads_items d [] X \<longleftrightarrow> False"
| "reads_items d [v] X \<longleftrightarrow> reads d v X"
| "reads_items d (v # w # vs) X \<longleftrightarrow> (\<exists>t X'. X = t @ CHR '','' # X' \<and> reads d v t \<and> reads_items d (w # vs) X')"

definition reads_member :: "double_ops \<Rightarrow> string \<times> json \<Rightarrow> string \<Rightarrow> bool" where
  "reads_member d m X \<longleftrightarrow>
     (\<exists>w w' t. X = w @ valueToQuotedString (fst m) @ w' @ CHR '':'' # t \<and> blank w \<and> blank w' \<and> reads d (snd m) t)"

fun reads_members :: "double_ops \<Rightarrow> (string \<times> json) list \<Rightarrow> string \<Rightarrow> bool" where
  "reads_members d [] X \<longleftrightarrow> False"
| "reads_members d [m] X \<longleftrightarrow> reads_member d m X"
| "reads_members d (m # w # ms) X \<longleftrightarrow>
     (\<exists>t X'. X = t @ CHR '','' # X' \<and> reads_member d m t \<and> reads_members d (w # ms) X')"

lemma follows_punctuation [simp]: "follows (CHR '','' # s)" "follows (CHR '']'' # s)" "follows (CHR ''}'' # s)"
  by (simp_all add: follows_def number_char_def is_digit_def)

lemma reads_value:
  "reads d v t \<Longrightarrow> 2 * length t < n \<Longrightarrow> follows rest \<Longrightarrow>
   \<exists>w. blank w \<and> readValue d n (t @ rest) = Inr (Some (v, w @ rest))"
  by (simp add: reads_def)

lemma readArray_items:
  "reads_items d vs X \<Longrightarrow> 2 * length X + 2 \<le> n \<Longrightarrow>
   readArray d n acc (X @ CHR '']'' # rest) = Inr (Some (JArray (acc @ vs), rest))"
proof (induction d vs X arbitrary: n acc rule: reads_items.induct)
  case (2 d v X)
  obtain m where n: "n = Suc m" using 2(2) by (cases n) auto
  have "\<exists>w. blank w \<and> readValue d m (X @ CHR '']'' # rest) = Inr (Some (v, w @ CHR '']'' # rest))"
    using 2 n by (intro reads_value) auto
  then obtain w where "blank w" "readValue d m (X @ CHR '']'' # rest) = Inr (Some (v, w @ CHR '']'' # rest))" by blast
  then show ?case by (simp add: n punctuation_skip)
next
  case (3 d v v' vs X)
  obtain m where n: "n = Suc m" using 3(3) by (cases n) auto
  from 3(2) obtain t X' where X: "X = t @ CHR '','' # X'" "reads d v t" "reads_items d (v' # vs) X'" by auto
  have "\<exists>w. blank w \<and> readValue d m (t @ CHR '','' # X' @ CHR '']'' # rest) = Inr (Some (v, w @ CHR '','' # X' @ CHR '']'' # rest))"
    using 3(3) n X by (intro reads_value) auto
  then obtain w where
    "blank w" "readValue d m (t @ CHR '','' # X' @ CHR '']'' # rest) = Inr (Some (v, w @ CHR '','' # X' @ CHR '']'' # rest))"
    by blast
  moreover have "readArray d m (acc @ [v]) (X' @ CHR '']'' # rest) = Inr (Some (JArray ((acc @ [v]) @ v' # vs), rest))"
    using 3(3) n X by (intro 3(1)) auto
  ultimately show ?case by (simp add: n X(1) punctuation_skip)
qed simp

lemma split_blank: "\<exists>w. blank w \<and> s = w @ skipSpaces s"
  by (rule exI[of _ "takeWhile json_space s"]) (auto simp: skipSpaces_def blank_def list_all_iff dest: set_takeWhileD)

lemma readValue_skipSpaces: "readValue d n (skipSpaces s) = readValue d n s"
  using split_blank[of s] readValue_blank by metis

lemma readArray_skipSpaces: "readArray d n vs (skipSpaces s) = readArray d n vs s"
  by (cases n) (simp_all add: readValue_skipSpaces)

lemma skipSpaces_stop [simp]: "skipSpaces (CHR '']'' # s) = CHR '']'' # s"
  by (simp add: skipSpaces_def json_space_def)

lemma reads_start:
  assumes "reads d v t" "follows rest" shows "hd (skipSpaces (t @ rest)) \<noteq> CHR '']''"
    "skipSpaces (t @ rest) \<noteq> []"
proof -
  obtain w where r: "readValue d (Suc (2 * length t)) (skipSpaces (t @ rest)) = Inr (Some (v, w @ rest))"
    unfolding readValue_skipSpaces using reads_value[OF assms(1) _ assms(2), of "Suc (2 * length t)"] by blast
  have "skipCommentTokens [] = (TEndOfStream, [], [])"
    by (rule skipCommentTokens_other) (simp_all add: readToken_def skipSpaces_def)
  with r show "skipSpaces (t @ rest) \<noteq> []" by auto
  with r show "hd (skipSpaces (t @ rest)) \<noteq> CHR '']''"
    by (cases "skipSpaces (t @ rest)") (auto simp: punctuation_skip)
qed

lemma reads_array: "reads_items d vs X \<Longrightarrow> reads d (JArray vs) (CHR ''['' # X @ '']'')"
proof (rule readsI)
  fix n rest assume X: "reads_items d vs X" and n: "2 * length (CHR ''['' # X @ '']'') \<le> n"
  have "hd (skipSpaces (X @ CHR '']'' # rest)) \<noteq> CHR '']''"
    using X by (cases "(d, vs, X)" rule: reads_items.cases) (auto simp: reads_start(1))
  moreover have "readArray d n [] (X @ CHR '']'' # rest) = Inr (Some (JArray vs, rest))"
    using readArray_items[OF X, of n "[]" rest] n by simp
  ultimately show "\<exists>w. blank w \<and> readValue d (Suc n) ((CHR ''['' # X @ '']'') @ rest) = Inr (Some (JArray vs, w @ rest))"
    by (intro exI[of _ "[]"]) (simp add: punctuation_skip Let_def readArray_skipSpaces)
qed

lemma reads_empty_array: "blank w \<Longrightarrow> reads d (JArray []) (CHR ''['' # w @ '']'')"
  by (rule readsI) (auto simp: punctuation_skip Let_def intro!: exI[of _ "[]"])

lemma byte_less_irrefl: "\<not> byte_less k k"
  by (induction k) auto

lemma byte_less_asym: "byte_less a b \<Longrightarrow> \<not> byte_less b a"
  by (induction a b rule: byte_less.induct) auto

lemma put_member_last:
  "\<forall>k' \<in> fst ` set ms. byte_less k' k \<Longrightarrow> put_member k v ms = ms @ [(k, v)]"
proof (induction ms)
  case Nil
  then show ?case by (simp add: put_member_def)
next
  case (Cons m ms)
  obtain k' v' where m: "m = (k', v')" by (cases m)
  with Cons.prems have "byte_less k' k" by simp
  then have "k \<noteq> k'" "\<not> byte_less k k'" using byte_less_irrefl byte_less_asym by auto
  with Cons m show ?case by (simp add: put_member_def)
qed

lemma member_name_reads:
  assumes "nul_free k" "blank w" "blank w'"
  shows "member_name (w @ valueToQuotedString k @ w' @ CHR '':'' # rest) = Some (k, rest)"
    "fst (skipCommentTokens (w @ valueToQuotedString k @ w' @ CHR '':'' # rest)) = TString"
  using assms skipCommentTokens_other[OF readToken_quoted(1)[OF assms(1), of "w' @ CHR '':'' # rest"]]
  by (simp_all add: member_name_def readToken_quoted punctuation)

lemma c_str_nul_free [simp]: "nul_free k \<Longrightarrow> c_str k = k"
  by (auto simp: c_str_def nul_free_def takeWhile_eq_all_conv)

lemma readObject_member:
  assumes "reads_member d m t" "nul_free (fst m)" "2 * length t + 1 \<le> n" "follows rest"
    "end_of_member rest = Some (k, rest')"  "\<And>w. blank w \<Longrightarrow> end_of_member (w @ rest) = end_of_member rest"
  shows "readObject d (Suc n) nm acc (t @ rest) =
     (if k = TObjectEnd then Inr (Some (JObject (put_member (fst m) (snd m) acc), rest'))
      else readObject d n (fst m) (put_member (fst m) (snd m) acc) rest')"
proof -
  from assms(1) obtain w w' t' where t: "t = w @ valueToQuotedString (fst m) @ w' @ CHR '':'' # t'"
    and b: "blank w" "blank w'" and v: "reads d (snd m) t'"
    by (auto simp: reads_member_def)
  obtain x r where sk: "skipCommentTokens (t @ rest) = (TString, x, r)"
    using member_name_reads(2)[OF assms(2) b, of "t' @ rest"] t by (metis append.assoc append_Cons prod.collapse)
  have mn: "member_name (t @ rest) = Some (fst m, t' @ rest)"
    using member_name_reads(1)[OF assms(2) b, of "t' @ rest"] t by simp
  have "2 * length t' + 1 \<le> n" using assms(3) t by simp
  then obtain u where "blank u" "readValue d n (t' @ rest) = Inr (Some (snd m, u @ rest))"
    using reads_value[OF v _ assms(4), of n] by auto
  then show ?thesis using sk mn assms(2,5,6) by simp
qed

lemma end_of_member_punctuation:
  "blank w \<Longrightarrow> end_of_member (w @ CHR ''}'' # s) = Some (TObjectEnd, s)"
  "blank w \<Longrightarrow> end_of_member (w @ CHR '','' # s) = Some (TArraySeparator, s)"
  by (simp_all add: end_of_member_def punctuation)

lemma readObject_members:
  "reads_members d ms X \<Longrightarrow> 2 * length X + 2 \<le> n \<Longrightarrow> \<forall>k \<in> set (map fst ms). nul_free k \<Longrightarrow>
   sorted_wrt byte_less (map fst (acc @ ms)) \<Longrightarrow>
   readObject d n nm acc (X @ CHR ''}'' # rest) = Inr (Some (JObject (acc @ ms), rest))"
proof (induction d ms X arbitrary: n nm acc rule: reads_members.induct)
  case (2 d m X)
  obtain n' where n: "n = Suc n'" using 2(2) by (cases n) auto
  have "put_member (fst m) (snd m) acc = acc @ [m]"
    using 2(4) put_member_last[of acc "fst m" "snd m"] by (simp add: sorted_wrt_append)
  moreover have "reads_member d m X" using 2(1) by simp
  ultimately show ?case
    using readObject_member[of d m X n' "CHR ''}'' # rest" TObjectEnd rest nm acc] 2(2,3)
      end_of_member_punctuation[of "[]"] by (simp add: n end_of_member_punctuation del: readObject.simps)
next
  case (3 d m m' ms X)
  obtain n' where n: "n = Suc n'" using 3(3) by (cases n) auto
  from 3(2) obtain t X' where X: "X = t @ CHR '','' # X'" "reads_member d m t" "reads_members d (m' # ms) X'" by auto
  have p: "put_member (fst m) (snd m) acc = acc @ [m]"
    using 3(5) put_member_last[of acc "fst m" "snd m"] by (simp add: sorted_wrt_append)
  have "readObject d n' (fst m) (acc @ [m]) (X' @ CHR ''}'' # rest) = Inr (Some (JObject ((acc @ [m]) @ m' # ms), rest))"
    using 3(3-5) n X by (intro 3(1)) auto
  then show ?case
    using readObject_member[of d m t n' "CHR '','' # X' @ CHR ''}'' # rest" TArraySeparator "X' @ CHR ''}'' # rest" nm acc]
      3(3,4) X p end_of_member_punctuation[of "[]"]
    by (simp add: n end_of_member_punctuation del: readObject.simps)
qed simp

lemma reads_object:
  assumes "reads_members d ms X" "\<forall>k \<in> set (map fst ms). nul_free k" "sorted_wrt byte_less (map fst ms)"
  shows "reads d (JObject ms) (CHR ''{'' # X @ ''}'')"
proof (rule readsI)
  fix n rest assume n: "2 * length (CHR ''{'' # X @ ''}'') \<le> n"
  have "readObject d n [] [] (X @ CHR ''}'' # rest) = Inr (Some (JObject ms, rest))"
    using readObject_members[OF assms(1), of n "[]" "[]" rest] n assms(2,3) by simp
  then show "\<exists>w. blank w \<and> readValue d (Suc n) ((CHR ''{'' # X @ ''}'') @ rest) = Inr (Some (JObject ms, w @ rest))"
    by (intro exI[of _ "[]"]) (simp add: punctuation_skip Let_def)
qed

lemma reads_empty_object: "reads d (JObject []) ''{}''"
  by (rule readsI, case_tac n) (auto simp: punctuation_skip Let_def intro!: exI[of _ "[]"])

section \<open>The writers\<close>

lemma reads_atom:
  "json_ok v \<Longrightarrow> (case v of JArray _ \<Rightarrow> False | JObject _ \<Rightarrow> False | _ \<Rightarrow> True) \<Longrightarrow> reads d (canonical v) (fast_value d v)"
proof (cases v)
  case JNull
  then show ?thesis by (simp add: reads_token[where k = TNull] keyword_tokens[simplified])
next
  case (JInt i)
  assume ok: "json_ok v"
  show ?thesis
  proof (cases "i < 0")
    case True
    have "- i = 2 ^ 63 \<or> to_llong (- i) = - i"
    proof (cases "- i = 2 ^ 63")
      case False
      then have "- i < 2 ^ 63" using ok JInt by auto
      with True show ?thesis by simp
    qed simp
    then have "nat (to_llong (- i) mod 2 ^ 64) = nat (- i)"
    proof
      assume i: "- i = 2 ^ 63"
      show ?thesis unfolding i by (simp add: to_llong_def)
    qed (use ok JInt True in simp)
    then show ?thesis using ok JInt True reads_negative[of "nat (- i)" d] by (simp add: print_int_def)
  next
    case False
    then have "int (nat i) = i" by simp
    with False show ?thesis using ok JInt reads_dec[of "nat i" d] by (simp add: print_int_def split: if_splits)
  qed
next
  case (JUInt n)
  assume "json_ok v"
  with JUInt have "0 \<le> n" "n < 2 ^ 64" by simp_all
  then show ?thesis using JUInt reads_dec[of "nat n" d] by (simp split: if_splits)
next
  case (JString x)
  assume "json_ok v"
  with JString show ?thesis
    by (simp add: reads_token[where k = TString] readToken_quoted json_string_def)
next
  case (JBool b)
  then show ?thesis
    by (cases b) (simp_all add: reads_token[where k = TTrue] reads_token[where k = TFalse] keyword_tokens[simplified])
qed simp_all

lemma reads_member_quoted:
  "blank w \<Longrightarrow> blank w' \<Longrightarrow> reads d v t \<Longrightarrow> reads_member d (k, v) (w @ valueToQuotedString k @ w' @ CHR '':'' # t)"
  by (auto simp: reads_member_def)

lemma reads_items_Cons:
  "reads d v t \<Longrightarrow> vs \<noteq> [] \<Longrightarrow> reads_items d vs X \<Longrightarrow> reads_items d (v # vs) (t @ CHR '','' # X)"
  by (cases vs) auto

lemma reads_members_Cons:
  "reads_member d m t \<Longrightarrow> ms \<noteq> [] \<Longrightarrow> reads_members d ms X \<Longrightarrow> reads_members d (m # ms) (t @ CHR '','' # X)"
  by (cases ms) auto

lemma reads_object_map:
  assumes "reads_members d (map (\<lambda>m. (fst m, canonical (snd m))) ms) X" "json_ok (JObject ms)"
  shows "reads d (canonical (JObject ms)) (CHR ''{'' # X @ ''}'')"
  using reads_object[OF assms(1)] assms(2) by (auto simp: list_all_iff comp_def)

lemma reads_fast:
  "json_ok v \<Longrightarrow> reads d (canonical v) (fast_value d v)"
  "list_all json_ok vs \<Longrightarrow> vs \<noteq> [] \<Longrightarrow> reads_items d (map canonical vs) (fast_items d vs)"
  "list_all (\<lambda>m. json_ok (snd m)) ms \<Longrightarrow> ms \<noteq> [] \<Longrightarrow>
     reads_members d (map (\<lambda>m. (fst m, canonical (snd m))) ms) (fast_members d ms)"
proof (induction d v and d vs and d ms rule: fast_value_fast_items_fast_members.induct)
  case (7 d vs)
  then show ?case using reads_empty_array[of "[]" d] reads_array[of d "map canonical vs"]
    by (cases "vs = []") auto
next
  case (8 d ms)
  show ?case
  proof (cases "ms = []")
    case True
    then show ?thesis using reads_empty_object by simp
  next
    case False
    with 8 have "reads_members d (map (\<lambda>m. (fst m, canonical (snd m))) ms) (fast_members d ms)"
      by (auto simp: list_all_iff)
    from reads_object_map[OF this] 8(2) show ?thesis by simp
  qed
next
  case (10 d v vs)
  then show ?case using reads_items_Cons[of d "canonical v" "fast_value d v" "map canonical vs"] by auto
next
  case (12 d k v ms)
  have m: "reads_member d (k, canonical v) (valueToQuotedString k @ CHR '':'' # fast_value d v)"
    using 12 reads_member_quoted[of "[]" "[]"] by simp
  show ?case
  proof (cases "ms = []")
    case True
    with m show ?thesis by simp
  next
    case False
    then have "reads_members d (map (\<lambda>m. (fst m, canonical (snd m))) ms) (fast_members d ms)" using 12 by simp
    from reads_members_Cons[OF m _ this] False show ?thesis by simp
  qed
qed (simp_all add: reads_atom del: canonical.simps fast_value.simps)

subsection \<open>StyledWriter\<close>

lemma writeIndent_blank: "blank ind \<Longrightarrow> \<exists>w. blank w \<and> writeIndent ind doc = doc @ w"
  by (auto simp: writeIndent_def json_space_def)

lemma writeWithIndent_blank: "blank ind \<Longrightarrow> \<exists>w. blank w \<and> writeWithIndent ind x doc = doc @ w @ x"
  using writeIndent_blank[of ind doc] by (auto simp: writeWithIndent_def)

lemma blank_indent: "blank ind \<Longrightarrow> blank (indent ind)"
  by (simp add: indent_def json_space_def)

lemma reads_items_leading: "blank w \<Longrightarrow> reads_items d vs X \<Longrightarrow> reads_items d vs (w @ X)"
proof (induction d vs X rule: reads_items.induct)
  case (3 d v v' vs X)
  then obtain t X' where "X = t @ CHR '','' # X'" "reads d v t" "reads_items d (v' # vs) X'" by auto
  with reads_leading[OF 3(2), of d v t] show ?case
    unfolding reads_items.simps by (intro exI[of _ "w @ t"] exI[of _ X']) simp
qed (simp_all add: reads_leading)

lemma reads_items_trailing: "blank w \<Longrightarrow> reads_items d vs X \<Longrightarrow> reads_items d vs (X @ w)"
proof (induction d vs X rule: reads_items.induct)
  case (3 d v v' vs X)
  then obtain t X' where X: "X = t @ CHR '','' # X'" "reads d v t" "reads_items d (v' # vs) X'" by auto
  then have "reads_items d (v' # vs) (X' @ w)" using 3 by auto
  with X show ?case by auto
qed (simp_all add: reads_trailing)

lemma reads_members_trailing: "blank w \<Longrightarrow> reads_members d ms X \<Longrightarrow> reads_members d ms (X @ w)"
proof (induction d ms X rule: reads_members.induct)
  case (2 d m X)
  then obtain u u' t where "X = u @ valueToQuotedString (fst m) @ u' @ CHR '':'' # t" "blank u" "blank u'" "reads d (snd m) t"
    by (auto simp: reads_member_def)
  moreover from this 2(1) have "reads d (snd m) (t @ w)" by (simp add: reads_trailing)
  ultimately show ?case by (auto simp: reads_member_def)
next
  case (3 d v v' vs X)
  then obtain t X' where X: "X = t @ CHR '','' # X'" "reads_member d v t" "reads_members d (v' # vs) X'" by auto
  then have "reads_members d (v' # vs) (X' @ w)" using 3 by auto
  with X show ?case by auto
qed simp

lemma reads_child: "json_ok v \<Longrightarrow> json_size v = 0 \<Longrightarrow> reads d (canonical v) (child_text d v)"
  using reads_empty_array[of "[]" d] reads_empty_object[of d] reads_atom[of v d]
  by (cases v) (simp_all add: child_text_def json_size_def)

lemma reads_comma_list:
  "list_all2 (reads d) vs ts \<Longrightarrow> vs \<noteq> [] \<Longrightarrow> reads_items d vs (comma_list ts)"
proof (induction vs ts rule: list_all2_induct)
  case (Cons v vs t ts)
  show ?case
  proof (cases ts)
    case Nil
    with Cons show ?thesis by simp
  next
    case (Cons t' ts')
    then have "vs \<noteq> []" using Cons.hyps(2) by auto
    then have "reads_items d vs ('' '' @ comma_list ts)"
      using Cons.IH by (intro reads_items_leading) (simp_all add: json_space_def)
    with Cons.hyps(1) \<open>vs \<noteq> []\<close> have "reads_items d (v # vs) (t @ CHR '','' # '' '' @ comma_list ts)"
      by (rule reads_items_Cons)
    with \<open>ts = t' # ts'\<close> show ?thesis by simp
  qed
qed simp

lemma reads_child_lines:
  "list_all2 (reads d) vs ts \<Longrightarrow> vs \<noteq> [] \<Longrightarrow> blank ind \<Longrightarrow>
   \<exists>X. child_lines ind ts doc = doc @ X \<and> reads_items d vs X"
proof (induction vs ts arbitrary: doc rule: list_all2_induct)
  case (Cons v vs t ts)
  obtain w where w: "blank w" "writeWithIndent ind t doc = doc @ w @ t"
    using writeWithIndent_blank[OF Cons.prems(2)] by blast
  have r: "reads d v (w @ t)" using reads_leading[OF w(1) Cons.hyps(1)] .
  show ?case
  proof (cases "ts = []")
    case True
    then have "vs = []" using Cons.hyps(2) by simp
    with True r w show ?thesis by simp
  next
    case False
    then have vs: "vs \<noteq> []" using Cons.hyps(2) by auto
    obtain X where X: "child_lines ind ts ((doc @ w @ t) @ '','') = ((doc @ w @ t) @ '','') @ X" "reads_items d vs X"
      using Cons.IH[OF vs Cons.prems(2)] by blast
    with reads_items_Cons[OF r vs X(2)] False w show ?thesis by (intro exI[of _ "(w @ t) @ CHR '','' # X"]) simp
  qed
qed simp

lemma child_texts:
  assumes "list_all json_ok vs" "list_all (\<lambda>v. json_size v = 0) vs"
  shows "list_all2 (reads d) (map canonical vs) (map (child_text d) vs)"
  using assms reads_child by (auto simp: list_all2_conv_all_nth list_all_length)

lemma isMultineArray_children:
  assumes "isMultineArray d vs = (multi, ts)" "list_all json_ok vs"
  shows "multi \<and> ts = [] \<or> list_all2 (reads d) (map canonical vs) ts"
proof (cases "rightMargin \<le> length vs * 3 \<or> list_ex (\<lambda>v. 0 < json_size v) vs")
  case True
  with assms(1) show ?thesis by (simp add: isMultineArray_def)
next
  case False
  then have "list_all (\<lambda>v. json_size v = 0) vs" by (simp add: list_all_iff list_ex_iff)
  with child_texts[OF assms(2) this] assms(1) False show ?thesis by (auto simp: isMultineArray_def Let_def)
qed

lemma reads_styled:
  "json_ok v \<Longrightarrow> blank ind \<Longrightarrow> \<exists>t. styled_value d ind v doc = doc @ t \<and> reads d (canonical v) t"
  "list_all json_ok vs \<Longrightarrow> vs \<noteq> [] \<Longrightarrow> blank ind \<Longrightarrow>
     \<exists>X. styled_items d ind vs doc = doc @ X \<and> reads_items d (map canonical vs) X"
  "list_all (\<lambda>m. json_ok (snd m)) ms \<Longrightarrow> ms \<noteq> [] \<Longrightarrow> blank ind \<Longrightarrow>
     \<exists>X. styled_members d ind ms doc = doc @ X \<and> reads_members d (map (\<lambda>m. (fst m, canonical (snd m))) ms) X"
proof (induction d ind v doc and d ind vs doc and d ind ms doc rule: styled_value_styled_items_styled_members.induct)
  case (1 d ind vs doc)
  show ?case
  proof (cases "vs = []")
    case True
    then show ?thesis using reads_empty_array[of "[]" d] by simp
  next
    case False
    obtain multi ts where m: "isMultineArray d vs = (multi, ts)" by (cases "isMultineArray d vs")
    have ch: "multi \<and> ts = [] \<or> list_all2 (reads d) (map canonical vs) ts"
      using isMultineArray_children[OF m] 1 by simp
    show ?thesis
    proof (cases multi)
      case True
      obtain w where w: "blank w" "writeWithIndent ind ''['' doc = doc @ w @ ''[''"
        using writeWithIndent_blank[OF 1(3)] by blast
      have "\<exists>X. (if ts \<noteq> [] then child_lines (indent ind) ts (doc @ w @ ''['') else styled_items d (indent ind) vs (doc @ w @ ''[''))
              = (doc @ w @ ''['') @ X \<and> reads_items d (map canonical vs) X"
        using reads_child_lines[of d "map canonical vs" ts "indent ind" "doc @ w @ ''[''"] ch False blank_indent[OF 1(3)]
          1(1)[OF False m[symmetric] refl True w(2)[symmetric]] 1(2) by auto
      then obtain X where X: "(if ts \<noteq> [] then child_lines (indent ind) ts (doc @ w @ ''['') else styled_items d (indent ind) vs (doc @ w @ ''[''))
              = (doc @ w @ ''['') @ X" "reads_items d (map canonical vs) X" by blast
      obtain u where u: "blank u" "writeWithIndent ind '']'' ((doc @ w @ ''['') @ X) = ((doc @ w @ ''['') @ X) @ u @ '']''"
        using writeWithIndent_blank[OF 1(3)] by blast
      have "reads d (JArray (map canonical vs)) (w @ CHR ''['' # (X @ u) @ '']'')"
        using w(1) u(1) X(2) by (intro reads_leading reads_array reads_items_trailing)
      then show ?thesis using False True m w X(1) u(2)
        by (intro exI[of _ "w @ ''['' @ X @ u @ '']''"]) (simp add: Let_def)
    next
      case single: False
      with ch have "reads_items d (map canonical vs) (comma_list ts)"
        using reads_comma_list False by blast
      then have "reads_items d (map canonical vs) ('' '' @ comma_list ts @ '' '')"
        by (intro reads_items_leading reads_items_trailing) (simp_all add: json_space_def)
      from reads_array[OF this] show ?thesis using False single m
        by (intro exI[of _ "''[ '' @ comma_list ts @ '' ]''"]) simp
    qed
  qed
next
  case (2 d ind ms doc)
  show ?case
  proof (cases "ms = []")
    case True
    then show ?thesis using reads_empty_object[of d] by simp
  next
    case False
    obtain w where w: "blank w" "writeWithIndent ind ''{'' doc = doc @ w @ ''{''"
      using writeWithIndent_blank[OF 2(3)] by blast
    have "list_all (\<lambda>m. json_ok (snd m)) ms" using 2(2) by (simp add: list_all_iff)
    then obtain X where X: "styled_members d (indent ind) ms (doc @ w @ ''{'') = (doc @ w @ ''{'') @ X"
      "reads_members d (map (\<lambda>m. (fst m, canonical (snd m))) ms) X"
      using 2(1)[OF False w(2)[symmetric]] False blank_indent[OF 2(3)] by blast
    obtain u where u: "blank u" "writeWithIndent ind ''}'' ((doc @ w @ ''{'') @ X) = ((doc @ w @ ''{'') @ X) @ u @ ''}''"
      using writeWithIndent_blank[OF 2(3)] by blast
    have "reads d (canonical (JObject ms)) (w @ CHR ''{'' # (X @ u) @ ''}'')"
      using w(1) u(1) X(2) 2(2) by (intro reads_leading reads_object_map reads_members_trailing)
    then show ?thesis using False w X(1) u(2)
      by (intro exI[of _ "w @ ''{'' @ X @ u @ ''}''"]) (simp add: Let_def)
  qed
next
  case (5 d ind v vs doc)
  obtain w where w: "blank w" "writeIndent ind doc = doc @ w" using writeIndent_blank 5(5) by blast
  obtain t where t: "styled_value d ind v (doc @ w) = (doc @ w) @ t" "reads d (canonical v) t"
    using 5 w by auto
  have r: "reads d (canonical v) (w @ t)" using w(1) t(2) by (rule reads_leading)
  show ?case
  proof (cases "vs = []")
    case True
    then show ?thesis using w t r by simp
  next
    case False
    obtain X where X: "styled_items d ind vs (((doc @ w) @ t) @ '','') = (((doc @ w) @ t) @ '','') @ X"
      "reads_items d (map canonical vs) X"
      using 5(2)[OF _ False] 5(3,5) False w t by auto
    then show ?thesis using False w t reads_items_Cons[OF r _ X(2)]
      by (intro exI[of _ "(w @ t) @ CHR '','' # X"]) (simp add: Let_def)
  qed
next
  case (7 d ind k v ms doc)
  obtain w where w: "blank w" "writeWithIndent ind (valueToQuotedString k) doc = doc @ w @ valueToQuotedString k"
    using writeWithIndent_blank 7(5) by blast
  obtain t where t: "styled_value d ind v ((doc @ w @ valueToQuotedString k) @ '' : '') = ((doc @ w @ valueToQuotedString k) @ '' : '') @ t"
    "reads d (canonical v) t"
    using 7 w by auto
  let ?M = "w @ valueToQuotedString k @ '' '' @ CHR '':'' # '' '' @ t"
  have "reads d (canonical v) ('' '' @ t)" using t(2) by (intro reads_leading) (simp_all add: json_space_def)
  then have r: "reads_member d (k, canonical v) ?M"
    using w(1) by (intro reads_member_quoted) (simp_all add: json_space_def)
  show ?case
  proof (cases "ms = []")
    case True
    then show ?thesis using w t r by (intro exI[of _ ?M]) (simp add: Let_def)
  next
    case False
    obtain X where X: "styled_members d ind ms ((((doc @ w @ valueToQuotedString k) @ '' : '') @ t) @ '','')
       = ((((doc @ w @ valueToQuotedString k) @ '' : '') @ t) @ '','') @ X"
      "reads_members d (map (\<lambda>m. (fst m, canonical (snd m))) ms) X"
      using 7(2)[OF _ _ False] 7(3,5) False w t by auto
    then show ?thesis using False w t reads_members_Cons[OF r _ X(2)]
      by (intro exI[of _ "?M @ CHR '','' # X"]) (simp add: Let_def)
  qed
qed (simp_all add: reads_atom del: canonical.simps fast_value.simps)

section \<open>Members\<close>

lemma find_put_member:
  "find_member k' (put_member k x ms) = (if k' = k then x else find_member k' ms)"
  by (induction ms) (auto simp: put_member_def find_member_def)

lemma find_insert_null:
  "sorted_wrt byte_less (map fst ms) \<Longrightarrow> find_member k' (insert_null k ms) = find_member k' ms"
proof (induction ms)
  case Nil
  then show ?case by (simp add: find_member_def)
next
  case (Cons m ms)
  obtain a b where m: "m = (a, b)" by (cases m)
  have "map_of ms k = None" if "byte_less k a"
    using Cons.prems that byte_less_asym by (auto simp: m map_of_eq_None_iff)
  moreover have "find_member k' (insert_null k ms) = find_member k' ms" using Cons by (simp add: m)
  ultimately show ?case by (auto simp: m find_member_def)
qed

lemma replace_member_keys: "fst ` set (replace_member k x ms) = fst ` set ms"
  by (induction k x ms rule: replace_member.induct) simp_all

lemma insert_null_keys: "fst ` set (insert_null k ms) = insert k (fst ` set ms)"
  by (induction k ms rule: insert_null.induct) (simp_all add: insert_commute)

lemma put_member_keys: "fst ` set (put_member k x ms) = insert k (fst ` set ms)"
  by (simp add: put_member_def replace_member_keys insert_null_keys)

lemma byte_less_trans: "byte_less a b \<Longrightarrow> byte_less b c \<Longrightarrow> byte_less a c"
proof (induction a b arbitrary: c rule: byte_less.induct)
  case (3 x xs y ys)
  then show ?case by (cases c) auto
qed (auto elim: byte_less.elims)

lemma byte_less_total: "a \<noteq> b \<Longrightarrow> byte_less a b \<or> byte_less b a"
proof (induction a b rule: byte_less.induct)
  case (1 a)
  then show ?case by (cases a) auto
next
  case (3 x xs y ys)
  then show ?case by (cases "x = y") (auto intro: ord_eqI)
qed simp

lemma put_member_sorted:
  "sorted_wrt byte_less (map fst ms) \<Longrightarrow> sorted_wrt byte_less (map fst (put_member k x ms))"
proof (induction ms)
  case Nil
  then show ?case by (simp add: put_member_def)
next
  case (Cons m ms)
  obtain k' v where m: "m = (k', v)" by (cases m)
  consider "k = k'" | "k \<noteq> k'" "byte_less k k'" | "\<not> byte_less k k'" "byte_less k' k"
    using byte_less_total by blast
  then show ?case
  proof cases
    case 1
    with Cons.prems m show ?thesis by (simp add: put_member_def)
  next
    case 2
    then have "put_member k x (m # ms) = (k, x) # m # ms" by (simp add: put_member_def m)
    with 2 Cons.prems m byte_less_trans show ?thesis by fastforce
  next
    case 3
    then have "k \<noteq> k'" using byte_less_irrefl by auto
    with 3 have e: "put_member k x (m # ms) = m # put_member k x ms" by (simp add: put_member_def m)
    have "\<forall>z \<in> fst ` set (put_member k x ms). byte_less k' z"
      using Cons.prems 3 unfolding put_member_keys by (auto simp: m)
    with e Cons m show ?thesis by auto
  qed
qed

text \<open>Reading a member that is not there inserts a null one, which later reads do not notice.\<close>

lemma resolveReference_invisible:
  "json_ok v \<Longrightarrow> resolveReference v k = Inr (v', x) \<Longrightarrow>
   const_member v k = Inr x \<and> const_member v' k' = const_member v k'"
  by (cases v) (auto simp: resolveReference_def const_member_def find_insert_null, simp_all add: find_member_def)

lemma assign_member_object: "assign_member (JObject ms) k x = Inr (JObject (put_member (c_str k) x ms))"
  by (simp add: assign_member_def resolveReference_def put_member_def)

lemma assign_member_null: "assign_member JNull k x = Inr (JObject [(c_str k, x)])"
  by (simp add: assign_member_def resolveReference_def)

section \<open>What the reader accepts\<close>

text \<open>A minus sign alone is a number, and after a comment any token may replace the comma.\<close>

lemma lone_minus: "parse d ''-'' = Inr (Some (JInt 0))"
  by code_simp

lemma token_for_comma:
  "parse d (''{'' @ [quote] @ ''a'' @ [quote] @ '':1/**/2'' @ [quote] @ ''b'' @ [quote] @ '':2}'')
   = Inr (Some (JObject [(''a'', JInt 1), (''b'', JInt 2)]))"
  by code_simp

section \<open>Properties\<close>

definition no_doubles :: double_ops where
  "no_doubles = \<lparr>scan_lf = \<lambda>_. None, print_g16 = \<lambda>_. [], double_to_int = \<lambda>_. None\<rparr>"

lemma parse_reads:
  assumes "reads d v t" "follows rest" shows "parse d (t @ rest) = Inr (Some v)"
proof -
  obtain w where "readValue d (reader_fuel (t @ rest)) (t @ rest) = Inr (Some (v, w @ rest))"
    using reads_value[OF assms(1) _ assms(2), of "reader_fuel (t @ rest)"] by (auto simp: reader_fuel_def)
  then show ?thesis by (simp add: parse_def)
qed

lemma follows_newline: "follows [CHR 0x0A]"
  by (simp add: follows_def number_char_def is_digit_def)

lemma put_member_ok:
  "json_ok (JObject ms) \<Longrightarrow> nul_free k \<Longrightarrow> json_ok x \<Longrightarrow> json_ok (JObject (put_member k x ms))"
proof -
  assume ok: "json_ok (JObject ms)" "nul_free k" "json_ok x"
  have "m \<in> set (put_member k x ms) \<Longrightarrow> snd m = x \<or> snd m = JNull \<or> m \<in> set ms" for m
  proof (induction ms)
    case (Cons y ms)
    then show ?case by (cases y) (auto simp: put_member_def split: if_splits)
  qed (simp add: put_member_def)
  then have "\<forall>m \<in> set (put_member k x ms). json_ok (snd m)" using ok by (fastforce simp: list_all_iff)
  moreover have "\<forall>m \<in> set (put_member k x ms). nul_free (fst m)"
    using put_member_keys[of k x ms] ok by (auto simp: list_all_iff) (metis fst_conv imageI insertE image_iff)
  ultimately show ?thesis using ok put_member_sorted[of ms k x] by (simp add: list_all_iff)
qed




text \<open>C31: assigning a member makes the object the updated map and keeps its keys distinct and in order.\<close>

theorem assign_member_updates:
  assumes "json_ok (JObject ms)" "nul_free k" "json_ok x"
  shows "\<exists>ms'. assign_member (JObject ms) k x = Inr (JObject ms') \<and> json_ok (JObject ms') \<and>
    const_member (JObject ms') k' = (if c_str k' = k then Inr x else const_member (JObject ms) k')"
  using assms put_member_ok[OF assms]
  by (intro exI[of _ "put_member k x ms"]) (auto simp: assign_member_object const_member_def find_put_member)

lemma assign_member_witness:
  "\<exists>ms'. assign_member (JObject [(''b'', JInt 1)]) ''a'' (JInt 2) = Inr (JObject ms') \<and> json_ok (JObject ms') \<and>
    const_member (JObject ms') ''b'' = Inr (JInt 1)"
  using assign_member_updates[of "[(''b'', JInt 1)]" "''a''" "JInt 2" "''b''"]
  by (simp add: nul_free_def const_member_def find_member_def)

end
