(* ===== verification/Service.thy ===== *)
theory Service
  imports Command JsonText
begin

text \<open>
  What the handlers of the service run on: the MySQL client of src/mysql/db_pool.cc (connections, result
  sets, prepared statements) and the query helpers of src/base/tc_common.cc and src/api/api_common.cc.

  The servers, the clock, the random numbers and the programs the service starts are outside it.  They are
  a parameter \<open>env\<close>: every call that leaves the process appends an \<open>event\<close> to the history and the
  answer is an arbitrary function of the history so far, so a theorem for all environments covers every
  order of failures and every concurrent activity of other clients.  A handler is an action: it maps a
  \<open>world\<close> (the history and the connections it has borrowed) to a result and a world.

  A connection is borrowed by \<open>GetDBConn\<close>, which may give NULL, and returned when the block that holds it is
  left, by a return or by an exception; a dereferenced null pointer or a write outside a buffer ends the
  process, with the connection still borrowed.
\<close>

section \<open>The world\<close>

text \<open>A connection to the cache: \<open>context_\<close> (NULL, or the \<open>err\<close> field of the context it points to).\<close>

record CacheConn =
  context_err :: "bool option"
  last_connect_time :: nat
  password :: string

datatype event =
    GetDB string | TookDB string | RelDB string
  | GetCache string | TookCache string | RelCache string
  | Sql string
  | StmtInit string | StmtExecute "string option list"
  | RedisConnect | RedisFree | Redis "string list"
  | AskTime | AskRandom | System string
  | Rename string string | RunPipe string string | Unlink string | AskShortUrl string

type_synonym table = "string list \<times> string option list list"

record env =
  get_db :: "event list \<Rightarrow> bool"
  get_cache :: "event list \<Rightarrow> CacheConn option"
  sql_ok :: "event list \<Rightarrow> bool"
  sql_result :: "event list \<Rightarrow> table option"
  sql_affected :: "event list \<Rightarrow> nat"
  stmt_init :: "event list \<Rightarrow> bool"
  stmt_prepare :: "event list \<Rightarrow> bool"
  stmt_param_count :: "event list \<Rightarrow> nat"
  stmt_bind :: "event list \<Rightarrow> bool"
  stmt_execute :: "event list \<Rightarrow> bool"
  stmt_affected :: "event list \<Rightarrow> nat"
  connect_redis :: "event list \<Rightarrow> bool option"
  redis_reply :: "event list \<Rightarrow> resp option"
  clock :: "event list \<Rightarrow> nat"
  local_time :: "event list \<Rightarrow> string"
  random :: "event list \<Rightarrow> nat \<Rightarrow> nat"
  system_status :: "event list \<Rightarrow> int"
  rename_ok :: "event list \<Rightarrow> bool"
  pipe_ok :: "event list \<Rightarrow> bool"
  fork_ok :: "event list \<Rightarrow> bool"
  child_output :: "event list \<Rightarrow> string"
  unlink_ok :: "event list \<Rightarrow> bool"
  short_url :: "event list \<Rightarrow> string option"
  calloc_ok :: "nat \<Rightarrow> bool"
  doubles :: double_ops

record world =
  history :: "event list"
  has_db :: bool
  cache_conn :: "CacheConn option"

type_synonym 'a act = "world \<Rightarrow> 'a res \<times> world"

definition retA :: "'a \<Rightarrow> 'a act" where
  "retA x w = (Inr x, w)"

definition failA :: "fault \<Rightarrow> 'a act" where
  "failA e w = (Inl e, w)"

definition liftA :: "'a res \<Rightarrow> 'a act" where
  "liftA r w = (r, w)"

definition bindA :: "'a act \<Rightarrow> ('a \<Rightarrow> 'b act) \<Rightarrow> 'b act" where
  "bindA m f w = (case m w of (Inl e, w') \<Rightarrow> (Inl e, w') | (Inr x, w') \<Rightarrow> f x w')"

definition emit :: "event \<Rightarrow> unit act" where
  "emit ev w = (Inr (), w\<lparr>history := history w @ [ev]\<rparr>)"

definition answer :: "(event list \<Rightarrow> 'a) \<Rightarrow> 'a act" where
  "answer f w = (Inr (f (history w)), w)"

text \<open>An event and the environment's answer to it.\<close>

definition ask :: "event \<Rightarrow> (event list \<Rightarrow> 'a) \<Rightarrow> 'a act" where
  "ask ev f = bindA (emit ev) (\<lambda>_. answer f)"

text \<open>
  A block that takes a connection: \<open>AutoRelDBCon\<close> and \<open>AutoRelCacheCon\<close> give it back at the end, unless the
  process dies.  Inside the block \<open>db_conn\<close> and \<open>cache_conn\<close> name the new connection, or NULL.
\<close>

definition leaving :: "('a res \<times> world) \<Rightarrow> (world \<Rightarrow> world) \<Rightarrow> 'a res \<times> world" where
  "leaving p fin =
     (case p of
        (Inr x, w) \<Rightarrow> (Inr x, fin w)
      | (Inl (Exception k), w) \<Rightarrow> (Inl (Exception k), fin w)
      | (Inl e, w) \<Rightarrow> (Inl e, w))"

definition with_db :: "env \<Rightarrow> string \<Rightarrow> 'a act \<Rightarrow> 'a act" where
  "with_db E pool body w =
     bindA (ask (GetDB pool) (get_db E)) (\<lambda>got w'.
       leaving (body (w'\<lparr>history := history w' @ (if got then [TookDB pool] else []), has_db := got\<rparr>))
         (\<lambda>w''. w''\<lparr>history := history w'' @ (if got then [RelDB pool] else []), has_db := has_db w\<rparr>)) w"

definition with_cache :: "env \<Rightarrow> string \<Rightarrow> 'a act \<Rightarrow> 'a act" where
  "with_cache E pool body w =
     bindA (ask (GetCache pool) (get_cache E)) (\<lambda>got w'.
       leaving (body (w'\<lparr>history := history w' @ (if got \<noteq> None then [TookCache pool] else []), cache_conn := got\<rparr>))
         (\<lambda>w''. w''\<lparr>history := history w'' @ (if got \<noteq> None then [RelCache pool] else []),
                   cache_conn := cache_conn w\<rparr>)) w"

section \<open>C strings and buffers\<close>

text \<open>\<open>sprintf\<close> into a buffer of \<open>n\<close> bytes.\<close>

definition sprintf_to :: "nat \<Rightarrow> string \<Rightarrow> string act" where
  "sprintf_to n t = (if length t < n then retA t else failA OutOfBounds)"

subsection \<open>Inversion\<close>

text \<open>A run that returned is cut into the runs of its parts.\<close>

lemma bindA_Inr:
  "bindA m f w = (Inr y, w') \<longleftrightarrow> (\<exists>x v. m w = (Inr x, v) \<and> f x v = (Inr y, w'))"
  by (auto simp: bindA_def split: prod.splits sum.splits)

lemma bindA_cases:
  assumes "bindA m f w = (r, w')"
  obtains (fails) e where "m w = (Inl e, w')" "r = Inl e" | (goes_on) x v where "m w = (Inr x, v)" "f x v = (r, w')"
  using assms by (auto simp: bindA_def split: prod.splits sum.splits)

lemma retA_iff: "retA x w = (r, w') \<longleftrightarrow> r = Inr x \<and> w' = w"
  by (auto simp: retA_def)

lemma liftA_iff: "liftA x w = (r, w') \<longleftrightarrow> x = r \<and> w' = w"
  by (auto simp: liftA_def)

lemma ask_iff: "ask ev f w = (r, w') \<longleftrightarrow>
    r = Inr (f (history w @ [ev])) \<and> w' = w\<lparr>history := history w @ [ev]\<rparr>"
  by (auto simp: ask_def bindA_def emit_def answer_def)

lemma answer_iff: "answer f w = (r, w') \<longleftrightarrow> r = Inr (f (history w)) \<and> w' = w"
  by (auto simp: answer_def)

lemma sprintf_Inr: "sprintf_to n t w = (Inr x, w') \<longleftrightarrow> length t < n \<and> x = t \<and> w' = w"
  by (auto simp: sprintf_to_def retA_def failA_def)

lemmas invert = bindA_Inr retA_iff liftA_iff ask_iff answer_iff sprintf_Inr

definition SQL_MAX_LEN :: nat where "SQL_MAX_LEN = 512"

text \<open>A text between single quotes, as \<open>'%s'\<close> prints it.\<close>

definition quoted :: "string \<Rightarrow> string" where
  "quoted s = CHR 0x27 # c_str s @ [CHR 0x27]"

text \<open>A C string from a pointer that may be null: assigned to or compared with a \<open>std::string\<close>.\<close>

definition deref :: "string option \<Rightarrow> string res" where
  "deref p = (case p of None \<Rightarrow> Inl NullPointer | Some s \<Rightarrow> Inr (c_str s))"

text \<open>The constructor of \<open>std::string\<close> throws \<open>std::logic_error\<close> on a null pointer.\<close>

definition string_of :: "string option \<Rightarrow> string res" where
  "string_of p = (case p of None \<Rightarrow> Inl (Exception 1) | Some s \<Rightarrow> Inr (c_str s))"

section \<open>The MySQL client\<close>

text \<open>A result set: the column names, the current row and the rows not yet fetched.\<close>

record CResultSet =
  key_map :: "string list"
  row :: "string option list option"
  rows :: "string option list list"

definition new_result :: "table \<Rightarrow> CResultSet" where
  "new_result t = \<lparr>key_map = fst t, row = None, rows = snd t\<rparr>"

definition Next :: "CResultSet \<Rightarrow> bool \<times> CResultSet" where
  "Next rs =
     (case rows rs of
        [] \<Rightarrow> (False, rs\<lparr>row := None\<rparr>)
      | r # rest \<Rightarrow> (True, rs\<lparr>row := Some r, rows := rest\<rparr>))"

fun index_of :: "string \<Rightarrow> string list \<Rightarrow> nat option" where
  "index_of k [] = None"
| "index_of k (x # xs) = (if x = k then Some 0 else map_option Suc (index_of k xs))"

definition GetIndex :: "CResultSet \<Rightarrow> string \<Rightarrow> int" where
  "GetIndex rs key = (case index_of key (key_map rs) of None \<Rightarrow> - 1 | Some i \<Rightarrow> int i)"

definition column :: "CResultSet \<Rightarrow> nat \<Rightarrow> string option res" where
  "column rs i =
     (case row rs of
        None \<Rightarrow> Inl NullPointer
      | Some r \<Rightarrow> if i < length r then Inr (r ! i) else Inl OutOfBounds)"

definition GetInt :: "CResultSet \<Rightarrow> string \<Rightarrow> int res" where
  "GetInt rs key =
     (let idx = GetIndex rs key
      in if idx = - 1 then Inr 0
         else bindR (column rs (nat idx)) (\<lambda>c. case c of None \<Rightarrow> Inl NullPointer | Some s \<Rightarrow> Inr (atoi (c_str s))))"

definition GetString :: "CResultSet \<Rightarrow> string \<Rightarrow> string option res" where
  "GetString rs key =
     (let idx = GetIndex rs key in if idx = - 1 then Inr None else column rs (nat idx))"

text \<open>The methods of \<open>CDBConn\<close> read its \<open>mysql_\<close> first.\<close>

definition using_db :: "'a act \<Rightarrow> 'a act" where
  "using_db m w = (if has_db w then m w else (Inl NullPointer, w))"

definition mysql_real_query :: "env \<Rightarrow> string \<Rightarrow> bool act" where
  "mysql_real_query E sql = using_db (ask (Sql (c_str sql)) (sql_ok E))"

definition ExecuteCreate :: "env \<Rightarrow> string \<Rightarrow> bool act" where
  "ExecuteCreate E sql = mysql_real_query E sql"

definition ExecutePassQuery :: "env \<Rightarrow> string \<Rightarrow> bool act" where
  "ExecutePassQuery E sql = mysql_real_query E sql"

definition ExecuteDrop :: "env \<Rightarrow> string \<Rightarrow> bool act" where
  "ExecuteDrop E sql = mysql_real_query E sql"

definition ExecuteQuery :: "env \<Rightarrow> string \<Rightarrow> CResultSet option act" where
  "ExecuteQuery E sql =
     bindA (mysql_real_query E sql) (\<lambda>ok.
     if \<not> ok then retA None
     else bindA (answer (sql_result E)) (\<lambda>res. retA (map_option new_result res)))"

definition ExecuteUpdate :: "env \<Rightarrow> string \<Rightarrow> bool \<Rightarrow> bool act" where
  "ExecuteUpdate E sql care_affected_rows =
     bindA (mysql_real_query E sql) (\<lambda>ok.
     if \<not> ok then retA False
     else bindA (answer (sql_affected E)) (\<lambda>n.
       if 0 < n then retA True else retA (\<not> care_affected_rows)))"

text \<open>The lengths passed by the code: 17, 8 and 6 bytes.\<close>

definition StartTransaction :: "env \<Rightarrow> bool act" where
  "StartTransaction E = mysql_real_query E ''start transaction''"

definition Rollback :: "env \<Rightarrow> bool act" where
  "Rollback E = mysql_real_query E ''rollback''"

definition Commit :: "env \<Rightarrow> bool act" where
  "Commit E = mysql_real_query E ''commit''"

subsection \<open>Prepared statements\<close>

record CPrepareStatement =
  stmt :: bool
  param_bind :: "string option list"

definition new_statement :: CPrepareStatement where
  "new_statement = \<lparr>stmt = False, param_bind = []\<rparr>"

definition Init_statement :: "env \<Rightarrow> string \<Rightarrow> (bool \<times> CPrepareStatement) act" where
  "Init_statement E sql =
     using_db (bindA (ask (StmtInit sql) (stmt_init E)) (\<lambda>init.
       if \<not> init then retA (False, new_statement)
       else bindA (answer (stmt_prepare E)) (\<lambda>prepared.
         if \<not> prepared then retA (False, new_statement\<lparr>stmt := True\<rparr>)
         else bindA (answer (stmt_param_count E)) (\<lambda>n.
           retA (True, \<lparr>stmt = True, param_bind = replicate n None\<rparr>)))))"

definition SetParam :: "CPrepareStatement \<Rightarrow> nat \<Rightarrow> string \<Rightarrow> CPrepareStatement" where
  "SetParam s index v =
     (if length (param_bind s) \<le> index then s else s\<lparr>param_bind := (param_bind s)[index := Some v]\<rparr>)"

definition ExecuteUpdate_statement :: "env \<Rightarrow> CPrepareStatement \<Rightarrow> bool act" where
  "ExecuteUpdate_statement E s =
     (if \<not> stmt s then retA False
      else bindA (answer (stmt_bind E)) (\<lambda>bound.
        if \<not> bound then retA False
        else bindA (ask (StmtExecute (param_bind s)) (stmt_execute E)) (\<lambda>ok.
          if \<not> ok then retA False
          else bindA (answer (stmt_affected E)) (\<lambda>n. retA (n \<noteq> 0)))))"

section \<open>Query helpers\<close>

text \<open>src/base/tc_common.cc.  A result set that is null is dereferenced by the first and the last of them.\<close>

definition GetResultOneCount :: "env \<Rightarrow> string \<Rightarrow> int \<Rightarrow> (int \<times> int) act" where
  "GetResultOneCount E sql_cmd count =
     bindA (ExecuteQuery E sql_cmd) (\<lambda>result_set.
     case result_set of
       None \<Rightarrow> failA NullPointer
     | Some rs \<Rightarrow>
         (let (more, rs) = Next rs in
          if count = 0 then
            (if more then bindA (liftA (GetInt rs ''count'')) (\<lambda>count. retA (0, count)) else retA (1, count))
          else retA (if more then 2 else 1, count)))"

definition CheckwhetherHaveRecord :: "env \<Rightarrow> string \<Rightarrow> int act" where
  "CheckwhetherHaveRecord E sql_cmd =
     bindA (ExecuteQuery E sql_cmd) (\<lambda>result_set.
     case result_set of
       None \<Rightarrow> retA (- 1)
     | Some rs \<Rightarrow> retA (if fst (Next rs) then 1 else 0))"

definition GetResultOneStatus :: "env \<Rightarrow> string \<Rightarrow> int \<Rightarrow> (int \<times> int) act" where
  "GetResultOneStatus E sql_cmd shared_status =
     bindA (ExecuteQuery E sql_cmd) (\<lambda>result_set.
     case result_set of
       None \<Rightarrow> failA NullPointer
     | Some rs \<Rightarrow>
         (let (more, rs) = Next rs in
          if more then bindA (liftA (GetInt rs ''shared_status'')) (\<lambda>s. retA (0, s))
          else retA (- 1, shared_status)))"

text \<open>src/api/api_common.cc: a count query; no row counts as zero.\<close>

definition count_query :: "env \<Rightarrow> string \<Rightarrow> (int \<times> int) act" where
  "count_query E str_sql =
     bindA (ExecuteQuery E str_sql) (\<lambda>result_set.
     case result_set of
       None \<Rightarrow> retA (- 1, 0)
     | Some rs \<Rightarrow>
         (let (more, rs) = Next rs in
          if more then bindA (liftA (GetInt rs ''count(*)'')) (\<lambda>count. retA (0, count))
          else retA (0, 0)))"

definition DBGetUserFilesCountByUsername :: "env \<Rightarrow> string \<Rightarrow> (int \<times> int) act" where
  "DBGetUserFilesCountByUsername E user_name =
     count_query E (''select count(*) from user_file_list where user='' @ quoted user_name)"

definition DBGetShareFilesCount :: "env \<Rightarrow> (int \<times> int) act" where
  "DBGetShareFilesCount E = count_query E ''select count(*) from share_file_list''"

definition HasFields :: "json \<Rightarrow> string list \<Rightarrow> bool res" where
  "HasFields root names =
     foldr (\<lambda>field rest. bindR (const_member root field) (\<lambda>v. if isNull v then Inr False else rest)) names (Inr True)"

text \<open>The command line of \<open>system\<close> is printed into 2048 bytes.\<close>

definition RemoveFileFromFastDfs :: "env \<Rightarrow> string \<Rightarrow> string \<Rightarrow> int act" where
  "RemoveFileFromFastDfs E dfs_path_client fileid =
     bindA (sprintf_to 2048 (''fdfs_delete_file '' @ c_str dfs_path_client @ '' '' @ c_str fileid)) (\<lambda>cmd.
     ask (System cmd) (system_status E))"

section \<open>Requests and replies\<close>

text \<open>Members of a request, read in order: a missing or null one ends the reading.\<close>

fun take_strings :: "double_ops \<Rightarrow> json \<Rightarrow> string list \<Rightarrow> string list option res" where
  "take_strings d root [] = Inr (Some [])"
| "take_strings d root (k # ks) =
     bindR (resolveReference root k) (\<lambda>(root, v).
     if isNull v then Inr None
     else bindR (asString d v) (\<lambda>s.
          bindR (take_strings d root ks) (\<lambda>ss. Inr (map_option ((#) s) ss))))"

fun take_ints :: "double_ops \<Rightarrow> json \<Rightarrow> string list \<Rightarrow> int list option res" where
  "take_ints d root [] = Inr (Some [])"
| "take_ints d root (k # ks) =
     bindR (resolveReference root k) (\<lambda>(root, v).
     if isNull v then Inr None
     else bindR (asInt d v) (\<lambda>i.
          bindR (take_ints d root ks) (\<lambda>is. Inr (map_option ((#) i) is))))"

definition decode_strings :: "double_ops \<Rightarrow> string list \<Rightarrow> string \<Rightarrow> string list option res" where
  "decode_strings d ks str_json =
     bindR (parse d str_json) (\<lambda>root. case root of None \<Rightarrow> Inr None | Some root \<Rightarrow> take_strings d root ks)"

text \<open>An object built by successive assignments to members of a null value, printed by a writer.\<close>

definition assign_all :: "json \<Rightarrow> (string \<times> json) list \<Rightarrow> json res" where
  "assign_all v ms = foldl (\<lambda>r (k, x). bindR r (\<lambda>v. assign_member v k x)) (Inr v) ms"

definition write_fast :: "env \<Rightarrow> (string \<times> json) list \<Rightarrow> string res" where
  "write_fast E ms = bindR (assign_all JNull ms) (\<lambda>root. Inr (FastWriter_write (doubles E) root))"

definition write_styled :: "env \<Rightarrow> (string \<times> json) list \<Rightarrow> string res" where
  "write_styled E ms = bindR (assign_all JNull ms) (\<lambda>root. Inr (toStyledString (doubles E) root))"

text \<open>The reply \<open>{"code": ret}\<close> most handlers give.\<close>

definition encode_code :: "env \<Rightarrow> int \<Rightarrow> string res" where
  "encode_code E ret = write_fast E [(''code'', JInt ret)]"

end
