(* ===== verification/Cache.thy ===== *)
theory Cache
  imports Service
begin

text \<open>
  \<open>CacheConn\<close> of src/redis/cache_pool.cc: the operations of a borrowed connection to the cache.

  A command is the list of its words: \<open>redisCommand\<close> encodes them and gives back the reply, which the theories
  \<open>Command\<close> and \<open>Context\<close> prove of the client library; a NULL reply leaves \<open>err\<close> set in the context, and a
  context with \<open>err\<close> set sends nothing more.  A reply is a value of the type \<open>resp\<close>: its \<open>str\<close> is NULL
  and its \<open>integer\<close> zero unless its type says otherwise, since the object is allocated cleared.
\<close>

section \<open>Replies\<close>

definition reply_str :: "resp \<Rightarrow> string option" where
  "reply_str r = (case r of RString s \<Rightarrow> Some s | RStatus s \<Rightarrow> Some s | RError s \<Rightarrow> Some s | _ \<Rightarrow> None)"

text \<open>\<open>append(reply->str, reply->len)\<close>\<close>

definition reply_text :: "resp \<Rightarrow> string" where
  "reply_text r = (case reply_str r of None \<Rightarrow> [] | Some s \<Rightarrow> s)"

definition reply_integer :: "resp \<Rightarrow> int" where
  "reply_integer r = (case r of RInteger i \<Rightarrow> i | _ \<Rightarrow> 0)"

definition reply_elements :: "resp \<Rightarrow> resp list" where
  "reply_elements r = (case r of RArray rs \<Rightarrow> rs | _ \<Rightarrow> [])"

section \<open>Connections\<close>

definition get_conn :: "CacheConn act" where
  "get_conn w = (case cache_conn w of None \<Rightarrow> (Inl NullPointer, w) | Some c \<Rightarrow> (Inr c, w))"

definition put_conn :: "CacheConn \<Rightarrow> unit act" where
  "put_conn c w = (Inr (), w\<lparr>cache_conn := Some c\<rparr>)"

definition set_context :: "bool option \<Rightarrow> unit act" where
  "set_context ctx = bindA get_conn (\<lambda>c. put_conn (c\<lparr>context_err := ctx\<rparr>))"

text \<open>\<open>redisFree(context_); context_ = NULL;\<close>\<close>

definition drop_context :: "unit act" where
  "drop_context = bindA (emit RedisFree) (\<lambda>_. set_context None)"

text \<open>\<open>redisCommand(context_, ...)\<close>\<close>

definition send_command :: "env \<Rightarrow> string list \<Rightarrow> resp option act" where
  "send_command E words =
     bindA get_conn (\<lambda>c.
     case context_err c of
       None \<Rightarrow> failA NullPointer
     | Some err \<Rightarrow>
         if err then retA None
         else bindA (ask (Redis words) (redis_reply E)) (\<lambda>reply.
           if reply = None then bindA (set_context (Some True)) (\<lambda>_. retA None) else retA reply))"

definition Init :: "env \<Rightarrow> int act" where
  "Init E =
     bindA get_conn (\<lambda>c.
     if context_err c \<noteq> None then retA 0
     else bindA (ask AskTime (clock E)) (\<lambda>cur_time.
       if cur_time < last_connect_time c + 1 then retA 1
       else bindA (put_conn (c\<lparr>last_connect_time := cur_time\<rparr>)) (\<lambda>_.
         bindA (ask RedisConnect (connect_redis E)) (\<lambda>ctx.
         bindA (set_context ctx) (\<lambda>_.
         case ctx of
           None \<Rightarrow> retA 1
         | Some True \<Rightarrow> bindA drop_context (\<lambda>_. retA 1)
         | Some False \<Rightarrow>
             bindA (if password c \<noteq> [] then
                      bindA (send_command E [''AUTH'', c_str (password c)]) (\<lambda>reply.
                      retA (case reply of None \<Rightarrow> False | Some (RError _) \<Rightarrow> False | _ \<Rightarrow> True))
                    else retA True) (\<lambda>authenticated.
             if \<not> authenticated then retA (- 1)
             else bindA (send_command E [''SELECT'', ''0'']) (\<lambda>reply.
               retA (case reply of
                       Some (RStatus s) \<Rightarrow> if take 2 (c_str s) = ''OK'' then 0 else 2
                     | _ \<Rightarrow> 2))))))))"

definition DeInit :: "unit act" where
  "DeInit =
     bindA get_conn (\<lambda>c. if context_err c \<noteq> None then drop_context else retA ())"

text \<open>
  The frame of almost every operation: give up with \<open>d\<close> when the connection cannot be opened or the reply is
  NULL, and then drop the context, so that the next operation opens it again.
\<close>

definition checked_call :: "env \<Rightarrow> string list \<Rightarrow> 'a \<Rightarrow> (resp \<Rightarrow> 'a res) \<Rightarrow> 'a act" where
  "checked_call E words d f =
     bindA (Init E) (\<lambda>failed.
     if failed \<noteq> 0 then retA d
     else bindA (send_command E words) (\<lambda>reply.
       case reply of
         None \<Rightarrow> bindA drop_context (\<lambda>_. retA d)
       | Some r \<Rightarrow> liftA (f r)))"

section \<open>Strings and keys\<close>

definition Get :: "env \<Rightarrow> string \<Rightarrow> string act" where
  "Get E key =
     checked_call E [''GET'', c_str key] [] (\<lambda>reply. Inr (case reply of RString s \<Rightarrow> s | _ \<Rightarrow> []))"

definition Set :: "env \<Rightarrow> string \<Rightarrow> string \<Rightarrow> string act" where
  "Set E key value = checked_call E [''SET'', c_str key, c_str value] [] (\<lambda>reply. Inr (reply_text reply))"

definition SetEx :: "env \<Rightarrow> string \<Rightarrow> int \<Rightarrow> string \<Rightarrow> string act" where
  "SetEx E key timeout value =
     checked_call E [''SETEX'', c_str key, fmt_d timeout, c_str value] [] (\<lambda>reply. Inr (reply_text reply))"

text \<open>
  \<open>MGet\<close> joins the keys to a format string.  \<open>keys[i]\<close> is read for every element of the reply.
\<close>

fun mget_loop :: "string list \<Rightarrow> resp list \<Rightarrow> (string \<rightharpoonup> string) \<Rightarrow> (string \<rightharpoonup> string) res" where
  "mget_loop keys [] m = Inr m"
| "mget_loop keys (r # rs) m =
     (case r of
        RString s \<Rightarrow> (case keys of [] \<Rightarrow> Inl OutOfBounds | k # ks \<Rightarrow> mget_loop ks rs (m(k \<mapsto> c_str s)))
      | _ \<Rightarrow> mget_loop (tl keys) rs m)"

definition format_call :: "env \<Rightarrow> string \<Rightarrow> va list \<Rightarrow> resp option act" where
  "format_call E fmt args =
     bindA (liftA (redisFormatCommand zero_alloc (\<lambda>_ _. []) fmt args)) (\<lambda>(len, _).
     if len < 0 then bindA (set_context (Some True)) (\<lambda>_. retA None)
     else case format_words fmt args [] False of
       None \<Rightarrow> failA BadVarArg
     | Some words \<Rightarrow> send_command E words)"

definition MGet :: "env \<Rightarrow> string list \<Rightarrow> (string \<rightharpoonup> string) \<Rightarrow> (bool \<times> (string \<rightharpoonup> string)) act" where
  "MGet E keys ret_value =
     bindA (Init E) (\<lambda>failed.
     if failed \<noteq> 0 \<or> keys = [] then retA (False, ret_value)
     else let strKey = intercalate '' '' keys in
       if strKey = [] then retA (False, ret_value)
       else bindA (format_call E (''MGET '' @ c_str strKey) []) (\<lambda>reply.
         case reply of
           None \<Rightarrow> bindA drop_context (\<lambda>_. retA (False, ret_value))
         | Some r \<Rightarrow> bindA (liftA (mget_loop keys (reply_elements r) ret_value)) (\<lambda>m. retA (True, m))))"

definition IsExists :: "env \<Rightarrow> string \<Rightarrow> bool act" where
  "IsExists E key = checked_call E [''EXISTS'', c_str key] False (\<lambda>reply. Inr (reply_integer reply \<noteq> 0))"

definition Del :: "env \<Rightarrow> string \<Rightarrow> int act" where
  "Del E key = checked_call E [''DEL'', c_str key] 0 (\<lambda>reply. Inr (reply_integer reply))"

definition Incr :: "env \<Rightarrow> string \<Rightarrow> (int \<times> int) act" where
  "Incr E key = checked_call E [''INCR'', c_str key] (- 1, 0) (\<lambda>reply. Inr (0, reply_integer reply))"

definition Decr :: "env \<Rightarrow> string \<Rightarrow> int \<Rightarrow> (int \<times> int) act" where
  "Decr E key value = checked_call E [''DECR'', c_str key] (- 1, value) (\<lambda>reply. Inr (0, reply_integer reply))"

definition IncrBy :: "env \<Rightarrow> string \<Rightarrow> int \<Rightarrow> int act" where
  "IncrBy E key value =
     checked_call E [''INCRBY'', c_str key, fmt_d value] (- 1) (\<lambda>reply. Inr (reply_integer reply))"

section \<open>Hashes\<close>

definition Hdel :: "env \<Rightarrow> string \<Rightarrow> string \<Rightarrow> int act" where
  "Hdel E key field = checked_call E [''HDEL'', c_str key, c_str field] (- 1) (\<lambda>reply. Inr (reply_integer reply))"

definition Hget :: "env \<Rightarrow> string \<Rightarrow> string \<Rightarrow> string act" where
  "Hget E key field =
     checked_call E [''HGET'', c_str key, c_str field] [] (\<lambda>reply. Inr (case reply of RString s \<Rightarrow> s | _ \<Rightarrow> []))"

definition VALUES_ID_SIZE :: nat where "VALUES_ID_SIZE = 1024"

text \<open>
  The overload with buffers: at most 1024 bytes are copied (\<open>strncpy\<close> pads with NULs) and the terminator is
  written after them.  The context stays as it is after a NULL reply.
\<close>

definition Hget_buffer :: "env \<Rightarrow> string \<Rightarrow> string \<Rightarrow> char list \<Rightarrow> (int \<times> char list) act" where
  "Hget_buffer E key field value =
     bindA (Init E) (\<lambda>failed.
     if failed \<noteq> 0 then retA (- 1, value)
     else bindA (send_command E [''hget'', c_str key, c_str field]) (\<lambda>reply.
       case reply of
         Some (RString s) \<Rightarrow>
           (let len = min (length s) VALUES_ID_SIZE; copied = c_str (take len s)
            in bindA (liftA (mem_write value 0 (copied @ replicate (len - length copied) NUL @ [NUL]))) (\<lambda>value.
               retA (0, value)))
       | _ \<Rightarrow> retA (- 1, value)))"

fun insert_pairs :: "resp list \<Rightarrow> (string \<rightharpoonup> string) \<Rightarrow> (string \<rightharpoonup> string)" where
  "insert_pairs (f # v # rs) m =
     insert_pairs rs (if m (reply_text f) = None then m(reply_text f \<mapsto> reply_text v) else m)"
| "insert_pairs _ m = m"

definition HgetAll :: "env \<Rightarrow> string \<Rightarrow> (string \<rightharpoonup> string) \<Rightarrow> (bool \<times> (string \<rightharpoonup> string)) act" where
  "HgetAll E key ret_value =
     checked_call E [''HGETALL'', c_str key] (False, ret_value) (\<lambda>reply.
       Inr (True, if even (length (reply_elements reply)) then insert_pairs (reply_elements reply) ret_value else ret_value))"

definition Hset :: "env \<Rightarrow> string \<Rightarrow> string \<Rightarrow> string \<Rightarrow> int act" where
  "Hset E key field value =
     checked_call E [''HSET'', c_str key, c_str field, c_str value] (- 1) (\<lambda>reply. Inr (reply_integer reply))"

definition HincrBy :: "env \<Rightarrow> string \<Rightarrow> string \<Rightarrow> int \<Rightarrow> int act" where
  "HincrBy E key field value =
     checked_call E [''HINCRBY'', c_str key, c_str field, fmt_d value] (- 1) (\<lambda>reply. Inr (reply_integer reply))"

definition Hmset :: "env \<Rightarrow> string \<Rightarrow> (string \<times> string) list \<Rightarrow> string act" where
  "Hmset E key hash =
     checked_call E (''HMSET'' # c_str key # concat (map (\<lambda>(k, v). [c_str k, c_str v]) hash)) []
       (\<lambda>reply. Inr (reply_text reply))"

definition Hmget :: "env \<Rightarrow> string \<Rightarrow> string list \<Rightarrow> string list \<Rightarrow> (bool \<times> string list) act" where
  "Hmget E key names ret_value =
     checked_call E (''HMGET'' # c_str key # map c_str names) (False, ret_value)
       (\<lambda>reply. Inr (True, ret_value @ map reply_text (reply_elements reply)))"

section \<open>Lists\<close>

definition Lpush :: "env \<Rightarrow> string \<Rightarrow> string \<Rightarrow> int act" where
  "Lpush E key value = checked_call E [''LPUSH'', c_str key, c_str value] (- 1) (\<lambda>reply. Inr (reply_integer reply))"

definition Rpush :: "env \<Rightarrow> string \<Rightarrow> string \<Rightarrow> int act" where
  "Rpush E key value = checked_call E [''RPUSH'', c_str key, c_str value] (- 1) (\<lambda>reply. Inr (reply_integer reply))"

definition Llen :: "env \<Rightarrow> string \<Rightarrow> int act" where
  "Llen E key = checked_call E [''LLEN'', c_str key] (- 1) (\<lambda>reply. Inr (reply_integer reply))"

text \<open>The positions are \<open>long\<close> while the format reads \<open>int\<close>, which is undefined behaviour.\<close>

definition Lrange :: "env \<Rightarrow> string \<Rightarrow> int \<Rightarrow> int \<Rightarrow> string list \<Rightarrow> (bool \<times> string list) act" where
  "Lrange E key from_pos end_pos ret_value =
     bindA (Init E) (\<lambda>failed.
     if failed \<noteq> 0 then retA (False, ret_value)
     else bindA (format_call E ''LRANGE %s %d %d'' [VaStr (cstr (c_str key)), VaLL from_pos, VaLL end_pos]) (\<lambda>reply.
       case reply of
         None \<Rightarrow> bindA drop_context (\<lambda>_. retA (False, ret_value))
       | Some r \<Rightarrow> retA (True, ret_value @ map reply_text (reply_elements r))))"

section \<open>Sorted sets\<close>

text \<open>
  These look at the reply before they know that there is one: a broken connection makes them dereference NULL,
  and none of them drops the context.
\<close>

definition unchecked_call :: "env \<Rightarrow> string list \<Rightarrow> 'a \<Rightarrow> (resp \<Rightarrow> 'a res) \<Rightarrow> 'a act" where
  "unchecked_call E words d f =
     bindA (Init E) (\<lambda>failed.
     if failed \<noteq> 0 then retA d
     else bindA (send_command E words) (\<lambda>reply.
       case reply of None \<Rightarrow> failA NullPointer | Some r \<Rightarrow> liftA (f r)))"

definition ZsetExist :: "env \<Rightarrow> string \<Rightarrow> string \<Rightarrow> int act" where
  "ZsetExist E key elem =
     unchecked_call E [''zscore'', c_str key, c_str elem] (- 1)
       (\<lambda>reply. Inr (case reply of RNil \<Rightarrow> 0 | RString _ \<Rightarrow> 1 | _ \<Rightarrow> - 1))"

definition ZsetAdd :: "env \<Rightarrow> string \<Rightarrow> int \<Rightarrow> string \<Rightarrow> int act" where
  "ZsetAdd E key score elem =
     unchecked_call E [''ZADD'', c_str key, fmt_d score, c_str elem] (- 1)
       (\<lambda>reply. Inr (case reply of RInteger _ \<Rightarrow> 0 | _ \<Rightarrow> - 1))"

definition ZsetZrem :: "env \<Rightarrow> string \<Rightarrow> string \<Rightarrow> int act" where
  "ZsetZrem E key elem =
     unchecked_call E [''ZREM'', c_str key, c_str elem] (- 1)
       (\<lambda>reply. Inr (case reply of RInteger _ \<Rightarrow> 0 | _ \<Rightarrow> - 1))"

definition ZsetIncr :: "env \<Rightarrow> string \<Rightarrow> string \<Rightarrow> int act" where
  "ZsetIncr E key elem =
     unchecked_call E [''ZINCRBY'', c_str key, ''1'', c_str elem] (- 1)
       (\<lambda>reply. Inr (case reply of RString _ \<Rightarrow> 0 | _ \<Rightarrow> - 1))"

definition ZsetZcard :: "env \<Rightarrow> string \<Rightarrow> int act" where
  "ZsetZcard E key =
     unchecked_call E [''ZCARD'', c_str key] (- 1)
       (\<lambda>reply. Inr (case reply of RInteger i \<Rightarrow> to_int i | _ \<Rightarrow> - 1))"

text \<open>The names are copied to an array of \<open>room\<close> buffers of 1024 bytes.\<close>

fun copy_values :: "resp list \<Rightarrow> string list res" where
  "copy_values [] = Inr []"
| "copy_values (r # rs) =
     (case reply_str r of
        None \<Rightarrow> Inl NullPointer
      | Some s \<Rightarrow> bindR (copy_values rs) (\<lambda>vs. Inr (take (VALUES_ID_SIZE - 1) (c_str s) # vs)))"

definition ZsetZrevrange :: "env \<Rightarrow> string \<Rightarrow> int \<Rightarrow> int \<Rightarrow> nat \<Rightarrow> int \<Rightarrow> (int \<times> string list \<times> int) act" where
  "ZsetZrevrange E key from_pos end_pos room get_num =
     unchecked_call E [''ZREVRANGE'', c_str key, fmt_d from_pos, fmt_d end_pos] (- 1, [], get_num) (\<lambda>reply.
       case reply of
         RArray elements \<Rightarrow>
           (let count = to_int (to_int (end_pos - from_pos) + 1);
                max_count = (if 0 \<le> count \<and> nat count < length elements then nat count else length elements)
            in if room < max_count then Inl OutOfBounds
               else bindR (copy_values (take max_count elements)) (\<lambda>vs. Inr (0, vs, int max_count)))
       | _ \<Rightarrow> Inr (- 1, [], get_num))"

definition ZsetGetScore :: "env \<Rightarrow> string \<Rightarrow> string \<Rightarrow> int act" where
  "ZsetGetScore E key elem =
     unchecked_call E [''ZSCORE'', c_str key, c_str elem] (- 1)
       (\<lambda>reply. Inr (case reply of RString s \<Rightarrow> atoi (c_str s) | _ \<Rightarrow> - 1))"

definition FlushDb :: "env \<Rightarrow> bool act" where
  "FlushDb E =
     checked_call E [''FLUSHDB''] False
       (\<lambda>reply. Inr (case reply of RString s \<Rightarrow> take 2 (c_str s) = ''OK'' | _ \<Rightarrow> False))"

section \<open>Counters\<close>

text \<open>src/api/api_common.cc\<close>

definition CacheSetCount :: "env \<Rightarrow> string \<Rightarrow> int \<Rightarrow> int act" where
  "CacheSetCount E key count = bindA (Set E key (fmt_d count)) (\<lambda>ret. retA (if ret \<noteq> [] then 0 else - 1))"

definition CacheGetCount :: "env \<Rightarrow> string \<Rightarrow> (int \<times> int) act" where
  "CacheGetCount E key =
     bindA (Get E key) (\<lambda>str_count.
     retA (if str_count \<noteq> [] then (0, atoll (c_str str_count)) else (- 1, 0)))"

definition CacheIncrCount :: "env \<Rightarrow> string \<Rightarrow> int act" where
  "CacheIncrCount E key = bindA (Incr E key) (\<lambda>(ret, count). retA (if ret < 0 then - 1 else 0))"

definition CacheDecrCount :: "env \<Rightarrow> string \<Rightarrow> int act" where
  "CacheDecrCount E key =
     bindA (Decr E key 0) (\<lambda>(ret, count).
     if ret < 0 then retA (- 1)
     else if count < 0 then
       bindA (CacheSetCount E key 0) (\<lambda>ret. retA (if ret < 0 then - 1 else 0))
     else retA 0)"

section \<open>Tokens\<close>

text \<open>\<open>VerifyToken\<close> of src/base/tc_common.cc\<close>

definition VerifyToken :: "env \<Rightarrow> string \<Rightarrow> string \<Rightarrow> int act" where
  "VerifyToken E user_name token =
     with_cache E ''token'' (\<lambda>w.
       if cache_conn w = None then (Inr (- 1), w)
       else bindA (Get E user_name) (\<lambda>tmp_token. retA (if tmp_token = token then 0 else - 1)) w)"

end
