(* ===== verification/Account.thy ===== *)
theory Account
  imports Cache
begin

text \<open>
  The handlers of accounts: src/api/api_login.cc and src/api/api_register.cc, and the start-up code of
  src/api/api_common.cc.  A handler returns its status and the text of the reply.
\<close>

section \<open>src/api/api_login.cc\<close>

definition decodeLoginJson :: "env \<Rightarrow> string \<Rightarrow> string list option res" where
  "decodeLoginJson E str_json = decode_strings (doubles E) [''user'', ''pwd''] str_json"

definition encodeLoginJson :: "env \<Rightarrow> int \<Rightarrow> string \<Rightarrow> string res" where
  "encodeLoginJson E ret token =
     write_fast E ((''code'', JInt ret) # (if ret = 0 then [(''token'', json_string token)] else []))"

definition verifyUserPassword :: "env \<Rightarrow> string \<Rightarrow> string \<Rightarrow> int act" where
  "verifyUserPassword E user_name pwd =
     with_db E ''tuchuang_slave'' (
       bindA (ExecuteQuery E (''select password from user_info where user_name='' @ quoted user_name)) (\<lambda>result_set.
       case result_set of
         None \<Rightarrow> retA (- 1)
       | Some rs \<Rightarrow>
           (let (more, rs) = Next rs in
            if more then
              bindA (liftA (bindR (GetString rs ''password'') string_of)) (\<lambda>password.
              retA (if password = pwd then 0 else - 1))
            else retA (- 1))))"

definition setToken :: "env \<Rightarrow> string \<Rightarrow> (int \<times> string) act" where
  "setToken E user_name =
     with_cache E ''token'' (
       bindA (ask AskRandom (random E)) (\<lambda>rnd w.
         (let token = RandomString rnd 32 in
          if cache_conn w \<noteq> None then bindA (SetEx E user_name 86400 token) (\<lambda>_. retA (0, token)) w
          else (Inr (- 1, token), w))))"

definition ApiUserLogin :: "env \<Rightarrow> string \<Rightarrow> (int \<times> string) act" where
  "ApiUserLogin E post_data =
     (if post_data = [] then retA (- 1, [])
      else bindA (liftA (decodeLoginJson E post_data)) (\<lambda>request.
      case request of
        Some [user_name, pwd] \<Rightarrow>
          bindA (verifyUserPassword E user_name pwd) (\<lambda>verified.
          if verified < 0 then bindA (liftA (encodeLoginJson E 1 [])) (\<lambda>resp. retA (- 1, resp))
          else bindA (setToken E user_name) (\<lambda>(stored, token).
            if stored < 0 then bindA (liftA (encodeLoginJson E 1 token)) (\<lambda>resp. retA (- 1, resp))
            else bindA (liftA (encodeLoginJson E 0 token)) (\<lambda>resp. retA (0, resp))))
      | _ \<Rightarrow> bindA (liftA (encodeLoginJson E 1 [])) (\<lambda>resp. retA (- 1, resp))))"

section \<open>src/api/api_register.cc\<close>

text \<open>The telephone number and the mail address are optional.\<close>

definition take_optional :: "double_ops \<Rightarrow> json \<Rightarrow> string \<Rightarrow> (json \<times> string) res" where
  "take_optional d root k =
     bindR (resolveReference root k) (\<lambda>(root, v).
     if isNull v then Inr (root, []) else bindR (asString d v) (\<lambda>s. Inr (root, s)))"

definition decodeRegisterJson :: "env \<Rightarrow> string \<Rightarrow> string list option res" where
  "decodeRegisterJson E str_json =
     bindR (parse (doubles E) str_json) (\<lambda>root. case root of None \<Rightarrow> Inr None | Some root \<Rightarrow>
     bindR (take_strings (doubles E) root [''userName'', ''nickName'', ''firstPwd'']) (\<lambda>required. case required of
       None \<Rightarrow> Inr None
     | Some ss \<Rightarrow>
         bindR (take_optional (doubles E) root ''phone'') (\<lambda>(root, phone).
         bindR (take_optional (doubles E) root ''email'') (\<lambda>(root, email).
         Inr (Some (ss @ [phone, email]))))))"

definition encodeRegisterJson :: "env \<Rightarrow> int \<Rightarrow> string res" where
  "encodeRegisterJson E ret = encode_code E ret"

definition insert_user_sql :: string where
  "insert_user_sql =
     ''insert into user_info (`user_name`,`nick_name`,`password`,`phone`,`email`,`create_time`) values(?,?,?,?,?,?)''"

text \<open>\<open>params\<close> are the user's name, nickname, password, telephone number and mail address.\<close>

definition insert_user :: "env \<Rightarrow> string list \<Rightarrow> int act" where
  "insert_user E params =
     bindA (ask AskTime (local_time E)) (\<lambda>create_time.
     bindA (Init_statement E insert_user_sql) (\<lambda>(ok, stmt).
     if \<not> ok then retA 0
     else
       let stmt = fold (\<lambda>(index, v) s. SetParam s index v) (enumerate 0 (params @ [create_time])) stmt in
       bindA (ExecuteUpdate_statement E stmt) (\<lambda>inserted. retA (if inserted then 0 else 1))))"

definition registerUser :: "env \<Rightarrow> string \<Rightarrow> string list \<Rightarrow> int act" where
  "registerUser E user_name params =
     with_db E ''tuchuang_master'' (
       bindA (ExecuteQuery E (''select * from user_info where user_name='' @ quoted user_name)) (\<lambda>result_set.
       case result_set of
         None \<Rightarrow> insert_user E params
       | Some rs \<Rightarrow>
           (let (more, rs) = Next rs in
            if more then
              bindA (liftA (GetInt rs ''id'')) (\<lambda>_. retA 2)
            else insert_user E params)))"

definition ApiRegisterUser :: "env \<Rightarrow> string \<Rightarrow> (int \<times> string) act" where
  "ApiRegisterUser E post_data =
     (if post_data = [] then bindA (liftA (encodeRegisterJson E 1)) (\<lambda>resp. retA (- 1, resp))
      else bindA (liftA (decodeRegisterJson E post_data)) (\<lambda>request.
      case request of
        None \<Rightarrow> bindA (liftA (encodeRegisterJson E 1)) (\<lambda>resp. retA (- 1, resp))
      | Some params \<Rightarrow>
          bindA (registerUser E (hd params) params) (\<lambda>ret.
          bindA (liftA (encodeRegisterJson E ret)) (\<lambda>resp. retA (0, resp)))))"

section \<open>Start-up\<close>

text \<open>\<open>ApiInit\<close> of src/api/api_common.cc loads the number of shared files into the cache.\<close>

definition FILE_PUBLIC_ZSET :: string where "FILE_PUBLIC_ZSET = ''FILE_PUBLIC_ZSET''"
definition FILE_NAME_HASH :: string where "FILE_NAME_HASH = ''FILE_NAME_HASH''"
definition FILE_PUBLIC_COUNT :: string where "FILE_PUBLIC_COUNT = ''FILE_PUBLIC_COUNT''"
definition FILE_USER_COUNT :: string where "FILE_USER_COUNT = ''FILE_USER_COUNT''"

definition ApiInit :: "env \<Rightarrow> int act" where
  "ApiInit E =
     with_db E ''tuchuang_slave'' (with_cache E ''token'' (
       bindA (DBGetShareFilesCount E) (\<lambda>(ret, count).
       if ret < 0 then retA (- 1)
       else bindA (CacheSetCount E FILE_PUBLIC_COUNT count) (\<lambda>ret. retA (if ret < 0 then - 1 else 0)))))"

end
