(* ===== verification/Files.thy ===== *)
theory Files
  imports Account
begin

text \<open>
  The handlers of a user's own files: src/api/api_md5.cc (a file the store already has is only recorded),
  src/api/api_myfiles.cc (lists) and src/api/api_dealfile.cc (share, delete, count a download).
\<close>

section \<open>Requests\<close>

text \<open>
  \<open>char cmd[20]; QueryParseKeyValue(url.c_str(), "cmd", cmd, NULL)\<close>: the buffer stays uninitialised when the
  key is missing, and it is read all the same.
\<close>

definition parse_cmd :: "string \<Rightarrow> string res" where
  "parse_cmd url =
     bindR (QueryParseKeyValue (cstr (c_str url)) ''cmd'' (replicate 20 NUL)) (\<lambda>(ret, cmd, _).
     if ret \<noteq> 0 then Inl Uninitialised else bindR (c_strlen cmd) (\<lambda>n. Inr (take n cmd)))"

definition snprintf_to :: "nat \<Rightarrow> string \<Rightarrow> string act" where
  "snprintf_to n t = retA (take (n - 1) t)"

text \<open>\<open>user = 'u' and md5 = 'm' and file_name = 'f'\<close>\<close>

definition where_file :: "string \<Rightarrow> string \<Rightarrow> string \<Rightarrow> string" where
  "where_file user md5 filename =
     ''user = '' @ quoted user @ '' and md5 = '' @ quoted md5 @ '' and file_name = '' @ quoted filename"

definition values_file :: "string \<Rightarrow> string \<Rightarrow> string \<Rightarrow> string \<Rightarrow> string" where
  "values_file user md5 create_time filename =
     ''('' @ quoted user @ '', '' @ quoted md5 @ '', '' @ quoted create_time @ '', '' @ quoted filename @ '', 0, 0)''"

definition insert_user_file :: "string \<Rightarrow> string \<Rightarrow> string \<Rightarrow> string \<Rightarrow> string" where
  "insert_user_file user md5 create_time filename =
     ''insert into user_file_list(user, md5, create_time, file_name, shared_status, pv) values '' @
     values_file user md5 create_time filename"

section \<open>src/api/api_md5.cc\<close>

definition decodeMd5Json :: "env \<Rightarrow> string \<Rightarrow> string list option res" where
  "decodeMd5Json E str_json = decode_strings (doubles E) [''user'', ''token'', ''md5'', ''filename''] str_json"

definition encodeMd5Json :: "env \<Rightarrow> int \<Rightarrow> string res" where
  "encodeMd5Json E ret = encode_code E ret"

definition Md5Ok :: int where "Md5Ok = 0"
definition Md5Failed :: int where "Md5Failed = 1"
definition Md5TokenFaild :: int where "Md5TokenFaild = 4"
definition Md5FileExit :: int where "Md5FileExit = 5"

text \<open>The middle of the transaction: count the new reference and record the file; \<open>True\<close> on success.\<close>

definition take_reference :: "env \<Rightarrow> string \<Rightarrow> string \<Rightarrow> string \<Rightarrow> bool act" where
  "take_reference E user md5 filename =
     bindA (sprintf_to SQL_MAX_LEN (''select count from file_info where md5 = '' @ quoted md5 @ '' for update'')) (\<lambda>sql_cmd.
     bindA (GetResultOneCount E sql_cmd 0) (\<lambda>(ret, file_ref_count).
     if ret \<noteq> - 1 \<and> ret \<noteq> 1 then
       bindA (sprintf_to SQL_MAX_LEN
         (''update file_info set count = '' @ fmt_d (to_int (file_ref_count + 1)) @ '' where md5 = '' @ quoted md5)) (\<lambda>sql_cmd.
       bindA (ExecuteUpdate E sql_cmd False) (\<lambda>updated.
       if updated then
         bindA (ask AskTime (local_time E)) (\<lambda>time_str.
         bindA (snprintf_to SQL_MAX_LEN (insert_user_file user md5 time_str filename)) (\<lambda>sql_cmd.
         ExecuteCreate E sql_cmd))
       else retA False))
     else retA False))"

definition handleDealMd5 :: "env \<Rightarrow> string \<Rightarrow> string \<Rightarrow> string \<Rightarrow> string act" where
  "handleDealMd5 E user md5 filename =
     with_db E ''tuchuang_master'' (
       bindA (StartTransaction E) (\<lambda>_.
       bindA (sprintf_to SQL_MAX_LEN
         (''select * from user_file_list where '' @ where_file user md5 filename @ '' for update'')) (\<lambda>sql_cmd.
       bindA (CheckwhetherHaveRecord E sql_cmd) (\<lambda>ret.
       if ret = 1 then
         bindA (liftA (encodeMd5Json E Md5FileExit)) (\<lambda>str_json.
         bindA (Commit E) (\<lambda>_. retA str_json))
       else
         bindA (take_reference E user md5 filename) (\<lambda>succeed.
         if \<not> succeed then bindA (Rollback E) (\<lambda>_. liftA (encodeMd5Json E Md5Failed))
         else bindA (Commit E) (\<lambda>_. liftA (encodeMd5Json E Md5Ok)))))))"

definition ApiMd5 :: "env \<Rightarrow> string \<Rightarrow> (int \<times> string) act" where
  "ApiMd5 E post_data =
     bindA (liftA (decodeMd5Json E post_data)) (\<lambda>request.
     case request of
       Some [user, token, md5, filename] \<Rightarrow>
         bindA (VerifyToken E user token) (\<lambda>ret.
         if ret = 0 then bindA (handleDealMd5 E user md5 filename) (\<lambda>resp_json. retA (0, resp_json))
         else bindA (liftA (encodeMd5Json E Md5TokenFaild)) (\<lambda>resp_json. retA (0, resp_json)))
     | _ \<Rightarrow> bindA (liftA (encodeMd5Json E Md5Failed)) (\<lambda>resp_json. retA (0, resp_json)))"

section \<open>src/api/api_myfiles.cc\<close>

definition decodeCountJson :: "env \<Rightarrow> string \<Rightarrow> string list option res" where
  "decodeCountJson E str_json = decode_strings (doubles E) [''user'', ''token''] str_json"

definition encodeCountJson :: "env \<Rightarrow> int \<Rightarrow> int \<Rightarrow> string res" where
  "encodeCountJson E ret count =
     write_fast E ((''code'', JInt ret) # (if ret = 0 then [(''total'', JInt count)] else []))"

definition getUserFilesCount :: "env \<Rightarrow> string \<Rightarrow> (int \<times> int) act" where
  "getUserFilesCount E user_name =
     bindA (DBGetUserFilesCountByUsername E user_name) (\<lambda>(ret, count).
     retA (if ret < 0 then - 1 else 0, count))"

definition handleUserFilesCount :: "env \<Rightarrow> string \<Rightarrow> (int \<times> int) act" where
  "handleUserFilesCount E user_name =
     with_db E ''tuchuang_slave'' (with_cache E ''token'' (getUserFilesCount E user_name))"

definition decodeFileslistJson :: "env \<Rightarrow> string \<Rightarrow> (string list \<times> int list) option res" where
  "decodeFileslistJson E str_json =
     bindR (parse (doubles E) str_json) (\<lambda>root. case root of None \<Rightarrow> Inr None | Some root \<Rightarrow>
     bindR (take_strings (doubles E) root [''user'', ''token'']) (\<lambda>ss. case ss of None \<Rightarrow> Inr None | Some ss \<Rightarrow>
     bindR (take_ints (doubles E) root [''start'', ''count'']) (\<lambda>is. case is of None \<Rightarrow> Inr None | Some is \<Rightarrow>
     Inr (Some (ss, is)))))"

text \<open>
  The objects of a list: a member for every column asked for, \<open>True\<close> marking the numbers.  Storing a NULL column
  as a string dereferences it.
\<close>

definition column_value :: "CResultSet \<Rightarrow> string \<Rightarrow> bool \<Rightarrow> json res" where
  "column_value rs key number =
     (if number then bindR (GetInt rs key) (\<lambda>i. Inr (JInt i)) else bindR (GetString rs key) json_cstring)"

definition row_object :: "(string \<times> string \<times> bool) list \<Rightarrow> CResultSet \<Rightarrow> json res" where
  "row_object columns rs =
     foldl (\<lambda>r (name, key, number). bindR r (\<lambda>file.
       bindR (column_value rs key number) (\<lambda>x. assign_member file name x))) (Inr JNull) columns"

fun fetch_all :: "(string \<times> string \<times> bool) list \<Rightarrow> string list \<Rightarrow> string option list list \<Rightarrow> json \<Rightarrow> json res" where
  "fetch_all columns keys [] files = Inr files"
| "fetch_all columns keys (r # rs) files =
     bindR (row_object columns \<lparr>key_map = keys, row = Some r, rows = rs\<rparr>) (\<lambda>file.
     bindR (append_value files file) (\<lambda>files. fetch_all columns keys rs files))"

definition file_columns :: "(string \<times> string \<times> bool) list" where
  "file_columns =
     [(''user'', ''user'', False), (''md5'', ''md5'', False), (''create_time'', ''create_time'', False),
      (''file_name'', ''file_name'', False), (''share_status'', ''shared_status'', True), (''pv'', ''pv'', True),
      (''url'', ''url'', False), (''size'', ''size'', True), (''type'', ''type'', False)]"

definition getUserFileList :: "env \<Rightarrow> string \<Rightarrow> string \<Rightarrow> int \<Rightarrow> int \<Rightarrow> (int \<times> string) act" where
  "getUserFileList E cmd user_name start count =
     with_db E ''tuchuang_slave'' (with_cache E ''token'' (
       bindA (getUserFilesCount E user_name) (\<lambda>(ret, total).
       if ret < 0 then retA (- 1, [])
       else if total = 0 then
         bindA (liftA (write_fast E [(''code'', JInt 0), (''count'', JInt 0), (''total'', JInt 0)])) (\<lambda>s. retA (0, s))
       else if cmd \<noteq> ''normal'' then retA (- 1, [])
       else
         bindA (ExecuteQuery E
           (''select user_file_list.*, file_info.url, file_info.size,  file_info.type from file_info, user_file_list where user = '' @
            quoted user_name @ ''             and file_info.md5 = user_file_list.md5 limit '' @
            fmt_d start @ '', '' @ fmt_d count)) (\<lambda>result_set.
         case result_set of
           None \<Rightarrow> retA (- 1, [])
         | Some rs \<Rightarrow>
             bindA (liftA (fetch_all file_columns (key_map rs) (rows rs) JNull)) (\<lambda>files.
             bindA (liftA (write_fast E [(''code'', JInt 0), (''files'', files),
               (''count'', JInt (int (length (rows rs)))), (''total'', JInt total)])) (\<lambda>s. retA (0, s)))))))"

definition ApiMyfiles :: "env \<Rightarrow> string \<Rightarrow> string \<Rightarrow> (int \<times> string) act" where
  "ApiMyfiles E url post_data =
     bindA (liftA (parse_cmd url)) (\<lambda>cmd.
     let fail = bindA (liftA (encodeCountJson E 1 0)) (\<lambda>resp_json. retA (0, resp_json)) in
     if cmd = ''count'' then
       bindA (liftA (decodeCountJson E post_data)) (\<lambda>request.
       case request of
         Some [user_name, token] \<Rightarrow>
           bindA (VerifyToken E user_name token) (\<lambda>ret.
           if ret = 0 then
             bindA (handleUserFilesCount E user_name) (\<lambda>(ret, count).
             if ret < 0 then fail
             else bindA (liftA (encodeCountJson E 0 count)) (\<lambda>resp_json. retA (0, resp_json)))
           else fail)
       | _ \<Rightarrow> bindA (liftA (encodeCountJson E 1 0)) (\<lambda>resp_json. retA (- 1, resp_json)))
     else
       bindA (liftA (decodeFileslistJson E post_data)) (\<lambda>request.
       case request of
         Some ([user_name, token], [start, count]) \<Rightarrow>
           bindA (VerifyToken E user_name token) (\<lambda>ret.
           if ret = 0 then
             bindA (getUserFileList E cmd user_name start count) (\<lambda>(ret, resp_json).
             if ret < 0 then fail else retA (0, resp_json))
           else fail)
       | _ \<Rightarrow> fail))"

section \<open>src/api/api_dealfile.cc\<close>

definition ShareOk :: int where "ShareOk = 0"
definition ShareFail :: int where "ShareFail = 1"
definition ShareHad :: int where "ShareHad = 3"
definition HTTP_RESP_OK :: int where "HTTP_RESP_OK = 0"
definition HTTP_RESP_FAIL :: int where "HTTP_RESP_FAIL = 1"

definition encodeDealfileJson :: "env \<Rightarrow> int \<Rightarrow> string res" where
  "encodeDealfileJson E ret = encode_code E ret"

definition file_id :: "string \<Rightarrow> string \<Rightarrow> string act" where
  "file_id md5 filename = sprintf_to 1024 (c_str md5 @ c_str filename)"

text \<open>The last part of \<open>handleShareFile\<close>: record the share in the database, then in the cache.\<close>

definition record_share :: "env \<Rightarrow> string \<Rightarrow> string \<Rightarrow> string \<Rightarrow> string \<Rightarrow> int act" where
  "record_share E fileid user md5 filename =
     bindA (sprintf_to SQL_MAX_LEN (''update user_file_list set shared_status = 1 where '' @ where_file user md5 filename)) (\<lambda>sql_cmd.
     bindA (ExecuteUpdate E sql_cmd False) (\<lambda>updated.
     if \<not> updated then retA ShareFail
     else bindA (ask AskTime (local_time E)) (\<lambda>create_time.
       bindA (sprintf_to SQL_MAX_LEN
         (''insert into share_file_list (user, md5, create_time, file_name, pv) values ('' @ quoted user @ '', '' @
          quoted md5 @ '', '' @ quoted create_time @ '', '' @ quoted filename @ '', 0)'')) (\<lambda>sql_cmd.
       bindA (ExecuteCreate E sql_cmd) (\<lambda>inserted.
       if \<not> inserted then retA ShareFail
       else bindA (CacheIncrCount E FILE_PUBLIC_COUNT) (\<lambda>ret.
         if ret < 0 then retA ShareFail
         else bindA (ZsetAdd E FILE_PUBLIC_ZSET 0 fileid) (\<lambda>_.
           bindA (Hset E FILE_NAME_HASH fileid filename) (\<lambda>_. retA ShareOk))))))))"

definition handleShareFile :: "env \<Rightarrow> string \<Rightarrow> string \<Rightarrow> string \<Rightarrow> int act" where
  "handleShareFile E user md5 filename =
     with_db E ''tuchuang_slave'' (with_cache E ''token'' (
       bindA (file_id md5 filename) (\<lambda>fileid.
       bindA (\<lambda>w. if cache_conn w \<noteq> None then ZsetExist E FILE_PUBLIC_ZSET fileid w else (Inr 0, w)) (\<lambda>ret2.
       if ret2 = 1 then retA ShareHad
       else if ret2 = 0 then
         bindA (sprintf_to SQL_MAX_LEN
           (''select * from share_file_list where md5 = '' @ quoted md5 @ '' and file_name = '' @ quoted filename)) (\<lambda>sql_cmd.
         bindA (CheckwhetherHaveRecord E sql_cmd) (\<lambda>ret2.
         if ret2 = 1 then
           bindA (ZsetAdd E FILE_PUBLIC_ZSET 0 fileid) (\<lambda>_.
           bindA (Hset E FILE_NAME_HASH fileid filename) (\<lambda>_. retA ShareHad))
         else record_share E fileid user md5 filename))
       else retA ShareFail))))"

text \<open>
  Deleting, in its three parts: is the file shared (and does the cache know), forget the share, and drop the
  reference to the stored file.  A part that fails gives \<open>False\<close>.
\<close>

definition share_status :: "env \<Rightarrow> string \<Rightarrow> string \<Rightarrow> string \<Rightarrow> string \<Rightarrow> (int \<times> bool) option act" where
  "share_status E fileid user md5 filename =
     bindA (ZsetExist E FILE_PUBLIC_ZSET fileid) (\<lambda>ret2.
     if ret2 = 1 then retA (Some (1, True))
     else if ret2 = 0 then
       bindA (sprintf_to SQL_MAX_LEN (''select shared_status from user_file_list where '' @ where_file user md5 filename)) (\<lambda>sql_cmd.
       bindA (GetResultOneStatus E sql_cmd 0) (\<lambda>(ret2, shared_status).
       retA (Some (if ret2 = 0 then shared_status else 0, False))))
     else retA None)"

definition forget_share :: "env \<Rightarrow> string \<Rightarrow> string \<Rightarrow> string \<Rightarrow> string \<Rightarrow> bool \<Rightarrow> bool act" where
  "forget_share E fileid user md5 filename redis_has_record =
     bindA (sprintf_to SQL_MAX_LEN (''delete from share_file_list where '' @ where_file user md5 filename)) (\<lambda>sql_cmd.
     bindA (ExecuteDrop E sql_cmd) (\<lambda>dropped.
     if \<not> dropped then retA False
     else bindA (CacheDecrCount E FILE_PUBLIC_COUNT) (\<lambda>ret.
       if ret < 0 then retA False
       else if redis_has_record then
         bindA (ZsetZrem E FILE_PUBLIC_ZSET fileid) (\<lambda>_.
         bindA (Hdel E FILE_NAME_HASH fileid) (\<lambda>_. retA True))
       else retA True)))"

text \<open>The stored file itself goes when nobody refers to it any more.\<close>

definition remove_stored :: "env \<Rightarrow> string \<Rightarrow> string \<Rightarrow> bool act" where
  "remove_stored E dfs_path_client md5 =
     bindA (sprintf_to SQL_MAX_LEN (''select file_id from file_info where md5 = '' @ quoted md5)) (\<lambda>sql_cmd.
     bindA (ExecuteQuery E sql_cmd) (\<lambda>result_set.
     case result_set of
       None \<Rightarrow> failA NullPointer
     | Some rs \<Rightarrow>
         (let (more, rs) = Next rs in
          bindA (liftA (if more then bindR (GetString rs ''file_id'') deref else Inr [])) (\<lambda>fileid.
          bindA (sprintf_to SQL_MAX_LEN (''delete from file_info where md5 = '' @ quoted md5)) (\<lambda>sql_cmd.
          bindA (ExecuteDrop E sql_cmd) (\<lambda>_.
          bindA (RemoveFileFromFastDfs E dfs_path_client fileid) (\<lambda>ret2. retA (ret2 = 0))))))))"

definition drop_reference :: "env \<Rightarrow> string \<Rightarrow> string \<Rightarrow> string \<Rightarrow> string \<Rightarrow> bool act" where
  "drop_reference E dfs_path_client user md5 filename =
     bindA (CacheDecrCount E (FILE_USER_COUNT @ user)) (\<lambda>ret.
     if ret < 0 then retA False
     else bindA (sprintf_to SQL_MAX_LEN (''delete from user_file_list where '' @ where_file user md5 filename)) (\<lambda>sql_cmd.
       bindA (ExecuteDrop E sql_cmd) (\<lambda>dropped.
       if \<not> dropped then retA False
       else bindA (sprintf_to SQL_MAX_LEN (''select count from file_info where md5 = '' @ quoted md5)) (\<lambda>sql_cmd.
         bindA (GetResultOneCount E sql_cmd 0) (\<lambda>(ret2, count).
         if ret2 \<noteq> 0 then retA False
         else bindA (if 0 < count then
                bindA (sprintf_to SQL_MAX_LEN (''update file_info set count='' @ fmt_d (count - 1) @ '' where md5 = '' @ quoted md5)) (\<lambda>sql_cmd.
                ExecuteUpdate E sql_cmd True)
              else retA True) (\<lambda>updated.
           if \<not> updated then retA False
           else if (if 0 < count then count - 1 else count) = 0 then remove_stored E dfs_path_client md5
           else retA True))))))"

definition handleDeleteFile :: "env \<Rightarrow> string \<Rightarrow> string \<Rightarrow> string \<Rightarrow> string \<Rightarrow> int act" where
  "handleDeleteFile E dfs_path_client user md5 filename =
     with_db E ''tuchuang_slave'' (with_cache E ''token'' (
       bindA (file_id md5 filename) (\<lambda>fileid.
       bindA (share_status E fileid user md5 filename) (\<lambda>status.
       case status of
         None \<Rightarrow> retA HTTP_RESP_FAIL
       | Some (is_shared, redis_has_record) \<Rightarrow>
           bindA (if is_shared = 1 then forget_share E fileid user md5 filename redis_has_record else retA True) (\<lambda>ok.
           if \<not> ok then retA HTTP_RESP_FAIL
           else bindA (drop_reference E dfs_path_client user md5 filename) (\<lambda>ok.
             retA (if ok then HTTP_RESP_OK else HTTP_RESP_FAIL)))))))"

definition handlePvFile_user :: "env \<Rightarrow> string \<Rightarrow> string \<Rightarrow> string \<Rightarrow> int act" where
  "handlePvFile_user E user md5 filename =
     with_db E ''tuchuang_slave'' (
       bindA (sprintf_to SQL_MAX_LEN (''select pv from user_file_list where '' @ where_file user md5 filename)) (\<lambda>sql_cmd.
       bindA (ExecuteQuery E sql_cmd) (\<lambda>result_set.
       case result_set of
         None \<Rightarrow> retA HTTP_RESP_FAIL
       | Some rs \<Rightarrow>
           (let (more, rs) = Next rs in
            if \<not> more then retA HTTP_RESP_FAIL
            else bindA (liftA (GetInt rs ''pv'')) (\<lambda>pv.
              bindA (sprintf_to SQL_MAX_LEN
                (''update user_file_list set pv = '' @ fmt_d (to_int (pv + 1)) @ '' where '' @ where_file user md5 filename)) (\<lambda>sql_cmd.
              bindA (ExecuteUpdate E sql_cmd True) (\<lambda>updated.
              retA (if updated then HTTP_RESP_OK else HTTP_RESP_FAIL))))))))"

text \<open>The reply to \<open>del\<close> and \<open>pv\<close> is overwritten by the last branch: the second test has no \<open>else\<close> before it.\<close>

definition ApiDealfile :: "env \<Rightarrow> string \<Rightarrow> string \<Rightarrow> string \<Rightarrow> (int \<times> string) act" where
  "ApiDealfile E dfs_path_client url post_data =
     bindA (liftA (parse_cmd url)) (\<lambda>cmd.
     bindA (liftA (parse (doubles E) post_data)) (\<lambda>root.
     case root of
       None \<Rightarrow> bindA (liftA (encodeDealfileJson E HTTP_RESP_FAIL)) (\<lambda>resp_json. retA (- 1, resp_json))
     | Some root \<Rightarrow>
         bindA (liftA (take_strings (doubles E) root [''user'', ''token'', ''filename'', ''md5''])) (\<lambda>request.
         case request of
           Some [user, token, filename, md5] \<Rightarrow>
             bindA (if cmd = ''del'' then
                 bindA (VerifyToken E user token) (\<lambda>ret.
                 if ret < 0 then retA False
                 else bindA (handleDeleteFile E dfs_path_client user md5 filename) (\<lambda>_. retA True))
               else if cmd = ''pv'' then bindA (handlePvFile_user E user md5 filename) (\<lambda>_. retA True)
               else retA True) (\<lambda>go_on.
             if \<not> go_on then bindA (liftA (encodeDealfileJson E ShareFail)) (\<lambda>resp_json. retA (- 1, resp_json))
             else if cmd = ''share'' then
               bindA (handleShareFile E user md5 filename) (\<lambda>ret.
               bindA (liftA (encodeDealfileJson E ret)) (\<lambda>resp_json. retA (0, resp_json)))
             else bindA (liftA (encodeDealfileJson E ShareFail)) (\<lambda>resp_json. retA (0, resp_json)))
         | _ \<Rightarrow> bindA (liftA (encodeDealfileJson E ShareFail)) (\<lambda>resp_json. retA (- 1, resp_json)))))"

end
