(* ===== verification/Shares.thy ===== *)
theory Shares
  imports Files
begin

text \<open>
  The handlers of shared files and pictures: src/api/api_deal_sharefile.cc (count a download, withdraw, save),
  src/api/api_sharefiles.cc (lists and the ranking) and src/api/api_sharepicture.cc.
\<close>

section \<open>src/api/api_deal_sharefile.cc\<close>

definition decodeDealsharefileJson :: "env \<Rightarrow> string \<Rightarrow> string list option res" where
  "decodeDealsharefileJson E str_json = decode_strings (doubles E) [''user'', ''md5'', ''filename''] str_json"

definition encodeDealsharefileJson :: "env \<Rightarrow> int \<Rightarrow> string res" where
  "encodeDealsharefileJson E ret = encode_code E ret"

definition where_share :: "string \<Rightarrow> string \<Rightarrow> string" where
  "where_share md5 filename = ''md5 = '' @ quoted md5 @ '' and file_name = '' @ quoted filename"

text \<open>The transaction that adds one to the number of downloads; the old number, or \<open>None\<close> after a rollback.\<close>

definition count_download :: "env \<Rightarrow> string \<Rightarrow> string \<Rightarrow> int option act" where
  "count_download E md5 filename =
     bindA (StartTransaction E) (\<lambda>_.
     bindA (sprintf_to SQL_MAX_LEN (''select pv from share_file_list where '' @ where_share md5 filename @ '' for update'')) (\<lambda>sql_cmd.
     bindA (ExecuteQuery E sql_cmd) (\<lambda>result_set.
     case (case result_set of None \<Rightarrow> None | Some rs \<Rightarrow> (let (more, rs) = Next rs in if more then Some rs else None)) of
       None \<Rightarrow> bindA (Rollback E) (\<lambda>_. retA None)
     | Some rs \<Rightarrow>
         bindA (liftA (GetInt rs ''pv'')) (\<lambda>pv.
         bindA (sprintf_to SQL_MAX_LEN
           (''update share_file_list set pv = '' @ fmt_d (to_int (pv + 1)) @ '' where '' @ where_share md5 filename)) (\<lambda>sql_cmd.
         bindA (ExecuteUpdate E sql_cmd False) (\<lambda>updated.
         if \<not> updated then bindA (Rollback E) (\<lambda>_. retA None)
         else bindA (Commit E) (\<lambda>_. retA (Some pv))))))))"

definition handlePvFile :: "env \<Rightarrow> string \<Rightarrow> string \<Rightarrow> int act" where
  "handlePvFile E md5 filename =
     with_db E ''tuchuang_slave'' (with_cache E ''token'' (
       bindA (file_id md5 filename) (\<lambda>fileid.
       bindA (count_download E md5 filename) (\<lambda>counted.
       case counted of
         None \<Rightarrow> retA HTTP_RESP_FAIL
       | Some pv \<Rightarrow>
           bindA (ZsetExist E FILE_PUBLIC_ZSET fileid) (\<lambda>ret2.
           if ret2 = 1 then
             bindA (ZsetIncr E FILE_PUBLIC_ZSET fileid) (\<lambda>ret. retA (if ret = 0 then HTTP_RESP_OK else HTTP_RESP_FAIL))
           else if ret2 = 0 then
             bindA (ZsetAdd E FILE_PUBLIC_ZSET (to_int (pv + 1)) fileid) (\<lambda>_.
             bindA (Hset E FILE_NAME_HASH fileid filename) (\<lambda>_. retA HTTP_RESP_OK))
           else retA HTTP_RESP_FAIL)))))"

text \<open>\<open>Hdel\<close> answers the number of removed fields, so removing the name makes the result differ from zero.\<close>

definition handleCancelShareFile :: "env \<Rightarrow> string \<Rightarrow> string \<Rightarrow> string \<Rightarrow> int act" where
  "handleCancelShareFile E user_name md5 filename =
     with_db E ''tuchuang_slave'' (with_cache E ''token'' (
       bindA (file_id md5 filename) (\<lambda>fileid.
       bindA (sprintf_to SQL_MAX_LEN (''update user_file_list set shared_status = 0 where '' @ where_file user_name md5 filename)) (\<lambda>sql_cmd.
       bindA (ExecuteUpdate E sql_cmd False) (\<lambda>updated.
       if \<not> updated then retA HTTP_RESP_FAIL
       else bindA (CacheDecrCount E FILE_PUBLIC_COUNT) (\<lambda>ret2.
         if ret2 < 0 then retA HTTP_RESP_FAIL
         else bindA (sprintf_to SQL_MAX_LEN (''delete from share_file_list where '' @ where_file user_name md5 filename)) (\<lambda>sql_cmd.
           bindA (ExecuteDrop E sql_cmd) (\<lambda>dropped.
           if \<not> dropped then retA HTTP_RESP_FAIL
           else bindA (ZsetZrem E FILE_PUBLIC_ZSET fileid) (\<lambda>ret.
             if ret \<noteq> 0 then retA HTTP_RESP_FAIL
             else bindA (Hdel E FILE_NAME_HASH fileid) (\<lambda>ret.
               retA (if to_int ret = 0 then HTTP_RESP_OK else HTTP_RESP_FAIL)))))))))))"

definition HTTP_RESP_FILE_EXIST :: int where "HTTP_RESP_FILE_EXIST = 5"

definition handleSaveFile :: "env \<Rightarrow> string \<Rightarrow> string \<Rightarrow> string \<Rightarrow> int act" where
  "handleSaveFile E user_name md5 filename =
     with_db E ''tuchuang_slave'' (with_cache E ''token'' (
       bindA (sprintf_to SQL_MAX_LEN (''select * from user_file_list where '' @ where_file user_name md5 filename)) (\<lambda>sql_cmd.
       bindA (CheckwhetherHaveRecord E sql_cmd) (\<lambda>ret2.
       if ret2 = 1 then retA HTTP_RESP_FILE_EXIST
       else if ret2 < 0 then retA HTTP_RESP_FAIL
       else bindA (sprintf_to SQL_MAX_LEN (''select count from file_info where md5 = '' @ quoted md5)) (\<lambda>sql_cmd.
         bindA (GetResultOneCount E sql_cmd 0) (\<lambda>(ret2, count).
         if ret2 \<noteq> 0 then retA HTTP_RESP_FAIL
         else bindA (sprintf_to SQL_MAX_LEN
             (''update file_info set count = '' @ fmt_d (to_int (count + 1)) @ '' where md5 = '' @ quoted md5)) (\<lambda>sql_cmd.
           bindA (ExecuteUpdate E sql_cmd True) (\<lambda>updated.
           if \<not> updated then retA HTTP_RESP_FAIL
           else bindA (ask AskTime (local_time E)) (\<lambda>time_str.
             bindA (sprintf_to SQL_MAX_LEN (insert_user_file user_name md5 time_str filename)) (\<lambda>sql_cmd.
             bindA (ExecuteCreate E sql_cmd) (\<lambda>inserted.
             if \<not> inserted then retA HTTP_RESP_FAIL
             else bindA (CacheIncrCount E (FILE_USER_COUNT @ user_name)) (\<lambda>ret.
               retA (if ret < 0 then HTTP_RESP_FAIL else HTTP_RESP_OK)))))))))))))"

definition ApiDealsharefile :: "env \<Rightarrow> string \<Rightarrow> string \<Rightarrow> (int \<times> string) act" where
  "ApiDealsharefile E url post_data =
     bindA (liftA (parse_cmd url)) (\<lambda>cmd.
     bindA (liftA (decodeDealsharefileJson E post_data)) (\<lambda>request.
     case request of
       Some [user_name, md5, filename] \<Rightarrow>
         bindA (if cmd = ''cancel'' then handleCancelShareFile E user_name md5 filename
                else if cmd = ''save'' then handleSaveFile E user_name md5 filename
                else if cmd = ''pv'' then handlePvFile E md5 filename
                else retA 0) (\<lambda>ret.
         bindA (liftA (encodeDealsharefileJson E (if ret < 0 then HTTP_RESP_FAIL else HTTP_RESP_OK))) (\<lambda>str_json.
         retA (0, str_json)))
     | _ \<Rightarrow> bindA (liftA (encodeDealsharefileJson E HTTP_RESP_FAIL)) (\<lambda>str_json. retA (0, str_json))))"

section \<open>src/api/api_sharefiles.cc\<close>

definition getShareFilesCount :: "env \<Rightarrow> (int \<times> int) act" where
  "getShareFilesCount E =
     bindA (CacheGetCount E FILE_PUBLIC_COUNT) (\<lambda>(ret, file_count).
     if file_count = 0 then
       bindA (DBGetShareFilesCount E) (\<lambda>(ret, count).
       if ret < 0 then retA (- 1, count)
       else bindA (CacheSetCount E FILE_PUBLIC_COUNT count) (\<lambda>ret.
         retA (if ret < 0 then - 1 else 0, count)))
     else retA (if ret < 0 then - 1 else 0, to_int file_count))"

definition handleGetSharefilesCount :: "env \<Rightarrow> (int \<times> int) act" where
  "handleGetSharefilesCount E = with_db E ''tuchuang_slave'' (with_cache E ''token'' (getShareFilesCount E))"

definition encodeSharefilesJson :: "env \<Rightarrow> int \<Rightarrow> int \<Rightarrow> string res" where
  "encodeSharefilesJson E ret count =
     write_fast E ((''code'', JInt ret) # (if ret = 0 then [(''total'', JInt count)] else []))"

fun load_rows :: "env \<Rightarrow> string list \<Rightarrow> string option list list \<Rightarrow> unit act" where
  "load_rows E keys [] = retA ()"
| "load_rows E keys (r # rs) =
     (let result = \<lparr>key_map = keys, row = Some r, rows = rs\<rparr> in
      bindA (liftA (bindR (GetString result ''md5'') string_of)) (\<lambda>md5.
      bindA (liftA (bindR (GetString result ''file_name'') string_of)) (\<lambda>file_name.
      bindA (liftA (GetInt result ''pv'')) (\<lambda>pv.
      bindA (file_id md5 file_name) (\<lambda>field.
      bindA (ZsetAdd E FILE_PUBLIC_ZSET pv field) (\<lambda>_.
      bindA (Hset E FILE_NAME_HASH field file_name) (\<lambda>_. load_rows E keys rs)))))))"

definition InitializePvCache :: "env \<Rightarrow> int act" where
  "InitializePvCache E =
     with_db E ''tuchuang_slave'' (with_cache E ''token'' (
       bindA (Del E FILE_PUBLIC_ZSET) (\<lambda>_.
       bindA (Del E FILE_NAME_HASH) (\<lambda>_.
       bindA (ExecuteQuery E ''select md5, file_name, pv from share_file_list order by pv desc'') (\<lambda>result_set.
       case result_set of
         None \<Rightarrow> retA (- 1)
       | Some rs \<Rightarrow> bindA (load_rows E (key_map rs) (rows rs)) (\<lambda>_. retA 0))))))"

text \<open>The entries of the ranking: the name behind every identifier and its score; \<open>None\<close> is a failure.\<close>

fun ranking_entries :: "env \<Rightarrow> char list \<Rightarrow> string list \<Rightarrow> json \<Rightarrow> json option act" where
  "ranking_entries E filename [] files = retA (Some files)"
| "ranking_entries E filename (v # vs) files =
     bindA (Hget_buffer E FILE_NAME_HASH v filename) (\<lambda>(ret, filename).
     if ret \<noteq> 0 then retA None
     else bindA (ZsetGetScore E FILE_PUBLIC_ZSET v) (\<lambda>score.
       if score = - 1 then retA None
       else bindA (liftA (bindR (assign_all JNull [(''filename'', json_string filename), (''pv'', JInt score)])
              (append_value files))) (\<lambda>files.
         ranking_entries E filename vs files)))"

definition handleGetRankingFilelist :: "env \<Rightarrow> int \<Rightarrow> int \<Rightarrow> string act" where
  "handleGetRankingFilelist E start count =
     with_cache E ''token'' (
       bindA (if count < 0 \<or> \<not> calloc_ok E (nat count * VALUES_ID_SIZE) then retA None
         else bindA (ZsetZrevrange E FILE_PUBLIC_ZSET start (to_int (to_int (start + count) - 1)) (nat count) 0)
           (\<lambda>(ret, names, file_count).
           if ret \<noteq> 0 then retA None
           else bindA (ranking_entries E (replicate 1024 NUL) names JNull) (\<lambda>files.
             retA (map_option (\<lambda>f. (f, file_count)) files)))) (\<lambda>listed.
       liftA (write_styled E
         (case listed of
            None \<Rightarrow> [(''code'', JInt 1)]
          | Some (files, file_count) \<Rightarrow>
              (if 0 < file_count then [(''files'', files)] else []) @
              [(''code'', JInt 0), (''total'', JInt 0), (''count'', JInt file_count)]))))"

definition share_columns :: "(string \<times> string \<times> bool) list" where
  "share_columns =
     [(''user'', ''user'', False), (''md5'', ''md5'', False), (''file_name'', ''file_name'', False),
      (''share_status'', ''share_status'', True), (''pv'', ''pv'', True), (''create_time'', ''create_time'', False),
      (''url'', ''url'', False), (''size'', ''size'', True), (''type'', ''type'', False)]"

text \<open>A list reply: the objects (if any), or the failure code.\<close>

definition list_reply :: "env \<Rightarrow> int \<Rightarrow> (json \<times> int) option \<Rightarrow> string res" where
  "list_reply E n listed =
     write_styled E
       (case listed of
          None \<Rightarrow> [(''code'', JInt 1)]
        | Some (files, file_count) \<Rightarrow>
            (if 0 < file_count then [(''files'', files)] else []) @
            [(''code'', JInt 0), (''total'', JInt n), (''count'', JInt file_count)])"

definition list_query :: "env \<Rightarrow> (string \<times> string \<times> bool) list \<Rightarrow> string \<Rightarrow> (json \<times> int) option act" where
  "list_query E columns sql =
     bindA (ExecuteQuery E sql) (\<lambda>result_set.
     case result_set of
       None \<Rightarrow> retA None
     | Some rs \<Rightarrow>
         bindA (liftA (fetch_all columns (key_map rs) (rows rs) JNull)) (\<lambda>files.
         retA (Some (files, int (length (rows rs))))))"

definition handleGetShareFilelist :: "env \<Rightarrow> int \<Rightarrow> int \<Rightarrow> string act" where
  "handleGetShareFilelist E start count =
     with_db E ''tuchuang_slave'' (with_cache E ''token'' (
       bindA (getShareFilesCount E) (\<lambda>(ret, n).
       bindA (if ret < 0 then retA None
              else if n = 0 then retA (Some (JNull, 0))
              else list_query E share_columns
                (''select share_file_list.*, file_info.url, file_info.size, file_info.type from file_info,         share_file_list where file_info.md5 = share_file_list.md5 limit '' @
                 fmt_d start @ '', '' @ fmt_d count)) (\<lambda>listed.
       liftA (list_reply E n listed)))))"

definition ApiSharefile :: "env \<Rightarrow> string \<Rightarrow> string \<Rightarrow> (int \<times> string) act" where
  "ApiSharefile E url post_data =
     bindA (liftA (parse_cmd url)) (\<lambda>cmd.
     if cmd = ''count'' then
       bindA (handleGetSharefilesCount E) (\<lambda>(ret, count).
       bindA (liftA (if ret < 0 then encodeSharefilesJson E 1 0 else encodeSharefilesJson E 0 count)) (\<lambda>resp_json.
       retA (0, resp_json)))
     else bindA (liftA (parse (doubles E) post_data)) (\<lambda>root.
       case root of
         None \<Rightarrow> bindA (liftA (encodeSharefilesJson E 1 0)) (\<lambda>resp_json. retA (- 1, resp_json))
       | Some root \<Rightarrow>
           bindA (liftA (take_ints (doubles E) root [''count'', ''start''])) (\<lambda>request.
           case request of
             Some [count, start] \<Rightarrow>
               bindA (if cmd = ''normal'' then handleGetShareFilelist E start count
                      else if cmd = ''pvdesc'' then handleGetRankingFilelist E start count
                      else liftA (encodeSharefilesJson E 1 0)) (\<lambda>resp_json. retA (0, resp_json))
           | _ \<Rightarrow> bindA (liftA (encodeSharefilesJson E 1 0)) (\<lambda>resp_json. retA (- 1, resp_json)))))"

section \<open>src/api/api_sharepicture.cc\<close>

definition HTTP_RESP_TOKEN_ERR :: int where "HTTP_RESP_TOKEN_ERR = 4"

definition encodeSharePictureJson :: "env \<Rightarrow> int \<Rightarrow> string \<Rightarrow> string res" where
  "encodeSharePictureJson E ret share_id =
     write_fast E ((''code'', JInt ret) # (if ret = HTTP_RESP_OK then [(''share_id'', json_string share_id)] else []))"

definition handleSharePicture :: "env \<Rightarrow> string \<Rightarrow> string \<Rightarrow> string \<Rightarrow> string act" where
  "handleSharePicture E user filemd5 file_name =
     with_db E ''tuchuang_master'' (
       bindA (ask AskRandom (random E)) (\<lambda>rnd.
       let share_id = SpawnUUID (\<lambda>i. rnd i mod 16) in
       bindA (ask AskTime (local_time E)) (\<lambda>create_time.
       bindA (sprintf_to SQL_MAX_LEN
         (''insert into share_picture_list (user, filemd5, file_name, share_id, `key`, pv, create_time) values ('' @
          quoted user @ '', '' @ quoted filemd5 @ '', '' @ quoted file_name @ '', '' @ quoted share_id @ '', '' @
          quoted [] @ '', 0, '' @ quoted create_time @ '')'')) (\<lambda>sql_cmd.
       bindA (ExecuteCreate E sql_cmd) (\<lambda>inserted.
       liftA (encodeSharePictureJson E (if inserted then HTTP_RESP_OK else HTTP_RESP_FAIL) share_id))))))"

definition encodeBrowselPictureJson :: "env \<Rightarrow> int \<Rightarrow> int \<Rightarrow> string \<Rightarrow> string \<Rightarrow> string \<Rightarrow> string res" where
  "encodeBrowselPictureJson E ret pv url user time =
     write_fast E ((''code'', JInt ret) #
       (if ret = 0 then [(''pv'', JInt pv), (''url'', json_string url), (''user'', json_string user),
          (''time'', json_string time)] else []))"

text \<open>The first row of a query, when there is one; columns that are assigned to strings must not be NULL.\<close>

definition first_row :: "env \<Rightarrow> string \<Rightarrow> CResultSet option act" where
  "first_row E sql =
     bindA (ExecuteQuery E sql) (\<lambda>result_set.
     retA (case result_set of
             None \<Rightarrow> None
           | Some rs \<Rightarrow> (let (more, rs) = Next rs in if more then Some rs else None)))"

definition get_text :: "CResultSet \<Rightarrow> string \<Rightarrow> string act" where
  "get_text rs key = liftA (bindR (GetString rs key) deref)"

definition handleBrowsePicture :: "env \<Rightarrow> string \<Rightarrow> string act" where
  "handleBrowsePicture E share_id =
     with_db E ''tuchuang_slave'' (
       let fail = liftA (encodeBrowselPictureJson E HTTP_RESP_FAIL 0 [] [] []) in
       bindA (sprintf_to SQL_MAX_LEN
         (''select user, filemd5, file_name, pv, create_time from share_picture_list where share_id = '' @ quoted share_id)) (\<lambda>sql_cmd.
       bindA (first_row E sql_cmd) (\<lambda>found. case found of None \<Rightarrow> fail | Some rs \<Rightarrow>
       bindA (get_text rs ''user'') (\<lambda>user.
       bindA (get_text rs ''filemd5'') (\<lambda>filemd5.
       bindA (get_text rs ''file_name'') (\<lambda>file_name.
       bindA (liftA (GetInt rs ''pv'')) (\<lambda>pv.
       bindA (get_text rs ''create_time'') (\<lambda>create_time.
       bindA (sprintf_to SQL_MAX_LEN (''select url from file_info where md5 ='' @ quoted filemd5)) (\<lambda>sql_cmd.
       bindA (first_row E sql_cmd) (\<lambda>found. case found of None \<Rightarrow> fail | Some rs \<Rightarrow>
       bindA (get_text rs ''url'') (\<lambda>picture_url.
       bindA (sprintf_to SQL_MAX_LEN
         (''update share_picture_list set pv = '' @ fmt_d (to_int (pv + 1)) @ '' where share_id = '' @ quoted share_id)) (\<lambda>sql_cmd.
       bindA (ExecuteUpdate E sql_cmd True) (\<lambda>updated.
       if \<not> updated then fail
       else liftA (encodeBrowselPictureJson E HTTP_RESP_OK (to_int (pv + 1)) picture_url user create_time))))))))))))))"

definition getSharePicturesCount :: "env \<Rightarrow> string \<Rightarrow> (int \<times> int) act" where
  "getSharePicturesCount E user =
     count_query E (''select count(*) from share_picture_list where user='' @ quoted user)"

definition picture_columns :: "(string \<times> string \<times> bool) list" where
  "picture_columns =
     [(''user'', ''user'', False), (''filemd5'', ''filemd5'', False), (''file_name'', ''file_name'', False),
      (''urlmd5'', ''share_id'', False), (''pv'', ''pv'', True), (''create_time'', ''create_time'', False),
      (''size'', ''size'', True)]"

definition handleGetSharePicturesList :: "env \<Rightarrow> string \<Rightarrow> int \<Rightarrow> int \<Rightarrow> string act" where
  "handleGetSharePicturesList E user start count =
     with_db E ''tuchuang_slave'' (
       bindA (getSharePicturesCount E user) (\<lambda>(ret, n).
       bindA (if ret < 0 then retA None
              else if n = 0 then retA (Some (JNull, 0))
              else bindA (sprintf_to SQL_MAX_LEN
                (''select share_picture_list.user, share_picture_list.filemd5, share_picture_list.file_name,share_picture_list.share_id, share_picture_list.pv,         share_picture_list.create_time, file_info.size from file_info, share_picture_list where share_picture_list.user = '' @
                 quoted user @ '' and          file_info.md5 = share_picture_list.filemd5 limit '' @
                 fmt_d start @ '', '' @ fmt_d count)) (\<lambda>sql_cmd. list_query E picture_columns sql_cmd)) (\<lambda>listed.
       liftA (list_reply E n listed))))"

definition encodeCancelPictureJson :: "env \<Rightarrow> int \<Rightarrow> string res" where
  "encodeCancelPictureJson E ret = encode_code E ret"

definition handleCancelSharePicture :: "env \<Rightarrow> string \<Rightarrow> string \<Rightarrow> string act" where
  "handleCancelSharePicture E user share_id =
     with_db E ''tuchuang_master'' (
       bindA (sprintf_to SQL_MAX_LEN
         (''delete from share_picture_list where user = '' @ quoted user @ '' and share_id = '' @ quoted share_id)) (\<lambda>sql_cmd.
       bindA (ExecutePassQuery E sql_cmd) (\<lambda>deleted.
       liftA (encodeCancelPictureJson E (if deleted then HTTP_RESP_OK else HTTP_RESP_FAIL)))))"

text \<open>An unknown command leaves the reply empty.\<close>

definition ApiSharePicture :: "env \<Rightarrow> string \<Rightarrow> string \<Rightarrow> (int \<times> string) act" where
  "ApiSharePicture E url post_data =
     bindA (liftA (parse_cmd url)) (\<lambda>cmd.
     bindA (liftA (parse (doubles E) post_data)) (\<lambda>root.
     let fail = (\<lambda>code. bindA (liftA (encodeSharePictureJson E code [])) (\<lambda>resp_json. retA (- 1, resp_json)));
         reply = (\<lambda>m. bindA m (\<lambda>resp_json. retA (0, resp_json))) in
     case root of
       None \<Rightarrow> fail HTTP_RESP_FAIL
     | Some root \<Rightarrow>
         if cmd = ''share'' then
           bindA (liftA (take_strings (doubles E) root [''user'', ''token'', ''md5'', ''filename''])) (\<lambda>request.
           case request of
             Some [user, token, md5, filename] \<Rightarrow>
               bindA (VerifyToken E user token) (\<lambda>ret.
               if ret < 0 then fail HTTP_RESP_TOKEN_ERR else reply (handleSharePicture E user md5 filename))
           | _ \<Rightarrow> fail HTTP_RESP_FAIL)
         else if cmd = ''browse'' then
           bindA (liftA (take_strings (doubles E) root [''urlmd5''])) (\<lambda>request.
           case request of
             Some [urlmd5] \<Rightarrow> reply (handleBrowsePicture E urlmd5)
           | _ \<Rightarrow> fail HTTP_RESP_FAIL)
         else if cmd = ''normal'' then
           bindA (liftA (take_strings (doubles E) root [''user'', ''token''])) (\<lambda>request.
           case request of
             Some [user, token] \<Rightarrow>
               bindA (liftA (take_ints (doubles E) root [''start'', ''count''])) (\<lambda>request.
               case request of
                 Some [start, count] \<Rightarrow>
                   bindA (VerifyToken E user token) (\<lambda>ret.
                   if ret < 0 then fail HTTP_RESP_TOKEN_ERR
                   else reply (handleGetSharePicturesList E user start count))
               | _ \<Rightarrow> fail HTTP_RESP_FAIL)
           | _ \<Rightarrow> fail HTTP_RESP_FAIL)
         else if cmd = ''cancel'' then
           bindA (liftA (take_strings (doubles E) root [''user'', ''urlmd5''])) (\<lambda>request.
           case request of
             Some [user, urlmd5] \<Rightarrow> reply (handleCancelSharePicture E user urlmd5)
           | _ \<Rightarrow> fail HTTP_RESP_FAIL)
         else retA (0, [])))"

end
