(* ===== verification/Upload.thy ===== *)
theory Upload
  imports Files
begin

text \<open>
  The upload handler: src/api/api_upload.cc.  The web server has already stored the file; the request is the
  multipart form it wrote, with the path, the size and the checksum of the file.  The programs of the file
  system, the renaming and the short URL service are answers of the environment.

  A form is cut with \<open>std::search\<close>; positions are offsets, as in the code's iterators.
\<close>

section \<open>The form\<close>

definition find_text :: "string \<Rightarrow> string \<Rightarrow> nat option" where
  "find_text s key = (case strstr s key of Some i \<Rightarrow> if i < length s then Some i else None | None \<Rightarrow> None)"

definition length_error :: fault where "length_error = Exception 2"

definition line_end :: "char \<Rightarrow> bool" where
  "line_end c \<longleftrightarrow> c = CHR 0x0D \<or> c = CHR 0x0A"

text \<open>
  \<open>strip\<close>: the two scans are independent, so on a text of line ends only they meet crosswise and the range
  constructor of \<open>std::string\<close> throws.
\<close>

definition strip :: "string \<Rightarrow> string res" where
  "strip str =
     (let it1 = length (takeWhile line_end str); it2 = length str - length (takeWhile line_end (rev str))
      in if it2 < it1 then Inl length_error else Inr (take (it2 - it1) (drop it1 str)))"

definition left_flag :: string where "left_flag = ''name='' @ [CHR 0x22]"
definition right_flag :: string where "right_flag = [CHR 0x22]"

text \<open>One part of the form: its name and its value, with the byte before the next delimiter cut off.\<close>

definition decode_part :: "string \<Rightarrow> (string \<times> string) option res" where
  "decode_part part =
     (case find_text part left_flag of
        None \<Rightarrow> Inr None
      | Some j \<Rightarrow>
          (let rest = drop (j + length left_flag) part in
           case find_text rest right_flag of
             None \<Rightarrow> Inr None
           | Some k \<Rightarrow>
               (let value = drop (k + length right_flag) rest in
                if value = [] then Inl length_error
                else bindR (strip (butlast value)) (\<lambda>value. Inr (Some (take k rest, value))))))"

text \<open>
  \<open>cur\<close> is the text from the current delimiter on.  A part without a name ends the loop, an empty one in
  particular (the test of \<open>next\<close> is there for the termination proof only); so does the last delimiter.
\<close>

function decode_form :: "string \<Rightarrow> string \<Rightarrow> (string \<Rightarrow> string) \<Rightarrow> nat \<Rightarrow> ((string \<Rightarrow> string) \<times> nat) res" where
  "decode_form split cur msg parsed_cnt =
     (if cur = [] then Inr (msg, parsed_cnt)
      else let cur = drop (length split) cur in
        case find_text cur split of
          None \<Rightarrow> Inr (msg, parsed_cnt)
        | Some next \<Rightarrow>
            (case decode_part (take next cur) of
               Inl e \<Rightarrow> Inl e
             | Inr None \<Rightarrow> Inr (msg, parsed_cnt)
             | Inr (Some (field, value)) \<Rightarrow>
                 if next = 0 then Inr (msg, parsed_cnt)
                 else decode_form split (drop next cur) (msg(field := value)) (parsed_cnt + 1)))"
  by pat_completeness auto
termination by (relation "measure (\<lambda>(split, cur, msg, n). length cur)") auto

declare decode_form.simps [simp del]

definition field_cnt :: nat where "field_cnt = 6"

definition decodeMsg :: "string \<Rightarrow> string \<Rightarrow> (int \<times> (string \<Rightarrow> string)) res" where
  "decodeMsg str_json split =
     bindR (decode_form split (case find_text str_json split of None \<Rightarrow> [] | Some i \<Rightarrow> drop i str_json) (\<lambda>_. []) 0)
       (\<lambda>(msg, parsed_cnt). Inr (if parsed_cnt \<noteq> field_cnt then - 1 else 0, msg))"

text \<open>\<open>stol\<close>: \<open>None\<close> when it throws, because there is no number or it does not fit in 64 bits.\<close>

definition stol :: "string \<Rightarrow> int option" where
  "stol s =
     (let s = dropWhile c_isspace (c_str s);
          neg = (s \<noteq> [] \<and> hd s = CHR ''-'');
          s = (if s \<noteq> [] \<and> (hd s = CHR ''-'' \<or> hd s = CHR ''+'') then tl s else s);
          ds = takeWhile is_digit s;
          v = (if neg then - int (dec_val ds) else int (dec_val ds))
      in if ds = [] \<or> v < - (2 ^ 63) \<or> 2 ^ 63 \<le> v then None else Some v)"

section \<open>The stored file\<close>

text \<open>The settings of \<open>ApiUploadInit\<close>.\<close>

record upload_config =
  dfs_path_client :: string
  storage_web_server_ip :: string
  storage_web_server_port :: string
  shorturl_server_address :: string
  shorturl_server_access_token :: string

definition ApiUploadInit :: "string \<Rightarrow> string \<Rightarrow> string \<Rightarrow> string \<Rightarrow> string \<Rightarrow> upload_config" where
  "ApiUploadInit dfs ip port address token =
     \<lparr>dfs_path_client = dfs, storage_web_server_ip = ip, storage_web_server_port = port,
      shorturl_server_address = address, shorturl_server_access_token = token\<rparr>"

text \<open>
  A program with its output in a pipe: \<open>None\<close> when there is no pipe or no process, otherwise the first bytes
  of what it prints, in a zeroed buffer of 512 bytes.
\<close>

definition TEMP_BUF_MAX_LEN :: nat where "TEMP_BUF_MAX_LEN = 512"

definition run_program :: "env \<Rightarrow> string \<Rightarrow> string \<Rightarrow> char list option act" where
  "run_program E prog arg =
     bindA (answer (pipe_ok E)) (\<lambda>piped.
     if \<not> piped then retA None
     else bindA (answer (fork_ok E)) (\<lambda>forked.
       if \<not> forked then retA None
       else bindA (ask (RunPipe prog (c_str arg)) (child_output E)) (\<lambda>output.
         (let got = take TEMP_BUF_MAX_LEN output
          in retA (Some (got @ replicate (TEMP_BUF_MAX_LEN - length got) NUL))))))"

definition uploadFileToFastDfs :: "env \<Rightarrow> string \<Rightarrow> string option act" where
  "uploadFileToFastDfs E file_path =
     bindA (run_program E ''fdfs_upload_file'' file_path) (\<lambda>output.
     case output of
       None \<Rightarrow> retA None
     | Some buf \<Rightarrow>
         bindA (liftA (bindR (TrimSpace buf) (\<lambda>(_, b). bindR (c_strlen b) (\<lambda>n. Inr (take n b))))) (\<lambda>fileid.
         retA (if fileid = [] then None else Some fileid)))"

definition FILE_URL_LEN :: nat where "FILE_URL_LEN = 512"
definition HOST_NAME_LEN :: nat where "HOST_NAME_LEN = 30"

text \<open>
  The address printed by \<open>fdfs_file_info\<close> is copied to a buffer of 30 bytes and not used further.  Neither of
  the two searches is tested.
\<close>

definition host_name :: "char list \<Rightarrow> string res" where
  "host_name buf =
     bindR (c_strlen buf) (\<lambda>n.
     case strstr (take n buf) ''source ip address: '' of
       None \<Rightarrow> Inl NullPointer
     | Some p \<Rightarrow>
         (let q = drop (p + length ''source ip address: '') (take n buf) in
          case strstr q [CHR 0x0A] of
            None \<Rightarrow> Inl NullPointer
          | Some k \<Rightarrow> if k < HOST_NAME_LEN then Inr (take k q) else Inl OutOfBounds))"

definition getFullurlByFileid :: "env \<Rightarrow> upload_config \<Rightarrow> string \<Rightarrow> string option act" where
  "getFullurlByFileid E cfg fileid =
     bindA (run_program E ''fdfs_file_info'' fileid) (\<lambda>output.
     case output of
       None \<Rightarrow> retA None
     | Some buf \<Rightarrow>
         bindA (liftA (host_name buf)) (\<lambda>_.
         bindA (sprintf_to FILE_URL_LEN
           (''http://'' @ c_str (storage_web_server_ip cfg) @ '':'' @ c_str (storage_web_server_port cfg) @ ''/'' @ fileid))
           (\<lambda>url. retA (Some url))))"

definition SUFFIX_LEN :: nat where "SUFFIX_LEN = 8"

definition file_suffix :: "string \<Rightarrow> string act" where
  "file_suffix file_name =
     liftA (bindR (GetFileSuffix (Some (file_name @ [NUL])) (replicate SUFFIX_LEN NUL))
              (\<lambda>(_, suffix). bindR (c_strlen suffix) (\<lambda>n. Inr (take n suffix))))"

definition storeFileinfo :: "env \<Rightarrow> string \<Rightarrow> string \<Rightarrow> string \<Rightarrow> int \<Rightarrow> string \<Rightarrow> string \<Rightarrow> int act" where
  "storeFileinfo E user filename md5 file_size fileid fdfs_file_url =
     bindA (file_suffix filename) (\<lambda>suffix.
     bindA (sprintf_to SQL_MAX_LEN
       (''insert into file_info (md5, file_id, url, size, type, count) values ('' @ quoted md5 @ '', '' @
        quoted fileid @ '', '' @ quoted fdfs_file_url @ '', '' @ quoted (fmt_d file_size) @ '', '' @ quoted suffix @
        '', 1)'')) (\<lambda>sql_cmd.
     bindA (ExecuteCreate E sql_cmd) (\<lambda>created.
     if \<not> created then retA (- 1)
     else bindA (ask AskTime (local_time E)) (\<lambda>create_time.
       bindA (sprintf_to SQL_MAX_LEN
         (''insert into user_file_list(user, md5, create_time, file_name, shared_status, pv) values ('' @
          quoted user @ '', '' @ quoted md5 @ '', '' @ quoted create_time @ '', '' @ quoted filename @ '', 0, 0)'')) (\<lambda>sql_cmd.
       bindA (ExecuteCreate E sql_cmd) (\<lambda>created.
       retA (if created then 0 else - 1)))))))"

text \<open>The short URL, or the URL itself when the service is off or fails.\<close>

definition originUrl2ShortUrl :: "env \<Rightarrow> upload_config \<Rightarrow> string \<Rightarrow> string act" where
  "originUrl2ShortUrl E cfg url =
     (if shorturl_server_address cfg = [] then retA url
      else bindA (ask (AskShortUrl url) (short_url E)) (\<lambda>short.
        retA (case short of None \<Rightarrow> url | Some s \<Rightarrow> s)))"

definition encodeUploadJson :: "env \<Rightarrow> int \<Rightarrow> string res" where
  "encodeUploadJson E ret = encode_code E ret"

section \<open>The handler\<close>

text \<open>\<open>True\<close>: the end of the function is reached; \<open>False\<close>: a jump to its failure label.\<close>

definition upload_stored :: "env \<Rightarrow> upload_config \<Rightarrow> (string \<Rightarrow> string) \<Rightarrow> int \<Rightarrow> string \<Rightarrow> bool act" where
  "upload_stored E cfg msg file_size new_file_path =
     bindA (uploadFileToFastDfs E new_file_path) (\<lambda>fileid.
     case fileid of
       None \<Rightarrow> bindA (ask (Unlink new_file_path) (unlink_ok E)) (\<lambda>_. retA False)
     | Some fileid \<Rightarrow>
         bindA (ask (Unlink new_file_path) (unlink_ok E)) (\<lambda>_.
         bindA (getFullurlByFileid E cfg fileid) (\<lambda>url.
         case url of
           None \<Rightarrow> retA False
         | Some url \<Rightarrow>
             bindA (originUrl2ShortUrl E cfg url) (\<lambda>url.
             bindA (storeFileinfo E (msg ''user'') (msg ''file_name'') (msg ''file_md5'') file_size fileid url) (\<lambda>ret.
             retA (0 \<le> ret))))))"

definition ApiUpload :: "env \<Rightarrow> upload_config \<Rightarrow> string \<Rightarrow> string \<Rightarrow> (int \<times> string) act" where
  "ApiUpload E cfg post_data split =
     with_db E ''tuchuang_master'' (
       bindA (liftA (decodeMsg post_data split)) (\<lambda>(ret, msg).
       bindA (case (if ret = 0 then stol (msg ''file_size'') else None) of
                None \<Rightarrow> retA False
              | Some file_size \<Rightarrow>
                  bindA (file_suffix (msg ''file_name'')) (\<lambda>suffix.
                  bindA (sprintf_to 128 (c_str (msg ''file_path'') @ ''.'' @ suffix)) (\<lambda>new_file_path.
                  bindA (ask (Rename (c_str (msg ''file_path'')) new_file_path) (rename_ok E)) (\<lambda>renamed.
                  if \<not> renamed then retA False else upload_stored E cfg msg file_size new_file_path)))) (\<lambda>ok.
       bindA (liftA (encodeUploadJson E (if ok then 0 else 1))) (\<lambda>str_json. retA (0, str_json)))))"

end
