(* ===== verification/Server.thy ===== *)
theory Server
  imports Upload Shares
begin

text \<open>
  The dispatch of requests and the framing of replies: src/tc_server.cc.  The network library calls \<open>OnRead\<close>
  with the bytes of a connection; the HTTP parser gives the URL, the body and the content type as C strings.
\<close>

section \<open>Replies\<close>

definition HTTP_RESPONSE_HTML_MAX :: nat where "HTTP_RESPONSE_HTML_MAX = 8192"

definition crlf :: string where "crlf = [CHR 0x0D, CHR 0x0A]"

text \<open>The format \<open>HTTP_RESPONSE_HTML\<close> with its two arguments; \<open>%d\<close> reads a 32-bit length.\<close>

definition HTTP_RESPONSE_HTML :: "nat \<Rightarrow> string \<Rightarrow> string" where
  "HTTP_RESPONSE_HTML ulen body =
     ''HTTP/1.1 200 OK'' @ crlf @ ''Connection:close'' @ crlf @
     ''Content-Length:'' @ fmt_d (to_int (int ulen)) @ crlf @
     ''Content-Type:application/json;charset=utf-8'' @ crlf @ crlf @ c_str body"

text \<open>\<open>snprintf\<close> into 8192 bytes; what is sent is what was written, without the terminator.\<close>

definition http_body :: "string \<Rightarrow> string" where
  "http_body resp_json =
     take (HTTP_RESPONSE_HTML_MAX - 1) (HTTP_RESPONSE_HTML (length resp_json mod 2 ^ 32) resp_json)"

datatype outcome = Send string | ForceClose | KeepReading

definition send_reply :: "(int \<times> string) act \<Rightarrow> outcome act" where
  "send_reply handler = bindA handler (\<lambda>(_, resp_json). retA (Send (http_body resp_json)))"

definition HandleRegisterRequest :: "env \<Rightarrow> string \<Rightarrow> outcome act" where
  "HandleRegisterRequest E post_data = send_reply (ApiRegisterUser E post_data)"

definition HandleLoginRequest :: "env \<Rightarrow> string \<Rightarrow> outcome act" where
  "HandleLoginRequest E post_data = send_reply (ApiUserLogin E post_data)"

definition HandleMyfilesRequest :: "env \<Rightarrow> string \<Rightarrow> string \<Rightarrow> outcome act" where
  "HandleMyfilesRequest E url post_data = send_reply (ApiMyfiles E url post_data)"

definition HandleMd5Request :: "env \<Rightarrow> string \<Rightarrow> outcome act" where
  "HandleMd5Request E post_data = send_reply (ApiMd5 E post_data)"

definition HandleUploadRequest :: "env \<Rightarrow> upload_config \<Rightarrow> string \<Rightarrow> string \<Rightarrow> outcome act" where
  "HandleUploadRequest E cfg post_data split = send_reply (ApiUpload E cfg post_data split)"

definition HandleSharePictureRequest :: "env \<Rightarrow> string \<Rightarrow> string \<Rightarrow> outcome act" where
  "HandleSharePictureRequest E url post_data = send_reply (ApiSharePicture E url post_data)"

definition HandleDealFileRequest :: "env \<Rightarrow> string \<Rightarrow> string \<Rightarrow> string \<Rightarrow> outcome act" where
  "HandleDealFileRequest E dfs url post_data = send_reply (ApiDealfile E dfs url post_data)"

definition HandleShareFilesRequest :: "env \<Rightarrow> string \<Rightarrow> string \<Rightarrow> outcome act" where
  "HandleShareFilesRequest E url post_data = send_reply (ApiSharefile E url post_data)"

definition HandleDealShareFileRequest :: "env \<Rightarrow> string \<Rightarrow> string \<Rightarrow> outcome act" where
  "HandleDealShareFileRequest E url post_data = send_reply (ApiDealsharefile E url post_data)"

section \<open>Dispatch\<close>

definition strncmp0 :: "string \<Rightarrow> string \<Rightarrow> nat \<Rightarrow> bool" where
  "strncmp0 url prefix n \<longleftrightarrow> take n url = take n prefix"

definition boundary :: "string \<Rightarrow> string" where
  "boundary ct = CHR ''-'' # (case strstr ct ''boundary='' of Some p \<Rightarrow> drop (p + 9) ct | None \<Rightarrow> [])"

text \<open>
  The variable of src/api/api_common.cc is never assigned: \<open>ApiUploadInit\<close> sets the one of the same name in the
  anonymous namespace of api_upload.cc.
\<close>

definition s_dfs_path_client :: string where "s_dfs_path_client = []"

text \<open>The pool of tasks runs a handler later, with the same arguments.\<close>

definition route :: "env \<Rightarrow> upload_config \<Rightarrow> string \<Rightarrow> string \<Rightarrow> string \<Rightarrow> outcome act" where
  "route E cfg url content content_type =
     (if strncmp0 url ''/api/reg'' 8 then HandleRegisterRequest E content
      else if strncmp0 url ''/api/login'' 10 then HandleLoginRequest E content
      else if strncmp0 url ''/api/myfiles'' 10 then HandleMyfilesRequest E url content
      else if strncmp0 url ''/api/md5'' 8 then HandleMd5Request E content
      else if strncmp0 url ''/api/upload'' 11 then HandleUploadRequest E cfg content (boundary content_type)
      else if strncmp0 url ''/api/dealfile'' 13 then HandleDealFileRequest E s_dfs_path_client url content
      else if strncmp0 url ''/api/sharefiles'' 15 then HandleShareFilesRequest E url content
      else if strncmp0 url ''/api/sharepic'' 13 then HandleSharePictureRequest E url content
      else if strncmp0 url ''/api/dealsharefile'' 18 then HandleDealShareFileRequest E url content
      else retA ForceClose)"

text \<open>What the parser made of the bytes read: nothing complete, or a request.\<close>

record request =
  url :: string
  body_content :: string
  content_type :: string

definition OnRead :: "env \<Rightarrow> upload_config \<Rightarrow> (string \<Rightarrow> request option) \<Rightarrow> string \<Rightarrow> outcome act" where
  "OnRead E cfg parser in_buf =
     (if 4096 < length in_buf then retA ForceClose
      else case parser in_buf of
        None \<Rightarrow> retA KeepReading
      | Some req \<Rightarrow> route E cfg (c_str (url req)) (c_str (body_content req)) (c_str (content_type req)))"

end
