(* ===== verification/Discipline.thy ===== *)
theory Discipline
  imports Server
begin

text \<open>
  How the handlers use what they borrow.  An automaton reads the events of a run: a connection to the database is
  requested only while nothing is held, one to the cache only while no other one to the cache is held (so two
  handlers never wait for each other in a circle); statements go to held connections only; a transaction is open
  between its start and its end, and no connection is given after while one is open.

  A judgement \<open>triple e s m t\<close> says of the action \<open>m\<close> that from the state \<open>s\<close> of the automaton it stops
  in \<open>t\<close> when it returns and in \<open>e\<close> when it throws; when the process dies nothing is asked of the last state, but
  the events up to there are legal.  There is one rule per construct of the actions, as in a Hoare logic, and the
  handlers follow by applying them.
\<close>

section \<open>The automaton\<close>

record usage =
  db :: "string option"
  cache :: "string option"
  txn :: bool

definition idle :: usage where
  "idle = \<lparr>db = None, cache = None, txn = False\<rparr>"

definition txn_words :: "string set" where
  "txn_words = {''start transaction'', ''commit'', ''rollback''}"

definition sql_step :: "string \<Rightarrow> usage \<Rightarrow> usage option" where
  "sql_step q s =
     (if db s = None then None
      else if q = ''start transaction'' then (if txn s then None else Some (s\<lparr>txn := True\<rparr>))
      else if q \<in> txn_words then (if txn s then Some (s\<lparr>txn := False\<rparr>) else None)
      else Some s)"

fun step :: "event \<Rightarrow> usage \<Rightarrow> usage option" where
  "step (GetDB p) s = (if db s = None \<and> cache s = None then Some s else None)"
| "step (TookDB p) s = (if db s = None \<and> cache s = None then Some (s\<lparr>db := Some p\<rparr>) else None)"
| "step (RelDB p) s = (if db s = Some p \<and> cache s = None \<and> \<not> txn s then Some (s\<lparr>db := None\<rparr>) else None)"
| "step (GetCache p) s = (if cache s = None then Some s else None)"
| "step (TookCache p) s = (if cache s = None then Some (s\<lparr>cache := Some p\<rparr>) else None)"
| "step (RelCache p) s = (if cache s = Some p then Some (s\<lparr>cache := None\<rparr>) else None)"
| "step (Sql q) s = sql_step q s"
| "step (StmtInit q) s = (if db s = None then None else Some s)"
| "step (StmtExecute ps) s = (if db s = None then None else Some s)"
| "step RedisConnect s = (if cache s = None then None else Some s)"
| "step RedisFree s = (if cache s = None then None else Some s)"
| "step (Redis ws) s = (if cache s = None then None else Some s)"
| "step _ s = Some s"

fun steps :: "event list \<Rightarrow> usage \<Rightarrow> usage option" where
  "steps [] s = Some s"
| "steps (ev # evs) s = (case step ev s of None \<Rightarrow> None | Some s' \<Rightarrow> steps evs s')"

lemma steps_append: "steps (xs @ ys) s = (case steps xs s of None \<Rightarrow> None | Some s' \<Rightarrow> steps ys s')"
  by (induction xs arbitrary: s) (auto split: option.splits)

section \<open>The judgement\<close>

definition holds :: "world \<Rightarrow> usage \<Rightarrow> bool" where
  "holds w s \<longleftrightarrow> has_db w = (db s \<noteq> None) \<and> (cache_conn w = None) = (cache s = None)"

definition stops :: "usage \<Rightarrow> usage \<Rightarrow> 'a res \<Rightarrow> world \<Rightarrow> usage \<Rightarrow> bool" where
  "stops e t r w s = (case r of Inr x \<Rightarrow> s = t \<and> holds w s | Inl (Exception k) \<Rightarrow> s = e \<and> holds w s | Inl _ \<Rightarrow> True)"

definition triple :: "usage \<Rightarrow> usage \<Rightarrow> 'a act \<Rightarrow> usage \<Rightarrow> bool" where
  "triple e s m t \<longleftrightarrow>
     (\<forall>w. holds w s \<longrightarrow>
       (\<exists>evs s'. history (snd (m w)) = history w @ evs \<and> steps evs s = Some s' \<and>
                 stops e t (fst (m w)) (snd (m w)) s'))"

named_theorems tr

lemma tripleI:
  assumes "\<And>w. holds w s \<Longrightarrow> \<exists>evs s'. history (snd (m w)) = history w @ evs \<and> steps evs s = Some s' \<and>
    stops e t (fst (m w)) (snd (m w)) s'"
  shows "triple e s m t"
  using assms by (simp add: triple_def)

lemma tripleE:
  assumes "triple e s m t" "holds w s"
  obtains evs s' r w' where "m w = (r, w')" "history w' = history w @ evs" "steps evs s = Some s'" "stops e t r w' s'"
  using assms unfolding triple_def by (metis prod.collapse)

lemma stops_simps [simp]:
  "stops e t (Inr x) w s \<longleftrightarrow> s = t \<and> holds w s"
  "stops e t (Inl (Exception k)) w s \<longleftrightarrow> s = e \<and> holds w s"
  "stops e t (Inl NullPointer) w s" "stops e t (Inl OutOfBounds) w s" "stops e t (Inl Uninitialised) w s"
  by (simp_all add: stops_def)

definition throws :: "'a res \<Rightarrow> bool" where
  "throws r \<longleftrightarrow> (\<exists>k. r = Inl (Exception k))"

lemma throws_simps [simp]:
  "throws (Inl f) = (\<exists>k. f = Exception k)" "\<not> throws (Inr x)"
  by (simp_all add: throws_def)

lemma stops_calm: "\<not> throws r \<Longrightarrow> holds w s \<Longrightarrow> stops e s r w s"
  by (cases r) (auto simp: stops_def throws_def split: fault.split)

lemma stops_same: "holds w s \<Longrightarrow> stops s s r w s"
  by (cases r) (auto simp: stops_def split: fault.split)

lemma triple_ret [tr]: "triple e s (retA x) s"
  by (rule tripleI) (auto simp: retA_def intro!: exI[of _ "[]"])

lemma triple_pair [tr]: "triple e s (\<lambda>w. (Inr x, w)) s"
  using triple_ret[of e s x] by (simp add: retA_def[abs_def])

lemma triple_fail [tr]:
  "triple e s (failA NullPointer) t" "triple e s (failA OutOfBounds) t"
  "triple e s (failA BadVarArg) t"
  by (rule tripleI; auto simp: failA_def stops_def intro!: exI[of _ "[]"])+

lemma triple_lift_calm: "\<not> throws r \<Longrightarrow> triple e s (liftA r) s"
  by (rule tripleI) (auto simp: liftA_def stops_calm intro!: exI[of _ "[]"])

lemma triple_lift: "triple s s (liftA r) s"
  by (rule tripleI) (auto simp: liftA_def stops_same intro!: exI[of _ "[]"])

lemma triple_bind:
  assumes "triple e s m u" "\<And>x. triple e u (f x) t"
  shows "triple e s (bindA m f) t"
proof (rule tripleI)
  fix w assume "holds w s"
  with assms(1) obtain evs s' r w' where m: "m w = (r, w')" "history w' = history w @ evs"
    "steps evs s = Some s'" "stops e u r w' s'" by (rule tripleE)
  show "\<exists>evs s'. history (snd (bindA m f w)) = history w @ evs \<and> steps evs s = Some s' \<and>
    stops e t (fst (bindA m f w)) (snd (bindA m f w)) s'"
  proof (cases r)
    case (Inl x)
    then show ?thesis using m by (auto simp: bindA_def stops_def split: fault.splits)
  next
    case (Inr x)
    with m(4) have "holds w' u" "s' = u" by auto
    from assms(2)[of x] this(1) obtain evs2 s2 r2 w2 where "f x w' = (r2, w2)" "history w2 = history w' @ evs2"
      "steps evs2 u = Some s2" "stops e t r2 w2 s2" by (rule tripleE)
    with m Inr \<open>s' = u\<close> show ?thesis by (auto simp: bindA_def steps_append)
  qed
qed

text \<open>Events that leave the automaton where it is, and the two that need a held connection.\<close>

lemma triple_emit:
  assumes "\<And>w. holds w s \<Longrightarrow> step ev s = Some s"
  shows "triple e s (emit ev) s"
  using assms by (intro tripleI) (auto simp: emit_def holds_def intro!: exI[of _ "[ev]"])

lemma triple_answer [tr]: "triple e s (answer f) s"
  by (rule tripleI) (auto simp: answer_def intro!: exI[of _ "[]"])

lemma triple_ask:
  assumes "step ev s = Some s"
  shows "triple e s (ask ev f) s"
  unfolding ask_def by (rule triple_bind[OF triple_emit triple_answer]) (rule assms)

lemma triple_split:
  "(b \<Longrightarrow> triple e s m t) \<Longrightarrow> (\<not> b \<Longrightarrow> triple e s n t) \<Longrightarrow> triple e s (if b then m else n) t"
  "(o' = None \<Longrightarrow> triple e s m t) \<Longrightarrow> (\<And>x. o' = Some x \<Longrightarrow> triple e s (g x) t) \<Longrightarrow>
     triple e s (case o' of None \<Rightarrow> m | Some x \<Rightarrow> g x) t"
  "(\<And>x y. p = (x, y) \<Longrightarrow> triple e s (h x y) t) \<Longrightarrow> triple e s (case p of (x, y) \<Rightarrow> h x y) t"
  by (auto split: option.split prod.split)

lemma triple_world_if:
  "triple e s m t \<Longrightarrow> triple e s n t \<Longrightarrow> triple e s (\<lambda>w. if b w then m w else n w) t"
  by (auto simp: triple_def)

text \<open>What was borrowed goes after, also when the block is left by an exception.\<close>

lemma leaving_cases:
  "leaving (r, w) fin = (r, if (\<exists>x. r = Inr x) \<or> throws r then fin w else w)"
  by (cases r) (auto simp: leaving_def throws_def split: fault.split)

text \<open>
  The common part of the two blocks: \<open>pre\<close> are the events before the body, \<open>post\<close> the ones after it, \<open>u\<close> is
  the state inside.
\<close>

lemma triple_block:
  assumes run: "block w = leaving (body wi) fin"
    and enter: "history wi = history w @ pre" "steps pre s = Some u" "holds wi u"
    and leave: "steps post u = Some s" "\<And>w''. history (fin w'') = history w'' @ post"
      "\<And>w''. holds w'' u \<Longrightarrow> holds (fin w'') s"
    and body: "triple u u body u"
  shows "\<exists>evs s'. history (snd (block w)) = history w @ evs \<and> steps evs s = Some s' \<and>
    stops s s (fst (block w)) (snd (block w)) s'"
proof -
  from body enter(3) obtain evs s' r w' where b: "body wi = (r, w')"
    "history w' = history w @ pre @ evs" "steps evs u = Some s'" "stops u u r w' s'"
    using enter(1) by (elim tripleE) auto
  define out where "out \<longleftrightarrow> (\<exists>x. r = Inr x) \<or> throws r"
  have out: "out \<Longrightarrow> s' = u \<and> holds w' u" using b(4) by (auto simp: out_def stops_def throws_def)
  have "history (snd (block w)) = history w @ pre @ evs @ (if out then post else [])"
    unfolding run b(1) leaving_cases out_def[symmetric] using b(2) leave(2) by simp
  moreover have "steps (pre @ evs @ (if out then post else [])) s = Some (if out then s else s')"
    using enter(2) b(3) leave(1) out by (simp add: steps_append)
  moreover have "stops s s (fst (block w)) (snd (block w)) (if out then s else s')"
    unfolding run b(1) leaving_cases out_def[symmetric] using leave(3) out
    by (cases r) (auto simp: out_def stops_def throws_def split: fault.splits)
  ultimately show ?thesis by blast
qed

lemma triple_with_db:
  assumes "\<And>u. cache u = None \<Longrightarrow> \<not> txn u \<Longrightarrow> triple u u body u"
  shows "triple idle idle (with_db E p body) idle"
proof (rule tripleI)
  fix w assume w: "holds w idle"
  define got where "got = get_db E (history w @ [GetDB p])"
  show "\<exists>evs s'. history (snd (with_db E p body w)) = history w @ evs \<and> steps evs idle = Some s' \<and>
    stops idle idle (fst (with_db E p body w)) (snd (with_db E p body w)) s'"
    by (rule triple_block[where wi = "w\<lparr>history := history w @ GetDB p # (if got then [TookDB p] else []), has_db := got\<rparr>"
        and fin = "\<lambda>w''. w''\<lparr>history := history w'' @ (if got then [RelDB p] else []), has_db := has_db w\<rparr>"
        and pre = "GetDB p # (if got then [TookDB p] else [])" and post = "if got then [RelDB p] else []"
        and u = "idle\<lparr>db := (if got then Some p else None)\<rparr>"])
      (use w assms in \<open>auto simp: idle_def holds_def got_def with_db_def bindA_def ask_def emit_def answer_def\<close>)
qed

lemma triple_with_cache:
  assumes "\<And>u. db u = db s \<Longrightarrow> txn u = txn s \<Longrightarrow> triple u u body u" "cache s = None"
  shows "triple s s (with_cache E p body) s"
proof (rule tripleI)
  fix w assume w: "holds w s"
  define got where "got = get_cache E (history w @ [GetCache p])"
  show "\<exists>evs s'. history (snd (with_cache E p body w)) = history w @ evs \<and> steps evs s = Some s' \<and>
    stops s s (fst (with_cache E p body w)) (snd (with_cache E p body w)) s'"
    by (rule triple_block[where wi = "w\<lparr>history := history w @ GetCache p # (if got \<noteq> None then [TookCache p] else []), cache_conn := got\<rparr>"
        and fin = "\<lambda>w''. w''\<lparr>history := history w'' @ (if got \<noteq> None then [RelCache p] else []), cache_conn := cache_conn w\<rparr>"
        and pre = "GetCache p # (if got \<noteq> None then [TookCache p] else [])" and post = "if got \<noteq> None then [RelCache p] else []"
        and u = "s\<lparr>cache := (if got \<noteq> None then Some p else None)\<rparr>"])
      (use w assms in \<open>auto simp: holds_def got_def with_cache_def bindA_def ask_def emit_def answer_def\<close>)
qed

section \<open>The operations\<close>

text \<open>Rules that must be tried before the general one for \<open>bindA\<close>, and those that may come after it.\<close>

named_theorems tr_first

lemma triple_bind_same [tr]:
  "triple e s m s \<Longrightarrow> (\<And>x. triple e s (f x) t) \<Longrightarrow> triple e s (bindA m f) t"
  by (rule triple_bind)

lemmas [tr] = triple_split triple_world_if triple_lift triple_lift_calm

lemma triple_bool [tr]:
  "(b \<Longrightarrow> triple e s m t) \<Longrightarrow> (\<not> b \<Longrightarrow> triple e s n t) \<Longrightarrow>
   triple e s (case b of True \<Rightarrow> m | False \<Rightarrow> n) t"
  by (cases b) auto

lemma triple_list [tr]:
  "(xs = [] \<Longrightarrow> triple e s m t) \<Longrightarrow> (\<And>y ys. xs = y # ys \<Longrightarrow> triple e s (g y ys) t) \<Longrightarrow>
   triple e s (case xs of [] \<Rightarrow> m | y # ys \<Rightarrow> g y ys) t"
  by (cases xs) auto

lemma triple_sprintf [tr_first]:
  "triple e s (f t) u \<Longrightarrow> triple e s (bindA (sprintf_to n t) f) u"
  using triple_fail(2)[of e s u]
  by (cases "length t < n") (simp_all add: triple_def sprintf_to_def bindA_def retA_def failA_def)

lemma triple_snprintf [tr_first]:
  "triple e s (f (take (n - 1) t)) u \<Longrightarrow> triple e s (bindA (snprintf_to n t) f) u"
  by (simp add: triple_def snprintf_to_def bindA_def retA_def)

lemma triple_ret_bind [tr_first]: "triple e s (f x) u \<Longrightarrow> triple e s (bindA (retA x) f) u"
  by (simp add: triple_def bindA_def retA_def)

subsection \<open>The database\<close>

lemma triple_using_db:
  "(db s \<noteq> None \<Longrightarrow> triple e s m t) \<Longrightarrow> triple e s (using_db m) t"
  by (auto simp: triple_def using_db_def holds_def stops_def intro!: exI[of _ "[]"])

lemma triple_query: "c_str q \<notin> txn_words \<Longrightarrow> triple e s (mysql_real_query E q) s"
  unfolding mysql_real_query_def
  by (intro triple_using_db triple_ask) (auto simp: sql_step_def txn_words_def)

lemma triple_sql [tr]:
  assumes "c_str q \<notin> txn_words"
  shows "triple e s (ExecuteCreate E q) s" "triple e s (ExecutePassQuery E q) s" "triple e s (ExecuteDrop E q) s"
    "triple e s (ExecuteQuery E q) s" "triple e s (ExecuteUpdate E q c) s"
  unfolding ExecuteCreate_def ExecutePassQuery_def ExecuteDrop_def ExecuteQuery_def ExecuteUpdate_def
  by (rule tr triple_query[OF assms])+

lemma triple_transaction_word:
  assumes "q \<in> txn_words" "\<And>d. sql_step q (s\<lparr>db := Some d\<rparr>) = Some (t\<lparr>db := Some d\<rparr>)" "db s = db t" "cache s = cache t"
  shows "triple e s (mysql_real_query E q) t"
proof -
  have c: "c_str q = q" using assms(1) by (auto simp: txn_words_def c_str_def)
  have "db s \<noteq> None \<Longrightarrow> sql_step q s = Some t" using assms(2,3) by (cases s; cases t) auto
  then show ?thesis unfolding mysql_real_query_def using assms(3,4)
    by (intro triple_using_db tripleI)
      (auto simp: c ask_def bindA_def emit_def answer_def holds_def intro!: exI[of _ "[Sql q]"])
qed

lemma triple_start: "\<not> txn s \<Longrightarrow> triple e s (StartTransaction E) (s\<lparr>txn := True\<rparr>)"
  unfolding StartTransaction_def by (rule triple_transaction_word) (simp_all add: txn_words_def sql_step_def)

lemma triple_ends:
  assumes "\<not> txn s"
  shows "triple e (s\<lparr>txn := True\<rparr>) (Commit E) s" "triple e (s\<lparr>txn := True\<rparr>) (Rollback E) s"
  unfolding Commit_def Rollback_def
  by (rule triple_transaction_word; use assms in \<open>simp add: txn_words_def sql_step_def\<close>)+

lemma throws_bindR [simp]: "throws (bindR r f) \<longleftrightarrow> throws r \<or> (\<exists>x. r = Inr x \<and> throws (f x))"
  by (cases r) (auto simp: throws_def)

lemma column_calm: "\<not> throws (column rs i)"
  by (simp add: column_def split: option.split)

lemma get_calm [simp]: "\<not> throws (GetInt rs k)" "\<not> throws (GetString rs k)" "\<not> throws (deref x)"
  unfolding GetInt_def GetString_def Let_def deref_def
  by (simp_all add: column_calm split: option.split)

lemma triple_helpers [tr]:
  assumes "c_str q \<notin> txn_words"
  shows "triple e s (GetResultOneCount E q n) s" "triple e s (CheckwhetherHaveRecord E q) s"
    "triple e s (GetResultOneStatus E q i) s" "triple e s (count_query E q) s" "triple e s (first_row E q) s"
  unfolding GetResultOneCount_def CheckwhetherHaveRecord_def GetResultOneStatus_def count_query_def first_row_def Let_def
  by (rule tr triple_sql[OF assms] | simp)+

lemma triple_statement [tr]:
  "triple e s (Init_statement E q) s" "db s \<noteq> None \<Longrightarrow> triple e s (ExecuteUpdate_statement E st) s"
  unfolding Init_statement_def ExecuteUpdate_statement_def
  by (rule tr triple_ask triple_using_db | simp)+

text \<open>After a call that needs a connection there is one.\<close>

lemma triple_after_Init_statement [tr_first]:
  assumes "\<And>x. db s \<noteq> None \<Longrightarrow> triple e s (f x) t"
  shows "triple e s (bindA (Init_statement E q) f) t"
proof (cases "db s = None")
  case True
  then show ?thesis
    by (auto intro!: tripleI exI[of _ "[]"] simp: Init_statement_def bindA_def using_db_def holds_def stops_def)
next
  case False
  then show ?thesis using assms by (intro triple_bind[OF triple_statement(1)]) simp
qed

subsection \<open>The cache\<close>

lemma triple_get_conn [tr_first]:
  "(\<And>c. cache s \<noteq> None \<Longrightarrow> triple e s (f c) t) \<Longrightarrow> triple e s (bindA get_conn f) t"
proof (rule tripleI)
  fix w assume f: "\<And>c. cache s \<noteq> None \<Longrightarrow> triple e s (f c) t" and w: "holds w s"
  show "\<exists>evs s'. history (snd (bindA get_conn f w)) = history w @ evs \<and> steps evs s = Some s' \<and>
    stops e t (fst (bindA get_conn f w)) (snd (bindA get_conn f w)) s'"
  proof (cases "cache_conn w")
    case None
    then show ?thesis by (auto simp: bindA_def get_conn_def intro!: exI[of _ "[]"])
  next
    case (Some c)
    with w have "cache s \<noteq> None" by (auto simp: holds_def)
    with f[OF this, of c] w Some show ?thesis by (simp add: triple_def bindA_def get_conn_def)
  qed
qed

lemma triple_put_conn: "cache s \<noteq> None \<Longrightarrow> triple e s (put_conn c) s"
  by (auto intro!: tripleI exI[of _ "[]"] simp: put_conn_def holds_def)

lemma triple_context [tr]:
  "triple e s (set_context c) s" "cache s \<noteq> None \<Longrightarrow> triple e s drop_context s"
  unfolding set_context_def drop_context_def
  by (rule tr_first triple_put_conn triple_bind_same triple_emit | simp)+

lemma triple_send [tr]: "triple e s (send_command E ws) s"
  unfolding send_command_def by (rule tr_first | rule tr triple_ask | simp)+

lemma triple_Init: "triple e s (Init E) s"
  unfolding Init_def
  by (rule tr_first | rule tr triple_ask triple_put_conn | simp)+

lemma triple_after_Init [tr_first]:
  assumes "\<And>x. cache s \<noteq> None \<Longrightarrow> triple e s (f x) t"
  shows "triple e s (bindA (Init E) f) t"
proof (cases "cache s = None")
  case True
  then show ?thesis
    by (auto intro!: tripleI exI[of _ "[]"] simp: Init_def bindA_def get_conn_def holds_def stops_def)
next
  case False
  then show ?thesis using assms by (intro triple_bind[OF triple_Init]) simp
qed

lemma triple_call [tr]:
  assumes "\<And>r. \<not> throws (f r)"
  shows "triple e s (checked_call E ws d f) s" "triple e s (unchecked_call E ws d f) s"
  unfolding checked_call_def unchecked_call_def
  by (rule tr_first | rule tr | rule assms | simp)+

lemma copy_calm [simp]: "\<not> throws (copy_values rs)"
  by (induction rs) (auto split: option.split)

lemma mem_write_calm [simp]: "\<not> throws (mem_write b i xs)"
  by (simp add: mem_write_def)

lemma triple_resp [tr]:
  "(\<And>x. triple e s (m1 x) t) \<Longrightarrow> (\<And>x. triple e s (m2 x) t) \<Longrightarrow> (\<And>x. triple e s (m3 x) t) \<Longrightarrow>
   (\<And>x. triple e s (m4 x) t) \<Longrightarrow> triple e s m5 t \<Longrightarrow> (\<And>x. triple e s (m6 x) t) \<Longrightarrow>
   triple e s (case r of RString x \<Rightarrow> m1 x | RStatus x \<Rightarrow> m2 x | RError x \<Rightarrow> m3 x | RInteger x \<Rightarrow> m4 x
     | RNil \<Rightarrow> m5 | RArray x \<Rightarrow> m6 x) t"
  by (cases r) auto

lemma triple_cache [tr]:
  "triple e s (Get E k) s" "triple e s (Set E k v) s" "triple e s (SetEx E k n v) s" "triple e s (Del E k) s"
  "triple e s (Incr E k) s" "triple e s (Decr E k i) s" "triple e s (Hdel E k f) s" "triple e s (Hset E k f v) s"
  "triple e s (ZsetExist E k v) s" "triple e s (ZsetAdd E k i v) s" "triple e s (ZsetZrem E k v) s"
  "triple e s (ZsetIncr E k v) s" "triple e s (ZsetGetScore E k v) s"
  unfolding Get_def Set_def SetEx_def Del_def Incr_def Decr_def Hdel_def Hset_def ZsetExist_def ZsetAdd_def
    ZsetZrem_def ZsetIncr_def ZsetGetScore_def
  by (rule tr | simp)+

lemma triple_Zrevrange [tr]: "triple e s (ZsetZrevrange E k i j room n) s"
  unfolding ZsetZrevrange_def
  by (rule tr) (auto split: resp.split simp: Let_def)

lemma triple_Hget_buffer [tr]: "triple e s (Hget_buffer E k f v) s"
  unfolding Hget_buffer_def Let_def
  by (rule tr_first | rule tr | simp)+

lemma triple_count [tr]:
  "triple e s (CacheSetCount E k i) s" "triple e s (CacheGetCount E k) s"
  "triple e s (CacheIncrCount E k) s" "triple e s (CacheDecrCount E k) s"
  unfolding CacheSetCount_def CacheGetCount_def CacheIncrCount_def CacheDecrCount_def
  by (rule tr_first | rule tr | simp)+

lemma triple_VerifyToken [tr]: "cache s = None \<Longrightarrow> triple s s (VerifyToken E user token) s"
  unfolding VerifyToken_def by (rule triple_with_cache tr | simp)+

section \<open>The handlers\<close>

lemma text_simps [simp]:
  "c_str (c # t) = (if c = NUL then [] else c # c_str t)" "c_str [] = []"
  by (simp_all add: c_str_def)

lemma not_word [simp]:
  "CHR ''s'' # CHR ''e'' # t \<notin> txn_words" "CHR ''i'' # t \<notin> txn_words" "CHR ''u'' # t \<notin> txn_words"
  "CHR ''d'' # t \<notin> txn_words"
  by (simp_all add: txn_words_def)

lemma not_word_cut [simp]: "c_str (take (SQL_MAX_LEN - Suc 0) (CHR ''i'' # t)) \<notin> txn_words"
  by (simp add: SQL_MAX_LEN_def numeral_eq_Suc)

text \<open>The replies that only hold a code never throw.\<close>

lemma encode_code_calm [simp]: "\<not> throws (encode_code E i)"
  by (simp add: encode_code_def write_fast_def assign_all_def assign_member_def resolveReference_def)

lemma encode_calm [simp]:
  "\<not> throws (encodeMd5Json E i)" "\<not> throws (encodeDealfileJson E i)" "\<not> throws (encodeDealsharefileJson E i)"
  "\<not> throws (encodeRegisterJson E i)" "\<not> throws (encodeUploadJson E i)" "\<not> throws (encodeCancelPictureJson E i)"
  by (simp_all add: encodeMd5Json_def encodeDealfileJson_def encodeDealsharefileJson_def encodeRegisterJson_def
      encodeUploadJson_def encodeCancelPictureJson_def)

lemma idle_simps [simp]: "db idle = None" "cache idle = None" "\<not> txn idle"
  by (simp_all add: idle_def)

lemma triple_remove [tr]: "triple e s (RemoveFileFromFastDfs E dfs fileid) s"
  unfolding RemoveFileFromFastDfs_def by (rule tr_first | rule triple_ask | simp)+

lemma triple_file_id [tr_first]: "triple e s (f (c_str md5 @ c_str name)) u \<Longrightarrow> triple e s (bindA (file_id md5 name) f) u"
  unfolding file_id_def by (rule triple_sprintf)

subsection \<open>Accounts\<close>

lemma triple_login: "triple idle idle (ApiUserLogin E post) idle"
  unfolding ApiUserLogin_def verifyUserPassword_def setToken_def Let_def
  by (rule tr_first | rule triple_with_db triple_with_cache triple_ask tr | simp)+

lemma triple_insert_user: "triple s s (insert_user E params) s"
  unfolding insert_user_def Let_def
  by (rule tr_first | rule triple_ask tr | simp)+

lemma triple_register: "triple idle idle (ApiRegisterUser E post) idle"
  unfolding ApiRegisterUser_def registerUser_def Let_def
  by (rule tr_first | rule triple_with_db triple_insert_user tr | simp)+

lemma triple_ApiInit: "triple idle idle (ApiInit E) idle"
  unfolding ApiInit_def DBGetShareFilesCount_def
  by (rule tr_first | rule triple_with_db triple_with_cache tr | simp)+

subsection \<open>Files\<close>

lemma triple_take_reference: "triple e s (take_reference E user md5 name) s"
  unfolding take_reference_def insert_user_file_def
  by (rule tr_first | rule triple_ask tr | simp)+

text \<open>Each branch of the transaction ends with a commit or a rollback.\<close>

lemma triple_handleDealMd5: "triple idle idle (handleDealMd5 E user md5 name) idle"
  unfolding handleDealMd5_def
proof (rule triple_with_db, rule triple_bind[OF triple_start])
  fix u :: usage and x assume "\<not> txn u"
  show "\<not> txn u" by fact
  note ends = triple_ends[OF this, THEN triple_bind]
  show "triple u (u\<lparr>txn := True\<rparr>) (bindA (sprintf_to SQL_MAX_LEN (''select * from user_file_list where '' @
      where_file user md5 name @ '' for update'')) (\<lambda>sql_cmd.
    bindA (CheckwhetherHaveRecord E sql_cmd) (\<lambda>ret.
    if ret = 1 then bindA (liftA (encodeMd5Json E Md5FileExit)) (\<lambda>str_json. bindA (Commit E) (\<lambda>_. retA str_json))
    else bindA (take_reference E user md5 name) (\<lambda>succeed.
      if \<not> succeed then bindA (Rollback E) (\<lambda>_. liftA (encodeMd5Json E Md5Failed))
      else bindA (Commit E) (\<lambda>_. liftA (encodeMd5Json E Md5Ok)))))) u"
    by (rule tr_first | rule ends triple_take_reference tr | simp)+
qed

lemma triple_ApiMd5: "triple idle idle (ApiMd5 E post) idle"
  unfolding ApiMd5_def
  by (rule tr_first | rule triple_handleDealMd5 tr | simp)+

lemma triple_files:
  "triple idle idle (handleUserFilesCount E user) idle" "triple idle idle (getUserFileList E cmd user i n) idle"
  unfolding handleUserFilesCount_def getUserFileList_def getUserFilesCount_def Let_def DBGetUserFilesCountByUsername_def
  by (rule tr_first | rule triple_with_db triple_with_cache tr | simp)+

lemma triple_ApiMyfiles: "triple idle idle (ApiMyfiles E u post) idle"
  unfolding ApiMyfiles_def Let_def
  by (rule tr_first | rule triple_files tr | simp)+

lemma triple_share: "triple idle idle (handleShareFile E user md5 name) idle"
  unfolding handleShareFile_def record_share_def
  by (rule tr_first | rule triple_with_db triple_with_cache triple_ask tr | simp)+

lemma triple_delete: "triple idle idle (handleDeleteFile E dfs user md5 name) idle"
  unfolding handleDeleteFile_def share_status_def forget_share_def drop_reference_def remove_stored_def Let_def
  by (rule tr_first | rule triple_with_db triple_with_cache triple_ask tr | simp)+

lemma triple_pv_user: "triple idle idle (handlePvFile_user E user md5 name) idle"
  unfolding handlePvFile_user_def Let_def
  by (rule tr_first | rule triple_with_db tr | simp)+

lemma triple_ApiDealfile: "triple idle idle (ApiDealfile E dfs u post) idle"
  unfolding ApiDealfile_def
  by (rule tr_first | rule triple_share triple_delete triple_pv_user tr | simp)+

subsection \<open>Shares\<close>

lemma triple_count_download:
  assumes "\<not> txn s"
  shows "triple s s (count_download E md5 name) s"
  unfolding count_download_def
proof (rule triple_bind[OF triple_start])
  show "\<not> txn s" by fact
  fix x
  note ends = triple_ends[OF assms, THEN triple_bind]
  show "triple s (s\<lparr>txn := True\<rparr>) (bindA (sprintf_to SQL_MAX_LEN (''select pv from share_file_list where '' @
      where_share md5 name @ '' for update'')) (\<lambda>sql_cmd.
    bindA (ExecuteQuery E sql_cmd) (\<lambda>result_set.
     case (case result_set of None \<Rightarrow> None | Some rs \<Rightarrow> (let (more, rs) = Next rs in if more then Some rs else None)) of
       None \<Rightarrow> bindA (Rollback E) (\<lambda>_. retA None)
     | Some rs \<Rightarrow>
         bindA (liftA (GetInt rs ''pv'')) (\<lambda>pv.
         bindA (sprintf_to SQL_MAX_LEN
           (''update share_file_list set pv = '' @ fmt_d (to_int (pv + 1)) @ '' where '' @ where_share md5 name)) (\<lambda>sql_cmd.
         bindA (ExecuteUpdate E sql_cmd False) (\<lambda>updated.
         if \<not> updated then bindA (Rollback E) (\<lambda>_. retA None)
         else bindA (Commit E) (\<lambda>_. retA (Some pv)))))))) s"
    by (rule tr_first | rule ends tr | simp)+
qed

lemma triple_pv: "triple idle idle (handlePvFile E md5 name) idle"
  unfolding handlePvFile_def
  by (rule tr_first | rule triple_with_db triple_with_cache triple_count_download tr | simp)+

lemma triple_cancel: "triple idle idle (handleCancelShareFile E user md5 name) idle"
  unfolding handleCancelShareFile_def
  by (rule tr_first | rule triple_with_db triple_with_cache tr | simp)+

lemma triple_save: "triple idle idle (handleSaveFile E user md5 name) idle"
  unfolding handleSaveFile_def insert_user_file_def
  by (rule tr_first | rule triple_with_db triple_with_cache triple_ask tr | simp)+

lemma triple_ApiDealsharefile: "triple idle idle (ApiDealsharefile E u post) idle"
  unfolding ApiDealsharefile_def
  by (rule tr_first | rule triple_pv triple_cancel triple_save tr | simp)+

lemma triple_load_rows: "triple s s (load_rows E ks rs) s"
  by (induction rs) (simp add: Let_def, (rule tr_first | assumption | rule tr | simp add: Let_def)+)

lemma triple_InitializePvCache: "triple idle idle (InitializePvCache E) idle"
  unfolding InitializePvCache_def
  by (rule tr_first | rule triple_with_db triple_with_cache triple_load_rows tr | simp)+

lemma triple_ranking: "triple s s (ranking_entries E b ns files) s"
  by (induction ns arbitrary: b files) (simp, (rule tr_first | assumption | rule tr | simp)+)

lemma triple_share_count [tr]: "triple e s (getShareFilesCount E) s"
  unfolding getShareFilesCount_def DBGetShareFilesCount_def by (rule tr_first | rule tr | simp)+

lemma triple_list_query [tr]: "c_str q \<notin> txn_words \<Longrightarrow> triple s s (list_query E columns q) s"
  unfolding list_query_def by (rule tr_first | rule tr | simp)+

lemma triple_ApiSharefile: "triple idle idle (ApiSharefile E u post) idle"
  unfolding ApiSharefile_def handleGetSharefilesCount_def handleGetShareFilelist_def handleGetRankingFilelist_def
  by (rule tr_first | rule triple_with_db triple_with_cache triple_ranking triple_ask tr | simp)+

lemma triple_get_text [tr]: "triple e s (get_text rs k) s"
  unfolding get_text_def by (rule tr | simp)+

lemma triple_pictures:
  "triple idle idle (handleSharePicture E user md5 name) idle" "triple idle idle (handleBrowsePicture E share_id) idle"
  "triple idle idle (handleGetSharePicturesList E user i n) idle" "triple idle idle (handleCancelSharePicture E user share_id) idle"
  unfolding handleSharePicture_def handleBrowsePicture_def handleGetSharePicturesList_def
    handleCancelSharePicture_def getSharePicturesCount_def Let_def
  by (rule tr_first | rule triple_with_db triple_ask tr | simp)+

lemma triple_ApiSharePicture: "triple idle idle (ApiSharePicture E u post) idle"
  unfolding ApiSharePicture_def Let_def
  by (rule tr_first | rule triple_pictures tr | simp)+

subsection \<open>Uploads\<close>

lemma triple_file_suffix [tr]: "triple s s (file_suffix name) s"
  unfolding file_suffix_def by (rule tr)+

lemma triple_run [tr]: "triple e s (run_program E prog arg) s"
  unfolding run_program_def Let_def by (rule tr_first | rule triple_ask tr | simp)+

lemma triple_store: "triple s s (storeFileinfo E user name md5 i fileid url') s"
  unfolding storeFileinfo_def by (rule tr_first | rule triple_ask tr | simp)+

lemma triple_ApiUpload: "triple idle idle (ApiUpload E cfg post split) idle"
  unfolding ApiUpload_def upload_stored_def uploadFileToFastDfs_def getFullurlByFileid_def originUrl2ShortUrl_def
  by (rule tr_first | rule triple_with_db triple_store triple_ask tr | simp)+

section \<open>Requests\<close>

lemmas handlers = triple_login triple_register triple_ApiMd5 triple_ApiMyfiles triple_ApiDealfile
  triple_ApiDealsharefile triple_ApiSharefile triple_ApiSharePicture triple_ApiUpload

lemma triple_route: "triple idle idle (route E cfg u content ct) idle"
  unfolding route_def HandleRegisterRequest_def HandleLoginRequest_def HandleMyfilesRequest_def HandleMd5Request_def
    HandleUploadRequest_def HandleSharePictureRequest_def HandleDealFileRequest_def HandleShareFilesRequest_def
    HandleDealShareFileRequest_def send_reply_def
  by (rule tr_first | rule handlers tr | simp)+

lemma triple_OnRead: "triple idle idle (OnRead E cfg parser in_buf) idle"
  unfolding OnRead_def by (rule tr triple_route)+

definition died :: "'a res \<Rightarrow> bool" where
  "died r \<longleftrightarrow> (\<exists>e. r = Inl e \<and> \<not> throws (Inl e :: 'a res))"

definition idle_world :: "event list \<Rightarrow> world" where
  "idle_world h = \<lparr>history = h, has_db = False, cache_conn = None\<rparr>"

lemma triple_idle:
  assumes "triple idle idle m idle"
  shows "\<exists>evs s. history (snd (m (idle_world h))) = h @ evs \<and> steps evs idle = Some s \<and>
    (s = idle \<or> died (fst (m (idle_world h))))"
proof -
  have "holds (idle_world h) idle" by (simp add: holds_def idle_world_def)
  with assms obtain evs s r w where m: "m (idle_world h) = (r, w)" "history w = h @ evs" "steps evs idle = Some s"
    "stops idle idle r w s" by (elim tripleE) (auto simp: idle_world_def)
  moreover have "s = idle \<or> died r" using m(4) by (auto simp: stops_def died_def throws_def split: sum.splits fault.splits)
  ultimately show ?thesis by auto
qed

text \<open>C1: whatever the servers answer and however a request is malformed, the events of handling it are legal for the
  automaton, and when the handler returns or throws nothing is held any more: every connection is back in its pool
  and no transaction is left open.\<close>

theorem requests_use_connections_well:
  "\<exists>evs s. history (snd (OnRead E cfg parser in_buf (idle_world h))) = h @ evs \<and> steps evs idle = Some s \<and>
    (s = idle \<or> died (fst (OnRead E cfg parser in_buf (idle_world h))))"
  by (rule triple_idle[OF triple_OnRead])

end
