(* ===== verification/Outcomes.thy ===== *)
theory Outcomes
  imports Discipline
begin

text \<open>
  What the answers of the handlers mean: who gets a token, when the transaction that records a known file commits,
  what is checked before the database is asked.  A run is inverted step by step with the lemmas of \<open>Service\<close>, and one
  lemma per operation says what it did.
\<close>

section \<open>Statements and answers\<close>

lemma query_Inr:
  "mysql_real_query E q w = (Inr ok, w') \<longleftrightarrow>
     has_db w \<and> ok = sql_ok E (history w @ [Sql (c_str q)]) \<and> w' = w\<lparr>history := history w @ [Sql (c_str q)]\<rparr>"
  by (auto simp: mysql_real_query_def using_db_def ask_iff)

lemma ExecuteQuery_Inr:
  "ExecuteQuery E q w = (Inr res, w') \<longleftrightarrow>
     has_db w \<and> w' = w\<lparr>history := history w @ [Sql (c_str q)]\<rparr> \<and>
     res = (if sql_ok E (history w') then map_option new_result (sql_result E (history w')) else None)"
  by (auto simp: ExecuteQuery_def invert query_Inr)

lemma with_db_Inr:
  assumes "with_db E p body w = (Inr x, w')"
  defines "got \<equiv> get_db E (history w @ [GetDB p])"
  obtains v where "body (w\<lparr>history := history w @ GetDB p # (if got then [TookDB p] else []), has_db := got\<rparr>) = (Inr x, v)"
    "w' = v\<lparr>history := history v @ (if got then [RelDB p] else []), has_db := has_db w\<rparr>"
  using assms by (auto simp: with_db_def bindA_def ask_def emit_def answer_def leaving_def split: prod.splits sum.splits fault.splits)

lemma encode_code_text: "encode_code E i = Inr (''{'' @ valueToQuotedString ''code'' @ '':'' @ print_int i @ ''}'' @ [CHR 0x0A])"
  by (simp add: encode_code_def write_fast_def assign_all_def assign_member_def resolveReference_def FastWriter_write_def)

section \<open>Logging in\<close>

declare text_simps [simp del]

lemma password_row:
  assumes "bindA (ExecuteQuery E q) (\<lambda>result_set.
       case result_set of None \<Rightarrow> retA (- 1)
       | Some rs \<Rightarrow>
           (let (more, rs) = Next rs in
            if more then bindA (liftA (bindR (GetString rs k) string_of)) (\<lambda>password.
              retA (if password = pwd then 0 else - 1)) else retA (- 1))) w = (Inr ret, v)" "\<not> (ret::int) < 0"
  shows "has_db w \<and> (\<exists>keys cells rest i p. sql_result E (history w @ [Sql (c_str q)]) = Some (keys, cells # rest) \<and>
    index_of k keys = Some i \<and> i < length cells \<and> cells ! i = Some p \<and> c_str p = pwd)"
proof -
  define u where "u = w\<lparr>history := history w @ [Sql (c_str q)]\<rparr>"
  from assms obtain t where w: "has_db w" and t: "sql_result E (history u) = Some t"
    and rest: "(let (more, rs) = Next (new_result t) in
            if more then bindA (liftA (bindR (GetString rs k) string_of)) (\<lambda>password.
              retA (if password = pwd then 0 else - 1)) else retA (- 1)) u = (Inr ret, v)"
    by (auto simp: bindA_Inr ExecuteQuery_Inr u_def retA_iff split: option.splits if_splits)
  obtain keys cells rs where k: "t = (keys, cells # rs)"
    "bindR (GetString \<lparr>key_map = keys, row = Some cells, rows = rs\<rparr> k) string_of = Inr pwd"
    using rest assms(2) by (cases t; cases "snd t") (auto simp: new_result_def Next_def invert split: if_splits)
  then obtain i p where "index_of k keys = Some i" "i < length cells" "cells ! i = Some p" "c_str p = pwd"
    by (auto simp: GetString_def GetIndex_def column_def string_of_def bindR_eq_Inr split: option.splits if_splits)
  with w t k(1) show ?thesis by (auto simp: u_def)
qed

lemma verify_accepts:
  assumes "verifyUserPassword E user pwd w = (Inr ret, w')" "\<not> ret < 0"
  defines "q \<equiv> ''select password from user_info where user_name='' @ quoted user"
  shows "\<exists>keys cells rest i p. sql_result E (history w @ [GetDB ''tuchuang_slave'', TookDB ''tuchuang_slave'', Sql (c_str q)]) =
      Some (keys, cells # rest) \<and> index_of ''password'' keys = Some i \<and> i < length cells \<and> cells ! i = Some p \<and> c_str p = pwd"
  using assms(1) unfolding verifyUserPassword_def q_def[symmetric]
  by (elim with_db_Inr) (drule password_row[OF _ assms(2)], auto)

definition lower_case :: "char \<Rightarrow> bool" where
  "lower_case c \<longleftrightarrow> 97 \<le> (of_char c :: nat) \<and> (of_char c :: nat) \<le> 122"

lemma setToken_letters:
  assumes "setToken E user w = (Inr (ret, token), w')"
  shows "length token = 32 \<and> list_all lower_case token"
proof -
  obtain rnd where "token = RandomString rnd 32"
    using assms
    by (auto simp: setToken_def with_cache_def bindA_def ask_def emit_def answer_def leaving_def Let_def retA_def
        split: prod.splits sum.splits fault.splits if_splits)
  moreover have "rnd x mod 26 \<le> 25" for x using mod_less_divisor[of 26 "rnd x"] by linarith
  ultimately show ?thesis by (simp add: RandomString_def list_all_iff lower_case_def)
qed

lemma two_strings:
  assumes "P (case r of Some [a, b] \<Rightarrow> f a b | _ \<Rightarrow> g)" "\<not> P g"
  obtains a b where "r = Some [a, b]" "P (f a b)"
  using assms by (auto split: option.splits list.splits)


text \<open>An environment for examples: every call succeeds, every query has one row and the cache is connected.\<close>

definition demo :: "table \<Rightarrow> resp \<Rightarrow> env" where
  "demo t r =
     \<lparr>get_db = (\<lambda>_. True), get_cache = (\<lambda>_. Some \<lparr>context_err = Some False, last_connect_time = 0, password = []\<rparr>),
      sql_ok = (\<lambda>_. True), sql_result = (\<lambda>_. Some t), sql_affected = (\<lambda>_. 1),
      stmt_init = (\<lambda>_. True), stmt_prepare = (\<lambda>_. True), stmt_param_count = (\<lambda>_. 6), stmt_bind = (\<lambda>_. True),
      stmt_execute = (\<lambda>_. True), stmt_affected = (\<lambda>_. 1), connect_redis = (\<lambda>_. Some False),
      redis_reply = (\<lambda>_. Some r), clock = (\<lambda>_. 5), local_time = (\<lambda>_. ''2024-01-01 00:00:00''),
      random = (\<lambda>_ i. i), system_status = (\<lambda>_. 0), rename_ok = (\<lambda>_. True), pipe_ok = (\<lambda>_. True),
      fork_ok = (\<lambda>_. True), child_output = (\<lambda>_. []), unlink_ok = (\<lambda>_. True), short_url = (\<lambda>_. None),
      calloc_ok = (\<lambda>_. True),
      doubles = \<lparr>scan_lf = (\<lambda>_. None), print_g16 = (\<lambda>_. []), double_to_int = (\<lambda>_. None)\<rparr>\<rparr>"

lemma pair_of: "fst p = x \<Longrightarrow> p = (x, snd p)"
  by auto

definition json_object :: "(string \<times> string) list \<Rightarrow> string" where
  "json_object ms = ''{'' @ tl (concat (map (\<lambda>(k, v). '','' @ valueToQuotedString k @ '':'' @ valueToQuotedString v) ms)) @ ''}''"

definition demo_password :: env where
  "demo_password = demo ([''password''], [[Some ''s'']]) (RStatus ''OK'')"

lemma demo_request: "decodeLoginJson demo_password (json_object [(''user'', ''u''), (''pwd'', ''s'')]) = Inr (Some [''u'', ''s''])"
  by code_simp

lemma demo_verify: "verifyUserPassword demo_password ''u'' ''s'' (idle_world []) = (Inr 0, idle_world [GetDB ''tuchuang_slave'', TookDB ''tuchuang_slave'',
  Sql (c_str (''select password from user_info where user_name='' @ quoted ''u'')), RelDB ''tuchuang_slave''])"
  by code_simp

lemma demo_token: "fst (setToken demo_password ''u'' (idle_world h)) = Inr (0, RandomString (\<lambda>i. i) 32)"
  by (simp add: setToken_def with_cache_def bindA_def ask_def emit_def answer_def demo_password_def demo_def SetEx_def checked_call_def Init_def get_conn_def
    send_command_def leaving_def retA_def liftA_def Let_def reply_text_def idle_world_def all_bool_eq)

lemma demo_reply: "\<exists>reply. encodeLoginJson E 0 token = Inr reply"
  by (simp add: encodeLoginJson_def write_fast_def assign_all_def assign_member_def resolveReference_def c_str_def json_string_def)


section \<open>Recording a known file\<close>

fun sqls :: "event list \<Rightarrow> string list" where
  "sqls [] = []"
| "sqls (Sql q # evs) = q # sqls evs"
| "sqls (_ # evs) = sqls evs"

lemma sqls_append [simp]: "sqls (xs @ ys) = sqls xs @ sqls ys"
  by (induction xs rule: sqls.induct) simp_all

text \<open>The database took the statement \<open>q\<close> among the events \<open>evs\<close> that follow \<open>h\<close>.\<close>

definition accepted :: "env \<Rightarrow> event list \<Rightarrow> event list \<Rightarrow> string \<Rightarrow> bool" where
  "accepted E h evs q \<longleftrightarrow> (\<exists>pre post. evs = pre @ Sql q # post \<and> sql_ok E (h @ pre @ [Sql q]))"

lemma acceptedI: "evs = pre @ Sql q # post \<Longrightarrow> sql_ok E (h @ pre @ [Sql q]) \<Longrightarrow> accepted E h evs q"
  by (auto simp: accepted_def)

lemma transaction_Inr:
  "StartTransaction E w = (Inr ok, w') \<Longrightarrow> has_db w \<and> w' = w\<lparr>history := history w @ [Sql ''start transaction'']\<rparr>"
  "Commit E w = (Inr ok, w') \<Longrightarrow> has_db w \<and> w' = w\<lparr>history := history w @ [Sql ''commit'']\<rparr>"
  "Rollback E w = (Inr ok, w') \<Longrightarrow> has_db w \<and> w' = w\<lparr>history := history w @ [Sql ''rollback'']\<rparr>"
  by (auto simp: StartTransaction_def Commit_def Rollback_def query_Inr c_str_def)

lemma count_Inr:
  assumes "GetResultOneCount E q 0 w = (Inr (ret, n), w')"
  shows "has_db w \<and> w' = w\<lparr>history := history w @ [Sql (c_str q)]\<rparr> \<and>
    (ret \<noteq> 1 \<longrightarrow> ret = 0 \<and> (\<exists>t rs. sql_result E (history w') = Some t \<and> Next (new_result t) = (True, rs) \<and>
       GetInt rs ''count'' = Inr n))"
  using assms
  by (auto simp: GetResultOneCount_def bindA_Inr ExecuteQuery_Inr retA_iff liftA_iff failA_def
      split: option.splits if_splits prod.splits)

text \<open>The statements that take a reference: the count read is the count column of the first row, and one more is written.\<close>

definition select_count :: "string \<Rightarrow> string" where
  "select_count md5 = c_str (''select count from file_info where md5 = '' @ quoted md5 @ '' for update'')"

definition update_count :: "string \<Rightarrow> int \<Rightarrow> string" where
  "update_count md5 n = c_str (''update file_info set count = '' @ fmt_d n @ '' where md5 = '' @ quoted md5)"

definition record_file :: "string \<Rightarrow> string \<Rightarrow> string \<Rightarrow> string \<Rightarrow> string" where
  "record_file user md5 time name = c_str (take 511 (insert_user_file user md5 time name))"

lemma ExecuteUpdate_Inr:
  "ExecuteUpdate E q care w = (Inr ok, w') \<Longrightarrow>
     w' = w\<lparr>history := history w @ [Sql (c_str q)]\<rparr> \<and> (ok \<longrightarrow> sql_ok E (history w'))"
  by (auto simp: ExecuteUpdate_def invert query_Inr split: if_splits)

lemma not_ends:
  "select_count md5 \<noteq> ''commit''" "select_count md5 \<noteq> ''rollback''"
  "update_count md5 n \<noteq> ''commit''" "update_count md5 n \<noteq> ''rollback''"
  "record_file user md5 time name \<noteq> ''commit''" "record_file user md5 time name \<noteq> ''rollback''"
  by (simp_all add: select_count_def update_count_def record_file_def insert_user_file_def text_simps numeral_eq_Suc)

text \<open>The history of a counted reference: the count was read, one more was written, and the file was recorded.\<close>

definition took_reference :: "env \<Rightarrow> event list \<Rightarrow> string \<Rightarrow> string \<Rightarrow> string \<Rightarrow> event list \<Rightarrow> bool" where
  "took_reference E h user md5 name evs \<longleftrightarrow> (\<exists>t rs n time.
     evs = [Sql (select_count md5), Sql (update_count md5 (to_int (n + 1))), AskTime, Sql (record_file user md5 time name)] \<and>
     sql_result E (h @ [Sql (select_count md5)]) = Some t \<and> Next (new_result t) = (True, rs) \<and>
     GetInt rs ''count'' = Inr n \<and>
     sql_ok E (h @ [Sql (select_count md5), Sql (update_count md5 (to_int (n + 1)))]) \<and> sql_ok E (h @ evs))"

lemma take_reference_Inr:
  assumes "take_reference E user md5 name w = (Inr ok, w')"
  shows "\<exists>evs. w' = w\<lparr>history := history w @ evs\<rparr> \<and> ''commit'' \<notin> set (sqls evs) \<and> ''rollback'' \<notin> set (sqls evs) \<and>
    (ok \<longrightarrow> took_reference E (history w) user md5 name evs)"
proof -
  let ?sel = "''select count from file_info where md5 = '' @ quoted md5 @ '' for update''"
  from assms obtain ret n v where v: "GetResultOneCount E ?sel 0 w = (Inr (ret, n), v)"
    and rest: "(if ret \<noteq> - 1 \<and> ret \<noteq> 1 then
       bindA (sprintf_to SQL_MAX_LEN (''update file_info set count = '' @ fmt_d (to_int (n + 1)) @ '' where md5 = '' @ quoted md5)) (\<lambda>sql_cmd.
       bindA (ExecuteUpdate E sql_cmd False) (\<lambda>updated.
       if updated then
         bindA (ask AskTime (local_time E)) (\<lambda>time_str.
         bindA (snprintf_to SQL_MAX_LEN (insert_user_file user md5 time_str name)) (\<lambda>sql_cmd. ExecuteCreate E sql_cmd))
       else retA False))
     else retA False) v = (Inr ok, w')"
    unfolding take_reference_def by (auto simp: bindA_Inr sprintf_Inr)
  note c = count_Inr[OF v, folded select_count_def]
  show ?thesis
  proof (cases "ret = - 1 \<or> ret = 1")
    case True
    with rest c show ?thesis
      by (intro exI[of _ "[Sql (select_count md5)]"])
        (auto simp: retA_iff not_ends not_ends[symmetric])
  next
    case False
    let ?upd = "update_count md5 (to_int (n + 1))"
    from False rest obtain updated u where
      u: "u = v\<lparr>history := history v @ [Sql ?upd]\<rparr>" "updated \<longrightarrow> sql_ok E (history u)"
      and more: "(if updated then
         bindA (ask AskTime (local_time E)) (\<lambda>time_str.
         bindA (snprintf_to SQL_MAX_LEN (insert_user_file user md5 time_str name)) (\<lambda>sql_cmd. ExecuteCreate E sql_cmd))
       else retA False) u = (Inr ok, w')"
      by (auto simp: bindA_Inr sprintf_Inr update_count_def dest!: ExecuteUpdate_Inr)
    show ?thesis
    proof (cases updated)
      case True
      let ?time = "local_time E (history u @ [AskTime])"
      let ?evs = "[Sql (select_count md5), Sql ?upd, AskTime, Sql (record_file user md5 ?time name)]"
      from True more have w': "w' = u\<lparr>history := history u @ [AskTime, Sql (record_file user md5 ?time name)]\<rparr>"
        "ok = sql_ok E (history w')"
        by (auto simp: bindA_Inr ask_iff snprintf_to_def retA_iff ExecuteCreate_def query_Inr record_file_def SQL_MAX_LEN_def)
      have "w' = w\<lparr>history := history w @ ?evs\<rparr>" using w'(1) u(1) c by simp
      with c u True w'(2) False show ?thesis
        by (intro exI[of _ ?evs]) (auto simp: took_reference_def not_ends not_ends[symmetric])
    next
      case F: False
      with more u(1) c have "w' = w\<lparr>history := history w @ [Sql (select_count md5), Sql ?upd]\<rparr>" "\<not> ok"
        by (auto simp: retA_iff)
      then show ?thesis
        by (intro exI[of _ "[Sql (select_count md5), Sql ?upd]"]) (auto simp: not_ends not_ends[symmetric])
    qed
  qed
qed

lemma CheckwhetherHaveRecord_Inr:
  "CheckwhetherHaveRecord E q w = (Inr ret, w') \<Longrightarrow> w' = w\<lparr>history := history w @ [Sql (c_str q)]\<rparr>"
  by (auto simp: CheckwhetherHaveRecord_def invert ExecuteQuery_Inr split: option.splits)

lemma sql_texts_exist: "\<exists>text. encodeMd5Json E i = Inr text"
  by (simp add: encodeMd5Json_def encode_code_text)

text \<open>What \<open>handleDealMd5\<close> does before it looks at the first answer, and what follows that answer.\<close>

definition md5_opening :: "string \<Rightarrow> string \<Rightarrow> string \<Rightarrow> event list" where
  "md5_opening user md5 name = [GetDB ''tuchuang_master'', TookDB ''tuchuang_master'', Sql ''start transaction'',
     Sql (c_str (''select * from user_file_list where '' @ where_file user md5 name @ '' for update''))]"

definition md5_known :: "env \<Rightarrow> string \<Rightarrow> string \<Rightarrow> string \<Rightarrow> int \<Rightarrow> string act" where
  "md5_known E user md5 name ret =
     (if ret = 1 then
        bindA (liftA (encodeMd5Json E Md5FileExit)) (\<lambda>str_json. bindA (Commit E) (\<lambda>_. retA str_json))
      else
        bindA (take_reference E user md5 name) (\<lambda>succeed.
        if \<not> succeed then bindA (Rollback E) (\<lambda>_. liftA (encodeMd5Json E Md5Failed))
        else bindA (Commit E) (\<lambda>_. liftA (encodeMd5Json E Md5Ok))))"

lemma handleDealMd5_Inr:
  assumes "handleDealMd5 E user md5 name (idle_world h) = (Inr reply, w)"
  obtains ret v where "history w = history v @ [RelDB ''tuchuang_master'']"
    "md5_known E user md5 name ret \<lparr>history = h @ md5_opening user md5 name, has_db = True, cache_conn = None\<rparr> = (Inr reply, v)"
proof -
  let ?p = "''tuchuang_master''"
  let ?q = "''select * from user_file_list where '' @ where_file user md5 name @ '' for update''"
  obtain got v where v: "(bindA (StartTransaction E) (\<lambda>_.
       bindA (sprintf_to SQL_MAX_LEN ?q) (\<lambda>sql_cmd. bindA (CheckwhetherHaveRecord E sql_cmd) (md5_known E user md5 name))))
      ((idle_world h)\<lparr>history := h @ GetDB ?p # (if got then [TookDB ?p] else []), has_db := got\<rparr>) = (Inr reply, v)"
    "history w = history v @ (if got then [RelDB ?p] else [])"
    using assms unfolding handleDealMd5_def md5_known_def[abs_def]
    by (elim with_db_Inr) (auto simp: idle_world_def)
  then show thesis
    by (auto simp: bindA_Inr sprintf_Inr idle_world_def md5_opening_def intro: that
        dest!: transaction_Inr CheckwhetherHaveRecord_Inr)
qed

lemma reference_committed:
  assumes "took_reference E (h @ md5_opening user md5 name) user md5 name evs"
    "all = md5_opening user md5 name @ evs @ [Sql ''commit'', RelDB p]"
  shows "\<exists>q n time t rs pre post. sqls all = [''start transaction'', q, select_count md5, update_count md5 (to_int (n + 1)),
            record_file user md5 time name, ''commit''] \<and>
          all = pre @ Sql (select_count md5) # post \<and>
          sql_result E (h @ pre @ [Sql (select_count md5)]) = Some t \<and> Next (new_result t) = (True, rs) \<and>
          GetInt rs ''count'' = Inr n \<and>
          accepted E h all (update_count md5 (to_int (n + 1))) \<and> accepted E h all (record_file user md5 time name)"
proof -
  let ?o = "md5_opening user md5 name"
  from assms(1) obtain t rs n time where tk:
    "evs = [Sql (select_count md5), Sql (update_count md5 (to_int (n + 1))), AskTime, Sql (record_file user md5 time name)]"
    "sql_result E (h @ ?o @ [Sql (select_count md5)]) = Some t" "Next (new_result t) = (True, rs)"
    "GetInt rs ''count'' = Inr n"
    "sql_ok E (h @ ?o @ [Sql (select_count md5), Sql (update_count md5 (to_int (n + 1)))])" "sql_ok E (h @ ?o @ evs)"
    unfolding took_reference_def by auto
  have "accepted E h all (update_count md5 (to_int (n + 1)))"
    by (rule acceptedI[where pre = "?o @ [Sql (select_count md5)]"]) (use tk assms(2) in simp_all)
  moreover have "accepted E h all (record_file user md5 time name)"
    by (rule acceptedI[where pre = "?o @ [Sql (select_count md5), Sql (update_count md5 (to_int (n + 1))), AskTime]"])
      (use tk assms(2) in simp_all)
  moreover have "\<exists>q. sqls all = [''start transaction'', q, select_count md5, update_count md5 (to_int (n + 1)),
      record_file user md5 time name, ''commit'']" using tk(1) assms(2) by (simp add: md5_opening_def)
  moreover have "all = ?o @ Sql (select_count md5) # tl evs @ [Sql ''commit'', RelDB p]" using tk(1) assms(2) by simp
  ultimately show ?thesis using tk(2,3,4) by blast
qed


text \<open>A known file that the user does not have yet: the first query gives no row, the second one the count 3.\<close>

definition demo_known :: env where
  "demo_known = (demo ([''count''], [[Some ''3'']]) RNil)
     \<lparr>sql_result := (\<lambda>h. Some ([''count''], if length (sqls h) = 2 then [] else [[Some ''3'']]))\<rparr>"

lemma demo_md5_runs:
  "case handleDealMd5 demo_known ''u'' ''m'' ''f'' (idle_world []) of
     (Inr reply, w) \<Rightarrow> length (sqls (history w)) = 6 \<and> last (sqls (history w)) = ''commit'' | _ \<Rightarrow> False"
  by code_simp


section \<open>Checking the token first\<close>

definition silent :: "'a act \<Rightarrow> bool" where
  "silent m \<longleftrightarrow> (\<forall>w. \<exists>evs. history (snd (m w)) = history w @ evs \<and> sqls evs = [])"

named_theorems quiet

lemma silent_basic [quiet]:
  "silent (retA x)" "silent (liftA r)" "silent (failA f)" "silent (answer g)" "silent get_conn" "silent (put_conn c)"
  by (auto simp: silent_def retA_def liftA_def failA_def answer_def get_conn_def put_conn_def split: option.split)

lemma silent_emit: "sqls [ev] = [] \<Longrightarrow> silent (emit ev)"
  by (auto simp: silent_def emit_def)

lemma silent_bind [quiet]:
  assumes "silent m" "\<And>x. silent (f x)"
  shows "silent (bindA m f)"
  unfolding silent_def
proof
  fix w
  obtain r v where m: "m w = (r, v)" by fastforce
  with assms(1) obtain e where e: "history v = history w @ e" "sqls e = []" unfolding silent_def by (metis snd_conv)
  show "\<exists>evs. history (snd (bindA m f w)) = history w @ evs \<and> sqls evs = []"
  proof (cases r)
    case (Inr x)
    from assms(2)[of x] obtain e2 where "history (snd (f x v)) = history v @ e2" "sqls e2 = []"
      unfolding silent_def by blast
    with m e Inr show ?thesis by (simp add: bindA_def)
  qed (use m e in \<open>simp add: bindA_def\<close>)
qed

lemma silent_split [quiet]:
  "silent m \<Longrightarrow> silent n \<Longrightarrow> silent (if b then m else n)"
  "silent m \<Longrightarrow> (\<And>x. silent (g x)) \<Longrightarrow> silent (case o' of None \<Rightarrow> m | Some x \<Rightarrow> g x)"
  "silent m \<Longrightarrow> silent n \<Longrightarrow> silent (case b of True \<Rightarrow> m | False \<Rightarrow> n)"
  "(\<And>x y. silent (h x y)) \<Longrightarrow> silent (case p of (x, y) \<Rightarrow> h x y)"
  by (auto split: option.split prod.split bool.split)

lemma silent_cache [quiet]: "silent (send_command E ws)" "silent drop_context" "silent (set_context c)"
  unfolding send_command_def drop_context_def set_context_def ask_def
  by (rule quiet silent_emit | simp)+

lemma silent_Init [quiet]: "silent (Init E)"
  unfolding Init_def ask_def by (rule quiet silent_emit | simp)+

lemma silent_run:
  assumes "silent m" "m w = (r, w')"
  obtains evs where "history w' = history w @ evs" "sqls evs = []"
  using assms unfolding silent_def by (metis snd_conv)

text \<open>A call that does not give the default answered the command it sent.\<close>

lemma checked_call_Inr:
  assumes "checked_call E ws d f w = (Inr x, w')"
  shows "x = d \<or> (\<exists>r evs. history w' = history w @ evs @ [Redis ws] \<and> sqls evs = [] \<and>
    redis_reply E (history w') = Some r \<and> f r = Inr x)"
proof -
  from assms obtain failed v where v: "Init E w = (Inr failed, v)"
    "(if failed \<noteq> 0 then retA d
     else bindA (send_command E ws) (\<lambda>reply. case reply of
         None \<Rightarrow> bindA drop_context (\<lambda>_. retA d) | Some r \<Rightarrow> liftA (f r))) v = (Inr x, w')"
    unfolding checked_call_def by (auto simp: bindA_Inr[of "Init E"])
  obtain evs where evs: "history v = history w @ evs" "sqls evs = []" by (rule silent_run[OF silent_Init v(1)])
  show ?thesis
  proof (cases "x = d")
    case False
    with v(2) obtain r where "send_command E ws v = (Inr (Some r), w')" "f r = Inr x"
      by (auto simp: bindA_Inr retA_iff liftA_iff split: if_splits option.splits)
    then have "history w' = history v @ [Redis ws] \<and> redis_reply E (history w') = Some r"
      by (auto simp: send_command_def bindA_Inr get_conn_def retA_iff ask_iff failA_def split: option.splits if_splits)
    with evs \<open>f r = Inr x\<close> show ?thesis by auto
  qed simp
qed

definition token_checked :: "env \<Rightarrow> string \<Rightarrow> string \<Rightarrow> event list \<Rightarrow> event list \<Rightarrow> bool" where
  "token_checked E user token h evs \<longleftrightarrow>
     (\<exists>pre post. evs = pre @ Redis [''GET'', c_str user] # post \<and> sqls pre = [] \<and>
        redis_reply E (h @ pre @ [Redis [''GET'', c_str user]]) = Some (RString token))"

lemma VerifyToken_run:
  assumes "VerifyToken E user token w = (r, w')"
  shows "\<exists>evs. history w' = history w @ evs \<and> sqls evs = [] \<and>
    (case r of Inr x \<Rightarrow> x = - 1 \<or> x = 0 | Inl _ \<Rightarrow> True) \<and>
    (r = Inr (0 :: int) \<longrightarrow> token = [] \<or> token_checked E user token (history w) evs)"
proof -
  define got where "got = get_cache E (history w @ [GetCache ''token''])"
  define v where "v = w\<lparr>history := history w @ GetCache ''token'' # (if got \<noteq> None then [TookCache ''token''] else []), cache_conn := got\<rparr>"
  define fin where "fin = (\<lambda>w'' :: world. w''\<lparr>history := history w'' @ (if got \<noteq> None then [RelCache ''token''] else []), cache_conn := cache_conn w\<rparr>)"
  define body where "body = bindA (Get E user) (\<lambda>tmp_token. retA (if tmp_token = token then 0 else - 1 :: int))"
  have run: "leaving (if got = None then (Inr (- 1), v) else body v) fin = (r, w')"
    using assms unfolding VerifyToken_def body_def[symmetric]
    by (auto simp: with_cache_def bindA_def ask_def emit_def answer_def got_def v_def fin_def)
  show ?thesis
  proof (cases "got = None")
    case True
    with run show ?thesis by (auto simp: leaving_def fin_def v_def intro!: exI[of _ "[GetCache ''token'']"])
  next
    case False
    obtain x u where u: "body v = (x, u)" by fastforce
    have quiet_body: "silent body" unfolding body_def Get_def checked_call_def by (rule quiet)+
    obtain e where e: "history u = history v @ e" "sqls e = []" by (rule silent_run[OF quiet_body u])
    have r: "r = x" "w' = u \<or> w' = fin u"
      using run u False by (auto simp: leaving_cases split: if_splits)
    then obtain tail where w': "history w' = history w @ [GetCache ''token'', TookCache ''token''] @ e @ tail" "sqls tail = []"
      using e False by (auto simp: fin_def v_def)
    have "token = [] \<or> token_checked E user token (history w) ([GetCache ''token'', TookCache ''token''] @ e @ tail)" if "r = Inr 0"
    proof -
      from that u r obtain g where "Get E user v = (Inr token, u)"
        unfolding body_def by (auto simp: bindA_Inr retA_iff split: if_splits)
      from checked_call_Inr[OF this[unfolded Get_def]] consider "token = []"
        | q evs where "history u = history v @ evs @ [Redis [''GET'', c_str user]]" "sqls evs = []"
            "redis_reply E (history u) = Some q" "(case q of RString s \<Rightarrow> s | _ \<Rightarrow> []) = token" by auto
      then show ?thesis
      proof cases
        case 2
        show ?thesis
        proof (cases "token = []")
          case False
          with 2(4) have "q = RString token" by (auto split: resp.splits)
          with 2 e(1) \<open>got \<noteq> None\<close> show ?thesis unfolding token_checked_def
            by (intro disjI2 exI[of _ "[GetCache ''token'', TookCache ''token''] @ evs"] exI[of _ tail]) (auto simp: v_def)
        qed simp
      qed simp
    qed
    moreover have "case r of Inr x \<Rightarrow> x = - 1 \<or> x = 0 | Inl _ \<Rightarrow> True"
      using u r(1) by (auto simp: body_def bindA_Inr retA_iff split: sum.split)
    ultimately show ?thesis using w' e(2)
      by (intro exI[of _ "[GetCache ''token'', TookCache ''token''] @ e @ tail"]) simp
  qed
qed

text \<open>
  What the events of a request may be: no statement was sent, or the request names a user whose token was
  fetched from the cache before the first statement and was the one in the request (an empty token passes for a
  user the cache does not know).
\<close>

definition guarded :: "env \<Rightarrow> string \<Rightarrow> event list \<Rightarrow> event list \<Rightarrow> bool" where
  "guarded E post h evs \<longleftrightarrow> sqls evs = [] \<or>
     (\<exists>user token. decodeCountJson E post = Inr (Some [user, token]) \<and> (token = [] \<or> token_checked E user token h evs))"

definition guards :: "env \<Rightarrow> string \<Rightarrow> 'a act \<Rightarrow> bool" where
  "guards E post m \<longleftrightarrow>
     (\<forall>w. holds w idle \<longrightarrow> (\<exists>evs. history (snd (m w)) = history w @ evs \<and> guarded E post (history w) evs))"

lemma guards_silent: "silent m \<Longrightarrow> guards E post m"
  unfolding silent_def guards_def guarded_def by blast

lemma guards_lift: "(\<And>x. r = Inr x \<Longrightarrow> guards E post (f x)) \<Longrightarrow> guards E post (bindA (liftA r) f)"
  unfolding guards_def bindA_def liftA_def by (cases r) (auto simp: guarded_def)

lemma token_checked_append: "token_checked E user token h evs \<Longrightarrow> token_checked E user token h (evs @ rest)"
  unfolding token_checked_def by (metis append_Cons append_assoc)

lemma guards_VerifyToken:
  assumes "decodeCountJson E post = Inr (Some [user, token])"
    and refused: "silent (k (- 1))" and granted: "triple idle idle (k 0) idle"
  shows "guards E post (bindA (VerifyToken E user token) k)"
  unfolding guards_def
proof (intro allI impI)
  fix w assume idle: "holds w idle"
  obtain r v where v: "VerifyToken E user token w = (r, v)" by fastforce
  obtain evs where evs: "history v = history w @ evs" "sqls evs = []"
      "case r of Inr x \<Rightarrow> x = - 1 \<or> x = 0 | Inl _ \<Rightarrow> True"
      "r = Inr (0 :: int) \<longrightarrow> token = [] \<or> token_checked E user token (history w) evs"
    using VerifyToken_run[OF v] by blast
  from triple_VerifyToken[of idle E user token] idle have v_idle: "holds v idle" if "r = Inr x" for x
    using that v by (force simp: idle_def stops_def elim!: tripleE)
  consider (err) e where "r = Inl e" | (no) "r = Inr (- 1)" | (yes) "r = Inr 0" using evs(3) by (cases r) auto
  then show "\<exists>evs. history (snd (bindA (VerifyToken E user token) k w)) = history w @ evs \<and> guarded E post (history w) evs"
  proof cases
    case err
    with v evs show ?thesis by (auto simp: bindA_def guarded_def)
  next
    case no
    from refused obtain rest where "history (snd (k (- 1) v)) = history v @ rest" "sqls rest = []"
      unfolding silent_def by blast
    with no v evs show ?thesis by (auto simp: bindA_def guarded_def)
  next
    case yes
    from granted v_idle[OF yes] obtain rest where "history (snd (k 0 v)) = history v @ rest"
      unfolding triple_def by blast
    moreover from yes evs(4) have "token = [] \<or> token_checked E user token (history w) (evs @ rest)"
      using token_checked_append by blast
    ultimately show ?thesis using yes v evs(1) assms(1) by (auto simp: bindA_def guarded_def)
  qed
qed

lemma take_strings_Some:
  "take_strings d root (k # ks) = Inr (Some l) \<longleftrightarrow>
    (\<exists>root' v s ss. resolveReference root k = Inr (root', v) \<and> \<not> isNull v \<and> asString d v = Inr s \<and>
       take_strings d root' ks = Inr (Some ss) \<and> l = s # ss)"
  by (auto simp: bindR_def split: sum.splits prod.splits if_splits)

lemma take_strings_prefix:
  "take_strings d root (a # b # ks) = Inr (Some (x # y # xs)) \<Longrightarrow> take_strings d root [a, b] = Inr (Some [x, y])"
  by (auto simp: take_strings_Some simp del: take_strings.simps(2))

lemma decode_prefix:
  "parse d post = Inr (Some root) \<Longrightarrow> take_strings d root (a # b # ks) = Inr (Some (x # y # xs)) \<Longrightarrow>
    decode_strings d [a, b] post = Inr (Some [x, y])"
  "decode_strings d (a # b # ks) post = Inr (Some (x # y # xs)) \<Longrightarrow> decode_strings d [a, b] post = Inr (Some [x, y])"
  unfolding decode_strings_def
  by (auto simp: bindR_def simp del: take_strings.simps dest: take_strings_prefix split: sum.splits option.splits)

text \<open>A decoded request either has the shape asked for, or it is answered without a statement.\<close>

lemma guards_request:
  assumes "\<And>user token a b. x = Some [user, token, a, b] \<Longrightarrow> guards E post (f user token a b)" "silent bad"
  shows "guards E post (case x of Some [user, token, a, b] \<Rightarrow> f user token a b | _ \<Rightarrow> bad)"
  using assms by (auto intro: guards_silent split: option.split list.split)

lemma guards_request2:
  assumes "\<And>user token. x = Some [user, token] \<Longrightarrow> guards E post (f user token)" "silent bad"
  shows "guards E post (case x of Some [user, token] \<Rightarrow> f user token | _ \<Rightarrow> bad)"
  using assms by (auto intro: guards_silent split: option.split list.split)

lemma guards_verified:
  assumes "decodeCountJson E post = Inr (Some [user, token])" "silent bad" "triple idle idle good idle"
  shows "guards E post (bindA (VerifyToken E user token) (\<lambda>ret. if ret = 0 then good else bad))"
    and "guards E post (bindA (VerifyToken E user token) (\<lambda>ret. if ret < 0 then bad else good))"
  by (rule guards_VerifyToken; simp add: assms)+

lemma decoded:
  "decodeCountJson E post = Inr x \<Longrightarrow> x = Some [user, token] \<Longrightarrow> decodeCountJson E post = Inr (Some [user, token])"
  "decodeMd5Json E post = Inr x \<Longrightarrow> x = Some [user, token, md5, name] \<Longrightarrow>
    decodeCountJson E post = Inr (Some [user, token])"
  "parse (doubles E) post = Inr (Some root) \<Longrightarrow>
    take_strings (doubles E) root (''user'' # ''token'' # ks) = Inr x \<Longrightarrow> x = Some (user # token # xs) \<Longrightarrow>
    decodeCountJson E post = Inr (Some [user, token])"
  by (simp_all add: decodeMd5Json_def decodeCountJson_def decode_prefix del: take_strings.simps)

lemma guards_ApiMd5: "guards E post (ApiMd5 E post)"
  unfolding ApiMd5_def
  by (rule guards_lift guards_request guards_verified quiet triple_bind[OF triple_handleDealMd5] tr decoded(2) | assumption)+

lemma guards_root:
  "(\<And>root. x = Some root \<Longrightarrow> guards E post (f root)) \<Longrightarrow> silent bad \<Longrightarrow>
    guards E post (case x of None \<Rightarrow> bad | Some root \<Rightarrow> f root)"
  by (auto intro: guards_silent split: option.split)

lemma guards_cmd: "parse_cmd u = Inr cmd \<Longrightarrow> guards E post (f cmd) \<Longrightarrow> guards E post (bindA (liftA (parse_cmd u)) f)"
  by (rule guards_lift) simp

lemma silent_request [quiet]:
  "silent m \<Longrightarrow> (\<And>a b. silent (f a b)) \<Longrightarrow> silent (case x of Some [a, b] \<Rightarrow> f a b | _ \<Rightarrow> m)"
  by (auto split: option.split list.split)

lemma guards_parsed:
  "(\<And>root. parse (doubles E) post = Inr (Some root) \<Longrightarrow> guards E post (f root)) \<Longrightarrow> silent bad \<Longrightarrow>
    guards E post (bindA (liftA (parse (doubles E) post)) (\<lambda>r. case r of None \<Rightarrow> bad | Some root \<Rightarrow> f root))"
  by (rule guards_lift, rule guards_root) simp_all

lemmas guards_rules = guards_lift guards_request guards_request2 guards_verified quiet

lemma guards_ApiSharePicture:
  assumes "parse_cmd u = Inr cmd" "cmd = ''share'' \<or> cmd = ''normal''"
  shows "guards E post (ApiSharePicture E u post)"
  unfolding ApiSharePicture_def Let_def
  by (rule guards_cmd[OF assms(1)], rule guards_parsed; insert assms(2); elim disjE;
      (simp del: take_strings.simps take_ints.simps)?;
      (rule guards_rules triple_pictures tr decoded(3) | assumption)+)

lemma guards_decoded_files:
  assumes "decodeFileslistJson E post = Inr (Some ([user, token], is))"
  shows "decodeCountJson E post = Inr (Some [user, token])"
  using assms unfolding decodeFileslistJson_def decodeCountJson_def decode_strings_def
  by (auto simp: bindR_def simp del: take_strings.simps take_ints.simps split: sum.splits option.splits)

lemma guards_request_files:
  assumes "\<And>user token a b. x = Some ([user, token], [a, b]) \<Longrightarrow> guards E post (f user token a b)" "silent bad"
  shows "guards E post (case x of Some ([user, token], [a, b]) \<Rightarrow> f user token a b | _ \<Rightarrow> bad)"
  using assms by (auto intro: guards_silent split: option.split list.split)

lemma guards_if: "(c \<Longrightarrow> guards E post m) \<Longrightarrow> (\<not> c \<Longrightarrow> guards E post n) \<Longrightarrow> guards E post (if c then m else n)"
  by simp

lemma guards_ApiMyfiles: "guards E post (ApiMyfiles E u post)"
  unfolding ApiMyfiles_def Let_def
  by (rule guards_lift guards_if guards_request_files guards_request2 guards_verified triple_files tr | assumption |
      simp add: guards_decoded_files | rule quiet guards_silent)+

lemma bindA_assoc: "bindA (bindA m f) g = bindA m (\<lambda>x. bindA (f x) g)"
  by (auto simp: bindA_def split: sum.split prod.split)

lemma guards_deletion:
  assumes "decodeCountJson E post = Inr (Some [user, token])" "g False = bad" "silent bad" "g True = reply"
    "triple idle idle good idle" "triple idle idle reply idle"
  shows "guards E post (bindA (bindA (VerifyToken E user token)
    (\<lambda>ret. if ret < 0 then retA False else bindA good (\<lambda>_. retA True))) g)"
proof -
  have "bindA (retA x) g = g x" for x by (simp add: bindA_def retA_def fun_eq_iff)
  with assms show ?thesis unfolding bindA_assoc
    by (intro guards_VerifyToken) (auto simp: bindA_assoc intro!: triple_bind)
qed

lemma guards_ApiDealfile:
  assumes "parse_cmd u = Inr ''del''"
  shows "guards E post (ApiDealfile E c u post)"
  unfolding ApiDealfile_def
  by (intro guards_cmd[OF assms] guards_parsed; (simp del: take_strings.simps)?;
      (rule guards_lift guards_request guards_deletion triple_delete decoded(3) | assumption | simp only: if_True if_False simp_thms | rule quiet tr | simp)+)


text \<open>A request with the right token: statements are sent, so the token was checked.\<close>

definition demo_token_known :: env where
  "demo_token_known = demo_known\<lparr>redis_reply := (\<lambda>_. Some (RString ''t''))\<rparr>"

definition demo_post :: string where
  "demo_post = json_object [(''user'', ''u''), (''token'', ''t''), (''md5'', ''m''), (''filename'', ''f'')]"

lemma demo_post_runs:
  "sqls (history (snd (ApiMd5 demo_token_known demo_post (idle_world [])))) \<noteq> []"
  "decodeCountJson demo_token_known demo_post = Inr (Some [''u'', ''t''])"
  "parse_cmd ''cmd=del'' = Inr ''del''" "parse_cmd ''cmd=share'' = Inr ''share''"
  by code_simp+


end
