(* ===== verification/Pool.thy ===== *)
theory Pool
  imports Prelude
begin

text \<open>
  The two connection pools: \<open>CDBPool\<close> of src/mysql/db_pool.cc and \<open>CachePool\<close> of src/redis/cache_pool.cc.  Every
  operation runs under the mutex of the pool and is one function; a call that finds no connection may have to wait on
  the condition variable, and its code after the wait is a second function.  A pool in use is a step relation over the
  threads that sleep on the condition variable, the ones that were woken and the connections that are handed out.
\<close>

section \<open>The pool\<close>

text \<open>
  Connections are numbered in the order they are created.  \<open>cur_conn_cnt\<close> and \<open>max_conn_cnt\<close> are the fields
  \<open>db_cur_conn_cnt_\<close> and \<open>db_max_conn_cnt_\<close>, or \<open>cur_conn_cnt_\<close> and \<open>max_conn_cnt_\<close>.
\<close>

record pool =
  free_list :: "nat list"
  cur_conn_cnt :: int
  max_conn_cnt :: int
  abort_request :: bool
  next_conn :: nat

text \<open>What a call comes to: a connection, NULL, sleeping on the condition variable, or \<open>front\<close> of an empty list.\<close>

datatype answer = Conn nat | Null | Wait | Undefined

definition take_front :: "pool \<Rightarrow> answer \<times> pool" where
  "take_front p = (case free_list p of c # cs \<Rightarrow> (Conn c, p\<lparr>free_list := cs\<rparr>) | [] \<Rightarrow> (Undefined, p))"

subsection \<open>src/mysql/db_pool.cc\<close>

definition MIN_DB_CONN_CNT :: int where "MIN_DB_CONN_CNT = 1"

definition CDBPool :: "int \<Rightarrow> pool" where
  "CDBPool cap = \<lparr>free_list = [], cur_conn_cnt = MIN_DB_CONN_CNT, max_conn_cnt = cap, abort_request = False, next_conn = 0\<rparr>"

text \<open>\<open>oks\<close> tells which of the connections opened in a row succeed.\<close>

fun open_all :: "bool list \<Rightarrow> pool \<Rightarrow> bool \<times> pool" where
  "open_all [] p = (True, p)"
| "open_all (ok # oks) p =
     (if \<not> ok then (False, p)
      else open_all oks (p\<lparr>free_list := free_list p @ [next_conn p], next_conn := next_conn p + 1\<rparr>))"

definition CDBPool_Init :: "(nat \<Rightarrow> bool) \<Rightarrow> pool \<Rightarrow> bool \<times> pool" where
  "CDBPool_Init ok p = open_all (map ok [0..<nat (cur_conn_cnt p)]) p"

text \<open>\<open>cond_var_.wait\<close> or \<open>wait_for\<close> and what follows; \<open>late\<close> when the time is over.\<close>

definition CDBPool_wait :: "int \<Rightarrow> bool \<Rightarrow> pool \<Rightarrow> answer \<times> pool" where
  "CDBPool_wait timeout_ms late p =
     (if (free_list p = [] \<and> \<not> abort_request p) \<and> (timeout_ms \<le> 0 \<or> \<not> late) then (Wait, p)
      else if timeout_ms > 0 \<and> free_list p = [] then (Null, p)
      else if abort_request p then (Null, p)
      else take_front p)"

text \<open>\<open>ok\<close> tells whether a new connection can be opened, should one be needed.\<close>

definition CDBPool_GetDBConn :: "bool \<Rightarrow> int \<Rightarrow> pool \<Rightarrow> answer \<times> pool" where
  "CDBPool_GetDBConn ok timeout_ms p =
     (if abort_request p then (Null, p)
      else if free_list p = [] then
        if cur_conn_cnt p \<ge> max_conn_cnt p then CDBPool_wait timeout_ms False p
        else if \<not> ok then (Null, p)
        else take_front (p\<lparr>free_list := free_list p @ [next_conn p], next_conn := next_conn p + 1,
                           cur_conn_cnt := cur_conn_cnt p + 1\<rparr>)
      else take_front p)"

text \<open>\<open>True\<close> when a sleeping thread is notified.\<close>

definition CDBPool_RelDBConn :: "nat \<Rightarrow> pool \<Rightarrow> bool \<times> pool" where
  "CDBPool_RelDBConn c p =
     (if c \<notin> set (free_list p) then (True, p\<lparr>free_list := free_list p @ [c]\<rparr>) else (False, p))"

definition CDBPool_delete :: "pool \<Rightarrow> pool" where
  "CDBPool_delete p = p\<lparr>abort_request := True, free_list := []\<rparr>"

subsection \<open>src/redis/cache_pool.cc\<close>

definition MIN_CACHE_CONN_CNT :: int where "MIN_CACHE_CONN_CNT = 2"

definition CachePool :: "int \<Rightarrow> pool" where
  "CachePool cap = \<lparr>free_list = [], cur_conn_cnt = MIN_CACHE_CONN_CNT, max_conn_cnt = cap, abort_request = False, next_conn = 0\<rparr>"

definition CachePool_Init :: "(nat \<Rightarrow> bool) \<Rightarrow> pool \<Rightarrow> bool \<times> pool" where
  "CachePool_Init ok p = open_all (map ok [0..<nat (cur_conn_cnt p)]) p"

definition CachePool_wait :: "int \<Rightarrow> bool \<Rightarrow> pool \<Rightarrow> answer \<times> pool" where
  "CachePool_wait timeout_ms late p =
     (if timeout_ms \<le> 0 then
        if free_list p \<noteq> [] \<or> abort_request p then if abort_request p then (Null, p) else take_front p
        else (Wait, p)
      else if free_list p = [] \<and> \<not> abort_request p \<and> \<not> late then (Wait, p)
      else if free_list p = [] then (Null, p)
      else if abort_request p then (Null, p)
      else take_front p)"

definition CachePool_GetCacheConn :: "bool \<Rightarrow> int \<Rightarrow> pool \<Rightarrow> answer \<times> pool" where
  "CachePool_GetCacheConn ok timeout_ms p =
     (if abort_request p then (Null, p)
      else if free_list p \<noteq> [] then take_front p
      else if cur_conn_cnt p \<ge> max_conn_cnt p then CachePool_wait timeout_ms False p
      else if ok then take_front (p\<lparr>free_list := [next_conn p], next_conn := next_conn p + 1,
                                   cur_conn_cnt := cur_conn_cnt p + 1\<rparr>)
      else (Null, p))"

definition CachePool_RelCacheConn :: "nat \<Rightarrow> pool \<Rightarrow> bool \<times> pool" where
  "CachePool_RelCacheConn c p =
     (if c \<in> set (free_list p) then (False, p) else (True, p\<lparr>free_list := free_list p @ [c]\<rparr>))"

definition CachePool_delete :: "pool \<Rightarrow> pool" where
  "CachePool_delete p = p\<lparr>abort_request := True, free_list := [], cur_conn_cnt := 0\<rparr>"

section \<open>A pool in use\<close>

text \<open>
  Threads are numbered; a sleeping one is listed with its time limit.  \<open>held\<close> lists who has which connection,
  \<open>refused\<close> the calls that were answered with NULL.
\<close>

record sys =
  the_pool :: pool
  asleep :: "(nat \<times> int) list"
  woken :: "(nat \<times> int) list"
  held :: "(nat \<times> nat) list"
  refused :: "(nat \<times> int) list"

definition deliver :: "nat \<times> int \<Rightarrow> answer \<times> pool \<Rightarrow> sys \<Rightarrow> sys" where
  "deliver t r s =
     (let s = s\<lparr>the_pool := snd r\<rparr> in
      case fst r of
        Conn c \<Rightarrow> s\<lparr>held := (fst t, c) # held s\<rparr>
      | Wait \<Rightarrow> s\<lparr>asleep := t # asleep s\<rparr>
      | Null \<Rightarrow> s\<lparr>refused := t # refused s\<rparr>
      | Undefined \<Rightarrow> s)"

text \<open>
  The steps that finish what was begun: a woken thread goes on, a time limit passes, a connection is given back and
  \<open>notify_one\<close> wakes one sleeping thread, any of them.
\<close>

inductive finish :: "(int \<Rightarrow> bool \<Rightarrow> pool \<Rightarrow> answer \<times> pool) \<Rightarrow> (nat \<Rightarrow> pool \<Rightarrow> bool \<times> pool) \<Rightarrow> sys \<Rightarrow> sys \<Rightarrow> bool"
  for wait rel where
  resume: "t \<in> set (woken s) \<Longrightarrow> finish wait rel s
     (deliver t (wait (snd t) False (the_pool s)) (s\<lparr>woken := remove1 t (woken s)\<rparr>))"
| late: "t \<in> set (woken s) \<Longrightarrow> 0 < snd t \<Longrightarrow> finish wait rel s
     (deliver t (wait (snd t) True (the_pool s)) (s\<lparr>woken := remove1 t (woken s)\<rparr>))"
| timeout: "t \<in> set (asleep s) \<Longrightarrow> 0 < snd t \<Longrightarrow> finish wait rel s
     (deliver t (wait (snd t) True (the_pool s)) (s\<lparr>asleep := remove1 t (asleep s)\<rparr>))"
| release: "(t, c) \<in> set (held s) \<Longrightarrow> rel c (the_pool s) = (notify, p) \<Longrightarrow> \<not> notify \<or> asleep s = [] \<Longrightarrow>
     finish wait rel s (s\<lparr>the_pool := p, held := remove1 (t, c) (held s)\<rparr>)"
| release_notify: "(t, c) \<in> set (held s) \<Longrightarrow> rel c (the_pool s) = (True, p) \<Longrightarrow> x \<in> set (asleep s) \<Longrightarrow>
     finish wait rel s (s\<lparr>the_pool := p, held := remove1 (t, c) (held s),
       asleep := remove1 x (asleep s), woken := x # woken s\<rparr>)"

text \<open>All steps: also new calls, spurious wake-ups and the destructor, which notifies every sleeping thread.\<close>

inductive pool_step ::
  "(bool \<Rightarrow> int \<Rightarrow> pool \<Rightarrow> answer \<times> pool) \<Rightarrow> (int \<Rightarrow> bool \<Rightarrow> pool \<Rightarrow> answer \<times> pool) \<Rightarrow>
   (nat \<Rightarrow> pool \<Rightarrow> bool \<times> pool) \<Rightarrow> (pool \<Rightarrow> pool) \<Rightarrow> sys \<Rightarrow> sys \<Rightarrow> bool"
  for get wait rel del where
  finish: "finish wait rel s s' \<Longrightarrow> pool_step get wait rel del s s'"
| call: "pool_step get wait rel del s (deliver (t, ms) (get ok ms (the_pool s)) s)"
| spurious: "x \<in> set (asleep s) \<Longrightarrow>
     pool_step get wait rel del s (s\<lparr>asleep := remove1 x (asleep s), woken := x # woken s\<rparr>)"
| delete: "pool_step get wait rel del s (s\<lparr>the_pool := del (the_pool s), asleep := [], woken := asleep s @ woken s\<rparr>)"

definition idle_pool :: "pool \<Rightarrow> sys" where
  "idle_pool p = \<lparr>the_pool = p, asleep = [], woken = [], held = [], refused = []\<rparr>"

section \<open>The contract of a pool\<close>

text \<open>
  \<open>sound\<close>: a connection that is free is not handed out, nobody shares one, none is lost.  \<open>alert\<close>: while threads
  sleep there is a woken one for every free connection, so no wake-up is lost.
\<close>

definition conns :: "sys \<Rightarrow> nat list" where
  "conns s = free_list (the_pool s) @ map snd (held s)"

definition sound :: "sys \<Rightarrow> bool" where
  "sound s \<longleftrightarrow> distinct (conns s) \<and> (\<forall>c\<in>set (conns s). c < next_conn (the_pool s)) \<and>
     (\<not> abort_request (the_pool s) \<longrightarrow>
        int (length (conns s)) = cur_conn_cnt (the_pool s) \<and> 0 < cur_conn_cnt (the_pool s))"

definition alert :: "sys \<Rightarrow> bool" where
  "alert s \<longleftrightarrow> asleep s = [] \<or> \<not> abort_request (the_pool s) \<and> length (free_list (the_pool s)) \<le> length (woken s)"

definition bounded :: "int \<Rightarrow> sys \<Rightarrow> bool" where
  "bounded M s \<longleftrightarrow> max_conn_cnt (the_pool s) \<le> M \<and> (\<not> abort_request (the_pool s) \<longrightarrow> cur_conn_cnt (the_pool s) \<le> M)"

text \<open>What \<open>get\<close> and the code after the wait may do, as one relation between pools.\<close>

definition handed :: "answer \<times> pool \<Rightarrow> pool \<Rightarrow> bool" where
  "handed r p \<longleftrightarrow> (case r of
       (Conn c, q) \<Rightarrow> \<not> abort_request p \<and>
         ((\<exists>cs. free_list p = c # cs \<and> q = p\<lparr>free_list := cs\<rparr>) \<or>
          free_list p = [] \<and> cur_conn_cnt p < max_conn_cnt p \<and> c = next_conn p \<and>
          q = p\<lparr>next_conn := next_conn p + 1, cur_conn_cnt := cur_conn_cnt p + 1\<rparr>)
     | (Wait, q) \<Rightarrow> q = p \<and> free_list p = [] \<and> \<not> abort_request p
     | (Null, q) \<Rightarrow> q = p \<and> (free_list p = [] \<or> abort_request p)
     | (Undefined, q) \<Rightarrow> False)"

lemma handed_cases:
  assumes "handed r p"
  obtains (reuse) c cs where "r = (Conn c, p\<lparr>free_list := cs\<rparr>)" "free_list p = c # cs" "\<not> abort_request p"
    | (fresh) "r = (Conn (next_conn p), p\<lparr>next_conn := next_conn p + 1, cur_conn_cnt := cur_conn_cnt p + 1\<rparr>)"
        "free_list p = []" "cur_conn_cnt p < max_conn_cnt p" "\<not> abort_request p"
    | (wait) "r = (Wait, p)" "free_list p = []" "\<not> abort_request p"
    | (null) "r = (Null, p)" "free_list p = [] \<or> abort_request p"
  using assms unfolding handed_def by (cases r; cases "fst r") auto

lemma deliver_simps [simp]:
  "deliver t (Conn c, q) s = s\<lparr>the_pool := q, held := (fst t, c) # held s\<rparr>"
  "deliver t (Wait, q) s = s\<lparr>the_pool := q, asleep := t # asleep s\<rparr>"
  "deliver t (Null, q) s = s\<lparr>the_pool := q, refused := t # refused s\<rparr>"
  by (simp_all add: deliver_def Let_def)

lemma handed_deliver:
  assumes "handed r (the_pool s)" "sound s"
  shows "sound (deliver t r s)"
  using assms(1)
proof (cases rule: handed_cases)
  case (reuse c cs)
  with assms(2) show ?thesis by (auto simp: sound_def conns_def)
next
  case fresh
  then have "next_conn (the_pool s) \<notin> set (map snd (held s))" using assms(2) by (auto simp: sound_def conns_def)
  with fresh assms(2) show ?thesis by (auto simp: sound_def conns_def less_Suc_eq)
qed (use assms(2) in \<open>simp_all add: sound_def conns_def\<close>)

lemma map_remove1_inj:
  "distinct (map f xs) \<Longrightarrow> x \<in> set xs \<Longrightarrow> map f (remove1 x xs) = remove1 (f x) (map f xs)"
  by (induction xs) (auto simp: rev_image_eqI)

lemma give_back:
  assumes "distinct (L @ H)" "c \<in> set H"
  shows "distinct ((L @ [c]) @ remove1 c H)" "set ((L @ [c]) @ remove1 c H) = set (L @ H)"
    "length ((L @ [c]) @ remove1 c H) = length (L @ H)"
  using assms length_pos_if_in_set[of c H] by (auto simp: length_remove1)

locale conn_pool =
  fixes get :: "bool \<Rightarrow> int \<Rightarrow> pool \<Rightarrow> answer \<times> pool"
    and wait :: "int \<Rightarrow> bool \<Rightarrow> pool \<Rightarrow> answer \<times> pool"
    and rel :: "nat \<Rightarrow> pool \<Rightarrow> bool \<times> pool"
    and del :: "pool \<Rightarrow> pool"
  assumes get_law: "handed (get ok ms p) p"
    and wait_law: "handed (wait ms late p) p" "cur_conn_cnt (snd (wait ms late p)) = cur_conn_cnt p"
      "fst (wait ms late p) = Wait \<Longrightarrow> late \<Longrightarrow> ms \<le> 0"
      "fst (wait ms late p) = Null \<Longrightarrow> \<not> abort_request p \<Longrightarrow> late \<and> 0 < ms"
    and rel_law: "c \<notin> set (free_list p) \<Longrightarrow> rel c p = (True, p\<lparr>free_list := free_list p @ [c]\<rparr>)"
    and del_law: "abort_request (del p)" "free_list (del p) = []" "next_conn (del p) = next_conn p"
      "max_conn_cnt (del p) = max_conn_cnt p"
begin

lemma sound_release:
  assumes "(t, c) \<in> set (held s)" "rel c (the_pool s) = (notify, p)" "sound s"
  shows "notify" and "p = (the_pool s)\<lparr>free_list := free_list (the_pool s) @ [c]\<rparr>"
    and "sound (s\<lparr>the_pool := p, held := remove1 (t, c) (held s)\<rparr>)"
proof -
  from imageI[OF assms(1), of snd] have held: "c \<in> set (map snd (held s))" by simp
  moreover from assms(3) have "distinct (free_list (the_pool s) @ map snd (held s))" by (simp add: sound_def conns_def)
  ultimately have free: "c \<notin> set (free_list (the_pool s))" unfolding distinct_append by blast
  note c = free held
  then show n: "notify" and p: "p = (the_pool s)\<lparr>free_list := free_list (the_pool s) @ [c]\<rparr>"
    using rel_law[of c "the_pool s"] assms(2) by auto
  have d: "distinct (map snd (held s))" using assms(3) by (simp add: sound_def conns_def)
  have r: "map snd (remove1 (t, c) (held s)) = remove1 c (map snd (held s))"
    using map_remove1_inj[OF d assms(1)] by simp
  have n: "conns (s\<lparr>the_pool := p, held := remove1 (t, c) (held s)\<rparr>) =
    (free_list (the_pool s) @ [c]) @ remove1 c (map snd (held s))"
    using r p by (simp add: conns_def)
  have d: "distinct (free_list (the_pool s) @ map snd (held s))" using assms(3) by (simp add: sound_def conns_def)
  note b = give_back[OF d c(2)]
  show "sound (s\<lparr>the_pool := p, held := remove1 (t, c) (held s)\<rparr>)"
    unfolding sound_def n b(2) b(3) using assms(3) b(1) p by (simp add: sound_def conns_def)
qed

lemma resume_alert:
  assumes "alert s" "t \<in> set (woken s)"
  shows "alert (deliver t (wait ms late (the_pool s)) (s\<lparr>woken := remove1 t (woken s)\<rparr>))"
proof -
  have "0 < length (woken s)" using assms(2) by auto
  with wait_law(1)[of ms late "the_pool s"] wait_law(2)[of ms late "the_pool s"] assms show ?thesis
    by (cases rule: handed_cases) (auto simp: alert_def length_remove1)
qed

lemma finish_sound:
  assumes "finish wait rel s s'" "sound s" "alert s"
  shows "sound s' \<and> alert s'"
  using assms
proof cases
  case (resume t)
  have "sound (s\<lparr>woken := remove1 t (woken s)\<rparr>)" using assms(2) by (simp add: sound_def conns_def)
  then have "sound s'" unfolding resume(1) by (intro handed_deliver) (simp_all add: wait_law)
  moreover have "alert s'" unfolding resume(1) by (rule resume_alert[OF assms(3) resume(2)])
  ultimately show ?thesis by simp
next
  case (late t)
  have "sound (s\<lparr>woken := remove1 t (woken s)\<rparr>)" using assms(2) by (simp add: sound_def conns_def)
  then have "sound s'" unfolding late(1) by (intro handed_deliver) (simp_all add: wait_law)
  moreover have "alert s'" unfolding late(1) by (rule resume_alert[OF assms(3) late(2)])
  ultimately show ?thesis by simp
next
  case (timeout t)
  let ?u = "s\<lparr>asleep := remove1 t (asleep s)\<rparr>" and ?r = "wait (snd t) True (the_pool s)"
  have "sound ?u" using assms(2) by (simp add: sound_def conns_def)
  then have "sound s'" unfolding timeout(1) by (intro handed_deliver) (simp_all add: wait_law)
  moreover have "alert s'"
    using wait_law(1)[of "snd t" True "the_pool s"] wait_law(2,3)[of "snd t" True "the_pool s"] timeout assms(3)
    by (cases rule: handed_cases) (auto simp: alert_def)
  ultimately show ?thesis by simp
next
  case (release t c notify p)
  from sound_release[OF release(2,3) assms(2)] release(1,4) assms(3) show ?thesis
    by (auto simp: alert_def)
next
  case (release_notify t c p x)
  from sound_release[OF release_notify(2,3) assms(2)] have s1: "sound (s\<lparr>the_pool := p, held := remove1 (t, c) (held s)\<rparr>)"
    "p = (the_pool s)\<lparr>free_list := free_list (the_pool s) @ [c]\<rparr>" by simp_all
  then have "sound s'" unfolding release_notify(1) by (simp add: sound_def conns_def)
  moreover have "alert s'" unfolding release_notify(1) using assms(3) release_notify(4) s1(2)
    by (auto simp: alert_def)
  ultimately show ?thesis by simp
qed

lemma step_sound:
  assumes "pool_step get wait rel del s s'" "sound s" "alert s"
  shows "sound s' \<and> alert s'"
  using assms
proof cases
  case finish
  then show ?thesis using finish_sound assms by blast
next
  case (call t ms ok)
  have "sound s'" unfolding call using handed_deliver[OF get_law assms(2)] .
  moreover have "alert s'" unfolding call
    using get_law[of ok ms "the_pool s"] assms(3)
    by (cases rule: handed_cases) (auto simp: alert_def)
  ultimately show ?thesis by simp
next
  case (spurious x)
  then show ?thesis using assms by (auto simp: sound_def conns_def alert_def)
next
  case delete
  then show ?thesis using assms(2) by (auto simp: sound_def conns_def alert_def del_law)
qed

lemma run_sound:
  "(pool_step get wait rel del)\<^sup>*\<^sup>* s s' \<Longrightarrow> sound s \<Longrightarrow> alert s \<Longrightarrow> sound s' \<and> alert s'"
  by (induction rule: rtranclp_induct) (auto dest: step_sound)

lemma deliver_bounded:
  "handed r (the_pool s) \<Longrightarrow> bounded M s \<Longrightarrow> bounded M (deliver t r u)"
  by (cases r rule: handed_cases) (auto simp: bounded_def)

lemma step_bounded:
  assumes "pool_step get wait rel del s s'" "sound s" "bounded M s"
  shows "bounded M s'"
  using assms(1)
proof cases
  case finish
  then show ?thesis
  proof cases
    case (release t c notify p)
    with sound_release(2)[OF release(2,3) assms(2)] assms(3) show ?thesis by (simp add: bounded_def)
  next
    case (release_notify t c p x)
    with sound_release(2)[OF release_notify(2,3) assms(2)] assms(3) show ?thesis by (simp add: bounded_def)
  qed (simp_all only: deliver_bounded[OF wait_law(1) assms(3)])
next
  case (call t ms ok)
  then show ?thesis by (simp only: deliver_bounded[OF get_law assms(3)])
qed (use assms(3) in \<open>simp_all add: bounded_def del_law\<close>)

lemma run_bounded:
  "(pool_step get wait rel del)\<^sup>*\<^sup>* s s' \<Longrightarrow> sound s \<Longrightarrow> alert s \<Longrightarrow> bounded M s \<Longrightarrow> bounded M s'"
  by (induction rule: rtranclp_induct) (auto dest: step_bounded run_sound)

text \<open>The steps that finish something cannot go on for ever.\<close>

definition pending :: "sys \<Rightarrow> nat \<times> nat \<times> nat" where
  "pending s = (length (asleep s) + length (woken s), length (held s), length (woken s))"

lemma finish_pending:
  assumes "finish wait rel s s'"
  shows "(pending s', pending s) \<in> less_than <*lex*> less_than <*lex*> less_than"
  using assms
proof cases
  case (resume t)
  from resume(2) have "0 < length (woken s)" by auto
  with wait_law(1)[of "snd t" False "the_pool s"] resume show ?thesis
    by (cases rule: handed_cases) (auto simp: pending_def length_remove1)
next
  case (late t)
  from late(2) have "0 < length (woken s)" by auto
  with wait_law(1)[of "snd t" True "the_pool s"] wait_law(3)[of "snd t" True "the_pool s"] late show ?thesis
    by (cases rule: handed_cases) (auto simp: pending_def length_remove1)
next
  case (timeout t)
  from timeout(2) have "0 < length (asleep s)" by auto
  with wait_law(1)[of "snd t" True "the_pool s"] wait_law(3)[of "snd t" True "the_pool s"] timeout show ?thesis
    by (cases rule: handed_cases) (auto simp: pending_def length_remove1)
next
  case (release t c notify p)
  from release(2) have "0 < length (held s)" by auto
  with release show ?thesis by (simp add: pending_def length_remove1)
next
  case (release_notify t c p x)
  from release_notify(2,4) have "0 < length (held s)" "0 < length (asleep s)" by auto
  with release_notify show ?thesis by (simp add: pending_def length_remove1)
qed

lemma finish_terminates: "wf {(s', s). finish wait rel s s'}"
  by (rule wf_subset[OF wf_inv_image[of "less_than <*lex*> less_than <*lex*> less_than" pending]])
    (auto simp: wf_less_than wf_lex_prod inv_image_def dest: finish_pending)

text \<open>Where no such step is left, nobody sleeps any more.\<close>

lemma finished:
  assumes "sound s" "alert s" "\<nexists>s'. finish wait rel s s'"
  shows "asleep s = [] \<and> woken s = [] \<and> held s = []"
proof -
  have w: "woken s = []" using assms(3) resume[of "hd (woken s)" s wait rel] by (cases "woken s") auto
  have h: "held s = []"
  proof (rule ccontr)
    assume "held s \<noteq> []"
    then obtain t c where tc: "(t, c) \<in> set (held s)" by (cases "held s") auto
    obtain n p where r: "rel c (the_pool s) = (n, p)" by fastforce
    from sound_release(1)[OF tc r assms(1)] have "n" .
    with tc r assms(3) show False
      using release[of t c s rel n p] release_notify[of t c s rel p "hd (asleep s)"] by (cases "asleep s") auto
  qed
  have "asleep s = []"
  proof (rule ccontr)
    assume "asleep s \<noteq> []"
    with assms(2) w have "free_list (the_pool s) = []" "\<not> abort_request (the_pool s)" by (auto simp: alert_def)
    with assms(1) h show False by (auto simp: sound_def conns_def)
  qed
  with w h show ?thesis by simp
qed

text \<open>Until then only calls with a time limit are refused.\<close>

lemma finish_refused:
  assumes "(finish wait rel)\<^sup>*\<^sup>* s s'" "\<not> abort_request (the_pool s)" "sound s" "alert s"
  shows "\<not> abort_request (the_pool s') \<and> (\<exists>new. refused s' = new @ refused s \<and> (\<forall>t\<in>set new. 0 < snd t)) \<and>
    sound s' \<and> alert s'"
  using assms
proof (induction rule: rtranclp_induct)
  case (step u v)
  then obtain new where u: "\<not> abort_request (the_pool u)" "refused u = new @ refused s" "\<forall>t\<in>set new. 0 < snd t"
    "sound u" "alert u" by blast
  have one: "\<not> abort_request (the_pool v) \<and> (refused v = refused u \<or> (\<exists>t. refused v = t # refused u \<and> 0 < snd t))"
    if "v = deliver t (wait (snd t) late (the_pool u)) u'" "the_pool u' = the_pool u" "refused u' = refused u" for t late u'
    using wait_law(1)[of "snd t" late "the_pool u"] wait_law(4)[of "snd t" late "the_pool u"] u(1) that
    by (cases rule: handed_cases) auto
  from step(2) have nxt: "\<not> abort_request (the_pool v) \<and> (refused v = refused u \<or> (\<exists>t. refused v = t # refused u \<and> 0 < snd t))"
  proof cases
    case (resume t)
    show ?thesis by (rule one[OF resume(1)]) simp_all
  next
    case (late t)
    show ?thesis by (rule one[OF late(1)]) simp_all
  next
    case (timeout t)
    show ?thesis by (rule one[OF timeout(1)]) simp_all
  next
    case (release t c notify p)
    with sound_release(2)[OF release(2,3) u(4)] u(1) show ?thesis by simp
  next
    case (release_notify t c p x)
    with sound_release(2)[OF release_notify(2,3) u(4)] u(1) show ?thesis by simp
  qed
  then obtain ts where "refused v = ts @ refused u" "\<forall>t\<in>set ts. 0 < snd t"
    by (metis append_Cons append_Nil empty_iff list.set(1) set_ConsD)
  with u(2,3) have "\<exists>new. refused v = new @ refused s \<and> (\<forall>t\<in>set new. 0 < snd t)"
    by (intro exI[of _ "ts @ new"]) auto
  with nxt finish_sound[OF step(2) u(4,5)] show ?case by blast
qed simp

end

section \<open>Both pools keep it\<close>

lemma take_front_handed: "\<not> abort_request p \<Longrightarrow> free_list p \<noteq> [] \<Longrightarrow> handed (take_front p) p"
  by (auto simp: take_front_def handed_def split: list.split)

lemma handed_pair [simp]:
  "handed (Null, p) p \<longleftrightarrow> free_list p = [] \<or> abort_request p"
  "handed (Wait, p) p \<longleftrightarrow> free_list p = [] \<and> \<not> abort_request p"
  by (simp_all add: handed_def)

lemma take_new_handed:
  "\<not> abort_request p \<Longrightarrow> free_list p = [] \<Longrightarrow> cur_conn_cnt p < max_conn_cnt p \<Longrightarrow>
    handed (take_front (p\<lparr>free_list := [next_conn p], next_conn := next_conn p + 1, cur_conn_cnt := cur_conn_cnt p + 1\<rparr>)) p"
  by (auto simp: take_front_def handed_def)

lemma take_front_simps [simp]:
  "cur_conn_cnt (snd (take_front p)) = cur_conn_cnt p" "fst (take_front p) \<noteq> Wait" "fst (take_front p) \<noteq> Null"
  by (auto simp: take_front_def split: list.split)

lemma CDBPool_wait_handed: "handed (CDBPool_wait ms late p) p"
  unfolding CDBPool_wait_def by (auto intro: take_front_handed)

lemma CachePool_wait_handed: "handed (CachePool_wait ms late p) p"
  unfolding CachePool_wait_def by (auto intro: take_front_handed)

interpretation db: conn_pool CDBPool_GetDBConn CDBPool_wait CDBPool_RelDBConn CDBPool_delete
proof
  show "handed (CDBPool_GetDBConn ok ms p) p" for ok ms p
    unfolding CDBPool_GetDBConn_def
    by (auto intro: take_front_handed take_new_handed[simplified] CDBPool_wait_handed)
qed (auto simp: CDBPool_wait_handed CDBPool_RelDBConn_def CDBPool_delete_def, auto simp: CDBPool_wait_def split: if_splits)

interpretation redis: conn_pool CachePool_GetCacheConn CachePool_wait CachePool_RelCacheConn CachePool_delete
proof
  show "handed (CachePool_GetCacheConn ok ms p) p" for ok ms p
    unfolding CachePool_GetCacheConn_def
    by (auto intro: take_front_handed take_new_handed[simplified] CachePool_wait_handed)
qed (auto simp: CachePool_wait_handed CachePool_RelCacheConn_def CachePool_delete_def, auto simp: CachePool_wait_def split: if_splits)

section \<open>The pools in use\<close>

abbreviation db_step :: "sys \<Rightarrow> sys \<Rightarrow> bool" where
  "db_step \<equiv> pool_step CDBPool_GetDBConn CDBPool_wait CDBPool_RelDBConn CDBPool_delete"

abbreviation cache_step :: "sys \<Rightarrow> sys \<Rightarrow> bool" where
  "cache_step \<equiv> pool_step CachePool_GetCacheConn CachePool_wait CachePool_RelCacheConn CachePool_delete"

lemma open_all_new:
  "open_all oks p = (True, q) \<Longrightarrow> q = p\<lparr>free_list := free_list p @ [next_conn p..<next_conn p + length oks], next_conn := next_conn p + length oks\<rparr>"
proof (induction oks arbitrary: p)
  case (Cons ok oks)
  then have f: "open_all oks (p\<lparr>free_list := free_list p @ [next_conn p], next_conn := next_conn p + 1\<rparr>) = (True, q)"
    by (auto split: if_splits)
  have "[next_conn p..<next_conn p + length (ok # oks)] = next_conn p # [next_conn p + 1..<next_conn p + 1 + length oks]"
    by (subst upt_conv_Cons) simp_all
  with Cons.IH[OF f] show ?case by (simp del: upt_Suc)
qed simp

lemma filled:
  assumes "open_all (map ok [0..<nat (cur_conn_cnt p)]) p = (True, q)" "free_list p = []" "next_conn p = 0" "0 < cur_conn_cnt p"
  shows "sound (idle_pool q)" "alert (idle_pool q)" "cur_conn_cnt p \<le> M \<Longrightarrow> max_conn_cnt p \<le> M \<Longrightarrow> bounded M (idle_pool q)"
  using open_all_new[OF assms(1)] assms(2-4) by (auto simp: sound_def conns_def alert_def bounded_def idle_pool_def)

text \<open>C8: no connection is in two hands.  Whatever calls the threads make and however they are scheduled, a connection
  that is handed out is neither free nor handed to another call, none is lost while the pool lives, and their number stays within
  the limit of the configuration (or the number opened at the start, when that is larger).\<close>

theorem connections_exclusive:
  assumes "CDBPool_Init ok (CDBPool cap) = (True, p)" "db_step\<^sup>*\<^sup>* (idle_pool p) s"
    and "CachePool_Init ok' (CachePool cap') = (True, p')" "cache_step\<^sup>*\<^sup>* (idle_pool p') s'"
  shows "distinct (conns s) \<and> (\<not> abort_request (the_pool s) \<longrightarrow>
      int (length (conns s)) = cur_conn_cnt (the_pool s) \<and> cur_conn_cnt (the_pool s) \<le> max MIN_DB_CONN_CNT cap) \<and>
    distinct (conns s') \<and> (\<not> abort_request (the_pool s') \<longrightarrow>
      int (length (conns s')) = cur_conn_cnt (the_pool s') \<and> cur_conn_cnt (the_pool s') \<le> max MIN_CACHE_CONN_CNT cap')"
proof -
  have d: "sound (idle_pool p)" "alert (idle_pool p)" "bounded (max MIN_DB_CONN_CNT cap) (idle_pool p)"
    using filled[OF assms(1)[unfolded CDBPool_Init_def]] by (simp_all add: CDBPool_def MIN_DB_CONN_CNT_def)
  have c: "sound (idle_pool p')" "alert (idle_pool p')" "bounded (max MIN_CACHE_CONN_CNT cap') (idle_pool p')"
    using filled[OF assms(3)[unfolded CachePool_Init_def]] by (simp_all add: CachePool_def MIN_CACHE_CONN_CNT_def)
  show ?thesis
    using db.run_sound[OF assms(2) d(1,2)] db.run_bounded[OF assms(2) d]
      redis.run_sound[OF assms(4) c(1,2)] redis.run_bounded[OF assms(4) c]
    by (simp add: sound_def bounded_def)
qed

text \<open>One thread takes a connection of each pool.\<close>

theorem connections_exclusive_witness:
  "\<exists>s s'. held s = [(7, 0)] \<and> held s' = [(8, 0)] \<and> distinct (conns s) \<and> int (length (conns s)) = 1 \<and>
    distinct (conns s') \<and> int (length (conns s')) = 2"
proof -
  define p where "p = snd (CDBPool_Init (\<lambda>_. True) (CDBPool 4))"
  define p' where "p' = snd (CachePool_Init (\<lambda>_. True) (CachePool 4))"
  let ?s = "deliver (7, 0) (CDBPool_GetDBConn True 0 (the_pool (idle_pool p))) (idle_pool p)"
  let ?s' = "deliver (8, 0) (CachePool_GetCacheConn True 0 (the_pool (idle_pool p'))) (idle_pool p')"
  have i: "CDBPool_Init (\<lambda>_. True) (CDBPool 4) = (True, p)" "CachePool_Init (\<lambda>_. True) (CachePool 4) = (True, p')"
    unfolding p_def p'_def by code_simp+
  have r: "db_step\<^sup>*\<^sup>* (idle_pool p) ?s" "cache_step\<^sup>*\<^sup>* (idle_pool p') ?s'"
    by (rule r_into_rtranclp, rule pool_step.call)+
  have h: "held ?s = [(7, 0)] \<and> \<not> abort_request (the_pool ?s) \<and> cur_conn_cnt (the_pool ?s) = 1"
    unfolding p_def by code_simp
  have h': "held ?s' = [(8, 0)] \<and> \<not> abort_request (the_pool ?s') \<and> cur_conn_cnt (the_pool ?s') = 2"
    unfolding p'_def by code_simp
  from connections_exclusive[OF i(1) r(1) i(2) r(2)] h h' show ?thesis by (intro exI[of _ ?s] exI[of _ ?s']) simp
qed

definition all_served :: "(int \<Rightarrow> bool \<Rightarrow> pool \<Rightarrow> answer \<times> pool) \<Rightarrow> (nat \<Rightarrow> pool \<Rightarrow> bool \<times> pool) \<Rightarrow> sys \<Rightarrow> bool" where
  "all_served wait rel s \<longleftrightarrow> wf {(u', u). finish wait rel u u'} \<and>
     (\<forall>t. (finish wait rel)\<^sup>*\<^sup>* s t \<and> (\<nexists>u. finish wait rel t u) \<longrightarrow>
       asleep t = [] \<and> woken t = [] \<and> held t = [] \<and>
       (\<exists>new. refused t = new @ refused s \<and> (\<forall>c\<in>set new. 0 < snd c)))"



end
