(* ===== verification/HttpParser.thy ===== *)
theory HttpParser
  imports Prelude
begin

text \<open>
  The HTTP parser: src/base/http_parser.cc with its strict mode on, as http_parser.h configures it.  The state
  machine of \<open>http_parser_execute\<close> has one function per group of states; a \<open>goto reexecute_byte\<close> is a call of the
  function of the state just set.  Callbacks are parameters.
\<close>

section \<open>Types\<close>

datatype http_method =
    HTTP_DELETE | HTTP_GET | HTTP_HEAD | HTTP_POST | HTTP_PUT | HTTP_CONNECT | HTTP_OPTIONS | HTTP_TRACE | HTTP_COPY
  | HTTP_LOCK | HTTP_MKCOL | HTTP_MOVE | HTTP_PROPFIND | HTTP_PROPPATCH | HTTP_SEARCH | HTTP_UNLOCK | HTTP_REPORT
  | HTTP_MKACTIVITY | HTTP_CHECKOUT | HTTP_MERGE | HTTP_MSEARCH | HTTP_NOTIFY | HTTP_SUBSCRIBE | HTTP_UNSUBSCRIBE
  | HTTP_PATCH | HTTP_PURGE

text \<open>The names are made by the preprocessor, which keeps the blanks of \<open>M - SEARCH\<close>.\<close>

fun method_strings :: "http_method \<Rightarrow> string" where
  "method_strings HTTP_DELETE = ''DELETE''"
| "method_strings HTTP_GET = ''GET''"
| "method_strings HTTP_HEAD = ''HEAD''"
| "method_strings HTTP_POST = ''POST''"
| "method_strings HTTP_PUT = ''PUT''"
| "method_strings HTTP_CONNECT = ''CONNECT''"
| "method_strings HTTP_OPTIONS = ''OPTIONS''"
| "method_strings HTTP_TRACE = ''TRACE''"
| "method_strings HTTP_COPY = ''COPY''"
| "method_strings HTTP_LOCK = ''LOCK''"
| "method_strings HTTP_MKCOL = ''MKCOL''"
| "method_strings HTTP_MOVE = ''MOVE''"
| "method_strings HTTP_PROPFIND = ''PROPFIND''"
| "method_strings HTTP_PROPPATCH = ''PROPPATCH''"
| "method_strings HTTP_SEARCH = ''SEARCH''"
| "method_strings HTTP_UNLOCK = ''UNLOCK''"
| "method_strings HTTP_REPORT = ''REPORT''"
| "method_strings HTTP_MKACTIVITY = ''MKACTIVITY''"
| "method_strings HTTP_CHECKOUT = ''CHECKOUT''"
| "method_strings HTTP_MERGE = ''MERGE''"
| "method_strings HTTP_MSEARCH = ''M - SEARCH''"
| "method_strings HTTP_NOTIFY = ''NOTIFY''"
| "method_strings HTTP_SUBSCRIBE = ''SUBSCRIBE''"
| "method_strings HTTP_UNSUBSCRIBE = ''UNSUBSCRIBE''"
| "method_strings HTTP_PATCH = ''PATCH''"
| "method_strings HTTP_PURGE = ''PURGE''"

datatype http_parser_type = HTTP_REQUEST | HTTP_RESPONSE | HTTP_BOTH

datatype flag = F_CHUNKED | F_CONNECTION_KEEP_ALIVE | F_CONNECTION_CLOSE | F_TRAILING | F_UPGRADE | F_SKIPBODY

datatype http_errno =
    HPE_OK | HPE_CB_message_begin | HPE_CB_status_complete | HPE_CB_url | HPE_CB_header_field | HPE_CB_header_value
  | HPE_CB_headers_complete | HPE_CB_body | HPE_CB_message_complete | HPE_INVALID_EOF_STATE | HPE_HEADER_OVERFLOW
  | HPE_CLOSED_CONNECTION | HPE_INVALID_VERSION | HPE_INVALID_STATUS | HPE_INVALID_METHOD | HPE_INVALID_URL
  | HPE_INVALID_HOST | HPE_INVALID_PORT | HPE_INVALID_PATH | HPE_INVALID_QUERY_STRING | HPE_INVALID_FRAGMENT
  | HPE_LF_EXPECTED | HPE_INVALID_HEADER_TOKEN | HPE_INVALID_CONTENT_LENGTH | HPE_INVALID_CHUNK_SIZE
  | HPE_INVALID_CONSTANT | HPE_INVALID_INTERNAL_STATE | HPE_STRICT | HPE_PAUSED | HPE_UNKNOWN

datatype http_state =
    s_dead | s_start_req_or_res | s_res_or_resp_H | s_start_res | s_res_H | s_res_HT | s_res_HTT | s_res_HTTP
  | s_res_first_http_major | s_res_http_major | s_res_first_http_minor | s_res_http_minor | s_res_first_status_code
  | s_res_status_code | s_res_status | s_res_line_almost_done | s_start_req | s_req_method | s_req_spaces_before_url
  | s_req_schema | s_req_schema_slash | s_req_schema_slash_slash | s_req_server_start | s_req_server
  | s_req_server_with_at | s_req_path | s_req_query_string_start | s_req_query_string | s_req_fragment_start
  | s_req_fragment | s_req_http_start | s_req_http_H | s_req_http_HT | s_req_http_HTT | s_req_http_HTTP
  | s_req_first_http_major | s_req_http_major | s_req_first_http_minor | s_req_http_minor | s_req_line_almost_done
  | s_header_field_start | s_header_field | s_header_value_start | s_header_value | s_header_value_lws
  | s_header_almost_done | s_chunk_size_start | s_chunk_size | s_chunk_parameters | s_chunk_size_almost_done
  | s_headers_almost_done | s_headers_done | s_chunk_data | s_chunk_data_almost_done | s_chunk_data_done
  | s_body_identity | s_body_identity_eof | s_message_done

definition PARSING_HEADER :: "http_state \<Rightarrow> bool" where
  "PARSING_HEADER s \<longleftrightarrow> s \<notin> {s_chunk_data, s_chunk_data_almost_done, s_chunk_data_done, s_body_identity,
     s_body_identity_eof, s_message_done}"

datatype header_states =
    h_general | h_C | h_CO | h_CON | h_matching_connection | h_matching_proxy_connection | h_matching_content_length
  | h_matching_transfer_encoding | h_matching_upgrade | h_connection | h_content_length | h_transfer_encoding | h_upgrade
  | h_matching_transfer_encoding_chunked | h_matching_connection_keep_alive | h_matching_connection_close
  | h_transfer_encoding_chunked | h_connection_keep_alive | h_connection_close

text \<open>The bit field \<open>flags\<close> is the set of its flags; the counters are kept within their width where they are changed.\<close>

record http_parser =
  kind :: http_parser_type
  flags :: "flag set"
  state :: http_state
  header_state :: header_states
  index :: nat
  nread :: nat
  content_length :: nat
  http_major :: nat
  http_minor :: nat
  status_code :: nat
  req_method :: http_method
  http_errno :: http_errno
  upgrade :: bool

definition ULLONG_MAX :: nat where "ULLONG_MAX = 2 ^ 64 - 1"

definition HTTP_MAX_HEADER_SIZE :: nat where "HTTP_MAX_HEADER_SIZE = 80 * 1024"

section \<open>Characters\<close>

abbreviation CR :: char where "CR \<equiv> CHR 0x0D"
abbreviation LF :: char where "LF \<equiv> CHR 0x0A"

text \<open>\<open>c | 0x20\<close>\<close>

fun LOWER :: "char \<Rightarrow> char" where
  "LOWER (Char b0 b1 b2 b3 b4 b5 b6 b7) = Char b0 b1 b2 b3 b4 True b6 b7"

definition IS_ALPHA :: "char \<Rightarrow> bool" where "IS_ALPHA c \<longleftrightarrow> ord (CHR ''a'') \<le> ord (LOWER c) \<and> ord (LOWER c) \<le> ord (CHR ''z'')"
definition IS_NUM :: "char \<Rightarrow> bool" where "IS_NUM c \<longleftrightarrow> ord (CHR ''0'') \<le> ord c \<and> ord c \<le> ord (CHR ''9'')"
definition IS_ALPHANUM :: "char \<Rightarrow> bool" where "IS_ALPHANUM c \<longleftrightarrow> IS_ALPHA c \<or> IS_NUM c"
definition IS_HEX :: "char \<Rightarrow> bool" where
  "IS_HEX c \<longleftrightarrow> IS_NUM c \<or> ord (CHR ''a'') \<le> ord (LOWER c) \<and> ord (LOWER c) \<le> ord (CHR ''f'')"
definition IS_MARK :: "char \<Rightarrow> bool" where "IS_MARK c \<longleftrightarrow> c \<in> set ''-_.!~*()'' \<or> c = CHR 0x27"
definition IS_USERINFO_CHAR :: "char \<Rightarrow> bool" where
  "IS_USERINFO_CHAR c \<longleftrightarrow> IS_ALPHANUM c \<or> IS_MARK c \<or> c \<in> set ''%;:&=+$,''"

text \<open>The table of the characters of a token, lower case; what is not listed in an array is zero.\<close>

definition tokens :: string where
  "tokens = replicate 33 NUL @ ''!'' @ [NUL] @ ''#$%&'' @ [CHR 0x27] @ [NUL, NUL] @ ''*+'' @ [NUL] @ ''-.'' @ [NUL] @
     ''0123456789'' @ replicate 7 NUL @ ''abcdefghijklmnopqrstuvwxyz'' @ replicate 3 NUL @ ''^_'' @ [CHR 0x60] @
     ''abcdefghijklmnopqrstuvwxyz'' @ [NUL] @ ''|'' @ [NUL] @ ''~'' @ [NUL]"

definition TOKEN :: "char \<Rightarrow> char" where
  "TOKEN c = (if ord c < length tokens then tokens ! ord c else NUL)"

text \<open>The array \<open>unhex\<close> lists 128 of its 256 entries, the others are 0, not -1.\<close>

definition unhex :: "char \<Rightarrow> int" where
  "unhex c = (if 128 \<le> ord c then 0
     else if IS_NUM c then int (ord c - ord (CHR ''0''))
     else if ord (CHR ''A'') \<le> ord c \<and> ord c \<le> ord (CHR ''F'') then int (ord c - ord (CHR ''A'')) + 10
     else if ord (CHR ''a'') \<le> ord c \<and> ord c \<le> ord (CHR ''f'') then int (ord c - ord (CHR ''a'')) + 10
     else - 1)"

definition normal_url_char :: "nat list" where
  "normal_url_char = [0, 0, 0, 0, 246, 255, 255, 127, 255, 255, 255, 255, 255, 255, 255, 127]"

definition IS_URL_CHAR :: "char \<Rightarrow> bool" where
  "IS_URL_CHAR c \<longleftrightarrow> ord c < 128 \<and> odd (normal_url_char ! (ord c div 8) div 2 ^ (ord c mod 8))"

definition IS_HOST_CHAR :: "char \<Rightarrow> bool" where
  "IS_HOST_CHAR c \<longleftrightarrow> IS_ALPHANUM c \<or> c = CHR ''.'' \<or> c = CHR ''-''"

section \<open>URLs\<close>

text \<open>The part of the table of \<open>parse_url_char\<close> after a host: \<open>s_req_server_start\<close> and \<open>s_req_server\<close>.\<close>

definition server_char :: "char \<Rightarrow> http_state" where
  "server_char ch =
     (if ch = CHR ''/'' then s_req_path
      else if ch = CHR ''?'' then s_req_query_string_start
      else if ch = CHR ''@'' then s_req_server_with_at
      else if IS_USERINFO_CHAR ch \<or> ch = CHR ''['' \<or> ch = CHR '']'' then s_req_server
      else s_dead)"

definition parse_url_char :: "http_state \<Rightarrow> char \<Rightarrow> http_state" where
  "parse_url_char s ch =
     (if ch = CHR '' '' \<or> ch = CR \<or> ch = LF \<or> ch = CHR 0x09 \<or> ch = CHR 0x0C then s_dead
      else case s of
        s_req_spaces_before_url \<Rightarrow>
          if ch = CHR ''/'' \<or> ch = CHR ''*'' then s_req_path else if IS_ALPHA ch then s_req_schema else s_dead
      | s_req_schema \<Rightarrow>
          if IS_ALPHA ch then s_req_schema else if ch = CHR '':'' then s_req_schema_slash else s_dead
      | s_req_schema_slash \<Rightarrow> if ch = CHR ''/'' then s_req_schema_slash_slash else s_dead
      | s_req_schema_slash_slash \<Rightarrow> if ch = CHR ''/'' then s_req_server_start else s_dead
      | s_req_server_with_at \<Rightarrow> if ch = CHR ''@'' then s_dead else server_char ch
      | s_req_server_start \<Rightarrow> server_char ch
      | s_req_server \<Rightarrow> server_char ch
      | s_req_path \<Rightarrow>
          if IS_URL_CHAR ch then s_req_path
          else if ch = CHR ''?'' then s_req_query_string_start
          else if ch = CHR ''#'' then s_req_fragment_start else s_dead
      | s_req_query_string_start \<Rightarrow>
          if IS_URL_CHAR ch \<or> ch = CHR ''?'' then s_req_query_string
          else if ch = CHR ''#'' then s_req_fragment_start else s_dead
      | s_req_query_string \<Rightarrow>
          if IS_URL_CHAR ch \<or> ch = CHR ''?'' then s_req_query_string
          else if ch = CHR ''#'' then s_req_fragment_start else s_dead
      | s_req_fragment_start \<Rightarrow>
          if IS_URL_CHAR ch \<or> ch = CHR ''?'' then s_req_fragment
          else if ch = CHR ''#'' then s_req_fragment_start else s_dead
      | s_req_fragment \<Rightarrow> if IS_URL_CHAR ch \<or> ch = CHR ''?'' \<or> ch = CHR ''#'' then s_req_fragment else s_dead
      | _ \<Rightarrow> s_dead)"

section \<open>Callbacks\<close>

text \<open>
  A callback gets the parser, for a data callback the memory from the marked byte on and a length, and the object of
  the application.  It returns a number, whether it paused the parser, and the new object; it does not write other
  fields of the parser.
\<close>

type_synonym 'a http_cb = "http_parser \<Rightarrow> 'a \<Rightarrow> (int \<times> bool \<times> 'a) res"
type_synonym 'a http_data_cb = "http_parser \<Rightarrow> string \<Rightarrow> nat \<Rightarrow> 'a \<Rightarrow> (int \<times> bool \<times> 'a) res"

record 'a settings =
  on_message_begin :: "'a http_cb option"
  on_url :: "'a http_data_cb option"
  on_status_complete :: "'a http_cb option"
  on_header_field :: "'a http_data_cb option"
  on_header_value :: "'a http_data_cb option"
  on_headers_complete :: "'a http_cb option"
  on_body :: "'a http_data_cb option"
  on_message_complete :: "'a http_cb option"

datatype mark = M_header_field | M_header_value | M_url | M_body

fun on_data :: "'a settings \<Rightarrow> mark \<Rightarrow> 'a http_data_cb option" where
  "on_data S M_header_field = on_header_field S"
| "on_data S M_header_value = on_header_value S"
| "on_data S M_url = on_url S"
| "on_data S M_body = on_body S"

fun HPE_CB :: "mark \<Rightarrow> http_errno" where
  "HPE_CB M_header_field = HPE_CB_header_field"
| "HPE_CB M_header_value = HPE_CB_header_value"
| "HPE_CB M_url = HPE_CB_url"
| "HPE_CB M_body = HPE_CB_body"

text \<open>The variables of a run: the parser, the marks, the position \<open>p - data\<close> and the object.\<close>

record 'a run =
  parser :: http_parser
  marks :: "mark \<Rightarrow> nat option"
  pos :: nat
  obj :: 'a

text \<open>A byte is done (\<open>break\<close>), or the function returns a number.\<close>

datatype 'a flow = Next "'a run" | Return nat "'a run"

definition upd :: "(http_parser \<Rightarrow> http_parser) \<Rightarrow> 'a run \<Rightarrow> 'a run" where
  "upd f r = r\<lparr>parser := f (parser r)\<rparr>"

definition to_state :: "http_state \<Rightarrow> 'a run \<Rightarrow> 'a run" where
  "to_state s = upd (\<lambda>p. p\<lparr>state := s\<rparr>)"

definition error :: "http_errno \<Rightarrow> 'a run \<Rightarrow> 'a flow res" where
  "error e r = Inr (Return (pos r) (upd (\<lambda>p. p\<lparr>http_errno := e\<rparr>) r))"

definition STRICT_CHECK :: "bool \<Rightarrow> 'a run \<Rightarrow> 'a flow res \<Rightarrow> 'a flow res" where
  "STRICT_CHECK cond r k = (if cond then error HPE_STRICT r else k)"

definition MARK :: "mark \<Rightarrow> 'a run \<Rightarrow> 'a run" where
  "MARK m r = (if marks r m = None then r\<lparr>marks := (marks r)(m := Some (pos r))\<rparr> else r)"

definition called :: "http_errno \<Rightarrow> int \<times> bool \<times> 'a \<Rightarrow> 'a run \<Rightarrow> 'a run" where
  "called e res r =
     (case res of (n, paused, x) \<Rightarrow>
        (upd (\<lambda>p. p\<lparr>http_errno := if n \<noteq> 0 then e else if paused then HPE_PAUSED else http_errno p\<rparr>) r)\<lparr>obj := x\<rparr>)"

definition CALLBACK_NOTIFY ::
  "'a http_cb option \<Rightarrow> http_errno \<Rightarrow> nat \<Rightarrow> 'a run \<Rightarrow> ('a run \<Rightarrow> 'a flow res) \<Rightarrow> 'a flow res" where
  "CALLBACK_NOTIFY cb e er r k =
     bindR (assertR (http_errno (parser r) = HPE_OK)) (\<lambda>_.
     case cb of
       None \<Rightarrow> k r
     | Some f \<Rightarrow> bindR (f (parser r) (obj r)) (\<lambda>res.
         let r = called e res r in
         if http_errno (parser r) \<noteq> HPE_OK then Inr (Return er r) else k r))"

definition CALLBACK_DATA ::
  "'a settings \<Rightarrow> string \<Rightarrow> mark \<Rightarrow> nat \<Rightarrow> nat \<Rightarrow> 'a run \<Rightarrow> ('a run \<Rightarrow> 'a flow res) \<Rightarrow> 'a flow res" where
  "CALLBACK_DATA S data m stop er r k =
     bindR (assertR (http_errno (parser r) = HPE_OK)) (\<lambda>_.
     case marks r m of
       None \<Rightarrow> k r
     | Some at \<Rightarrow>
         (case on_data S m of
            None \<Rightarrow> k (r\<lparr>marks := (marks r)(m := None)\<rparr>)
          | Some f \<Rightarrow> bindR (f (parser r) (drop at data) (stop - at) (obj r)) (\<lambda>res.
              let r = called (HPE_CB m) res r in
              if http_errno (parser r) \<noteq> HPE_OK then Inr (Return er r)
              else k (r\<lparr>marks := (marks r)(m := None)\<rparr>))))"

section \<open>When a message ends\<close>

definition http_message_needs_eof :: "http_parser \<Rightarrow> bool" where
  "http_message_needs_eof p =
     (if kind p = HTTP_REQUEST then False
      else if status_code p div 100 = 1 \<or> status_code p = 204 \<or> status_code p = 304 \<or> F_SKIPBODY \<in> flags p then False
      else if F_CHUNKED \<in> flags p \<or> content_length p \<noteq> ULLONG_MAX then False
      else True)"

definition http_should_keep_alive :: "http_parser \<Rightarrow> bool" where
  "http_should_keep_alive p =
     (if 0 < http_major p \<and> 0 < http_minor p then
        if F_CONNECTION_CLOSE \<in> flags p then False else \<not> http_message_needs_eof p
      else if F_CONNECTION_KEEP_ALIVE \<notin> flags p then False
      else \<not> http_message_needs_eof p)"

definition start_state :: "http_parser \<Rightarrow> http_state" where
  "start_state p = (if kind p = HTTP_REQUEST then s_start_req else s_start_res)"

definition NEW_MESSAGE :: "http_parser \<Rightarrow> http_state" where
  "NEW_MESSAGE p = (if http_should_keep_alive p then start_state p else s_dead)"

definition message_complete :: "'a settings \<Rightarrow> nat \<Rightarrow> 'a run \<Rightarrow> ('a run \<Rightarrow> 'a flow res) \<Rightarrow> 'a flow res" where
  "message_complete S er r k =
     CALLBACK_NOTIFY (on_message_complete S) HPE_CB_message_complete er (to_state (NEW_MESSAGE (parser r)) r) k"

section \<open>The status line of a response\<close>

text \<open>A digit of a version or status, kept below 1000.\<close>

definition digit :: "char \<Rightarrow> nat" where "digit ch = ord ch - ord (CHR ''0'')"

definition step_dead :: "char \<Rightarrow> 'a run \<Rightarrow> 'a flow res" where
  "step_dead ch r = (if ch = CR \<or> ch = LF then Inr (Next r) else error HPE_CLOSED_CONNECTION r)"

definition step_start_res :: "'a settings \<Rightarrow> char \<Rightarrow> 'a run \<Rightarrow> 'a flow res" where
  "step_start_res S ch r =
     (let r = upd (\<lambda>p. p\<lparr>flags := {}, content_length := ULLONG_MAX\<rparr>) r;
          begin = (\<lambda>r. CALLBACK_NOTIFY (on_message_begin S) HPE_CB_message_begin (pos r + 1) r (\<lambda>r. Inr (Next r))) in
      if ch = CHR ''H'' then begin (to_state s_res_H r)
      else if ch = CR \<or> ch = LF then begin r
      else error HPE_INVALID_CONSTANT r)"

definition step_res_or_resp_H :: "char \<Rightarrow> 'a run \<Rightarrow> 'a flow res" where
  "step_res_or_resp_H ch r =
     (if ch = CHR ''T'' then Inr (Next (upd (\<lambda>p. p\<lparr>kind := HTTP_RESPONSE, state := s_res_HT\<rparr>) r))
      else if ch \<noteq> CHR ''E'' then error HPE_INVALID_CONSTANT r
      else Inr (Next (upd (\<lambda>p. p\<lparr>kind := HTTP_REQUEST, req_method := HTTP_HEAD, index := 2, state := s_req_method\<rparr>) r)))"

definition step_constant :: "char \<Rightarrow> http_state \<Rightarrow> char \<Rightarrow> 'a run \<Rightarrow> 'a flow res" where
  "step_constant expected s ch r = STRICT_CHECK (ch \<noteq> expected) r (Inr (Next (to_state s r)))"

definition step_first_major :: "char \<Rightarrow> http_state \<Rightarrow> char \<Rightarrow> 'a run \<Rightarrow> 'a flow res" where
  "step_first_major least s ch r =
     (if ord ch < ord least \<or> ord (CHR ''9'') < ord ch then error HPE_INVALID_VERSION r
      else Inr (Next (upd (\<lambda>p. p\<lparr>http_major := digit ch, state := s\<rparr>) r)))"

definition step_major :: "http_state \<Rightarrow> char \<Rightarrow> 'a run \<Rightarrow> 'a flow res" where
  "step_major s ch r =
     (if ch = CHR ''.'' then Inr (Next (to_state s r))
      else if \<not> IS_NUM ch then error HPE_INVALID_VERSION r
      else let r = upd (\<lambda>p. p\<lparr>http_major := (http_major p * 10 + digit ch) mod 2 ^ 16\<rparr>) r in
        if 999 < http_major (parser r) then error HPE_INVALID_VERSION r else Inr (Next r))"

definition step_first_minor :: "http_state \<Rightarrow> char \<Rightarrow> 'a run \<Rightarrow> 'a flow res" where
  "step_first_minor s ch r =
     (if \<not> IS_NUM ch then error HPE_INVALID_VERSION r
      else Inr (Next (upd (\<lambda>p. p\<lparr>http_minor := digit ch, state := s\<rparr>) r)))"

definition minor_digit :: "char \<Rightarrow> 'a run \<Rightarrow> 'a flow res" where
  "minor_digit ch r =
     (if \<not> IS_NUM ch then error HPE_INVALID_VERSION r
      else let r = upd (\<lambda>p. p\<lparr>http_minor := (http_minor p * 10 + digit ch) mod 2 ^ 16\<rparr>) r in
        if 999 < http_minor (parser r) then error HPE_INVALID_VERSION r else Inr (Next r))"

definition step_res_minor :: "char \<Rightarrow> 'a run \<Rightarrow> 'a flow res" where
  "step_res_minor ch r = (if ch = CHR '' '' then Inr (Next (to_state s_res_first_status_code r)) else minor_digit ch r)"

definition step_first_status_code :: "char \<Rightarrow> 'a run \<Rightarrow> 'a flow res" where
  "step_first_status_code ch r =
     (if \<not> IS_NUM ch then if ch = CHR '' '' then Inr (Next r) else error HPE_INVALID_STATUS r
      else Inr (Next (upd (\<lambda>p. p\<lparr>status_code := digit ch, state := s_res_status_code\<rparr>) r)))"

definition step_status_code :: "char \<Rightarrow> 'a run \<Rightarrow> 'a flow res" where
  "step_status_code ch r =
     (if \<not> IS_NUM ch then
        if ch = CHR '' '' then Inr (Next (to_state s_res_status r))
        else if ch = CR then Inr (Next (to_state s_res_line_almost_done r))
        else if ch = LF then Inr (Next (to_state s_header_field_start r))
        else error HPE_INVALID_STATUS r
      else let r = upd (\<lambda>p. p\<lparr>status_code := (status_code p * 10 + digit ch) mod 2 ^ 16\<rparr>) r in
        if 999 < status_code (parser r) then error HPE_INVALID_STATUS r else Inr (Next r))"

definition step_status :: "char \<Rightarrow> 'a run \<Rightarrow> 'a flow res" where
  "step_status ch r =
     (if ch = CR then Inr (Next (to_state s_res_line_almost_done r))
      else if ch = LF then Inr (Next (to_state s_header_field_start r))
      else Inr (Next r))"

definition step_res_line_almost_done :: "'a settings \<Rightarrow> char \<Rightarrow> 'a run \<Rightarrow> 'a flow res" where
  "step_res_line_almost_done S ch r =
     STRICT_CHECK (ch \<noteq> LF) r
       (CALLBACK_NOTIFY (on_status_complete S) HPE_CB_status_complete (pos r + 1) (to_state s_header_field_start r)
         (\<lambda>r. Inr (Next r)))"

section \<open>The request line\<close>

definition first_method :: "char \<Rightarrow> http_method option" where
  "first_method ch =
     (if ch = CHR ''C'' then Some HTTP_CONNECT
      else if ch = CHR ''D'' then Some HTTP_DELETE
      else if ch = CHR ''G'' then Some HTTP_GET
      else if ch = CHR ''H'' then Some HTTP_HEAD
      else if ch = CHR ''L'' then Some HTTP_LOCK
      else if ch = CHR ''M'' then Some HTTP_MKCOL
      else if ch = CHR ''N'' then Some HTTP_NOTIFY
      else if ch = CHR ''O'' then Some HTTP_OPTIONS
      else if ch = CHR ''P'' then Some HTTP_POST
      else if ch = CHR ''R'' then Some HTTP_REPORT
      else if ch = CHR ''S'' then Some HTTP_SUBSCRIBE
      else if ch = CHR ''T'' then Some HTTP_TRACE
      else if ch = CHR ''U'' then Some HTTP_UNLOCK
      else None)"

definition step_start_req :: "'a settings \<Rightarrow> char \<Rightarrow> 'a run \<Rightarrow> 'a flow res" where
  "step_start_req S ch r =
     (if ch = CR \<or> ch = LF then Inr (Next r)
      else let r = upd (\<lambda>p. p\<lparr>flags := {}, content_length := ULLONG_MAX\<rparr>) r in
        if \<not> IS_ALPHA ch then error HPE_INVALID_METHOD r
        else let r = upd (\<lambda>p. p\<lparr>req_method := HTTP_DELETE, index := 1\<rparr>) r in
          case first_method ch of
            None \<Rightarrow> error HPE_INVALID_METHOD r
          | Some m \<Rightarrow>
              CALLBACK_NOTIFY (on_message_begin S) HPE_CB_message_begin (pos r + 1)
                (upd (\<lambda>p. p\<lparr>req_method := m, state := s_req_method\<rparr>) r) (\<lambda>r. Inr (Next r)))"

definition step_start_req_or_res :: "'a settings \<Rightarrow> char \<Rightarrow> 'a run \<Rightarrow> 'a flow res" where
  "step_start_req_or_res S ch r =
     (if ch = CR \<or> ch = LF then Inr (Next r)
      else let r = upd (\<lambda>p. p\<lparr>flags := {}, content_length := ULLONG_MAX\<rparr>) r in
        if ch = CHR ''H'' then
          CALLBACK_NOTIFY (on_message_begin S) HPE_CB_message_begin (pos r + 1) (to_state s_res_or_resp_H r)
            (\<lambda>r. Inr (Next r))
        else step_start_req S ch (upd (\<lambda>p. p\<lparr>kind := HTTP_REQUEST, state := s_start_req\<rparr>) r))"

text \<open>The method a character that differs from the expected one turns to.\<close>

definition other_method :: "http_method \<Rightarrow> nat \<Rightarrow> char \<Rightarrow> http_method option" where
  "other_method m i ch =
     (if m = HTTP_CONNECT then
        if i = 1 \<and> ch = CHR ''H'' then Some HTTP_CHECKOUT else if i = 2 \<and> ch = CHR ''P'' then Some HTTP_COPY else None
      else if m = HTTP_MKCOL then
        if i = 1 \<and> ch = CHR ''O'' then Some HTTP_MOVE
        else if i = 1 \<and> ch = CHR ''E'' then Some HTTP_MERGE
        else if i = 1 \<and> ch = CHR ''-'' then Some HTTP_MSEARCH
        else if i = 2 \<and> ch = CHR ''A'' then Some HTTP_MKACTIVITY else None
      else if m = HTTP_SUBSCRIBE then
        if i = 1 \<and> ch = CHR ''E'' then Some HTTP_SEARCH else None
      else if i = 1 \<and> m = HTTP_POST then
        if ch = CHR ''R'' then Some HTTP_PROPFIND
        else if ch = CHR ''U'' then Some HTTP_PUT
        else if ch = CHR ''A'' then Some HTTP_PATCH else None
      else if i = 2 then
        if m = HTTP_PUT then if ch = CHR ''R'' then Some HTTP_PURGE else None
        else if m = HTTP_UNLOCK then if ch = CHR ''S'' then Some HTTP_UNSUBSCRIBE else None
        else None
      else if i = 4 \<and> m = HTTP_PROPFIND \<and> ch = CHR ''P'' then Some HTTP_PROPPATCH
      else None)"

definition step_req_method :: "char \<Rightarrow> 'a run \<Rightarrow> 'a flow res" where
  "step_req_method ch r =
     (if ch = NUL then error HPE_INVALID_METHOD r
      else let p = parser r; matcher = method_strings (req_method p) @ [NUL];
               advance = upd (\<lambda>p. p\<lparr>index := (index p + 1) mod 2 ^ 8\<rparr>) in
        if length matcher \<le> index p then Inl OutOfBounds
        else if ch = CHR '' '' \<and> matcher ! index p = NUL then Inr (Next (advance (to_state s_req_spaces_before_url r)))
        else if ch = matcher ! index p then Inr (Next (advance r))
        else case other_method (req_method p) (index p) ch of
            Some m \<Rightarrow> Inr (Next (advance (upd (\<lambda>p. p\<lparr>req_method := m\<rparr>) r)))
          | None \<Rightarrow> error HPE_INVALID_METHOD r)"

definition url_step :: "char \<Rightarrow> 'a run \<Rightarrow> 'a flow res" where
  "url_step ch r =
     (let r = to_state (parse_url_char (state (parser r)) ch) r in
      if state (parser r) = s_dead then error HPE_INVALID_URL r else Inr (Next r))"

definition step_spaces_before_url :: "char \<Rightarrow> 'a run \<Rightarrow> 'a flow res" where
  "step_spaces_before_url ch r =
     (if ch = CHR '' '' then Inr (Next r)
      else let r = MARK M_url r in
        url_step ch (if req_method (parser r) = HTTP_CONNECT then to_state s_req_server_start r else r))"

definition step_schema :: "char \<Rightarrow> 'a run \<Rightarrow> 'a flow res" where
  "step_schema ch r = (if ch = CHR '' '' \<or> ch = CR \<or> ch = LF then error HPE_INVALID_URL r else url_step ch r)"

definition step_url :: "'a settings \<Rightarrow> string \<Rightarrow> char \<Rightarrow> 'a run \<Rightarrow> 'a flow res" where
  "step_url S data ch r =
     (let url_done = (\<lambda>r. CALLBACK_DATA S data M_url (pos r) (pos r + 1) r (\<lambda>r. Inr (Next r))) in
      if ch = CHR '' '' then url_done (to_state s_req_http_start r)
      else if ch = CR \<or> ch = LF then
        url_done (upd (\<lambda>p. p\<lparr>http_major := 0, http_minor := 9,
          state := if ch = CR then s_req_line_almost_done else s_header_field_start\<rparr>) r)
      else url_step ch r)"

definition step_http_start :: "char \<Rightarrow> 'a run \<Rightarrow> 'a flow res" where
  "step_http_start ch r =
     (if ch = CHR ''H'' then Inr (Next (to_state s_req_http_H r))
      else if ch = CHR '' '' then Inr (Next r)
      else error HPE_INVALID_CONSTANT r)"

definition step_req_minor :: "char \<Rightarrow> 'a run \<Rightarrow> 'a flow res" where
  "step_req_minor ch r =
     (if ch = CR then Inr (Next (to_state s_req_line_almost_done r))
      else if ch = LF then Inr (Next (to_state s_header_field_start r))
      else minor_digit ch r)"

definition step_req_line_almost_done :: "char \<Rightarrow> 'a run \<Rightarrow> 'a flow res" where
  "step_req_line_almost_done ch r =
     (if ch \<noteq> LF then error HPE_LF_EXPECTED r else Inr (Next (to_state s_header_field_start r)))"

section \<open>Headers\<close>

text \<open>What follows the empty line after the headers.\<close>

definition step_headers_done :: "'a settings \<Rightarrow> char \<Rightarrow> 'a run \<Rightarrow> 'a flow res" where
  "step_headers_done S ch r =
     STRICT_CHECK (ch \<noteq> LF) r
       (let r = upd (\<lambda>p. p\<lparr>nread := 0\<rparr>) r; p = parser r in
        if upgrade p then message_complete S (pos r + 1) r (\<lambda>r. Inr (Return (pos r + 1) r))
        else if F_SKIPBODY \<in> flags p then message_complete S (pos r + 1) r (\<lambda>r. Inr (Next r))
        else if F_CHUNKED \<in> flags p then Inr (Next (to_state s_chunk_size_start r))
        else if content_length p = 0 then message_complete S (pos r + 1) r (\<lambda>r. Inr (Next r))
        else if content_length p \<noteq> ULLONG_MAX then Inr (Next (to_state s_body_identity r))
        else if kind p = HTTP_REQUEST \<or> \<not> http_message_needs_eof p then
          message_complete S (pos r + 1) r (\<lambda>r. Inr (Next r))
        else Inr (Next (to_state s_body_identity_eof r)))"

text \<open>The callback at the end of the headers: 1 says that there is no body, another non-zero value is an error.\<close>

definition headers_complete :: "'a settings \<Rightarrow> 'a run \<Rightarrow> ('a run \<Rightarrow> 'a flow res) \<Rightarrow> 'a flow res" where
  "headers_complete S r k =
     (let go_on = (\<lambda>r. if http_errno (parser r) \<noteq> HPE_OK then Inr (Return (pos r) r) else k r) in
      case on_headers_complete S of
        None \<Rightarrow> go_on r
      | Some f \<Rightarrow> bindR (f (parser r) (obj r)) (\<lambda>(n, paused, x).
          let r = called HPE_OK (0, paused, x) r in
          if n = 0 then go_on r
          else if n = 1 then go_on (upd (\<lambda>p. p\<lparr>flags := insert F_SKIPBODY (flags p)\<rparr>) r)
          else Inr (Return (pos r) (upd (\<lambda>p. p\<lparr>http_errno := HPE_CB_headers_complete\<rparr>) r))))"

definition step_headers_almost_done :: "'a settings \<Rightarrow> char \<Rightarrow> 'a run \<Rightarrow> 'a flow res" where
  "step_headers_almost_done S ch r =
     STRICT_CHECK (ch \<noteq> LF) r
       (if F_TRAILING \<in> flags (parser r) then message_complete S (pos r + 1) r (\<lambda>r. Inr (Next r))
        else headers_complete S
          (upd (\<lambda>p. p\<lparr>state := s_headers_done, upgrade := F_UPGRADE \<in> flags p \<or> req_method p = HTTP_CONNECT\<rparr>) r)
          (step_headers_done S ch))"

definition first_header_state :: "char \<Rightarrow> header_states" where
  "first_header_state c =
     (if c = CHR ''c'' then h_C
      else if c = CHR ''p'' then h_matching_proxy_connection
      else if c = CHR ''t'' then h_matching_transfer_encoding
      else if c = CHR ''u'' then h_matching_upgrade
      else h_general)"

definition step_header_field_start :: "'a settings \<Rightarrow> char \<Rightarrow> 'a run \<Rightarrow> 'a flow res" where
  "step_header_field_start S ch r =
     (if ch = CR then Inr (Next (to_state s_headers_almost_done r))
      else if ch = LF then step_headers_almost_done S ch (to_state s_headers_almost_done r)
      else if TOKEN ch = NUL then error HPE_INVALID_HEADER_TOKEN r
      else Inr (Next (upd (\<lambda>p. p\<lparr>index := 0, state := s_header_field, header_state := first_header_state (TOKEN ch)\<rparr>)
                     (MARK M_header_field r))))"

text \<open>One more character of a word that is being recognised.\<close>

definition match_word :: "string \<Rightarrow> header_states \<Rightarrow> char \<Rightarrow> http_parser \<Rightarrow> http_parser" where
  "match_word word found c p =
     (let p = p\<lparr>index := (index p + 1) mod 2 ^ 8\<rparr> in
      if length word < index p \<or> c \<noteq> (word @ [NUL]) ! index p then p\<lparr>header_state := h_general\<rparr>
      else if index p + 1 = length word then p\<lparr>header_state := found\<rparr>
      else p)"

definition next_letter :: "char \<Rightarrow> header_states \<Rightarrow> char \<Rightarrow> http_parser \<Rightarrow> http_parser" where
  "next_letter letter next c p =
     p\<lparr>index := (index p + 1) mod 2 ^ 8, header_state := if c = letter then next else h_general\<rparr>"

definition field_char :: "char \<Rightarrow> char \<Rightarrow> http_parser \<Rightarrow> http_parser res" where
  "field_char c ch p =
     (case header_state p of
        h_general \<Rightarrow> Inr p
      | h_C \<Rightarrow> Inr (next_letter (CHR ''o'') h_CO c p)
      | h_CO \<Rightarrow> Inr (next_letter (CHR ''n'') h_CON c p)
      | h_CON \<Rightarrow> Inr (p\<lparr>index := (index p + 1) mod 2 ^ 8,
          header_state := if c = CHR ''n'' then h_matching_connection
                          else if c = CHR ''t'' then h_matching_content_length else h_general\<rparr>)
      | h_matching_connection \<Rightarrow> Inr (match_word ''connection'' h_connection c p)
      | h_matching_proxy_connection \<Rightarrow> Inr (match_word ''proxy-connection'' h_connection c p)
      | h_matching_content_length \<Rightarrow> Inr (match_word ''content-length'' h_content_length c p)
      | h_matching_transfer_encoding \<Rightarrow> Inr (match_word ''transfer-encoding'' h_transfer_encoding c p)
      | h_matching_upgrade \<Rightarrow> Inr (match_word ''upgrade'' h_upgrade c p)
      | h_connection \<Rightarrow> Inr (if ch \<noteq> CHR '' '' then p\<lparr>header_state := h_general\<rparr> else p)
      | h_content_length \<Rightarrow> Inr (if ch \<noteq> CHR '' '' then p\<lparr>header_state := h_general\<rparr> else p)
      | h_transfer_encoding \<Rightarrow> Inr (if ch \<noteq> CHR '' '' then p\<lparr>header_state := h_general\<rparr> else p)
      | h_upgrade \<Rightarrow> Inr (if ch \<noteq> CHR '' '' then p\<lparr>header_state := h_general\<rparr> else p)
      | _ \<Rightarrow> Inl AssertFailed)"

definition step_header_field :: "'a settings \<Rightarrow> string \<Rightarrow> char \<Rightarrow> 'a run \<Rightarrow> 'a flow res" where
  "step_header_field S data ch r =
     (let field_done = (\<lambda>r. CALLBACK_DATA S data M_header_field (pos r) (pos r + 1) r (\<lambda>r. Inr (Next r))) in
      if TOKEN ch \<noteq> NUL then bindR (field_char (TOKEN ch) ch (parser r)) (\<lambda>p. Inr (Next (r\<lparr>parser := p\<rparr>)))
      else if ch = CHR '':'' then field_done (to_state s_header_value_start r)
      else if ch = CR then field_done (to_state s_header_almost_done r)
      else if ch = LF then field_done (to_state s_header_field_start r)
      else error HPE_INVALID_HEADER_TOKEN r)"

definition step_header_value_start :: "'a settings \<Rightarrow> string \<Rightarrow> char \<Rightarrow> 'a run \<Rightarrow> 'a flow res" where
  "step_header_value_start S data ch r =
     (if ch = CHR '' '' \<or> ch = CHR 0x09 then Inr (Next r)
      else let r = upd (\<lambda>p. p\<lparr>state := s_header_value, index := 0\<rparr>) (MARK M_header_value r);
               value_done = (\<lambda>r. CALLBACK_DATA S data M_header_value (pos r) (pos r + 1) r (\<lambda>r. Inr (Next r)));
               header = (\<lambda>h. Inr (Next (upd (\<lambda>p. p\<lparr>header_state := h\<rparr>) r))) in
        if ch = CR then value_done (upd (\<lambda>p. p\<lparr>header_state := h_general, state := s_header_almost_done\<rparr>) r)
        else if ch = LF then value_done (to_state s_header_field_start r)
        else case header_state (parser r) of
            h_upgrade \<Rightarrow> Inr (Next (upd (\<lambda>p. p\<lparr>flags := insert F_UPGRADE (flags p), header_state := h_general\<rparr>) r))
          | h_transfer_encoding \<Rightarrow>
              header (if LOWER ch = CHR ''c'' then h_matching_transfer_encoding_chunked else h_general)
          | h_content_length \<Rightarrow>
              if \<not> IS_NUM ch then error HPE_INVALID_CONTENT_LENGTH r
              else Inr (Next (upd (\<lambda>p. p\<lparr>content_length := digit ch\<rparr>) r))
          | h_connection \<Rightarrow>
              header (if LOWER ch = CHR ''k'' then h_matching_connection_keep_alive
                      else if LOWER ch = CHR ''c'' then h_matching_connection_close else h_general)
          | _ \<Rightarrow> header h_general)"

definition step_header_almost_done :: "char \<Rightarrow> 'a run \<Rightarrow> 'a flow res" where
  "step_header_almost_done ch r =
     STRICT_CHECK (ch \<noteq> LF) r
       (Inr (Next (upd (\<lambda>p. p\<lparr>state := s_header_value_lws, flags :=
          (case header_state p of
             h_connection_keep_alive \<Rightarrow> insert F_CONNECTION_KEEP_ALIVE (flags p)
           | h_connection_close \<Rightarrow> insert F_CONNECTION_CLOSE (flags p)
           | h_transfer_encoding_chunked \<Rightarrow> insert F_CHUNKED (flags p)
           | _ \<Rightarrow> flags p)\<rparr>) r)))"

text \<open>A number read digit by digit in 64 bits; the test for overflow is the code's.\<close>

definition add_digit :: "nat \<Rightarrow> nat \<Rightarrow> nat \<Rightarrow> nat option" where
  "add_digit base d n =
     (let t = (n * base + d) mod 2 ^ 64 in if t < n \<or> t = ULLONG_MAX then None else Some t)"

definition value_step :: "char \<Rightarrow> 'a run \<Rightarrow> 'a flow res" where
  "value_step ch r =
     (let keep = (\<lambda>f. Inr (Next (upd f r))) in
      case header_state (parser r) of
        h_general \<Rightarrow> Inr (Next r)
      | h_connection \<Rightarrow> Inl AssertFailed
      | h_transfer_encoding \<Rightarrow> Inl AssertFailed
      | h_content_length \<Rightarrow>
          if ch = CHR '' '' then Inr (Next r)
          else if \<not> IS_NUM ch then error HPE_INVALID_CONTENT_LENGTH r
          else (case add_digit 10 (digit ch) (content_length (parser r)) of
                  None \<Rightarrow> error HPE_INVALID_CONTENT_LENGTH r
                | Some t \<Rightarrow> keep (\<lambda>p. p\<lparr>content_length := t\<rparr>))
      | h_matching_transfer_encoding_chunked \<Rightarrow> keep (match_word ''chunked'' h_transfer_encoding_chunked (LOWER ch))
      | h_matching_connection_keep_alive \<Rightarrow> keep (match_word ''keep-alive'' h_connection_keep_alive (LOWER ch))
      | h_matching_connection_close \<Rightarrow> keep (match_word ''close'' h_connection_close (LOWER ch))
      | h_transfer_encoding_chunked \<Rightarrow> keep (\<lambda>p. if ch \<noteq> CHR '' '' then p\<lparr>header_state := h_general\<rparr> else p)
      | h_connection_keep_alive \<Rightarrow> keep (\<lambda>p. if ch \<noteq> CHR '' '' then p\<lparr>header_state := h_general\<rparr> else p)
      | h_connection_close \<Rightarrow> keep (\<lambda>p. if ch \<noteq> CHR '' '' then p\<lparr>header_state := h_general\<rparr> else p)
      | _ \<Rightarrow> keep (\<lambda>p. p\<lparr>state := s_header_value, header_state := h_general\<rparr>))"

definition step_header_value :: "'a settings \<Rightarrow> string \<Rightarrow> char \<Rightarrow> 'a run \<Rightarrow> 'a flow res" where
  "step_header_value S data ch r =
     (if ch = CR then
        CALLBACK_DATA S data M_header_value (pos r) (pos r + 1) (to_state s_header_almost_done r) (\<lambda>r. Inr (Next r))
      else if ch = LF then
        CALLBACK_DATA S data M_header_value (pos r) (pos r) (to_state s_header_almost_done r) (step_header_almost_done ch)
      else value_step ch r)"

definition step_header_value_lws :: "'a settings \<Rightarrow> char \<Rightarrow> 'a run \<Rightarrow> 'a flow res" where
  "step_header_value_lws S ch r =
     (if ch = CHR '' '' \<or> ch = CHR 0x09 then Inr (Next (to_state s_header_value_start r))
      else step_header_field_start S ch (to_state s_header_field_start r))"

section \<open>Bodies\<close>

definition step_message_done :: "'a settings \<Rightarrow> 'a run \<Rightarrow> 'a flow res" where
  "step_message_done S r = message_complete S (pos r + 1) r (\<lambda>r. Inr (Next r))"

text \<open>Take what the buffer has of the body and go to its last byte.\<close>

definition take_body :: "nat \<Rightarrow> 'a run \<Rightarrow> 'a run" where
  "take_body len r =
     (let to_read = min (content_length (parser r)) (len - pos r); r = MARK M_body r in
      (upd (\<lambda>p. p\<lparr>content_length := content_length p - to_read\<rparr>) r)\<lparr>pos := pos r + to_read - 1\<rparr>)"

definition step_body_identity :: "'a settings \<Rightarrow> string \<Rightarrow> nat \<Rightarrow> 'a run \<Rightarrow> 'a flow res" where
  "step_body_identity S data len r =
     bindR (assertR (content_length (parser r) \<noteq> 0 \<and> content_length (parser r) \<noteq> ULLONG_MAX)) (\<lambda>_.
     let r = take_body len r in
     if content_length (parser r) = 0 then
       CALLBACK_DATA S data M_body (pos r + 1) (pos r) (to_state s_message_done r) (step_message_done S)
     else Inr (Next r))"

definition step_body_identity_eof :: "nat \<Rightarrow> 'a run \<Rightarrow> 'a flow res" where
  "step_body_identity_eof len r = Inr (Next ((MARK M_body r)\<lparr>pos := len - 1\<rparr>))"

definition step_chunk_size_start :: "char \<Rightarrow> 'a run \<Rightarrow> 'a flow res" where
  "step_chunk_size_start ch r =
     bindR (assertR (nread (parser r) = 1)) (\<lambda>_.
     bindR (assertR (F_CHUNKED \<in> flags (parser r))) (\<lambda>_.
     if unhex ch = - 1 then error HPE_INVALID_CHUNK_SIZE r
     else Inr (Next (upd (\<lambda>p. p\<lparr>content_length := nat (unhex ch), state := s_chunk_size\<rparr>) r))))"

definition step_chunk_size :: "char \<Rightarrow> 'a run \<Rightarrow> 'a flow res" where
  "step_chunk_size ch r =
     bindR (assertR (F_CHUNKED \<in> flags (parser r))) (\<lambda>_.
     if ch = CR then Inr (Next (to_state s_chunk_size_almost_done r))
     else if unhex ch = - 1 then
       if ch = CHR '';'' \<or> ch = CHR '' '' then Inr (Next (to_state s_chunk_parameters r))
       else error HPE_INVALID_CHUNK_SIZE r
     else case add_digit 16 (nat (unhex ch)) (content_length (parser r)) of
         None \<Rightarrow> error HPE_INVALID_CONTENT_LENGTH r
       | Some t \<Rightarrow> Inr (Next (upd (\<lambda>p. p\<lparr>content_length := t\<rparr>) r)))"

definition step_chunk_parameters :: "char \<Rightarrow> 'a run \<Rightarrow> 'a flow res" where
  "step_chunk_parameters ch r =
     bindR (assertR (F_CHUNKED \<in> flags (parser r))) (\<lambda>_.
     if ch = CR then Inr (Next (to_state s_chunk_size_almost_done r)) else Inr (Next r))"

definition step_chunk_size_almost_done :: "char \<Rightarrow> 'a run \<Rightarrow> 'a flow res" where
  "step_chunk_size_almost_done ch r =
     bindR (assertR (F_CHUNKED \<in> flags (parser r))) (\<lambda>_.
     STRICT_CHECK (ch \<noteq> LF) r
       (let r = upd (\<lambda>p. p\<lparr>nread := 0\<rparr>) r in
        if content_length (parser r) = 0 then
          Inr (Next (upd (\<lambda>p. p\<lparr>flags := insert F_TRAILING (flags p), state := s_header_field_start\<rparr>) r))
        else Inr (Next (to_state s_chunk_data r))))"

definition step_chunk_data :: "nat \<Rightarrow> 'a run \<Rightarrow> 'a flow res" where
  "step_chunk_data len r =
     bindR (assertR (F_CHUNKED \<in> flags (parser r))) (\<lambda>_.
     bindR (assertR (content_length (parser r) \<noteq> 0 \<and> content_length (parser r) \<noteq> ULLONG_MAX)) (\<lambda>_.
     let r = take_body len r in
     Inr (Next (if content_length (parser r) = 0 then to_state s_chunk_data_almost_done r else r))))"

definition step_chunk_data_almost_done :: "'a settings \<Rightarrow> string \<Rightarrow> char \<Rightarrow> 'a run \<Rightarrow> 'a flow res" where
  "step_chunk_data_almost_done S data ch r =
     bindR (assertR (F_CHUNKED \<in> flags (parser r))) (\<lambda>_.
     bindR (assertR (content_length (parser r) = 0)) (\<lambda>_.
     STRICT_CHECK (ch \<noteq> CR) r
       (CALLBACK_DATA S data M_body (pos r) (pos r + 1) (to_state s_chunk_data_done r) (\<lambda>r. Inr (Next r)))))"

definition step_chunk_data_done :: "char \<Rightarrow> 'a run \<Rightarrow> 'a flow res" where
  "step_chunk_data_done ch r =
     bindR (assertR (F_CHUNKED \<in> flags (parser r))) (\<lambda>_.
     STRICT_CHECK (ch \<noteq> LF) r (Inr (Next (upd (\<lambda>p. p\<lparr>nread := 0, state := s_chunk_size_start\<rparr>) r))))"

section \<open>The loop\<close>

definition step_byte :: "'a settings \<Rightarrow> string \<Rightarrow> nat \<Rightarrow> char \<Rightarrow> 'a run \<Rightarrow> 'a flow res" where
  "step_byte S data len ch r =
     (case state (parser r) of
        s_dead \<Rightarrow> step_dead ch r
      | s_start_req_or_res \<Rightarrow> step_start_req_or_res S ch r
      | s_res_or_resp_H \<Rightarrow> step_res_or_resp_H ch r
      | s_start_res \<Rightarrow> step_start_res S ch r
      | s_res_H \<Rightarrow> step_constant (CHR ''T'') s_res_HT ch r
      | s_res_HT \<Rightarrow> step_constant (CHR ''T'') s_res_HTT ch r
      | s_res_HTT \<Rightarrow> step_constant (CHR ''P'') s_res_HTTP ch r
      | s_res_HTTP \<Rightarrow> step_constant (CHR ''/'') s_res_first_http_major ch r
      | s_res_first_http_major \<Rightarrow> step_first_major (CHR ''0'') s_res_http_major ch r
      | s_res_http_major \<Rightarrow> step_major s_res_first_http_minor ch r
      | s_res_first_http_minor \<Rightarrow> step_first_minor s_res_http_minor ch r
      | s_res_http_minor \<Rightarrow> step_res_minor ch r
      | s_res_first_status_code \<Rightarrow> step_first_status_code ch r
      | s_res_status_code \<Rightarrow> step_status_code ch r
      | s_res_status \<Rightarrow> step_status ch r
      | s_res_line_almost_done \<Rightarrow> step_res_line_almost_done S ch r
      | s_start_req \<Rightarrow> step_start_req S ch r
      | s_req_method \<Rightarrow> step_req_method ch r
      | s_req_spaces_before_url \<Rightarrow> step_spaces_before_url ch r
      | s_req_schema \<Rightarrow> step_schema ch r
      | s_req_schema_slash \<Rightarrow> step_schema ch r
      | s_req_schema_slash_slash \<Rightarrow> step_schema ch r
      | s_req_server_start \<Rightarrow> step_schema ch r
      | s_req_server \<Rightarrow> step_url S data ch r
      | s_req_server_with_at \<Rightarrow> step_url S data ch r
      | s_req_path \<Rightarrow> step_url S data ch r
      | s_req_query_string_start \<Rightarrow> step_url S data ch r
      | s_req_query_string \<Rightarrow> step_url S data ch r
      | s_req_fragment_start \<Rightarrow> step_url S data ch r
      | s_req_fragment \<Rightarrow> step_url S data ch r
      | s_req_http_start \<Rightarrow> step_http_start ch r
      | s_req_http_H \<Rightarrow> step_constant (CHR ''T'') s_req_http_HT ch r
      | s_req_http_HT \<Rightarrow> step_constant (CHR ''T'') s_req_http_HTT ch r
      | s_req_http_HTT \<Rightarrow> step_constant (CHR ''P'') s_req_http_HTTP ch r
      | s_req_http_HTTP \<Rightarrow> step_constant (CHR ''/'') s_req_first_http_major ch r
      | s_req_first_http_major \<Rightarrow> step_first_major (CHR ''1'') s_req_http_major ch r
      | s_req_http_major \<Rightarrow> step_major s_req_first_http_minor ch r
      | s_req_first_http_minor \<Rightarrow> step_first_minor s_req_http_minor ch r
      | s_req_http_minor \<Rightarrow> step_req_minor ch r
      | s_req_line_almost_done \<Rightarrow> step_req_line_almost_done ch r
      | s_header_field_start \<Rightarrow> step_header_field_start S ch r
      | s_header_field \<Rightarrow> step_header_field S data ch r
      | s_header_value_start \<Rightarrow> step_header_value_start S data ch r
      | s_header_value \<Rightarrow> step_header_value S data ch r
      | s_header_value_lws \<Rightarrow> step_header_value_lws S ch r
      | s_header_almost_done \<Rightarrow> step_header_almost_done ch r
      | s_chunk_size_start \<Rightarrow> step_chunk_size_start ch r
      | s_chunk_size \<Rightarrow> step_chunk_size ch r
      | s_chunk_parameters \<Rightarrow> step_chunk_parameters ch r
      | s_chunk_size_almost_done \<Rightarrow> step_chunk_size_almost_done ch r
      | s_headers_almost_done \<Rightarrow> step_headers_almost_done S ch r
      | s_headers_done \<Rightarrow> step_headers_done S ch r
      | s_chunk_data \<Rightarrow> step_chunk_data len r
      | s_chunk_data_almost_done \<Rightarrow> step_chunk_data_almost_done S data ch r
      | s_chunk_data_done \<Rightarrow> step_chunk_data_done ch r
      | s_body_identity \<Rightarrow> step_body_identity S data len r
      | s_body_identity_eof \<Rightarrow> step_body_identity_eof len r
      | s_message_done \<Rightarrow> step_message_done S r)"

text \<open>A byte that is done leaves the position in the data and never behind the byte.\<close>

named_theorems step_defs
named_theorems flow_rules

definition onwards :: "nat \<Rightarrow> 'a flow res \<Rightarrow> bool" where
  "onwards n f \<longleftrightarrow> (\<forall>r'. f = Inr (Next r') \<longrightarrow> n \<le> pos r')"

lemma upd_simps [simp]:
  "parser (upd f r) = f (parser r)" "pos (upd f r) = pos r" "marks (upd f r) = marks r" "obj (upd f r) = obj r"
  "parser (to_state s r) = (parser r)\<lparr>state := s\<rparr>" "pos (to_state s r) = pos r" "marks (to_state s r) = marks r"
  "obj (to_state s r) = obj r"
  "parser (MARK m r) = parser r" "pos (MARK m r) = pos r" "obj (MARK m r) = obj r" "pos (called e res r) = pos r"
  by (simp_all add: upd_def to_state_def MARK_def called_def split: prod.split)

lemma onwards_simps [simp]:
  "onwards n (Inl e)" "onwards n (Inr (Return k r))" "onwards n (error x r)" "onwards n (Inr (Next r)) \<longleftrightarrow> n \<le> pos r"
  by (simp_all add: onwards_def error_def)

lemma onwards_basic:
  "(b \<Longrightarrow> onwards n f) \<Longrightarrow> (\<not> b \<Longrightarrow> onwards n g) \<Longrightarrow> onwards n (if b then f else g)"
  "(\<And>x. onwards n (h x)) \<Longrightarrow> onwards n (bindR a h)"
  "onwards n none \<Longrightarrow> (\<And>x. onwards n (h x)) \<Longrightarrow> onwards n (case opt of None \<Rightarrow> none | Some x \<Rightarrow> h x)"
  "(\<And>x y z. onwards n (g3 x y z)) \<Longrightarrow> onwards n (case triple of (x, y, z) \<Rightarrow> g3 x y z)"
  by (cases a; auto split: option.split prod.split)+

lemma onwards_assert: "(b \<Longrightarrow> onwards n (h ())) \<Longrightarrow> onwards n (bindR (assertR b) h)"
  by (cases b) simp_all

lemma onwards_callbacks:
  assumes "\<And>r'. pos r' = pos r \<Longrightarrow> onwards n (k r')"
  shows "onwards n (CALLBACK_NOTIFY cb e er r k)" "onwards n (CALLBACK_DATA S data m stop er r k)"
    "onwards n (message_complete S er r k)" "onwards n (headers_complete S r k)"
  unfolding CALLBACK_NOTIFY_def CALLBACK_DATA_def message_complete_def headers_complete_def Let_def
  by (rule onwards_basic assms onwards_simps | simp)+

lemma onwards_strict: "onwards n f \<Longrightarrow> onwards n (STRICT_CHECK b r f)"
  by (simp add: STRICT_CHECK_def)

lemmas onwards_rules = onwards_assert onwards_basic onwards_callbacks onwards_strict onwards_simps(1-3)

lemma onwards_take_body: "0 < content_length (parser r) \<Longrightarrow> pos r < len \<Longrightarrow> pos r \<le> pos (take_body len r)"
  by (simp add: take_body_def Let_def)

lemmas step_groups =
  step_dead_def step_start_req_or_res_def step_res_or_resp_H_def step_start_res_def step_constant_def
  step_first_major_def step_major_def step_first_minor_def step_res_minor_def minor_digit_def step_first_status_code_def
  step_status_code_def step_status_def step_res_line_almost_done_def step_start_req_def step_req_method_def
  step_spaces_before_url_def step_schema_def step_url_def url_step_def step_http_start_def step_req_minor_def
  step_req_line_almost_done_def step_header_field_start_def step_header_field_def step_header_value_start_def
  step_header_value_def step_header_value_lws_def step_header_almost_done_def step_chunk_size_start_def
  step_chunk_size_def step_chunk_parameters_def step_chunk_size_almost_done_def step_headers_almost_done_def
  step_headers_done_def step_chunk_data_almost_done_def step_chunk_data_done_def step_body_identity_eof_def
  step_message_done_def

lemma onwards_step:
  assumes "pos r < len"
  shows "onwards (pos r) (step_byte S data len ch r)"
proof -
  have body: "onwards (pos r) (step_body_identity S data len r)" "onwards (pos r) (step_chunk_data len r)"
    unfolding step_body_identity_def step_chunk_data_def Let_def step_message_done_def
    by (intro onwards_assert onwards_rules; use assms in \<open>auto intro!: onwards_rules dest: onwards_take_body\<close>)+
  have val: "onwards (pos r) (value_step ch r)"
    unfolding value_step_def Let_def by (auto intro!: onwards_rules split: header_states.split)
  show ?thesis
    unfolding step_byte_def
    by (cases "state (parser r)"; simp only: http_state.case body; unfold step_groups Let_def;
        (rule onwards_rules val | simp split: header_states.split | use assms in simp)+)
qed

function execute_loop :: "'a settings \<Rightarrow> string \<Rightarrow> nat \<Rightarrow> 'a run \<Rightarrow> (nat \<times> 'a run) res" where
  "execute_loop S data len r =
     (if pos r < len then
        let ch = data ! pos r;
            r = (if PARSING_HEADER (state (parser r)) then upd (\<lambda>p. p\<lparr>nread := (nread p + 1) mod 2 ^ 32\<rparr>) r else r) in
        bindR (if PARSING_HEADER (state (parser r)) \<and> HTTP_MAX_HEADER_SIZE < nread (parser r)
               then error HPE_HEADER_OVERFLOW r else step_byte S data len ch r) (\<lambda>f.
        case f of
          Return n r \<Rightarrow> Inr (n, r)
        | Next r \<Rightarrow> execute_loop S data len (r\<lparr>pos := pos r + 1\<rparr>))
      else
        bindR (assertR (length (filter (\<lambda>m. marks r m \<noteq> None) [M_header_field, M_header_value, M_url, M_body]) \<le> 1)) (\<lambda>_.
        bindR (CALLBACK_DATA S data M_header_field (pos r) (pos r) r (\<lambda>r.
               CALLBACK_DATA S data M_header_value (pos r) (pos r) r (\<lambda>r.
               CALLBACK_DATA S data M_url (pos r) (pos r) r (\<lambda>r.
               CALLBACK_DATA S data M_body (pos r) (pos r) r (\<lambda>r. Inr (Return len r)))))) (\<lambda>f.
        case f of Return n r \<Rightarrow> Inr (n, r) | Next r \<Rightarrow> Inr (len, r))))"
  by pat_completeness auto
termination
proof (relation "measure (\<lambda>(S, data, len, r). len - pos r)", simp)
  fix S :: "'a settings" and data len ch and r u r' :: "'a run" and f
  assume r: "pos r < len" "u = (if PARSING_HEADER (state (parser r)) then upd (\<lambda>p. p\<lparr>nread := (nread p + 1) mod 2 ^ 32\<rparr>) r else r)"
    and f: "(if PARSING_HEADER (state (parser u)) \<and> HTTP_MAX_HEADER_SIZE < nread (parser u)
       then error HPE_HEADER_OVERFLOW u else step_byte S data len ch u) = Inr f" "f = Next r'"
  have "pos u = pos r" using r(2) by simp
  then have "pos r \<le> pos r'"
    using f r(1) onwards_step[of u len S data ch] by (auto simp: onwards_def error_def split: if_splits)
  with r(1) show "((S, data, len, r'\<lparr>pos := pos r' + 1\<rparr>), S, data, len, r) \<in> measure (\<lambda>(S, data, len, r). len - pos r)"
    by simp
qed

declare execute_loop.simps [simp del]

text \<open>A field that goes on from an earlier call is marked at the first byte.\<close>

definition start_marks :: "http_state \<Rightarrow> mark \<Rightarrow> nat option" where
  "start_marks s =
     (if s = s_header_field then (\<lambda>_. None)(M_header_field := Some 0)
      else if s = s_header_value then (\<lambda>_. None)(M_header_value := Some 0)
      else if s \<in> {s_req_path, s_req_schema, s_req_schema_slash, s_req_schema_slash_slash, s_req_server_start,
          s_req_server, s_req_server_with_at, s_req_query_string_start, s_req_query_string, s_req_fragment_start,
          s_req_fragment} then (\<lambda>_. None)(M_url := Some 0)
      else (\<lambda>_. None))"

definition http_parser_execute ::
  "'a settings \<Rightarrow> string \<Rightarrow> nat \<Rightarrow> http_parser \<Rightarrow> 'a \<Rightarrow> (nat \<times> http_parser \<times> 'a) res" where
  "http_parser_execute S data len p x =
     (let r = \<lparr>parser = p, marks = start_marks (state p), pos = 0, obj = x\<rparr> in
      if length data < len then Inl OutOfBounds
      else if http_errno p \<noteq> HPE_OK then Inr (0, p, x)
      else if len = 0 then
        if state p = s_body_identity_eof then
          bindR (CALLBACK_NOTIFY (on_message_complete S) HPE_CB_message_complete 0 r (\<lambda>r. Inr (Return 0 r))) (\<lambda>f.
          case f of Return n r \<Rightarrow> Inr (n, parser r, obj r) | Next r \<Rightarrow> Inr (0, parser r, obj r))
        else if state p \<in> {s_dead, s_start_req_or_res, s_start_res, s_start_req} then Inr (0, p, x)
        else Inr (1, p\<lparr>http_errno := HPE_INVALID_EOF_STATE\<rparr>, x)
      else bindR (execute_loop S data len r) (\<lambda>(n, r). Inr (n, parser r, obj r)))"

definition http_parser_init :: "http_parser_type \<Rightarrow> http_parser" where
  "http_parser_init t =
     \<lparr>kind = t, flags = {},
      state = (if t = HTTP_REQUEST then s_start_req else if t = HTTP_RESPONSE then s_start_res else s_start_req_or_res),
      header_state = h_general, index = 0, nread = 0, content_length = 0, http_major = 0, http_minor = 0,
      status_code = 0, req_method = HTTP_DELETE, http_errno = HPE_OK, upgrade = False\<rparr>"

definition http_method_str :: "http_method \<Rightarrow> string" where
  "http_method_str m = method_strings m"

definition http_parser_pause :: "bool \<Rightarrow> http_parser \<Rightarrow> http_parser res" where
  "http_parser_pause paused p =
     (if http_errno p = HPE_OK \<or> http_errno p = HPE_PAUSED
      then Inr (p\<lparr>http_errno := if paused then HPE_PAUSED else HPE_OK\<rparr>) else Inl AssertFailed)"

definition http_body_is_final :: "http_parser \<Rightarrow> bool" where
  "http_body_is_final p \<longleftrightarrow> state p = s_message_done"

definition http_parser_version :: nat where
  "http_parser_version = 2 * 0x10000 + 1 * 0x100 + 0"

section \<open>Parsing a URL\<close>

datatype http_host_state =
    s_http_host_dead | s_http_userinfo_start | s_http_userinfo | s_http_host_start | s_http_host_v6_start | s_http_host
  | s_http_host_v6 | s_http_host_v6_end | s_http_host_port_start | s_http_host_port

definition http_parse_host_char :: "http_host_state \<Rightarrow> char \<Rightarrow> http_host_state" where
  "http_parse_host_char s ch =
     (let user = (if ch = CHR ''@'' then s_http_host_start else if IS_USERINFO_CHAR ch then s_http_userinfo else s_http_host_dead);
          v6_end = (if ch = CHR '':'' then s_http_host_port_start else s_http_host_dead);
          v6 = (if IS_HEX ch \<or> ch = CHR '':'' \<or> ch = CHR ''.'' then s_http_host_v6 else s_http_host_dead);
          port_char = (if IS_NUM ch then s_http_host_port else s_http_host_dead) in
      case s of
        s_http_userinfo \<Rightarrow> user
      | s_http_userinfo_start \<Rightarrow> user
      | s_http_host_start \<Rightarrow>
          if ch = CHR ''['' then s_http_host_v6_start else if IS_HOST_CHAR ch then s_http_host else s_http_host_dead
      | s_http_host \<Rightarrow> if IS_HOST_CHAR ch then s_http_host else v6_end
      | s_http_host_v6_end \<Rightarrow> v6_end
      | s_http_host_v6 \<Rightarrow> if ch = CHR '']'' then s_http_host_v6_end else v6
      | s_http_host_v6_start \<Rightarrow> v6
      | s_http_host_port \<Rightarrow> port_char
      | s_http_host_port_start \<Rightarrow> port_char
      | s_http_host_dead \<Rightarrow> s_http_host_dead)"

datatype url_field = UF_SCHEMA | UF_HOST | UF_PORT | UF_PATH | UF_QUERY | UF_FRAGMENT | UF_USERINFO

record http_parser_url =
  field_set :: "url_field set"
  port :: nat
  off :: "url_field \<Rightarrow> nat"
  flen :: "url_field \<Rightarrow> nat"

text \<open>Offsets and lengths have 16 bits.\<close>

definition set_off :: "url_field \<Rightarrow> nat \<Rightarrow> http_parser_url \<Rightarrow> http_parser_url" where
  "set_off f n u = u\<lparr>off := (off u)(f := n mod 2 ^ 16)\<rparr>"

definition set_len :: "url_field \<Rightarrow> nat \<Rightarrow> http_parser_url \<Rightarrow> http_parser_url" where
  "set_len f n u = u\<lparr>flen := (flen u)(f := n mod 2 ^ 16)\<rparr>"

definition longer :: "url_field \<Rightarrow> http_parser_url \<Rightarrow> http_parser_url" where
  "longer f u = set_len f (flen u f + 1) u"

definition new_field :: "url_field \<Rightarrow> nat \<Rightarrow> http_parser_url \<Rightarrow> http_parser_url" where
  "new_field f p u = (set_len f 0 (set_off f p u))\<lparr>field_set := insert f (field_set u)\<rparr>"

text \<open>The loop over the host; \<open>p\<close> is the position of the first character of the list.\<close>

fun host_loop :: "string \<Rightarrow> nat \<Rightarrow> http_host_state \<Rightarrow> http_parser_url \<Rightarrow> http_host_state \<times> http_parser_url" where
  "host_loop [] p s u = (s, u)"
| "host_loop (ch # cs) p s u =
     (let new_s = http_parse_host_char s ch in
      if new_s = s_http_host_dead then (s_http_host_dead, u)
      else host_loop cs (p + 1) new_s
        (case new_s of
           s_http_host \<Rightarrow> longer UF_HOST (if s \<noteq> s_http_host then set_off UF_HOST p u else u)
         | s_http_host_v6 \<Rightarrow> longer UF_HOST (if s \<noteq> s_http_host_v6 then set_off UF_HOST p u else u)
         | s_http_host_port \<Rightarrow> longer UF_PORT (if s \<noteq> s_http_host_port then new_field UF_PORT p u else u)
         | s_http_userinfo \<Rightarrow> longer UF_USERINFO (if s \<noteq> s_http_userinfo then new_field UF_USERINFO p u else u)
         | _ \<Rightarrow> u))"

text \<open>0 on success, 1 on failure.\<close>

definition http_parse_host :: "string \<Rightarrow> http_parser_url \<Rightarrow> bool \<Rightarrow> (nat \<times> http_parser_url) res" where
  "http_parse_host buf u found_at =
     bindR (mem_read buf (off u UF_HOST) (flen u UF_HOST)) (\<lambda>host.
     let (s, u) = host_loop host (off u UF_HOST) (if found_at then s_http_userinfo_start else s_http_host_start)
           (set_len UF_HOST 0 u) in
     Inr (if s \<in> {s_http_host_dead, s_http_host_start, s_http_host_v6_start, s_http_host_v6, s_http_host_port_start,
         s_http_userinfo, s_http_userinfo_start} then 1 else 0, u))"

text \<open>The loop over the URL: whether it is one, whether an at sign was found, and the fields.\<close>

fun url_field_of :: "http_state \<Rightarrow> url_field option" where
  "url_field_of s_req_schema = Some UF_SCHEMA"
| "url_field_of s_req_server_with_at = Some UF_HOST"
| "url_field_of s_req_server = Some UF_HOST"
| "url_field_of s_req_path = Some UF_PATH"
| "url_field_of s_req_query_string = Some UF_QUERY"
| "url_field_of s_req_fragment = Some UF_FRAGMENT"
| "url_field_of _ = None"

fun url_loop :: "string \<Rightarrow> nat \<Rightarrow> http_state \<Rightarrow> url_field option \<Rightarrow> bool \<Rightarrow> http_parser_url \<Rightarrow> (bool \<times> bool \<times> http_parser_url) res" where
  "url_loop [] p s old found_at u = Inr (True, found_at, u)"
| "url_loop (ch # cs) p s old found_at u =
     (let s = parse_url_char s ch in
      if s = s_dead then Inr (False, found_at, u)
      else if s \<in> {s_req_schema_slash, s_req_schema_slash_slash, s_req_server_start, s_req_query_string_start,
        s_req_fragment_start} then url_loop cs (p + 1) s old found_at u
      else case url_field_of s of
        None \<Rightarrow> Inl AssertFailed
      | Some uf \<Rightarrow> url_loop cs (p + 1) s (Some uf) (found_at \<or> s = s_req_server_with_at)
          (if Some uf = old then longer uf u
           else (set_len uf 1 (set_off uf p u))\<lparr>field_set := insert uf (field_set u)\<rparr>))"

text \<open>\<open>strtoul\<close> of a text that starts with a digit; it saturates above every port.\<close>

fun strtoul :: "string \<Rightarrow> nat \<Rightarrow> nat res" where
  "strtoul [] n = Inl OutOfBounds"
| "strtoul (c # cs) n = (if IS_NUM c then strtoul cs (n * 10 + digit c) else Inr n)"

definition http_parser_parse_url :: "string \<Rightarrow> nat \<Rightarrow> bool \<Rightarrow> http_parser_url \<Rightarrow> (nat \<times> http_parser_url) res" where
  "http_parser_parse_url buf buflen is_connect u =
     bindR (mem_read buf 0 buflen) (\<lambda>text.
     let u = u\<lparr>port := 0, field_set := {}\<rparr> in
     bindR (url_loop text 0 (if is_connect then s_req_server_start else s_req_spaces_before_url) None False u)
       (\<lambda>(ok, found_at, u).
         if \<not> ok then Inr (1, u)
         else bindR (if UF_SCHEMA \<in> field_set u \<or> UF_HOST \<in> field_set u then http_parse_host buf u found_at else Inr (0, u)) (\<lambda>(ret, u).
         if ret \<noteq> 0 then Inr (1, u)
         else if is_connect \<and> field_set u \<noteq> {UF_HOST, UF_PORT} then Inr (1, u)
         else if UF_PORT \<in> field_set u then
           bindR (strtoul (drop (off u UF_PORT) buf) 0) (\<lambda>v.
           if v > 0xffff then Inr (1, u) else Inr (0, u\<lparr>port := v\<rparr>))
         else Inr (0, u))))"

end
