(* ===== verification/HttpSafety.thy ===== *)
theory HttpSafety
  imports HttpParser
begin

text \<open>
  The HTTP parser keeps an invariant of its state machine, so that none of its assertions fails, its tables are read
  inside their bounds and the callbacks get slices of the data, whatever the data and however it is cut.
\<close>

section \<open>The invariant\<close>

text \<open>What holds of the parser between two bytes, by its state.\<close>

definition chunk_state :: "http_state \<Rightarrow> bool" where
  "chunk_state s \<longleftrightarrow> s \<in> {s_chunk_size_start, s_chunk_size, s_chunk_parameters, s_chunk_size_almost_done, s_chunk_data,
     s_chunk_data_almost_done, s_chunk_data_done}"

definition field_states :: "header_states set" where
  "field_states = {h_general, h_C, h_CO, h_CON, h_matching_connection, h_matching_proxy_connection,
     h_matching_content_length, h_matching_transfer_encoding, h_matching_upgrade, h_connection, h_content_length,
     h_transfer_encoding, h_upgrade}"

definition well0 :: "http_parser \<Rightarrow> bool" where
  "well0 p \<longleftrightarrow> content_length p \<le> ULLONG_MAX \<and>
     (state p = s_req_method \<longrightarrow> index p \<le> length (method_strings (req_method p))) \<and>
     (state p = s_header_field \<longrightarrow> header_state p \<in> field_states) \<and>
     (state p = s_header_value \<longrightarrow> header_state p \<notin> {h_connection, h_transfer_encoding}) \<and>
     (state p = s_body_identity \<longrightarrow> content_length p \<notin> {0, ULLONG_MAX}) \<and>
     (chunk_state (state p) \<longrightarrow> F_CHUNKED \<in> flags p) \<and>
     (state p \<in> {s_chunk_size, s_chunk_parameters, s_chunk_size_almost_done} \<longrightarrow> content_length p \<noteq> ULLONG_MAX) \<and>
     (state p = s_chunk_data \<longrightarrow> content_length p \<notin> {0, ULLONG_MAX}) \<and>
     (state p = s_chunk_data_almost_done \<longrightarrow> content_length p = 0)"

definition well :: "http_parser \<Rightarrow> bool" where
  "well p \<longleftrightarrow> well0 p \<and> (state p = s_chunk_size_start \<longrightarrow> nread p = 0)"

text \<open>The states in which a field is marked.\<close>

fun mark_states :: "mark \<Rightarrow> http_state set" where
  "mark_states M_header_field = {s_header_field}"
| "mark_states M_header_value = {s_header_value}"
| "mark_states M_url = {s_req_schema, s_req_schema_slash, s_req_schema_slash_slash, s_req_server_start, s_req_server,
     s_req_server_with_at, s_req_path, s_req_query_string_start, s_req_query_string, s_req_fragment_start, s_req_fragment}"
| "mark_states M_body = {s_body_identity, s_body_identity_eof, s_chunk_data, s_chunk_data_almost_done}"

definition marked :: "'a run \<Rightarrow> bool" where
  "marked r \<longleftrightarrow> (\<forall>m a. marks r m = Some a \<longrightarrow> state (parser r) \<in> mark_states m \<and> a \<le> pos r)"

text \<open>Between two bytes, and when the function returns to be called again.\<close>

definition run_ok :: "nat \<Rightarrow> 'a run \<Rightarrow> bool" where
  "run_ok len r \<longleftrightarrow> http_errno (parser r) = HPE_OK \<and> well (parser r) \<and> marked r \<and> pos r < len"

definition safe :: "nat \<Rightarrow> 'a flow res \<Rightarrow> bool" where
  "safe len f \<longleftrightarrow> (case f of
       Inr (Next r) \<Rightarrow> run_ok len r
     | Inr (Return n r) \<Rightarrow> n \<le> len \<and> (http_errno (parser r) \<in> {HPE_OK, HPE_PAUSED} \<longrightarrow> well (parser r))
     | Inl e \<Rightarrow> False)"

text \<open>Callbacks that do not fail, the data callbacks when they are given a slice of the data.\<close>

definition calm :: "'a settings \<Rightarrow> bool" where
  "calm S \<longleftrightarrow>
     (\<forall>f\<in>{on_message_begin S, on_status_complete S, on_headers_complete S, on_message_complete S}. \<forall>g p x.
        f = Some g \<longrightarrow> (\<exists>y. g p x = Inr y))"

definition slices :: "'a settings \<Rightarrow> string \<Rightarrow> nat \<Rightarrow> bool" where
  "slices S data len \<longleftrightarrow>
     (\<forall>m g p at n x. on_data S m = Some g \<and> at + n \<le> len \<longrightarrow> (\<exists>y. g p (drop at data) n x = Inr y))"

section \<open>Rules\<close>

lemma well_errno [simp]: "well (p\<lparr>http_errno := e\<rparr>) = well p"
  by (simp add: well_def well0_def)

lemma safe_simps [simp]:
  "\<not> safe len (Inl e)" "safe len (Inr (Next r)) = run_ok len r"
  by (simp_all add: safe_def)

lemma safe_error [simp]: "pos r \<le> len \<Longrightarrow> e \<notin> {HPE_OK, HPE_PAUSED} \<Longrightarrow> safe len (error e r)"
  by (simp add: safe_def error_def)

lemma safe_if: "(b \<Longrightarrow> safe len f) \<Longrightarrow> (\<not> b \<Longrightarrow> safe len g) \<Longrightarrow> safe len (if b then f else g)"
  by simp

lemma safe_strict: "pos r \<le> len \<Longrightarrow> (\<not> b \<Longrightarrow> safe len f) \<Longrightarrow> safe len (STRICT_CHECK b r f)"
  by (simp add: STRICT_CHECK_def)

lemma safe_notify:
  assumes "\<forall>g p x. cb = Some g \<longrightarrow> (\<exists>y. g p x = Inr y)" "http_errno (parser r) = HPE_OK" "er \<le> len" "well (parser r)"
    and k: "\<And>x. safe len (k (r\<lparr>obj := x\<rparr>))"
  shows "safe len (CALLBACK_NOTIFY cb e er r k)"
proof (cases cb)
  case None
  with k[of "obj r"] assms(2) show ?thesis by (simp add: CALLBACK_NOTIFY_def)
next
  case (Some g)
  with assms(1) obtain n paused x where g: "g (parser r) (obj r) = Inr (n, paused, x)" by (metis prod_cases3)
  have "called e (n, paused, x) r = r\<lparr>obj := x\<rparr>" if "http_errno (parser (called e (n, paused, x) r)) = HPE_OK"
    using that assms(2) by (auto simp: called_def upd_def split: if_splits)
  moreover have "well (parser (called e (n, paused, x) r))" using assms(4) by (simp add: called_def upd_def)
  ultimately show ?thesis using Some g assms(2,3) k[of x]
    by (auto simp: CALLBACK_NOTIFY_def Let_def safe_def[of _ "Inr (Return _ _)"])
qed

lemma safe_data:
  assumes "slices S data len" "http_errno (parser r) = HPE_OK" "er \<le> len" "well (parser r)" "stop \<le> len"
    and at: "\<And>a. marks r m = Some a \<Longrightarrow> a \<le> stop"
    and k: "\<And>x. safe len (k (r\<lparr>obj := x, marks := (marks r)(m := None)\<rparr>))"
  shows "safe len (CALLBACK_DATA S data m stop er r k)"
proof (cases "marks r m")
  case None
  then have "r\<lparr>obj := obj r, marks := (marks r)(m := None)\<rparr> = r" by (simp add: fun_upd_idem)
  with k[of "obj r"] None assms(2) show ?thesis by (simp add: CALLBACK_DATA_def)
next
  case (Some a)
  show ?thesis
  proof (cases "on_data S m")
    case None
    with k[of "obj r"] Some assms(2) show ?thesis by (simp add: CALLBACK_DATA_def)
  next
    case (Some g)
    have "a + (stop - a) \<le> len" using assms(5) at[OF \<open>marks r m = Some a\<close>] by simp
    with assms(1) Some obtain n paused x where g: "g (parser r) (drop a data) (stop - a) (obj r) = Inr (n, paused, x)"
      unfolding slices_def by (metis prod_cases3)
    have "called (HPE_CB m) (n, paused, x) r = r\<lparr>obj := x\<rparr>"
      if "http_errno (parser (called (HPE_CB m) (n, paused, x) r)) = HPE_OK"
      using that assms(2) by (cases m) (auto simp: called_def upd_def split: if_splits)
    moreover have "well (parser (called (HPE_CB m) (n, paused, x) r))" using assms(4) by (simp add: called_def upd_def)
    ultimately show ?thesis using Some \<open>marks r m = Some a\<close> g assms(2,3) k[of x]
      by (auto simp: CALLBACK_DATA_def Let_def safe_def[of _ "Inr (Return _ _)"])
  qed
qed

lemma well_new_message [simp]: "content_length p \<le> ULLONG_MAX \<Longrightarrow> well (p\<lparr>state := NEW_MESSAGE p\<rparr>)"
  by (auto simp: well_def well0_def chunk_state_def NEW_MESSAGE_def start_state_def)

lemma safe_message_complete:
  assumes "calm S" "http_errno (parser r) = HPE_OK" "er \<le> len" "content_length (parser r) \<le> ULLONG_MAX"
    and k: "\<And>x. safe len (k (r\<lparr>parser := (parser r)\<lparr>state := NEW_MESSAGE (parser r)\<rparr>, obj := x\<rparr>))"
  shows "safe len (message_complete S er r k)"
  unfolding message_complete_def
  by (rule safe_notify) (use assms in \<open>auto simp: calm_def to_state_def upd_def\<close>)

lemma safe_headers_complete:
  assumes "calm S" "http_errno (parser r) = HPE_OK" "pos r \<le> len" "well (parser r)" "state (parser r) = s_headers_done"
    and k: "\<And>fs x. safe len (k (r\<lparr>obj := x, parser := (parser r)\<lparr>flags := fs\<rparr>\<rparr>))"
  shows "safe len (headers_complete S r k)"
proof (cases "on_headers_complete S")
  case None
  with k[where fs = "flags (parser r)" and x = "obj r"] assms(2) show ?thesis by (simp add: headers_complete_def Let_def)
next
  case (Some g)
  with assms(1) obtain n paused x where g: "g (parser r) (obj r) = Inr (n, paused, x)"
    unfolding calm_def by (metis insertI1 insertI2 prod_cases3)
  have c: "called HPE_OK (0 :: int, False, x) r = r\<lparr>obj := x\<rparr>"
    "called HPE_OK (0 :: int, True, x) r = r\<lparr>parser := (parser r)\<lparr>http_errno := HPE_PAUSED\<rparr>, obj := x\<rparr>"
    using assms(2) by (simp_all add: called_def upd_def)
  have w: "well ((parser r)\<lparr>http_errno := HPE_PAUSED, flags := fs\<rparr>)" for fs
    using assms(4,5) by (simp add: well_def well0_def chunk_state_def)
  show ?thesis
    using Some g assms(2-4) k[where fs = "flags (parser r)" and x = x]
      k[where fs = "insert F_SKIPBODY (flags (parser r))" and x = x] w
    by (cases paused; cases "n = 0"; cases "n = 1")
      (simp_all add: headers_complete_def Let_def c upd_def safe_def[of _ "Inr (Return _ _)"])
qed

section \<open>Every byte\<close>

lemma digit_small [simp]: "digit ch \<le> ULLONG_MAX" "digit ch \<noteq> ULLONG_MAX"
proof -
  have "ord ch < (256 :: nat)" by (rule nat_of_char_less_256)
  then have "digit ch < 256" unfolding digit_def by linarith
  then show "digit ch \<le> ULLONG_MAX" "digit ch \<noteq> ULLONG_MAX" by (simp_all add: ULLONG_MAX_def)
qed

lemma unhex_small [simp]: "nat (unhex ch) \<le> ULLONG_MAX" "nat (unhex ch) \<noteq> ULLONG_MAX"
proof -
  have "ord ch < (256 :: nat)" by (rule nat_of_char_less_256)
  then have "nat (unhex ch) < 300" unfolding unhex_def by (simp, linarith)
  then show "nat (unhex ch) \<le> ULLONG_MAX" "nat (unhex ch) \<noteq> ULLONG_MAX" by (simp_all add: ULLONG_MAX_def)
qed

lemma add_digit_small: "add_digit base d n = Some t \<Longrightarrow> t < ULLONG_MAX"
proof -
  assume "add_digit base d n = Some t"
  then have "t = (n * base + d) mod 2 ^ 64" "t \<noteq> ULLONG_MAX" by (auto simp: add_digit_def Let_def split: if_splits)
  moreover have "(n * base + d) mod 2 ^ 64 < 2 ^ 64" by simp
  ultimately show "t < ULLONG_MAX" by (simp add: ULLONG_MAX_def del: mod_less_divisor)
qed

lemma add_digit_ok [dest]: "add_digit base d n = Some t \<Longrightarrow> t \<le> ULLONG_MAX \<and> t \<noteq> ULLONG_MAX"
  using add_digit_small[of base d n t] by simp

definition entered :: "nat \<Rightarrow> 'a run \<Rightarrow> bool" where
  "entered len r \<longleftrightarrow> http_errno (parser r) = HPE_OK \<and> well0 (parser r) \<and> marked r \<and> pos r < len \<and>
     (state (parser r) = s_chunk_size_start \<longrightarrow> nread (parser r) = 1)"

lemma unmarked: "marked r \<Longrightarrow> state (parser r) \<notin> mark_states m \<Longrightarrow> marks r m = None"
  unfolding marked_def by (cases "marks r m") auto

lemma marked_none [simp]: "(\<And>m. marks r m = None) \<Longrightarrow> marked r"
  by (simp add: marked_def)

lemmas safe_rules = safe_if safe_strict

lemmas inv_defs = run_ok_def well_def well0_def chunk_state_def entered_def

lemma other_method_index: "other_method m i ch = Some m' \<Longrightarrow> i + 1 \<le> length (method_strings m')"
  by (auto simp: other_method_def split: if_splits)

lemma safe_method:
  assumes "entered len r" "state (parser r) = s_req_method"
  shows "safe len (step_req_method ch r)"
proof -
  let ?p = "parser r"
  have m: "marks r m = None" for m using assms by (cases m) (auto simp: entered_def intro!: unmarked)
  have i: "index ?p \<le> length (method_strings (req_method ?p))" using assms by (simp add: entered_def well0_def)
  have l: "length (method_strings x) \<le> 11" for x by (cases x) simp_all
  have j: "(index ?p + 1) mod 2 ^ 8 = index ?p + 1" using i l[of "req_method ?p"] by simp
  have n: "ch \<noteq> NUL \<Longrightarrow> ch = (method_strings (req_method ?p) @ [NUL]) ! index ?p \<Longrightarrow> index ?p + 1 \<le> length (method_strings (req_method ?p))"
    using i by (auto simp: nth_append split: if_splits)
  show ?thesis
    using assms i j n m unfolding step_req_method_def Let_def
    by (auto intro!: safe_rules marked_none simp: inv_defs marked_def dest: other_method_index split: option.split)
qed

lemma field_char_ok:
  assumes "header_state p \<in> field_states"
  obtains q where "field_char c ch p = Inr q" "q = p\<lparr>index := index q, header_state := header_state q\<rparr>"
    "header_state q \<in> field_states"
proof -
  have m: "match_word word found c p = p\<lparr>index := index (match_word word found c p), header_state := header_state (match_word word found c p)\<rparr>"
    "found \<in> field_states \<Longrightarrow> header_state (match_word word found c p) \<in> field_states" for word found
    using assms by (auto simp: match_word_def Let_def field_states_def)
  have "\<exists>q. field_char c ch p = Inr q \<and> q = p\<lparr>index := index q, header_state := header_state q\<rparr> \<and> header_state q \<in> field_states"
  proof (cases "header_state p \<in> {h_matching_connection, h_matching_proxy_connection, h_matching_content_length,
      h_matching_transfer_encoding, h_matching_upgrade}")
    case True
    then obtain word found where "field_char c ch p = Inr (match_word word found c p)" "found \<in> field_states"
      unfolding field_char_def field_states_def by auto
    with m[where word = word and found = found] show ?thesis by blast
  next
    case False
    with assms show ?thesis by (cases "header_state p") (auto simp: field_char_def next_letter_def field_states_def)
  qed
  with that show ?thesis by blast
qed

lemma only_mark:
  assumes "marked r" "state (parser r) \<in> mark_states m0" "marks r m = Some a"
  shows "m = m0 \<and> a \<le> pos r"
  using assms unfolding marked_def by (cases m; cases m0) fastforce+

lemma safe_header_field:
  assumes "entered len r" "state (parser r) = s_header_field" "calm S" "slices S data len"
  shows "safe len (step_header_field S data ch r)"
proof -
  have h: "header_state (parser r) \<in> field_states" using assms by (simp add: entered_def well0_def)
  have m: "marks r m = Some a \<Longrightarrow> m = M_header_field \<and> a \<le> pos r" for m a
    using only_mark[of r M_header_field] assms by (simp add: entered_def)
  obtain q where f: "field_char (TOKEN ch) ch (parser r) = Inr q"
      "q = (parser r)\<lparr>index := index q, header_state := header_state q\<rparr>" "header_state q \<in> field_states"
    using field_char_ok[OF h] .
  from f(2) have q: "state q = s_header_field" "http_errno q = HPE_OK" "content_length q = content_length (parser r)"
    using assms by (metis entered_def http_parser.select_convs http_parser.surjective http_parser.update_convs)+
  have "run_ok len (r\<lparr>parser := q\<rparr>)"
    using assms q f(3) by (auto simp: inv_defs marked_def)
  moreover have "safe len (CALLBACK_DATA S data M_header_field (pos r) (pos r + 1) (to_state s r) (\<lambda>r. Inr (Next r)))"
    if "s \<in> {s_header_value_start, s_header_almost_done, s_header_field_start}" for s
    using that assms m by (auto intro!: safe_data simp: inv_defs marked_def)
  ultimately show ?thesis using assms f unfolding step_header_field_def Let_def
    by (auto simp: entered_def)
qed

lemma safe_value_char:
  assumes "entered len r" "state (parser r) = s_header_value"
  shows "safe len (value_step ch r)"
proof -
  have m: "marks r m = Some a \<Longrightarrow> m = M_header_value \<and> a \<le> pos r" for m a
    using only_mark[of r M_header_value] assms by (simp add: entered_def)
  have w: "header_state (match_word word found c p) \<in> {header_state p, h_general, found}" "state (match_word word found c p) = state p"
      "http_errno (match_word word found c p) = http_errno p" for word found c p
    by (auto simp: match_word_def Let_def)
  show ?thesis
    using assms m unfolding value_step_def Let_def
    by (cases "header_state (parser r)")
      (auto intro!: safe_rules simp: inv_defs marked_def match_word_def Let_def split: option.split)
qed

text \<open>States in which nothing is marked.\<close>

definition unmarked_state :: "http_state \<Rightarrow> bool" where
  "unmarked_state s \<longleftrightarrow> (\<forall>m. s \<notin> mark_states m)"

lemma no_marks: "marked r \<Longrightarrow> unmarked_state (state (parser r)) \<Longrightarrow> marks r = (\<lambda>_. None)"
  by (auto simp: unmarked_state_def fun_eq_iff intro: unmarked)

lemma unmarked_stateI [simp]:
  "unmarked_state s_dead" "unmarked_state s_start_req" "unmarked_state s_start_res" "unmarked_state s_start_req_or_res"
  "unmarked_state s_header_value_start" "unmarked_state s_header_field_start" "unmarked_state s_headers_almost_done"
  "unmarked_state s_headers_done" "unmarked_state s_message_done" "unmarked_state s_header_almost_done"
  "unmarked_state s_header_value_lws" "unmarked_state s_req_spaces_before_url" "unmarked_state s_res_line_almost_done"
  "unmarked_state s_chunk_data_done"
  unfolding unmarked_state_def by (rule allI, case_tac m, simp_all)+

lemma safe_header_value_start:
  assumes "entered len r" "state (parser r) = s_header_value_start" "calm S" "slices S data len"
  shows "safe len (step_header_value_start S data ch r)"
proof -
  have n: "marks r = (\<lambda>_. None)" using assms(1,2) no_marks[of r] by (simp add: entered_def)
  have "safe len (CALLBACK_DATA S data M_header_value (pos r) (pos r + 1)
      (upd (\<lambda>p. p\<lparr>header_state := h_general, state := s_header_almost_done\<rparr>)
        (upd (\<lambda>p. p\<lparr>state := s_header_value, index := 0\<rparr>) (MARK M_header_value r))) (\<lambda>r. Inr (Next r)))"
    "safe len (CALLBACK_DATA S data M_header_value (pos r) (pos r + 1)
      (to_state s_header_field_start (upd (\<lambda>p. p\<lparr>state := s_header_value, index := 0\<rparr>) (MARK M_header_value r)))
      (\<lambda>r. Inr (Next r)))"
    using assms n by (auto intro!: safe_data simp: inv_defs marked_def MARK_def)
  then show ?thesis
    using assms n unfolding step_header_value_start_def Let_def
    by (cases "header_state (parser r)")
      (auto intro!: safe_rules simp: inv_defs marked_def MARK_def)
qed

lemma safe_header_almost_done:
  "entered len r \<Longrightarrow> state (parser r) = s_header_almost_done \<Longrightarrow> safe len (step_header_almost_done ch r)"
  using no_marks[of r] unfolding step_header_almost_done_def
  by (auto intro!: safe_rules simp: inv_defs marked_def)

lemma safe_header_value:
  assumes "entered len r" "state (parser r) = s_header_value" "calm S" "slices S data len"
  shows "safe len (step_header_value S data ch r)"
proof -
  have m: "marks r m = Some a \<Longrightarrow> m = M_header_value \<and> a \<le> pos r" for m a
    using only_mark[of r M_header_value] assms by (simp add: entered_def)
  have "safe len (CALLBACK_DATA S data M_header_value (pos r) (pos r + 1) (to_state s_header_almost_done r) (\<lambda>r. Inr (Next r)))"
    using assms m by (auto intro!: safe_data simp: inv_defs marked_def)
  moreover have "safe len (CALLBACK_DATA S data M_header_value (pos r) (pos r) (to_state s_header_almost_done r) (step_header_almost_done ch))"
    using assms m by (auto intro!: safe_data safe_header_almost_done simp: inv_defs marked_def)
  ultimately show ?thesis using safe_value_char[OF assms(1,2)] by (auto simp: step_header_value_def)
qed

lemma safe_headers_done:
  assumes "entered len r" "state (parser r) = s_headers_done" "calm S"
  shows "safe len (step_headers_done S ch r)"
proof -
  have n: "marks r = (\<lambda>_. None)" using assms(1,2) no_marks[of r] by (simp add: entered_def)
  let ?r = "upd (\<lambda>p. p\<lparr>nread := 0\<rparr>) r"
  have w: "well ((parser r)\<lparr>nread := 0, state := NEW_MESSAGE ((parser r)\<lparr>nread := 0\<rparr>)\<rparr>)"
    by (rule well_new_message) (use assms in \<open>simp add: entered_def well0_def\<close>)
  have "safe len (message_complete S (pos r + 1) ?r (\<lambda>r'. Inr (Return (pos r' + 1) r')))"
    "safe len (message_complete S (pos r + 1) ?r (\<lambda>r. Inr (Next r)))"
    using assms n w by (auto intro!: safe_message_complete simp: entered_def run_ok_def well0_def marked_def upd_def safe_def[of _ "Inr (Return _ _)"])
  then show ?thesis
    using assms n unfolding step_headers_done_def Let_def
    by (auto intro!: safe_rules simp: inv_defs marked_def)
qed

lemma safe_headers_almost_done:
  assumes "entered len r" "state (parser r) = s_headers_almost_done" "calm S"
  shows "safe len (step_headers_almost_done S ch r)"
proof -
  have n: "marks r = (\<lambda>_. None)" using assms(1,2) no_marks[of r] by (simp add: entered_def)
  have w: "well ((parser r)\<lparr>state := NEW_MESSAGE (parser r)\<rparr>)" by (rule well_new_message) (use assms in \<open>simp add: entered_def well0_def\<close>)
  have "safe len (message_complete S (pos r + 1) r (\<lambda>r. Inr (Next r)))"
    using assms n w by (auto intro!: safe_message_complete simp: entered_def run_ok_def well0_def marked_def)
  moreover have "safe len (headers_complete S
      (upd (\<lambda>p. p\<lparr>state := s_headers_done, upgrade := F_UPGRADE \<in> flags p \<or> req_method p = HTTP_CONNECT\<rparr>) r)
      (step_headers_done S ch))"
    using assms n by (auto intro!: safe_headers_complete safe_headers_done simp: inv_defs marked_def)
  ultimately show ?thesis using assms unfolding step_headers_almost_done_def
    by (auto intro!: safe_rules simp: entered_def)
qed

lemma safe_header_field_start:
  assumes "entered len r" "state (parser r) = s_header_field_start" "calm S"
  shows "safe len (step_header_field_start S ch r)"
proof -
  have n: "marks r = (\<lambda>_. None)" using assms(1,2) no_marks[of r] by (simp add: entered_def)
  have "entered len (to_state s_headers_almost_done r)" using assms n by (auto simp: inv_defs marked_def)
  with safe_headers_almost_done[of len "to_state s_headers_almost_done r" S ch] assms n show ?thesis
    unfolding step_header_field_start_def
    by (auto intro!: safe_rules simp: inv_defs marked_def MARK_def first_header_state_def field_states_def)
qed

lemma safe_header_value_lws:
  assumes "entered len r" "state (parser r) = s_header_value_lws" "calm S"
  shows "safe len (step_header_value_lws S ch r)"
proof -
  have n: "marks r = (\<lambda>_. None)" using assms(1,2) no_marks[of r] by (simp add: entered_def)
  have "entered len (to_state s_header_field_start r)" using assms n by (auto simp: inv_defs marked_def)
  with safe_header_field_start[of len "to_state s_header_field_start r" S ch] assms n show ?thesis
    unfolding step_header_value_lws_def by (auto simp: inv_defs marked_def)
qed

lemma safe_message_done:
  assumes "entered len r" "state (parser r) = s_message_done" "calm S"
  shows "safe len (step_message_done S r)"
proof -
  have n: "marks r = (\<lambda>_. None)" using assms(1,2) no_marks[of r] by (simp add: entered_def)
  have w: "well ((parser r)\<lparr>state := NEW_MESSAGE (parser r)\<rparr>)" by (rule well_new_message) (use assms in \<open>simp add: entered_def well0_def\<close>)
  show ?thesis unfolding step_message_done_def
    using assms n w by (auto intro!: safe_message_complete simp: entered_def run_ok_def well0_def marked_def)
qed

lemma take_body_simps:
  assumes "pos r < len" "content_length (parser r) \<noteq> 0"
  shows "parser (take_body len r) =
      (parser r)\<lparr>content_length := content_length (parser r) - min (content_length (parser r)) (len - pos r)\<rparr>"
    "pos r \<le> pos (take_body len r)" "pos (take_body len r) < len" "obj (take_body len r) = obj r"
    "marks (take_body len r) = marks (MARK M_body r)"
  using assms by (auto simp: take_body_def Let_def upd_def)

lemma safe_body:
  assumes "entered len r" "calm S" "slices S data len"
  shows "state (parser r) = s_body_identity \<Longrightarrow> safe len (step_body_identity S data len r)"
    and "state (parser r) = s_chunk_data \<Longrightarrow> safe len (step_chunk_data len r)"
    and "state (parser r) = s_body_identity_eof \<Longrightarrow> safe len (step_body_identity_eof len r)"
    and "state (parser r) = s_chunk_data_almost_done \<Longrightarrow> safe len (step_chunk_data_almost_done S data ch r)"
proof -
  have m: "marks (MARK M_body r) m = Some a \<Longrightarrow> m = M_body \<and> a \<le> pos r" "marks r m = Some a \<Longrightarrow> m = M_body \<and> a \<le> pos r"
    if "state (parser r) \<in> mark_states M_body" for m a
    using that only_mark[of r M_body] assms by (auto simp: entered_def MARK_def split: if_splits)
  have t: "pos r \<le> pos (take_body len r)" "pos (take_body len r) < len"
    "content_length (parser (take_body len r)) \<le> content_length (parser r)"
    "parser (take_body len r) = (parser r)\<lparr>content_length := content_length (parser (take_body len r))\<rparr>"
    if "content_length (parser r) \<noteq> 0"
    using that take_body_simps[of r len] assms(1) by (simp_all add: entered_def)
  have w: "content_length (parser r) \<le> ULLONG_MAX" using assms(1) by (simp add: entered_def well0_def)
  have pos: "pos r < len" using assms(1) by (simp add: entered_def)
  show "safe len (step_body_identity S data len r)" if s: "state (parser r) = s_body_identity"
  proof -
    have c: "content_length (parser r) \<noteq> 0" "content_length (parser r) \<noteq> ULLONG_MAX"
      using assms s by (auto simp: entered_def well0_def)
    let ?r = "take_body len r"
    note t = take_body_simps[OF pos c(1)]
    have m': "marks ?r m = Some a \<Longrightarrow> m = M_body \<and> a \<le> pos r" for m a using m(1) s t(5) by simp
    have "run_ok len ?r" if "content_length (parser ?r) \<noteq> 0"
      using that assms s c w t m' by (fastforce simp: inv_defs marked_def)
    moreover have at: "marks (MARK M_body r) M_body = Some a \<Longrightarrow> a \<le> Suc (pos ?r)" for a
      using m(1)[of M_body a] s t(2) by simp
    moreover have "safe len (CALLBACK_DATA S data M_body (pos ?r + 1) (pos ?r) (to_state s_message_done ?r) (step_message_done S))"
      using assms s w t m' at by (auto intro!: safe_data safe_message_done simp: inv_defs marked_def)
    ultimately show ?thesis using c by (simp add: step_body_identity_def Let_def)
  qed
  show "safe len (step_chunk_data len r)" if s: "state (parser r) = s_chunk_data"
  proof -
    have c: "content_length (parser r) \<noteq> 0" "content_length (parser r) \<noteq> ULLONG_MAX" "F_CHUNKED \<in> flags (parser r)"
      using assms s by (auto simp: entered_def well0_def chunk_state_def)
    let ?r = "take_body len r"
    note t = take_body_simps[OF pos c(1)]
    have m': "marks ?r m = Some a \<Longrightarrow> m = M_body \<and> a \<le> pos r" for m a using m(1) s t(5) by simp
    have "run_ok len (if content_length (parser ?r) = 0 then to_state s_chunk_data_almost_done ?r else ?r)"
      using assms s c w t m' by (fastforce simp: inv_defs marked_def)
    with c show ?thesis by (simp add: step_chunk_data_def Let_def)
  qed
  show "safe len (step_body_identity_eof len r)" if s: "state (parser r) = s_body_identity_eof"
    using assms s m(1) w pos by (fastforce simp: step_body_identity_eof_def inv_defs marked_def)
  show "safe len (step_chunk_data_almost_done S data ch r)" if s: "state (parser r) = s_chunk_data_almost_done"
    using assms s m(2) w pos unfolding step_chunk_data_almost_done_def
    by (auto intro!: safe_rules safe_data simp: inv_defs marked_def)
qed

lemma safe_start_req:
  assumes "entered len r" "state (parser r) = s_start_req" "calm S"
  shows "safe len (step_start_req S ch r)"
proof -
  have n: "marks r = (\<lambda>_. None)" using assms(1,2) no_marks[of r] by (simp add: entered_def)
  have "safe len (CALLBACK_NOTIFY (on_message_begin S) HPE_CB_message_begin (pos r + 1)
      (upd (\<lambda>p. p\<lparr>req_method := m, state := s_req_method\<rparr>) (upd (\<lambda>p. p\<lparr>req_method := HTTP_DELETE, index := 1\<rparr>)
        (upd (\<lambda>p. p\<lparr>flags := {}, content_length := ULLONG_MAX\<rparr>) r))) (\<lambda>r. Inr (Next r)))" for m
    using assms n by (cases m) (auto intro!: safe_notify simp: inv_defs marked_def calm_def)
  then show ?thesis using assms n unfolding step_start_req_def Let_def
    by (auto intro!: safe_rules simp: inv_defs marked_def split: option.split)
qed

lemma safe_responses:
  assumes "entered len r" "calm S"
  shows "state (parser r) = s_start_req_or_res \<Longrightarrow> safe len (step_start_req_or_res S ch r)"
    and "state (parser r) = s_start_res \<Longrightarrow> safe len (step_start_res S ch r)"
    and "state (parser r) = s_res_line_almost_done \<Longrightarrow> safe len (step_res_line_almost_done S ch r)"
proof -
  have n: "marks r = (\<lambda>_. None)" if "unmarked_state (state (parser r))"
    using assms(1) that no_marks[of r] by (simp add: entered_def)
  have b: "safe len (CALLBACK_NOTIFY cb e (pos r + 1) (to_state s (upd f r)) (\<lambda>r. Inr (Next r)))"
    if "cb = on_message_begin S \<or> cb = on_status_complete S" "marks r = (\<lambda>_. None)" "well ((f (parser r))\<lparr>state := s\<rparr>)"
      "http_errno (f (parser r)) = HPE_OK" for cb e s f
    using that assms by (auto intro!: safe_notify simp: run_ok_def entered_def marked_def calm_def)
  show "safe len (step_start_req_or_res S ch r)" if s: "state (parser r) = s_start_req_or_res"
  proof -
    have "entered len (upd (\<lambda>p. p\<lparr>kind := HTTP_REQUEST, state := s_start_req\<rparr>) (upd (\<lambda>p. p\<lparr>flags := {}, content_length := ULLONG_MAX\<rparr>) r))"
      using assms s n by (auto simp: inv_defs marked_def)
    from safe_start_req[OF this _ assms(2)] b[of "on_message_begin S" s_res_or_resp_H] show ?thesis
      using assms s n unfolding step_start_req_or_res_def Let_def
      by (auto intro!: safe_rules simp: inv_defs marked_def)
  qed
  show "safe len (step_start_res S ch r)" if s: "state (parser r) = s_start_res"
  proof -
    have "safe len (CALLBACK_NOTIFY (on_message_begin S) HPE_CB_message_begin (pos r + 1)
        (upd (\<lambda>p. p\<lparr>flags := {}, content_length := ULLONG_MAX\<rparr>) r) (\<lambda>r. Inr (Next r)))"
      using assms s n by (auto intro!: safe_notify simp: inv_defs marked_def calm_def)
    with b[of "on_message_begin S" s_res_H] show ?thesis
      using assms s n unfolding step_start_res_def Let_def
      by (auto intro!: safe_rules simp: inv_defs marked_def)
  qed
  show "safe len (step_res_line_almost_done S ch r)" if s: "state (parser r) = s_res_line_almost_done"
    using assms s n b[of "on_status_complete S" s_header_field_start "\<lambda>p. p"]
    unfolding step_res_line_almost_done_def
    by (auto intro!: safe_rules simp: inv_defs marked_def upd_def)
qed

lemma parse_url_char_states: "parse_url_char s ch \<in> insert s_dead (mark_states M_url)"
  by (cases s) (auto simp: parse_url_char_def server_char_def)

lemma safe_url_char:
  assumes "http_errno (parser r) = HPE_OK" "content_length (parser r) \<le> ULLONG_MAX" "pos r < len"
    "\<And>m a. marks r m = Some a \<Longrightarrow> m = M_url \<and> a \<le> pos r"
  shows "safe len (url_step ch r)"
proof -
  define s where "s = parse_url_char (state (parser r)) ch"
  have s: "s \<in> insert s_dead (mark_states M_url)" unfolding s_def by (rule parse_url_char_states)
  show ?thesis
  proof (cases "s = s_dead")
    case True
    with assms show ?thesis by (simp add: url_step_def Let_def s_def)
  next
    case False
    with s have s: "s \<in> mark_states M_url" by simp
    then have "well0 ((parser r)\<lparr>state := s\<rparr>)" "s \<noteq> s_chunk_size_start" using assms(2)
      by (auto simp: well0_def chunk_state_def)
    moreover have "marked (to_state s r)" using s assms(4) unfolding marked_def by (metis upd_simps(5-7) http_parser.select_convs(3) http_parser.surjective http_parser.update_convs(3))
    ultimately have "run_ok len (to_state s r)" using assms(1,3) by (simp add: run_ok_def well_def)
    with False show ?thesis by (simp add: url_step_def Let_def s_def)
  qed
qed

lemma safe_urls:
  assumes "entered len r" "calm S" "slices S data len"
  shows "state (parser r) = s_req_spaces_before_url \<Longrightarrow> safe len (step_spaces_before_url ch r)"
    and "state (parser r) \<in> mark_states M_url \<Longrightarrow> safe len (step_schema ch r)"
    and "state (parser r) \<in> mark_states M_url \<Longrightarrow> safe len (step_url S data ch r)"
proof -
  have e: "http_errno (parser r) = HPE_OK" "content_length (parser r) \<le> ULLONG_MAX" "pos r < len"
    using assms(1) by (simp_all add: entered_def well0_def)
  show "safe len (step_spaces_before_url ch r)" if s: "state (parser r) = s_req_spaces_before_url"
  proof -
    have n: "marks r = (\<lambda>_. None)" using assms(1) s no_marks[of r] by (simp add: entered_def)
    have "safe len (url_step ch (if req_method (parser (MARK M_url r)) = HTTP_CONNECT
        then to_state s_req_server_start (MARK M_url r) else MARK M_url r))"
      using e n by (intro safe_url_char) (auto simp: MARK_def split: if_splits)
    moreover have "run_ok len r" using assms(1) s by (simp add: inv_defs)
    ultimately show ?thesis by (simp add: step_spaces_before_url_def Let_def)
  qed
  have m: "marks r m = Some a \<Longrightarrow> m = M_url \<and> a \<le> pos r" if "state (parser r) \<in> mark_states M_url" for m a
    using that only_mark[of r M_url] assms by (simp add: entered_def)
  show "safe len (step_schema ch r)" if s: "state (parser r) \<in> mark_states M_url"
    using e safe_url_char[OF e m[OF s]] unfolding step_schema_def by (auto intro!: safe_rules)
  show "safe len (step_url S data ch r)" if s: "state (parser r) \<in> mark_states M_url"
  proof -
    have "safe len (CALLBACK_DATA S data M_url (pos r) (pos r + 1) (to_state s_req_http_start r) (\<lambda>r. Inr (Next r)))"
      "safe len (CALLBACK_DATA S data M_url (pos r) (pos r + 1) (upd (\<lambda>p. p\<lparr>http_major := 0, http_minor := 9, state := s_req_line_almost_done\<rparr>) r) (\<lambda>r. Inr (Next r)))"
      "safe len (CALLBACK_DATA S data M_url (pos r) (pos r + 1) (upd (\<lambda>p. p\<lparr>http_major := 0, http_minor := 9, state := s_header_field_start\<rparr>) r) (\<lambda>r. Inr (Next r)))"
      using e assms(2,3) by (auto intro!: safe_data simp: inv_defs marked_def dest: m[OF s])
    then show ?thesis using safe_url_char[OF e m[OF s]] unfolding step_url_def Let_def by (auto intro!: safe_rules)
  qed
qed

lemma safe_chunks:
  assumes "entered len r"
  shows "state (parser r) = s_chunk_size_start \<Longrightarrow> safe len (step_chunk_size_start ch r)"
    and "state (parser r) = s_chunk_size \<Longrightarrow> safe len (step_chunk_size ch r)"
    and "state (parser r) = s_chunk_parameters \<Longrightarrow> safe len (step_chunk_parameters ch r)"
    and "state (parser r) = s_chunk_size_almost_done \<Longrightarrow> safe len (step_chunk_size_almost_done ch r)"
    and "state (parser r) = s_chunk_data_done \<Longrightarrow> safe len (step_chunk_data_done ch r)"
proof -
  have e: "http_errno (parser r) = HPE_OK" "content_length (parser r) \<le> ULLONG_MAX" "pos r < len"
    using assms(1) by (simp_all add: entered_def well0_def)
  have n: "marks r = (\<lambda>_. None)" if "\<forall>m. state (parser r) \<notin> mark_states m"
    using assms(1) that no_marks[of r] by (simp add: entered_def unmarked_state_def)
  have u: "\<forall>m. s \<notin> mark_states m" if "s \<in> {s_chunk_size_start, s_chunk_size, s_chunk_parameters, s_chunk_size_almost_done, s_chunk_data_done}" for s
    using that by (auto, case_tac m, auto)+
  have f: "F_CHUNKED \<in> flags (parser r)" if "chunk_state (state (parser r))" using that assms by (simp add: entered_def well0_def)
  show "safe len (step_chunk_size_start ch r)" if "state (parser r) = s_chunk_size_start"
    using e n f u that assms unfolding step_chunk_size_start_def by (auto intro!: safe_rules simp: inv_defs marked_def)
  show "safe len (step_chunk_size ch r)" if "state (parser r) = s_chunk_size"
    using e n f u that assms unfolding step_chunk_size_def
    by (auto intro!: safe_rules simp: inv_defs marked_def split: option.split)
  show "safe len (step_chunk_parameters ch r)" if "state (parser r) = s_chunk_parameters"
    using e n f u that assms unfolding step_chunk_parameters_def by (auto intro!: safe_rules simp: inv_defs marked_def)
  show "safe len (step_chunk_size_almost_done ch r)" if "state (parser r) = s_chunk_size_almost_done"
    using e n f u that assms unfolding step_chunk_size_almost_done_def Let_def
    by (auto intro!: safe_rules simp: inv_defs marked_def)
  show "safe len (step_chunk_data_done ch r)" if "state (parser r) = s_chunk_data_done"
    using e n f u that assms unfolding step_chunk_data_done_def by (auto intro!: safe_rules simp: inv_defs marked_def)
qed

lemma safe_lines:
  assumes "entered len r" "unmarked_state (state (parser r))"
  shows "state (parser r) = s_dead \<Longrightarrow> safe len (step_dead ch r)"
    "state (parser r) = s_res_or_resp_H \<Longrightarrow> safe len (step_res_or_resp_H ch r)"
    "\<not> chunk_state s \<Longrightarrow> s \<notin> {s_req_method, s_header_field, s_header_value, s_body_identity} \<Longrightarrow>
      safe len (step_constant c s ch r) \<and> safe len (step_first_major c s ch r) \<and> safe len (step_first_minor s ch r) \<and>
      (\<not> chunk_state (state (parser r)) \<and>
       state (parser r) \<notin> {s_req_method, s_header_field, s_header_value, s_body_identity} \<longrightarrow> safe len (step_major s ch r))"
    "state (parser r) \<in> {s_res_http_minor, s_res_first_status_code, s_res_status_code, s_res_status, s_req_http_start,
        s_req_http_minor, s_req_line_almost_done} \<Longrightarrow>
      safe len (step_res_minor ch r) \<and> safe len (step_first_status_code ch r) \<and> safe len (step_status_code ch r) \<and>
      safe len (step_status ch r) \<and> safe len (step_http_start ch r) \<and> safe len (step_req_minor ch r) \<and>
      safe len (step_req_line_almost_done ch r)"
proof -
  have n: "marks r = (\<lambda>_. None)" using assms no_marks[of r] by (simp add: entered_def)
  have e: "http_errno (parser r) = HPE_OK" "content_length (parser r) \<le> ULLONG_MAX" "pos r < len"
    using assms(1) by (simp_all add: entered_def well0_def)
  have go: "run_ok len (upd f r)"
    if "http_errno (f (parser r)) = HPE_OK" "content_length (f (parser r)) \<le> ULLONG_MAX"
      "\<not> chunk_state (state (f (parser r)))" "state (f (parser r)) \<notin> {s_req_method, s_header_field, s_header_value, s_body_identity}" for f
    using that e n by (auto simp: inv_defs marked_def)
  have stay: "run_ok len r" if "\<not> chunk_state (state (parser r))"
    using that assms e n by (auto simp: run_ok_def well_def entered_def chunk_state_def)
  show "safe len (step_dead ch r)" if "state (parser r) = s_dead"
    using e stay that unfolding step_dead_def by (auto intro!: safe_rules simp: chunk_state_def)
  show "safe len (step_res_or_resp_H ch r)" if "state (parser r) = s_res_or_resp_H"
    using e n unfolding step_res_or_resp_H_def by (auto intro!: safe_rules simp: inv_defs marked_def)
  show "safe len (step_constant c s ch r) \<and> safe len (step_first_major c s ch r) \<and> safe len (step_first_minor s ch r) \<and>
      (\<not> chunk_state (state (parser r)) \<and>
       state (parser r) \<notin> {s_req_method, s_header_field, s_header_value, s_body_identity} \<longrightarrow> safe len (step_major s ch r))"
    if "\<not> chunk_state s" "s \<notin> {s_req_method, s_header_field, s_header_value, s_body_identity}"
  proof (intro conjI impI)
    show "safe len (step_constant c s ch r)" "safe len (step_first_major c s ch r)" "safe len (step_first_minor s ch r)"
      unfolding step_constant_def step_first_major_def step_first_minor_def to_state_def
      using e that go by (simp_all add: safe_rules)
  qed (use e that go in \<open>simp add: step_major_def to_state_def Let_def\<close>)
  show "safe len (step_res_minor ch r) \<and> safe len (step_first_status_code ch r) \<and> safe len (step_status_code ch r) \<and>
      safe len (step_status ch r) \<and> safe len (step_http_start ch r) \<and> safe len (step_req_minor ch r) \<and>
      safe len (step_req_line_almost_done ch r)"
    if "state (parser r) \<in> {s_res_http_minor, s_res_first_status_code, s_res_status_code, s_res_status, s_req_http_start,
        s_req_http_minor, s_req_line_almost_done}"
  proof -
    have s: "\<not> chunk_state (state (parser r))" "state (parser r) \<notin> {s_req_method, s_header_field, s_header_value, s_body_identity}"
      using that by (auto simp: chunk_state_def)
    show ?thesis
      unfolding step_res_minor_def step_first_status_code_def step_status_code_def step_status_def step_http_start_def
        step_req_minor_def step_req_line_almost_done_def minor_digit_def to_state_def Let_def
      using e s stay[OF s(1)] by (intro conjI; simp add: go chunk_state_def)
  qed
qed

lemma unmarked_lines [simp]:
  "unmarked_state s_res_or_resp_H" "unmarked_state s_res_H" "unmarked_state s_res_HT" "unmarked_state s_res_HTT"
  "unmarked_state s_res_HTTP" "unmarked_state s_res_first_http_major" "unmarked_state s_res_http_major"
  "unmarked_state s_res_first_http_minor" "unmarked_state s_res_http_minor" "unmarked_state s_res_first_status_code"
  "unmarked_state s_res_status_code" "unmarked_state s_res_status" "unmarked_state s_req_http_start"
  "unmarked_state s_req_http_H" "unmarked_state s_req_http_HT" "unmarked_state s_req_http_HTT"
  "unmarked_state s_req_http_HTTP" "unmarked_state s_req_first_http_major" "unmarked_state s_req_http_major"
  "unmarked_state s_req_first_http_minor" "unmarked_state s_req_http_minor" "unmarked_state s_req_line_almost_done"
  unfolding unmarked_state_def by (rule allI, case_tac m, simp_all)+

lemma safe_step:
  assumes "entered len r" "calm S" "slices S data len"
  shows "safe len (step_byte S data len ch r)"
proof -
  note lines = safe_lines(1,2)[OF assms(1)] safe_lines(3)[OF assms(1), THEN conjunct1]
    safe_lines(3)[OF assms(1), THEN conjunct2, THEN conjunct1]
    safe_lines(3)[OF assms(1), THEN conjunct2, THEN conjunct2, THEN conjunct1]
    safe_lines(3)[OF assms(1), THEN conjunct2, THEN conjunct2, THEN conjunct2, THEN mp]
  note ends = safe_lines(4)[OF assms(1), THEN conjunct1] safe_lines(4)[OF assms(1), THEN conjunct2, THEN conjunct1]
    safe_lines(4)[OF assms(1), THEN conjunct2, THEN conjunct2, THEN conjunct1]
    safe_lines(4)[OF assms(1), THEN conjunct2, THEN conjunct2, THEN conjunct2, THEN conjunct1]
    safe_lines(4)[OF assms(1), THEN conjunct2, THEN conjunct2, THEN conjunct2, THEN conjunct2, THEN conjunct1]
    safe_lines(4)[OF assms(1), THEN conjunct2, THEN conjunct2, THEN conjunct2, THEN conjunct2, THEN conjunct2, THEN conjunct1]
    safe_lines(4)[OF assms(1), THEN conjunct2, THEN conjunct2, THEN conjunct2, THEN conjunct2, THEN conjunct2, THEN conjunct2]
  note fields = safe_method[OF assms(1)] safe_start_req[OF assms(1) _ assms(2)] safe_header_field[OF assms(1) _ assms(2,3)]
    safe_header_value_start[OF assms(1) _ assms(2,3)] safe_header_value[OF assms(1) _ assms(2,3)]
    safe_header_almost_done[OF assms(1)] safe_headers_done[OF assms(1) _ assms(2)]
    safe_headers_almost_done[OF assms(1) _ assms(2)] safe_header_field_start[OF assms(1) _ assms(2)]
    safe_header_value_lws[OF assms(1) _ assms(2)] safe_message_done[OF assms(1) _ assms(2)]
  show ?thesis
    unfolding step_byte_def
    apply (cases "state (parser r)"; simp only: http_state.case)
    apply (rule lines ends fields safe_responses[OF assms(1,2)] safe_chunks[OF assms(1)] safe_urls[OF assms] safe_body[OF assms];
       (simp add: chunk_state_def; fail)?)+
    done
qed

section \<open>Every call\<close>

definition returns_well :: "nat \<Rightarrow> nat \<Rightarrow> http_parser \<Rightarrow> bool" where
  "returns_well len n p \<longleftrightarrow> n \<le> len \<and> (http_errno p \<in> {HPE_OK, HPE_PAUSED} \<longrightarrow> well p)"

lemma at_most_one_mark:
  assumes "marked r"
  shows "length (filter (\<lambda>m. marks r m \<noteq> None) [M_header_field, M_header_value, M_url, M_body]) \<le> 1"
proof (cases "\<exists>m. marks r m \<noteq> None")
  case True
  then obtain m0 a where "marks r m0 = Some a" by auto
  then have "state (parser r) \<in> mark_states m0" using assms by (auto simp: marked_def)
  with only_mark[OF assms] have "marks r m \<noteq> None \<Longrightarrow> m = m0" for m by auto
  then have "filter (\<lambda>m. marks r m \<noteq> None) [M_header_field, M_header_value, M_url, M_body] = filter (\<lambda>m. marks r m \<noteq> None) [m0]"
    by (cases m0) auto
  then show ?thesis by simp
qed simp

lemma loop_safe:
  assumes "calm S" "slices S data len" "http_errno (parser r) = HPE_OK" "well (parser r)" "marked r" "pos r \<le> len"
  shows "\<exists>n r'. execute_loop S data len r = Inr (n, r') \<and> returns_well len n (parser r')"
  using assms(3-)
proof (induction "len - pos r" arbitrary: r rule: less_induct)
  case less
  show ?case
  proof (cases "pos r < len")
    case True
    define u where "u = (if PARSING_HEADER (state (parser r)) then upd (\<lambda>p. p\<lparr>nread := (nread p + 1) mod 2 ^ 32\<rparr>) r else r)"
    have u: "pos u = pos r" "state (parser u) = state (parser r)" by (simp_all add: u_def)
    show ?thesis
    proof (cases "PARSING_HEADER (state (parser u)) \<and> HTTP_MAX_HEADER_SIZE < nread (parser u)")
      case over: True
      then have "execute_loop S data len r = Inr (pos u, upd (\<lambda>p. p\<lparr>http_errno := HPE_HEADER_OVERFLOW\<rparr>) u)"
        using True by (subst execute_loop.simps) (simp add: Let_def u_def[symmetric] error_def)
      with u(1) True show ?thesis by (simp add: returns_well_def)
    next
      case False
      have "entered len u"
        using less.prems True by (auto simp: u_def entered_def well_def well0_def marked_def PARSING_HEADER_def chunk_state_def)
      from safe_step[OF this assms(1,2), of "data ! pos r"] obtain f where f: "step_byte S data len (data ! pos r) u = Inr f"
        "safe len (Inr f)" by (cases "step_byte S data len (data ! pos r) u") auto
      have e: "execute_loop S data len r = (case f of Return n r \<Rightarrow> Inr (n, r) | Next r \<Rightarrow> execute_loop S data len (r\<lparr>pos := pos r + 1\<rparr>))"
        using True False f(1)
        by (subst execute_loop.simps) (simp only: Let_def u_def[symmetric] if_True if_False bindR_simps)
      show ?thesis
      proof (cases f)
        case (Return n r')
        with e f(2) show ?thesis by (simp add: safe_def returns_well_def)
      next
        case (Next r')
        have "pos u \<le> pos r'" using onwards_step[of u len S data "data ! pos r"] u(1) True f(1) Next by (simp add: onwards_def)
        moreover have "run_ok len r'" using f(2) Next by simp
        ultimately have "\<exists>n v. execute_loop S data len (r'\<lparr>pos := pos r' + 1\<rparr>) = Inr (n, v) \<and> returns_well len n (parser v)"
          using u(1) True by (intro less.hyps) (auto simp: run_ok_def marked_def le_SucI)
        with e Next show ?thesis by simp
      qed
    qed
  next
    case False
    then have p: "pos r = len" using less.prems by simp
    define f where "f = CALLBACK_DATA S data M_header_field (pos r) (pos r) r (\<lambda>r.
               CALLBACK_DATA S data M_header_value (pos r) (pos r) r (\<lambda>r.
               CALLBACK_DATA S data M_url (pos r) (pos r) r (\<lambda>r.
               CALLBACK_DATA S data M_body (pos r) (pos r) r (\<lambda>r. Inr (Return len r)))))"
    have m: "marks r m = Some a \<Longrightarrow> a \<le> len" for m a using less.prems p by (auto simp: marked_def)
    have "safe len f" unfolding f_def
      using less.prems(1,2) p assms(1,2) m
      by (auto intro!: safe_data simp: safe_def[of _ "Inr (Return _ _)"] split: if_splits)
    then obtain g where g: "f = Inr g" "safe len (Inr g)" by (cases f) auto
    have "execute_loop S data len r = (case g of Return n r \<Rightarrow> Inr (n, r) | Next r \<Rightarrow> Inr (len, r))"
      using False g(1) at_most_one_mark[OF less.prems(3)]
      by (subst execute_loop.simps) (simp only: if_False f_def[symmetric] assertR_simps bindR_simps)
    with g(2) show ?thesis
      by (cases g) (auto simp: safe_def returns_well_def run_ok_def)
  qed
qed

lemma start_marked: "marked \<lparr>parser = p, marks = start_marks (state p), pos = 0, obj = x\<rparr>"
  by (auto simp: marked_def start_marks_def split: if_splits)

lemma execute_safe:
  assumes "calm S" "slices S data len" "len \<le> length data" "http_errno p \<in> {HPE_OK, HPE_PAUSED} \<longrightarrow> well p"
  shows "\<exists>n q y. http_parser_execute S data len p x = Inr (n, q, y) \<and> n \<le> max 1 len \<and>
    (http_errno q \<in> {HPE_OK, HPE_PAUSED} \<longrightarrow> well q)"
proof -
  let ?r = "\<lparr>parser = p, marks = start_marks (state p), pos = 0, obj = x\<rparr>"
  consider (stopped) "http_errno p \<noteq> HPE_OK" | (eof) "http_errno p = HPE_OK" "len = 0"
    | (run) "http_errno p = HPE_OK" "len \<noteq> 0" by blast
  then show ?thesis
  proof cases
    case stopped
    with assms show ?thesis by (simp add: http_parser_execute_def Let_def)
  next
    case eof
    have "safe 0 (CALLBACK_NOTIFY (on_message_complete S) HPE_CB_message_complete 0 ?r (\<lambda>r. Inr (Return 0 r)))"
      using eof assms by (intro safe_notify) (auto simp: calm_def safe_def)
    then obtain f where f: "CALLBACK_NOTIFY (on_message_complete S) HPE_CB_message_complete 0 ?r (\<lambda>r. Inr (Return 0 r)) = Inr f"
      "safe 0 (Inr f)" by (cases "CALLBACK_NOTIFY (on_message_complete S) HPE_CB_message_complete 0 ?r (\<lambda>r. Inr (Return 0 r))") auto
    with eof assms show ?thesis
      by (cases f) (auto simp: http_parser_execute_def Let_def safe_def run_ok_def)
  next
    case run
    with assms have "\<exists>n r'. execute_loop S data len ?r = Inr (n, r') \<and> returns_well len n (parser r')"
      by (intro loop_safe) (auto simp: start_marked)
    with run assms(3) show ?thesis by (auto simp: http_parser_execute_def Let_def returns_well_def)
  qed
qed

text \<open>The parser fed with the pieces of a connection one after the other, each with the memory it lies in.\<close>

fun feed :: "'a settings \<Rightarrow> (string \<times> nat) list \<Rightarrow> http_parser \<Rightarrow> 'a \<Rightarrow> (http_parser \<times> 'a) res" where
  "feed S [] p x = Inr (p, x)"
| "feed S ((data, len) # ds) p x = bindR (http_parser_execute S data len p x) (\<lambda>(n, p, x). feed S ds p x)"

lemma init_well: "http_errno (http_parser_init t) \<in> {HPE_OK, HPE_PAUSED} \<longrightarrow> well (http_parser_init t)"
  by (auto simp: http_parser_init_def well_def well0_def chunk_state_def ULLONG_MAX_def)

text \<open>C7: the HTTP parser never crashes.  Fed with any bytes in any pieces, as a request, a response or either, it
  returns after every piece: no assertion fails, the tables of method names and header words are read inside their
  bounds, a callback is given a slice of the piece, and the bytes reported as parsed are not more than there are.  A callback may stop
  or pause it; only a callback that fails itself on a slice can make it fail.\<close>

theorem http_parser_never_crashes:
  assumes "calm S" "\<forall>(data, len)\<in>set pieces. len \<le> length data \<and> slices S data len"
    and "len \<le> length data" "slices S data len"
  shows "(\<exists>p x'. feed S pieces (http_parser_init t) x = Inr (p, x')) \<and>
    (\<exists>n p x'. http_parser_execute S data len (http_parser_init t) x = Inr (n, p, x') \<and> n \<le> max 1 len)"
proof
  note w = init_well[of t]
  have "\<exists>p x'. feed S pieces p0 x = Inr (p, x')" if "http_errno p0 \<in> {HPE_OK, HPE_PAUSED} \<longrightarrow> well p0" for p0
    using that assms(2)
  proof (induction pieces arbitrary: p0 x)
    case (Cons d ds)
    obtain mem n where d: "d = (mem, n)" by fastforce
    obtain k q y where "http_parser_execute S mem n p0 x = Inr (k, q, y)" "http_errno q \<in> {HPE_OK, HPE_PAUSED} \<longrightarrow> well q"
      using execute_safe[OF assms(1) _ _ Cons.prems(1), of mem n] Cons.prems(2) d by force
    with Cons.IH[of q y] Cons.prems(2) d show ?case by simp
  qed simp
  with w show "\<exists>p x'. feed S pieces (http_parser_init t) x = Inr (p, x')" by blast
  show "\<exists>n p x'. http_parser_execute S data len (http_parser_init t) x = Inr (n, p, x') \<and> n \<le> max 1 len"
    using execute_safe[OF assms(1,4,3) w] by blast
qed

end
