(* ===== verification/HttpWrapper.thy ===== *)
theory HttpWrapper
  imports TextUtil SdsOps HttpSafety
begin

text \<open>
  What the server takes from a request: src/base/http_parser_wrapper.cc and its header.  The callbacks collect the
  URL, the body and six headers.
\<close>

section \<open>The wrapper\<close>

record wrapper =
  read_all :: bool
  read_referer :: bool
  read_forward_ip :: bool
  read_user_agent :: bool
  read_content_type :: bool
  read_content_len :: bool
  read_host :: bool
  total_length :: nat
  w_url :: string
  w_body_content :: string
  w_referer :: string
  w_forward_ip :: string
  w_user_agent :: string
  w_content_type :: string
  w_content_len :: nat
  w_host :: string

definition OnUrl :: "wrapper http_data_cb" where
  "OnUrl p at len w = Inr (0, False, w\<lparr>w_url := w_url w @ take len at\<rparr>)"

text \<open>A flag is set when its header was not read before and the name begins with its word.\<close>

definition notice :: "bool \<Rightarrow> string \<Rightarrow> string \<Rightarrow> (wrapper \<Rightarrow> wrapper) \<Rightarrow> wrapper \<Rightarrow> wrapper res" where
  "notice has word at set_read w =
     (if has then Inr w else bindR (same_prefix at word) (\<lambda>same. Inr (if same then set_read w else w)))"

definition OnHeaderField :: "wrapper http_data_cb" where
  "OnHeaderField p at len w =
     bindR (notice (w_referer w \<noteq> []) ''Referer'' at (\<lambda>w. w\<lparr>read_referer := True\<rparr>) w) (\<lambda>w.
     bindR (notice (w_forward_ip w \<noteq> []) ''X-Forwarded-For'' at (\<lambda>w. w\<lparr>read_forward_ip := True\<rparr>) w) (\<lambda>w.
     bindR (notice (w_user_agent w \<noteq> []) ''User-Agent'' at (\<lambda>w. w\<lparr>read_user_agent := True\<rparr>) w) (\<lambda>w.
     bindR (notice (w_content_type w \<noteq> []) ''Content-Type'' at (\<lambda>w. w\<lparr>read_content_type := True\<rparr>) w) (\<lambda>w.
     bindR (notice (w_content_len w \<noteq> 0) ''Content-Length'' at (\<lambda>w. w\<lparr>read_content_len := True\<rparr>) w) (\<lambda>w.
     bindR (notice (w_host w \<noteq> []) ''Host'' at (\<lambda>w. w\<lparr>read_host := True\<rparr>) w) (\<lambda>w.
     Inr (0, False, w)))))))"

definition MAX_REFERER_LEN :: nat where "MAX_REFERER_LEN = 32"

definition OnHeaderValue :: "wrapper http_data_cb" where
  "OnHeaderValue p at len w =
     (let value = take len at;
          w = (if read_referer w then w\<lparr>w_referer := w_referer w @ take MAX_REFERER_LEN value, read_referer := False\<rparr> else w);
          w = (if read_forward_ip w then w\<lparr>w_forward_ip := w_forward_ip w @ value, read_forward_ip := False\<rparr> else w);
          w = (if read_user_agent w then w\<lparr>w_user_agent := w_user_agent w @ value, read_user_agent := False\<rparr> else w);
          w = (if read_content_type w then w\<lparr>w_content_type := w_content_type w @ value, read_content_type := False\<rparr> else w);
          w = (if read_content_len w
               then w\<lparr>w_content_len := nat (atoi (c_str value) mod 2 ^ 32), read_content_len := False\<rparr> else w);
          w = (if read_host w then w\<lparr>w_host := w_host w @ value, read_host := False\<rparr> else w) in
      Inr (0, False, w))"

definition OnHeadersComplete :: "wrapper http_cb" where
  "OnHeadersComplete p w =
     Inr (0, False, w\<lparr>total_length := (nread p + content_length p mod 2 ^ 32) mod 2 ^ 32\<rparr>)"

definition OnBody :: "wrapper http_data_cb" where
  "OnBody p at len w = Inr (0, False, w\<lparr>w_body_content := w_body_content w @ take len at\<rparr>)"

definition OnMessageComplete :: "wrapper http_cb" where
  "OnMessageComplete p w = Inr (0, False, w\<lparr>read_all := True\<rparr>)"

definition wrapper_settings :: "wrapper settings" where
  "wrapper_settings =
     \<lparr>on_message_begin = None, on_url = Some OnUrl, on_status_complete = None, on_header_field = Some OnHeaderField,
      on_header_value = Some OnHeaderValue, on_headers_complete = Some OnHeadersComplete, on_body = Some OnBody,
      on_message_complete = Some OnMessageComplete\<rparr>"

definition cleared :: wrapper where
  "cleared =
     \<lparr>read_all = False, read_referer = False, read_forward_ip = False, read_user_agent = False, read_content_type = False,
      read_content_len = False, read_host = False, total_length = 0, w_url = [], w_body_content = [], w_referer = [],
      w_forward_ip = [], w_user_agent = [], w_content_type = [], w_content_len = 0, w_host = []\<rparr>"

text \<open>\<open>buf\<close> is the memory; whatever an earlier call left is cleared.\<close>

definition ParseHttpContent :: "string \<Rightarrow> nat \<Rightarrow> wrapper res" where
  "ParseHttpContent buf len =
     bindR (http_parser_execute wrapper_settings buf len (http_parser_init HTTP_REQUEST) cleared) (\<lambda>(n, p, w). Inr w)"

section \<open>It always returns\<close>

lemma c_tolower_NUL [simp]: "c_tolower c = NUL \<longleftrightarrow> c = NUL"
  by (rule c_tolower_fixed) simp

lemma same_prefix_ends: "NUL \<in> set mem \<Longrightarrow> NUL \<notin> set word \<Longrightarrow> \<exists>b. same_prefix mem word = Inr b"
proof (induction mem word rule: same_prefix.induct)
  case (3 c mem w ws)
  show ?case
  proof (cases "c = NUL")
    case True
    with 3(3) have "c_tolower c \<noteq> c_tolower w" using c_tolower_NUL[of w] c_tolower_NUL[of c] by (metis list.set_intros(1))
    then show ?thesis by (intro exI[of _ False]) simp
  qed (use 3 in auto)
qed auto

lemma wrapper_calm: "calm wrapper_settings"
  by (auto simp: calm_def wrapper_settings_def OnHeadersComplete_def OnMessageComplete_def)

lemma OnHeaderField_returns: "NUL \<in> set at \<Longrightarrow> \<exists>w'. OnHeaderField p at n w = Inr (0, False, w')"
proof -
  assume at: "NUL \<in> set at"
  have "\<exists>w'. notice has word at f v = Inr w'" if "NUL \<notin> set word" for has word f v
    using same_prefix_ends[OF at that] by (auto simp: notice_def)
  then have n: "\<exists>w'. notice has word at f v = Inr w'"
    if "word \<in> {''Referer'', ''X-Forwarded-For'', ''User-Agent'', ''Content-Type'', ''Content-Length'', ''Host''}" for has word f v
    using that by auto
  obtain w1 w2 w3 w4 w5 w6 where
    "notice (w_referer w \<noteq> []) ''Referer'' at (\<lambda>w. w\<lparr>read_referer := True\<rparr>) w = Inr w1"
    "notice (w_forward_ip w1 \<noteq> []) ''X-Forwarded-For'' at (\<lambda>w. w\<lparr>read_forward_ip := True\<rparr>) w1 = Inr w2"
    "notice (w_user_agent w2 \<noteq> []) ''User-Agent'' at (\<lambda>w. w\<lparr>read_user_agent := True\<rparr>) w2 = Inr w3"
    "notice (w_content_type w3 \<noteq> []) ''Content-Type'' at (\<lambda>w. w\<lparr>read_content_type := True\<rparr>) w3 = Inr w4"
    "notice (w_content_len w4 \<noteq> 0) ''Content-Length'' at (\<lambda>w. w\<lparr>read_content_len := True\<rparr>) w4 = Inr w5"
    "notice (w_host w5 \<noteq> []) ''Host'' at (\<lambda>w. w\<lparr>read_host := True\<rparr>) w5 = Inr w6"
    using n by (meson insertCI)
  then show ?thesis by (simp add: OnHeaderField_def)
qed

lemma wrapper_slices:
  assumes "len < length buf" "buf ! len = NUL"
  shows "slices wrapper_settings buf len"
  unfolding slices_def
proof (intro allI impI)
  fix m and g :: "wrapper http_data_cb" and p at n x
  assume g: "on_data wrapper_settings m = Some g \<and> at + n \<le> len"
  with assms have "NUL \<in> set (drop at buf)"
    by (auto simp: in_set_conv_nth intro!: exI[of _ "len - at"])
  from OnHeaderField_returns[OF this, of p n x] g show "\<exists>y. g p (drop at buf) n x = Inr y"
    by (cases m) (auto simp: wrapper_settings_def OnUrl_def OnBody_def OnHeaderValue_def Let_def)
qed

text \<open>The server passes the text of a string, which a NUL ends.\<close>

lemma ParseHttpContent_returns: "\<exists>w. ParseHttpContent (in_buf @ [NUL]) (length in_buf) = Inr w"
proof -
  have "slices wrapper_settings (in_buf @ [NUL]) (length in_buf)" by (rule wrapper_slices) simp_all
  from execute_safe[OF wrapper_calm this _ init_well, of HTTP_REQUEST cleared]
  show ?thesis by (auto simp: ParseHttpContent_def)
qed

text \<open>The property of the parser at the wrapper's callbacks and a short request.\<close>

theorem http_parser_never_crashes_witness:
  "\<exists>n p w. http_parser_execute wrapper_settings (''GET / HTTP/1.1'' @ [CR, LF, CR, LF] @ [NUL]) 18
     (http_parser_init HTTP_REQUEST) cleared = Inr (n, p, w) \<and> n \<le> 18"
proof -
  let ?d = "''GET / HTTP/1.1'' @ [CR, LF, CR, LF] @ [NUL]"
  have "slices wrapper_settings ?d 18" by (rule wrapper_slices) simp_all
  from http_parser_never_crashes[OF wrapper_calm _ _ this, of "[]" HTTP_REQUEST cleared] show ?thesis by simp
qed

end
