(* ===== verification/HttpRequest.thy ===== *)
theory HttpRequest
  imports HttpWrapper
begin

text \<open>
  What the parser makes of a well-formed request: the bytes of a POST request with any headers are read as the
  URL, the headers and the body they were written from.
\<close>

section \<open>The text of a request\<close>

definition http_crlf :: string where "http_crlf = [CR, LF]"

definition header_text :: "string \<times> string \<Rightarrow> string" where
  "header_text h = fst h @ '': '' @ snd h @ http_crlf"

definition request_text :: "string \<Rightarrow> (string \<times> string) list \<Rightarrow> string \<Rightarrow> string" where
  "request_text target headers body =
     ''POST '' @ target @ '' HTTP/1.1'' @ http_crlf @ concat (map header_text headers) @
     header_text (''Content-Length'', dec (length body)) @ http_crlf @ body"

text \<open>Headers that do not change how the body is read, with a value that does not begin with a blank.\<close>

definition plain_header :: "string \<times> string \<Rightarrow> bool" where
  "plain_header h \<longleftrightarrow> (case h of (name, v) \<Rightarrow>
     name \<noteq> [] \<and> (\<forall>c\<in>set name. TOKEN c \<noteq> NUL) \<and>
     map TOKEN name \<notin> {''content-length'', ''transfer-encoding'', ''upgrade''} \<and>
     v \<noteq> [] \<and> hd v \<noteq> CHR '' '' \<and> hd v \<noteq> CHR 0x09 \<and> CR \<notin> set v \<and> LF \<notin> set v)"

definition good_target :: "string \<Rightarrow> bool" where
  "good_target target \<longleftrightarrow> target \<noteq> [] \<and> hd target = CHR ''/'' \<and> foldl parse_url_char s_req_path (tl target) \<noteq> s_dead"

text \<open>The wrapper looks for a header by the beginning of its name.\<close>

definition has_prefix :: "string \<Rightarrow> string \<Rightarrow> bool" where
  "has_prefix word name \<longleftrightarrow> length word \<le> length name \<and> map c_tolower (take (length word) name) = map c_tolower word"

definition first_header :: "string \<Rightarrow> (string \<times> string) list \<Rightarrow> string" where
  "first_header word hs = (case filter (\<lambda>h. has_prefix word (fst h)) hs of [] \<Rightarrow> [] | h # _ \<Rightarrow> snd h)"

section \<open>One byte\<close>

text \<open>Before the byte at \<open>k\<close> of the headers \<open>k\<close> bytes were counted.\<close>

definition run_at :: "http_parser \<Rightarrow> (mark \<Rightarrow> nat option) \<Rightarrow> nat \<Rightarrow> wrapper \<Rightarrow> wrapper run" where
  "run_at p mk k w = \<lparr>parser = p\<lparr>nread := k\<rparr>, marks = mk, pos = k, obj = w\<rparr>"

definition during :: "http_parser \<Rightarrow> (mark \<Rightarrow> nat option) \<Rightarrow> nat \<Rightarrow> wrapper \<Rightarrow> wrapper run" where
  "during p mk k w = \<lparr>parser = p\<lparr>nread := k + 1\<rparr>, marks = mk, pos = k, obj = w\<rparr>"

lemma during_simps [simp]:
  "parser (during p mk k w) = p\<lparr>nread := k + 1\<rparr>" "marks (during p mk k w) = mk" "pos (during p mk k w) = k"
  "obj (during p mk k w) = w"
  by (simp_all add: during_def)

abbreviation wloop :: "string \<Rightarrow> nat \<Rightarrow> wrapper run \<Rightarrow> (nat \<times> wrapper run) res" where
  "wloop \<equiv> execute_loop wrapper_settings"

lemma byte:
  assumes "PARSING_HEADER (state p)" "drop k data = c # rest" "k < len" "len \<le> 4096"
    and step: "step_byte wrapper_settings data len c (during p mk k w) = Inr (Next (during q mk' k w'))"
  shows "wloop data len (run_at p mk k w) = wloop data len (run_at q mk' (k + 1) w')"
proof -
  let ?r = "run_at p mk k w"
  have u: "upd (\<lambda>p. p\<lparr>nread := (nread p + 1) mod 2 ^ 32\<rparr>) ?r = during p mk k w"
    using assms(3,4) by (simp add: upd_def run_at_def during_def)
  have c: "data ! k = c" using assms(2) by (metis nth_via_drop)
  have v: "during q mk' k w'\<lparr>pos := k + 1\<rparr> = run_at q mk' (k + 1) w'" by (simp add: during_def run_at_def)
  have r: "state (parser ?r) = state p" "pos ?r = k" by (simp_all add: run_at_def)
  have s: "(if PARSING_HEADER (state (parser (during p mk k w))) \<and> HTTP_MAX_HEADER_SIZE < nread (parser (during p mk k w))
     then error HPE_HEADER_OVERFLOW (during p mk k w) else step_byte wrapper_settings data len c (during p mk k w))
     = Inr (Next (during q mk' k w'))"
    using assms(3,4) step by (simp add: HTTP_MAX_HEADER_SIZE_def)
  show ?thesis
    apply (subst execute_loop.simps)
    apply (simp only: r u c assms(1,3) if_True Let_def s bindR_simps flow.case)
    apply (simp only: during_simps v)
    done
qed

lemma upd_during [simp]:
  "to_state s (during p mk k w) = during (p\<lparr>state := s\<rparr>) mk k w"
  "MARK m (during p mk k w) = during p (if mk m = None then mk(m := Some k) else mk) k w"
  "during p mk k w\<lparr>marks := mk'\<rparr> = during p mk' k w"
  by (simp_all add: to_state_def upd_def during_def MARK_def)

lemma upd_during_parser: "(\<And>n. f (p\<lparr>nread := n\<rparr>) = (g p)\<lparr>nread := n\<rparr>) \<Longrightarrow> upd f (during p mk k w) = during (g p) mk k w"
  by (simp add: upd_def during_def)

lemma called_during [simp]: "called e (0, False, w') (during p mk k w) = during p mk k w'"
  by (simp add: called_def upd_def during_def)


lemma notify_during [simp]:
  "http_errno p = HPE_OK \<Longrightarrow> CALLBACK_NOTIFY None e er (during p mk k w) f = f (during p mk k w)"
  by (simp add: CALLBACK_NOTIFY_def)

lemma data_during:
  assumes "http_errno p = HPE_OK" "mk m = Some a" "on_data wrapper_settings m = Some g"
    "g (p\<lparr>nread := k + 1\<rparr>) (drop a data) (stop - a) w = Inr (0, False, w')"
  shows "CALLBACK_DATA wrapper_settings data m stop er (during p mk k w) f = f (during p (mk(m := None)) k w')"
  using assms by (simp add: CALLBACK_DATA_def Let_def)

abbreviation unmarked :: "mark \<Rightarrow> nat option" where "unmarked \<equiv> (\<lambda>_. None)"

lemma error_eq [simp]: "error e r \<noteq> Inr (Next v)"
  by (simp add: error_def)

text \<open>The request line.\<close>

lemma drop_Cons: "drop k data = c # rest \<Longrightarrow> drop (k + 1) data = rest"
  by (metis drop_drop drop_Suc_Cons drop0 add.commute One_nat_def)

lemmas line_step_defs = step_byte_def step_req_method_def step_constant_def step_http_start_def step_first_major_def
  step_major_def step_first_minor_def step_req_minor_def step_req_line_almost_done_def digit_def IS_NUM_def
  during_def upd_def to_state_def

lemma method_name:
  assumes "data = ''POST '' @ rest" "5 \<le> len" "len \<le> 4096"
  shows "wloop data len (run_at (http_parser_init HTTP_REQUEST) unmarked 0 w) =
    wloop data len (run_at ((http_parser_init HTTP_REQUEST)\<lparr>req_method := HTTP_POST, content_length := ULLONG_MAX, index := 5,
      state := s_req_spaces_before_url\<rparr>) unmarked 5 w)"
proof -
  let ?p = "\<lambda>i. (http_parser_init HTTP_REQUEST)\<lparr>req_method := HTTP_POST, content_length := ULLONG_MAX, index := i, state := s_req_method\<rparr>"
  have 0: "wloop data len (run_at (http_parser_init HTTP_REQUEST) unmarked 0 w) = wloop data len (run_at (?p 1) unmarked (0 + 1) w)"
    using assms
    by (intro byte[where c = "CHR ''P''" and rest = "''OST '' @ rest"])
      (simp_all add: http_parser_init_def PARSING_HEADER_def step_byte_def step_start_req_def Let_def IS_ALPHA_def first_method_def
        wrapper_settings_def during_def upd_def CALLBACK_NOTIFY_def)
  have 1: "wloop data len (run_at (?p 1) unmarked 1 w) = wloop data len (run_at (?p 2) unmarked (1 + 1) w)"
    using assms by (intro byte[where c = "CHR ''O''" and rest = "''ST '' @ rest"]) (simp_all add: PARSING_HEADER_def line_step_defs)
  have 2: "wloop data len (run_at (?p 2) unmarked 2 w) = wloop data len (run_at (?p 3) unmarked (2 + 1) w)"
    using assms by (intro byte[where c = "CHR ''S''" and rest = "''T '' @ rest"]) (simp_all add: PARSING_HEADER_def line_step_defs)
  have 3: "wloop data len (run_at (?p 3) unmarked 3 w) = wloop data len (run_at (?p 4) unmarked (3 + 1) w)"
    using assms by (intro byte[where c = "CHR ''T''" and rest = "'' '' @ rest"]) (simp_all add: PARSING_HEADER_def line_step_defs)
  have 4: "wloop data len (run_at (?p 4) unmarked 4 w) =
     wloop data len (run_at (?p 5\<lparr>state := s_req_spaces_before_url\<rparr>) unmarked (4 + 1) w)"
    using assms by (intro byte[where c = "CHR '' ''" and rest = rest]) (simp_all add: PARSING_HEADER_def line_step_defs)
  from 0 1 2 3 4 show ?thesis by (simp del: One_nat_def)
qed

lemma version:
  assumes "state p = s_req_http_start" "drop k data = ''HTTP/1.1'' @ [CR, LF] @ rest" "k + 10 \<le> len" "len \<le> 4096"
  shows "wloop data len (run_at p unmarked k w) =
    wloop data len (run_at (p\<lparr>http_major := 1, http_minor := 1, state := s_header_field_start\<rparr>) unmarked (k + 10) w)"
proof -
  have st: "wloop data len (run_at q unmarked (k + i) w) = wloop data len (run_at q' unmarked (k + j) w)"
    if "drop i (''HTTP/1.1'' @ [CR, LF] @ rest) = c # r" "i < 10" "j = i + 1" "PARSING_HEADER (state q)"
      "step_byte wrapper_settings data len c (during q unmarked (k + i) w) = Inr (Next (during q' unmarked (k + i) w))"
    for i j q q' c r
    using byte[OF that(4) _ _ assms(4) that(5), of r] that(1-3) assms(2,3) drop_drop[of i k data] by (simp add: add.commute)
  let ?T = "''HTTP/1.1'' @ [CR, LF] @ rest"
  let ?a = "p\<lparr>http_major := 1\<rparr>" let ?b = "?a\<lparr>http_minor := 1\<rparr>"
  note defs = PARSING_HEADER_def line_step_defs STRICT_CHECK_def Let_def
  have "wloop data len (run_at p unmarked (k + 0) w) = wloop data len (run_at (p\<lparr>state := s_req_http_H\<rparr>) unmarked (k + 1) w)"
    by (rule st[of 0 "CHR ''H''" "drop 1 ?T"]) (simp_all add: defs assms(1))
  also have "\<dots> = wloop data len (run_at (p\<lparr>state := s_req_http_HT\<rparr>) unmarked (k + 2) w)"
    by (rule st[of 1 "CHR ''T''" "drop 2 ?T"]) (simp_all add: defs)
  also have "\<dots> = wloop data len (run_at (p\<lparr>state := s_req_http_HTT\<rparr>) unmarked (k + 3) w)"
    by (rule st[of 2 "CHR ''T''" "drop 3 ?T"]) (simp_all add: defs)
  also have "\<dots> = wloop data len (run_at (p\<lparr>state := s_req_http_HTTP\<rparr>) unmarked (k + 4) w)"
    by (rule st[of 3 "CHR ''P''" "drop 4 ?T"]) (simp_all add: defs)
  also have "\<dots> = wloop data len (run_at (p\<lparr>state := s_req_first_http_major\<rparr>) unmarked (k + 5) w)"
    by (rule st[of 4 "CHR ''/''" "drop 5 ?T"]) (simp_all add: defs)
  also have "\<dots> = wloop data len (run_at (?a\<lparr>state := s_req_http_major\<rparr>) unmarked (k + 6) w)"
    by (rule st[of 5 "CHR ''1''" "drop 6 ?T"]) (simp_all add: defs)
  also have "\<dots> = wloop data len (run_at (?a\<lparr>state := s_req_first_http_minor\<rparr>) unmarked (k + 7) w)"
    by (rule st[of 6 "CHR ''.''" "drop 7 ?T"]) (simp_all add: defs)
  also have "\<dots> = wloop data len (run_at (?b\<lparr>state := s_req_http_minor\<rparr>) unmarked (k + 8) w)"
    by (rule st[of 7 "CHR ''1''" "drop 8 ?T"]) (simp_all add: defs)
  also have "\<dots> = wloop data len (run_at (?b\<lparr>state := s_req_line_almost_done\<rparr>) unmarked (k + 9) w)"
    by (rule st[of 8 "CR" "drop 9 ?T"]) (simp_all add: defs)
  also have "\<dots> = wloop data len (run_at (?b\<lparr>state := s_header_field_start\<rparr>) unmarked (k + 10) w)"
    by (rule st[of 9 "LF" "drop 10 ?T"]) (simp_all add: defs)
  finally show ?thesis by simp
qed

definition url_states :: "http_state set" where
  "url_states = {s_req_path, s_req_query_string_start, s_req_query_string, s_req_fragment_start, s_req_fragment}"

lemma url_states_closed:
  assumes "s \<in> url_states" "parse_url_char s c \<noteq> s_dead"
  shows "parse_url_char s c \<in> url_states \<and> c \<noteq> CHR '' '' \<and> c \<noteq> CR \<and> c \<noteq> LF"
proof -
  have c: "c \<noteq> CHR '' '' \<and> c \<noteq> CR \<and> c \<noteq> LF \<and> c \<noteq> CHR 0x09 \<and> c \<noteq> CHR 0x0C"
    using assms(2) by (auto simp: parse_url_char_def)
  from assms(1) have "s = s_req_path \<or> s = s_req_query_string_start \<or> s = s_req_query_string \<or> s = s_req_fragment_start \<or> s = s_req_fragment"
    by (simp add: url_states_def)
  then have "parse_url_char s c \<in> insert s_dead url_states"
    using c by (elim disjE) (simp_all add: parse_url_char_def url_states_def)
  with assms(2) c show ?thesis by simp
qed

lemma parse_dead: "foldl parse_url_char s_dead cs = s_dead"
  by (induction cs) (simp_all add: parse_url_char_def)

lemma url_chars:
  assumes "state p \<in> url_states" "foldl parse_url_char (state p) cs \<noteq> s_dead" "drop k data = cs @ rest"
    "k + length cs \<le> len" "len \<le> 4096"
  shows "wloop data len (run_at p mk k w) =
      wloop data len (run_at (p\<lparr>state := foldl parse_url_char (state p) cs\<rparr>) mk (k + length cs) w) \<and>
    foldl parse_url_char (state p) cs \<in> url_states"
  using assms
proof (induction cs arbitrary: p k)
  case (Cons c cs)
  let ?s = "parse_url_char (state p) c"
  have n: "?s \<noteq> s_dead" using Cons.prems(2) parse_dead by auto
  note c = url_states_closed[OF Cons.prems(1) n]
  have u: "url_step c (during p mk k w) = Inr (Next (during (p\<lparr>state := ?s\<rparr>) mk k w))"
    using n by (simp add: url_step_def)
  have "wloop data len (run_at p mk k w) = wloop data len (run_at (p\<lparr>state := ?s\<rparr>) mk (k + 1) w)"
    using Cons.prems c u
    by (intro byte[where c = c and rest = "cs @ rest"])
      (auto simp: url_states_def PARSING_HEADER_def step_byte_def step_url_def)
  with Cons.IH[of "p\<lparr>state := ?s\<rparr>" "k + 1"] Cons.prems c drop_Cons[of k data c "cs @ rest"] show ?case by simp
qed simp

lemma target_read:
  assumes "state p = s_req_spaces_before_url" "req_method p = HTTP_POST" "http_errno p = HPE_OK" "good_target target"
    "drop k data = target @ '' '' @ rest" "k + length target < len" "len \<le> 4096"
  shows "wloop data len (run_at p unmarked k w) =
    wloop data len (run_at (p\<lparr>state := s_req_http_start\<rparr>) unmarked (k + length target + 1) (w\<lparr>w_url := w_url w @ target\<rparr>))"
proof -
  obtain cs where t: "target = CHR ''/'' # cs" and ok: "foldl parse_url_char s_req_path cs \<noteq> s_dead"
    using assms(4) by (cases target) (auto simp: good_target_def)
  let ?mk = "unmarked(M_url := Some k)" let ?s = "foldl parse_url_char s_req_path cs"
  have "wloop data len (run_at p unmarked k w) = wloop data len (run_at (p\<lparr>state := s_req_path\<rparr>) ?mk (k + 1) w)"
    using assms t
    by (intro byte[where c = "CHR ''/''" and rest = "cs @ '' '' @ rest"])
      (simp_all add: PARSING_HEADER_def step_byte_def step_spaces_before_url_def url_step_def parse_url_char_def)
  moreover have "wloop data len (run_at (p\<lparr>state := s_req_path\<rparr>) ?mk (k + 1) w) =
      wloop data len (run_at (p\<lparr>state := ?s\<rparr>) ?mk (k + 1 + length cs) w)"
    and s: "?s \<in> url_states"
    using url_chars[of "p\<lparr>state := s_req_path\<rparr>" cs "k + 1" data "'' '' @ rest" len ?mk w] ok assms(5-7) t
      drop_Cons[of k data "CHR ''/''" "cs @ '' '' @ rest"] by (auto simp: url_states_def)
  moreover have "wloop data len (run_at (p\<lparr>state := ?s\<rparr>) ?mk (k + 1 + length cs) w) =
    wloop data len (run_at (p\<lparr>state := s_req_http_start\<rparr>) unmarked (k + 1 + length cs + 1) (w\<lparr>w_url := w_url w @ target\<rparr>))"
  proof (rule byte[where c = "CHR '' ''" and rest = rest])
    have "drop (k + 1 + length cs) data = drop (1 + length cs) (drop k data)" by (simp add: add.commute add.left_commute)
    then show "drop (k + 1 + length cs) data = CHR '' '' # rest" using assms(5) t by simp
    show "PARSING_HEADER (state (p\<lparr>state := ?s\<rparr>))" using s by (auto simp: url_states_def PARSING_HEADER_def)
    have cb: "CALLBACK_DATA wrapper_settings data M_url (k + 1 + length cs) er (during (p\<lparr>state := s_req_http_start\<rparr>) ?mk (k + 1 + length cs) w) f
      = f (during (p\<lparr>state := s_req_http_start\<rparr>) (?mk(M_url := None)) (k + 1 + length cs) (w\<lparr>w_url := w_url w @ target\<rparr>))" for er f
      using assms(3,5) t by (intro data_during[where a = k and g = OnUrl]) (simp_all add: wrapper_settings_def OnUrl_def)
    then show "step_byte wrapper_settings data len (CHR '' '') (during (p\<lparr>state := ?s\<rparr>) ?mk (k + 1 + length cs) w) =
      Inr (Next (during (p\<lparr>state := s_req_http_start\<rparr>) unmarked (k + 1 + length cs) (w\<lparr>w_url := w_url w @ target\<rparr>)))"
      using s by (auto simp: url_states_def step_byte_def step_url_def)
  qed (use assms(6,7) t in simp_all)
  ultimately show ?thesis using t by simp
qed

section \<open>Header names\<close>

text \<open>The recogniser of names: its state and index after one more character.\<close>

definition recognise :: "header_states \<times> nat \<Rightarrow> char \<Rightarrow> header_states \<times> nat" where
  "recognise hi ch =
     (case field_char (TOKEN ch) ch ((http_parser_init HTTP_REQUEST)\<lparr>header_state := fst hi, index := snd hi\<rparr>) of
        Inr q \<Rightarrow> (header_state q, index q) | Inl e \<Rightarrow> hi)"

definition name_state :: "string \<Rightarrow> header_states \<times> nat" where
  "name_state name = foldl recognise (first_header_state (TOKEN (hd name)), 0) (tl name)"

text \<open>A state of the recogniser tells what was read.\<close>

fun reads_as :: "header_states \<Rightarrow> nat \<Rightarrow> string \<Rightarrow> bool" where
  "reads_as h_general i cs = True"
| "reads_as h_C i cs = (i = 0 \<and> cs = ''c'')"
| "reads_as h_CO i cs = (i = 1 \<and> cs = ''co'')"
| "reads_as h_CON i cs = (i = 2 \<and> cs = ''con'')"
| "reads_as h_matching_connection i cs = (i + 1 < 10 \<and> cs = take (i + 1) ''connection'')"
| "reads_as h_matching_proxy_connection i cs = (i + 1 < 16 \<and> cs = take (i + 1) ''proxy-connection'')"
| "reads_as h_matching_content_length i cs = (i + 1 < 14 \<and> cs = take (i + 1) ''content-length'')"
| "reads_as h_matching_transfer_encoding i cs = (i + 1 < 17 \<and> cs = take (i + 1) ''transfer-encoding'')"
| "reads_as h_matching_upgrade i cs = (i + 1 < 7 \<and> cs = take (i + 1) ''upgrade'')"
| "reads_as h_connection i cs = True"
| "reads_as h_content_length i cs = (cs = ''content-length'')"
| "reads_as h_transfer_encoding i cs = (cs = ''transfer-encoding'')"
| "reads_as h_upgrade i cs = (cs = ''upgrade'')"
| "reads_as _ i cs = False"

lemma match_word_reads:
  assumes "cs = take (i + 1) W" "i + 1 < length W" "length W < 256" "c \<noteq> NUL"
  shows "\<exists>h' i'. (\<forall>p. index p = i \<and> header_state p = h \<longrightarrow> match_word W found c p = p\<lparr>header_state := h', index := i'\<rparr>) \<and>
    (h' = h_general \<or> h' = found \<and> cs @ [c] = W \<or> h' = h \<and> i' + 1 < length W \<and> cs @ [c] = take (i' + 1) W)"
proof -
  have m: "(i + 1) mod 2 ^ 8 = i + 1" using assms(2,3) by simp
  have t: "take (i + 1) W @ [W ! (i + 1)] = take (i + 1 + 1) W" using assms(2) by (simp add: take_Suc_conv_app_nth)
  have n: "(W @ [NUL]) ! (i + 1) = W ! (i + 1)" using assms(2) by (simp add: nth_append)
  show ?thesis
  proof (cases "c = W ! (i + 1)")
    case False
    then have "match_word W found c p = p\<lparr>header_state := h_general, index := i + 1\<rparr>" if "index p = i" for p
      using m n that by (simp add: match_word_def)
    then show ?thesis by blast
  next
    case True
    show ?thesis
    proof (cases "i + 1 + 1 = length W")
      case last: True
      then have "match_word W found c p = p\<lparr>header_state := found, index := i + 1\<rparr>" if "index p = i" for p
        using m n True assms(2) that by (simp add: match_word_def)
      moreover have "cs @ [c] = W" using True t last assms(1) by simp
      ultimately show ?thesis by blast
    next
      case False
      then have "match_word W found c p = p\<lparr>header_state := h, index := i + 1\<rparr>" if "index p = i" "header_state p = h" for p
        using m n True assms(2) that by (simp add: match_word_def)
      moreover have "cs @ [c] = take (i + 1 + 1) W" "i + 1 + 1 < length W" using True t False assms(1,2) by simp_all
      ultimately show ?thesis by blast
    qed
  qed
qed

lemma field_char_reads:
  assumes "reads_as h i cs" "c \<noteq> NUL" "ch \<noteq> CHR '' ''"
  shows "\<exists>h' i'. (\<forall>p. index p = i \<and> header_state p = h \<longrightarrow> field_char c ch p = Inr (p\<lparr>header_state := h', index := i'\<rparr>)) \<and>
    reads_as h' i' (cs @ [c])"
proof (cases h)
  case h_matching_connection
  with assms match_word_reads[of cs i "''connection''" c h h_connection] show ?thesis
    by (fastforce simp: field_char_def)
next
  case h_matching_proxy_connection
  with assms match_word_reads[of cs i "''proxy-connection''" c h h_connection] show ?thesis
    by (fastforce simp: field_char_def)
next
  case h_matching_content_length
  with assms match_word_reads[of cs i "''content-length''" c h h_content_length] show ?thesis
    by (fastforce simp: field_char_def)
next
  case h_matching_transfer_encoding
  with assms match_word_reads[of cs i "''transfer-encoding''" c h h_transfer_encoding] show ?thesis
    by (fastforce simp: field_char_def)
next
  case h_matching_upgrade
  with assms match_word_reads[of cs i "''upgrade''" c h h_upgrade] show ?thesis
    by (fastforce simp: field_char_def)
next
  case h_general
  then show ?thesis by (intro exI[of _ h_general] exI[of _ i]) (simp add: field_char_def)
next
  case h_C
  with assms show ?thesis
    by (intro exI[of _ "if c = CHR ''o'' then h_CO else h_general"] exI[of _ 1]) (simp add: field_char_def next_letter_def)
next
  case h_CO
  with assms show ?thesis
    by (intro exI[of _ "if c = CHR ''n'' then h_CON else h_general"] exI[of _ 2]) (simp add: field_char_def next_letter_def)
next
  case h_CON
  with assms show ?thesis
    by (intro exI[of _ "if c = CHR ''n'' then h_matching_connection else if c = CHR ''t'' then h_matching_content_length else h_general"]
      exI[of _ 3]) (simp add: field_char_def)
next
  case h_connection
  with assms(3) show ?thesis by (intro exI[of _ h_general] exI[of _ i]) (simp add: field_char_def)
next
  case h_content_length
  with assms(3) show ?thesis by (intro exI[of _ h_general] exI[of _ i]) (simp add: field_char_def)
next
  case h_transfer_encoding
  with assms(3) show ?thesis by (intro exI[of _ h_general] exI[of _ i]) (simp add: field_char_def)
next
  case h_upgrade
  with assms(3) show ?thesis by (intro exI[of _ h_general] exI[of _ i]) (simp add: field_char_def)
qed (use assms in simp_all)

lemma token_simps [simp]:
  "TOKEN (CHR '' '') = NUL" "TOKEN (CHR '':'') = NUL" "TOKEN CR = NUL" "TOKEN LF = NUL" "TOKEN (CHR 0x09) = NUL"
  by code_simp+

lemma recognise_char:
  assumes "reads_as (header_state p) (index p) cs" "TOKEN ch \<noteq> NUL" "recognise (header_state p, index p) ch = (h', i')"
  shows "field_char (TOKEN ch) ch p = Inr (p\<lparr>header_state := h', index := i'\<rparr>) \<and> reads_as h' i' (cs @ [TOKEN ch])"
proof -
  have b: "ch \<noteq> CHR '' ''" using assms(2) by auto
  from field_char_reads[OF assms(1,2) b] obtain h i where
    f: "\<And>q. index q = index p \<and> header_state q = header_state p \<Longrightarrow> field_char (TOKEN ch) ch q = Inr (q\<lparr>header_state := h, index := i\<rparr>)"
    and r: "reads_as h i (cs @ [TOKEN ch])" by blast
  have "recognise (header_state p, index p) ch = (h, i)"
    using f[of "(http_parser_init HTTP_REQUEST)\<lparr>header_state := header_state p, index := index p\<rparr>"] by (simp add: recognise_def)
  with f r assms(3) show ?thesis by simp
qed

lemma name_chars:
  assumes "state p = s_header_field" "reads_as (header_state p) (index p) pre" "\<forall>c\<in>set cs. TOKEN c \<noteq> NUL"
    "drop k data = cs @ rest" "k + length cs \<le> len" "len \<le> 4096" "foldl recognise (header_state p, index p) cs = (h, i)"
  shows "wloop data len (run_at p mk k w) = wloop data len (run_at (p\<lparr>header_state := h, index := i\<rparr>) mk (k + length cs) w) \<and>
    reads_as h i (pre @ map TOKEN cs)"
  using assms
proof (induction cs arbitrary: p k pre)
  case (Cons c cs)
  obtain h' i' where r: "recognise (header_state p, index p) c = (h', i')" by fastforce
  let ?q = "p\<lparr>header_state := h', index := i'\<rparr>"
  have t: "TOKEN c \<noteq> NUL" using Cons.prems(3) by simp
  from recognise_char[OF Cons.prems(2) t r] have f: "field_char (TOKEN c) c p = Inr ?q" and q: "reads_as h' i' (pre @ [TOKEN c])"
    by simp_all
  have "field_char (TOKEN c) c (p\<lparr>nread := k + 1\<rparr>) = Inr (p\<lparr>nread := k + 1, header_state := h', index := i'\<rparr>)"
    using recognise_char[of "p\<lparr>nread := k + 1\<rparr>" pre c h' i'] Cons.prems(2) t r by simp
  then have "wloop data len (run_at p mk k w) = wloop data len (run_at ?q mk (k + 1) w)"
    using Cons.prems t
    by (intro byte[where c = c and rest = "cs @ rest"])
      (simp_all add: PARSING_HEADER_def step_byte_def step_header_field_def during_def)
  moreover have "foldl recognise (h', i') cs = (h, i)" using Cons.prems(7) r by simp
  ultimately show ?case
    using Cons.IH[of ?q "pre @ [TOKEN c]" "k + 1"] Cons.prems q drop_Cons[of k data c "cs @ rest"] by simp
next
  case Nil
  have "p\<lparr>header_state := header_state p, index := index p\<rparr> = p" by (cases p) simp
  with Nil show ?case by auto
qed

section \<open>What the wrapper keeps\<close>

definition seen :: "bool \<Rightarrow> string \<Rightarrow> string \<Rightarrow> (wrapper \<Rightarrow> wrapper) \<Rightarrow> wrapper \<Rightarrow> wrapper" where
  "seen has word name set_read w = (if \<not> has \<and> has_prefix word name then set_read w else w)"

definition see_name :: "string \<Rightarrow> wrapper \<Rightarrow> wrapper" where
  "see_name name w =
     (let w = seen (w_referer w \<noteq> []) ''Referer'' name (\<lambda>w. w\<lparr>read_referer := True\<rparr>) w;
          w = seen (w_forward_ip w \<noteq> []) ''X-Forwarded-For'' name (\<lambda>w. w\<lparr>read_forward_ip := True\<rparr>) w;
          w = seen (w_user_agent w \<noteq> []) ''User-Agent'' name (\<lambda>w. w\<lparr>read_user_agent := True\<rparr>) w;
          w = seen (w_content_type w \<noteq> []) ''Content-Type'' name (\<lambda>w. w\<lparr>read_content_type := True\<rparr>) w;
          w = seen (w_content_len w \<noteq> 0) ''Content-Length'' name (\<lambda>w. w\<lparr>read_content_len := True\<rparr>) w
      in seen (w_host w \<noteq> []) ''Host'' name (\<lambda>w. w\<lparr>read_host := True\<rparr>) w)"

definition put_value :: "string \<Rightarrow> wrapper \<Rightarrow> wrapper" where
  "put_value v w = (case OnHeaderValue (http_parser_init HTTP_REQUEST) v (length v) w of Inr (n, b, w') \<Rightarrow> w' | Inl e \<Rightarrow> w)"

lemma OnHeaderValue_puts: "OnHeaderValue p at n w = Inr (0, False, put_value (take n at) w)"
  by (simp only: put_value_def OnHeaderValue_def Let_def sum.case prod.case take_all[OF order_refl])

lemma same_prefix_name:
  "\<forall>x\<in>set word. c_tolower x \<noteq> CHR '':'' \<Longrightarrow> same_prefix (name @ CHR '':'' # rest) word = Inr (has_prefix word name)"
proof (induction word arbitrary: name)
  case (Cons x word)
  show ?case
  proof (cases name)
    case Nil
    have "c_tolower (CHR '':'') = CHR '':''" by code_simp
    with Nil Cons.prems show ?thesis by (auto simp: has_prefix_def)
  qed (use Cons in \<open>auto simp: has_prefix_def\<close>)
qed (simp add: has_prefix_def)

lemma OnHeaderField_sees: "OnHeaderField p (name @ CHR '':'' # rest) n w = Inr (0, False, see_name name w)"
proof -
  have n: "notice has word (name @ CHR '':'' # rest) f v = Inr (seen has word name f v)"
    if "\<forall>x\<in>set word. c_tolower x \<noteq> CHR '':''" for has word f v
    using same_prefix_name[OF that] by (simp add: notice_def seen_def)
  have "\<forall>x\<in>set ''Referer''. c_tolower x \<noteq> CHR '':''" "\<forall>x\<in>set ''X-Forwarded-For''. c_tolower x \<noteq> CHR '':''"
    "\<forall>x\<in>set ''User-Agent''. c_tolower x \<noteq> CHR '':''" "\<forall>x\<in>set ''Content-Type''. c_tolower x \<noteq> CHR '':''"
    "\<forall>x\<in>set ''Content-Length''. c_tolower x \<noteq> CHR '':''" "\<forall>x\<in>set ''Host''. c_tolower x \<noteq> CHR '':''"
    by code_simp+
  then show ?thesis by (simp only: OnHeaderField_def n bindR_simps see_name_def Let_def)
qed

section \<open>A header line\<close>

lemma first_char_reads:
  assumes "TOKEN c \<noteq> NUL"
  shows "reads_as (first_header_state (TOKEN c)) 0 [TOKEN c]"
  using assms by (simp add: first_header_state_def)

lemma name_line:
  assumes "state p \<in> {s_header_field_start, s_header_value_lws}" "http_errno p = HPE_OK"
    "name \<noteq> []" "\<forall>c\<in>set name. TOKEN c \<noteq> NUL" "drop k data = name @ CHR '':'' # CHR '' '' # rest" "k + length name + 2 \<le> len" "len \<le> 4096"
    and hi: "name_state name = (h, i)"
  shows "wloop data len (run_at p unmarked k w) =
      wloop data len (run_at (p\<lparr>header_state := h, index := i, state := s_header_value_start\<rparr>) unmarked (k + length name + 2) (see_name name w)) \<and>
    reads_as h i (map TOKEN name)"
proof -
  obtain c cs where n: "name = c # cs" using assms(3) by (cases name) auto
  let ?mk = "unmarked(M_header_field := Some k)" let ?h = "first_header_state (TOKEN c)"
  let ?p = "p\<lparr>index := 0, state := s_header_field, header_state := ?h\<rparr>"
  let ?q = "?p\<lparr>header_state := h, index := i\<rparr>" let ?k = "k + 1 + length cs"
  have c: "TOKEN c \<noteq> NUL" using assms(4) n by simp
  then have cc: "c \<noteq> CR" "c \<noteq> LF" "c \<noteq> CHR '' ''" "c \<noteq> CHR 0x09" by (metis token_simps)+
  have u: "upd (\<lambda>p. p\<lparr>index := 0, state := s_header_field, header_state := ?h\<rparr>) (during q mk k w) =
      during (q\<lparr>index := 0, state := s_header_field, header_state := ?h\<rparr>) mk k w" for q mk
    by (simp add: upd_during_parser)
  have start: "step_header_field_start wrapper_settings c (during q unmarked k w) =
      Inr (Next (during (q\<lparr>index := 0, state := s_header_field, header_state := ?h\<rparr>) ?mk k w))" for q
    using c cc by (simp add: step_header_field_start_def u)
  have "step_byte wrapper_settings data len c (during p unmarked k w) = Inr (Next (during ?p ?mk k w))"
    using assms(1) cc by (auto simp: step_byte_def step_header_value_lws_def start)
  then have 1: "wloop data len (run_at p unmarked k w) = wloop data len (run_at ?p ?mk (k + 1) w)"
    using assms(1,5-7) n by (intro byte[where c = c and rest = "cs @ CHR '':'' # CHR '' '' # rest"]) (auto simp: PARSING_HEADER_def)
  have 2: "wloop data len (run_at ?p ?mk (k + 1) w) = wloop data len (run_at ?q ?mk ?k w) \<and> reads_as h i ([TOKEN c] @ map TOKEN cs)"
  proof (rule name_chars)
    show "drop (k + 1) data = cs @ CHR '':'' # CHR '' '' # rest"
      using drop_Cons[of k data c] assms(5) n by simp
    show "foldl recognise (header_state ?p, index ?p) cs = (h, i)" using hi n by (simp add: name_state_def)
  qed (use assms(4,6,7) n first_char_reads[OF c] in simp_all)
  have d: "drop ?k data = CHR '':'' # CHR '' '' # rest"
  proof -
    have "drop ?k data = drop (1 + length cs) (drop k data)" by (simp add: add.commute add.left_commute)
    then show ?thesis using assms(5) n by simp
  qed
  have "step_byte wrapper_settings data len (CHR '':'') (during ?q ?mk ?k w) =
      Inr (Next (during (?q\<lparr>state := s_header_value_start\<rparr>) (?mk(M_header_field := None)) ?k (see_name name w)))"
  proof -
    have "drop k data = name @ CHR '':'' # CHR '' '' # rest" using assms(5) .
    then have "OnHeaderField p' (drop k data) m w = Inr (0, False, see_name name w)" for p' m
      by (simp only: OnHeaderField_sees)
    then have "CALLBACK_DATA wrapper_settings data M_header_field ?k (?k + 1) (during (?q\<lparr>state := s_header_value_start\<rparr>) ?mk ?k w) f =
        f (during (?q\<lparr>state := s_header_value_start\<rparr>) (?mk(M_header_field := None)) ?k (see_name name w))" for f
      using assms(2) by (intro data_during[where a = k and g = OnHeaderField]) (simp_all add: wrapper_settings_def)
    then show ?thesis by (simp add: step_byte_def step_header_field_def)
  qed
  then have 3: "wloop data len (run_at ?q ?mk ?k w) =
      wloop data len (run_at (?q\<lparr>state := s_header_value_start\<rparr>) unmarked (?k + 1) (see_name name w))"
    using d assms(6,7) n by (intro byte[where c = "CHR '':''" and rest = "CHR '' '' # rest"]) (simp_all add: PARSING_HEADER_def)
  have 4: "wloop data len (run_at (?q\<lparr>state := s_header_value_start\<rparr>) unmarked (?k + 1) (see_name name w)) =
      wloop data len (run_at (?q\<lparr>state := s_header_value_start\<rparr>) unmarked (?k + 1 + 1) (see_name name w))"
    using drop_Cons[OF d] assms(6,7) n
    by (intro byte[where c = "CHR '' ''" and rest = rest]) (simp_all add: PARSING_HEADER_def step_byte_def step_header_value_start_def)
  from 1 2 3 4 n show ?thesis by simp
qed

definition plain_states :: "header_states set" where
  "plain_states = {h_general, h_matching_connection_keep_alive, h_matching_connection_close, h_connection_keep_alive, h_connection_close}"

lemma match_word_form:
  "\<exists>h i. (\<forall>n. match_word W found c (p\<lparr>nread := n\<rparr>) = p\<lparr>header_state := h, index := i, nread := n\<rparr>) \<and> h \<in> {h_general, found, header_state p}"
proof -
  let ?i = "(index p + 1) mod 2 ^ 8"
  let ?h = "if length W < ?i \<or> c \<noteq> (W @ [NUL]) ! ?i then h_general else if ?i + 1 = length W then found else header_state p"
  have "match_word W found c (p\<lparr>nread := n\<rparr>) = p\<lparr>header_state := ?h, index := ?i, nread := n\<rparr>" for n
    by (simp add: match_word_def Let_def)
  then show ?thesis by (intro exI[of _ ?h] exI[of _ ?i]) auto
qed

lemma value_step_plain:
  assumes "header_state p \<in> plain_states"
  shows "\<exists>h i. value_step c (during p mk k w) = Inr (Next (during (p\<lparr>header_state := h, index := i\<rparr>) mk k w)) \<and> h \<in> plain_states"
proof -
  have same: "p\<lparr>header_state := header_state p, index := index p\<rparr> = p" by (cases p) simp
  have to: "\<exists>h i. upd f (during p mk k w) = during (p\<lparr>header_state := h, index := i\<rparr>) mk k w \<and> h \<in> plain_states"
    if "\<exists>h i. (\<forall>n. f (p\<lparr>nread := n\<rparr>) = p\<lparr>header_state := h, index := i, nread := n\<rparr>) \<and> h \<in> plain_states" for f
    using that by (auto simp: upd_def during_def)
  have word: "\<exists>h i. upd (match_word W found d) (during p mk k w) = during (p\<lparr>header_state := h, index := i\<rparr>) mk k w \<and> h \<in> plain_states"
    if "found \<in> plain_states" for W found d
  proof (rule to)
    from match_word_form[of W found d p] obtain h i where
      "\<forall>n. match_word W found d (p\<lparr>nread := n\<rparr>) = p\<lparr>header_state := h, index := i, nread := n\<rparr>" "h \<in> {h_general, found, header_state p}"
      by blast
    moreover have "{h_general, found, header_state p} \<subseteq> plain_states" using that assms by (auto simp: plain_states_def)
    ultimately show "\<exists>h i. (\<forall>n. match_word W found d (p\<lparr>nread := n\<rparr>) = p\<lparr>header_state := h, index := i, nread := n\<rparr>) \<and> h \<in> plain_states"
      by blast
  qed
  have blank: "\<exists>h i. upd (\<lambda>p. if c \<noteq> CHR '' '' then p\<lparr>header_state := h_general\<rparr> else p) (during p mk k w) =
      during (p\<lparr>header_state := h, index := i\<rparr>) mk k w \<and> h \<in> plain_states"
  proof (rule to)
    show "\<exists>h i. (\<forall>n. (if c \<noteq> CHR '' '' then p\<lparr>nread := n, header_state := h_general\<rparr> else p\<lparr>nread := n\<rparr>) =
      p\<lparr>header_state := h, index := i, nread := n\<rparr>) \<and> h \<in> plain_states"
    proof (cases "c = CHR '' ''")
      case True
      with assms show ?thesis by (intro exI[of _ "header_state p"] exI[of _ "index p"]) (simp add: same)
    next
      case False
      have "p\<lparr>nread := n, header_state := h_general\<rparr> = p\<lparr>header_state := h_general, index := index p, nread := n\<rparr>" for n
        by (cases p) simp
      with False show ?thesis by (intro exI[of _ h_general] exI[of _ "index p"]) (simp add: plain_states_def)
    qed
  qed
  from assms consider "header_state p = h_general" | "header_state p = h_matching_connection_keep_alive"
    | "header_state p = h_matching_connection_close" | "header_state p = h_connection_keep_alive" | "header_state p = h_connection_close"
    by (auto simp: plain_states_def)
  then show ?thesis
  proof cases
    case 1
    then show ?thesis using same by (intro exI[of _ h_general] exI[of _ "index p"]) (simp add: value_step_def plain_states_def)
  next
    case 2
    with word[of h_connection_keep_alive "''keep-alive''" "LOWER c"] show ?thesis by (simp add: value_step_def plain_states_def)
  next
    case 3
    with word[of h_connection_close "''close''" "LOWER c"] show ?thesis by (simp add: value_step_def plain_states_def)
  qed (use blank in \<open>simp_all add: value_step_def\<close>)
qed

lemma value_chars:
  assumes "state p = s_header_value" "header_state p \<in> plain_states" "CR \<notin> set cs" "LF \<notin> set cs"
    "drop k data = cs @ rest" "k + length cs \<le> len" "len \<le> 4096"
  shows "\<exists>h i. wloop data len (run_at p mk k w) = wloop data len (run_at (p\<lparr>header_state := h, index := i\<rparr>) mk (k + length cs) w) \<and>
    h \<in> plain_states"
  using assms
proof (induction cs arbitrary: p k)
  case (Cons c cs)
  from value_step_plain[OF Cons.prems(2), of c mk k w] obtain h i where
    v: "value_step c (during p mk k w) = Inr (Next (during (p\<lparr>header_state := h, index := i\<rparr>) mk k w))" "h \<in> plain_states" by blast
  have "wloop data len (run_at p mk k w) = wloop data len (run_at (p\<lparr>header_state := h, index := i\<rparr>) mk (k + 1) w)"
    using Cons.prems v(1)
    by (intro byte[where c = c and rest = "cs @ rest"]) (auto simp: PARSING_HEADER_def step_byte_def step_header_value_def)
  with Cons.IH[of "p\<lparr>header_state := h, index := i\<rparr>" "k + 1"] Cons.prems v(2) drop_Cons[of k data c "cs @ rest"]
  show ?case by simp
next
  case Nil
  have "p\<lparr>header_state := header_state p, index := index p\<rparr> = p" by (cases p) simp
  with Nil show ?case by (metis add.right_neutral list.size(3))
qed

definition line_flags :: "http_parser \<Rightarrow> flag set" where
  "line_flags p =
     (case header_state p of h_connection_keep_alive \<Rightarrow> insert F_CONNECTION_KEEP_ALIVE (flags p)
      | h_connection_close \<Rightarrow> insert F_CONNECTION_CLOSE (flags p)
      | h_transfer_encoding_chunked \<Rightarrow> insert F_CHUNKED (flags p)
      | _ \<Rightarrow> flags p)"

lemma value_end:
  assumes "state p = s_header_value" "http_errno p = HPE_OK" "drop a data = v @ CR # LF # rest" "k = a + length v"
    "k + 2 \<le> len" "len \<le> 4096"
  shows "wloop data len (run_at p (unmarked(M_header_value := Some a)) k w) =
    wloop data len (run_at (p\<lparr>state := s_header_value_lws, flags := line_flags p\<rparr>) unmarked (k + 2) (put_value v w))"
proof -
  let ?mk = "unmarked(M_header_value := Some a)"
  have d: "drop k data = CR # LF # rest" using assms(3,4) by (metis add.commute append_eq_conv_conj drop_drop)
  have "CALLBACK_DATA wrapper_settings data M_header_value k (k + 1) (during (p\<lparr>state := s_header_almost_done\<rparr>) ?mk k w) f =
      f (during (p\<lparr>state := s_header_almost_done\<rparr>) (?mk(M_header_value := None)) k (put_value v w))" for f
    using assms(2-4) by (intro data_during[where a = a and g = OnHeaderValue]) (simp_all add: wrapper_settings_def OnHeaderValue_puts)
  then have 1: "wloop data len (run_at p ?mk k w) =
      wloop data len (run_at (p\<lparr>state := s_header_almost_done\<rparr>) unmarked (k + 1) (put_value v w))"
    using assms(1,5,6) d
    by (intro byte[where c = CR and rest = "LF # rest"]) (simp_all add: PARSING_HEADER_def step_byte_def step_header_value_def)
  have "wloop data len (run_at (p\<lparr>state := s_header_almost_done\<rparr>) unmarked (k + 1) (put_value v w)) =
      wloop data len (run_at (p\<lparr>state := s_header_value_lws, flags := line_flags p\<rparr>) unmarked (k + 1 + 1) (put_value v w))"
    using assms(5,6) drop_Cons[OF d]
    by (intro byte[where c = LF and rest = rest])
      (simp_all add: PARSING_HEADER_def step_byte_def step_header_almost_done_def STRICT_CHECK_def during_def upd_def line_flags_def
        cong: header_states.case_cong)
  with 1 show ?thesis by simp
qed

definition ready :: "nat \<Rightarrow> http_parser \<Rightarrow> bool" where
  "ready cl p \<longleftrightarrow> state p \<in> {s_header_field_start, s_header_value_lws} \<and> http_errno p = HPE_OK \<and> kind p = HTTP_REQUEST \<and>
     req_method p = HTTP_POST \<and> content_length p = cl \<and> flags p \<subseteq> {F_CONNECTION_KEEP_ALIVE, F_CONNECTION_CLOSE}"

lemma drop_append_at: "drop k data = cs @ rest \<Longrightarrow> drop (k + length cs) data = rest"
  by (metis add.commute append_eq_conv_conj drop_drop)

lemma value_first:
  assumes "header_state p \<notin> {h_upgrade, h_transfer_encoding, h_content_length}" "c \<notin> {CHR '' '', CHR 0x09, CR, LF}"
  shows "\<exists>h. step_header_value_start wrapper_settings data c (during p unmarked k w) =
      Inr (Next (during (p\<lparr>state := s_header_value, index := 0, header_state := h\<rparr>) (unmarked(M_header_value := Some k)) k w)) \<and>
    h \<in> plain_states"
proof -
  have u: "upd (\<lambda>p. p\<lparr>state := s_header_value, index := 0\<rparr>) (during q mk k w) = during (q\<lparr>state := s_header_value, index := 0\<rparr>) mk k w"
    "upd (\<lambda>p. p\<lparr>header_state := h\<rparr>) (during q mk k w) = during (q\<lparr>header_state := h\<rparr>) mk k w" for q mk h
    by (simp_all add: upd_during_parser)
  show ?thesis
    using assms by (cases "header_state p") (auto simp: step_header_value_start_def u plain_states_def)
qed

lemma plain_line:
  assumes r: "ready cl p" and h: "plain_header (name, v)" and d: "drop k data = header_text (name, v) @ rest"
    and l: "k + length (header_text (name, v)) \<le> len" "len \<le> 4096"
  shows "\<exists>q. wloop data len (run_at p unmarked k w) =
      wloop data len (run_at q unmarked (k + length (header_text (name, v))) (put_value v (see_name name w))) \<and> ready cl q"
proof -
  obtain h i where hi: "name_state name = (h, i)" by fastforce
  obtain c cs where v: "v = c # cs" using h by (cases v) (auto simp: plain_header_def)
  have dd: "drop k data = name @ CHR '':'' # CHR '' '' # v @ CR # LF # rest"
    using d by (simp add: header_text_def http_crlf_def)
  have ll: "k + length name + 2 + length v + 2 \<le> len" using l by (simp add: header_text_def http_crlf_def)
  let ?p = "p\<lparr>header_state := h, index := i, state := s_header_value_start\<rparr>" let ?a = "k + length name + 2" let ?w = "see_name name w"
  let ?mk = "unmarked(M_header_value := Some ?a)"
  have 1: "wloop data len (run_at p unmarked k w) = wloop data len (run_at ?p unmarked ?a ?w)" and n: "reads_as h i (map TOKEN name)"
    using name_line[of p name k data "v @ CR # LF # rest" len h i w] r h dd ll l(2) hi by (auto simp: ready_def plain_header_def)
  have a: "drop ?a data = v @ CR # LF # rest" using drop_append_at[of k data "name @ CHR '':'' # [CHR '' '']"] dd by simp
  have "h \<notin> {h_upgrade, h_transfer_encoding, h_content_length}" using n h by (auto simp: plain_header_def)
  moreover have "c \<notin> {CHR '' '', CHR 0x09, CR, LF}" using h v by (auto simp: plain_header_def)
  ultimately obtain h' where h': "step_header_value_start wrapper_settings data c (during ?p unmarked ?a ?w) =
      Inr (Next (during (?p\<lparr>state := s_header_value, index := 0, header_state := h'\<rparr>) ?mk ?a ?w))" "h' \<in> plain_states"
    using value_first[of ?p c data ?a ?w] by auto
  let ?q = "?p\<lparr>state := s_header_value, index := 0, header_state := h'\<rparr>"
  have 2: "wloop data len (run_at ?p unmarked ?a ?w) = wloop data len (run_at ?q ?mk (?a + 1) ?w)"
    using a v ll l(2) h'(1)
    by (intro byte[where c = c and rest = "cs @ CR # LF # rest"]) (simp_all add: PARSING_HEADER_def step_byte_def)
  obtain h2 i2 where 3: "wloop data len (run_at ?q ?mk (?a + 1) ?w) =
      wloop data len (run_at (?q\<lparr>header_state := h2, index := i2\<rparr>) ?mk (?a + 1 + length cs) ?w)" "h2 \<in> plain_states"
    using value_chars[of ?q cs "?a + 1" data "CR # LF # rest" len ?mk ?w] drop_Cons[of ?a data c "cs @ CR # LF # rest"] a v h h'(2) ll l(2)
    by (auto simp: plain_header_def)
  let ?e = "?q\<lparr>header_state := h2, index := i2\<rparr>" let ?f = "?e\<lparr>state := s_header_value_lws, flags := line_flags ?e\<rparr>"
  have 4: "wloop data len (run_at ?e ?mk (?a + 1 + length cs) ?w) = wloop data len (run_at ?f unmarked (?a + 1 + length cs + 2) (put_value v ?w))"
    using a v ll l(2) r by (intro value_end[where rest = rest]) (simp_all add: ready_def)
  have "line_flags ?e \<subseteq> {F_CONNECTION_KEEP_ALIVE, F_CONNECTION_CLOSE}"
    using 3(2) r by (auto simp: line_flags_def plain_states_def ready_def)
  then have "ready cl ?f" using r by (simp add: ready_def)
  moreover have "?a + 1 + length cs + 2 = k + length (header_text (name, v))" using v by (simp add: header_text_def http_crlf_def)
  ultimately show ?thesis using 1 2 3(1) 4 by metis
qed

text \<open>The length of the body.\<close>

lemma dec_val_prefix: "dec_val xs \<le> dec_val (xs @ ys)"
proof (induction ys rule: rev_induct)
  case (snoc y ys)
  then show ?case by (simp add: dec_val_snoc flip: append_assoc)
qed simp

lemma length_chars:
  assumes "state p = s_header_value" "header_state p = h_content_length" "content_length p = dec_val pre"
    "\<forall>c\<in>set cs. is_digit c" "dec_val (pre @ cs) \<le> 4096" "drop k data = cs @ rest" "k + length cs \<le> len" "len \<le> 4096"
  shows "wloop data len (run_at p mk k w) =
    wloop data len (run_at (p\<lparr>content_length := dec_val (pre @ cs)\<rparr>) mk (k + length cs) w)"
  using assms
proof (induction cs arbitrary: p k pre)
  case (Cons c cs)
  have c: "is_digit c" using Cons.prems(4) by simp
  then have cc: "IS_NUM c" "c \<noteq> CHR '' ''" "c \<noteq> CR" "c \<noteq> LF" "digit c = ord c - 48"
    by (auto simp: is_digit_def IS_NUM_def digit_def)
  have b: "dec_val (pre @ [c]) \<le> 4096" using dec_val_prefix[of "pre @ [c]" cs] Cons.prems(5) by simp
  have v: "dec_val (pre @ [c]) = dec_val pre * 10 + digit c" using cc(5) by (simp add: dec_val_snoc)
  have "add_digit 10 (digit c) (dec_val pre) = Some (dec_val (pre @ [c]))"
    using b unfolding v by (simp add: add_digit_def Let_def ULLONG_MAX_def)
  then have "value_step c (during p mk k w) = Inr (Next (during (p\<lparr>content_length := dec_val (pre @ [c])\<rparr>) mk k w))"
    using Cons.prems(2,3) cc by (simp add: value_step_def Let_def upd_during_parser)
  then have "wloop data len (run_at p mk k w) = wloop data len (run_at (p\<lparr>content_length := dec_val (pre @ [c])\<rparr>) mk (k + 1) w)"
    using Cons.prems cc
    by (intro byte[where c = c and rest = "cs @ rest"]) (simp_all add: PARSING_HEADER_def step_byte_def step_header_value_def)
  with Cons.IH[of "p\<lparr>content_length := dec_val (pre @ [c])\<rparr>" "pre @ [c]" "k + 1"] Cons.prems drop_Cons[of k data c "cs @ rest"]
  show ?case by simp
next
  case Nil
  then have "p\<lparr>content_length := dec_val pre\<rparr> = p" by (cases p) simp
  then show ?case by simp
qed

lemma length_line:
  assumes r: "ready cl p" and d: "drop k data = header_text (''Content-Length'', dec n) @ rest" and n: "n \<le> 4096"
    and l: "k + length (header_text (''Content-Length'', dec n)) \<le> len" "len \<le> 4096"
  shows "\<exists>q. wloop data len (run_at p unmarked k w) =
      wloop data len (run_at q unmarked (k + length (header_text (''Content-Length'', dec n))) (put_value (dec n) (see_name ''Content-Length'' w))) \<and>
    ready n q"
proof -
  let ?name = "''Content-Length''"
  have hi: "name_state ?name = (h_content_length, 13)" by code_simp
  obtain c cs where v: "dec n = c # cs" using dec_not_Nil[of n] by (cases "dec n") auto
  have dig: "\<forall>c\<in>set (c # cs). is_digit c" using dec_digits[of n] v by metis
  have val: "dec_val (c # cs) = n" using dec_val_dec[of n] v by metis
  have dd: "drop k data = ?name @ CHR '':'' # CHR '' '' # dec n @ CR # LF # rest"
    using d by (simp add: header_text_def http_crlf_def)
  have ll: "k + length ?name + 2 + length (dec n) + 2 \<le> len" using l by (simp add: header_text_def http_crlf_def)
  let ?p = "p\<lparr>header_state := h_content_length, index := 13, state := s_header_value_start\<rparr>" let ?a = "k + length ?name + 2"
  let ?w = "see_name ?name w" let ?mk = "unmarked(M_header_value := Some ?a)"
  have t: "\<forall>c\<in>set ?name. TOKEN c \<noteq> NUL" by code_simp
  have 1: "wloop data len (run_at p unmarked k w) = wloop data len (run_at ?p unmarked ?a ?w)"
    using name_line[OF _ _ _ t _ _ l(2) hi, of p k data "dec n @ CR # LF # rest" w] r dd ll by (auto simp: ready_def)
  have a: "drop ?a data = dec n @ CR # LF # rest" using drop_append_at[of k data "?name @ CHR '':'' # [CHR '' '']"] dd by simp
  have cc: "IS_NUM c" "c \<noteq> CHR '' ''" "c \<noteq> CHR 0x09" "c \<noteq> CR" "c \<noteq> LF" "digit c = dec_val [c]"
    using dig by (auto simp: is_digit_def IS_NUM_def digit_def dec_val_def)
  let ?q = "?p\<lparr>state := s_header_value, index := 0, content_length := dec_val [c]\<rparr>"
  have 2: "wloop data len (run_at ?p unmarked ?a ?w) = wloop data len (run_at ?q ?mk (?a + 1) ?w)"
    using a v ll l(2) cc
    by (intro byte[where c = c and rest = "cs @ CR # LF # rest"])
      (simp_all add: PARSING_HEADER_def step_byte_def step_header_value_start_def upd_during_parser)
  let ?e = "?q\<lparr>content_length := dec_val ([c] @ cs)\<rparr>" let ?f = "?e\<lparr>state := s_header_value_lws, flags := line_flags ?e\<rparr>"
  have 3: "wloop data len (run_at ?q ?mk (?a + 1) ?w) = wloop data len (run_at ?e ?mk (?a + 1 + length cs) ?w)"
    using drop_Cons[of ?a data c "cs @ CR # LF # rest"] a v ll l(2) dig val n
    by (intro length_chars[where rest = "CR # LF # rest"]) simp_all
  have 4: "wloop data len (run_at ?e ?mk (?a + 1 + length cs) ?w) =
      wloop data len (run_at ?f unmarked (?a + 1 + length cs + 2) (put_value (dec n) ?w))"
    using a v ll l(2) r by (intro value_end[where rest = rest]) (simp_all add: ready_def)
  have "line_flags ?e = flags p" by (simp add: line_flags_def)
  then have "ready n ?f" using r val by (simp add: ready_def)
  moreover have "?a + 1 + length cs + 2 = k + length (header_text (?name, dec n))" using v by (simp add: header_text_def http_crlf_def)
  ultimately show ?thesis using 1 2 3 4 by metis
qed

text \<open>Any number of header lines.\<close>

definition collect :: "string \<times> string \<Rightarrow> wrapper \<Rightarrow> wrapper" where
  "collect h w = put_value (snd h) (see_name (fst h) w)"

lemma header_lines:
  assumes "ready cl p" "\<forall>h\<in>set hs. plain_header h" "drop k data = concat (map header_text hs) @ rest"
    "k + length (concat (map header_text hs)) \<le> len" "len \<le> 4096"
  shows "\<exists>q. wloop data len (run_at p unmarked k w) =
      wloop data len (run_at q unmarked (k + length (concat (map header_text hs))) (fold collect hs w)) \<and> ready cl q"
  using assms
proof (induction hs arbitrary: p k w)
  case (Cons h hs)
  obtain name v where h: "h = (name, v)" by fastforce
  let ?k = "k + length (header_text (name, v))"
  obtain q where q: "wloop data len (run_at p unmarked k w) = wloop data len (run_at q unmarked ?k (collect h w))" "ready cl q"
    using plain_line[OF Cons.prems(1), of name v k data "concat (map header_text hs) @ rest" len w] Cons.prems(2-5) h
    by (auto simp: collect_def)
  have "drop ?k data = concat (map header_text hs) @ rest"
    using drop_append_at[of k data "header_text (name, v)"] Cons.prems(3) h by simp
  with Cons.IH[OF q(2), of ?k "collect h w"] Cons.prems(2,4,5) q(1) h show ?case by (auto simp: add.assoc)
qed auto

section \<open>The body\<close>

text \<open>The callbacks of the wrapper at the end of the headers and of the message.\<close>

definition with_total :: "nat \<Rightarrow> wrapper \<Rightarrow> wrapper" where
  "with_total n w = w\<lparr>total_length := n\<rparr>"

lemma called_ok: "called e (0, False, x) r = r\<lparr>obj := x\<rparr>"
proof -
  have "parser r\<lparr>http_errno := http_errno (parser r)\<rparr> = parser r" by (cases "parser r") simp
  then show ?thesis by (simp add: called_def upd_def)
qed

lemma headers_ok:
  "http_errno (parser r) = HPE_OK \<Longrightarrow> headers_complete wrapper_settings r f =
    f (r\<lparr>obj := with_total ((nread (parser r) + content_length (parser r) mod 2 ^ 32) mod 2 ^ 32) (obj r)\<rparr>)"
  by (simp add: headers_complete_def wrapper_settings_def OnHeadersComplete_def called_ok with_total_def)

lemma complete_ok:
  assumes "http_errno (parser r) = HPE_OK"
  shows "message_complete wrapper_settings er r f =
    f (to_state (NEW_MESSAGE (parser r)) r\<lparr>obj := (obj r)\<lparr>read_all := True\<rparr>\<rparr>)"
  using assms
  by (simp add: message_complete_def CALLBACK_NOTIFY_def wrapper_settings_def OnMessageComplete_def called_ok)

lemma empty_line:
  assumes r: "ready cl p" and d: "drop k data = CR # LF # rest" and l: "k + 2 \<le> len" "len \<le> 4096"
  shows "\<exists>q n. wloop data len (run_at p unmarked k w) = bindR (step_headers_done wrapper_settings LF q) (\<lambda>f.
      case f of Return m r \<Rightarrow> Inr (m, r) | Next r \<Rightarrow> wloop data len (r\<lparr>pos := pos r + 1\<rparr>)) \<and>
    http_errno (parser q) = HPE_OK \<and> upgrade (parser q) = False \<and> flags (parser q) = flags p \<and> content_length (parser q) = cl \<and>
    pos q = k + 1 \<and> marks q = unmarked \<and> obj q = with_total n w"
proof -
  let ?p = "p\<lparr>state := s_headers_almost_done\<rparr>"
  have "step_header_field_start wrapper_settings CR (during p unmarked k w) = Inr (Next (during ?p unmarked k w))"
    "step_header_field_start wrapper_settings CR (during (p\<lparr>state := s_header_field_start\<rparr>) unmarked k w) = Inr (Next (during ?p unmarked k w))"
    by (simp_all add: step_header_field_start_def)
  then have "step_byte wrapper_settings data len CR (during p unmarked k w) = Inr (Next (during ?p unmarked k w))"
    using r by (auto simp: ready_def step_byte_def step_header_value_lws_def)
  then have 1: "wloop data len (run_at p unmarked k w) = wloop data len (run_at ?p unmarked (k + 1) w)"
    using r d l by (intro byte[where c = CR and rest = "LF # rest"]) (auto simp: ready_def PARSING_HEADER_def)
  let ?r = "run_at ?p unmarked (k + 1) w" let ?u = "during ?p unmarked (k + 1) w"
  let ?q = "(?p\<lparr>nread := k + 2, state := s_headers_done, upgrade := False\<rparr>)"
  let ?n = "(k + 2 + cl mod 2 ^ 32) mod 2 ^ 32"
  let ?v = "\<lparr>parser = ?q, marks = unmarked, pos = k + 1, obj = with_total ?n w\<rparr>"
  have f: "F_TRAILING \<notin> flags p" "F_UPGRADE \<notin> flags p" "req_method p = HTTP_POST" "http_errno p = HPE_OK" "content_length p = cl"
    using r by (auto simp: ready_def)
  have s: "step_byte wrapper_settings data len LF ?u = step_headers_done wrapper_settings LF ?v"
    using f by (simp add: step_byte_def step_headers_almost_done_def STRICT_CHECK_def headers_ok during_def upd_def)
  have u: "upd (\<lambda>p. p\<lparr>nread := (nread p + 1) mod 2 ^ 32\<rparr>) ?r = ?u"
    using l by (simp add: upd_def run_at_def during_def)
  have c: "data ! (k + 1) = LF" using drop_Cons[OF d] by (metis nth_via_drop)
  have p: "PARSING_HEADER (state (parser ?r))" "PARSING_HEADER (state (parser ?u))" "pos ?r = k + 1" "k + 1 < len"
    "(HTTP_MAX_HEADER_SIZE < nread (parser ?u)) = False"
    using l by (simp_all add: run_at_def PARSING_HEADER_def HTTP_MAX_HEADER_SIZE_def)
  have "wloop data len ?r = bindR (step_headers_done wrapper_settings LF ?v) (\<lambda>f.
      case f of Return m r \<Rightarrow> Inr (m, r) | Next r \<Rightarrow> wloop data len (r\<lparr>pos := pos r + 1\<rparr>))"
    apply (subst execute_loop.simps)
    apply (simp only: p u c if_True if_False Let_def s simp_thms)
    done
  with 1 f show ?thesis by (intro exI[of _ ?v] exI[of _ ?n]) simp
qed

lemma loop_end:
  assumes "marks r = unmarked" "pos r = len" "http_errno (parser r) = HPE_OK"
  shows "wloop data len r = Inr (len, r)"
  using assms by (subst execute_loop.simps) (simp add: CALLBACK_DATA_def)

lemma body_read:
  assumes e: "http_errno (parser r) = HPE_OK" "state (parser r) = s_body_identity" "marks r = unmarked" "pos r = k"
    "content_length (parser r) = length body" and b: "body \<noteq> []" "drop k data = body @ rest" "len = k + length body"
    "length body < ULLONG_MAX"
  shows "\<exists>q. wloop data len r = Inr (len, q) \<and> obj q = (obj r)\<lparr>w_body_content := w_body_content (obj r) @ body, read_all := True\<rparr>"
proof -
  let ?c = "data ! k"
  let ?t = "take_body len r"
  have cl: "content_length (parser r) \<noteq> 0" "content_length (parser r) \<noteq> ULLONG_MAX" using e(5) b(1,4) by auto
  have t: "content_length (parser ?t) = 0" "pos ?t = len - 1" "http_errno (parser ?t) = HPE_OK" "marks ?t M_body = Some k" "obj ?t = obj r"
    "marks ?t = unmarked(M_body := Some k)"
    using e b(1,3) by (simp_all add: take_body_def Let_def MARK_def upd_def)
  let ?u = "to_state s_message_done ?t\<lparr>obj := (obj r)\<lparr>w_body_content := w_body_content (obj r) @ body\<rparr>, marks := unmarked\<rparr>"
  have "OnBody p (drop k data) (len - 1 + 1 - k) w = Inr (0, False, w\<lparr>w_body_content := w_body_content w @ body\<rparr>)" for p w
    using b by (simp add: OnBody_def)
  then have "CALLBACK_DATA wrapper_settings data M_body (pos ?t + 1) (pos ?t) (to_state s_message_done ?t) f = f ?u" for f
    using t b(1,3) by (simp add: CALLBACK_DATA_def wrapper_settings_def called_ok)
  then have "step_body_identity wrapper_settings data len r = step_message_done wrapper_settings ?u"
    using cl t(1) by (simp add: step_body_identity_def)
  also have "\<dots> = Inr (Next (to_state (NEW_MESSAGE (parser ?u)) ?u\<lparr>obj := (obj ?u)\<lparr>read_all := True\<rparr>\<rparr>))"
    using t(3) by (simp add: step_message_done_def complete_ok)
  finally have s: "step_byte wrapper_settings data len ?c r =
      Inr (Next (to_state (NEW_MESSAGE (parser ?u)) ?u\<lparr>obj := (obj ?u)\<lparr>read_all := True\<rparr>\<rparr>))"
    using e(2) by (simp add: step_byte_def)
  let ?q = "to_state (NEW_MESSAGE (parser ?u)) ?u\<lparr>obj := (obj ?u)\<lparr>read_all := True\<rparr>\<rparr>"
  have "pos r < len" using e(4) b(1,3) by simp
  then have "wloop data len r = wloop data len (?q\<lparr>pos := pos ?q + 1\<rparr>)"
    using e(2,4) s by (subst execute_loop.simps) (simp only: PARSING_HEADER_def Let_def bindR_simps flow.case if_True, simp)
  also have "\<dots> = Inr (len, ?q\<lparr>pos := pos ?q + 1\<rparr>)"
    using t b(1,3) by (intro loop_end) simp_all
  finally show ?thesis by (intro exI[of _ "?q\<lparr>pos := pos ?q + 1\<rparr>"]) simp
qed

lemma message_end:
  assumes r: "ready (length body) p" and d: "drop k data = CR # LF # body @ rest" and l: "len = k + 2 + length body" "len \<le> 4096"
  shows "\<exists>q n. wloop data len (run_at p unmarked k w) = Inr (len, q) \<and>
    obj q = (with_total n w)\<lparr>w_body_content := w_body_content w @ body, read_all := True\<rparr>"
proof -
  have l2: "k + 2 \<le> len" using l(1) by simp
  obtain q n where q: "wloop data len (run_at p unmarked k w) = bindR (step_headers_done wrapper_settings LF q) (\<lambda>f.
      case f of Return m r \<Rightarrow> Inr (m, r) | Next r \<Rightarrow> wloop data len (r\<lparr>pos := pos r + 1\<rparr>))"
    and f: "http_errno (parser q) = HPE_OK" "upgrade (parser q) = False" "flags (parser q) = flags p"
      "content_length (parser q) = length body" "pos q = k + 1" "marks q = unmarked" "obj q = with_total n w"
    using empty_line[OF r d l2 l(2)] by blast
  have fl: "F_SKIPBODY \<notin> flags p" "F_CHUNKED \<notin> flags p" using r by (auto simp: ready_def)
  let ?u = "upd (\<lambda>p. p\<lparr>nread := 0\<rparr>) q"
  show ?thesis
  proof (cases "body = []")
    case True
    let ?v = "to_state (NEW_MESSAGE (parser ?u)) ?u\<lparr>obj := (with_total n w)\<lparr>read_all := True\<rparr>\<rparr>"
    have "step_headers_done wrapper_settings LF q = Inr (Next ?v)"
      using f fl True by (simp add: step_headers_done_def STRICT_CHECK_def Let_def complete_ok)
    then have "wloop data len (run_at p unmarked k w) = wloop data len (?v\<lparr>pos := pos ?v + 1\<rparr>)" using q by simp
    also have "\<dots> = Inr (len, ?v\<lparr>pos := pos ?v + 1\<rparr>)" using f l True by (intro loop_end) simp_all
    finally show ?thesis using True by (intro exI[of _ "?v\<lparr>pos := pos ?v + 1\<rparr>"] exI[of _ n]) (simp add: with_total_def)
  next
    case False
    let ?v = "to_state s_body_identity ?u"
    have u: "length body < ULLONG_MAX" using l by (simp add: ULLONG_MAX_def)
    have "step_headers_done wrapper_settings LF q = Inr (Next ?v)"
      using f fl False u by (simp add: step_headers_done_def STRICT_CHECK_def Let_def)
    then have 1: "wloop data len (run_at p unmarked k w) = wloop data len (?v\<lparr>pos := pos ?v + 1\<rparr>)" using q by simp
    have "drop (k + 2) data = body @ rest" using drop_append_at[of k data "[CR, LF]"] d by simp
    then show ?thesis
      using body_read[of "?v\<lparr>pos := pos ?v + 1\<rparr>" "k + 2" body data rest len] f False l u 1 by (auto simp: with_total_def)
  qed
qed

section \<open>What is kept of the headers\<close>

definition settled :: "wrapper \<Rightarrow> bool" where
  "settled w \<longleftrightarrow> \<not> read_referer w \<and> \<not> read_forward_ip w \<and> \<not> read_user_agent w \<and> \<not> read_content_type w \<and>
     \<not> read_content_len w \<and> \<not> read_host w"

lemma seen_simps:
  "seen has word name (\<lambda>w. w\<lparr>read_referer := True\<rparr>) w = w\<lparr>read_referer := \<not> has \<and> has_prefix word name \<or> read_referer w\<rparr>"
  "seen has word name (\<lambda>w. w\<lparr>read_forward_ip := True\<rparr>) w = w\<lparr>read_forward_ip := \<not> has \<and> has_prefix word name \<or> read_forward_ip w\<rparr>"
  "seen has word name (\<lambda>w. w\<lparr>read_user_agent := True\<rparr>) w = w\<lparr>read_user_agent := \<not> has \<and> has_prefix word name \<or> read_user_agent w\<rparr>"
  "seen has word name (\<lambda>w. w\<lparr>read_content_type := True\<rparr>) w = w\<lparr>read_content_type := \<not> has \<and> has_prefix word name \<or> read_content_type w\<rparr>"
  "seen has word name (\<lambda>w. w\<lparr>read_content_len := True\<rparr>) w = w\<lparr>read_content_len := \<not> has \<and> has_prefix word name \<or> read_content_len w\<rparr>"
  "seen has word name (\<lambda>w. w\<lparr>read_host := True\<rparr>) w = w\<lparr>read_host := \<not> has \<and> has_prefix word name \<or> read_host w\<rparr>"
  by (cases w; simp add: seen_def)+

lemma put_simps:
  "(if read_referer w then w\<lparr>w_referer := w_referer w @ r, read_referer := False\<rparr> else w) =
     w\<lparr>w_referer := w_referer w @ (if read_referer w then r else []), read_referer := False\<rparr>"
  "(if read_forward_ip w then w\<lparr>w_forward_ip := w_forward_ip w @ v, read_forward_ip := False\<rparr> else w) =
     w\<lparr>w_forward_ip := w_forward_ip w @ (if read_forward_ip w then v else []), read_forward_ip := False\<rparr>"
  "(if read_user_agent w then w\<lparr>w_user_agent := w_user_agent w @ v, read_user_agent := False\<rparr> else w) =
     w\<lparr>w_user_agent := w_user_agent w @ (if read_user_agent w then v else []), read_user_agent := False\<rparr>"
  "(if read_content_type w then w\<lparr>w_content_type := w_content_type w @ v, read_content_type := False\<rparr> else w) =
     w\<lparr>w_content_type := w_content_type w @ (if read_content_type w then v else []), read_content_type := False\<rparr>"
  "(if read_content_len w then w\<lparr>w_content_len := n, read_content_len := False\<rparr> else w) =
     w\<lparr>w_content_len := if read_content_len w then n else w_content_len w, read_content_len := False\<rparr>"
  "(if read_host w then w\<lparr>w_host := w_host w @ v, read_host := False\<rparr> else w) =
     w\<lparr>w_host := w_host w @ (if read_host w then v else []), read_host := False\<rparr>"
  by (cases w; simp)+

lemma put_value_eq:
  "put_value v w = w\<lparr>w_referer := w_referer w @ (if read_referer w then take MAX_REFERER_LEN v else []), read_referer := False,
     w_forward_ip := w_forward_ip w @ (if read_forward_ip w then v else []), read_forward_ip := False,
     w_user_agent := w_user_agent w @ (if read_user_agent w then v else []), read_user_agent := False,
     w_content_type := w_content_type w @ (if read_content_type w then v else []), read_content_type := False,
     w_content_len := if read_content_len w then nat (atoi (c_str v) mod 2 ^ 32) else w_content_len w, read_content_len := False,
     w_host := w_host w @ (if read_host w then v else []), read_host := False\<rparr>"
  by (simp only: put_value_def OnHeaderValue_def Let_def sum.case prod.case take_all[OF order_refl] put_simps) simp

lemma collect_fields:
  assumes "settled w" "v \<noteq> []"
  shows "settled (collect (name, v) w)" "w_url (collect (name, v) w) = w_url w" "w_body_content (collect (name, v) w) = w_body_content w"
    "w_content_type (collect (name, v) w) = (if w_content_type w = [] \<and> has_prefix ''Content-Type'' name then v else w_content_type w)"
    "w_host (collect (name, v) w) = (if w_host w = [] \<and> has_prefix ''Host'' name then v else w_host w)"
    "w_user_agent (collect (name, v) w) = (if w_user_agent w = [] \<and> has_prefix ''User-Agent'' name then v else w_user_agent w)"
    "w_forward_ip (collect (name, v) w) = (if w_forward_ip w = [] \<and> has_prefix ''X-Forwarded-For'' name then v else w_forward_ip w)"
    "w_referer (collect (name, v) w) = (if w_referer w = [] \<and> has_prefix ''Referer'' name then take MAX_REFERER_LEN v else w_referer w)"
  using assms by (simp_all add: settled_def collect_def put_value_eq see_name_def seen_simps Let_def)

lemma fold_field:
  assumes step: "\<And>w name v. settled w \<Longrightarrow> v \<noteq> [] \<Longrightarrow> F (collect (name, v) w) = (if F w = [] \<and> has_prefix word name then g v else F w)"
    and g: "g [] = []" "\<And>v. v \<noteq> [] \<Longrightarrow> g v \<noteq> []"
    and w: "settled w" "\<forall>h\<in>set hs. snd h \<noteq> []"
  shows "F (fold collect hs w) = (if F w = [] then g (first_header word hs) else F w)"
  using w
proof (induction hs arbitrary: w)
  case Nil
  then show ?case by (simp add: first_header_def g(1))
next
  case (Cons h hs)
  obtain name v where h: "h = (name, v)" by fastforce
  then have v: "v \<noteq> []" using Cons.prems(2) by simp
  have "first_header word (h # hs) = (if has_prefix word name then v else first_header word hs)"
    by (simp add: first_header_def h)
  with Cons.IH[OF collect_fields(1)[OF Cons.prems(1) v]] Cons.prems step[OF Cons.prems(1) v] g(2)[OF v] show ?case
    by (simp add: h)
qed

lemma fold_kept:
  assumes step: "\<And>w name v. settled w \<Longrightarrow> v \<noteq> [] \<Longrightarrow> F (collect (name, v) w) = F w" and w: "settled w" "\<forall>h\<in>set hs. snd h \<noteq> []"
  shows "F (fold collect hs w) = F w"
  using w
proof (induction hs arbitrary: w)
  case (Cons h hs)
  then show ?case using collect_fields(1)[of w "snd h" "fst h"] step[of w "snd h" "fst h"] by simp
qed simp

lemma fold_fields:
  assumes "settled w" "\<forall>h\<in>set hs. snd h \<noteq> []"
  shows "w_url (fold collect hs w) = w_url w" "w_body_content (fold collect hs w) = w_body_content w"
    "w_content_type (fold collect hs w) = (if w_content_type w = [] then first_header ''Content-Type'' hs else w_content_type w)"
    "w_host (fold collect hs w) = (if w_host w = [] then first_header ''Host'' hs else w_host w)"
    "w_user_agent (fold collect hs w) = (if w_user_agent w = [] then first_header ''User-Agent'' hs else w_user_agent w)"
    "w_forward_ip (fold collect hs w) = (if w_forward_ip w = [] then first_header ''X-Forwarded-For'' hs else w_forward_ip w)"
    "w_referer (fold collect hs w) = (if w_referer w = [] then take MAX_REFERER_LEN (first_header ''Referer'' hs) else w_referer w)"
  using fold_kept[of w_url, OF _ assms] fold_kept[of w_body_content, OF _ assms]
    fold_field[of w_content_type "''Content-Type''" "\<lambda>v. v", OF _ _ _ assms] fold_field[of w_host "''Host''" "\<lambda>v. v", OF _ _ _ assms]
    fold_field[of w_user_agent "''User-Agent''" "\<lambda>v. v", OF _ _ _ assms]
    fold_field[of w_forward_ip "''X-Forwarded-For''" "\<lambda>v. v", OF _ _ _ assms]
    fold_field[of w_referer "''Referer''" "take MAX_REFERER_LEN", OF _ _ _ assms]
  by (simp_all add: collect_fields MAX_REFERER_LEN_def)

section \<open>The whole request\<close>

definition length_header :: "string \<Rightarrow> string \<times> string" where
  "length_header body = (''Content-Length'', dec (length body))"

lemma headers_valued: "\<forall>h\<in>set headers. plain_header h \<Longrightarrow> \<forall>h\<in>set (headers @ [length_header body]). snd h \<noteq> []"
  using dec_not_Nil[of "length body"] by (auto simp: length_header_def plain_header_def)

lemma fresh_settled: "settled (cleared\<lparr>w_url := target\<rparr>)"
  by (simp add: settled_def cleared_def)

lemma fresh_fields:
  "w_url (cleared\<lparr>w_url := target\<rparr>) = target" "w_body_content (cleared\<lparr>w_url := target\<rparr>) = []"
  "w_content_type (cleared\<lparr>w_url := target\<rparr>) = []" "w_host (cleared\<lparr>w_url := target\<rparr>) = []"
  "w_user_agent (cleared\<lparr>w_url := target\<rparr>) = []" "w_forward_ip (cleared\<lparr>w_url := target\<rparr>) = []"
  "w_referer (cleared\<lparr>w_url := target\<rparr>) = []"
  by (simp_all add: cleared_def)

lemma request_read:
  assumes "good_target target" "\<forall>h\<in>set headers. plain_header h" "length (request_text target headers body) \<le> 4096"
  shows "\<exists>n. ParseHttpContent (request_text target headers body @ [NUL]) (length (request_text target headers body)) =
    Inr ((with_total n (fold collect (headers @ [length_header body]) (cleared\<lparr>w_url := target\<rparr>)))\<lparr>w_body_content := body, read_all := True\<rparr>)"
proof -
  define msg where "msg = request_text target headers body"
  let ?data = "msg @ [NUL]" let ?len = "length msg"
  have m: "msg = ''POST '' @ target @ '' HTTP/1.1'' @ [CR, LF] @ concat (map header_text headers) @
      header_text (length_header body) @ [CR, LF] @ body"
    by (simp add: msg_def request_text_def length_header_def http_crlf_def)
  have l: "?len \<le> 4096" using assms(3) by (simp add: msg_def)
  let ?h = "concat (map header_text headers)" let ?c = "header_text (length_header body)"
  let ?p1 = "(http_parser_init HTTP_REQUEST)\<lparr>req_method := HTTP_POST, content_length := ULLONG_MAX, index := 5, state := s_req_spaces_before_url\<rparr>"
  let ?w = "cleared\<lparr>w_url := target\<rparr>"
  have 1: "wloop ?data ?len (run_at (http_parser_init HTTP_REQUEST) unmarked 0 cleared) = wloop ?data ?len (run_at ?p1 unmarked 5 cleared)"
    using l m by (intro method_name) simp_all
  let ?k2 = "5 + length target + 1" let ?p2 = "?p1\<lparr>state := s_req_http_start\<rparr>"
  have "cleared\<lparr>w_url := w_url cleared @ target\<rparr> = ?w" by (simp add: cleared_def)
  then have 2: "wloop ?data ?len (run_at ?p1 unmarked 5 cleared) = wloop ?data ?len (run_at ?p2 unmarked ?k2 ?w)"
    using target_read[of ?p1 target 5 ?data "''HTTP/1.1'' @ [CR, LF] @ ?h @ ?c @ [CR, LF] @ body @ [NUL]" ?len cleared] assms(1) l m
    by (simp add: http_parser_init_def)
  have d2: "drop ?k2 ?data = ''HTTP/1.1'' @ [CR, LF] @ ?h @ ?c @ [CR, LF] @ body @ [NUL]"
  proof -
    have "?data = (''POST '' @ target @ '' '') @ ''HTTP/1.1'' @ [CR, LF] @ ?h @ ?c @ [CR, LF] @ body @ [NUL]" using m by simp
    moreover have "?k2 = length (''POST '' @ target @ '' '')" by simp
    moreover have "drop (length xs) (xs @ ys) = ys" for xs ys :: string by simp
    ultimately show ?thesis by (simp only:)
  qed
  let ?k3 = "?k2 + 10" let ?p3 = "?p2\<lparr>http_major := 1, http_minor := 1, state := s_header_field_start\<rparr>"
  have 3: "wloop ?data ?len (run_at ?p2 unmarked ?k2 ?w) = wloop ?data ?len (run_at ?p3 unmarked ?k3 ?w)"
    using d2 l m by (intro version) simp_all
  have d3: "drop ?k3 ?data = ?h @ ?c @ [CR, LF] @ body @ [NUL]"
    using drop_append_at[of ?k2 ?data "''HTTP/1.1'' @ [CR, LF]"] d2 by simp
  have r3: "ready ULLONG_MAX ?p3" by (simp add: ready_def http_parser_init_def)
  obtain p4 where 4: "wloop ?data ?len (run_at ?p3 unmarked ?k3 ?w) = wloop ?data ?len (run_at p4 unmarked (?k3 + length ?h) (fold collect headers ?w))"
    and r4: "ready ULLONG_MAX p4"
    using header_lines[OF r3 assms(2) d3 _ l, of ?w] m by auto
  have d4: "drop (?k3 + length ?h) ?data = ?c @ [CR, LF] @ body @ [NUL]" using drop_append_at[OF d3] .
  have b: "length body \<le> 4096" using l m by simp
  obtain p5 where 5: "wloop ?data ?len (run_at p4 unmarked (?k3 + length ?h) (fold collect headers ?w)) =
      wloop ?data ?len (run_at p5 unmarked (?k3 + length ?h + length ?c) (fold collect (headers @ [length_header body]) ?w))"
    and r5: "ready (length body) p5"
    using length_line[OF r4 _ b _ l, of "?k3 + length ?h" ?data "[CR, LF] @ body @ [NUL]" "fold collect headers ?w"] d4 m
    by (auto simp: length_header_def collect_def)
  have d5: "drop (?k3 + length ?h + length ?c) ?data = CR # LF # body @ [NUL]" using drop_append_at[OF d4] by simp
  have len: "?len = ?k3 + length ?h + length ?c + 2 + length body" using m by simp
  obtain q n where 6: "wloop ?data ?len (run_at p5 unmarked (?k3 + length ?h + length ?c) (fold collect (headers @ [length_header body]) ?w)) = Inr (?len, q)"
    and o: "obj q = (with_total n (fold collect (headers @ [length_header body]) ?w))\<lparr>w_body_content :=
       w_body_content (fold collect (headers @ [length_header body]) ?w) @ body, read_all := True\<rparr>"
    using message_end[OF r5 d5 len l] by blast
  have "w_body_content (fold collect (headers @ [length_header body]) ?w) = []"
    using fold_fields(2)[OF fresh_settled headers_valued[OF assms(2)], of body target] by (simp only: fresh_fields)
  then have "obj q = (with_total n (fold collect (headers @ [length_header body]) ?w))\<lparr>w_body_content := body, read_all := True\<rparr>"
    using o by simp
  moreover have "wloop ?data ?len \<lparr>parser = http_parser_init HTTP_REQUEST, marks = start_marks (state (http_parser_init HTTP_REQUEST)), pos = 0, obj = cleared\<rparr>
      = Inr (?len, q)"
  proof -
    have "\<lparr>parser = http_parser_init HTTP_REQUEST, marks = start_marks (state (http_parser_init HTTP_REQUEST)), pos = 0, obj = cleared\<rparr> =
      run_at (http_parser_init HTTP_REQUEST) unmarked 0 cleared"
      by (simp add: run_at_def start_marks_def http_parser_init_def)
    then show ?thesis using 1 2 3 4 5 6 by simp
  qed
  moreover have "http_errno (http_parser_init HTTP_REQUEST) = HPE_OK" "?len \<noteq> 0" using m by (simp_all add: http_parser_init_def)
  ultimately show ?thesis
    unfolding msg_def[symmetric]
    by (intro exI[of _ n]) (simp add: ParseHttpContent_def http_parser_execute_def)
qed

lemma request_fields:
  assumes "good_target target" "\<forall>h\<in>set headers. plain_header h" "length (request_text target headers body) \<le> 4096"
  shows "\<exists>w. ParseHttpContent (request_text target headers body @ [NUL]) (length (request_text target headers body)) = Inr w \<and>
    read_all w \<and> w_url w = target \<and> w_body_content w = body \<and>
    w_content_type w = first_header ''Content-Type'' headers \<and> w_host w = first_header ''Host'' headers \<and>
    w_user_agent w = first_header ''User-Agent'' headers \<and> w_forward_ip w = first_header ''X-Forwarded-For'' headers \<and>
    w_referer w = take MAX_REFERER_LEN (first_header ''Referer'' headers)"
proof -
  let ?f = "fold collect (headers @ [length_header body]) (cleared\<lparr>w_url := target\<rparr>)"
  obtain n where n: "ParseHttpContent (request_text target headers body @ [NUL]) (length (request_text target headers body)) =
    Inr ((with_total n ?f)\<lparr>w_body_content := body, read_all := True\<rparr>)" using request_read[OF assms] by blast
  have "\<not> has_prefix ''Content-Type'' ''Content-Length''" "\<not> has_prefix ''Host'' ''Content-Length''"
    "\<not> has_prefix ''User-Agent'' ''Content-Length''" "\<not> has_prefix ''X-Forwarded-For'' ''Content-Length''"
    "\<not> has_prefix ''Referer'' ''Content-Length''" by code_simp+
  then have first: "first_header word (headers @ [length_header body]) = first_header word headers"
    if "word \<in> {''Content-Type'', ''Host'', ''User-Agent'', ''X-Forwarded-For'', ''Referer''}" for word
    using that by (auto simp: first_header_def length_header_def split: list.split)
  have "w_url ?f = target \<and> w_content_type ?f = first_header ''Content-Type'' headers \<and> w_host ?f = first_header ''Host'' headers \<and>
    w_user_agent ?f = first_header ''User-Agent'' headers \<and> w_forward_ip ?f = first_header ''X-Forwarded-For'' headers \<and>
    w_referer ?f = take MAX_REFERER_LEN (first_header ''Referer'' headers)"
    by (simp only: fold_fields[OF fresh_settled headers_valued[OF assms(2)]] fresh_fields first insert_iff if_True simp_thms)
  with n show ?thesis by (auto simp: with_total_def)
qed

end
