(* ===== verification/Requests.thy ===== *)
theory Requests
  imports Server HttpRequest
begin

text \<open>
  The server on top of the HTTP parser: what \<open>OnRead\<close> of src/tc_server.cc does with the bytes of a request once
  the parser is the one of src/base/http_parser.cc and not a parameter.
\<close>

section \<open>The connection with its parser\<close>

text \<open>\<open>IsReadAll\<close> decides; the texts are taken as C strings by \<open>OnRead\<close>.\<close>

definition parse_request :: "string \<Rightarrow> request option" where
  "parse_request in_buf =
     (case ParseHttpContent (in_buf @ [NUL]) (length in_buf) of
        Inl e \<Rightarrow> None
      | Inr w \<Rightarrow> if read_all w then Some \<lparr>url = w_url w, body_content = w_body_content w, content_type = w_content_type w\<rparr> else None)"

definition serve :: "env \<Rightarrow> upload_config \<Rightarrow> string \<Rightarrow> outcome act" where
  "serve E cfg in_buf = OnRead E cfg parse_request in_buf"

section \<open>Requests\<close>

text \<open>C6: a request is read as it was written.  The parser and the callbacks of the wrapper get back the URL, the body and the
  recognised headers of any POST request that is written with a Content-Length line after headers that do not concern
  the body, as long as it fits in the 4096 bytes the server accepts.\<close>

theorem request_roundtrip:
  assumes "good_target target" "\<forall>h\<in>set headers. plain_header h" "length (request_text target headers body) \<le> 4096"
  shows "\<exists>w. ParseHttpContent (request_text target headers body @ [NUL]) (length (request_text target headers body)) = Inr w \<and>
    read_all w \<and> w_url w = target \<and> w_body_content w = body \<and>
    w_content_type w = first_header ''Content-Type'' headers \<and> w_host w = first_header ''Host'' headers \<and>
    w_user_agent w = first_header ''User-Agent'' headers \<and> w_forward_ip w = first_header ''X-Forwarded-For'' headers \<and>
    w_referer w = take MAX_REFERER_LEN (first_header ''Referer'' headers)"
  by (rule request_fields[OF assms])

definition demo_headers :: "(string \<times> string) list" where
  "demo_headers = [(''Host'', ''muzi''), (''Connection'', ''keep-alive''), (''Content-Type'', ''application/json'')]"

lemma demo_headers_plain: "\<forall>h\<in>set demo_headers. plain_header h" "good_target ''/api/md5?cmd=md5''"
  by code_simp+

lemma demo_length: "length (request_text ''/api/md5?cmd=md5'' demo_headers ''{}'') \<le> 4096"
  by code_simp

theorem request_roundtrip_witness:
  "\<exists>w. ParseHttpContent (request_text ''/api/md5?cmd=md5'' demo_headers ''{}'' @ [NUL])
      (length (request_text ''/api/md5?cmd=md5'' demo_headers ''{}'')) = Inr w \<and>
    read_all w \<and> w_url w = ''/api/md5?cmd=md5'' \<and> w_body_content w = ''{}'' \<and> w_content_type w = ''application/json''"
proof -
  have "first_header ''Content-Type'' demo_headers = ''application/json''" by code_simp
  with request_roundtrip[OF demo_headers_plain(2,1) demo_length] show ?thesis by metis
qed



end
