(* ===== verification/Config.thy ===== *)
theory Config
  imports JsonText Pool
begin

text \<open>
  The configuration: src/base/config_file_reader.cc and the managers of the connection pools in
  src/mysql/db_pool.cc and src/redis/cache_pool.cc, which make their pools from it.

  The file system is a map from names to contents; \<open>load_ok\<close> is \<open>None\<close> until \<open>_LoadFile\<close> sets it, since the
  constructor does not.
\<close>

section \<open>src/base/config_file_reader.cc\<close>

type_synonym files = "string \<Rightarrow> string option"

record config_reader =
  load_ok :: "bool option"
  config_map :: "(string \<times> string) list"
  config_file :: string

definition CConfigFileReader :: config_reader where
  "CConfigFileReader = \<lparr>load_ok = None, config_map = [], config_file = []\<rparr>"

text \<open>\<open>std::map\<close>: \<open>insert\<close> keeps a value that is there, an assignment through the iterator replaces it.\<close>

fun map_insert :: "string \<Rightarrow> string \<Rightarrow> (string \<times> string) list \<Rightarrow> (string \<times> string) list" where
  "map_insert k v [] = [(k, v)]"
| "map_insert k v ((k', v') # m) =
     (if k = k' then (k', v') # m else if byte_less k k' then (k, v) # (k', v') # m else (k', v') # map_insert k v m)"

definition map_assign :: "string \<Rightarrow> string \<Rightarrow> (string \<times> string) list \<Rightarrow> (string \<times> string) list" where
  "map_assign k v m = map (\<lambda>(k', v'). (k', if k' = k then v else v')) m"

definition loaded :: "config_reader \<Rightarrow> bool res" where
  "loaded r = (case load_ok r of None \<Rightarrow> Inl Uninitialised | Some b \<Rightarrow> Inr b)"

definition GetConfigName :: "config_reader \<Rightarrow> string \<Rightarrow> string option res" where
  "GetConfigName r name = bindR (loaded r) (\<lambda>ok. Inr (if ok then map_of (config_map r) name else None))"

definition config_blank :: "char \<Rightarrow> bool" where
  "config_blank c \<longleftrightarrow> c = CHR '' '' \<or> c = CHR 0x09"

definition trim_value :: "string \<Rightarrow> string option" where
  "trim_value name =
     (let start = dropWhile config_blank name in
      if start = [] then None
      else let trimmed = rev (dropWhile config_blank (rev name));
               begin = length name - length start in
        if length trimmed \<le> begin then None else Some (drop begin trimmed))"

definition ParseLine :: "string \<Rightarrow> (string \<times> string) list \<Rightarrow> (string \<times> string) list" where
  "ParseLine line m =
     (if CHR ''='' \<notin> set line then m
      else let key = trim_value (takeWhile (\<lambda>c. c \<noteq> CHR ''='') line);
               v = trim_value (tl (dropWhile (\<lambda>c. c \<noteq> CHR ''='') line)) in
        case (key, v) of (Some k, Some v) \<Rightarrow> map_insert k v m | _ \<Rightarrow> m)"

text \<open>\<open>fgets\<close>: at most \<open>n - 1\<close> bytes, up to the end of the line.\<close>

definition fgets :: "nat \<Rightarrow> string \<Rightarrow> (string \<times> string) option" where
  "fgets n s =
     (if s = [] then None
      else let line = takeWhile (\<lambda>c. c \<noteq> CHR 0x0A) s;
               got = take (n - 1) (if length line < length s then line @ [CHR 0x0A] else line)
        in Some (got, drop (length got) s))"

lemma fgets_shorter: "fgets 256 s = Some (l, rest) \<Longrightarrow> length rest < length s"
  by (cases s) (auto simp: fgets_def Let_def split: if_splits)

text \<open>One line of the file: the line end and a comment are cut off.  The byte before an empty text is read.\<close>

definition config_line :: "string \<Rightarrow> (string \<times> string) list \<Rightarrow> (string \<times> string) list res" where
  "config_line got m =
     (let buf = c_str got in
      if buf = [] then Inl OutOfBounds
      else let buf = (if last buf = CHR 0x0A then butlast buf else buf);
               buf = takeWhile (\<lambda>c. c \<noteq> CHR ''#'') buf in
        Inr (if buf = [] then m else ParseLine buf m))"

function load_lines :: "string \<Rightarrow> (string \<times> string) list \<Rightarrow> (string \<times> string) list res" where
  "load_lines s m =
     (case fgets 256 s of None \<Rightarrow> Inr m
      | Some (got, rest) \<Rightarrow> bindR (config_line got m) (\<lambda>m. load_lines rest m))"
  by pat_completeness auto
termination
  by (relation "measure (\<lambda>(s, m). length s)") (auto dest: fgets_shorter)

declare load_lines.simps [simp del]

definition LoadFile :: "files \<Rightarrow> string \<Rightarrow> config_reader \<Rightarrow> (int \<times> config_reader) res" where
  "LoadFile fs filename r =
     (let r = r\<lparr>config_file := filename\<rparr> in
      case fs filename of None \<Rightarrow> Inr (- 1, r)
      | Some s \<Rightarrow> bindR (load_lines s (config_map r)) (\<lambda>m. Inr (0, r\<lparr>config_map := m, load_ok := Some True\<rparr>)))"

definition ParseConf :: "files \<Rightarrow> string \<Rightarrow> config_reader \<Rightarrow> (int \<times> config_reader) res" where
  "ParseConf fs filename r = LoadFile fs filename r"

text \<open>A pair is printed into 128 bytes.  \<open>ok i\<close> tells whether the write of the pair \<open>i\<close> succeeds.\<close>

definition pair_text :: "string \<times> string \<Rightarrow> string" where
  "pair_text kv = take 127 (c_str (fst kv) @ ''='' @ c_str (snd kv) @ [CHR 0x0A])"

fun write_pairs :: "(nat \<Rightarrow> bool) \<Rightarrow> nat \<Rightarrow> (string \<times> string) list \<Rightarrow> string \<Rightarrow> int \<times> string" where
  "write_pairs ok i [] out = (0, out)"
| "write_pairs ok i (kv # m) out = (if ok i then write_pairs ok (i + 1) m (out @ pair_text kv) else (- 1, out))"

definition WriteFile :: "(string \<Rightarrow> bool) \<Rightarrow> (nat \<Rightarrow> bool) \<Rightarrow> string option \<Rightarrow> config_reader \<Rightarrow> files \<Rightarrow> int \<times> files" where
  "WriteFile can_open ok filename r fs =
     (let name = (case filename of None \<Rightarrow> config_file r | Some f \<Rightarrow> f) in
      if \<not> can_open name then (- 1, fs)
      else let (ret, out) = write_pairs ok 0 (config_map r) [] in (ret, fs(name \<mapsto> out)))"

definition SetConfigValue ::
  "(string \<Rightarrow> bool) \<Rightarrow> (nat \<Rightarrow> bool) \<Rightarrow> string \<Rightarrow> string \<Rightarrow> config_reader \<Rightarrow> files \<Rightarrow> (int \<times> config_reader \<times> files) res" where
  "SetConfigValue can_open ok name v r fs =
     bindR (loaded r) (\<lambda>l.
     if \<not> l then Inr (- 1, r, fs)
     else let r = r\<lparr>config_map := if map_of (config_map r) name \<noteq> None then map_assign name v (config_map r)
                                  else map_insert name v (config_map r)\<rparr>;
              (ret, fs) = WriteFile can_open ok None r fs
       in Inr (ret, r, fs))"

section \<open>The managers of the pools\<close>

text \<open>What a pool is made with, and the pool; the ports are cut to 16 bits where the code declares them so.\<close>

record 'a pool_entry =
  made_with :: 'a
  its_pool :: pool

record db_conf =
  db_host :: string
  db_port :: nat
  db_username :: string
  db_password :: string
  db_name :: string

record cache_conf =
  cache_host :: string
  cache_port :: int
  cache_db :: int

type_synonym db_manager = "string \<Rightarrow> db_conf pool_entry option"
type_synonym cache_manager = "string \<Rightarrow> cache_conf pool_entry option"

text \<open>The name of an item of an instance is printed into 64 bytes.\<close>

definition item_name :: "string \<Rightarrow> string \<Rightarrow> string" where
  "item_name pool_name suffix = take 63 (pool_name @ suffix)"

definition map_keep :: "'k \<Rightarrow> 'v \<Rightarrow> ('k \<Rightarrow> 'v option) \<Rightarrow> ('k \<Rightarrow> 'v option)" where
  "map_keep k v m = (if m k = None then m(k \<mapsto> v) else m)"

text \<open>\<open>opens name i\<close> tells whether the \<open>i\<close>-th connection of the pool \<open>name\<close> can be opened.\<close>

fun db_instances ::
  "(string \<Rightarrow> nat \<Rightarrow> bool) \<Rightarrow> config_reader \<Rightarrow> string option list \<Rightarrow> db_manager \<Rightarrow> (int \<times> db_manager) res" where
  "db_instances opens cf [] pools = Inr (0, pools)"
| "db_instances opens cf (None # names) pools = Inl Uninitialised"
| "db_instances opens cf (Some pool_name # names) pools =
     bindR (GetConfigName cf (item_name pool_name ''_host'')) (\<lambda>host.
     bindR (GetConfigName cf (item_name pool_name ''_port'')) (\<lambda>str_port.
     bindR (GetConfigName cf (item_name pool_name ''_dbname'')) (\<lambda>dbname.
     bindR (GetConfigName cf (item_name pool_name ''_username'')) (\<lambda>username.
     bindR (GetConfigName cf (item_name pool_name ''_password'')) (\<lambda>pass.
     bindR (GetConfigName cf (item_name pool_name ''_maxconncnt'')) (\<lambda>str_max.
     case (host, str_port, dbname, username, pass, str_max) of
       (Some host, Some str_port, Some dbname, Some username, Some pass, Some str_max) \<Rightarrow>
         let conf = \<lparr>db_host = host, db_port = nat (atoi str_port mod 2 ^ 16), db_username = username, db_password = pass,
                     db_name = dbname\<rparr>;
             (ok, p) = CDBPool_Init (opens pool_name) (CDBPool (atoi str_max)) in
         if \<not> ok then Inr (3, pools)
         else db_instances opens cf names (map_keep pool_name \<lparr>made_with = conf, its_pool = p\<rparr> pools)
     | _ \<Rightarrow> Inr (2, pools)))))))"

definition CDBManager_Init :: "(string \<Rightarrow> nat \<Rightarrow> bool) \<Rightarrow> files \<Rightarrow> string \<Rightarrow> (int \<times> db_manager) res" where
  "CDBManager_Init opens fs conf_path =
     bindR (ParseConf fs conf_path CConfigFileReader) (\<lambda>(ret, cf).
     if ret \<noteq> 0 then Inr (- 1, \<lambda>_. None)
     else bindR (GetConfigName cf ''DBInstances'') (\<lambda>names.
       case names of None \<Rightarrow> Inr (1, \<lambda>_. None)
       | Some names \<Rightarrow> db_instances opens cf (CStrExplode names (CHR '','')) (\<lambda>_. None)))"

fun cache_instances ::
  "(string \<Rightarrow> nat \<Rightarrow> bool) \<Rightarrow> config_reader \<Rightarrow> string option list \<Rightarrow> cache_manager \<Rightarrow> (int \<times> cache_manager) res" where
  "cache_instances opens cf [] pools = Inr (0, pools)"
| "cache_instances opens cf (None # names) pools = Inl Uninitialised"
| "cache_instances opens cf (Some pool_name # names) pools =
     bindR (GetConfigName cf (item_name pool_name ''_host'')) (\<lambda>host.
     bindR (GetConfigName cf (item_name pool_name ''_port'')) (\<lambda>str_port.
     bindR (GetConfigName cf (item_name pool_name ''_db'')) (\<lambda>str_db.
     bindR (GetConfigName cf (item_name pool_name ''_maxconncnt'')) (\<lambda>str_max.
     case (host, str_port, str_db, str_max) of
       (Some host, Some str_port, Some str_db, Some str_max) \<Rightarrow>
         let conf = \<lparr>cache_host = host, cache_port = atoi str_port, cache_db = atoi str_db\<rparr>;
             (ok, p) = CachePool_Init (opens pool_name) (CachePool (atoi str_max)) in
         if \<not> ok then Inr (3, pools)
         else cache_instances opens cf names (map_keep pool_name \<lparr>made_with = conf, its_pool = p\<rparr> pools)
     | _ \<Rightarrow> Inr (2, pools)))))"

definition CacheManager_Init :: "(string \<Rightarrow> nat \<Rightarrow> bool) \<Rightarrow> files \<Rightarrow> string \<Rightarrow> (int \<times> cache_manager) res" where
  "CacheManager_Init opens fs conf_path =
     bindR (ParseConf fs conf_path CConfigFileReader) (\<lambda>(ret, cf).
     if ret \<noteq> 0 then Inr (- 1, \<lambda>_. None)
     else bindR (GetConfigName cf ''CacheInstances'') (\<lambda>names.
       case names of None \<Rightarrow> Inr (1, \<lambda>_. None)
       | Some names \<Rightarrow> cache_instances opens cf (CStrExplode names (CHR '','')) (\<lambda>_. None)))"

text \<open>The one instance of a manager: made at the first call, and not kept when its \<open>Init\<close> fails.\<close>

definition getInstance :: "(int \<times> 'm) res \<Rightarrow> 'm option \<Rightarrow> 'm option res" where
  "getInstance init s_manager =
     (case s_manager of
        Some m \<Rightarrow> Inr (Some m)
      | None \<Rightarrow> bindR init (\<lambda>(ret, m). Inr (if ret \<noteq> 0 then None else Some m)))"

text \<open>A connection is known by the name of its pool and its number there.\<close>

definition CDBManager_GetDBConn :: "bool \<Rightarrow> string \<Rightarrow> db_manager \<Rightarrow> answer \<times> db_manager" where
  "CDBManager_GetDBConn ok dbpool_name m =
     (case m dbpool_name of None \<Rightarrow> (Null, m)
      | Some i \<Rightarrow> let (a, p) = CDBPool_GetDBConn ok 0 (its_pool i) in (a, m(dbpool_name \<mapsto> i\<lparr>its_pool := p\<rparr>)))"

definition CDBManager_RelDBConn :: "(string \<times> nat) option \<Rightarrow> db_manager \<Rightarrow> db_manager" where
  "CDBManager_RelDBConn conn m =
     (case conn of None \<Rightarrow> m
      | Some (name, c) \<Rightarrow>
          (case m name of None \<Rightarrow> m | Some i \<Rightarrow> m(name \<mapsto> i\<lparr>its_pool := snd (CDBPool_RelDBConn c (its_pool i))\<rparr>)))"

definition CacheManager_GetCacheConn :: "bool \<Rightarrow> string \<Rightarrow> cache_manager \<Rightarrow> answer \<times> cache_manager" where
  "CacheManager_GetCacheConn ok pool_name m =
     (case m pool_name of
        Some i \<Rightarrow> let (a, p) = CachePool_GetCacheConn ok 0 (its_pool i) in (a, m(pool_name \<mapsto> i\<lparr>its_pool := p\<rparr>))
      | None \<Rightarrow> (Null, m))"

definition CacheManager_RelCacheConn :: "(string \<times> nat) option \<Rightarrow> cache_manager \<Rightarrow> cache_manager" where
  "CacheManager_RelCacheConn conn m =
     (case conn of None \<Rightarrow> m
      | Some (name, c) \<Rightarrow>
          (case m name of None \<Rightarrow> m | Some i \<Rightarrow> m(name \<mapsto> i\<lparr>its_pool := snd (CachePool_RelCacheConn c (its_pool i))\<rparr>)))"

section \<open>What is written is read back\<close>

definition plain_item :: "string \<times> string \<Rightarrow> bool" where
  "plain_item kv \<longleftrightarrow>
     trim_value (fst kv) = Some (fst kv) \<and> trim_value (snd kv) = Some (snd kv) \<and> CHR ''='' \<notin> set (fst kv) \<and>
     {NUL, CHR 0x0A, CHR ''#''} \<inter> set (fst kv @ snd kv) = {} \<and> length (fst kv) + length (snd kv) + 2 \<le> 127"

definition config_ok :: "(string \<times> string) list \<Rightarrow> bool" where
  "config_ok m \<longleftrightarrow> sorted_wrt byte_less (map fst m) \<and> (\<forall>kv\<in>set m. plain_item kv)"

lemma c_str_plain: "NUL \<notin> set s \<Longrightarrow> c_str s = s"
  by (auto simp: c_str_def takeWhile_eq_all_conv)

lemma takeWhile_stop: "c \<notin> set xs \<Longrightarrow> takeWhile (\<lambda>x. x \<noteq> c) (xs @ c # ys) = xs"
  "c \<notin> set xs \<Longrightarrow> dropWhile (\<lambda>x. x \<noteq> c) (xs @ c # ys) = c # ys" "c \<notin> set xs \<Longrightarrow> takeWhile (\<lambda>x. x \<noteq> c) xs = xs"
  by (induction xs) auto

lemma pair_text_plain: "plain_item (k, v) \<Longrightarrow> pair_text (k, v) = (k @ ''='' @ v) @ [CHR 0x0A]"
  by (auto simp: pair_text_def plain_item_def c_str_plain)

lemma read_pair:
  assumes "plain_item (k, v)"
  shows "fgets 256 (pair_text (k, v) @ rest) = Some (pair_text (k, v), rest)"
    and "config_line (pair_text (k, v)) m = Inr (map_insert k v m)"
proof -
  let ?t = "k @ ''='' @ v"
  have n: "CHR 0x0A \<notin> set ?t" "NUL \<notin> set ?t" "CHR ''#'' \<notin> set ?t" "CHR ''='' \<notin> set k" "length ?t \<le> 126"
    using assms by (auto simp: plain_item_def)
  note p = pair_text_plain[OF assms]
  have "takeWhile (\<lambda>c. c \<noteq> CHR 0x0A) (pair_text (k, v) @ rest) = ?t" using takeWhile_stop(1)[OF n(1), of rest] by (simp add: p)
  then show "fgets 256 (pair_text (k, v) @ rest) = Some (pair_text (k, v), rest)" using n(5) by (simp add: fgets_def p)
  have c: "c_str (pair_text (k, v)) = ?t @ [CHR 0x0A]" using n(2) by (simp add: p c_str_plain)
  have h: "takeWhile (\<lambda>c. c \<noteq> CHR ''#'') ?t = ?t" using n(3) by (rule takeWhile_stop)
  have "ParseLine ?t m = map_insert k v m"
    using assms takeWhile_stop(1,2)[OF n(4), of v] by (simp add: ParseLine_def plain_item_def)
  moreover have "config_line (pair_text (k, v)) m =
      (let buf = takeWhile (\<lambda>c. c \<noteq> CHR ''#'') ?t in Inr (if buf = [] then m else ParseLine buf m))"
    using butlast_snoc[of ?t "CHR 0x0A"] by (simp add: config_line_def c Let_def del: butlast_snoc)
  ultimately show "config_line (pair_text (k, v)) m = Inr (map_insert k v m)" by (simp only: h Let_def) simp
qed

lemma load_written:
  "\<forall>kv\<in>set m. plain_item kv \<Longrightarrow> load_lines (concat (map pair_text m)) acc = Inr (fold (\<lambda>(k, v). map_insert k v) m acc)"
proof (induction m arbitrary: acc)
  case Nil
  show ?case by (subst load_lines.simps) (simp add: fgets_def)
next
  case (Cons kv m)
  obtain k v where kv: "kv = (k, v)" by fastforce
  with Cons.prems have "plain_item (k, v)" by simp
  note r = read_pair[OF this]
  show ?case using Cons by (subst load_lines.simps) (simp add: kv r)
qed

lemma map_insert_last: "\<forall>k'\<in>fst ` set m. byte_less k' k \<Longrightarrow> map_insert k v m = m @ [(k, v)]"
proof (induction m)
  case (Cons kv m)
  have "\<not> byte_less k k" "byte_less (fst kv) k" using Cons.prems byte_less_irrefl by auto
  then have "k \<noteq> fst kv" "\<not> byte_less k (fst kv)" using byte_less_asym by auto
  with Cons show ?case by (cases kv) auto
qed simp

lemma insert_all: "sorted_wrt byte_less (map fst (acc @ m)) \<Longrightarrow> fold (\<lambda>(k, v). map_insert k v) m acc = acc @ m"
proof (induction m arbitrary: acc)
  case (Cons kv m)
  then have "map_insert (fst kv) (snd kv) acc = acc @ [kv]" by (subst map_insert_last) (auto simp: sorted_wrt_append)
  with Cons.IH[of "acc @ [kv]"] Cons.prems show ?case by (simp add: case_prod_beta)
qed simp

lemma map_insert_new: "map_of m k = None \<Longrightarrow> map_of (map_insert k v m) = (map_of m)(k \<mapsto> v)"
proof (induction m)
  case (Cons kv m)
  then show ?case by (cases kv) (auto split: if_splits)
qed simp

lemma map_assign_old: "map_of m k \<noteq> None \<Longrightarrow> map_of (map_assign k v m) = (map_of m)(k \<mapsto> v)"
proof (induction m)
  case (Cons kv m)
  obtain k' v' where kv: "kv = (k', v')" by fastforce
  show ?case
  proof (cases "k' = k")
    case True
    have "map_of (map_assign k v m) x = map_of m x" if "x \<noteq> k" for x
      using that by (induction m) (auto simp: map_assign_def)
    with True show ?thesis by (auto simp: map_assign_def kv)
  next
    case False
    with Cons show ?thesis by (auto simp: map_assign_def kv)
  qed
qed simp

lemma map_insert_ok:
  assumes "config_ok m" "plain_item (k, v)"
  shows "config_ok (map_insert k v m)"
proof -
  have keys: "set (map_insert k v m) \<subseteq> insert (k, v) (set m)" for m
    by (induction m) (auto split: if_splits)
  have "sorted_wrt byte_less (map fst m) \<Longrightarrow> sorted_wrt byte_less (map fst (map_insert k v m))" for m
  proof (induction m)
    case (Cons kv m)
    obtain k' v' where kv: "kv = (k', v')" by fastforce
    consider "k = k'" | "byte_less k k'" "k \<noteq> k'" | "byte_less k' k" "k \<noteq> k'" "\<not> byte_less k k'"
      using byte_less_total byte_less_asym by blast
    then show ?case
    proof cases
      case 2
      with Cons.prems kv show ?thesis using byte_less_trans by fastforce
    next
      case 3
      with Cons kv keys[of m] show ?thesis by (auto dest!: subsetD)
    qed (use Cons.prems kv in simp)
  qed simp
  with assms keys[of m] show ?thesis by (auto simp: config_ok_def)
qed

lemma map_assign_ok: "config_ok m \<Longrightarrow> plain_item (k, v) \<Longrightarrow> config_ok (map_assign k v m)"
proof -
  assume a: "config_ok m" "plain_item (k, v)"
  have "map fst (map_assign k v m) = map fst m" by (induction m) (auto simp: map_assign_def)
  moreover have "\<forall>kv\<in>set (map_assign k v m). plain_item kv" using a by (auto simp: config_ok_def map_assign_def)
  ultimately show ?thesis using a by (simp only: config_ok_def)
qed

lemma write_all: "\<forall>i. ok i \<Longrightarrow> write_pairs ok i m out = (0, out @ concat (map pair_text m))"
  by (induction m arbitrary: i out) auto

lemma config_set:
  assumes "load_ok r = Some True" "config_ok (config_map r)" "plain_item (name, v)" "can_open (config_file r)" "\<forall>i. ok i"
  shows "\<exists>m fs' r'. SetConfigValue can_open ok name v r fs = Inr (0, r\<lparr>config_map := m\<rparr>, fs') \<and>
    map_of m = (map_of (config_map r))(name \<mapsto> v) \<and>
    ParseConf fs' (config_file r) CConfigFileReader = Inr (0, r') \<and> config_map r' = m \<and> load_ok r' = Some True \<and>
    (\<forall>f. f \<noteq> config_file r \<longrightarrow> fs' f = fs f)"
proof -
  define m where "m = (if map_of (config_map r) name \<noteq> None then map_assign name v (config_map r) else map_insert name v (config_map r))"
  have ok: "config_ok m" "map_of m = (map_of (config_map r))(name \<mapsto> v)"
    using map_assign_ok[OF assms(2,3)] map_insert_ok[OF assms(2,3)] map_assign_old[of "config_map r" name v] map_insert_new[of "config_map r" name v]
    by (simp_all add: m_def)
  let ?fs = "fs(config_file r \<mapsto> concat (map pair_text m))"
  have w: "SetConfigValue can_open ok name v r fs = Inr (0, r\<lparr>config_map := m\<rparr>, ?fs)"
    using assms(1,4,5) by (simp add: SetConfigValue_def loaded_def WriteFile_def write_all m_def)
  have "load_lines (concat (map pair_text m)) [] = Inr m"
    using load_written[of m "[]"] insert_all[of "[]" m] ok(1) by (simp add: config_ok_def)
  then have l: "ParseConf ?fs (config_file r) CConfigFileReader =
      Inr (0, CConfigFileReader\<lparr>config_file := config_file r, config_map := m, load_ok := Some True\<rparr>)"
    by (simp add: ParseConf_def LoadFile_def CConfigFileReader_def)
  show ?thesis
    by (rule exI[of _ m], rule exI[of _ ?fs], rule exI, intro conjI, rule w, rule ok, rule l) (simp_all add: CConfigFileReader_def)
qed

section \<open>Which pools a manager has\<close>

text \<open>
  Both managers walk over the names of the configuration: a step makes one entry and goes on, or it ends with an error.
\<close>

locale instance_list =
  fixes walk :: "string option list \<Rightarrow> (string \<Rightarrow> 'e option) \<Rightarrow> (int \<times> (string \<Rightarrow> 'e option)) res"
    and makes :: "string \<Rightarrow> 'e \<Rightarrow> bool"
  assumes walk_Nil: "walk [] pools = Inr (0, pools)"
    and walk_None: "walk (None # names) pools = Inl Uninitialised"
    and walk_Some: "walk (Some name # names) pools = Inr (0, m) \<Longrightarrow>
      \<exists>e. walk names (map_keep name e pools) = Inr (0, m) \<and> makes name e"
begin

lemma walk_entries:
  assumes "walk names pools = Inr (0, m)"
  shows "None \<notin> set names" "pools name \<noteq> None \<Longrightarrow> m name = pools name"
    "pools name = None \<Longrightarrow> Some name \<in> set names \<Longrightarrow> \<exists>e. m name = Some e \<and> makes name e"
    "pools name = None \<Longrightarrow> Some name \<notin> set names \<Longrightarrow> m name = None"
proof -
  have "None \<notin> set names \<and> (pools name \<noteq> None \<longrightarrow> m name = pools name) \<and>
      (pools name = None \<and> Some name \<in> set names \<longrightarrow> (\<exists>e. m name = Some e \<and> makes name e)) \<and>
      (pools name = None \<and> Some name \<notin> set names \<longrightarrow> m name = None)"
    using assms
  proof (induction names arbitrary: pools)
    case Nil
    then show ?case by (simp add: walk_Nil)
  next
    case (Cons n names)
    then obtain k where k: "n = Some k" by (cases n) (auto simp: walk_None)
    with Cons.prems walk_Some obtain e where e: "makes k e" "walk names (map_keep k e pools) = Inr (0, m)" by blast
    from Cons.IH[OF e(2)] e(1) k show ?case by (auto simp: map_keep_def split: if_splits)
  qed
  then show "None \<notin> set names" "pools name \<noteq> None \<Longrightarrow> m name = pools name"
    "pools name = None \<Longrightarrow> Some name \<in> set names \<Longrightarrow> \<exists>e. m name = Some e \<and> makes name e"
    "pools name = None \<Longrightarrow> Some name \<notin> set names \<Longrightarrow> m name = None" by blast+
qed

end

text \<open>The entry of the name \<open>n\<close> was made from its items in \<open>cf\<close>, and its pool could be filled.\<close>

definition makes_db :: "(string \<Rightarrow> nat \<Rightarrow> bool) \<Rightarrow> (string \<Rightarrow> string option) \<Rightarrow> string \<Rightarrow> db_conf pool_entry \<Rightarrow> bool" where
  "makes_db opens items n e \<longleftrightarrow>
     (let c = made_with e in
      items (item_name n ''_host'') = Some (db_host c) \<and> items (item_name n ''_dbname'') = Some (db_name c) \<and>
      items (item_name n ''_username'') = Some (db_username c) \<and> items (item_name n ''_password'') = Some (db_password c) \<and>
      (\<exists>prt. items (item_name n ''_port'') = Some prt \<and> int (db_port c) = atoi prt mod 2 ^ 16) \<and>
      (\<exists>most. items (item_name n ''_maxconncnt'') = Some most \<and>
         CDBPool_Init (opens n) (CDBPool (atoi most)) = (True, its_pool e)))"

definition makes_cache :: "(string \<Rightarrow> nat \<Rightarrow> bool) \<Rightarrow> (string \<Rightarrow> string option) \<Rightarrow> string \<Rightarrow> cache_conf pool_entry \<Rightarrow> bool" where
  "makes_cache opens items n e \<longleftrightarrow>
     (let c = made_with e in
      items (item_name n ''_host'') = Some (cache_host c) \<and>
      (\<exists>prt. items (item_name n ''_port'') = Some prt \<and> cache_port c = atoi prt) \<and>
      (\<exists>d. items (item_name n ''_db'') = Some d \<and> cache_db c = atoi d) \<and>
      (\<exists>most. items (item_name n ''_maxconncnt'') = Some most \<and>
         CachePool_Init (opens n) (CachePool (atoi most)) = (True, its_pool e)))"

lemma GetConfigName_loaded: "load_ok cf = Some True \<Longrightarrow> GetConfigName cf n = Inr (map_of (config_map cf) n)"
  by (simp add: GetConfigName_def loaded_def)

text \<open>A reader that is loaded; any other one never gets to an item.\<close>

definition items_of :: "config_reader \<Rightarrow> string \<Rightarrow> string option" where
  "items_of cf n = (case GetConfigName cf n of Inr v \<Rightarrow> v | Inl e \<Rightarrow> None)"

interpretation dbs: instance_list "db_instances opens cf" "makes_db opens (items_of cf)" for opens cf
proof
  fix name names pools m
  assume "db_instances opens cf (Some name # names) pools = Inr (0, m)"
  then show "\<exists>e. db_instances opens cf names (map_keep name e pools) = Inr (0, m) \<and> makes_db opens (items_of cf) name e"
    by (auto simp: makes_db_def items_of_def Let_def split: option.splits prod.splits if_splits sum.splits)
      (rule exI, rule conjI, assumption, simp)
qed simp_all

interpretation caches: instance_list "cache_instances opens cf" "makes_cache opens (items_of cf)" for opens cf
proof
  fix name names pools m
  assume "cache_instances opens cf (Some name # names) pools = Inr (0, m)"
  then show "\<exists>e. cache_instances opens cf names (map_keep name e pools) = Inr (0, m) \<and> makes_cache opens (items_of cf) name e"
    by (auto simp: makes_cache_def items_of_def Let_def split: option.splits prod.splits if_splits sum.splits)
      (rule exI, rule conjI, assumption, simp)
qed simp_all

lemma db_init_runs:
  assumes "CDBManager_Init opens fs path = Inr (0, m)"
  shows "\<exists>cf names. ParseConf fs path CConfigFileReader = Inr (0, cf) \<and> items_of cf ''DBInstances'' = Some names \<and>
    db_instances opens cf (CStrExplode names (CHR '','')) (\<lambda>_. None) = Inr (0, m)"
  using assms by (auto simp: CDBManager_Init_def items_of_def bindR_eq_Inr split: prod.splits if_splits option.splits)

lemma cache_init_runs:
  assumes "CacheManager_Init opens fs path = Inr (0, m)"
  shows "\<exists>cf names. ParseConf fs path CConfigFileReader = Inr (0, cf) \<and> items_of cf ''CacheInstances'' = Some names \<and>
    cache_instances opens cf (CStrExplode names (CHR '','')) (\<lambda>_. None) = Inr (0, m)"
  using assms by (auto simp: CacheManager_Init_def items_of_def bindR_eq_Inr split: prod.splits if_splits option.splits)

lemma fresh_pool_gives:
  "CDBPool_Init ok (CDBPool cap) = (True, p) \<Longrightarrow> \<exists>q. CDBPool_GetDBConn b 0 p = (Conn 0, q)"
  "CachePool_Init ok (CachePool cap) = (True, p') \<Longrightarrow> \<exists>q. CachePool_GetCacheConn b 0 p' = (Conn 0, q)"
proof -
  assume "CDBPool_Init ok (CDBPool cap) = (True, p)"
  then have "p = (CDBPool cap)\<lparr>free_list := [0], next_conn := 1\<rparr>"
    by (simp add: CDBPool_Init_def CDBPool_def MIN_DB_CONN_CNT_def split: if_splits)
  then show "\<exists>q. CDBPool_GetDBConn b 0 p = (Conn 0, q)"
    by (simp add: CDBPool_GetDBConn_def CDBPool_def take_front_def)
next
  assume "CachePool_Init ok (CachePool cap) = (True, p')"
  then have "p' = (CachePool cap)\<lparr>free_list := [0, 1], next_conn := 2\<rparr>"
    by (simp add: CachePool_Init_def CachePool_def MIN_CACHE_CONN_CNT_def numeral_2_eq_2 upt_rec[of 0] split: if_splits)
  then show "\<exists>q. CachePool_GetCacheConn b 0 p' = (Conn 0, q)"
    by (simp add: CachePool_GetCacheConn_def CachePool_def take_front_def)
qed

lemma db_entry_gives:
  assumes "m n = Some e" "makes_db opens items n e"
  shows "\<exists>q. CDBManager_GetDBConn ok n m = (Conn 0, m(n \<mapsto> e\<lparr>its_pool := q\<rparr>))"
proof -
  obtain most where "CDBPool_Init (opens n) (CDBPool (atoi most)) = (True, its_pool e)"
    using assms(2) by (auto simp: makes_db_def Let_def)
  from fresh_pool_gives(1)[OF this, of ok] assms(1) show ?thesis by (auto simp: CDBManager_GetDBConn_def)
qed

lemma cache_entry_gives:
  assumes "m n = Some e" "makes_cache opens items n e"
  shows "\<exists>q. CacheManager_GetCacheConn ok n m = (Conn 0, m(n \<mapsto> e\<lparr>its_pool := q\<rparr>))"
proof -
  obtain most where "CachePool_Init (opens n) (CachePool (atoi most)) = (True, its_pool e)"
    using assms(2) by (auto simp: makes_cache_def Let_def)
  from fresh_pool_gives(2)[OF this, of ok] assms(1) show ?thesis by (auto simp: CacheManager_GetCacheConn_def)
qed

section \<open>Properties\<close>

text \<open>C18: setting an item of the configuration changes that item and nothing else, in memory and in the file.  The file that is
  written is parsed back to the same items, whatever it held before.\<close>

theorem config_roundtrip:
  assumes "load_ok r = Some True" "config_ok (config_map r)" "plain_item (name, v)" "can_open (config_file r)" "\<forall>i. ok i"
  shows "\<exists>m fs' r'. SetConfigValue can_open ok name v r fs = Inr (0, r\<lparr>config_map := m\<rparr>, fs') \<and>
    map_of m = (map_of (config_map r))(name \<mapsto> v) \<and>
    ParseConf fs' (config_file r) CConfigFileReader = Inr (0, r') \<and> config_map r' = m \<and> load_ok r' = Some True \<and>
    (\<forall>f. f \<noteq> config_file r \<longrightarrow> fs' f = fs f)"
  using assms by (rule config_set)

definition demo_file :: string where
  "demo_file = ''# muzi'' @ [CHR 0x0A] @ ''HttpPort = 8081'' @ [CHR 0x0A] @ ''DBInstances=a'' @ [CHR 0x0A]"

definition demo_reader :: config_reader where
  "demo_reader = \<lparr>load_ok = Some True, config_map = [(''DBInstances'', ''a''), (''HttpPort'', ''8081'')], config_file = ''conf''\<rparr>"

lemma demo_parse: "ParseConf [''conf'' \<mapsto> demo_file] ''conf'' CConfigFileReader = Inr (0, demo_reader)"
  by code_simp

theorem config_roundtrip_witness:
  "\<exists>m fs' r'. SetConfigValue (\<lambda>_. True) (\<lambda>_. True) ''HttpPort'' ''80'' demo_reader [''conf'' \<mapsto> demo_file] =
      Inr (0, demo_reader\<lparr>config_map := m\<rparr>, fs') \<and>
    map_of m ''HttpPort'' = Some ''80'' \<and> ParseConf fs' ''conf'' CConfigFileReader = Inr (0, r') \<and> config_map r' = m"
proof -
  have d: "load_ok demo_reader = Some True" "config_ok (config_map demo_reader)" "plain_item (''HttpPort'', ''80'')"
    "config_file demo_reader = ''conf''"
    by code_simp+
  have e: "((map_of (config_map demo_reader))(''HttpPort'' \<mapsto> ''80'')) ''HttpPort'' = Some ''80''" by simp
  from config_roundtrip[OF d(1-3), of "\<lambda>_. True" "\<lambda>_. True" "[''conf'' \<mapsto> demo_file]"] show ?thesis
    unfolding d(4) using e by metis
qed

text \<open>C19: the managers have the pools that the configuration names.  After a successful start every listed instance has a pool that was
  made from its items and gives a connection at once; taking it changes no other pool, and a name that is not
  listed gets none.\<close>

theorem managers_have_their_pools:
  assumes "CDBManager_Init opens fs path = Inr (0, m)" "CacheManager_Init opens' fs path = Inr (0, m')"
  shows "\<exists>cf db_list cache_list. ParseConf fs path CConfigFileReader = Inr (0, cf) \<and>
    items_of cf ''DBInstances'' = Some db_list \<and> items_of cf ''CacheInstances'' = Some cache_list \<and>
    (\<forall>n. if Some n \<in> set (CStrExplode db_list (CHR '',''))
         then \<exists>e q. m n = Some e \<and> makes_db opens (items_of cf) n e \<and>
           CDBManager_GetDBConn ok n m = (Conn 0, m(n \<mapsto> e\<lparr>its_pool := q\<rparr>))
         else CDBManager_GetDBConn ok n m = (Null, m)) \<and>
    (\<forall>n. if Some n \<in> set (CStrExplode cache_list (CHR '',''))
         then \<exists>e q. m' n = Some e \<and> makes_cache opens' (items_of cf) n e \<and>
           CacheManager_GetCacheConn ok n m' = (Conn 0, m'(n \<mapsto> e\<lparr>its_pool := q\<rparr>))
         else CacheManager_GetCacheConn ok n m' = (Null, m'))"
proof -
  obtain cf db_list where d: "ParseConf fs path CConfigFileReader = Inr (0, cf)" "items_of cf ''DBInstances'' = Some db_list"
    "db_instances opens cf (CStrExplode db_list (CHR '','')) (\<lambda>_. None) = Inr (0, m)"
    using db_init_runs[OF assms(1)] by blast
  obtain cache_list where c: "items_of cf ''CacheInstances'' = Some cache_list"
    "cache_instances opens' cf (CStrExplode cache_list (CHR '','')) (\<lambda>_. None) = Inr (0, m')"
    using cache_init_runs[OF assms(2)] d(1) by auto
  have db: "if Some n \<in> set (CStrExplode db_list (CHR '',''))
         then \<exists>e q. m n = Some e \<and> makes_db opens (items_of cf) n e \<and>
           CDBManager_GetDBConn ok n m = (Conn 0, m(n \<mapsto> e\<lparr>its_pool := q\<rparr>))
         else CDBManager_GetDBConn ok n m = (Null, m)" for n
    using dbs.walk_entries(3,4)[OF d(3), of n] db_entry_gives[of m n] by (auto simp: CDBManager_GetDBConn_def)
  have ca: "if Some n \<in> set (CStrExplode cache_list (CHR '',''))
         then \<exists>e q. m' n = Some e \<and> makes_cache opens' (items_of cf) n e \<and>
           CacheManager_GetCacheConn ok n m' = (Conn 0, m'(n \<mapsto> e\<lparr>its_pool := q\<rparr>))
         else CacheManager_GetCacheConn ok n m' = (Null, m')" for n
    using caches.walk_entries(3,4)[OF c(2), of n] cache_entry_gives[of m' n] by (auto simp: CacheManager_GetCacheConn_def)
  from d(1,2) c(1) db ca show ?thesis by blast
qed

text \<open>Two pools of the shape the server uses.\<close>

definition demo_pools :: string where
  "demo_pools =
     ''DBInstances=a,b'' @ [CHR 0x0A] @
     concat (map (\<lambda>n. concat (map (\<lambda>(k, v). n @ ''_'' @ k @ ''='' @ v @ [CHR 0x0A])
       [(''host'', ''h''), (''port'', ''3306''), (''dbname'', ''d''), (''username'', ''u''), (''password'', ''p''), (''maxconncnt'', ''8'')]))
       [''a'', ''b'']) @
     ''CacheInstances=c'' @ [CHR 0x0A] @ ''c_host=h'' @ [CHR 0x0A] @ ''c_port=6379'' @ [CHR 0x0A] @ ''c_db=0'' @ [CHR 0x0A] @
     ''c_maxconncnt=8'' @ [CHR 0x0A]"

theorem managers_have_their_pools_witness:
  "\<exists>m m'. CDBManager_Init (\<lambda>_ _. True) [''conf'' \<mapsto> demo_pools] ''conf'' = Inr (0, m) \<and>
    CacheManager_Init (\<lambda>_ _. True) [''conf'' \<mapsto> demo_pools] ''conf'' = Inr (0, m') \<and>
    fst (CDBManager_GetDBConn True ''b'' m) = Conn 0 \<and> CDBManager_GetDBConn True ''z'' m = (Null, m) \<and>
    fst (CacheManager_GetCacheConn True ''c'' m') = Conn 0"
proof -
  let ?fs = "[''conf'' \<mapsto> demo_pools]"
  have ok: "(case CDBManager_Init (\<lambda>_ _. True) ?fs ''conf'' of Inr (i, m) \<Rightarrow> i = 0 | Inl e \<Rightarrow> False)"
    "(case CacheManager_Init (\<lambda>_ _. True) ?fs ''conf'' of Inr (i, m) \<Rightarrow> i = 0 | Inl e \<Rightarrow> False)"
    by code_simp+
  then obtain m m' where i: "CDBManager_Init (\<lambda>_ _. True) ?fs ''conf'' = Inr (0, m)" "CacheManager_Init (\<lambda>_ _. True) ?fs ''conf'' = Inr (0, m')"
    by (auto split: sum.splits prod.splits)
  have l: "(case ParseConf ?fs ''conf'' CConfigFileReader of Inr (i, cf) \<Rightarrow>
      items_of cf ''DBInstances'' = Some ''a,b'' \<and> items_of cf ''CacheInstances'' = Some ''c'' | Inl e \<Rightarrow> False)"
    by code_simp
  have n: "Some ''b'' \<in> set (CStrExplode ''a,b'' (CHR '',''))" "Some ''z'' \<notin> set (CStrExplode ''a,b'' (CHR '',''))"
    "Some ''c'' \<in> set (CStrExplode ''c'' (CHR '',''))"
    by code_simp+
  obtain cf dl cl where c: "ParseConf ?fs ''conf'' CConfigFileReader = Inr (0, cf)" "items_of cf ''DBInstances'' = Some dl"
    "items_of cf ''CacheInstances'' = Some cl"
    and all: "\<forall>n. if Some n \<in> set (CStrExplode dl (CHR '',''))
         then \<exists>e q. m n = Some e \<and> makes_db (\<lambda>_ _. True) (items_of cf) n e \<and>
           CDBManager_GetDBConn True n m = (Conn 0, m(n \<mapsto> e\<lparr>its_pool := q\<rparr>))
         else CDBManager_GetDBConn True n m = (Null, m)"
     "\<forall>n. if Some n \<in> set (CStrExplode cl (CHR '',''))
         then \<exists>e q. m' n = Some e \<and> makes_cache (\<lambda>_ _. True) (items_of cf) n e \<and>
           CacheManager_GetCacheConn True n m' = (Conn 0, m'(n \<mapsto> e\<lparr>its_pool := q\<rparr>))
         else CacheManager_GetCacheConn True n m' = (Null, m')"
    using managers_have_their_pools[OF i, of True] by blast
  have "dl = ''a,b''" "cl = ''c''" using l c by simp_all
  then show ?thesis
    using i n all(1)[rule_format, of "''b''"] all(1)[rule_format, of "''z''"] all(2)[rule_format, of "''c''"] by auto
qed

end
