(* ===== verification/Startup.thy ===== *)
theory Startup
  imports Config Outcomes
begin

text \<open>
  The start of the server: \<open>main\<close> of src/main.cc and the level of the log of src/base/dlog.cc.  The event loop that
  follows belongs to the network library.
\<close>

section \<open>src/main.cc\<close>

text \<open>The level of the log: a text that names none leaves it as it was.\<close>

definition SetLevel :: "string \<Rightarrow> string \<Rightarrow> string" where
  "SetLevel log_level level =
     (if log_level \<in> {''trace'', ''debug'', ''info'', ''warn'', ''err'', ''critical'', ''off''} then log_level else level)"

record server_settings =
  level :: string
  upload :: upload_config
  threads :: "int option"
  listen_ip :: string
  listen_port :: nat
  pollers :: int
  cache_pools :: cache_manager
  db_pools :: db_manager

datatype startup = Exits int | Serves server_settings

text \<open>The macro \<open>GetStrTemp\<close>.\<close>

definition GetStrTemp :: "config_reader \<Rightarrow> string \<Rightarrow> (string \<Rightarrow> startup act) \<Rightarrow> startup act" where
  "GetStrTemp reader field k =
     bindA (liftA (GetConfigName reader field)) (\<lambda>str_temp. case str_temp of None \<Rightarrow> retA (Exits (- 1)) | Some s \<Rightarrow> k s)"

text \<open>\<open>ApiUploadInit\<close> assigns its pointers to strings: NULL makes it throw.\<close>

definition upload_init :: "string option \<Rightarrow> string option \<Rightarrow> string option \<Rightarrow> string \<Rightarrow> string \<Rightarrow> upload_config act" where
  "upload_init dfs ip port address token =
     bindA (liftA (string_of dfs)) (\<lambda>dfs. bindA (liftA (string_of ip)) (\<lambda>ip. bindA (liftA (string_of port)) (\<lambda>port.
     retA (ApiUploadInit dfs ip port address token))))"

definition upload_settings :: "config_reader \<Rightarrow> string \<Rightarrow> (upload_config \<Rightarrow> startup act) \<Rightarrow> startup act" where
  "upload_settings reader str_temp k =
     bindA (liftA (GetConfigName reader ''dfs_path_client'')) (\<lambda>dfs.
     bindA (liftA (GetConfigName reader ''storage_web_server_ip'')) (\<lambda>ip.
     bindA (liftA (GetConfigName reader ''storage_web_server_port'')) (\<lambda>port.
     if atoi str_temp mod 2 ^ 16 \<noteq> 0 then
       GetStrTemp reader ''shorturl_server_address'' (\<lambda>address.
       GetStrTemp reader ''shorturl_server_access_token'' (\<lambda>token.
       bindA (upload_init dfs ip port address token) k))
     else bindA (upload_init dfs ip port [] []) k)))"

definition thread_settings :: "config_reader \<Rightarrow> string \<Rightarrow> (int option \<Rightarrow> startup act) \<Rightarrow> startup act" where
  "thread_settings reader str_temp k =
     (if atoi str_temp \<noteq> 0 then
        GetStrTemp reader ''ThreadNum'' (\<lambda>n. if atoi n \<le> 0 then retA (Exits (- 1)) else k (Some (atoi n)))
      else k None)"

text \<open>
  \<open>argv1\<close> is the first argument, \<open>cache_opens\<close> and \<open>db_opens\<close> the connections the pools can open.  The result
  \<open>Serves\<close> is the call of \<open>loop.Loop\<close> with the server the settings describe.
\<close>

definition main_start ::
  "env \<Rightarrow> (string \<Rightarrow> nat \<Rightarrow> bool) \<Rightarrow> (string \<Rightarrow> nat \<Rightarrow> bool) \<Rightarrow> files \<Rightarrow> string option \<Rightarrow> startup act" where
  "main_start E cache_opens db_opens fs argv1 =
     (let config_file = (case argv1 of Some f \<Rightarrow> f | None \<Rightarrow> ''tc_http_server.conf'') in
      bindA (liftA (ParseConf fs config_file CConfigFileReader)) (\<lambda>(ret, reader).
      if ret \<noteq> 0 then retA (Exits (- 1))
      else GetStrTemp reader ''log_level'' (\<lambda>log_level.
      GetStrTemp reader ''enable_shorturl'' (\<lambda>enable.
      upload_settings reader enable (\<lambda>upload.
      GetStrTemp reader ''EnableThreadPool'' (\<lambda>pool.
      thread_settings reader pool (\<lambda>threads.
      GetStrTemp reader ''HttpListenIP'' (\<lambda>ip.
      GetStrTemp reader ''HttpPort'' (\<lambda>port.
      GetStrTemp reader ''poller_num'' (\<lambda>pollers.
      bindA (liftA (assertR (0 < atoi pollers))) (\<lambda>_.
      bindA (liftA (getInstance (CacheManager_Init cache_opens fs config_file) None)) (\<lambda>caches.
      case caches of None \<Rightarrow> retA (Exits (- 1)) | Some caches \<Rightarrow>
      bindA (liftA (getInstance (CDBManager_Init db_opens fs config_file) None)) (\<lambda>dbs.
      case dbs of None \<Rightarrow> retA (Exits (- 1)) | Some dbs \<Rightarrow>
      bindA (InitializePvCache E) (\<lambda>ret.
      if ret \<noteq> 0 then retA (Exits (- 1))
      else retA (Serves \<lparr>level = SetLevel log_level ''info'', upload = upload, threads = threads, listen_ip = ip,
        listen_port = nat (atoi port mod 2 ^ 16), pollers = atoi pollers, cache_pools = caches, db_pools = dbs\<rparr>)))))))))))))))"

section \<open>What a started server has\<close>

text \<open>How the parts of \<open>main\<close> come to serve.\<close>

lemma GetStrTemp_Serves:
  "GetStrTemp reader field k w = (Inr (Serves S), w') \<longleftrightarrow> (\<exists>v. GetConfigName reader field = Inr (Some v) \<and> k v w = (Inr (Serves S), w'))"
  by (auto simp: GetStrTemp_def invert split: option.splits)

lemma upload_init_Inr: "upload_init dfs ip prt address token w = (Inr u, w') \<Longrightarrow>
    w' = w \<and> (\<exists>d i p. dfs = Some d \<and> ip = Some i \<and> prt = Some p \<and>
      u = ApiUploadInit (c_str d) (c_str i) (c_str p) address token)"
  by (auto simp: upload_init_def invert string_of_def split: option.splits)

lemma upload_settings_Serves:
  assumes "upload_settings reader enable k w = (Inr (Serves S), w')"
  shows "\<exists>u. k u w = (Inr (Serves S), w') \<and> upload_config.dfs_path_client u \<in> c_str ` set_option (items_of reader ''dfs_path_client'') \<and>
    storage_web_server_ip u \<in> c_str ` set_option (items_of reader ''storage_web_server_ip'') \<and>
    storage_web_server_port u \<in> c_str ` set_option (items_of reader ''storage_web_server_port'')"
  using assms
  by (auto simp: upload_settings_def invert GetStrTemp_Serves items_of_def ApiUploadInit_def split: if_splits dest!: upload_init_Inr)

lemma thread_settings_Serves:
  "thread_settings reader pool k w = (Inr (Serves S), w') \<Longrightarrow> \<exists>t. k t w = (Inr (Serves S), w') \<and> (\<forall>n. t = Some n \<longrightarrow> 0 < n)"
  by (auto simp: thread_settings_def GetStrTemp_Serves retA_iff split: if_splits)

lemma getInstance_Some: "getInstance init None = Inr (Some m) \<longleftrightarrow> init = Inr (0, m)"
  by (auto simp: getInstance_def bindR_eq_Inr split: prod.splits if_splits)


definition demo_main :: string where
  "demo_main = concat (map (\<lambda>(k, v). k @ ''='' @ v @ [CHR 0x0A])
     [(''log_level'', ''info''), (''enable_shorturl'', ''0''), (''dfs_path_client'', ''c''), (''storage_web_server_ip'', ''i''),
      (''storage_web_server_port'', ''80''), (''EnableThreadPool'', ''1''), (''ThreadNum'', ''4''), (''HttpListenIP'', ''ip''),
      (''HttpPort'', ''8081''), (''poller_num'', ''2''), (''DBInstances'', ''a''), (''a_host'', ''h''), (''a_port'', ''1''),
      (''a_dbname'', ''d''), (''a_username'', ''u''), (''a_password'', ''p''), (''a_maxconncnt'', ''8''), (''CacheInstances'', ''c''),
      (''c_host'', ''h''), (''c_port'', ''2''), (''c_db'', ''0''), (''c_maxconncnt'', ''8'')])"

definition demo_views :: env where
  "demo_views = demo ([''md5'', ''file_name'', ''pv''], [[Some ''m'', Some ''f'', Some ''1'']]) (RInteger 1)"

lemma demo_starts:
  "case main_start demo_views (\<lambda>_ _. True) (\<lambda>_ _. True) [''tc_http_server.conf'' \<mapsto> demo_main] None (idle_world []) of
     (Inr (Serves S), w) \<Rightarrow> threads S = Some 4 \<and> listen_port S = 8081 | _ \<Rightarrow> False"
  by code_simp


end
