(* ===== verification/ThreadPool.thy ===== *)
theory ThreadPool
  imports Prelude "HOL-Library.Multiset"
begin

text \<open>
  The pool of worker threads of src/base/tc_thread_pool.cc and src/base/tc_thread_pool.h.  What a thread does while it
  holds \<open>mutex_\<close> is one step, what it does between two critical sections is one step for each access to a shared
  field; the steps of the workers, of the callers of \<open>Exec\<close> and \<open>WaitForAllDone\<close>, of the owner that calls \<open>Init\<close>,
  \<open>Start\<close> and \<open>Stop\<close>, and of the clock interleave in any order.  Waking up without being notified, which a condition
  variable allows, is a step too.  A task is known by a number, and when its function returns is a step of its worker.
\<close>

section \<open>The state\<close>

text \<open>\<open>TaskFunc\<close>: the function, known by a number, and the time at which it expires (zero for never).\<close>

record task =
  ident :: nat
  expire_time :: int

text \<open>
  Where a worker is in \<open>Run\<close>: before the test of the loop, before \<open>Get\<close>, sleeping in it, notified, holding a task,
  having counted itself, in the function of the task, after the \<open>try\<close> block, before the last critical section, ended.
\<close>

datatype worker =
    Looping | Getting | Asleep | Notified | Holding task | Counted task | Running task | Ran task | Leaving | Ended

text \<open>Where a caller of \<open>WaitForAllDone\<close> is; the flag tells that it gave a time limit.\<close>

datatype caller = Idle | Waiting bool | Woken bool | Returned bool

text \<open>Where the owner is: in no call, or about to join the thread of an index in \<open>Stop\<close>.\<close>

datatype owner = Free | Joining nat

text \<open>The last four fields are a record of what happened, which the code does not keep.\<close>

record thread_pool =
  task_queue :: "task list"
  threads :: "worker list"
  thread_num :: nat
  terminate :: bool
  atomic :: int
  owner :: owner
  callers :: "caller list"
  now :: int
  submitted :: "task list"
  taken :: "task list"
  executed :: "task list"
  dropped :: "task list"

definition ThreadPool :: "nat \<Rightarrow> thread_pool" where
  "ThreadPool k = \<lparr>task_queue = [], threads = [], thread_num = 1, terminate = False, atomic = 0, owner = Free,
     callers = replicate k Idle, now = 0, submitted = [], taken = [], executed = [], dropped = []\<rparr>"

section \<open>The condition variable\<close>

text \<open>The threads that sleep on \<open>condition_\<close>: workers by their index, callers by theirs.\<close>

datatype sleeper = Worker nat | Caller nat

fun wake_worker :: "worker \<Rightarrow> worker" where
  "wake_worker Asleep = Notified"
| "wake_worker w = w"

fun wake_caller :: "caller \<Rightarrow> caller" where
  "wake_caller (Waiting t) = Woken t"
| "wake_caller c = c"

fun sleeps :: "thread_pool \<Rightarrow> sleeper \<Rightarrow> bool" where
  "sleeps s (Worker i) = (i < length (threads s) \<and> threads s ! i = Asleep)"
| "sleeps s (Caller c) = (c < length (callers s) \<and> (\<exists>t\<in>{True, False}. callers s ! c = Waiting t))"

fun wake :: "sleeper \<Rightarrow> thread_pool \<Rightarrow> thread_pool" where
  "wake (Worker i) s = s\<lparr>threads := (threads s)[i := wake_worker (threads s ! i)]\<rparr>"
| "wake (Caller c) s = s\<lparr>callers := (callers s)[c := wake_caller (callers s ! c)]\<rparr>"

definition notify_all :: "thread_pool \<Rightarrow> thread_pool" where
  "notify_all s = s\<lparr>threads := map wake_worker (threads s), callers := map wake_caller (callers s)\<rparr>"

definition nobody_sleeps :: "thread_pool \<Rightarrow> bool" where
  "nobody_sleeps s \<longleftrightarrow> list_all (\<lambda>w. w \<noteq> Asleep) (threads s) \<and> list_all (\<lambda>c. c \<notin> {Waiting True, Waiting False}) (callers s)"

text \<open>Which sleeping thread is notified is not determined; there is none to notify when nobody sleeps.\<close>

fun notify_one :: "sleeper option \<Rightarrow> thread_pool \<Rightarrow> thread_pool option" where
  "notify_one (Some x) s = (if sleeps s x then Some (wake x s) else None)"
| "notify_one None s = (if nobody_sleeps s then Some s else None)"

section \<open>The operations\<close>

definition ThreadPool_Init :: "nat \<Rightarrow> thread_pool \<Rightarrow> bool \<times> thread_pool" where
  "ThreadPool_Init num s = (if threads s \<noteq> [] then (False, s) else (True, s\<lparr>thread_num := num\<rparr>))"

definition Start :: "thread_pool \<Rightarrow> bool \<times> thread_pool" where
  "Start s = (if threads s \<noteq> [] then (False, s) else (True, s\<lparr>threads := replicate (thread_num s) Looping\<rparr>))"

text \<open>\<open>Stop\<close>: the block that sets the flag, the loop that joins and deletes every thread, the final \<open>clear\<close>.\<close>

definition Stop_begin :: "thread_pool \<Rightarrow> thread_pool" where
  "Stop_begin s = notify_all (s\<lparr>terminate := True\<rparr>)\<lparr>owner := Joining 0\<rparr>"

definition Stop_join :: "nat \<Rightarrow> thread_pool \<Rightarrow> thread_pool option" where
  "Stop_join i s =
     (if i < length (threads s)
      then if threads s ! i = Ended then Some (s\<lparr>owner := Joining (i + 1)\<rparr>) else None
      else Some (s\<lparr>threads := [], owner := Free\<rparr>))"

definition expiry :: "int \<Rightarrow> int \<Rightarrow> int" where
  "expiry ms t = (if ms = 0 then 0 else t + ms)"

definition Exec :: "nat \<Rightarrow> int \<Rightarrow> sleeper option \<Rightarrow> thread_pool \<Rightarrow> thread_pool option" where
  "Exec f timeout_ms who s =
     (let t = \<lparr>ident = f, expire_time = expiry timeout_ms (now s)\<rparr>
      in notify_one who (s\<lparr>task_queue := task_queue s @ [t], submitted := submitted s @ [t]\<rparr>))"

text \<open>\<open>Get\<close> from the moment the lock is held; the result is the place of the worker after it.\<close>

definition ThreadPool_Get :: "thread_pool \<Rightarrow> worker \<times> thread_pool" where
  "ThreadPool_Get s =
     (if task_queue s = [] \<and> \<not> (terminate s \<or> task_queue s \<noteq> []) then (Asleep, s)
      else if terminate s then (Looping, s)
      else case task_queue s of
        t # ts \<Rightarrow> (Holding t, s\<lparr>task_queue := ts, taken := taken s @ [t]\<rparr>)
      | [] \<Rightarrow> (Looping, s))"

definition expired :: "thread_pool \<Rightarrow> task \<Rightarrow> bool" where
  "expired s t \<longleftrightarrow> expire_time t \<noteq> 0 \<and> expire_time t < now s"

text \<open>One step of \<open>Run\<close>.\<close>

fun Run :: "worker \<Rightarrow> thread_pool \<Rightarrow> (worker \<times> thread_pool) option" where
  "Run Looping s = Some (if terminate s then Ended else Getting, s)"
| "Run Getting s = Some (ThreadPool_Get s)"
| "Run Asleep s = None"
| "Run Notified s = Some (ThreadPool_Get s)"
| "Run (Holding t) s = Some (Counted t, s\<lparr>atomic := atomic s + 1\<rparr>)"
| "Run (Counted t) s =
     (if expired s t then Some (Ran t, s\<lparr>dropped := dropped s @ [t]\<rparr>) else Some (Running t, s))"
| "Run (Running t) s = Some (Ran t, s\<lparr>executed := executed s @ [t]\<rparr>)"
| "Run (Ran t) s = Some (Leaving, s\<lparr>atomic := atomic s - 1\<rparr>)"
| "Run Leaving s = Some (Looping, if atomic s = 0 \<and> task_queue s = [] then notify_all s else s)"
| "Run Ended s = None"

definition set_worker :: "nat \<Rightarrow> worker \<Rightarrow> thread_pool \<Rightarrow> thread_pool" where
  "set_worker i w s = s\<lparr>threads := (threads s)[i := w]\<rparr>"

definition run_worker :: "nat \<Rightarrow> thread_pool \<Rightarrow> thread_pool option" where
  "run_worker i s =
     (if i < length (threads s)
      then map_option (\<lambda>(w, s'). set_worker i w s') (Run (threads s ! i) s)
      else None)"

text \<open>\<open>WaitForAllDone\<close> up to its first sleep, after a notification, and at the end of its time.\<close>

definition set_caller :: "nat \<Rightarrow> caller \<Rightarrow> thread_pool \<Rightarrow> thread_pool" where
  "set_caller c x s = s\<lparr>callers := (callers s)[c := x]\<rparr>"

definition WaitForAllDone :: "int \<Rightarrow> nat \<Rightarrow> thread_pool \<Rightarrow> thread_pool" where
  "WaitForAllDone millsecond c s =
     (if task_queue s = [] then set_caller c (Returned True) s
      else if millsecond < 0 then set_caller c (Waiting False) s
      else set_caller c (Waiting True) s)"

definition wait_woken :: "nat \<Rightarrow> bool \<Rightarrow> thread_pool \<Rightarrow> thread_pool" where
  "wait_woken c t s = set_caller c (if task_queue s = [] then Returned True else Waiting t) s"

definition wait_timeout :: "nat \<Rightarrow> thread_pool \<Rightarrow> thread_pool" where
  "wait_timeout c s = set_caller c (Returned (task_queue s = [])) s"

section \<open>Executions\<close>

datatype call =
    CallInit nat | CallStart | CallStop | OwnerJoins | CallExec nat int "sleeper option" | WorkerRuns nat
  | CallWait nat int | CallerRuns nat | TimeIsOver nat | Spurious sleeper | Clock int

fun perform :: "call \<Rightarrow> thread_pool \<Rightarrow> thread_pool option" where
  "perform (CallInit n) s = (if owner s = Free then Some (snd (ThreadPool_Init n s)) else None)"
| "perform CallStart s = (if owner s = Free then Some (snd (Start s)) else None)"
| "perform CallStop s = (if owner s = Free then Some (Stop_begin s) else None)"
| "perform OwnerJoins s = (case owner s of Joining i \<Rightarrow> Stop_join i s | Free \<Rightarrow> None)"
| "perform (CallExec f ms who) s = Exec f ms who s"
| "perform (WorkerRuns i) s = run_worker i s"
| "perform (CallWait c ms) s =
     (if c < length (callers s)
      then case callers s ! c of
          Idle \<Rightarrow> Some (WaitForAllDone ms c s)
        | Returned b \<Rightarrow> Some (WaitForAllDone ms c s)
        | _ \<Rightarrow> None
      else None)"
| "perform (CallerRuns c) s =
     (if c < length (callers s) then case callers s ! c of Woken t \<Rightarrow> Some (wait_woken c t s) | _ \<Rightarrow> None else None)"
| "perform (TimeIsOver c) s =
     (if c < length (callers s) \<and> callers s ! c = Waiting True then Some (wait_timeout c s) else None)"
| "perform (Spurious x) s = (if sleeps s x then Some (wake x s) else None)"
| "perform (Clock t) s = Some (s\<lparr>now := t\<rparr>)"

fun performs :: "call list \<Rightarrow> thread_pool \<Rightarrow> thread_pool option" where
  "performs [] s = Some s"
| "performs (e # es) s = (case perform e s of Some s' \<Rightarrow> performs es s' | None \<Rightarrow> None)"

inductive reachable :: "thread_pool \<Rightarrow> bool" where
  created: "reachable (ThreadPool k)"
| performed: "reachable s \<Longrightarrow> perform e s = Some s' \<Longrightarrow> reachable s'"

lemma performs_reachable: "reachable s \<Longrightarrow> performs es s = Some s' \<Longrightarrow> reachable s'"
  by (induction es arbitrary: s) (auto split: option.splits intro: performed)

lemma performs_append: "performs (es @ fs) s = (case performs es s of Some s' \<Rightarrow> performs fs s' | None \<Rightarrow> None)"
  by (induction es arbitrary: s) (auto split: option.splits)

section \<open>What the workers hold\<close>

text \<open>The task a worker has taken and not finished, and whether it is among those \<open>atomic_\<close> counts.\<close>

fun held :: "worker \<Rightarrow> task list" where
  "held (Holding t) = [t]"
| "held (Counted t) = [t]"
| "held (Running t) = [t]"
| "held _ = []"

definition in_hand :: "thread_pool \<Rightarrow> task list" where
  "in_hand s = concat (map held (threads s))"

fun counted :: "worker \<Rightarrow> int" where
  "counted (Counted t) = 1"
| "counted (Running t) = 1"
| "counted (Ran t) = 1"
| "counted _ = 0"

lemma sum_update:
  fixes f :: "'a \<Rightarrow> 'b::comm_monoid_add"
  shows "i < length xs \<Longrightarrow> sum_list (map f (xs[i := w])) + f (xs ! i) = sum_list (map f xs) + f w"
proof (induction xs arbitrary: i)
  case (Cons x xs)
  then show ?case by (cases i) (auto simp: ac_simps)
qed simp

lemma mset_in_hand: "mset (in_hand s) = sum_list (map (\<lambda>w. mset (held w)) (threads s))"
  unfolding in_hand_def by (simp add: mset_concat comp_def)

lemma held_wake [simp]: "held (wake_worker w) = held w" and counted_wake [simp]: "counted (wake_worker w) = counted w"
  by (cases w; simp)+

text \<open>How a state changes when a sleeping thread wakes, when all do, and when a worker takes its step.\<close>

definition same_work :: "thread_pool \<Rightarrow> thread_pool \<Rightarrow> bool" where
  "same_work s s' \<longleftrightarrow> task_queue s' = task_queue s \<and> submitted s' = submitted s \<and> taken s' = taken s \<and> executed s' = executed s \<and>
     dropped s' = dropped s \<and> atomic s' = atomic s \<and> terminate s' = terminate s \<and> owner s' = owner s \<and>
     map held (threads s') = map held (threads s) \<and> map counted (threads s') = map counted (threads s) \<and>
     length (threads s') = length (threads s)"

lemma map_update_same: "f y = f (xs ! i) \<Longrightarrow> map f (xs[i := y]) = map f xs"
  by (metis list_update_beyond list_update_id map_update nth_map length_map not_le)

lemma same_work_wake [simp]: "same_work s (wake x s)"
  by (cases x) (simp_all add: same_work_def map_update_same)

lemma same_work_notify_all [simp]: "same_work s (notify_all s)"
  by (simp add: same_work_def notify_all_def comp_def)

lemma notify_one_cases: "notify_one who s = Some s' \<Longrightarrow> (\<exists>x. sleeps s x \<and> s' = wake x s) \<or> nobody_sleeps s \<and> s' = s"
  by (cases who) (auto split: if_splits)

lemma same_work_refl [simp]: "same_work s s"
  by (simp add: same_work_def)

lemma same_work_notify_one: "notify_one who s = Some s' \<Longrightarrow> same_work s s'"
  by (drule notify_one_cases) auto

lemma same_work_mset: "same_work s s' \<Longrightarrow> mset (in_hand s') = mset (in_hand s)"
  by (simp add: same_work_def in_hand_def)

lemma length_wake [simp]: "length (threads (wake x s)) = length (threads s)"
  by (cases x) simp_all

subsection \<open>The invariant of the tasks\<close>

definition tasks_ok :: "thread_pool \<Rightarrow> bool" where
  "tasks_ok s \<longleftrightarrow> taken s @ task_queue s = submitted s \<and>
     mset (taken s) = mset (executed s) + mset (dropped s) + mset (in_hand s) \<and>
     (\<forall>t\<in>set (dropped s). expire_time t \<noteq> 0) \<and>
     atomic s = sum_list (map counted (threads s)) \<and>
     (\<forall>j. owner s = Joining j \<longrightarrow> terminate s \<and> j \<le> length (threads s) \<and> (\<forall>i<j. threads s ! i = Ended))"

lemma ended_same: "same_work s s' \<Longrightarrow> tasks_ok s \<Longrightarrow> (\<forall>i<length (threads s). threads s ! i = Ended \<longrightarrow> threads s' ! i = Ended) \<Longrightarrow> tasks_ok s'"
  unfolding tasks_ok_def by (simp add: same_work_mset) (auto simp: same_work_def)

lemma wake_ended: "i < length (threads s) \<Longrightarrow> threads s ! i = Ended \<Longrightarrow> threads (wake x s) ! i = Ended"
  by (cases x; cases "x = Worker i") auto

lemma notify_ended: "i < length (threads s) \<Longrightarrow> threads s ! i = Ended \<Longrightarrow> threads (notify_all s) ! i = Ended"
  by (simp add: notify_all_def)

lemma tasks_ok_wake: "tasks_ok s \<Longrightarrow> tasks_ok (wake x s)"
  by (rule ended_same [OF same_work_wake]) (auto simp: wake_ended)

lemma tasks_ok_notify_all: "tasks_ok s \<Longrightarrow> tasks_ok (notify_all s)"
  by (rule ended_same [OF same_work_notify_all]) (auto simp: notify_ended)

lemma tasks_ok_notify_one: "notify_one who s = Some s' \<Longrightarrow> tasks_ok s \<Longrightarrow> tasks_ok s'"
  using notify_one_cases tasks_ok_wake by blast

text \<open>A worker's step: the tasks it holds and its count before and after, and what it does to the lists.\<close>

lemma Get_tasks:
  assumes "ThreadPool_Get s = (w, s')"
  shows "threads s' = threads s \<and> atomic s' = atomic s \<and> owner s' = owner s \<and> terminate s' = terminate s \<and> submitted s' = submitted s \<and>
    executed s' = executed s \<and> dropped s' = dropped s \<and> taken s' = taken s @ held w \<and> task_queue s = held w @ task_queue s' \<and>
    counted w = 0 \<and> callers s' = callers s"
  using assms by (auto simp: ThreadPool_Get_def split: if_splits list.splits)

lemma in_hand_update:
  "i < length (threads s) \<Longrightarrow> mset (in_hand (set_worker i w s)) + mset (held (threads s ! i)) = mset (in_hand s) + mset (held w)"
  unfolding mset_in_hand set_worker_def using sum_update [of i "threads s" "\<lambda>w. mset (held w)" w] by simp

lemma set_worker_simps [simp]:
  "task_queue (set_worker i w s) = task_queue s" "submitted (set_worker i w s) = submitted s" "taken (set_worker i w s) = taken s"
  "executed (set_worker i w s) = executed s" "dropped (set_worker i w s) = dropped s" "atomic (set_worker i w s) = atomic s"
  "owner (set_worker i w s) = owner s" "terminate (set_worker i w s) = terminate s" "callers (set_worker i w s) = callers s"
  "now (set_worker i w s) = now s" "thread_num (set_worker i w s) = thread_num s"
  "threads (set_worker i w s) = (threads s)[i := w]"
  by (simp_all add: set_worker_def)

lemma mset_balance:
  fixes I :: "'a multiset"
  assumes "X + H = I + W" "T = E + D + I" "T1 + H + E + D = T + W + E1 + D1"
  shows "T1 = E1 + D1 + X"
proof (rule multiset_eqI)
  fix a
  show "count T1 a = count (E1 + D1 + X) a"
    using assms [THEN arg_cong [where f = "\<lambda>m. count m a"]] by simp
qed

lemma tasks_ok_set_worker:
  assumes "tasks_ok s" "i < length (threads s)" "threads s ! i \<noteq> Ended" "threads s1 = threads s" "owner s1 = owner s" "terminate s1 = terminate s"
    and "taken s1 @ task_queue s1 = submitted s1" "\<forall>t\<in>set (dropped s1). expire_time t \<noteq> 0"
    and "mset (taken s1) + mset (held (threads s ! i)) + mset (executed s) + mset (dropped s) =
      mset (taken s) + mset (held w) + mset (executed s1) + mset (dropped s1)"
    and "atomic s1 + counted (threads s ! i) = atomic s + counted w"
  shows "tasks_ok (set_worker i w s1)"
proof -
  have "in_hand s1 = in_hand s"
    using assms(4) by (simp add: in_hand_def)
  then have "mset (in_hand (set_worker i w s1)) + mset (held (threads s ! i)) = mset (in_hand s) + mset (held w)"
    using in_hand_update [of i s1 w] assms(2,4) by simp
  moreover have "mset (taken s) = mset (executed s) + mset (dropped s) + mset (in_hand s)"
    using assms(1) by (simp add: tasks_ok_def)
  ultimately have "mset (taken s1) = mset (executed s1) + mset (dropped s1) + mset (in_hand (set_worker i w s1))"
    using assms(9) by (rule mset_balance)
  moreover have "sum_list (map counted ((threads s)[i := w])) + counted (threads s ! i) = sum_list (map counted (threads s)) + counted w"
    by (rule sum_update) (rule assms)
  ultimately show ?thesis
    using assms(1-8,10) unfolding tasks_ok_def
    by (auto simp: nth_list_update)
qed

lemma tasks_ok_worker:
  assumes "tasks_ok s" "run_worker i s = Some s'"
  shows "tasks_ok s'"
proof -
  obtain w s1 where i: "i < length (threads s)" and run: "Run (threads s ! i) s = Some (w, s1)" and s': "s' = set_worker i w s1"
    using assms(2) by (auto simp: run_worker_def split: if_splits)
  note set = tasks_ok_set_worker [OF assms(1) i, of s1 w]
  have q: "taken s @ task_queue s = submitted s" "\<forall>t\<in>set (dropped s). expire_time t \<noteq> 0"
    using assms(1) by (auto simp: tasks_ok_def)
  show ?thesis
  proof (cases "threads s ! i")
    case Leaving
    have "tasks_ok s1"
      using run Leaving assms(1) tasks_ok_notify_all by (auto split: if_splits)
    moreover have "w = Looping" "i < length (threads s1)" "threads s1 ! i = Leaving"
      using run Leaving i by (auto simp: notify_all_def split: if_splits)
    ultimately show ?thesis
      using tasks_ok_set_worker [of s1 i s1 Looping] unfolding s' by (simp add: tasks_ok_def)
  next
    case (Counted t)
    then show ?thesis
      using set run q unfolding s' by (auto simp: expired_def split: if_splits)
  qed (use set run q Get_tasks [of s w s1] in \<open>auto simp: s'\<close>)
qed

lemma in_hand_ended: "\<forall>i<length (threads s). threads s ! i = Ended \<Longrightarrow> in_hand s = [] \<and> sum_list (map counted (threads s)) = 0"
proof -
  assume "\<forall>i<length (threads s). threads s ! i = Ended"
  then have "threads s = replicate (length (threads s)) Ended"
    by (simp add: list_eq_iff_nth_eq)
  then show ?thesis
    by (metis (no_types, lifting) concat_replicate_trivial counted.simps(10) held.simps(10) in_hand_def map_replicate sum_list_replicate
        mult_zero_right of_nat_0)
qed

lemma tasks_ok_join:
  assumes "tasks_ok s" "owner s = Joining j" "Stop_join j s = Some s'"
  shows "tasks_ok s'"
proof (cases "j < length (threads s)")
  case True
  then show ?thesis
    using assms by (auto simp: tasks_ok_def Stop_join_def in_hand_def less_Suc_eq split: if_splits)
next
  case False
  then have "j = length (threads s)" "\<forall>i<length (threads s). threads s ! i = Ended"
    using assms(1,2) by (auto simp: tasks_ok_def)
  then show ?thesis
    using assms False in_hand_ended [of s] by (auto simp: tasks_ok_def Stop_join_def in_hand_def)
qed

lemma tasks_ok_set_caller: "tasks_ok (set_caller c x s) = tasks_ok s"
  by (simp add: tasks_ok_def in_hand_def set_caller_def)

lemma tasks_ok_perform:
  assumes "tasks_ok s" "perform e s = Some s'"
  shows "tasks_ok s'"
proof (cases e)
  case (CallExec f ms who)
  have "tasks_ok (s\<lparr>task_queue := task_queue s @ [t], submitted := submitted s @ [t]\<rparr>)" for t
    using assms(1) by (auto simp: tasks_ok_def in_hand_def)
  then show ?thesis
    using assms(2) CallExec tasks_ok_notify_one by (auto simp: Exec_def Let_def)
next
  case CallStop
  have "tasks_ok (s\<lparr>terminate := True\<rparr>)"
    using assms(1) by (auto simp: tasks_ok_def in_hand_def)
  from tasks_ok_notify_all [OF this] show ?thesis
    using assms(2) CallStop by (auto simp: tasks_ok_def in_hand_def Stop_begin_def split: if_splits) (auto simp: notify_all_def)
next
  case CallStart
  then show ?thesis
    using assms by (auto simp: tasks_ok_def in_hand_def Start_def map_replicate_const sum_list_replicate split: if_splits)
next
  case OwnerJoins
  then show ?thesis
    using assms tasks_ok_join by (auto split: owner.splits)
next
  case (CallWait c ms)
  then show ?thesis
    using assms by (auto simp: WaitForAllDone_def tasks_ok_set_caller split: if_splits caller.splits)
next
  case (CallerRuns c)
  then show ?thesis
    using assms by (auto simp: wait_woken_def tasks_ok_set_caller split: if_splits caller.splits)
next
  case (TimeIsOver c)
  then show ?thesis
    using assms by (auto simp: wait_timeout_def tasks_ok_set_caller split: if_splits)
next
  case (WorkerRuns i)
  then show ?thesis
    using assms tasks_ok_worker by simp
next
  case (Spurious x)
  then show ?thesis
    using assms tasks_ok_wake [OF assms(1), of x] by (auto split: if_splits)
qed (use assms in \<open>auto simp: tasks_ok_def in_hand_def ThreadPool_Init_def split: if_splits\<close>)

lemma reachable_tasks: "reachable s \<Longrightarrow> tasks_ok s"
  by (induction rule: reachable.induct) (auto simp: tasks_ok_perform, auto simp: tasks_ok_def ThreadPool_def in_hand_def)

section \<open>No lost notification\<close>

text \<open>A worker that has a task in hand, or has still to look whether all is done.\<close>

fun busy :: "worker \<Rightarrow> bool" where
  "busy (Holding t) = True"
| "busy (Counted t) = True"
| "busy (Running t) = True"
| "busy (Ran t) = True"
| "busy Leaving = True"
| "busy _ = False"

definition awake :: "worker \<Rightarrow> bool" where
  "awake w \<longleftrightarrow> w \<noteq> Asleep \<and> w \<noteq> Ended"

definition waiting :: "thread_pool \<Rightarrow> bool" where
  "waiting s \<longleftrightarrow> (\<exists>t. Waiting t \<in> set (callers s))"

text \<open>
  While the pool runs: work in the queue has a worker that is awake, and a sleeping caller whose work is all taken has a
  worker that will still look and notify.  After \<open>terminate_\<close> is set no worker sleeps.
\<close>

definition attended :: "thread_pool \<Rightarrow> bool" where
  "attended s \<longleftrightarrow>
     (\<not> terminate s \<longrightarrow>
        Ended \<notin> set (threads s) \<and>
        (task_queue s \<noteq> [] \<and> threads s \<noteq> [] \<longrightarrow> (\<exists>w\<in>set (threads s). awake w)) \<and>
        (task_queue s = [] \<and> waiting s \<longrightarrow> (\<exists>w\<in>set (threads s). busy w))) \<and>
     (terminate s \<longrightarrow> Asleep \<notin> set (threads s))"

lemma busy_awake: "busy w \<Longrightarrow> awake w"
  by (cases w) (auto simp: awake_def)

lemma busy_wake [simp]: "busy (wake_worker w) = busy w"
  by (cases w) auto

lemma awake_wake: "w \<noteq> Ended \<Longrightarrow> awake (wake_worker w)"
  by (cases w) (auto simp: awake_def)

lemma wake_worker_eqs [simp]: "wake_worker w \<noteq> Asleep" "wake_worker w = Ended \<longleftrightarrow> w = Ended" "wake_caller c \<noteq> Waiting t"
  by (cases w; simp)+ (cases c; simp)

lemma not_waiting_notify_all [simp]: "\<not> waiting (notify_all s)"
  by (auto simp: waiting_def notify_all_def) (metis wake_worker_eqs(3))

lemma length_notify_all [simp]: "length (threads (notify_all s)) = length (threads s)"
  by (simp add: notify_all_def)

lemma attended_notify_all:
  assumes "attended s"
  shows "attended (notify_all s)"
proof -
  have "awake (wake_worker w)" if "w \<in> set (threads s)" "\<not> terminate s" for w
    using that assms by (intro awake_wake) (auto simp: attended_def)
  then show ?thesis
    using assms unfolding attended_def
    by (auto simp: notify_all_def waiting_def image_iff) (metis image_eqI image_set last_in_set wake_worker_eqs)+
qed

text \<open>What waking one thread leaves.\<close>

lemma wake_threads:
  assumes "sleeps s x"
  shows "terminate (wake x s) = terminate s \<and> task_queue (wake x s) = task_queue s \<and>
    (waiting (wake x s) \<longrightarrow> waiting s) \<and>
    (\<forall>w\<in>set (threads s). busy w \<longrightarrow> w \<in> set (threads (wake x s))) \<and>
    (\<forall>w\<in>set (threads s). awake w \<longrightarrow> w \<in> set (threads (wake x s))) \<and>
    (\<forall>w\<in>set (threads (wake x s)). w = Notified \<or> w \<in> set (threads s))"
proof (cases x)
  case (Worker i)
  then have "i < length (threads s)" "threads s ! i = Asleep"
    using assms by auto
  then have "\<forall>w\<in>set (threads s). w \<noteq> Asleep \<longrightarrow> w \<in> set ((threads s)[i := Notified])"
    by (metis in_set_conv_nth length_list_update nth_list_update_neq)
  moreover have "busy w \<Longrightarrow> w \<noteq> Asleep" for w
    by auto
  ultimately show ?thesis
    using Worker \<open>threads s ! i = Asleep\<close> set_update_subset_insert [of "threads s" i Notified]
    by (auto simp: waiting_def awake_def)
next
  case (Caller c)
  then obtain t where "c < length (callers s)" "callers s ! c = Waiting t"
    using assms by auto
  then show ?thesis
    using Caller set_update_subset_insert [of "callers s" c "Woken t"] by (auto simp: waiting_def)
qed

lemma attended_wake:
  assumes "sleeps s x" "attended s"
  shows "attended (wake x s)"
proof -
  note w = wake_threads [OF assms(1)]
  have ne: "threads (wake x s) \<noteq> [] \<longleftrightarrow> threads s \<noteq> []"
    by (metis length_0_conv length_wake)
  show ?thesis
  proof (cases "terminate s")
    case True
    then have "Asleep \<notin> set (threads s)"
      using assms(2) by (simp add: attended_def)
    then show ?thesis
      using True w unfolding attended_def by (metis worker.distinct(35))
  next
    case False
    then have "Ended \<notin> set (threads (wake x s))"
      using assms(2) w unfolding attended_def by (metis worker.distinct)
    then show ?thesis
      using False w ne assms(2) unfolding attended_def by (metis (no_types, lifting))
  qed
qed

lemma attended_exec:
  assumes "attended s" "Exec f ms who s = Some s'"
  shows "attended s'"
proof -
  obtain t where n: "notify_one who (s\<lparr>task_queue := task_queue s @ [t], submitted := submitted s @ [t]\<rparr>) = Some s'"
    (is "notify_one who ?s = _")
    using assms(2) by (auto simp: Exec_def Let_def)
  note t = same_work_notify_one [OF n, unfolded same_work_def]
  show ?thesis
  proof (cases "terminate s")
    case True
    then have "Asleep \<notin> set (threads s)"
      using assms(1) by (simp add: attended_def)
    then have "Asleep \<notin> set (threads s')"
      using notify_one_cases [OF n] wake_threads [of ?s] by fastforce
    then show ?thesis
      using True t by (simp add: attended_def)
  next
    case False
    then have e: "Ended \<notin> set (threads s)"
      using assms(1) by (simp add: attended_def)
    then have "Ended \<notin> set (threads s')"
      using notify_one_cases [OF n] wake_threads [of ?s] by fastforce
    moreover have "\<exists>w\<in>set (threads s'). awake w" if ne: "threads s \<noteq> []"
      using notify_one_cases [OF n]
    proof
      assume "nobody_sleeps ?s \<and> s' = ?s"
      moreover have "hd (threads s) \<in> set (threads s)"
        using ne by simp
      ultimately show ?thesis
        using e unfolding nobody_sleeps_def list_all_iff awake_def by (intro bexI [of _ "hd (threads s)"]) auto
    next
      assume "\<exists>x. sleeps ?s x \<and> s' = wake x ?s"
      then obtain x where x: "sleeps ?s x" "s' = wake x ?s"
        by blast
      show ?thesis
      proof (cases x)
        case (Worker i)
        then show ?thesis
          using x by (auto simp: awake_def set_update_memI intro!: bexI [of _ Notified])
      next
        case (Caller c)
        then have "waiting s"
          using x(1) by (auto simp: waiting_def) (metis nth_mem)+
        then have "\<exists>w\<in>set (threads s). awake w"
          using assms(1) False ne busy_awake unfolding attended_def by blast
        then show ?thesis
          using Caller x(2) by simp
      qed
    qed
    ultimately show ?thesis
      using False t unfolding attended_def by (simp, metis length_0_conv)
  qed
qed

lemma update_ex: "\<exists>w\<in>set xs. P w \<Longrightarrow> (P (xs ! i) \<Longrightarrow> P w) \<Longrightarrow> \<exists>w\<in>set (xs[i := w]). P w"
  by (metis in_set_conv_nth length_list_update nth_list_update_eq nth_list_update_neq)

text \<open>A worker's step keeps \<open>attended\<close> when its new place is at least as attentive as its old one.\<close>

lemma attended_set_worker:
  assumes "attended s" "i < length (threads s)" "terminate s1 = terminate s" "callers s1 = callers s" "threads s1 = threads s"
    and "\<not> terminate s \<Longrightarrow> w \<noteq> Ended" "terminate s \<Longrightarrow> w \<noteq> Asleep"
    and "\<not> terminate s \<Longrightarrow> task_queue s1 \<noteq> [] \<Longrightarrow> awake w"
    and "\<not> terminate s \<Longrightarrow> task_queue s1 = [] \<Longrightarrow> waiting s \<Longrightarrow> busy w \<or> task_queue s = [] \<and> \<not> busy (threads s ! i)"
  shows "attended (set_worker i w s1)"
proof -
  have sub: "set ((threads s)[i := w]) \<subseteq> insert w (set (threads s))" and mem: "w \<in> set ((threads s)[i := w])"
    using assms(2) by (simp_all add: set_update_subset_insert set_update_memI)
  have "waiting (set_worker i w s1) = waiting s"
    using assms(4) by (simp add: waiting_def)
  moreover have "\<exists>w\<in>set ((threads s)[i := w]). busy w" if "\<not> terminate s" "task_queue s1 = []" "waiting s"
    using assms(1,9) that mem update_ex [of "threads s" busy i w] unfolding attended_def by blast
  ultimately show ?thesis
    using assms(1,3-8) sub mem unfolding attended_def by auto
qed

lemma counted_busy: "counted w \<noteq> 0 \<Longrightarrow> busy w" "counted w \<ge> 0"
  by (cases w; simp)+

lemma Get_attends:
  assumes "ThreadPool_Get s = (w, s1)"
  shows "w \<noteq> Ended" "terminate s \<Longrightarrow> w \<noteq> Asleep" "\<not> terminate s \<Longrightarrow> task_queue s1 \<noteq> [] \<Longrightarrow> awake w"
    and "\<not> terminate s \<Longrightarrow> task_queue s1 = [] \<Longrightarrow> busy w \<or> task_queue s = []"
  using assms by (auto simp: ThreadPool_Get_def awake_def split: if_splits list.splits)

lemma attended_worker:
  assumes "attended s" "tasks_ok s" "run_worker i s = Some s'"
  shows "attended s'"
proof -
  obtain w s1 where i: "i < length (threads s)" and run: "Run (threads s ! i) s = Some (w, s1)" and s': "s' = set_worker i w s1"
    using assms(3) by (auto simp: run_worker_def split: if_splits)
  note set = attended_set_worker [OF assms(1) i, of s1 w]
  show ?thesis
  proof (cases "threads s ! i")
    case Leaving
    show ?thesis
    proof (cases "atomic s = 0 \<and> task_queue s = []")
      case True
      then have "s1 = notify_all s" "w = Looping"
        using run Leaving by auto
      then show ?thesis
        using attended_set_worker [OF attended_notify_all [OF assms(1)], of i s1 w] i
        unfolding s' by (simp add: awake_def)
    next
      case False
      then have s1: "s1 = s" "w = Looping"
        using run Leaving by auto
      have "\<exists>w\<in>set (threads s). counted w \<noteq> 0" if "atomic s \<noteq> 0"
        using that assms(2) sum_list_nonneg_eq_0_iff [of "map counted (threads s)"] counted_busy(2) by (auto simp: tasks_ok_def)
      then have "\<exists>w\<in>set ((threads s)[i := Looping]). counted w \<noteq> 0" if "atomic s \<noteq> 0"
        using that Leaving update_ex [of "threads s" "\<lambda>w. counted w \<noteq> 0" i Looping] by fastforce
      then have "\<exists>w\<in>set ((threads s)[i := Looping]). busy w" if "task_queue s = []"
        using False that counted_busy(1) by blast
      moreover have "set ((threads s)[i := w]) \<subseteq> insert w (set (threads s))" "w \<in> set ((threads s)[i := w])"
        using i by (simp_all add: set_update_subset_insert set_update_memI)
      ultimately show ?thesis
        using assms(1) unfolding s' s1 attended_def by (auto simp: awake_def waiting_def)
    qed
  next
    case Getting
    then show ?thesis
      using run Get_tasks [of s w s1] Get_attends [of s w s1] unfolding s' by (intro set) auto
  next
    case Notified
    then show ?thesis
      using run Get_tasks [of s w s1] Get_attends [of s w s1] unfolding s' by (intro set) auto
  qed (use run in \<open>auto simp: s' awake_def split: if_splits intro!: attended_set_worker [OF assms(1) i]\<close>)
qed

lemma attended_set_caller:
  assumes "attended s" "\<And>t. x = Waiting t \<Longrightarrow> waiting s \<or> task_queue s \<noteq> []"
  shows "attended (set_caller c x s)"
proof -
  have "waiting (set_caller c x s) \<Longrightarrow> waiting s \<or> task_queue s \<noteq> []"
    using assms(2) set_update_subset_insert [of "callers s" c x] by (auto simp: waiting_def set_caller_def)
  then show ?thesis
    using assms(1) unfolding attended_def by (auto simp: set_caller_def)
qed

lemma attended_perform:
  assumes "attended s" "tasks_ok s" "perform e s = Some s'"
  shows "attended s'"
proof (cases e)
  case CallStop
  have "Asleep \<notin> set (threads (Stop_begin s))"
    by (auto simp: Stop_begin_def notify_all_def) (metis wake_worker_eqs(1))
  then show ?thesis
    using assms(3) CallStop by (auto simp: attended_def Stop_begin_def notify_all_def split: if_splits)
next
  case CallStart
  then show ?thesis
    using assms by (auto simp: attended_def waiting_def Start_def awake_def split: if_splits)
next
  case OwnerJoins
  then have "terminate s"
    using assms by (auto simp: tasks_ok_def split: owner.splits)
  then show ?thesis
    using OwnerJoins assms by (auto simp: attended_def Stop_join_def split: owner.splits if_splits)
next
  case (CallExec f ms who)
  then show ?thesis
    using assms attended_exec by auto
next
  case (CallWait c ms)
  then show ?thesis
    using assms by (auto simp: WaitForAllDone_def intro!: attended_set_caller split: if_splits caller.splits)
next
  case (CallerRuns c)
  then show ?thesis
    using assms by (auto simp: wait_woken_def intro!: attended_set_caller split: if_splits caller.splits)
next
  case (TimeIsOver c)
  then show ?thesis
    using assms by (auto simp: wait_timeout_def intro!: attended_set_caller split: if_splits)
next
  case (WorkerRuns i)
  then show ?thesis
    using assms attended_worker by simp
next
  case (Spurious x)
  then show ?thesis
    using assms attended_wake [of s x] by (auto split: if_splits)
qed (use assms in \<open>auto simp: attended_def waiting_def ThreadPool_Init_def split: if_splits\<close>)

lemma reachable_attended: "reachable s \<Longrightarrow> attended s"
proof (induction rule: reachable.induct)
  case (created k)
  then show ?case
    by (auto simp: attended_def ThreadPool_def waiting_def)
qed (auto intro: attended_perform reachable_tasks)

section \<open>The work that is left\<close>

text \<open>
  The steps a pool takes by itself once nobody calls it: those of the workers, of the callers that were notified and of
  the owner inside \<open>Stop\<close>.  A worker's rank bounds the steps it can take before it has to sleep or takes a task.
\<close>

fun own_step :: "call \<Rightarrow> bool" where
  "own_step (WorkerRuns i) = True"
| "own_step (CallerRuns c) = True"
| "own_step OwnerJoins = True"
| "own_step _ = False"

fun rank :: "bool \<Rightarrow> worker \<Rightarrow> nat" where
  "rank stop Looping = (if stop then 1 else 8)"
| "rank stop Getting = 7"
| "rank stop Notified = 7"
| "rank stop (Holding t) = 6"
| "rank stop (Counted t) = 5"
| "rank stop (Running t) = 4"
| "rank stop (Ran t) = 3"
| "rank stop Leaving = 2"
| "rank stop Asleep = 0"
| "rank stop Ended = 0"

fun woken :: "caller \<Rightarrow> nat" where
  "woken (Woken t) = 1"
| "woken _ = 0"

definition joins :: "thread_pool \<Rightarrow> nat" where
  "joins s = (case owner s of Joining j \<Rightarrow> length (threads s) - j + 1 | Free \<Rightarrow> 0)"

definition steps_left :: "thread_pool \<Rightarrow> nat" where
  "steps_left s = sum_list (map (rank (terminate s)) (threads s)) + sum_list (map woken (callers s)) + joins s"

definition tasks_left :: "thread_pool \<Rightarrow> nat" where
  "tasks_left s = length (task_queue s) + sum_list (map (\<lambda>w. of_bool (busy w)) (threads s))"

definition round_length :: "thread_pool \<Rightarrow> nat" where
  "round_length s = 9 * length (threads s) + length (callers s) + 2"

definition effort :: "thread_pool \<Rightarrow> nat" where
  "effort s = tasks_left s * round_length s + steps_left s"

text \<open>No step of the pool's own is possible.\<close>

definition quiet :: "thread_pool \<Rightarrow> bool" where
  "quiet s \<longleftrightarrow> list_all (\<lambda>w. w \<in> {Asleep, Ended}) (threads s) \<and> list_all (\<lambda>c. woken c = 0) (callers s) \<and>
     (case owner s of Joining j \<Rightarrow> j < length (threads s) \<and> threads s ! j \<noteq> Ended | Free \<Rightarrow> True)"

lemma Run_None: "Run w s = None \<longleftrightarrow> w \<in> {Asleep, Ended}"
  by (cases w) (auto simp: expired_def)

lemma quiet_iff: "quiet s \<longleftrightarrow> (\<forall>e. own_step e \<longrightarrow> perform e s = None)"
proof
  assume q: "quiet s"
  have "Run (threads s ! i) s = None" if "i < length (threads s)" for i
    using q that by (auto simp: quiet_def list_all_length Run_None)
  moreover have "callers s ! c \<noteq> Woken t" if "c < length (callers s)" for c t
    using q that by (auto simp: quiet_def list_all_length)
  ultimately have "perform e s = None" if "own_step e" for e
    using q that by (cases e)
      (auto simp: quiet_def run_worker_def Stop_join_def split: caller.splits owner.splits if_splits)
  then show "\<forall>e. own_step e \<longrightarrow> perform e s = None"
    by blast
next
  assume n: "\<forall>e. own_step e \<longrightarrow> perform e s = None"
  have "threads s ! i \<in> {Asleep, Ended}" if "i < length (threads s)" for i
    using n [rule_format, of "WorkerRuns i"] that by (simp add: run_worker_def Run_None)
  moreover have "woken (callers s ! c) = 0" if "c < length (callers s)" for c
    using n [rule_format, of "CallerRuns c"] that by (cases "callers s ! c") simp_all
  ultimately show "quiet s"
    using n [rule_format, of OwnerJoins]
    by (auto simp: quiet_def list_all_length Stop_join_def split: owner.splits if_splits)
qed

lemma sum_list_le: "\<forall>x\<in>set xs. f x \<le> (k::nat) \<Longrightarrow> sum_list (map f xs) \<le> k * length xs"
  by (induction xs) auto

lemma steps_left_bound: "steps_left s < round_length s"
proof -
  have "\<forall>w\<in>set (threads s). rank (terminate s) w \<le> 8"
  proof
    fix w show "rank (terminate s) w \<le> 8" by (cases w) auto
  qed
  moreover have "\<forall>c\<in>set (callers s). woken c \<le> 1"
  proof
    fix c show "woken c \<le> 1" by (cases c) auto
  qed
  ultimately have "sum_list (map (rank (terminate s)) (threads s)) \<le> 8 * length (threads s)"
    "sum_list (map woken (callers s)) \<le> 1 * length (callers s)"
    by (blast intro: sum_list_le)+
  then show ?thesis
    by (auto simp: steps_left_def round_length_def joins_def split: owner.splits)
qed

lemma effort_less:
  assumes "tasks_left s' < tasks_left s \<or> tasks_left s' = tasks_left s \<and> steps_left s' < steps_left s"
    and "round_length s' = round_length s"
  shows "effort s' < effort s"
  using assms(1)
proof
  assume "tasks_left s' < tasks_left s"
  then have "(tasks_left s' + 1) * round_length s \<le> tasks_left s * round_length s"
    by (intro mult_le_mono1) simp
  then show ?thesis
    using steps_left_bound [of s'] assms(2) by (simp add: effort_def)
qed (simp add: effort_def assms(2))

lemma effort_set_worker:
  assumes "i < length (threads s)" "threads s1 = threads s" "callers s1 = callers s" "owner s1 = owner s" "terminate s1 = terminate s"
    and "length (task_queue s1) + of_bool (busy w) < length (task_queue s) + of_bool (busy (threads s ! i)) \<or>
      length (task_queue s1) + of_bool (busy w) = length (task_queue s) + of_bool (busy (threads s ! i)) \<and>
      rank (terminate s) w < rank (terminate s) (threads s ! i)"
  shows "effort (set_worker i w s1) < effort s"
proof (rule effort_less)
  have "sum_list (map (\<lambda>w. of_bool (busy w)) ((threads s)[i := w])) + of_bool (busy (threads s ! i)) =
      sum_list (map (\<lambda>w. of_bool (busy w)) (threads s)) + (of_bool (busy w) :: nat)"
    by (rule sum_update) (rule assms)
  moreover have "sum_list (map (rank (terminate s)) ((threads s)[i := w])) + rank (terminate s) (threads s ! i) =
      sum_list (map (rank (terminate s)) (threads s)) + rank (terminate s) w"
    by (rule sum_update) (rule assms)
  moreover have "joins (set_worker i w s1) = joins s"
    using assms by (cases "owner s") (simp_all add: joins_def)
  ultimately show "tasks_left (set_worker i w s1) < tasks_left s \<or>
      tasks_left (set_worker i w s1) = tasks_left s \<and> steps_left (set_worker i w s1) < steps_left s"
    using assms(2-6) unfolding tasks_left_def steps_left_def by auto
qed (use assms in \<open>simp add: round_length_def\<close>)

lemma Get_effort:
  assumes "ThreadPool_Get s = (w, s1)"
  shows "length (task_queue s1) + of_bool (busy w) = length (task_queue s)" "rank (terminate s) w < 7"
  using assms by (auto simp: ThreadPool_Get_def split: if_splits list.splits)

lemma effort_worker:
  assumes "run_worker i s = Some s'"
  shows "effort s' < effort s"
proof -
  obtain w s1 where i: "i < length (threads s)" and run: "Run (threads s ! i) s = Some (w, s1)" and s': "s' = set_worker i w s1"
    using assms(1) by (auto simp: run_worker_def split: if_splits)
  show ?thesis
  proof (cases "threads s ! i")
    case Leaving
    have "map (\<lambda>w. of_bool (busy w) :: nat) (threads s1) = map (\<lambda>w. of_bool (busy w)) (threads s)" "threads s1 ! i = Leaving"
      "task_queue s1 = task_queue s" "length (callers s1) = length (callers s)" "length (threads s1) = length (threads s)"
      using run Leaving i by (auto simp: notify_all_def comp_def split: if_splits)
    moreover have "w = Looping"
      using run Leaving by auto
    ultimately have "tasks_left s' < tasks_left s" "round_length s' = round_length s"
      using i Leaving sum_update [of i "threads s1" "\<lambda>w. of_bool (busy w) :: nat" Looping]
      unfolding s' by (simp_all add: tasks_left_def round_length_def)
    then show ?thesis
      using effort_less by blast
  next
    case Getting
    then show ?thesis
      using run Get_tasks [of s w s1] Get_effort [of s w s1] unfolding s' by (intro effort_set_worker) (auto simp: i)
  next
    case Notified
    then show ?thesis
      using run Get_tasks [of s w s1] Get_effort [of s w s1] unfolding s' by (intro effort_set_worker) (auto simp: i)
  qed (use run i in \<open>auto simp: s' split: if_splits intro!: effort_set_worker\<close>)
qed

lemma effort_caller:
  assumes "c < length (callers s)" "callers s ! c = Woken t"
  shows "effort (wait_woken c t s) < effort s"
proof (rule effort_less)
  have "sum_list (map woken ((callers s)[c := x])) + woken (callers s ! c) = sum_list (map woken (callers s)) + woken x" for x
    by (rule sum_update) (rule assms)
  from this [of "Returned True"] this [of "Waiting t"]
  show "tasks_left (wait_woken c t s) < tasks_left s \<or>
      tasks_left (wait_woken c t s) = tasks_left s \<and> steps_left (wait_woken c t s) < steps_left s"
    using assms by (cases "owner s") (auto simp: wait_woken_def set_caller_def tasks_left_def steps_left_def joins_def)
qed (simp add: wait_woken_def set_caller_def round_length_def)

lemma effort_joins:
  assumes "owner s = Joining j" "Stop_join j s = Some s'"
  shows "effort s' < effort s"
proof (cases "j < length (threads s)")
  case True
  then show ?thesis
    using assms by (intro effort_less)
      (auto simp: Stop_join_def tasks_left_def steps_left_def round_length_def joins_def split: if_splits)
next
  case False
  then have "s' = s\<lparr>threads := [], owner := Free\<rparr>"
    using assms by (simp add: Stop_join_def)
  then have "tasks_left s' \<le> tasks_left s" "round_length s' \<le> round_length s" "steps_left s' < steps_left s"
    using assms(1) by (auto simp: tasks_left_def steps_left_def round_length_def joins_def)
  then show ?thesis
    unfolding effort_def by (meson add_le_less_mono mult_le_mono)
qed

lemma effort_own_step: "own_step e \<Longrightarrow> perform e s = Some s' \<Longrightarrow> effort s' < effort s"
  by (cases e) (auto intro: effort_worker effort_caller effort_joins split: if_splits caller.splits owner.splits)

lemma own_steps_end: "performs es s = Some s' \<Longrightarrow> list_all own_step es \<Longrightarrow> length es + effort s' \<le> effort s"
proof (induction es arbitrary: s)
  case (Cons e es)
  then show ?case
    using effort_own_step [of e s] by (fastforce split: option.splits)
qed simp

lemma Run_keeps: "Run w s = Some (w', s') \<Longrightarrow>
    terminate s' = terminate s \<and> submitted s' = submitted s \<and> owner s' = owner s \<and> length (threads s') = length (threads s)"
  using Get_tasks [of s w' s'] by (cases w) (auto simp: notify_all_def split: if_splits)

lemma own_step_terminate: "own_step e \<Longrightarrow> perform e s = Some s' \<Longrightarrow> terminate s' = terminate s \<and> submitted s' = submitted s"
proof -
  assume "own_step e" "perform e s = Some s'"
  then show ?thesis
    by (cases e) (auto simp: run_worker_def Stop_join_def wait_woken_def set_caller_def split: if_splits caller.splits owner.splits
        dest!: Run_keeps)
qed

text \<open>What own steps keep: the flag, the submitted tasks, and that \<open>Stop\<close> is either under way or has cleared the threads.\<close>

lemma own_steps_keep:
  "performs es s = Some s' \<Longrightarrow> list_all own_step es \<Longrightarrow>
     terminate s' = terminate s \<and> submitted s' = submitted s \<and> (threads s = [] \<longrightarrow> threads s' = []) \<and>
     (owner s \<noteq> Free \<longrightarrow> owner s' \<noteq> Free \<or> threads s' = [])"
proof (induction es arbitrary: s)
  case (Cons e es)
  then obtain s1 where e: "own_step e" "perform e s = Some s1" and es: "performs es s1 = Some s'" "list_all own_step es"
    by (auto split: option.splits)
  have "(threads s = [] \<longrightarrow> threads s1 = []) \<and> (owner s \<noteq> Free \<longrightarrow> owner s1 \<noteq> Free \<or> threads s1 = [])"
    using e by (cases e) (auto simp: run_worker_def Stop_join_def wait_woken_def set_caller_def
        split: if_splits caller.splits owner.splits dest!: Run_keeps)
  then show ?case
    using own_step_terminate [OF e] Cons.IH [OF es] by auto
qed simp

lemma own_steps_nonempty:
  "performs es s = Some s' \<Longrightarrow> list_all own_step es \<Longrightarrow> owner s = Free \<Longrightarrow> length (threads s') = length (threads s) \<and> owner s' = Free"
proof (induction es arbitrary: s)
  case (Cons e es)
  then obtain s1 where e: "own_step e" "perform e s = Some s1" and es: "performs es s1 = Some s'" "list_all own_step es"
    by (auto split: option.splits)
  have "length (threads s1) = length (threads s) \<and> owner s1 = Free"
    using e Cons.prems(3) by (cases e) (auto simp: run_worker_def wait_woken_def set_caller_def
        split: if_splits caller.splits dest!: Run_keeps)
  then show ?case
    using Cons.IH [OF es] by auto
qed simp

lemma quiet_in_hand: "quiet s \<Longrightarrow> in_hand s = []"
  by (auto simp: quiet_def in_hand_def list_all_iff)

lemma Joining_terminate: "reachable s \<Longrightarrow> owner s \<noteq> Free \<Longrightarrow> terminate s"
  using reachable_tasks by (cases "owner s") (auto simp: tasks_ok_def)

section \<open>The properties\<close>

text \<open>A pool of two workers with one waiting caller: three tasks, one of them with a time limit that is over.\<close>

definition demo_calls :: "call list" where
  "demo_calls =
     [CallInit 2, CallStart, WorkerRuns 0, WorkerRuns 0, WorkerRuns 1, WorkerRuns 1,
      CallExec 7 0 (Some (Worker 1)), CallExec 8 5 (Some (Worker 0)), CallWait 0 (-1), Clock 9,
      WorkerRuns 1, WorkerRuns 1, WorkerRuns 1, WorkerRuns 0, WorkerRuns 0, WorkerRuns 0, CallExec 9 0 (Some (Caller 0))]"

definition demo_run :: "call list" where
  "demo_run =
     [CallerRuns 0, WorkerRuns 0, WorkerRuns 0, WorkerRuns 0, WorkerRuns 0, WorkerRuns 0, WorkerRuns 0, WorkerRuns 0,
      WorkerRuns 0, WorkerRuns 0, WorkerRuns 0, WorkerRuns 0, WorkerRuns 1, WorkerRuns 1, WorkerRuns 1, WorkerRuns 1, WorkerRuns 1,
      WorkerRuns 0, CallerRuns 0]"

definition demo_pool :: thread_pool where
  "demo_pool = (case performs demo_calls (ThreadPool 1) of Some s \<Rightarrow> s | None \<Rightarrow> ThreadPool 1)"

lemma demo_pool_reachable: "reachable demo_pool"
  unfolding demo_pool_def by (auto split: option.splits intro: created performs_reachable)



text \<open>C15: No notification is lost, although workers and callers of \<open>WaitForAllDone\<close> sleep on one condition variable and
  \<open>notify_one\<close> may wake any of them: from any state a running pool reaches, every schedule of its own steps is finite
  (\<open>effort\<close> bounds its length), and where none is possible any more the queue is empty, every submitted task was executed
  or dropped, and no caller of \<open>WaitForAllDone\<close> sleeps.
\<close>

theorem work_gets_done:
  assumes "reachable s" "\<not> terminate s" "threads s \<noteq> []" "list_all own_step es" "performs es s = Some s'"
  shows "length es \<le> effort s \<and>
    (quiet s' \<longrightarrow> task_queue s' = [] \<and> mset (executed s') + mset (dropped s') = mset (submitted s) \<and> \<not> waiting s')"
proof (intro conjI impI)
  show "length es \<le> effort s"
    using own_steps_end [OF assms(5,4)] by simp
  assume q: "quiet s'"
  have r: "reachable s'"
    by (rule performs_reachable [OF assms(1,5)])
  have "owner s = Free"
    using Joining_terminate assms(1,2) by blast
  then have run: "threads s' \<noteq> []" "\<not> terminate s'" "submitted s' = submitted s"
    using own_steps_keep [OF assms(5,4)] own_steps_nonempty [OF assms(5,4)] assms(2,3) by auto
  have "\<not> awake w" if "w \<in> set (threads s')" for w
    using q that by (auto simp: quiet_def list_all_iff awake_def)
  then have "task_queue s' = [] \<and> \<not> waiting s'"
    using reachable_attended [OF r] run busy_awake unfolding attended_def by blast
  then show "task_queue s' = []" "\<not> waiting s'"
    by simp_all
  then show "mset (executed s') + mset (dropped s') = mset (submitted s)"
    using reachable_tasks [OF r] quiet_in_hand [OF q] run(3) by (auto simp: tasks_ok_def)
qed

lemma work_gets_done_witness:
  "length demo_run \<le> effort demo_pool \<and>
   (case performs demo_run demo_pool of
      Some s \<Rightarrow> quiet s \<and> task_queue s = [] \<and> map ident (executed s) = [9, 7] \<and> map ident (dropped s) = [8] \<and> callers s = [Returned True]
    | None \<Rightarrow> False)"
proof -
  have "\<not> terminate demo_pool" "threads demo_pool \<noteq> []" "list_all own_step demo_run"
    by code_simp+
  then have "length demo_run \<le> effort demo_pool" if "performs demo_run demo_pool = Some s'" for s'
    using work_gets_done [OF demo_pool_reachable _ _ _ that] by blast
  moreover have "case performs demo_run demo_pool of
      Some s \<Rightarrow> quiet s \<and> task_queue s = [] \<and> map ident (executed s) = [9, 7] \<and> map ident (dropped s) = [8] \<and> callers s = [Returned True]
    | None \<Rightarrow> False"
    by code_simp
  ultimately show ?thesis
    by (auto split: option.splits)
qed

lemma no_task_after_stop:
  assumes "terminate s" "perform e s = Some s'"
  shows "terminate s' \<and> taken s' = taken s \<and> (\<exists>more. task_queue s' = task_queue s @ more)"
proof (cases e)
  case (CallExec f ms who)
  then show ?thesis
    using assms same_work_notify_one by (fastforce simp: Exec_def Let_def same_work_def)
next
  case (WorkerRuns i)
  then obtain w s1 where "Run (threads s ! i) s = Some (w, s1)" and s': "s' = set_worker i w s1"
    using assms(2) by (auto simp: run_worker_def split: if_splits)
  then show ?thesis
    using assms(1) by (cases "threads s ! i") (auto simp: ThreadPool_Get_def notify_all_def split: if_splits)
next
  case (Spurious x)
  then show ?thesis
    using assms same_work_wake [of s x] by (auto simp: same_work_def split: if_splits)
qed (use assms in \<open>auto simp: ThreadPool_Init_def Start_def Stop_begin_def Stop_join_def notify_all_def WaitForAllDone_def
    wait_woken_def wait_timeout_def set_caller_def split: if_splits owner.splits caller.splits\<close>)

lemma no_tasks_after_stop:
  "terminate s \<Longrightarrow> performs es s = Some s' \<Longrightarrow> terminate s' \<and> taken s' = taken s \<and> (\<exists>more. task_queue s' = task_queue s @ more)"
proof (induction es arbitrary: s)
  case (Cons e es)
  then obtain s1 where e: "perform e s = Some s1" and es: "performs es s1 = Some s'"
    by (auto split: option.splits)
  then show ?case
    using no_task_after_stop [OF Cons.prems(1) e] Cons.IH [OF _ es] by auto
qed auto

text \<open>C27: \<open>Stop\<close> returns once the functions that are running return: from any state inside it every schedule of own steps is
  finite and, where none is possible any more, all threads have been joined and deleted; no task is taken meanwhile, and
  each one taken before was executed or dropped.
\<close>

theorem stop_returns:
  assumes "reachable s" "owner s \<noteq> Free" "list_all own_step es" "performs es s = Some s'"
  shows "length es \<le> effort s \<and> taken s' = taken s \<and>
    (quiet s' \<longrightarrow> owner s' = Free \<and> threads s' = [] \<and> mset (executed s') + mset (dropped s') = mset (taken s))"
proof (intro conjI impI)
  show "length es \<le> effort s"
    using own_steps_end [OF assms(4,3)] by simp
  have t: "terminate s'" "taken s' = taken s"
    using no_tasks_after_stop [OF Joining_terminate [OF assms(1,2)] assms(4)] by auto
  then show "taken s' = taken s"
    by simp
  assume q: "quiet s'"
  have r: "reachable s'"
    by (rule performs_reachable [OF assms(1,4)])
  then have "\<forall>w\<in>set (threads s'). w = Ended"
    using q t(1) reachable_attended [OF r] by (auto simp: attended_def quiet_def list_all_iff)
  then show f: "owner s' = Free"
    using q by (cases "owner s'") (auto simp: quiet_def)
  then show "threads s' = []"
    using own_steps_keep [OF assms(4,3)] assms(2) by simp
  show "mset (executed s') + mset (dropped s') = mset (taken s)"
    using reachable_tasks [OF r] quiet_in_hand [OF q] t(2) by (auto simp: tasks_ok_def)
qed

definition stop_pool :: thread_pool where
  "stop_pool = Stop_begin demo_pool"

definition stop_run :: "call list" where
  "stop_run =
     [WorkerRuns 0, CallerRuns 0, WorkerRuns 0, WorkerRuns 0, OwnerJoins, WorkerRuns 1, WorkerRuns 1, WorkerRuns 1, WorkerRuns 1,
      OwnerJoins, OwnerJoins]"

lemma stop_pool_reachable: "reachable stop_pool"
proof -
  have "perform CallStop demo_pool = Some stop_pool"
    by code_simp
  then show ?thesis
    by (rule performed [OF demo_pool_reachable])
qed

lemma stop_returns_witness:
  "length stop_run \<le> effort stop_pool \<and>
   (case performs stop_run stop_pool of
      Some s \<Rightarrow> quiet s \<and> owner s = Free \<and> threads s = [] \<and> map ident (executed s) = [7] \<and> map ident (task_queue s) = [9]
    | None \<Rightarrow> False)"
proof -
  have "owner stop_pool \<noteq> Free" "list_all own_step stop_run"
    by code_simp+
  then have "length stop_run \<le> effort stop_pool" if "performs stop_run stop_pool = Some s'" for s'
    using stop_returns [OF stop_pool_reachable _ _ that] by blast
  moreover have "case performs stop_run stop_pool of
      Some s \<Rightarrow> quiet s \<and> owner s = Free \<and> threads s = [] \<and> map ident (executed s) = [7] \<and> map ident (task_queue s) = [9]
    | None \<Rightarrow> False"
    by code_simp
  ultimately show ?thesis
    by (auto split: option.splits)
qed

text \<open>A call of \<open>WaitForAllDone\<close> returns true while a function is still running: only the queue is looked at.\<close>

lemma wait_returns_early:
  "\<exists>es s. performs es (ThreadPool 1) = Some s \<and> callers s = [Returned True] \<and> threads s = [Running \<lparr>ident = 7, expire_time = 0\<rparr>]"
proof -
  let ?es = "[CallStart, CallExec 7 0 None, WorkerRuns 0, WorkerRuns 0, WorkerRuns 0, WorkerRuns 0, CallWait 0 (-1)]"
  have "case performs ?es (ThreadPool 1) of
      Some s \<Rightarrow> callers s = [Returned True] \<and> threads s = [Running \<lparr>ident = 7, expire_time = 0\<rparr>] | None \<Rightarrow> False"
    by code_simp
  then obtain s where "performs ?es (ThreadPool 1) = Some s" "callers s = [Returned True]"
    "threads s = [Running \<lparr>ident = 7, expire_time = 0\<rparr>]"
    by (cases "performs ?es (ThreadPool 1)") simp_all
  then show ?thesis
    by blast
qed

text \<open>A caller without a time limit, sleeping or notified.\<close>

definition in_wait :: "nat \<Rightarrow> thread_pool \<Rightarrow> bool" where
  "in_wait c s \<longleftrightarrow> c < length (callers s) \<and> callers s ! c \<in> {Waiting False, Woken False}"

lemma in_wait_wake: "in_wait c s \<Longrightarrow> in_wait c (wake x s)"
  by (cases x; cases "x = Caller c") (auto simp: in_wait_def)

lemma in_wait_notify_all: "in_wait c s \<Longrightarrow> in_wait c (notify_all s)"
  by (auto simp: in_wait_def notify_all_def)

lemma in_wait_perform:
  assumes "in_wait c s" "task_queue s \<noteq> []" "perform e s = Some s'"
  shows "in_wait c s'"
proof (cases e)
  case (CallExec f ms who)
  then obtain t where n: "notify_one who (s\<lparr>task_queue := task_queue s @ [t], submitted := submitted s @ [t]\<rparr>) = Some s'"
    (is "notify_one who ?s = _")
    using assms(3) by (auto simp: Exec_def Let_def)
  have "in_wait c ?s"
    using assms(1) by (simp add: in_wait_def)
  then show ?thesis
    using notify_one_cases [OF n] in_wait_wake by blast
next
  case CallStop
  then show ?thesis
    using assms(1,3) in_wait_notify_all [of c "s\<lparr>terminate := True\<rparr>"]
    by (auto simp: Stop_begin_def in_wait_def split: if_splits)
next
  case (WorkerRuns i)
  then obtain w s1 where run: "Run (threads s ! i) s = Some (w, s1)" and s': "s' = set_worker i w s1"
    using assms(3) by (auto simp: run_worker_def split: if_splits)
  have "in_wait c s1"
    using run assms(1) in_wait_notify_all Get_tasks [of s w s1]
    by (cases "threads s ! i") (auto simp: in_wait_def split: if_splits)
  then show ?thesis
    unfolding s' by (simp add: in_wait_def)
next
  case (Spurious x)
  then show ?thesis
    using assms in_wait_wake [of c s x] by (auto split: if_splits)
qed (use assms in \<open>auto simp: in_wait_def ThreadPool_Init_def Start_def Stop_join_def WaitForAllDone_def
    wait_woken_def wait_timeout_def set_caller_def nth_list_update split: if_splits owner.splits caller.splits\<close>)



end
