(* ===== verification/AsyncClient.thy ===== *)
theory AsyncClient
  imports Async Context TextUtil
begin

text \<open>
  The asynchronous client of src/redis/async.c: commands with callbacks, subscriptions, the handlers an event library
  calls when the socket is ready, and the ways a connection ends.

  The functions of the application (callbacks of replies, of the connection and its end) are fields of \<open>app\<close> that act on
  the whole state, so that they may call the client again; the hooks of the event library are only recorded.  The
  context is freed in its state: a use after that is the fault \<open>UseAfterFree\<close>.  The loops run functions of the
  application and may never end, then they are the fault \<open>Diverges\<close>.
\<close>

unbundle bit_operations_syntax

section \<open>The state\<close>

datatype hook = AddRead | DelRead | AddWrite | DelWrite | Cleanup

text \<open>A list of callbacks with its head and tail is a list; \<open>ac_ev\<close> tells which hooks are set.\<close>

record redisAsyncContext =
  ac_c :: redisContext
  ac_err :: int
  ac_errstr :: string
  ac_ev :: "hook \<Rightarrow> bool"
  ac_onDisconnect :: "nat option"
  ac_onConnect :: "nat option"
  ac_replies :: "redisCallback list"
  ac_invalid :: "redisCallback list"
  ac_channels :: callback_dict
  ac_patterns :: callback_dict

text \<open>\<open>hooks\<close> and \<open>runs\<close> record the calls of hooks and of callbacks, with the reply and the heap they saw.\<close>

record async =
  actx :: redisAsyncContext
  freed :: bool
  wd :: world
  hooks :: "hook list"
  runs :: "(redisCallback \<times> nat \<times> heap) list"

text \<open>\<open>redisCheckSocketError\<close> of net.c tells, when it fails, whether \<open>connect\<close> is still in progress.\<close>

record app =
  memory :: allocator
  errtext :: "errno \<Rightarrow> string"
  callback :: "nat \<Rightarrow> nat \<Rightarrow> nat \<Rightarrow> async \<Rightarrow> async res"
  notify :: "nat \<Rightarrow> redis_status \<Rightarrow> async \<Rightarrow> async res"
  check_socket :: "redisContext \<Rightarrow> world \<Rightarrow> (redis_status \<times> bool \<times> redisContext \<times> world) res"

definition on_ac :: "(redisAsyncContext \<Rightarrow> redisAsyncContext) \<Rightarrow> async \<Rightarrow> async" where
  "on_ac f st = st\<lparr>actx := f (actx st)\<rparr>"

definition on_c :: "(redisContext \<Rightarrow> redisContext) \<Rightarrow> async \<Rightarrow> async" where
  "on_c f = on_ac (\<lambda>ac. ac\<lparr>ac_c := f (ac_c ac)\<rparr>)"

definition flag_on :: "async \<Rightarrow> flags \<Rightarrow> bool" where
  "flag_on st b = has_flag (c_flags (ac_c (actx st))) b"

definition set_flag :: "flags \<Rightarrow> async \<Rightarrow> async" where
  "set_flag b = on_c (\<lambda>c. c\<lparr>c_flags := c_flags c OR b\<rparr>)"

definition clear_flag :: "flags \<Rightarrow> async \<Rightarrow> async" where
  "clear_flag b = on_c (\<lambda>c. c\<lparr>c_flags := c_flags c AND NOT b\<rparr>)"

definition alive :: "async \<Rightarrow> 'a res \<Rightarrow> 'a res" where
  "alive st r = (if freed st then Inl UseAfterFree else r)"

text \<open>The macros \<open>_EL_ADD_READ\<close>, ...\<close>

definition EL :: "hook \<Rightarrow> async \<Rightarrow> async" where
  "EL h st = (if ac_ev (actx st) h then st\<lparr>hooks := hooks st @ [h]\<rparr> else st)"

section \<open>Connecting\<close>

definition redisAsyncInitialize :: "allocator \<Rightarrow> redisContext option \<Rightarrow> redisAsyncContext option res" where
  "redisAsyncInitialize m c =
     (case m 440 of None \<Rightarrow> Inr None
      | Some _ \<Rightarrow>
          (case c of None \<Rightarrow> Inl Uninitialised
           | Some c \<Rightarrow>
               bindR (dictCreate m callbackDict []) (\<lambda>channels.
               bindR (dictCreate m callbackDict []) (\<lambda>patterns.
               Inr (Some \<lparr>ac_c = c\<lparr>c_flags := c_flags c AND NOT REDIS_CONNECTED\<rparr>, ac_err = 0, ac_errstr = [],
                 ac_ev = \<lambda>_. False, ac_onDisconnect = None, ac_onConnect = None, ac_replies = [], ac_invalid = [],
                 ac_channels = channels, ac_patterns = patterns\<rparr>)))))"

definition redisAsyncCopyError :: "redisAsyncContext \<Rightarrow> redisAsyncContext" where
  "redisAsyncCopyError ac = ac\<lparr>ac_err := c_err (ac_c ac), ac_errstr := c_errstr (ac_c ac)\<rparr>"

text \<open>Two of the functions test for NULL and free the context when the larger block is refused, two do not.\<close>

definition connect_checked :: "allocator \<Rightarrow> (redisContext option \<times> world) res \<Rightarrow> (redisAsyncContext option \<times> world) res" where
  "connect_checked m conn =
     bindR conn (\<lambda>(c, w).
     case c of None \<Rightarrow> Inr (None, w)
     | Some c \<Rightarrow>
         bindR (redisAsyncInitialize m (Some c)) (\<lambda>ac.
         case ac of None \<Rightarrow> bindR (redisFree (Some c) w) (\<lambda>w. Inr (None, w))
         | Some ac \<Rightarrow> Inr (Some (redisAsyncCopyError ac), w)))"

definition connect_unchecked :: "allocator \<Rightarrow> (redisContext option \<times> world) res \<Rightarrow> (redisAsyncContext option \<times> world) res" where
  "connect_unchecked m conn =
     bindR conn (\<lambda>(c, w). bindR (redisAsyncInitialize m c) (\<lambda>ac. Inr (map_option redisAsyncCopyError ac, w)))"

definition redisAsyncConnect :: "allocator \<Rightarrow> net \<Rightarrow> string \<Rightarrow> int \<Rightarrow> world \<Rightarrow> (redisAsyncContext option \<times> world) res" where
  "redisAsyncConnect m net ip port w = connect_checked m (redisConnectNonBlock m net ip port w)"

definition redisAsyncConnectBind :: "allocator \<Rightarrow> net \<Rightarrow> string \<Rightarrow> int \<Rightarrow> string \<Rightarrow> world \<Rightarrow>
    (redisAsyncContext option \<times> world) res" where
  "redisAsyncConnectBind m net ip port source_addr w =
     connect_unchecked m (redisConnectBindNonBlock m net ip port source_addr w)"

definition redisAsyncConnectBindWithReuse :: "allocator \<Rightarrow> net \<Rightarrow> string \<Rightarrow> int \<Rightarrow> string \<Rightarrow> world \<Rightarrow>
    (redisAsyncContext option \<times> world) res" where
  "redisAsyncConnectBindWithReuse m net ip port source_addr w =
     connect_unchecked m (redisConnectBindNonBlockWithReuse m net ip port source_addr w)"

definition redisAsyncConnectUnix :: "allocator \<Rightarrow> net \<Rightarrow> string \<Rightarrow> world \<Rightarrow> (redisAsyncContext option \<times> world) res" where
  "redisAsyncConnectUnix m net path w = connect_checked m (redisConnectUnixNonBlock m net path w)"

definition redisAsyncSetConnectCallback :: "nat \<Rightarrow> async \<Rightarrow> (redis_status \<times> async) res" where
  "redisAsyncSetConnectCallback fn st =
     alive st (if ac_onConnect (actx st) = None
       then Inr (REDIS_OK, EL AddWrite (on_ac (\<lambda>ac. ac\<lparr>ac_onConnect := Some fn\<rparr>) st))
       else Inr (REDIS_ERR, st))"

definition redisAsyncSetDisconnectCallback :: "nat \<Rightarrow> async \<Rightarrow> (redis_status \<times> async) res" where
  "redisAsyncSetDisconnectCallback fn st =
     alive st (if ac_onDisconnect (actx st) = None
       then Inr (REDIS_OK, on_ac (\<lambda>ac. ac\<lparr>ac_onDisconnect := Some fn\<rparr>) st)
       else Inr (REDIS_ERR, st))"

section \<open>Lists of callbacks\<close>

definition redisPushCallback :: "allocator \<Rightarrow> redisCallback \<Rightarrow> redisCallback list \<Rightarrow> redisCallback list" where
  "redisPushCallback m cb xs = (case m 32 of None \<Rightarrow> xs | Some _ \<Rightarrow> xs @ [cb])"

fun redisShiftCallback :: "redisCallback list \<Rightarrow> (redisCallback \<times> redisCallback list) option" where
  "redisShiftCallback [] = None"
| "redisShiftCallback (cb # cbs) = Some (cb, cbs)"

text \<open>\<open>ac->replies\<close> and \<open>ac->sub.invalid\<close>.\<close>

datatype which = Replies | Invalid

fun get_list :: "which \<Rightarrow> async \<Rightarrow> redisCallback list" where
  "get_list Replies st = ac_replies (actx st)"
| "get_list Invalid st = ac_invalid (actx st)"

fun put_list :: "which \<Rightarrow> redisCallback list \<Rightarrow> async \<Rightarrow> async" where
  "put_list Replies cbs = on_ac (\<lambda>ac. ac\<lparr>ac_replies := cbs\<rparr>)"
| "put_list Invalid cbs = on_ac (\<lambda>ac. ac\<lparr>ac_invalid := cbs\<rparr>)"

definition push_to :: "app \<Rightarrow> which \<Rightarrow> redisCallback \<Rightarrow> async \<Rightarrow> async" where
  "push_to A l cb st = put_list l (redisPushCallback (memory A) cb (get_list l st)) st"

definition redisRunCallback :: "app \<Rightarrow> redisCallback \<Rightarrow> nat \<Rightarrow> async \<Rightarrow> async res" where
  "redisRunCallback A cb reply st =
     (case cb_fn cb of None \<Rightarrow> Inr st
      | Some fn \<Rightarrow>
          bindR (callback A fn reply (cb_privdata cb)
            (set_flag REDIS_IN_CALLBACK (st\<lparr>runs := runs st @ [(cb, reply, w_heap (wd st))]\<rparr>))) (\<lambda>st.
          alive st (Inr (clear_flag REDIS_IN_CALLBACK st))))"

section \<open>The end of a connection\<close>

text \<open>\<open>while (shift) run\<close> over one of the lists, with a NULL reply.\<close>

partial_function (option) drain :: "app \<Rightarrow> which \<Rightarrow> async \<Rightarrow> async res option" where
  "drain A l st =
     (case redisShiftCallback (get_list l st) of None \<Rightarrow> Some (Inr st)
      | Some (cb, rest) \<Rightarrow>
          (case redisRunCallback A cb 0 (put_list l rest st) of Inl e \<Rightarrow> Some (Inl e)
           | Inr st \<Rightarrow> drain A l st))"

datatype sub_kind = Channels | Patterns

fun subs :: "sub_kind \<Rightarrow> async \<Rightarrow> callback_dict" where
  "subs Channels st = ac_channels (actx st)"
| "subs Patterns st = ac_patterns (actx st)"

fun put_subs :: "sub_kind \<Rightarrow> callback_dict \<Rightarrow> async \<Rightarrow> async" where
  "put_subs Channels d = on_ac (\<lambda>ac. ac\<lparr>ac_channels := d\<rparr>)"
| "put_subs Patterns d = on_ac (\<lambda>ac. ac\<lparr>ac_patterns := d\<rparr>)"

partial_function (option) run_subs :: "app \<Rightarrow> sub_kind \<Rightarrow> (sds, redisCallback) dictIterator \<Rightarrow> async \<Rightarrow> async res option" where
  "run_subs A k it st =
     (case dictNext (subs k st) it of Inl e \<Rightarrow> Some (Inl e)
      | Inr (de, it) \<Rightarrow>
          (case de of None \<Rightarrow> Some (Inr st)
           | Some (key, cb) \<Rightarrow>
               (case redisRunCallback A cb 0 st of Inl e \<Rightarrow> Some (Inl e)
                | Inr st \<Rightarrow> run_subs A k it st)))"

definition ended :: "'a res option \<Rightarrow> 'a res" where
  "ended r = (case r of None \<Rightarrow> Inl Diverges | Some r \<Rightarrow> r)"

definition end_subs :: "app \<Rightarrow> sub_kind \<Rightarrow> async \<Rightarrow> async res" where
  "end_subs A k st =
     bindR (dictGetIterator (memory A)) (\<lambda>it.
     bindR (ended (run_subs A k it st)) (\<lambda>st.
     bindR (dictRelease (subs k st)) (\<lambda>_. Inr st)))"

text \<open>\<open>__redisAsyncFree\<close>\<close>

definition redisAsyncFree_now :: "app \<Rightarrow> async \<Rightarrow> async res" where
  "redisAsyncFree_now A st =
     alive st (
     bindR (ended (drain A Replies st)) (\<lambda>st.
     bindR (ended (drain A Invalid st)) (\<lambda>st.
     bindR (end_subs A Channels st) (\<lambda>st.
     bindR (end_subs A Patterns st) (\<lambda>st.
     let st = EL Cleanup st in
     bindR
       (case ac_onDisconnect (actx st) of None \<Rightarrow> Inr st
        | Some fn \<Rightarrow>
            if flag_on st REDIS_CONNECTED then
              if flag_on st REDIS_FREEING then notify A fn REDIS_OK st
              else notify A fn (if ac_err (actx st) = 0 then REDIS_OK else REDIS_ERR) st
            else Inr st) (\<lambda>st.
     alive st (bindR (redisFree (Some (ac_c (actx st))) (wd st)) (\<lambda>w. Inr (st\<lparr>wd := w, freed := True\<rparr>)))))))))"

definition redisAsyncFree :: "app \<Rightarrow> async \<Rightarrow> async res" where
  "redisAsyncFree A st =
     alive st (let st = set_flag REDIS_FREEING st in
       if \<not> flag_on st REDIS_IN_CALLBACK then redisAsyncFree_now A st else Inr st)"

text \<open>\<open>__redisAsyncDisconnect\<close>\<close>

definition redisAsyncDisconnect_now :: "app \<Rightarrow> async \<Rightarrow> async res" where
  "redisAsyncDisconnect_now A st =
     alive st (let st = on_ac redisAsyncCopyError st in
       if ac_err (actx st) = 0 then
         (case redisShiftCallback (ac_replies (actx st)) of
            Some _ \<Rightarrow> Inl AssertFailed | None \<Rightarrow> redisAsyncFree_now A st)
       else redisAsyncFree_now A (set_flag REDIS_DISCONNECTING st))"

definition redisAsyncDisconnect :: "app \<Rightarrow> async \<Rightarrow> async res" where
  "redisAsyncDisconnect A st =
     alive st (let st = set_flag REDIS_DISCONNECTING st in
       if \<not> flag_on st REDIS_IN_CALLBACK \<and> ac_replies (actx st) = [] then redisAsyncDisconnect_now A st else Inr st)"

section \<open>Replies\<close>

text \<open>A change of the value an entry points to.\<close>

definition dict_poke :: "('k, 'v, 'p) dict \<Rightarrow> 'k \<Rightarrow> ('v \<Rightarrow> 'v) \<Rightarrow> ('k, 'v, 'p) dict res" where
  "dict_poke d key f =
     (let h = hash_index (ht_type d) (ht_sizemask d) key in
      bindR (slot_get (ht_table d) h) (\<lambda>he.
      bindR (slot_set (ht_table d) h
               (set_first (\<lambda>e. dictCompareHashKeys d key (fst e)) (\<lambda>e. (fst e, f (snd e))) he)) (\<lambda>table.
      Inr (d\<lparr>ht_table := table\<rparr>))))"

text \<open>\<open>reply->element[i]\<close>\<close>

definition element_of :: "heap \<Rightarrow> redisReply \<Rightarrow> nat \<Rightarrow> redisReply res" where
  "element_of h r i =
     bindR (need (r_element r)) (\<lambda>es. if i < length es then get_obj h (es ! i) else Inl OutOfBounds)"

definition first_char :: "string \<Rightarrow> char res" where
  "first_char s = (case s of [] \<Rightarrow> Inl OutOfBounds | c # _ \<Rightarrow> Inr c)"

definition strcasecmp_eq :: "string \<Rightarrow> string \<Rightarrow> bool res" where
  "strcasecmp_eq s word = same_prefix s (word @ [NUL])"

text \<open>The second part of \<open>__redisGetSubscribeCallback\<close>: the message is for a channel that has a callback.\<close>

definition subscribed_message :: "heap \<Rightarrow> redisReply \<Rightarrow> sub_kind \<Rightarrow> string \<Rightarrow> sds \<Rightarrow> async \<Rightarrow>
    (redisCallback \<times> async) res" where
  "subscribed_message h reply k stype sname st =
     bindR (strcasecmp_eq stype ''subscribe'') (\<lambda>subscribe.
     bindR (if subscribe
            then bindR (dict_poke (subs k st) sname (\<lambda>cb. cb\<lparr>pending_subs := pending_subs cb - 1\<rparr>)) (\<lambda>d. Inr (put_subs k d st))
            else Inr st) (\<lambda>st.
     bindR (dictFind (subs k st) sname) (\<lambda>de.
     bindR (need de) (\<lambda>(_, cb).
     bindR (strcasecmp_eq stype ''unsubscribe'') (\<lambda>unsubscribe.
     if \<not> unsubscribe then Inr (cb, st)
     else
       bindR (if pending_subs cb = 0 then bindR (dictDelete (subs k st) sname) (\<lambda>(_, d). Inr (put_subs k d st)) else Inr st) (\<lambda>st.
       bindR (element_of h reply 2) (\<lambda>third.
       bindR (assertR (r_type third = REDIS_REPLY_INTEGER)) (\<lambda>_.
       Inr (cb, if r_integer third = 0 \<and> ht_used (ac_channels (actx st)) = 0 \<and> ht_used (ac_patterns (actx st)) = 0
                then clear_flag REDIS_SUBSCRIBED st else st)))))))))"

text \<open>Nothing is stored in \<open>*dstcb\<close> when no callback is found.\<close>

definition redisGetSubscribeCallback :: "app \<Rightarrow> nat \<Rightarrow> redisCallback \<Rightarrow> async \<Rightarrow> (redisCallback \<times> async) res" where
  "redisGetSubscribeCallback A p dstcb st =
     (let h = w_heap (wd st) in
      bindR (get_obj h p) (\<lambda>reply.
      if r_type reply = REDIS_REPLY_ARRAY then
        bindR (assertR (r_elements reply \<ge> 2)) (\<lambda>_.
        bindR (element_of h reply 0) (\<lambda>first.
        bindR (assertR (r_type first = REDIS_REPLY_STRING)) (\<lambda>_.
        bindR (need (r_str first)) (\<lambda>stype.
        bindR (first_char stype) (\<lambda>c.
        let pvariant = (c_tolower c = CHR ''p'');
            k = (if pvariant then Patterns else Channels) in
        bindR (element_of h reply 1) (\<lambda>second.
        bindR (assertR (r_type second = REDIS_REPLY_STRING)) (\<lambda>_.
        bind_unchecked (sdsnewlen (memory A) (r_str second) (r_len second)) (\<lambda>sname.
        bindR (dictFind (subs k st) sname) (\<lambda>de.
        case de of None \<Rightarrow> Inr (dstcb, st)
        | Some _ \<Rightarrow> subscribed_message h reply k (if pvariant then tl stype else stype) sname st)))))))))
      else
        (case redisShiftCallback (ac_invalid (actx st)) of None \<Rightarrow> Inr (dstcb, st)
         | Some (cb, rest) \<Rightarrow> Inr (cb, put_list Invalid rest st))))"

definition freeObject_of :: "nat \<Rightarrow> async \<Rightarrow> async res" where
  "freeObject_of p st =
     bindR (need (c_reader (ac_c (actx st)))) (\<lambda>r.
     bindR (need (fn_freeObject r)) (\<lambda>f.
     bindR (f p (w_heap (wd st))) (\<lambda>h. Inr (st\<lparr>wd := (wd st)\<lparr>w_heap := h\<rparr>\<rparr>))))"

text \<open>What the loop of \<open>redisProcessCallbacks\<close> does with a reply; \<open>True\<close> when it returns.\<close>

definition run_reply :: "app \<Rightarrow> nat \<Rightarrow> redisCallback \<Rightarrow> async \<Rightarrow> (bool \<times> redisCallback \<times> async) res" where
  "run_reply A reply cb st =
     (if cb_fn cb \<noteq> None then
        bindR (redisRunCallback A cb reply st) (\<lambda>st.
        bindR (freeObject_of reply st) (\<lambda>st.
        if flag_on st REDIS_FREEING then bindR (redisAsyncFree_now A st) (\<lambda>st. Inr (True, cb, st))
        else Inr (False, cb, st)))
      else bindR (freeObject_of reply st) (\<lambda>st. Inr (False, cb, st)))"

definition answer_callback :: "app \<Rightarrow> nat \<Rightarrow> redisCallback \<Rightarrow> async \<Rightarrow> (bool \<times> redisCallback \<times> async) res" where
  "answer_callback A reply cb st =
     (case redisShiftCallback (ac_replies (actx st)) of
        Some (cb, rest) \<Rightarrow> run_reply A reply cb (put_list Replies rest st)
      | None \<Rightarrow>
          bindR (get_obj (w_heap (wd st)) reply) (\<lambda>r.
          if r_type r = REDIS_REPLY_ERROR then
            bindR (need (r_str r)) (\<lambda>str.
            bindR (c_strlen str) (\<lambda>n.
            bindR (freeObject_of reply (on_c (\<lambda>c. c\<lparr>c_err := REDIS_ERR_OTHER, c_errstr := take 127 (take n str)\<rparr>) st)) (\<lambda>st.
            bindR (redisAsyncDisconnect_now A st) (\<lambda>st. Inr (True, cb, st)))))
          else
            bindR (assertR (flag_on st REDIS_SUBSCRIBED \<or> flag_on st REDIS_MONITORING)) (\<lambda>_.
            bindR (if flag_on st REDIS_SUBSCRIBED then redisGetSubscribeCallback A reply cb st else Inr (cb, st)) (\<lambda>(cb, st).
            run_reply A reply cb st))))"

definition no_callback :: redisCallback where
  "no_callback = \<lparr>cb_fn = None, pending_subs = 0, cb_privdata = 0\<rparr>"

text \<open>No reply is left: the connection may be over, and a monitoring client is given its callback again.\<close>

definition no_more_replies :: "app \<Rightarrow> redisCallback \<Rightarrow> async \<Rightarrow> async res" where
  "no_more_replies A cb st =
     bindR (if flag_on st REDIS_DISCONNECTING then bindR (need (c_obuf (ac_c (actx st)))) (\<lambda>obuf. Inr (sdslen obuf = 0)) else Inr False) (\<lambda>flushed.
     if flushed \<and> ac_replies (actx st) = [] then redisAsyncDisconnect_now A st
     else Inr (if flag_on st REDIS_MONITORING then push_to A Replies cb st else st))"

definition with_c :: "redisContext \<Rightarrow> world \<Rightarrow> async \<Rightarrow> async" where
  "with_c c w st = (on_c (\<lambda>_. c) st)\<lparr>wd := w\<rparr>"

partial_function (option) process_callbacks :: "app \<Rightarrow> redisCallback \<Rightarrow> async \<Rightarrow> async res option" where
  "process_callbacks A cb st =
     (case redisGetReply (memory A) (errtext A) (ac_c (actx st)) (wd st) of Inl e \<Rightarrow> Some (Inl e)
      | Inr ((status, reply), c, w) \<Rightarrow>
          if status \<noteq> REDIS_OK then Some (redisAsyncDisconnect_now A (with_c c w st))
          else if reply = 0 then Some (no_more_replies A cb (with_c c w st))
          else
            (case answer_callback A reply cb (with_c c w st) of Inl e \<Rightarrow> Some (Inl e)
             | Inr (stop, cb, st) \<Rightarrow> if stop then Some (Inr st) else process_callbacks A cb st))"

definition redisProcessCallbacks :: "app \<Rightarrow> async \<Rightarrow> async res" where
  "redisProcessCallbacks A st = alive st (ended (process_callbacks A no_callback st))"

section \<open>Events of the socket\<close>

definition redisAsyncHandleConnect :: "app \<Rightarrow> async \<Rightarrow> (redis_status \<times> async) res" where
  "redisAsyncHandleConnect A st =
     bindR (check_socket A (ac_c (actx st)) (wd st)) (\<lambda>(status, in_progress, c, w).
     let st = with_c c w st in
     if status = REDIS_ERR then
       if in_progress then Inr (REDIS_OK, st)
       else
         bindR (case ac_onConnect (actx st) of None \<Rightarrow> Inr st | Some fn \<Rightarrow> notify A fn REDIS_ERR st) (\<lambda>st.
         bindR (redisAsyncDisconnect_now A st) (\<lambda>st. Inr (REDIS_ERR, st)))
     else
       let st = set_flag REDIS_CONNECTED st in
       bindR (case ac_onConnect (actx st) of None \<Rightarrow> Inr st | Some fn \<Rightarrow> notify A fn REDIS_OK st) (\<lambda>st.
       Inr (REDIS_OK, st)))"

text \<open>The beginning of both handlers: \<open>True\<close> when the handler goes on.\<close>

definition connected :: "app \<Rightarrow> async \<Rightarrow> (bool \<times> async) res" where
  "connected A st =
     alive st (if flag_on st REDIS_CONNECTED then Inr (True, st)
       else
         bindR (redisAsyncHandleConnect A st) (\<lambda>(status, st).
         if status \<noteq> REDIS_OK then Inr (False, st)
         else alive st (Inr (flag_on st REDIS_CONNECTED, st))))"

definition redisAsyncHandleRead :: "app \<Rightarrow> async \<Rightarrow> async res" where
  "redisAsyncHandleRead A st =
     bindR (connected A st) (\<lambda>(go, st).
     if \<not> go then Inr st
     else
       bindR (redisBufferRead (memory A) (errtext A) (ac_c (actx st)) (wd st)) (\<lambda>(status, c, w).
       let st = with_c c w st in
       if status = REDIS_ERR then redisAsyncDisconnect_now A st
       else redisProcessCallbacks A (EL AddRead st)))"

definition redisAsyncHandleWrite :: "app \<Rightarrow> async \<Rightarrow> async res" where
  "redisAsyncHandleWrite A st =
     bindR (connected A st) (\<lambda>(go, st).
     if \<not> go then Inr st
     else
       bindR (redisBufferWrite (memory A) (errtext A) (ac_c (actx st)) (wd st)) (\<lambda>((status, all_sent), c, w).
       let st = with_c c w st in
       if status = REDIS_ERR then redisAsyncDisconnect_now A st
       else Inr (EL AddRead (EL (if all_sent then DelWrite else AddWrite) st))))"

section \<open>Commands\<close>

text \<open>A pointer into the command is the bytes from there to the end of its block.\<close>

fun c_strchr :: "char list \<Rightarrow> char \<Rightarrow> char list option res" where
  "c_strchr [] ch = Inl OutOfBounds"
| "c_strchr (x # xs) ch = (if x = ch then Inr (Some (x # xs)) else if x = NUL then Inr None else c_strchr xs ch)"

text \<open>The bytes after the argument, the argument and its length.\<close>

definition nextArgument :: "char list \<Rightarrow> (char list \<times> char list \<times> nat) option res" where
  "nextArgument start =
     bindR (first_char start) (\<lambda>c.
     bindR (if c \<noteq> CHR ''$'' then c_strchr start (CHR ''$'') else Inr (Some start)) (\<lambda>p.
     case p of None \<Rightarrow> Inr None
     | Some p \<Rightarrow>
         let len = nat (to_int (strtol (c_str (tl p))) mod 2 ^ 64) in
         bindR (c_strchr p (CHR 0x0D)) (\<lambda>q.
         case q of None \<Rightarrow> Inl AssertFailed
         | Some q \<Rightarrow>
             if length q < len + 4 then Inl OutOfBounds
             else Inr (Some (drop (len + 4) q, drop 2 q, len)))))"

lemma c_strchr_shorter: "c_strchr xs ch = Inr (Some ys) \<Longrightarrow> length ys \<le> length xs \<and> ys \<noteq> []"
  by (induction xs ch rule: c_strchr.induct) (auto split: if_splits)

lemma nextArgument_shorter:
  assumes "nextArgument p = Inr (Some (p', str, len))"
  shows "length p' < length p"
proof -
  obtain c p1 q where "first_char p = Inr c" and p1: "(if c \<noteq> CHR ''$'' then c_strchr p (CHR ''$'') else Inr (Some p)) = Inr (Some p1)"
    and q: "c_strchr p1 (CHR 0x0D) = Inr (Some q)" "p' = drop (nat (to_int (strtol (c_str (tl p1))) mod 2 ^ 64) + 4) q"
    using assms by (auto simp: nextArgument_def bindR_eq_Inr Let_def split: option.splits if_splits)
  have "length p1 \<le> length p"
    using p1 c_strchr_shorter by (auto split: if_splits)
  then show ?thesis
    using q c_strchr_shorter [OF q(1)] by (cases q) auto
qed

text \<open>The loop over the channels; \<open>pending_subs\<close> of \<open>cb\<close> is carried from one to the next.\<close>

function subscribe_loop :: "app \<Rightarrow> sub_kind \<Rightarrow> redisCallback \<Rightarrow> char list \<Rightarrow> async \<Rightarrow> async res" where
  "subscribe_loop A k cb p st =
     (case nextArgument p of Inl e \<Rightarrow> Inl e
      | Inr None \<Rightarrow> Inr st
      | Inr (Some (p, astr, alen)) \<Rightarrow>
          bind_unchecked (sdsnewlen (memory A) (Some astr) alen) (\<lambda>sname.
          bindR (dictFind (subs k st) sname) (\<lambda>de.
          let cb = (case de of None \<Rightarrow> cb | Some (_, existcb) \<Rightarrow> cb\<lparr>pending_subs := pending_subs existcb + 1\<rparr>) in
          bindR (dictReplace (memory A) (subs k st) sname cb) (\<lambda>(_, d).
          subscribe_loop A k cb p (put_subs k d st)))))"
  by pat_completeness auto
termination
  by (relation "measure (\<lambda>(A, k, cb, p, st). length p)") (auto dest: nextArgument_shorter)

declare subscribe_loop.simps [simp del]

definition redisAsyncCommand_now :: "app \<Rightarrow> nat option \<Rightarrow> nat \<Rightarrow> char list \<Rightarrow> nat \<Rightarrow> async \<Rightarrow> (redis_status \<times> async) res" where
  "redisAsyncCommand_now A fn priv cmd len st =
     alive st (
     if flag_on st REDIS_DISCONNECTING \<or> flag_on st REDIS_FREEING then Inr (REDIS_ERR, st)
     else
       let cb = \<lparr>cb_fn = fn, pending_subs = 1, cb_privdata = priv\<rparr>;
           append = (\<lambda>st. bindR (redisAppendFormattedCommand (memory A) (ac_c (actx st)) cmd len) (\<lambda>(_, c).
             Inr (REDIS_OK, EL AddWrite (on_c (\<lambda>_. c) st)))) in
       bindR (nextArgument cmd) (\<lambda>arg.
       case arg of None \<Rightarrow> Inl AssertFailed
       | Some (p, str, clen) \<Rightarrow>
           bindR (first_char p) (\<lambda>c.
           let hasnext = (c = CHR ''$'') in
           bindR (first_char str) (\<lambda>c.
           let pvariant = (c_tolower c = CHR ''p'');
               k = (if pvariant then Patterns else Channels);
               str = (if pvariant then tl str else str) in
           bindR (if hasnext then same_prefix str (''subscribe'' @ crlf) else Inr False) (\<lambda>subscribe.
           if subscribe then
             bindR (subscribe_loop A k cb p (set_flag REDIS_SUBSCRIBED st)) append
           else
             bindR (same_prefix str (''unsubscribe'' @ crlf)) (\<lambda>unsubscribe.
             if unsubscribe then
               (if \<not> flag_on st REDIS_SUBSCRIBED then Inr (REDIS_ERR, st) else append st)
             else
               bindR (same_prefix str (''monitor'' @ crlf)) (\<lambda>monitor.
               if monitor then append (push_to A Replies cb (set_flag REDIS_MONITORING st))
               else append (push_to A (if flag_on st REDIS_SUBSCRIBED then Invalid else Replies) cb st))))))))"

definition redisvAsyncCommand :: "app \<Rightarrow> (string \<Rightarrow> va list \<Rightarrow> string) \<Rightarrow> nat option \<Rightarrow> nat \<Rightarrow> string \<Rightarrow> va list \<Rightarrow> async \<Rightarrow>
    (redis_status \<times> async) res" where
  "redisvAsyncCommand A pf fn priv format ap st =
     bindR (redisvFormatCommand (memory A) pf format ap) (\<lambda>(len, cmd).
     if len < 0 then Inr (REDIS_ERR, st)
     else bindR (need cmd) (\<lambda>cmd. redisAsyncCommand_now A fn priv cmd (nat len) st))"

definition redisAsyncCommand :: "app \<Rightarrow> (string \<Rightarrow> va list \<Rightarrow> string) \<Rightarrow> nat option \<Rightarrow> nat \<Rightarrow> string \<Rightarrow> va list \<Rightarrow> async \<Rightarrow>
    (redis_status \<times> async) res" where
  "redisAsyncCommand A pf fn priv format args st = redisvAsyncCommand A pf fn priv format args st"

definition redisAsyncCommandArgv :: "app \<Rightarrow> nat option \<Rightarrow> nat \<Rightarrow> int \<Rightarrow> char list list \<Rightarrow> nat list option \<Rightarrow> async \<Rightarrow>
    (redis_status \<times> async) res" where
  "redisAsyncCommandArgv A fn priv argc argv argvlen st =
     bindR (redisFormatSdsCommandArgv (memory A) argc argv argvlen) (\<lambda>(len, cmd).
     if len < 0 then Inr (REDIS_ERR, st)
     else bindR (need cmd) (\<lambda>cmd. redisAsyncCommand_now A fn priv (sds_buf cmd) (nat len) st))"

definition redisAsyncFormattedCommand :: "app \<Rightarrow> nat option \<Rightarrow> nat \<Rightarrow> char list \<Rightarrow> nat \<Rightarrow> async \<Rightarrow> (redis_status \<times> async) res" where
  "redisAsyncFormattedCommand A fn priv cmd len st = redisAsyncCommand_now A fn priv cmd len st"

section \<open>Regular replies\<close>

lemma actx_on [simp]:
  "actx (on_ac f st) = f (actx st)" "actx (on_c g st) = (actx st)\<lparr>ac_c := g (ac_c (actx st))\<rparr>"
  "wd (on_ac f st) = wd st" "wd (on_c g st) = wd st" "freed (on_ac f st) = freed st" "freed (on_c g st) = freed st"
  "runs (on_ac f st) = runs st" "runs (on_c g st) = runs st" "hooks (on_ac f st) = hooks st" "hooks (on_c g st) = hooks st"
  by (simp_all add: on_ac_def on_c_def)

lemma with_c_simps [simp]:
  "actx (with_c c w st) = (actx st)\<lparr>ac_c := c\<rparr>" "wd (with_c c w st) = w" "freed (with_c c w st) = freed st"
  "runs (with_c c w st) = runs st" "hooks (with_c c w st) = hooks st"
  by (simp_all add: with_c_def)

text \<open>An empty reader has no reply, and building nothing leaves the heap alone.\<close>

lemma idle_waits:
  assumes "idle r" "rd_input r = []"
  shows "\<exists>r'. redisReaderGetReply r w = Inr (REDIS_OK, 0, r', w)"
proof (cases "rd_len r = 0")
  case True
  then show ?thesis
    using assms by (auto simp: redisReaderGetReply_def idle_def)
next
  case False
  let ?r = "r\<lparr>rd_rstack := (rd_rstack r)[0 := root_task r], rd_ridx := 0\<rparr>"
  have i: "rd_err r = 0" "rd_ridx r = - 1" "length (rd_rstack r) = 9"
    using assms(1) by (auto simp: idle_def)
  have st: "set_task r 0 (root_task r) = Inr (r\<lparr>rd_rstack := (rd_rstack r)[0 := root_task r]\<rparr>)"
    using i by (simp add: set_task_def)
  have "buf_ok ?r" "rd_input ?r = []"
    using idle_buf_ok [OF assms(1)] assms(2) by (simp_all add: buf_ok_def rd_bytes_def rd_input_def)
  then have "readBytes ?r 1 = None"
    using readBytes_input [of ?r] by simp
  then have "processItem ?r w = Inr (REDIS_ERR, ?r, w)"
    using i(3) by (simp add: processItem_def task_at_def root_task_def)
  then have items: "process_items ?r w = Inr (?r, w)"
    by (simp add: process_items_def process_loop.simps [of ?r])
  obtain s where s: "rd_buf ?r = Some s" "wf_sds s" "rd_len ?r = sdslen s" "rd_pos ?r \<le> rd_len ?r" "rd_len ?r < 2 ^ 31"
    using assms(1) by (auto simp: idle_def)
  obtain s' p where "discard ?r = Inr (?r\<lparr>rd_buf := Some s', rd_pos := p, rd_len := sdslen s'\<rparr>)"
    by (rule discard_ok [OF s])
  then show ?thesis
    using i st items False by (simp add: redisReaderGetReply_def)
qed

lemma flag_back: "(f :: flags) AND b = 0 \<Longrightarrow> (f OR b) AND NOT b = f"
  by (auto simp: bit_eq_iff bit_simps)

text \<open>Reading, using and freeing a reply leaves the heap well formed and its objects as they were.\<close>

lemma read_and_free:
  assumes "total_allocator m" "idle r" "rd_fn r = Some (defaultFunctions m)" "heap_ok h" "rd_input r = ser v @ rest" "resp_ok 8 v"
  obtains obj h1 r' h2 where "redisReaderGetReply r h = Inr (REDIS_OK, obj, r', h1)" "obj \<noteq> 0" "idle r'" "rd_input r' = rest"
    "rd_fn r' = Some (defaultFunctions m)" "represents h1 obj v" "freeReplyObject obj h1 = Inr h2" "heap_ok h2" "h_objs h2 = h_objs h"
proof -
  obtain obj h1 r' where get: "build (defaultFunctions m) None v h = Inr (obj, h1)" "heap_ok h1"
    "redisReaderGetReply r h = Inr (REDIS_OK, obj, r', h1)" "idle r'" "rd_input r' = rest" "rd_fn r' = Some (defaultFunctions m)"
    using default.get_reply [of r m h v rest] assms(2-6) granted_id [OF assms(1)] by auto
  have none: "in_place h None"
    by (simp add: in_place_def)
  obtain h' where h': "build (defaultFunctions m) None v h = Inr (h_next h, h')" "h_next h' = h_next h + cnt v" "laid h' (h_next h) v"
    using builds_all [OF assms(1,6)] assms(4) none unfolding builds_def by blast
  have obj: "obj = h_next h" "0 < obj" "h' = h1"
    using get(1) h'(1) heap_ok_next [OF assms(4)] by auto
  obtain h2 where h2: "freeReplyObject obj h1 = Inr h2" "h_objs h2 = h_objs h"
    using build_then_free(2) [OF assms(1,4,6) get(1)] by blast
  have "freeReplyObject obj h1 = Inr (erase obj (cnt v) h1)"
    unfolding freeReplyObject_def using h' obj by (intro free_laid) simp_all
  then have "h2 = erase obj (cnt v) h1"
    using h2(1) by simp
  then have "heap_ok h2"
    using get(2) by (auto simp: heap_ok_def erase_def)
  then show thesis
    using that get h2 obj(2) build_then_free(1) [OF assms(1,4,6) get(1)] by blast
qed

text \<open>
  A callback that may send commands of its own: they go to the end of the list of callbacks and into the output buffer.
  It leaves the rest of the context alone and does not free the reply.
\<close>

definition polite :: "app \<Rightarrow> bool" where
  "polite A \<longleftrightarrow> (\<forall>fn reply priv st. \<exists>more obuf hk. callback A fn reply priv st =
     Inr (st\<lparr>actx := (actx st)\<lparr>ac_replies := ac_replies (actx st) @ more, ac_c := (ac_c (actx st))\<lparr>c_obuf := obuf\<rparr>\<rparr>, hooks := hk\<rparr>))"

text \<open>A connected context that is not being closed and whose reader holds exactly the text of these replies.\<close>

definition holds :: "app \<Rightarrow> async \<Rightarrow> resp list \<Rightarrow> bool" where
  "holds A st vs \<longleftrightarrow>
     \<not> freed st \<and> c_flags (ac_c (actx st)) AND (REDIS_BLOCK OR REDIS_DISCONNECTING OR REDIS_FREEING OR REDIS_IN_CALLBACK OR REDIS_MONITORING) = 0 \<and>
     heap_ok (w_heap (wd st)) \<and>
     (\<exists>r. c_reader (ac_c (actx st)) = Some r \<and> idle r \<and> rd_fn r = Some (defaultFunctions (memory A)) \<and>
       rd_input r = concat (map ser vs))"

lemma and_or_zero: "(f :: flags) AND (a OR b) = 0 \<longleftrightarrow> f AND a = 0 \<and> f AND b = 0"
  by (auto simp: bit_eq_iff bit_simps)

lemma holds_flags:
  assumes "holds A st vs"
  shows "\<not> flag_on st REDIS_BLOCK" "\<not> flag_on st REDIS_DISCONNECTING" "\<not> flag_on st REDIS_FREEING" "\<not> flag_on st REDIS_MONITORING"
    "c_flags (ac_c (actx st)) AND REDIS_IN_CALLBACK = 0"
  using assms by (simp_all add: holds_def flag_on_def has_flag_def and_or_zero)

lemma run_polite:
  assumes "polite A" "cb_fn cb = Some fn" "\<not> freed st" "c_flags (ac_c (actx st)) AND REDIS_IN_CALLBACK = 0"
  obtains more obuf hk where "redisRunCallback A cb reply st =
    Inr (st\<lparr>actx := (actx st)\<lparr>ac_replies := ac_replies (actx st) @ more, ac_c := (ac_c (actx st))\<lparr>c_obuf := obuf\<rparr>\<rparr>, hooks := hk,
      runs := runs st @ [(cb, reply, w_heap (wd st))]\<rparr>)"
proof -
  let ?st = "set_flag REDIS_IN_CALLBACK (st\<lparr>runs := runs st @ [(cb, reply, w_heap (wd st))]\<rparr>)"
  obtain more obuf hk where c: "callback A fn reply (cb_privdata cb) ?st =
      Inr (?st\<lparr>actx := (actx ?st)\<lparr>ac_replies := ac_replies (actx ?st) @ more, ac_c := (ac_c (actx ?st))\<lparr>c_obuf := obuf\<rparr>\<rparr>, hooks := hk\<rparr>)"
    using assms(1) unfolding polite_def by blast
  have "redisRunCallback A cb reply st =
    Inr (st\<lparr>actx := (actx st)\<lparr>ac_replies := ac_replies (actx st) @ more, ac_c := (ac_c (actx st))\<lparr>c_obuf := obuf\<rparr>\<rparr>, hooks := hk,
      runs := runs st @ [(cb, reply, w_heap (wd st))]\<rparr>)"
    unfolding redisRunCallback_def assms(2) option.case c
    using assms(3) flag_back [OF assms(4)]
    by (simp add: alive_def set_flag_def clear_flag_def on_c_def on_ac_def)
  then show thesis
    by (rule that)
qed

lemma one_reply:
  assumes "total_allocator (memory A)" "polite A" "holds A st (v # vs)" "resp_ok 8 v"
    and "ac_replies (actx st) = cb # cbs" "cb_fn cb = Some fn"
  obtains st1 obj h more where "process_callbacks A cb0 st = process_callbacks A cb st1" "holds A st1 vs"
    "ac_replies (actx st1) = cbs @ more" "runs st1 = runs st @ [(cb, obj, h)]" "represents h obj v"
    "h_objs (w_heap (wd st1)) = h_objs (w_heap (wd st))"
proof -
  note f = holds_flags [OF assms(3)]
  obtain r where r: "c_reader (ac_c (actx st)) = Some r" "idle r" "rd_fn r = Some (defaultFunctions (memory A))"
    "heap_ok (w_heap (wd st))" "rd_input r = ser v @ concat (map ser vs)"
    using assms(3) by (auto simp: holds_def)
  obtain obj h1 r' h2 where g: "redisReaderGetReply r (w_heap (wd st)) = Inr (REDIS_OK, obj, r', h1)" "obj \<noteq> 0" "idle r'"
    "rd_input r' = concat (map ser vs)" "rd_fn r' = Some (defaultFunctions (memory A))" "represents h1 obj v"
    "freeReplyObject obj h1 = Inr h2" "heap_ok h2" "h_objs h2 = h_objs (w_heap (wd st))"
    by (rule read_and_free [OF assms(1) r(2-5) assms(4)])
  let ?c = "(ac_c (actx st))\<lparr>c_reader := Some r'\<rparr>" and ?w = "(wd st)\<lparr>w_heap := h1\<rparr>"
  have get: "redisGetReply (memory A) (errtext A) (ac_c (actx st)) (wd st) = Inr ((REDIS_OK, obj), ?c, ?w)"
    using r(1) g(1,2) f(1) by (simp add: redisGetReply_def redisGetReplyFromReader_def need_def)
  let ?st = "put_list Replies cbs (with_c ?c ?w st)"
  have "\<not> freed ?st" "c_flags (ac_c (actx ?st)) AND REDIS_IN_CALLBACK = 0"
    using assms(3) f(5) by (simp_all add: holds_def)
  then obtain more obuf hk where run: "redisRunCallback A cb obj ?st =
    Inr (?st\<lparr>actx := (actx ?st)\<lparr>ac_replies := ac_replies (actx ?st) @ more, ac_c := (ac_c (actx ?st))\<lparr>c_obuf := obuf\<rparr>\<rparr>, hooks := hk,
      runs := runs ?st @ [(cb, obj, w_heap (wd ?st))]\<rparr>)" (is "_ = Inr ?st1")
    using run_polite [OF assms(2,6), of ?st obj] by metis
  let ?st2 = "?st1\<lparr>wd := (wd ?st1)\<lparr>w_heap := h2\<rparr>\<rparr>"
  have free: "freeObject_of obj ?st1 = Inr ?st2"
    using g(5,7) by (simp add: freeObject_of_def need_def fn_freeObject_def defaultFunctions_def)
  have "\<not> flag_on ?st2 REDIS_FREEING"
    using f(3) by (simp add: flag_on_def)
  then have "answer_callback A obj cb0 (with_c ?c ?w st) = Inr (False, cb, ?st2)"
    using assms(5,6) run free by (simp add: answer_callback_def run_reply_def)
  then have "process_callbacks A cb0 st = process_callbacks A cb ?st2"
    using get g(2) by (subst process_callbacks.simps) simp
  moreover have "holds A ?st2 vs"
    using assms(3) g(3-5,8) by (auto simp: holds_def)
  moreover have "ac_replies (actx ?st2) = cbs @ more" "runs ?st2 = runs st @ [(cb, obj, h1)]"
    "h_objs (w_heap (wd ?st2)) = h_objs (w_heap (wd st))"
    using g(9) by simp_all
  ultimately show thesis
    using that g(6) by blast
qed

lemma no_reply:
  assumes "holds A st []"
  obtains st1 where "process_callbacks A cb0 st = Some (Inr st1)" "ac_replies (actx st1) = ac_replies (actx st)"
    "runs st1 = runs st" "w_heap (wd st1) = w_heap (wd st)" "\<not> freed st1"
proof -
  note f = holds_flags [OF assms]
  obtain r where r: "c_reader (ac_c (actx st)) = Some r" "idle r" "rd_input r = []"
    using assms by (auto simp: holds_def)
  obtain r' where "redisReaderGetReply r (w_heap (wd st)) = Inr (REDIS_OK, 0, r', w_heap (wd st))"
    using idle_waits [OF r(2,3)] by blast
  then have "redisGetReply (memory A) (errtext A) (ac_c (actx st)) (wd st) =
      Inr ((REDIS_OK, 0), (ac_c (actx st))\<lparr>c_reader := Some r'\<rparr>, wd st)"
    using r(1) f(1) by (simp add: redisGetReply_def redisGetReplyFromReader_def need_def flag_on_def)
  then have "process_callbacks A cb0 st = Some (Inr (with_c ((ac_c (actx st))\<lparr>c_reader := Some r'\<rparr>) (wd st) st))"
    using f(2,4) by (subst process_callbacks.simps) (simp add: no_more_replies_def flag_on_def)
  then show thesis
    by (rule that) (use assms in \<open>simp_all add: holds_def\<close>)
qed

lemma all_replies:
  assumes "total_allocator (memory A)" "polite A"
  shows "holds A st vs \<Longrightarrow> list_all (resp_ok 8) vs \<Longrightarrow> length vs \<le> length (ac_replies (actx st)) \<Longrightarrow>
    \<forall>cb\<in>set (take (length vs) (ac_replies (actx st))). cb_fn cb \<noteq> None \<Longrightarrow>
    \<exists>st' rs more. process_callbacks A cb0 st = Some (Inr st') \<and> \<not> freed st' \<and> runs st' = runs st @ rs \<and>
      map fst rs = take (length vs) (ac_replies (actx st)) \<and>
      list_all2 (\<lambda>(_, obj, h) v. represents h obj v) rs vs \<and>
      ac_replies (actx st') = drop (length vs) (ac_replies (actx st)) @ more \<and>
      h_objs (w_heap (wd st')) = h_objs (w_heap (wd st))"
proof (induction vs arbitrary: st cb0)
  case Nil
  then obtain st1 where "process_callbacks A cb0 st = Some (Inr st1)" "ac_replies (actx st1) = ac_replies (actx st)"
    "runs st1 = runs st" "w_heap (wd st1) = w_heap (wd st)" "\<not> freed st1"
    using no_reply by blast
  then show ?case
    by simp
next
  case (Cons v vs)
  then obtain cb cbs fn where cb: "ac_replies (actx st) = cb # cbs" "cb_fn cb = Some fn"
    by (cases "ac_replies (actx st)") auto
  obtain st1 obj h more where st1: "process_callbacks A cb0 st = process_callbacks A cb st1" "holds A st1 vs"
    "ac_replies (actx st1) = cbs @ more" "runs st1 = runs st @ [(cb, obj, h)]" "represents h obj v"
    "h_objs (w_heap (wd st1)) = h_objs (w_heap (wd st))"
    by (rule one_reply [OF assms Cons.prems(1) _ cb]) (use Cons.prems(2) in simp)
  have len: "length vs \<le> length cbs"
    using Cons.prems(3) cb(1) by simp
  then have take: "take (length vs) (ac_replies (actx st1)) = take (length vs) cbs"
    using st1(3) by simp
  then have fns: "\<forall>cb\<in>set (take (length vs) (ac_replies (actx st1))). cb_fn cb \<noteq> None"
    using Cons.prems(4) cb(1) by simp
  obtain st' rs more' where st': "process_callbacks A cb st1 = Some (Inr st')" "\<not> freed st'" "runs st' = runs st1 @ rs"
    "map fst rs = take (length vs) (ac_replies (actx st1))" "list_all2 (\<lambda>(_, obj, h) v. represents h obj v) rs vs"
    "ac_replies (actx st') = drop (length vs) (ac_replies (actx st1)) @ more'"
    "h_objs (w_heap (wd st')) = h_objs (w_heap (wd st1))"
    using Cons.IH [OF st1(2) _ _ fns, of cb] Cons.prems(2) len st1(3) by auto
  show ?case
    using st1 st' take cb(1) len
    by (intro exI [of _ st'] exI [of _ "(cb, obj, h) # rs"] exI [of _ "more @ more'"]) simp
qed

text \<open>The callbacks of regular commands run in the order in which they were registered, each with its own reply.\<close>

lemma replies_in_order:
  assumes "total_allocator (memory A)" "polite A" "holds A st vs" "list_all (resp_ok 8) vs"
    and "length vs \<le> length (ac_replies (actx st))"
    and "\<forall>cb\<in>set (take (length vs) (ac_replies (actx st))). cb_fn cb \<noteq> None"
  shows "\<exists>st' rs more. redisProcessCallbacks A st = Inr st' \<and> runs st' = runs st @ rs \<and>
    map fst rs = take (length vs) (ac_replies (actx st)) \<and>
    list_all2 (\<lambda>(_, obj, h) v. represents h obj v) rs vs \<and>
    ac_replies (actx st') = drop (length vs) (ac_replies (actx st)) @ more \<and>
    h_objs (w_heap (wd st')) = h_objs (w_heap (wd st))"
  using all_replies [OF assms, of no_callback] assms(3)
  by (auto simp: redisProcessCallbacks_def alive_def ended_def holds_def)

section \<open>Sending a command\<close>

lemma c_strchr_at: "ch \<notin> set xs \<Longrightarrow> NUL \<notin> set xs \<Longrightarrow> c_strchr (xs @ ch # ys) ch = Inr (Some (ch # ys))"
  by (induction xs) auto

lemma dec_chars: "c \<in> set (dec n) \<Longrightarrow> is_digit c"
  using dec_digits [of n] by blast

lemma strtol_digits:
  assumes "v < 2 ^ 63" "\<not> is_digit c" "c \<noteq> NUL"
  shows "strtol (c_str (dec v @ c # t)) = int v"
proof -
  have digits: "\<forall>c \<in> set (dec v). is_digit c" "dec v \<noteq> []"
    using dec_digits [of v] by auto
  then have "NUL \<notin> set (dec v)"
    by (auto simp: is_digit_def)
  then have str: "c_str (dec v @ c # t) = dec v @ c # c_str t"
    using assms(3) by (auto simp: c_str_def takeWhile_append)
  obtain d ds where d: "dec v = d # ds" "is_digit d"
    using digits by (cases "dec v") auto
  then have "\<not> c_isspace d" "d \<noteq> CHR ''-''" "d \<noteq> CHR ''+''"
    by (auto simp: is_digit_def c_isspace_def)
  moreover have "takeWhile is_digit (dec v @ c # c_str t) = dec v"
    using digits(1) assms(2) by (simp add: takeWhile_append)
  ultimately show ?thesis
    using assms(1) d(1) dec_val_dec [of v] unfolding str strtol_def by (simp add: Let_def)
qed

lemma digit_facts: "CHR 0x0D \<notin> set (dec n)" "NUL \<notin> set (dec n)" "CHR ''$'' \<notin> set (dec n)"
  using dec_chars [of _ n] by (fastforce simp: is_digit_def)+

lemma nextArgument_bulk:
  assumes "length w < 2 ^ 31"
  shows "nextArgument (bulk w @ rest) = Inr (Some (rest, w @ crlf @ rest, length w))"
proof -
  have "c_strchr ((CHR ''$'' # dec (length w)) @ CHR 0x0D # CHR 0x0A # w @ crlf @ rest) (CHR 0x0D) =
      Inr (Some (CHR 0x0D # CHR 0x0A # w @ crlf @ rest))"
    by (rule c_strchr_at) (use digit_facts in auto)
  moreover have "strtol (c_str (dec (length w) @ CHR 0x0D # CHR 0x0A # w @ crlf @ rest)) = int (length w)"
    by (rule strtol_digits) (use assms in \<open>auto simp: is_digit_def\<close>)
  moreover have "nat (to_int (int (length w)) mod 2 ^ 64) = length w"
    using assms by simp
  moreover have "drop (length w + 4) (CHR 0x0D # CHR 0x0A # w @ CHR 0x0D # CHR 0x0A # rest) = rest"
    by (simp add: eval_nat_numeral)
  ultimately show ?thesis
    by (simp add: nextArgument_def bulk_def first_char_def Let_def)
qed

lemma nextArgument_command:
  assumes "length w < 2 ^ 31"
  shows "nextArgument (raw_command (w # ws) @ rest) =
    Inr (Some (concat (map bulk ws) @ rest, w @ crlf @ concat (map bulk ws) @ rest, length w))"
proof -
  have "c_strchr ((CHR ''*'' # dec (Suc (length ws)) @ crlf) @ CHR ''$'' # tl (bulk w) @ concat (map bulk ws) @ rest) (CHR ''$'') =
      Inr (Some (CHR ''$'' # tl (bulk w) @ concat (map bulk ws) @ rest))"
    by (rule c_strchr_at) (use digit_facts in auto)
  then have "nextArgument (raw_command (w # ws) @ rest) = nextArgument (bulk w @ concat (map bulk ws) @ rest)"
    by (simp add: nextArgument_def raw_command_def bulk_def first_char_def)
  then show ?thesis
    using nextArgument_bulk [OF assms] by simp
qed

text \<open>The word of an ordinary command: none of those that change the mode of the connection.\<close>

definition ordinary :: "string \<Rightarrow> bool" where
  "ordinary w \<longleftrightarrow> w \<noteq> [] \<and> CHR 0x0D \<notin> set w \<and>
     map c_tolower (if c_tolower (hd w) = CHR ''p'' then tl w else w) \<notin> {''subscribe'', ''unsubscribe'', ''monitor''}"

lemma c_tolower_CR: "c_tolower c = CHR 0x0D \<longleftrightarrow> c = CHR 0x0D"
  by (rule c_tolower_fixed) simp

lemma same_prefix_line:
  "CHR 0x0D \<notin> set w \<Longrightarrow> CHR 0x0D \<notin> set word \<Longrightarrow> map c_tolower word = word \<Longrightarrow> map c_tolower w \<noteq> word \<Longrightarrow>
    same_prefix (w @ CHR 0x0D # t) (word @ crlf) = Inr False"
proof (induction word arbitrary: w)
  case Nil
  then show ?case
    using c_tolower_CR [of "hd w"] c_tolower_CR [of "CHR 0x0D"] by (cases w) auto
next
  case (Cons x word)
  then show ?case
    using c_tolower_CR [of "CHR 0x0D"] by (cases w) auto
qed

text \<open>A connected context without subscriptions, monitoring or a beginning end, with this text to send.\<close>

definition sending :: "app \<Rightarrow> async \<Rightarrow> string \<Rightarrow> bool" where
  "sending A st out \<longleftrightarrow>
     \<not> freed st \<and> c_flags (ac_c (actx st)) AND
       (REDIS_BLOCK OR REDIS_DISCONNECTING OR REDIS_FREEING OR REDIS_IN_CALLBACK OR REDIS_MONITORING OR REDIS_SUBSCRIBED) = 0 \<and>
     (\<exists>s. c_obuf (ac_c (actx st)) = Some s \<and> wf_sds s \<and> sds_str s = out)"

text \<open>What sending a command changes: the output buffer, the list of callbacks, the record of the hooks.\<close>

definition sent :: "async \<Rightarrow> redisCallback list \<Rightarrow> async \<Rightarrow> bool" where
  "sent st cbs st' \<longleftrightarrow> (\<exists>obuf hk. st' = st\<lparr>actx := (actx st)\<lparr>ac_replies := ac_replies (actx st) @ cbs,
     ac_c := (ac_c (actx st))\<lparr>c_obuf := obuf\<rparr>\<rparr>, hooks := hk\<rparr>)"

lemma append_formatted:
  assumes "total_allocator m" "c_obuf c = Some s" "wf_sds s" "len \<le> length cmd" "sdslen s + len < 2 ^ 31"
  obtains s' where "redisAppendFormattedCommand m c cmd len = Inr (REDIS_OK, c\<lparr>c_obuf := Some s'\<rparr>)" "wf_sds s'"
    "sds_str s' = sds_str s @ take len cmd"
proof -
  have "succeeds (sdscatlen m s cmd len) (\<lambda>s'. wf_sds s' \<and> sds_str s' = sds_str s @ take len cmd)"
    using assms(3-5) by (intro sdscatlen_ok [OF assms(1)]) simp_all
  then obtain s' where "sdscatlen m s cmd len = Inr s'" "wf_sds s'" "sds_str s' = sds_str s @ take len cmd"
    by (auto simp: succeeds_iff)
  then show thesis
    using that assms(2) by (simp add: redisAppendFormattedCommand_def need_def)
qed

lemma command_sent:
  assumes "total_allocator (memory A)" "sending A st out" "ordinary w" "length out + length (raw_command (w # ws)) < 2 ^ 31"
  obtains st' where "redisAsyncCommand_now A fn priv (raw_command (w # ws) @ NUL # junk) (length (raw_command (w # ws))) st = Inr (REDIS_OK, st')"
    "sent st [\<lparr>cb_fn = fn, pending_subs = 1, cb_privdata = priv\<rparr>] st'" "sending A st' (out @ raw_command (w # ws))"
proof -
  let ?cmd = "raw_command (w # ws) @ NUL # junk" and ?len = "length (raw_command (w # ws))"
  let ?cb = "\<lparr>cb_fn = fn, pending_subs = 1, cb_privdata = priv\<rparr>"
  obtain s where st: "\<not> freed st" "\<not> flag_on st REDIS_DISCONNECTING" "\<not> flag_on st REDIS_FREEING" "\<not> flag_on st REDIS_SUBSCRIBED"
    "c_obuf (ac_c (actx st)) = Some s" "wf_sds s" "sds_str s = out"
    using assms(2) by (auto simp: sending_def flag_on_def has_flag_def and_or_zero)
  have "length w < 2 ^ 31"
    using assms(4) bulk_in [of w "w # ws"] by (simp add: raw_command_def)
  note arg = nextArgument_command [OF this, of ws "NUL # junk"]
  obtain c where c: "first_char (concat (map bulk ws) @ NUL # junk) = Inr c"
    by (cases "concat (map bulk ws) @ NUL # junk") (auto simp: first_char_def)
  obtain x xs where w: "w = x # xs" "CHR 0x0D \<notin> set w"
    using assms(3) by (cases w) (auto simp: ordinary_def)
  let ?w = "if c_tolower x = CHR ''p'' then xs else x # xs"
  have "same_prefix (?w @ CHR 0x0D # t) (word @ crlf) = Inr False" if "word \<in> {''subscribe'', ''unsubscribe'', ''monitor''}" for word t
  proof (rule same_prefix_line)
    show "map c_tolower word = word"
      using that by (auto simp: c_tolower_def)
  qed (use that assms(3) w in \<open>auto simp: ordinary_def split: if_splits\<close>)
  then have no: "same_prefix (?w @ CHR 0x0D # t) (''subscribe'' @ crlf) = Inr False"
    "same_prefix (?w @ CHR 0x0D # t) (''unsubscribe'' @ crlf) = Inr False"
    "same_prefix (?w @ CHR 0x0D # t) (''monitor'' @ crlf) = Inr False" for t
    by blast+
  have tail: "(if c_tolower x = CHR ''p'' then tl (w @ crlf @ t) else w @ crlf @ t) = ?w @ CHR 0x0D # CHR 0x0A # t" for t
    using w(1) by simp
  let ?st = "push_to A Replies ?cb st"
  have push: "ac_replies (actx ?st) = ac_replies (actx st) @ [?cb]" "ac_c (actx ?st) = ac_c (actx st)" "freed ?st = freed st"
    using assms(1) by (auto simp: push_to_def redisPushCallback_def total_allocator_def split: option.splits)
  have "sdslen s + ?len < 2 ^ 31"
    using assms(4) length_sds_str [OF st(6)] st(7) by simp
  then obtain s' where s': "redisAppendFormattedCommand (memory A) (ac_c (actx st)) ?cmd ?len =
      Inr (REDIS_OK, (ac_c (actx st))\<lparr>c_obuf := Some s'\<rparr>)" "wf_sds s'" "sds_str s' = out @ raw_command (w # ws)"
    using append_formatted [OF assms(1) st(5,6), of ?len ?cmd] st(7) by auto
  let ?st' = "EL AddWrite (on_c (\<lambda>_. (ac_c (actx st))\<lparr>c_obuf := Some s'\<rparr>) ?st)"
  have "redisAsyncCommand_now A fn priv ?cmd ?len st = Inr (REDIS_OK, ?st')"
    using st(1-4) no s'(1) push(2) w(1) c arg
    by (cases "c_tolower x = CHR ''p''") (simp_all add: redisAsyncCommand_now_def alive_def first_char_def Let_def)
  moreover have "sent st [?cb] ?st'"
    using push unfolding sent_def
    by (intro exI [of _ "Some s'"] exI [of _ "hooks ?st'"])
      (simp add: EL_def on_c_def on_ac_def push_to_def redisPushCallback_def split: option.splits)
  moreover have "sending A ?st' (out @ raw_command (w # ws))"
    using assms(2) push s'(2,3) by (simp add: sending_def EL_def)
  ultimately show thesis
    by (rule that)
qed

lemma sent_refl: "sent st [] st"
  unfolding sent_def by (intro exI [of _ "c_obuf (ac_c (actx st))"] exI [of _ "hooks st"]) simp

lemma sent_trans: "sent st cbs st1 \<Longrightarrow> sent st1 cbs' st2 \<Longrightarrow> sent st (cbs @ cbs') st2"
  unfolding sent_def by fastforce

text \<open>A client that sends commands in a row: a callback with its data and the words of each.\<close>

type_synonym sent_command = "nat \<times> nat \<times> string list"

fun send_all :: "app \<Rightarrow> sent_command list \<Rightarrow> async \<Rightarrow> async res" where
  "send_all A [] st = Inr st"
| "send_all A ((fn, priv, ws) # reqs) st =
     bindR (redisAsyncCommandArgv A (Some fn) priv (int (length ws)) ws (Some (map length ws)) st) (\<lambda>(status, st).
     send_all A reqs st)"

definition cb_for :: "sent_command \<Rightarrow> redisCallback" where
  "cb_for r = \<lparr>cb_fn = Some (fst r), pending_subs = 1, cb_privdata = fst (snd r)\<rparr>"

definition words_of :: "sent_command \<Rightarrow> string list" where
  "words_of r = snd (snd r)"

definition sendable :: "sent_command \<Rightarrow> bool" where
  "sendable r \<longleftrightarrow> words_of r \<noteq> [] \<and> ordinary (hd (words_of r))"

lemma command_argv_sent:
  assumes "total_allocator (memory A)" "sending A st out" "ordinary w" "length out + length (raw_command (w # ws)) < 2 ^ 31 - 1"
  obtains st' where "redisAsyncCommandArgv A fn priv (int (length (w # ws))) (w # ws) (Some (map length (w # ws))) st = Inr (REDIS_OK, st')"
    "sent st [\<lparr>cb_fn = fn, pending_subs = 1, cb_privdata = priv\<rparr>] st'" "sending A st' (out @ raw_command (w # ws))"
proof -
  have "argv_for (w # ws) (Some (map length (w # ws))) (w # ws)"
    by (simp add: argv_for_def list_all2_same)
  then obtain s where s: "redisFormatSdsCommandArgv (memory A) (int (length (w # ws))) (w # ws) (Some (map length (w # ws))) =
      Inr (int (length (raw_command (w # ws))), Some s)" "wf_sds s" "sds_str s = raw_command (w # ws)"
    using formatSdsCommandArgv_ok [OF assms(1), of "w # ws" "Some (map length (w # ws))" "w # ws"] raw_command_eq [of "w # ws"] assms(4)
    by (auto simp: succeeds_iff)
  then have "take (sdslen s) (sds_buf s) = raw_command (w # ws)" "sds_buf s ! sdslen s = NUL" "sdslen s < length (sds_buf s)"
    by (auto simp: sds_str_def wf_sds_def sdslen_def)
  then obtain junk where "sds_buf s = raw_command (w # ws) @ NUL # junk"
    by (metis id_take_nth_drop)
  moreover have small: "length out + length (raw_command (w # ws)) < 2 ^ 31"
    using assms(4) by simp
  moreover obtain st' where "redisAsyncCommand_now A fn priv (raw_command (w # ws) @ NUL # junk) (length (raw_command (w # ws))) st =
      Inr (REDIS_OK, st')" "sent st [\<lparr>cb_fn = fn, pending_subs = 1, cb_privdata = priv\<rparr>] st'" "sending A st' (out @ raw_command (w # ws))"
    by (rule command_sent [OF assms(1-3) small])
  ultimately show thesis
    using that s(1) by (simp add: redisAsyncCommandArgv_def need_def)
qed

lemma send_all_sent:
  "total_allocator (memory A) \<Longrightarrow> sending A st out \<Longrightarrow> list_all sendable reqs \<Longrightarrow>
    length out + length (concat (map (\<lambda>r. raw_command (words_of r)) reqs)) < 2 ^ 31 - 1 \<Longrightarrow>
    \<exists>st'. send_all A reqs st = Inr st' \<and> sent st (map cb_for reqs) st' \<and>
      sending A st' (out @ concat (map (\<lambda>r. raw_command (words_of r)) reqs))"
proof (induction reqs arbitrary: st out)
  case Nil
  then show ?case
    by (simp add: sent_refl)
next
  case (Cons r reqs)
  obtain fn priv w ws where r: "r = (fn, priv, w # ws)" "ordinary w"
    using Cons.prems(3) by (cases r) (auto simp: sendable_def words_of_def neq_Nil_conv)
  have small: "length out + length (raw_command (w # ws)) < 2 ^ 31 - 1"
    using Cons.prems(4) by (simp add: r words_of_def)
  obtain st1 where st1: "redisAsyncCommandArgv A (Some fn) priv (int (length (w # ws))) (w # ws) (Some (map length (w # ws))) st =
      Inr (REDIS_OK, st1)" "sent st [cb_for r] st1" "sending A st1 (out @ raw_command (w # ws))"
    by (rule command_argv_sent [OF Cons.prems(1,2) r(2) small, of "Some fn" priv]) (simp add: r cb_for_def)
  obtain st' where "send_all A reqs st1 = Inr st'" "sent st1 (map cb_for reqs) st'"
    "sending A st' ((out @ raw_command (w # ws)) @ concat (map (\<lambda>r. raw_command (words_of r)) reqs))"
    using Cons.IH [OF Cons.prems(1) st1(3)] Cons.prems(3,4) by (auto simp: r words_of_def)
  moreover have "send_all A (r # reqs) st = send_all A reqs st1"
    using st1(1) by (simp add: r)
  ultimately show ?case
    using sent_trans [OF st1(2)] by (intro exI [of _ st']) (simp add: r words_of_def)
qed

section \<open>Reading the replies\<close>

lemma feed_idle:
  assumes "idle r" "rd_input r = []" "total_allocator m" "t \<noteq> []" "rd_len r + length t < 2 ^ 31"
  obtains r' where "redisReaderFeed m r h (Some t) (length t) = Inr (REDIS_OK, r', h)" "idle r'" "rd_input r' = t" "rd_fn r' = rd_fn r"
proof -
  obtain r' where r': "redisReaderFeed m r h (Some t) (length t) = Inr (REDIS_OK, r', h)" "live r'" "more_input t r r'"
    using feed_ok [OF idle_live [OF assms(1)] assms(3), of "length t" t h thesis] assms(4,5) by auto
  note more = more_fields [OF r'(3)]
  have "idle r'"
    using r'(2) more(1,2,4,5) assms(1) by (auto simp: idle_def live_def)
  then show thesis
    using that r'(1) more(3,9) assms(2) by simp
qed

section \<open>Properties\<close>

text \<open>A connection that is open, has nothing to send and waits for no reply.\<close>

definition at_rest :: "app \<Rightarrow> async \<Rightarrow> bool" where
  "at_rest A st \<longleftrightarrow> sending A st [] \<and> flag_on st REDIS_CONNECTED \<and> c_err (ac_c (actx st)) = 0 \<and> ac_replies (actx st) = [] \<and>
     heap_ok (w_heap (wd st)) \<and>
     (\<exists>r. c_reader (ac_c (actx st)) = Some r \<and> idle r \<and> rd_fn r = Some (defaultFunctions (memory A)) \<and> rd_input r = [])"

text \<open>C12: commands sent in a row are written to the output buffer in that order, and when the server's replies to the first of them
  arrive, the callbacks run in the order of the commands, each once, with its own data and with the object of its own reply,
  although callbacks may send further commands: these wait behind the ones sent before.  Every reply has been freed in the end.\<close>

theorem commands_answered_in_order:
  assumes "total_allocator (memory A)" "polite A" "at_rest A st" "list_all sendable reqs"
    and "length (concat (map (\<lambda>r. raw_command (words_of r)) reqs)) < 2 ^ 31 - 1"
    and "vs \<noteq> []" "length vs \<le> length reqs" "list_all (resp_ok 8) vs"
    and "w_reads (wd st) = RdData (concat (map ser vs)) # es"
    and "length (concat (map ser vs)) \<le> 1024 * 16" "length (concat (map ser vs)) \<le> rd_room (ac_c (actx st))"
  shows "\<exists>st1 st2 rs more. send_all A reqs st = Inr st1 \<and>
    sending A st1 (concat (map (\<lambda>r. raw_command (words_of r)) reqs)) \<and>
    redisAsyncHandleRead A st1 = Inr st2 \<and> runs st2 = runs st @ rs \<and>
    map fst rs = map cb_for (take (length vs) reqs) \<and> list_all2 (\<lambda>(_, obj, h) v. represents h obj v) rs vs \<and>
    ac_replies (actx st2) = map cb_for (drop (length vs) reqs) @ more \<and>
    h_objs (w_heap (wd st2)) = h_objs (w_heap (wd st))"
proof -
  define t where t: "t = concat (map ser vs)"
  have st: "sending A st []" "flag_on st REDIS_CONNECTED" "c_err (ac_c (actx st)) = 0" "ac_replies (actx st) = []" "heap_ok (w_heap (wd st))"
    using assms(3) by (simp_all add: at_rest_def)
  obtain r where r: "c_reader (ac_c (actx st)) = Some r" "idle r" "rd_fn r = Some (defaultFunctions (memory A))" "rd_input r = []"
    using assms(3) by (auto simp: at_rest_def)
  obtain st1 where st1: "send_all A reqs st = Inr st1" "sent st (map cb_for reqs) st1"
    "sending A st1 (concat (map (\<lambda>r. raw_command (words_of r)) reqs))"
    using send_all_sent [OF assms(1) st(1) assms(4)] assms(5) by auto
  then obtain obuf hk where eq: "st1 = st\<lparr>actx := (actx st)\<lparr>ac_replies := map cb_for reqs,
      ac_c := (ac_c (actx st))\<lparr>c_obuf := obuf\<rparr>\<rparr>, hooks := hk\<rparr>"
    using st(4) by (auto simp: sent_def)
  have "t \<noteq> []"
    using assms(6) ser_not_Nil unfolding t by (cases vs) auto
  moreover have "rd_len r + length t < 2 ^ 31"
    using assms(11)[folded t] r(1,2) \<open>t \<noteq> []\<close> by (auto simp: rd_room_def idle_def)
  ultimately obtain r' where r': "redisReaderFeed (memory A) r (w_heap (wd st)) (Some t) (length t) = Inr (REDIS_OK, r', w_heap (wd st))"
    "idle r'" "rd_input r' = t" "rd_fn r' = rd_fn r"
    using feed_idle [OF r(2,4) assms(1)] by metis
  let ?c = "(ac_c (actx st1))\<lparr>c_reader := Some r'\<rparr>" and ?w = "(wd st)\<lparr>w_reads := es\<rparr>"
  let ?st2 = "EL AddRead (with_c ?c ?w st1)"
  have read: "redisBufferRead (memory A) (errtext A) (ac_c (actx st1)) (wd st1) = Inr (REDIS_OK, ?c, ?w)"
    using st(3) r(1) r'(1) assms(9,10)[folded t] \<open>t \<noteq> []\<close> by (simp add: redisBufferRead_def eq need_def Let_def)
  have "connected A st1 = Inr (True, st1)"
    using st(1,2) by (simp add: connected_def alive_def sending_def flag_on_def eq)
  then have "redisAsyncHandleRead A st1 = redisProcessCallbacks A ?st2"
    using read by (simp add: redisAsyncHandleRead_def)
  moreover have "holds A ?st2 vs"
    using st1(3) st(5) r(3) r' t by (auto simp: holds_def sending_def and_or_zero EL_def eq)
  moreover have "ac_replies (actx ?st2) = map cb_for reqs" "runs ?st2 = runs st" "w_heap (wd ?st2) = w_heap (wd st)"
    by (simp_all add: EL_def eq)
  moreover have "cb_fn cb \<noteq> None" if "cb \<in> set (take (length vs) (map cb_for reqs))" for cb
    using that in_set_takeD by (fastforce simp: cb_for_def)
  ultimately obtain st3 rs more where "redisAsyncHandleRead A st1 = Inr st3" "runs st3 = runs st @ rs"
    "map fst rs = take (length vs) (map cb_for reqs)" "list_all2 (\<lambda>(_, obj, h) v. represents h obj v) rs vs"
    "ac_replies (actx st3) = drop (length vs) (map cb_for reqs) @ more" "h_objs (w_heap (wd st3)) = h_objs (w_heap (wd st))"
    using replies_in_order [OF assms(1,2), of ?st2 vs] assms(7,8) by auto
  then show ?thesis
    using st1(1,3) by (auto simp: take_map drop_map)
qed

text \<open>Three commands, and the replies to two of them in one read; every callback sends another command.\<close>

definition echo_app :: app where
  "echo_app = \<lparr>memory = zero_alloc, errtext = \<lambda>_. [],
     callback = \<lambda>fn reply priv st. Inr (on_ac (\<lambda>ac. ac\<lparr>ac_replies := ac_replies ac @ [cb_of 9]\<rparr>) st),
     notify = \<lambda>fn status st. Inr st, check_socket = \<lambda>c w. Inr (REDIS_OK, False, c, w)\<rparr>"

definition two_replies :: "resp list" where
  "two_replies = [RInteger 7, RStatus ''OK'']"

definition three_requests :: "sent_command list" where
  "three_requests = [(1, 10, [''INCR'', ''n'']), (2, 20, [''SET'', ''k'', ''v'']), (3, 30, [''PING''])]"

definition open_connection :: async where
  "open_connection =
     \<lparr>actx = \<lparr>ac_c = fresh_context\<lparr>c_flags := REDIS_CONNECTED\<rparr>, ac_err = 0, ac_errstr = [], ac_ev = \<lambda>_. True,
        ac_onDisconnect = None, ac_onConnect = None, ac_replies = [], ac_invalid = [], ac_channels = fresh_dict, ac_patterns = fresh_dict\<rparr>,
      freed = False, wd = dribble\<lparr>w_reads := [RdData (concat (map ser two_replies))]\<rparr>, hooks = [], runs = []\<rparr>"

lemma echo_polite: "polite echo_app"
proof -
  have "callback echo_app fn reply priv st = Inr (st\<lparr>actx := (actx st)\<lparr>ac_replies := ac_replies (actx st) @ [cb_of 9],
      ac_c := (ac_c (actx st))\<lparr>c_obuf := c_obuf (ac_c (actx st))\<rparr>\<rparr>, hooks := hooks st\<rparr>)" for fn reply priv st
    by (simp add: echo_app_def on_ac_def)
  then show ?thesis
    unfolding polite_def by blast
qed

lemma connection_at_rest: "at_rest echo_app open_connection" "rd_room (ac_c (actx open_connection)) = 2 ^ 31 - 1"
proof -
  have "sending echo_app open_connection []" "flag_on open_connection REDIS_CONNECTED"
    by (simp_all add: sending_def open_connection_def fresh_context_def empty_sds_wf flag_on_def has_flag_def REDIS_CONNECTED_def
        REDIS_BLOCK_def REDIS_DISCONNECTING_def REDIS_FREEING_def REDIS_IN_CALLBACK_def REDIS_MONITORING_def REDIS_SUBSCRIBED_def)
  then show "at_rest echo_app open_connection" "rd_room (ac_c (actx open_connection)) = 2 ^ 31 - 1"
    using fresh_quiet by (auto simp: at_rest_def open_connection_def fresh_context_def dribble_def heap_ok_empty echo_app_def
        quiet_def rd_room_def)
qed

theorem commands_answered_in_order_witness:
  "\<exists>st1 st2 rs more. send_all echo_app three_requests open_connection = Inr st1 \<and>
    redisAsyncHandleRead echo_app st1 = Inr st2 \<and> runs st2 = rs \<and>
    map fst rs = map cb_for [(1, 10, [''INCR'', ''n'']), (2, 20, [''SET'', ''k'', ''v''])] \<and>
    list_all2 (\<lambda>(_, obj, h) v. represents h obj v) rs [RInteger 7, RStatus ''OK''] \<and>
    ac_replies (actx st2) = cb_for (3, 30, [''PING'']) # more"
proof -
  have "list_all sendable three_requests" "length (concat (map (\<lambda>r. raw_command (words_of r)) three_requests)) = 62"
    "length (concat (map ser two_replies)) = 9"
    by code_simp+
  moreover have "w_reads (wd open_connection) = RdData (concat (map ser two_replies)) # []" "runs open_connection = []"
    by (simp_all add: open_connection_def)
  moreover have "two_replies \<noteq> []" "length two_replies \<le> length three_requests" "list_all (resp_ok 8) two_replies"
    "take (length two_replies) three_requests = [(1, 10, [''INCR'', ''n'']), (2, 20, [''SET'', ''k'', ''v''])]"
    "drop (length two_replies) three_requests = [(3, 30, [''PING''])]"
    by (simp_all add: two_replies_def three_requests_def)
  moreover have "total_allocator (memory echo_app)"
    by (simp add: echo_app_def)
  ultimately show ?thesis
    using commands_answered_in_order [OF _ echo_polite connection_at_rest(1), of three_requests two_replies "[]"] connection_at_rest(2)
    by (auto simp: two_replies_def)
qed

end
