(* ===== verification/JsonValue.thy ===== *)
theory JsonValue
  imports JsonText "HOL-Library.List_Lexorder"
begin

text \<open>
  The rest of the value class of src/jsoncpp (json_value.cpp): the order and the equality of values,
  the tests of the type, the conversions of numbers, access with a default, removal of members, and
  the paths that lead into a value.

  A double is its 64 bits, read here as a multiple of \<open>2^-1074\<close>, the smallest positive one; an infinity
  reads as a number beyond all others and a NaN is excluded from every comparison.  Arrays have no
  gaps, as every array the readers and \<open>append\<close> build; the access by index that makes a gap,
  \<open>resize\<close> and \<open>Path::make\<close>, which uses it, are left out.
\<close>

section \<open>Doubles\<close>

definition double_exponent :: "64 word \<Rightarrow> nat" where
  "double_exponent w = unat w div 2 ^ 52 mod 2 ^ 11"

definition double_fraction :: "64 word \<Rightarrow> nat" where
  "double_fraction w = unat w mod 2 ^ 52"

definition is_nan :: "64 word \<Rightarrow> bool" where
  "is_nan w \<longleftrightarrow> double_exponent w = 2047 \<and> double_fraction w \<noteq> 0"

definition double_magnitude :: "64 word \<Rightarrow> nat" where
  "double_magnitude w =
     (if double_exponent w = 0 then double_fraction w
      else (2 ^ 52 + double_fraction w) * 2 ^ (double_exponent w - 1))"

definition double_scaled :: "64 word \<Rightarrow> int" where
  "double_scaled w = (if 2 ^ 63 \<le> unat w then - int (double_magnitude w) else int (double_magnitude w))"

definition double_less :: "64 word \<Rightarrow> 64 word \<Rightarrow> bool" where
  "double_less a b \<longleftrightarrow> \<not> is_nan a \<and> \<not> is_nan b \<and> double_scaled a < double_scaled b"

definition double_equal :: "64 word \<Rightarrow> 64 word \<Rightarrow> bool" where
  "double_equal a b \<longleftrightarrow> \<not> is_nan a \<and> \<not> is_nan b \<and> double_scaled a = double_scaled b"

text \<open>
  A comparison with an integer converts the integer first; \<open>maxInt64\<close> and \<open>maxUInt64\<close> become \<open>2^63\<close>
  and \<open>2^64\<close>, the other limits are exact.
\<close>

definition double_unit :: int where
  "double_unit = 2 ^ 1074"

lemma double_unit_pos: "0 < double_unit"
  by (simp add: double_unit_def)

definition InRange :: "64 word \<Rightarrow> int \<Rightarrow> int \<Rightarrow> bool" where
  "InRange d low high \<longleftrightarrow>
     \<not> is_nan d \<and> low * double_unit \<le> double_scaled d \<and> double_scaled d \<le> high * double_unit"

definition below :: "64 word \<Rightarrow> int \<Rightarrow> bool" where
  "below d n \<longleftrightarrow> \<not> is_nan d \<and> double_scaled d < n * double_unit"

definition IsIntegral :: "64 word \<Rightarrow> bool" where
  "IsIntegral d \<longleftrightarrow> \<not> is_nan d \<and> double_unit dvd double_scaled d"

definition truncate_double :: "64 word \<Rightarrow> int" where
  "truncate_double d = sgn (double_scaled d) * (\<bar>double_scaled d\<bar> div double_unit)"

text \<open>The conversion of an integer rounds to the nearest double, a tie to the even one.\<close>

fun bit_length :: "nat \<Rightarrow> nat" where
  "bit_length n = (if n = 0 then 0 else Suc (bit_length (n div 2)))"

declare bit_length.simps [simp del]

definition round_even :: "nat \<Rightarrow> nat \<Rightarrow> nat" where
  "round_even n k =
     (let q = n div 2 ^ k; r = n mod 2 ^ k in
      if 2 * r < 2 ^ k \<or> 2 * r = 2 ^ k \<and> even q then q else q + 1)"

definition int_to_double :: "int \<Rightarrow> 64 word" where
  "int_to_double i =
     (let n = nat \<bar>i\<bar>; l = bit_length n;
          m = (if l \<le> 53 then n * 2 ^ (53 - l) else round_even n (l - 53));
          bits = (if n = 0 then 0 else (1022 + l) * 2 ^ 52 + (m - 2 ^ 52))
      in word_of_nat (if i < 0 then 2 ^ 63 + bits else bits))"

section \<open>Types\<close>

datatype ValueType =
    nullValue | intValue | uintValue | realValue | stringValue | booleanValue | arrayValue | objectValue

fun type_number :: "ValueType \<Rightarrow> int" where
  "type_number nullValue = 0"
| "type_number intValue = 1"
| "type_number uintValue = 2"
| "type_number realValue = 3"
| "type_number stringValue = 4"
| "type_number booleanValue = 5"
| "type_number arrayValue = 6"
| "type_number objectValue = 7"

fun json_type :: "json \<Rightarrow> ValueType" where
  "json_type JNull = nullValue"
| "json_type (JInt _) = intValue"
| "json_type (JUInt _) = uintValue"
| "json_type (JReal _) = realValue"
| "json_type (JString _) = stringValue"
| "json_type (JBool _) = booleanValue"
| "json_type (JArray _) = arrayValue"
| "json_type (JObject _) = objectValue"

section \<open>Order and equality\<close>

text \<open>
  Containers compare by the difference of their sizes, cut to an \<open>int\<close>, and then as
  \<open>std::lexicographical_compare\<close> does, the members of objects as pairs of name and value.
\<close>

function json_less :: "json \<Rightarrow> json \<Rightarrow> bool"
  and values_less :: "json list \<Rightarrow> json list \<Rightarrow> bool"
  and members_less :: "(string \<times> json) list \<Rightarrow> (string \<times> json) list \<Rightarrow> bool" where
  "json_less a b =
     (let typeDelta = type_number (json_type a) - type_number (json_type b) in
      if typeDelta \<noteq> 0 then typeDelta < 0
      else case a of
        JNull \<Rightarrow> False
      | JInt i \<Rightarrow> (case b of JInt j \<Rightarrow> i < j | _ \<Rightarrow> False)
      | JUInt i \<Rightarrow> (case b of JUInt j \<Rightarrow> i < j | _ \<Rightarrow> False)
      | JReal r \<Rightarrow> (case b of JReal r' \<Rightarrow> double_less r r' | _ \<Rightarrow> False)
      | JBool x \<Rightarrow> (case b of JBool y \<Rightarrow> \<not> x \<and> y | _ \<Rightarrow> False)
      | JString s \<Rightarrow> (case b of JString t \<Rightarrow> byte_less s t | _ \<Rightarrow> False)
      | JArray vs \<Rightarrow> (case b of
            JArray ws \<Rightarrow>
              (let delta = to_int (int (length vs) - int (length ws)) in
               if delta \<noteq> 0 then delta < 0 else values_less vs ws)
          | _ \<Rightarrow> False)
      | JObject ms \<Rightarrow> (case b of
            JObject ns \<Rightarrow>
              (let delta = to_int (int (length ms) - int (length ns)) in
               if delta \<noteq> 0 then delta < 0 else members_less ms ns)
          | _ \<Rightarrow> False))"
| "values_less _ [] = False"
| "values_less [] (_ # _) = True"
| "values_less (v # vs) (w # ws) = (json_less v w \<or> \<not> json_less w v \<and> values_less vs ws)"
| "members_less _ [] = False"
| "members_less [] (_ # _) = True"
| "members_less ((k, v) # ms) ((l, w) # ns) =
     ((byte_less k l \<or> \<not> byte_less l k \<and> json_less v w) \<or>
      \<not> (byte_less l k \<or> \<not> byte_less k l \<and> json_less w v) \<and> members_less ms ns)"
  by pat_completeness auto

termination
  by (relation "measure (\<lambda>x. case x of
        Inl (a, b) \<Rightarrow> size a + size b
      | Inr (Inl (vs, ws)) \<Rightarrow> size_list size vs + size_list size ws
      | Inr (Inr (ms, ns)) \<Rightarrow> size_list (size_prod (\<lambda>_. 0) size) ms + size_list (size_prod (\<lambda>_. 0) size) ns)") auto

declare json_less.simps [simp del]

fun json_equal :: "json \<Rightarrow> json \<Rightarrow> bool"
  and values_equal :: "json list \<Rightarrow> json list \<Rightarrow> bool"
  and members_equal :: "(string \<times> json) list \<Rightarrow> (string \<times> json) list \<Rightarrow> bool" where
  "json_equal a b =
     (if json_type a \<noteq> json_type b then False
      else case a of
        JNull \<Rightarrow> True
      | JInt i \<Rightarrow> (case b of JInt j \<Rightarrow> i = j | _ \<Rightarrow> False)
      | JUInt i \<Rightarrow> (case b of JUInt j \<Rightarrow> i = j | _ \<Rightarrow> False)
      | JReal r \<Rightarrow> (case b of JReal r' \<Rightarrow> double_equal r r' | _ \<Rightarrow> False)
      | JBool x \<Rightarrow> (case b of JBool y \<Rightarrow> x = y | _ \<Rightarrow> False)
      | JString s \<Rightarrow> (case b of JString t \<Rightarrow> s = t | _ \<Rightarrow> False)
      | JArray vs \<Rightarrow> (case b of JArray ws \<Rightarrow> length vs = length ws \<and> values_equal vs ws | _ \<Rightarrow> False)
      | JObject ms \<Rightarrow> (case b of JObject ns \<Rightarrow> length ms = length ns \<and> members_equal ms ns | _ \<Rightarrow> False))"
| "values_equal (v # vs) (w # ws) = (json_equal v w \<and> values_equal vs ws)"
| "values_equal [] [] = True"
| "values_equal _ _ = False"
| "members_equal ((k, v) # ms) ((l, w) # ns) = ((k = l \<and> json_equal v w) \<and> members_equal ms ns)"
| "members_equal [] [] = True"
| "members_equal _ _ = False"

declare json_equal.simps [simp del]

definition json_greater :: "json \<Rightarrow> json \<Rightarrow> bool" where
  "json_greater a b \<longleftrightarrow> json_less b a"

definition json_less_equal :: "json \<Rightarrow> json \<Rightarrow> bool" where
  "json_less_equal a b \<longleftrightarrow> \<not> json_less b a"

definition json_greater_equal :: "json \<Rightarrow> json \<Rightarrow> bool" where
  "json_greater_equal a b \<longleftrightarrow> \<not> json_less a b"

definition json_not_equal :: "json \<Rightarrow> json \<Rightarrow> bool" where
  "json_not_equal a b \<longleftrightarrow> \<not> json_equal a b"

definition json_compare :: "json \<Rightarrow> json \<Rightarrow> int" where
  "json_compare a b = (if json_less a b then - 1 else if json_greater a b then 1 else 0)"

section \<open>Tests and conversions\<close>

definition isBool :: "json \<Rightarrow> bool" where
  "isBool v \<longleftrightarrow> json_type v = booleanValue"

definition isInt :: "json \<Rightarrow> bool" where
  "isInt v =
     (case v of
        JInt i \<Rightarrow> - (2 ^ 31) \<le> i \<and> i \<le> 2 ^ 31 - 1
      | JUInt n \<Rightarrow> n \<le> 2 ^ 31 - 1
      | JReal r \<Rightarrow> InRange r (- (2 ^ 31)) (2 ^ 31 - 1) \<and> IsIntegral r
      | _ \<Rightarrow> False)"

definition isUInt :: "json \<Rightarrow> bool" where
  "isUInt v =
     (case v of
        JInt i \<Rightarrow> 0 \<le> i \<and> i \<le> 2 ^ 32 - 1
      | JUInt n \<Rightarrow> n \<le> 2 ^ 32 - 1
      | JReal r \<Rightarrow> InRange r 0 (2 ^ 32 - 1) \<and> IsIntegral r
      | _ \<Rightarrow> False)"

definition isInt64 :: "json \<Rightarrow> bool" where
  "isInt64 v =
     (case v of
        JInt i \<Rightarrow> True
      | JUInt n \<Rightarrow> n \<le> 2 ^ 63 - 1
      | JReal r \<Rightarrow> InRange r (- (2 ^ 63)) (2 ^ 63) \<and> below r (2 ^ 63) \<and> IsIntegral r
      | _ \<Rightarrow> False)"

definition isUInt64 :: "json \<Rightarrow> bool" where
  "isUInt64 v =
     (case v of
        JInt i \<Rightarrow> 0 \<le> i
      | JUInt n \<Rightarrow> True
      | JReal r \<Rightarrow> InRange r 0 (2 ^ 64) \<and> below r (2 ^ 64) \<and> IsIntegral r
      | _ \<Rightarrow> False)"

definition isIntegral :: "json \<Rightarrow> bool" where
  "isIntegral v \<longleftrightarrow> isInt64 v \<or> isUInt64 v"

definition isDouble :: "json \<Rightarrow> bool" where
  "isDouble v \<longleftrightarrow> json_type v = realValue \<or> isIntegral v"

definition isNumeric :: "json \<Rightarrow> bool" where
  "isNumeric v \<longleftrightarrow> isIntegral v \<or> isDouble v"

definition isString :: "json \<Rightarrow> bool" where
  "isString v \<longleftrightarrow> json_type v = stringValue"

definition isArray :: "json \<Rightarrow> bool" where
  "isArray v \<longleftrightarrow> json_type v = arrayValue"

definition isObject :: "json \<Rightarrow> bool" where
  "isObject v \<longleftrightarrow> json_type v = objectValue"

text \<open>\<open>asInt\<close> of the theory \<open>Json\<close> with its parameter replaced by the conversion of the code.\<close>

definition double_to_int32 :: "64 word \<Rightarrow> int option" where
  "double_to_int32 r = (if InRange r (- (2 ^ 31)) (2 ^ 31 - 1) then Some (truncate_double r) else None)"

definition bool_int :: "bool \<Rightarrow> int" where
  "bool_int b = (if b then 1 else 0)"

definition asUInt :: "json \<Rightarrow> int res" where
  "asUInt v =
     (case v of
        JInt i \<Rightarrow> if isUInt v then Inr i else Inl runtime_error
      | JUInt n \<Rightarrow> if isUInt v then Inr n else Inl runtime_error
      | JReal r \<Rightarrow> if InRange r 0 (2 ^ 32 - 1) then Inr (truncate_double r) else Inl runtime_error
      | JNull \<Rightarrow> Inr 0
      | JBool b \<Rightarrow> Inr (bool_int b)
      | _ \<Rightarrow> Inl runtime_error)"

text \<open>
  The range tests of the 64-bit conversions let the rounded upper limit itself pass; converting it is
  undefined, which is the fault \<open>OutOfBounds\<close> here.
\<close>

definition converted :: "int \<Rightarrow> int \<Rightarrow> int \<Rightarrow> int res" where
  "converted low high i = (if low \<le> i \<and> i \<le> high then Inr i else Inl OutOfBounds)"

definition asInt64 :: "json \<Rightarrow> int res" where
  "asInt64 v =
     (case v of
        JInt i \<Rightarrow> Inr i
      | JUInt n \<Rightarrow> if isInt64 v then Inr n else Inl runtime_error
      | JReal r \<Rightarrow>
          if InRange r (- (2 ^ 63)) (2 ^ 63) then converted (- (2 ^ 63)) (2 ^ 63 - 1) (truncate_double r)
          else Inl runtime_error
      | JNull \<Rightarrow> Inr 0
      | JBool b \<Rightarrow> Inr (bool_int b)
      | _ \<Rightarrow> Inl runtime_error)"

definition asUInt64 :: "json \<Rightarrow> int res" where
  "asUInt64 v =
     (case v of
        JInt i \<Rightarrow> if isUInt64 v then Inr i else Inl runtime_error
      | JUInt n \<Rightarrow> Inr n
      | JReal r \<Rightarrow>
          if InRange r 0 (2 ^ 64) then converted 0 (2 ^ 64 - 1) (truncate_double r) else Inl runtime_error
      | JNull \<Rightarrow> Inr 0
      | JBool b \<Rightarrow> Inr (bool_int b)
      | _ \<Rightarrow> Inl runtime_error)"

definition asLargestInt :: "json \<Rightarrow> int res" where
  "asLargestInt v = asInt64 v"

definition asLargestUInt :: "json \<Rightarrow> int res" where
  "asLargestUInt v = asUInt64 v"

definition asDouble :: "json \<Rightarrow> 64 word res" where
  "asDouble v =
     (case v of
        JInt i \<Rightarrow> Inr (int_to_double i)
      | JUInt n \<Rightarrow> Inr (int_to_double n)
      | JReal r \<Rightarrow> Inr r
      | JNull \<Rightarrow> Inr 0
      | JBool b \<Rightarrow> Inr (int_to_double (bool_int b))
      | _ \<Rightarrow> Inl runtime_error)"

definition asBool :: "json \<Rightarrow> bool res" where
  "asBool v =
     (case v of
        JBool b \<Rightarrow> Inr b
      | JNull \<Rightarrow> Inr False
      | JInt i \<Rightarrow> Inr (i \<noteq> 0)
      | JUInt n \<Rightarrow> Inr (n \<noteq> 0)
      | JReal r \<Rightarrow> Inr (is_nan r \<or> double_scaled r \<noteq> 0)
      | _ \<Rightarrow> Inl runtime_error)"

definition asCString :: "json \<Rightarrow> string res" where
  "asCString v = (case v of JString s \<Rightarrow> Inr s | _ \<Rightarrow> Inl runtime_error)"

definition is_zero :: "64 word res \<Rightarrow> bool" where
  "is_zero r = (case r of Inl _ \<Rightarrow> False | Inr d \<Rightarrow> double_equal d 0)"

definition in_range :: "json \<Rightarrow> int \<Rightarrow> int \<Rightarrow> bool" where
  "in_range v low high = (case v of JReal r \<Rightarrow> InRange r low high | _ \<Rightarrow> False)"

fun isConvertibleTo :: "json \<Rightarrow> ValueType \<Rightarrow> bool" where
  "isConvertibleTo v nullValue \<longleftrightarrow>
     isNumeric v \<and> is_zero (asDouble v) \<or> v = JBool False \<or> v = JString [] \<or>
     isArray v \<and> json_size v = 0 \<or> isObject v \<and> json_size v = 0 \<or> json_type v = nullValue"
| "isConvertibleTo v intValue \<longleftrightarrow>
     isInt v \<or> in_range v (- (2 ^ 31)) (2 ^ 31 - 1) \<or> json_type v = booleanValue \<or> json_type v = nullValue"
| "isConvertibleTo v uintValue \<longleftrightarrow>
     isUInt v \<or> in_range v 0 (2 ^ 32 - 1) \<or> json_type v = booleanValue \<or> json_type v = nullValue"
| "isConvertibleTo v realValue \<longleftrightarrow> isNumeric v \<or> json_type v = booleanValue \<or> json_type v = nullValue"
| "isConvertibleTo v booleanValue \<longleftrightarrow> isNumeric v \<or> json_type v = booleanValue \<or> json_type v = nullValue"
| "isConvertibleTo v stringValue \<longleftrightarrow>
     isNumeric v \<or> json_type v = booleanValue \<or> json_type v = stringValue \<or> json_type v = nullValue"
| "isConvertibleTo v arrayValue \<longleftrightarrow> json_type v = arrayValue \<or> json_type v = nullValue"
| "isConvertibleTo v objectValue \<longleftrightarrow> json_type v = objectValue \<or> json_type v = nullValue"

section \<open>Elements and members\<close>

definition json_empty :: "json \<Rightarrow> bool" where
  "json_empty v \<longleftrightarrow> (isNull v \<or> isArray v \<or> isObject v) \<and> json_size v = 0"

definition json_clear :: "json \<Rightarrow> json res" where
  "json_clear v =
     (case v of
        JNull \<Rightarrow> Inr JNull
      | JArray _ \<Rightarrow> Inr (JArray [])
      | JObject _ \<Rightarrow> Inr (JObject [])
      | _ \<Rightarrow> Inl runtime_error)"

text \<open>
  A \<open>const\<close> access gives a reference: to the element, or to the one object \<open>Value::null\<close>, which is
  \<open>None\<close>.  \<open>get\<close> and \<open>isMember\<close> compare the references, so a null element counts as present.
\<close>

definition const_index :: "json \<Rightarrow> nat \<Rightarrow> json option res" where
  "const_index v index =
     (case v of
        JNull \<Rightarrow> Inr None
      | JArray vs \<Rightarrow> Inr (if index < length vs then Some (vs ! index) else None)
      | _ \<Rightarrow> Inl runtime_error)"

definition const_key :: "json \<Rightarrow> string \<Rightarrow> json option res" where
  "const_key v key =
     (case v of
        JNull \<Rightarrow> Inr None
      | JObject ms \<Rightarrow> Inr (map_of ms (c_str key))
      | _ \<Rightarrow> Inl runtime_error)"

definition get_index :: "json \<Rightarrow> nat \<Rightarrow> json \<Rightarrow> json res" where
  "get_index v index defaultValue = bindR (const_index v index) (\<lambda>r. Inr (case r of None \<Rightarrow> defaultValue | Some x \<Rightarrow> x))"

definition get_member :: "json \<Rightarrow> string \<Rightarrow> json \<Rightarrow> json res" where
  "get_member v key defaultValue = bindR (const_key v key) (\<lambda>r. Inr (case r of None \<Rightarrow> defaultValue | Some x \<Rightarrow> x))"

definition isValidIndex :: "json \<Rightarrow> nat \<Rightarrow> bool" where
  "isValidIndex v index \<longleftrightarrow> index < json_size v"

definition isMember :: "json \<Rightarrow> string \<Rightarrow> bool res" where
  "isMember v key = bindR (const_key v key) (\<lambda>r. Inr (r \<noteq> None))"

fun erase_member :: "string \<Rightarrow> (string \<times> json) list \<Rightarrow> (string \<times> json) list" where
  "erase_member k [] = []"
| "erase_member k ((k', v) # ms) = (if k = k' then ms else (k', v) # erase_member k ms)"

definition removeMember :: "json \<Rightarrow> string \<Rightarrow> (json \<times> json) res" where
  "removeMember v key =
     (case v of
        JNull \<Rightarrow> Inr (v, JNull)
      | JObject ms \<Rightarrow>
          (case map_of ms (c_str key) of
             None \<Rightarrow> Inr (v, JNull)
           | Some old \<Rightarrow> Inr (JObject (erase_member (c_str key) ms), old))
      | _ \<Rightarrow> Inl runtime_error)"

definition getMemberNames :: "json \<Rightarrow> string list res" where
  "getMemberNames v =
     (case v of
        JNull \<Rightarrow> Inr []
      | JObject ms \<Rightarrow> Inr (map fst ms)
      | _ \<Rightarrow> Inl runtime_error)"

section \<open>Paths\<close>

datatype PathArgument = kindNone | kindIndex nat | kindKey string

text \<open>
  \<open>addPathInArg\<close> takes the argument \<open>itInArg\<close> points to when it is of the kind asked for; the
  iterator never moves on.  The errors have empty bodies.
\<close>

fun same_kind :: "PathArgument \<Rightarrow> PathArgument \<Rightarrow> bool" where
  "same_kind kindNone kindNone = True"
| "same_kind (kindIndex _) (kindIndex _) = True"
| "same_kind (kindKey _) (kindKey _) = True"
| "same_kind _ _ = False"

definition addPathInArg :: "PathArgument list \<Rightarrow> PathArgument \<Rightarrow> PathArgument list \<Rightarrow> PathArgument list" where
  "addPathInArg ins kind args =
     (case ins of
        [] \<Rightarrow> args
      | a # _ \<Rightarrow> if same_kind a kind then args @ [a] else args)"

definition path_digit :: "nat \<Rightarrow> char \<Rightarrow> nat" where
  "path_digit index c = (index * 10 + (ord c - ord (CHR ''0''))) mod 2 ^ 32"

definition name_char :: "char \<Rightarrow> bool" where
  "name_char c \<longleftrightarrow> c \<noteq> CHR ''['' \<and> c \<noteq> CHR ''.'' \<and> c \<noteq> NUL"

text \<open>The text from \<open>current\<close> to \<open>end\<close>; a NUL stands behind it.  \<open>strchr\<close> finds a NUL too, so at one the loop stays.\<close>

definition end_index :: "string \<Rightarrow> string" where
  "end_index s = tl s"

function makePath :: "PathArgument list \<Rightarrow> string \<Rightarrow> PathArgument list \<Rightarrow> PathArgument list res" where
  "makePath ins s args =
     (case s of
        [] \<Rightarrow> Inr args
      | c # cs \<Rightarrow>
          if c = CHR ''['' then
            (if cs \<noteq> [] \<and> hd cs = CHR ''%'' then
               makePath ins (end_index cs) (addPathInArg ins (kindIndex 0) args)
             else
               makePath ins (end_index (dropWhile is_digit cs))
                 (args @ [kindIndex (foldl path_digit 0 (takeWhile is_digit cs))]))
          else if c = CHR ''%'' then makePath ins cs (addPathInArg ins (kindKey []) args)
          else if c = CHR ''.'' then makePath ins cs args
          else if c = NUL then Inl Diverges
          else makePath ins (dropWhile name_char s) (args @ [kindKey (takeWhile name_char s)]))"
  by pat_completeness auto

termination
  by (relation "measure (\<lambda>(ins, s, args). length s)")
    (auto simp: end_index_def name_char_def length_dropWhile_le less_Suc_eq_le
       intro: le_trans[OF diff_le_self] le_trans[OF length_dropWhile_le])

declare makePath.simps [simp del]

definition Path :: "string \<Rightarrow> PathArgument list \<Rightarrow> PathArgument list res" where
  "Path path ins = makePath ins path []"

text \<open>Without a default the walk goes on at \<open>Value::null\<close> and throws where a type does not fit.\<close>

definition node_or_null :: "json option \<Rightarrow> json" where
  "node_or_null r = (case r of None \<Rightarrow> JNull | Some v \<Rightarrow> v)"

fun path_resolve :: "PathArgument list \<Rightarrow> json \<Rightarrow> json res" where
  "path_resolve [] node = Inr node"
| "path_resolve (kindIndex i # args) node = bindR (const_index node i) (\<lambda>r. path_resolve args (node_or_null r))"
| "path_resolve (kindKey k # args) node = bindR (const_key node k) (\<lambda>r. path_resolve args (node_or_null r))"
| "path_resolve (kindNone # args) node = path_resolve args node"

fun path_resolve_default :: "PathArgument list \<Rightarrow> json \<Rightarrow> json \<Rightarrow> json res" where
  "path_resolve_default [] node d = Inr node"
| "path_resolve_default (kindIndex i # args) node d =
     (if \<not> isArray node \<or> \<not> isValidIndex node i then Inr d
      else bindR (const_index node i) (\<lambda>r. path_resolve_default args (node_or_null r) d))"
| "path_resolve_default (kindKey k # args) node d =
     (if \<not> isObject node then Inr d
      else bindR (const_key node k) (\<lambda>r.
        case r of None \<Rightarrow> Inr d | Some v \<Rightarrow> path_resolve_default args v d))"
| "path_resolve_default (kindNone # args) node d = path_resolve_default args node d"

section \<open>The order of values\<close>

text \<open>
  A value as a list of numbers in which the order of the values is the order of dictionaries: the
  number of the type, then what the comparison looks at, each part ending by itself.
\<close>

definition string_code :: "string \<Rightarrow> int list" where
  "string_code s = map (\<lambda>c. int (ord c) + 1) s @ [0]"

fun json_code :: "json \<Rightarrow> int list" where
  "json_code JNull = [0]"
| "json_code (JInt i) = [1, i]"
| "json_code (JUInt n) = [2, n]"
| "json_code (JReal r) = [3, double_scaled r]"
| "json_code (JString s) = 4 # string_code s"
| "json_code (JBool b) = [5, bool_int b]"
| "json_code (JArray vs) = 6 # int (length vs) # concat (map json_code vs)"
| "json_code (JObject ms) = 7 # int (length ms) # concat (map (\<lambda>m. string_code (fst m) @ json_code (snd m)) ms)"

text \<open>Without NaNs and with sizes an \<open>int\<close> can hold.\<close>

fun orderable :: "json \<Rightarrow> bool" where
  "orderable (JReal r) \<longleftrightarrow> \<not> is_nan r"
| "orderable (JArray vs) \<longleftrightarrow> length vs < 2 ^ 31 \<and> list_all orderable vs"
| "orderable (JObject ms) \<longleftrightarrow> length ms < 2 ^ 31 \<and> list_all (\<lambda>m. orderable (snd m)) ms"
| "orderable _ \<longleftrightarrow> True"

abbreviation values_code :: "json list \<Rightarrow> int list" where
  "values_code vs \<equiv> concat (map json_code vs)"

abbreviation members_code :: "(string \<times> json) list \<Rightarrow> int list" where
  "members_code ms \<equiv> concat (map (\<lambda>m. string_code (fst m) @ json_code (snd m)) ms)"

text \<open>\<open>ordered a b L\<close>: whatever follows, \<open>a\<close> is before \<open>b\<close> if \<open>L\<close>, and neither decides only if they are equal.\<close>

definition ordered :: "int list \<Rightarrow> int list \<Rightarrow> bool \<Rightarrow> bool" where
  "ordered a b L \<longleftrightarrow> (\<forall>xs ys. (a @ xs < b @ ys) = (L \<or> a = b \<and> xs < ys))"

lemma orderedD: "ordered a b L \<Longrightarrow> (a @ xs < b @ ys) = (L \<or> a = b \<and> xs < ys)"
  by (simp add: ordered_def)

lemma ordered_less: "ordered a b L \<Longrightarrow> (a < b) = L"
  using orderedD[of a b L "[]" "[]"] by simp

lemma ordered_both:
  assumes "ordered a b L" "ordered b a M"
  shows "L \<Longrightarrow> \<not> M" "(a = b) = (\<not> L \<and> \<not> M)"
  using ordered_less[OF assms(1)] ordered_less[OF assms(2)] by auto

lemma ordered_append_eq:
  assumes "ordered a b L" "ordered b a M"
  shows "(a @ xs = b @ ys) = (a = b \<and> xs = ys)"
proof
  assume e: "a @ xs = b @ ys"
  then have "\<not> L" "\<not> M" using orderedD[OF assms(1), of xs ys] orderedD[OF assms(2), of ys xs] by auto
  then show "a = b \<and> xs = ys" using e ordered_both(2)[OF assms] by simp
qed simp

lemma ordered_append:
  assumes "ordered a b L" "ordered b a M" "ordered c d N"
  shows "ordered (a @ c) (b @ d) (L \<or> \<not> M \<and> N)"
  unfolding ordered_def
  using ordered_both[OF assms(1,2)] ordered_append_eq[OF assms(1,2)] orderedD[OF assms(1)] orderedD[OF assms(3)]
  by auto

lemma less_append: "(a @ xs < a @ ys) = (xs < (ys :: int list))"
  by (induction a) auto

lemma ordered_refl: "ordered a a False"
  by (simp add: ordered_def less_append)

lemma ordered_number: "ordered [i] [j] (i < j)"
  by (auto simp: ordered_def)

lemma ordered_string: "ordered (string_code s) (string_code t) (byte_less s t)"
proof -
  have "(string_code s @ xs < string_code t @ ys) = (byte_less s t \<or> s = t \<and> xs < ys)" for xs ys
  proof (induction s t rule: byte_less.induct)
    case (1 s)
    then show ?case by (cases s) (auto simp: string_code_def)
  qed (auto simp: string_code_def)
  moreover have "string_code s = string_code t \<longleftrightarrow> s = t"
    by (auto simp: string_code_def dest!: map_injective intro!: injI)
  ultimately show ?thesis by (simp add: ordered_def)
qed

lemma size_delta:
  "n < 2 ^ 31 \<Longrightarrow> m < 2 ^ 31 \<Longrightarrow> to_int (int n - int m) = int n - int m"
  by (rule to_int_id) auto

lemma less_sized:
  "length vs < 2 ^ 31 \<Longrightarrow> length ws < 2 ^ 31 \<Longrightarrow> json_less (JArray vs) (JArray ws) =
     (if int (length vs) - int (length ws) \<noteq> 0 then int (length vs) - int (length ws) < 0 else values_less vs ws)"
  "length ms < 2 ^ 31 \<Longrightarrow> length ns < 2 ^ 31 \<Longrightarrow> json_less (JObject ms) (JObject ns) =
     (if int (length ms) - int (length ns) \<noteq> 0 then int (length ms) - int (length ns) < 0 else members_less ms ns)"
  using size_delta[of "length vs" "length ws"] size_delta[of "length ms" "length ns"]
  by (simp_all add: json_less.simps)

lemma ordered_sized:
  assumes "n = m \<Longrightarrow> ordered a b L"
  shows "ordered (k # int n # a) (k # int m # b) (if int n - int m \<noteq> 0 then int n - int m < 0 else L)"
  using assms by (auto simp: ordered_def)

lemma ordered_typed: "ordered a b L \<Longrightarrow> ordered (k # a) (k # b) L"
  by (auto simp: ordered_def)

lemma code_head: "\<exists>rest. json_code a = type_number (json_type a) # rest"
  by (cases a) auto

lemma ordered_types:
  assumes "type_number (json_type a) \<noteq> type_number (json_type b)"
  shows "ordered (json_code a) (json_code b) (type_number (json_type a) < type_number (json_type b))"
  using assms code_head[of a] code_head[of b] by (auto simp: ordered_def)

lemma ordered_scalar:
  assumes "json_type a = json_type b" "orderable a" "orderable b"
    "\<not> (json_type a = arrayValue \<or> json_type a = objectValue)"
  shows "ordered (json_code a) (json_code b) (json_less a b)"
proof -
  have "ordered [bool_int x] [bool_int y] (\<not> x \<and> y)" for x y
    using ordered_number[of "bool_int x" "bool_int y"] by (cases x; cases y) (simp_all add: bool_int_def)
  then show ?thesis using assms
    by (cases a; cases b)
      (simp_all add: json_less.simps double_less_def ordered_refl ordered_typed ordered_number ordered_string)
qed

lemma ordered_code:
  "orderable a \<Longrightarrow> orderable b \<Longrightarrow> ordered (json_code a) (json_code b) (json_less a b)"
  "list_all orderable vs \<Longrightarrow> list_all orderable ws \<Longrightarrow> length vs = length ws \<Longrightarrow>
     ordered (values_code vs) (values_code ws) (values_less vs ws)"
  "list_all (\<lambda>m. orderable (snd m)) ms \<Longrightarrow> list_all (\<lambda>m. orderable (snd m)) ns \<Longrightarrow> length ms = length ns \<Longrightarrow>
     ordered (members_code ms) (members_code ns) (members_less ms ns)"
proof (induction a b and vs ws and ms ns rule: json_less_values_less_members_less.induct)
  case (1 a b)
  show ?case
  proof (cases "json_type a = json_type b")
    case False
    then have "type_number (json_type a) \<noteq> type_number (json_type b)"
      by (cases "json_type a"; cases "json_type b") auto
    then show ?thesis using ordered_types[of a b] by (simp add: json_less.simps[of a b])
  next
    case True
    show ?thesis
    proof (cases "json_type a = arrayValue \<or> json_type a = objectValue")
      case False
      then show ?thesis using ordered_scalar True 1 by blast
    next
      case container: True
      then consider vs ws where "a = JArray vs" "b = JArray ws" | ms ns where "a = JObject ms" "b = JObject ns"
        using True by (cases a; cases b) auto
      then show ?thesis
      proof cases
        case (1 vs ws)
        then show ?thesis using "1.IH"(1) "1.prems" ordered_sized[of "length vs" "length ws"] less_sized(1)[of vs ws] by simp
      next
        case (2 ms ns)
        then show ?thesis using "1.IH"(2) "1.prems" ordered_sized[of "length ms" "length ns"] less_sized(2)[of ms ns] by simp
      qed
    qed
  qed
next
  case (2 vs)
  then show ?case by (simp add: ordered_refl)
next
  case (4 v vs w ws)
  then show ?case using ordered_append[of "json_code v" "json_code w"] by simp
next
  case (5 ms)
  then show ?case by (simp add: ordered_refl)
next
  case (7 k v ms l w ns)
  have "ordered (json_code v) (json_code w) (json_less v w)" "ordered (json_code w) (json_code v) (json_less w v)"
    "ordered (members_code ms) (members_code ns) (members_less ms ns)"
    using 7 byte_less_irrefl by auto
  then have "ordered (members_code ((k, v) # ms)) (members_code ((l, w) # ns)) 
    ((byte_less k l \<or> \<not> byte_less l k \<and> json_less v w) \<or> \<not> (byte_less l k \<or> \<not> byte_less k l \<and> json_less w v) \<and> members_less ms ns)"
    using ordered_append[OF ordered_append[OF ordered_string ordered_string] ordered_append[OF ordered_string ordered_string]]
    by simp
  then show ?case by simp
qed auto

lemma string_code_inject: "string_code s = string_code t \<longleftrightarrow> s = t"
  using ordered_both(2)[OF ordered_string ordered_string, of s t] byte_less_total byte_less_irrefl by blast

lemma code_append:
  assumes "orderable a" "orderable b"
  shows "(json_code a @ xs = json_code b @ ys) = (json_code a = json_code b \<and> xs = ys)"
  using ordered_append_eq[OF ordered_code(1) ordered_code(1)] assms by blast

lemma member_append:
  "(string_code k @ xs = string_code l @ ys) = (k = l \<and> xs = ys)"
  using ordered_append_eq[OF ordered_string[of k l] ordered_string[of l k], of xs ys] string_code_inject by blast

lemma equal_code:
  "orderable a \<Longrightarrow> orderable b \<Longrightarrow> json_equal a b = (json_code a = json_code b)"
  "list_all orderable vs \<Longrightarrow> list_all orderable ws \<Longrightarrow> length vs = length ws \<Longrightarrow>
     values_equal vs ws = (values_code vs = values_code ws)"
  "list_all (\<lambda>m. orderable (snd m)) ms \<Longrightarrow> list_all (\<lambda>m. orderable (snd m)) ns \<Longrightarrow> length ms = length ns \<Longrightarrow>
     members_equal ms ns = (members_code ms = members_code ns)"
proof (induction a b and vs ws and ms ns rule: json_equal_values_equal_members_equal.induct)
  case (1 a b)
  then show ?case
    by (cases a; cases b) (auto simp: json_equal.simps double_equal_def bool_int_def string_code_inject)
qed (simp_all add: code_append member_append)

lemma less_code: "orderable a \<Longrightarrow> orderable b \<Longrightarrow> json_less a b = (json_code a < json_code b)"
  using ordered_less[OF ordered_code(1)] by blast

lemma compare_code:
  assumes "orderable a" "orderable b"
  shows "json_compare a b = (if json_code a < json_code b then - 1 else if json_code b < json_code a then 1 else 0)"
  using assms by (simp add: less_code json_compare_def json_greater_def)

section \<open>Conversions\<close>

definition no_throw :: "'a res \<Rightarrow> bool" where
  "no_throw r \<longleftrightarrow> r \<noteq> Inl runtime_error"

lemma truncated:
  assumes "InRange r low high"
  shows "low \<le> 0 \<Longrightarrow> 0 \<le> high \<Longrightarrow> low \<le> truncate_double r \<and> truncate_double r \<le> high"
proof -
  define u where "u = double_unit"
  have u: "0 < u" by (simp add: u_def double_unit_pos)
  have b: "low * u \<le> double_scaled r" "double_scaled r \<le> high * u" using assms by (simp_all add: InRange_def u_def)
  assume "low \<le> 0" "0 \<le> high"
  have t: "truncate_double r = sgn (double_scaled r) * (\<bar>double_scaled r\<bar> div u)" by (simp add: truncate_double_def u_def)
  show ?thesis
  proof (cases "0 \<le> double_scaled r")
    case True
    then have "truncate_double r = double_scaled r div u" using t by (cases "double_scaled r = 0") auto
    moreover have "double_scaled r div u \<le> high * u div u" using b u by (intro zdiv_mono1) auto
    ultimately show ?thesis using True u \<open>low \<le> 0\<close> pos_imp_zdiv_nonneg_iff[of u "double_scaled r"] by auto
  next
    case False
    then have "truncate_double r = - (- double_scaled r div u)" using t by simp
    moreover have "- double_scaled r div u \<le> (- low) * u div u" using b u by (intro zdiv_mono1) auto
    moreover have "0 \<le> - double_scaled r div u" using False u pos_imp_zdiv_nonneg_iff[of u "- double_scaled r"] by auto
    moreover have "(- low) * u div u = - low" using u by (intro nonzero_mult_div_cancel_right) simp
    ultimately show ?thesis using \<open>0 \<le> high\<close> by linarith
  qed
qed

definition with_conversion :: "double_ops \<Rightarrow> double_ops" where
  "with_conversion d = d\<lparr>double_to_int := double_to_int32\<rparr>"

lemma no_throw_simps [simp]:
  "no_throw (Inr x)" "no_throw (Inl e) \<longleftrightarrow> e \<noteq> runtime_error"
  by (simp_all add: no_throw_def)

lemmas test_defs = isInt_def isUInt_def isInt64_def isUInt64_def

lemma numeric: "isNumeric v \<longleftrightarrow> json_type v \<in> {intValue, uintValue, realValue}"
  by (cases v) (auto simp: isNumeric_def isDouble_def isIntegral_def isInt64_def isUInt64_def)

text \<open>What a number stands for, in units of the smallest double.\<close>

fun json_number :: "json \<Rightarrow> int option" where
  "json_number (JInt i) = Some (i * double_unit)"
| "json_number (JUInt n) = Some (n * double_unit)"
| "json_number (JReal r) = Some (double_scaled r)"
| "json_number _ = None"

definition exact :: "json \<Rightarrow> int res \<Rightarrow> bool" where
  "exact v r \<longleftrightarrow> (\<exists>i. r = Inr i \<and> json_number v = Some (i * double_unit))"

lemma exact_simps [simp]: "exact v (Inl e) = False" "exact v (Inr i) \<longleftrightarrow> json_number v = Some (i * double_unit)"
  by (auto simp: exact_def)

lemma truncate_multiple: "double_scaled r = i * double_unit \<Longrightarrow> truncate_double r = i"
  using double_unit_pos by (simp add: truncate_double_def abs_mult sgn_mult sgn_mult_abs)

lemma integral_truncated: "IsIntegral r \<Longrightarrow> double_scaled r = truncate_double r * double_unit"
  using truncate_multiple[of r] by (auto simp: IsIntegral_def dvd_def mult.commute[of double_unit])

lemma below_truncated:
  assumes "InRange r low high" "below r high" "IsIntegral r"
  shows "low \<le> truncate_double r \<and> truncate_double r \<le> high - 1"
proof -
  have "low * double_unit \<le> truncate_double r * double_unit" "truncate_double r * double_unit < high * double_unit"
    using assms integral_truncated[of r] by (simp_all add: InRange_def below_def)
  then show ?thesis using double_unit_pos by (simp add: mult_le_cancel_right mult_less_cancel_right)
qed

lemma convertible:
  "isConvertibleTo v intValue = no_throw (asInt (with_conversion d) v)"
  "isConvertibleTo v uintValue = no_throw (asUInt v)"
  "isConvertibleTo v realValue = no_throw (asDouble v)"
  "isConvertibleTo v booleanValue = no_throw (asBool v)"
  "isConvertibleTo v stringValue = no_throw (asString d v)"
  by (cases v; simp add: asInt_def asUInt_def asDouble_def asBool_def asString_def numeric isInt_def isUInt_def
      in_range_def with_conversion_def double_to_int32_def)+

lemma conversion_ranges:
  "asInt (with_conversion d) v = Inr i \<Longrightarrow> json_ok v \<or> json_type v = realValue \<Longrightarrow> - (2 ^ 31) \<le> i \<and> i < 2 ^ 31"
  "asUInt v = Inr i \<Longrightarrow> json_ok v \<or> json_type v = realValue \<Longrightarrow> 0 \<le> i \<and> i < 2 ^ 32"
  using truncated[of _ "- (2 ^ 31)" "2 ^ 31 - 1"] truncated[of _ 0 "2 ^ 32 - 1"]
  by (cases v; force simp: asInt_def asUInt_def isUInt_def bool_int_def with_conversion_def double_to_int32_def
      split: if_splits)+

lemma tested_exact:
  "isInt v \<Longrightarrow> exact v (asInt (with_conversion d) v)"
  "isUInt v \<Longrightarrow> exact v (asUInt v)"
  by (cases v; simp add: test_defs asInt_def asUInt_def with_conversion_def double_to_int32_def integral_truncated)+

lemma converted_exact:
  assumes "InRange r low high" "below r high" "IsIntegral r"
  shows "converted low (high - 1) (truncate_double r) = Inr (truncate_double r)"
  using below_truncated[OF assms] by (simp add: converted_def)

lemma tested_exact64:
  "isInt64 v \<Longrightarrow> exact v (asInt64 v)"
  "isUInt64 v \<Longrightarrow> exact v (asUInt64 v)"
proof -
  assume a: "isInt64 v"
  show "exact v (asInt64 v)"
  proof (cases v)
    case (JReal r)
    then have r: "InRange r (- (2 ^ 63)) (2 ^ 63)" "below r (2 ^ 63)" "IsIntegral r" using a by (simp_all add: isInt64_def)
    show ?thesis using r(1) converted_exact[OF r] integral_truncated[OF r(3)] by (simp add: JReal asInt64_def)
  qed (use a in \<open>simp_all add: asInt64_def isInt64_def\<close>)
next
  assume a: "isUInt64 v"
  show "exact v (asUInt64 v)"
  proof (cases v)
    case (JReal r)
    then have r: "InRange r 0 (2 ^ 64)" "below r (2 ^ 64)" "IsIntegral r" using a by (simp_all add: isUInt64_def)
    show ?thesis using r(1) converted_exact[OF r] integral_truncated[OF r(3)] by (simp add: JReal asUInt64_def)
  qed (use a in \<open>simp_all add: asUInt64_def isUInt64_def\<close>)
qed

text \<open>
  The limit that rounding lets through: for \<open>2^63\<close> and \<open>2^64\<close> the tests answer no, and the conversions
  do not throw.
\<close>

lemma limit_doubles:
  "\<not> is_nan 0x43E0000000000000" "double_scaled 0x43E0000000000000 = 2 ^ 63 * double_unit"
  "\<not> is_nan 0x43F0000000000000" "double_scaled 0x43F0000000000000 = 2 ^ 64 * double_unit"
proof -
  have e: "double_exponent 0x43E0000000000000 = 1086" "double_fraction 0x43E0000000000000 = 0"
    "double_exponent 0x43F0000000000000 = 1087" "double_fraction 0x43F0000000000000 = 0"
    by (simp_all add: double_exponent_def double_fraction_def)
  then show "\<not> is_nan 0x43E0000000000000" "\<not> is_nan 0x43F0000000000000" by (simp_all add: is_nan_def)
  have "double_magnitude 0x43E0000000000000 = 2 ^ 52 * 2 ^ 1085" "double_magnitude 0x43F0000000000000 = 2 ^ 52 * 2 ^ 1086"
    using e by (simp_all add: double_magnitude_def)
  then show "double_scaled 0x43E0000000000000 = 2 ^ 63 * double_unit" "double_scaled 0x43F0000000000000 = 2 ^ 64 * double_unit"
    by (simp_all add: double_scaled_def double_unit_def)
qed

lemma limits_pass:
  "\<not> isInt64 (JReal 0x43E0000000000000)" "asInt64 (JReal 0x43E0000000000000) = Inl OutOfBounds"
  "\<not> isUInt64 (JReal 0x43F0000000000000)" "asUInt64 (JReal 0x43F0000000000000) = Inl OutOfBounds"
proof -
  note l = limit_doubles truncate_multiple[OF limit_doubles(2)] truncate_multiple[OF limit_doubles(4)]
  show "\<not> isInt64 (JReal 0x43E0000000000000)" "\<not> isUInt64 (JReal 0x43F0000000000000)"
    by (simp_all add: test_defs below_def l(2,4) del: mult_less_cancel_right)
  have "InRange 0x43E0000000000000 (- (2 ^ 63)) (2 ^ 63)" "InRange 0x43F0000000000000 0 (2 ^ 64)"
    using double_unit_pos by (simp_all add: InRange_def l)
  then show "asInt64 (JReal 0x43E0000000000000) = Inl OutOfBounds" "asUInt64 (JReal 0x43F0000000000000) = Inl OutOfBounds"
    by (simp_all add: asInt64_def asUInt64_def converted_def l)
qed

section \<open>Members and paths\<close>

lemma erase_gone: "distinct (map fst ms) \<Longrightarrow> map_of (erase_member k ms) k = None"
  by (induction k ms rule: erase_member.induct) (auto simp: map_of_eq_None_iff)

lemma erase_other: "k' \<noteq> k \<Longrightarrow> map_of (erase_member k ms) k' = map_of ms k'"
  by (induction k ms rule: erase_member.induct) auto

lemma erase_keys: "set (erase_member k ms) \<subseteq> set ms"
  by (induction k ms rule: erase_member.induct) auto

lemma erase_sorted: "sorted_wrt R (map fst ms) \<Longrightarrow> sorted_wrt R (map fst (erase_member k ms))"
  using erase_keys by (induction k ms rule: erase_member.induct) fastforce+

lemma erase_absent: "map_of ms k = None \<Longrightarrow> erase_member k ms = ms"
  by (induction k ms rule: erase_member.induct) (auto split: if_splits)

lemma sorted_distinct_keys: "sorted_wrt byte_less ks \<Longrightarrow> distinct ks"
  using byte_less_irrefl by (induction ks) auto

lemma removeMember_ok:
  assumes "json_ok (JObject ms)"
  shows "\<exists>ms' old. removeMember (JObject ms) k = Inr (JObject ms', old) \<and> json_ok (JObject ms') \<and>
     old = find_member (c_str k) ms \<and> map_of ms' = (map_of ms)(c_str k := None)"
proof -
  have d: "distinct (map fst ms)" using assms sorted_distinct_keys by simp
  have o: "json_ok (JObject (erase_member (c_str k) ms))"
    using assms erase_sorted erase_keys[of "c_str k" ms] by (auto simp: list_all_iff)
  have m: "map_of (erase_member (c_str k) ms) = (map_of ms)(c_str k := None)"
    using erase_gone[OF d] erase_other by (auto simp: fun_eq_iff)
  show ?thesis
    using o m erase_absent[of ms "c_str k"]
    by (cases "map_of ms (c_str k)") (auto simp: removeMember_def find_member_def)
qed

text \<open>The text of a path, which its constructor reads back.\<close>

fun argument_text :: "PathArgument \<Rightarrow> string" where
  "argument_text (kindIndex n) = CHR ''['' # dec n @ '']''"
| "argument_text (kindKey k) = CHR ''.'' # k"
| "argument_text kindNone = []"

fun readable :: "PathArgument \<Rightarrow> bool" where
  "readable (kindIndex n) \<longleftrightarrow> n < 2 ^ 32"
| "readable (kindKey k) \<longleftrightarrow> k \<noteq> [] \<and> hd k \<noteq> CHR ''%'' \<and> list_all name_char k"
| "readable kindNone \<longleftrightarrow> False"

lemma path_digits:
  "list_all is_digit ds \<Longrightarrow> dec_val ds < 2 ^ 32 \<Longrightarrow> foldl path_digit 0 ds = dec_val ds"
proof (induction ds rule: rev_induct)
  case (snoc c ds)
  then show ?case by (simp add: path_digit_def dec_val_snoc)
qed (simp add: dec_val_def)

lemma text_starts: "list_all readable args \<Longrightarrow> concat (map argument_text args) = c # cs \<Longrightarrow> \<not> name_char c"
proof (cases args)
  case (Cons a as)
  assume "list_all readable args" "concat (map argument_text args) = c # cs"
  with Cons show ?thesis by (cases a) (auto simp: name_char_def)
qed simp

lemma name_scanned:
  assumes "list_all name_char k" "\<And>c cs. rest = c # cs \<Longrightarrow> \<not> name_char c"
  shows "takeWhile name_char (k @ rest) = k" "dropWhile name_char (k @ rest) = rest"
proof -
  have "takeWhile name_char rest = []" "dropWhile name_char rest = rest"
    using assms(2) by (cases rest; auto)+
  then show "takeWhile name_char (k @ rest) = k" "dropWhile name_char (k @ rest) = rest"
    using assms(1) by (simp_all add: takeWhile_append2 dropWhile_append2 list_all_iff)
qed

lemma index_scanned:
  "takeWhile is_digit (dec n @ CHR '']'' # rest) = dec n" "dropWhile is_digit (dec n @ CHR '']'' # rest) = CHR '']'' # rest"
  using dec_digits by (simp_all add: takeWhile_append2 dropWhile_append2 is_digit_def)

lemma read_index:
  "n < 2 ^ 32 \<Longrightarrow> makePath ins (CHR ''['' # dec n @ CHR '']'' # rest) args = makePath ins rest (args @ [kindIndex n])"
proof -
  assume n: "n < 2 ^ 32"
  have "hd (dec n) \<noteq> CHR ''%''" using dec_digits[of n] hd_in_set[OF dec_not_Nil, of n] by (force simp: is_digit_def)
  then have "hd (dec n @ CHR '']'' # rest) \<noteq> CHR ''%''" by simp
  then show ?thesis using n path_digits[of "dec n"] dec_digits[of n]
    by (subst makePath.simps) (simp add: index_scanned end_index_def list_all_iff)
qed

lemma read_key:
  assumes "readable (kindKey k)" "\<And>c cs. rest = c # cs \<Longrightarrow> \<not> name_char c"
  shows "makePath ins (CHR ''.'' # k @ rest) args = makePath ins rest (args @ [kindKey k])"
proof -
  obtain c cs where k: "k = c # cs" using assms(1) by (cases k) auto
  have "makePath ins (CHR ''.'' # k @ rest) args = makePath ins (k @ rest) args" by (subst makePath.simps) simp
  also have "\<dots> = makePath ins rest (args @ [kindKey k])"
    using assms(1) name_scanned[of k rest] assms(2) k
    by (subst makePath.simps) (simp add: name_char_def)
  finally show ?thesis .
qed

lemma path_reads_text: "list_all readable args \<Longrightarrow> makePath ins (concat (map argument_text args)) acc = Inr (acc @ args)"
proof (induction args arbitrary: acc)
  case Nil
  then show ?case by (simp add: makePath.simps)
next
  case (Cons a args)
  then show ?case using text_starts[of args]
    by (cases a) (simp_all add: read_index read_key del: readable.simps(2))
qed

text \<open>What was assigned to a member is found again.\<close>

lemma put_found: "map_of (put_member k x ms) k = Some x"
  by (induction ms) (auto simp: put_member_def)

lemma path_set_get:
  assumes "assign_member v k x = Inr v'"
  shows "get_member v' k d = Inr x" "path_resolve_default (kindKey k # args) v' d = path_resolve_default args x d"
proof -
  obtain ms where m: "v' = JObject ms" "map_of ms (c_str k) = Some x"
    using assms put_found by (cases v) (auto simp: assign_member_object assign_member_null,
        simp_all add: assign_member_def resolveReference_def)
  then show "get_member v' k d = Inr x" "path_resolve_default (kindKey k # args) v' d = path_resolve_default args x d"
    by (simp_all add: get_member_def const_key_def isObject_def)
qed

lemma null_stops_name: "makePath ins [NUL] args = Inl Diverges"
  by (simp add: makePath.simps)

lemma index_argument_lost: "Path ''[%]'' [kindIndex 3] = Inr [kindIndex 3, kindKey '']'']"
  by code_simp

section \<open>Properties\<close>

text \<open>C26: The order of values is total: \<open>compare\<close> is antisymmetric and transitive, gives 0 exactly for
  equal values, and agrees with the operators, for values without NaNs and with sizes below \<open>2^31\<close>.\<close>

theorem json_order_total:
  assumes "orderable a" "orderable b" "orderable c"
  shows "json_compare a b = - json_compare b a \<and>
     (json_compare a b = 0 \<longleftrightarrow> json_equal a b) \<and>
     (json_compare a b < 0 \<longleftrightarrow> json_less a b) \<and>
     (json_compare a b \<le> 0 \<longleftrightarrow> json_less_equal a b) \<and>
     (json_compare a b \<le> 0 \<and> json_compare b c \<le> 0 \<longrightarrow> json_compare a c \<le> 0)"
proof -
  have "json_less a b = (json_code a < json_code b)" "json_less b a = (json_code b < json_code a)"
    using assms by (simp_all add: less_code)
  then show ?thesis using assms by (auto simp: json_less_equal_def compare_code equal_code(1))
qed

theorem json_order_total_witness:
  "json_compare (JArray [JInt 9]) (JArray [JInt 1, JNull]) \<le> 0 \<and>
   json_compare (JArray [JInt 9]) (JObject [(''a'', JReal 0)]) \<le> 0 \<and>
   json_compare (JArray [JInt 1, JNull]) (JArray [JInt 9]) = 1"
proof -
  have o: "orderable (JArray [JInt 9])" "orderable (JArray [JInt 1, JNull])" "orderable (JObject [(''a'', JReal 0)])"
    by (simp_all add: is_nan_def double_fraction_def)
  have c: "json_compare (JArray [JInt 9]) (JArray [JInt 1, JNull]) = - 1"
    "json_compare (JArray [JInt 1, JNull]) (JObject [(''a'', JReal 0)]) = - 1"
    by (simp_all add: json_compare_def json_less.simps)
  show ?thesis using json_order_total[OF o] c by simp
qed

text \<open>C32: \<open>isConvertibleTo\<close> says yes exactly where the conversion to \<open>int\<close>, \<open>unsigned\<close>, \<open>double\<close>,
  \<open>bool\<close> or text does not throw; a value that passes one of the four integer tests is converted without
  loss, also to 64 bits.\<close>

theorem conversions_checked:
  "(isConvertibleTo v intValue \<longleftrightarrow> no_throw (asInt (with_conversion d) v)) \<and>
   (isConvertibleTo v uintValue \<longleftrightarrow> no_throw (asUInt v)) \<and>
   (isConvertibleTo v realValue \<longleftrightarrow> no_throw (asDouble v)) \<and>
   (isConvertibleTo v booleanValue \<longleftrightarrow> no_throw (asBool v)) \<and>
   (isConvertibleTo v stringValue \<longleftrightarrow> no_throw (asString d v)) \<and>
   (isInt v \<longrightarrow> exact v (asInt (with_conversion d) v)) \<and> (isUInt v \<longrightarrow> exact v (asUInt v)) \<and>
   (isInt64 v \<longrightarrow> exact v (asInt64 v)) \<and> (isUInt64 v \<longrightarrow> exact v (asUInt64 v))"
  using convertible tested_exact tested_exact64 by blast

text \<open>The double 42 passes every test.\<close>

lemma double_42: "\<not> is_nan 0x4045000000000000" "double_scaled 0x4045000000000000 = 42 * double_unit"
proof -
  have e: "double_exponent 0x4045000000000000 = 1028" "double_fraction 0x4045000000000000 = 1407374883553280"
    by (simp_all add: double_exponent_def double_fraction_def)
  then show "\<not> is_nan 0x4045000000000000" by (simp add: is_nan_def)
  have "double_magnitude 0x4045000000000000 = 42 * 2 ^ 1074" using e by (simp add: double_magnitude_def)
  then show "double_scaled 0x4045000000000000 = 42 * double_unit" by (simp add: double_scaled_def double_unit_def)
qed

theorem conversions_checked_witness:
  "exact (JReal 0x4045000000000000) (asInt (with_conversion no_doubles) (JReal 0x4045000000000000)) \<and>
   exact (JReal 0x4045000000000000) (asUInt64 (JReal 0x4045000000000000))"
proof -
  have t: "isInt (JReal 0x4045000000000000)" "isUInt64 (JReal 0x4045000000000000)"
    using double_unit_pos by (simp_all add: test_defs InRange_def below_def IsIntegral_def double_42)
  show ?thesis using conversions_checked[of "JReal 0x4045000000000000" no_doubles] t by blast
qed

end
