(* ===== verification/Spec2Isabelle.thy ===== *)
theory Spec2Isabelle
  imports Prelude Sds SdsOps SdsText Dict Async Reader Reply Command Context TextUtil Pdu
    Json JsonText Service Cache Account Files Shares Upload Server Discipline Outcomes
    Pool HttpParser HttpSafety HttpWrapper HttpRequest Requests Config Startup ThreadPool AsyncClient JsonValue
begin

text \<open>
  A verification development for tc-muzi, the back end of a file-sharing web service: C and C++
  code that serves an HTTP API over a MySQL database, a Redis cache and a file store.

  \<^bold>\<open>The program.\<close>  \<open>main\<close> (src/main.cc) reads the configuration, sets up the upload module, the pools of cache and
  database connections and the cached page views, and starts the event loop.  The loop hands the bytes of a connection to
  \<open>HttpHandler::OnRead\<close> (src/tc_server.cc), which parses one HTTP request (src/base/http_parser.cc through
  src/base/http_parser_wrapper.cc) and calls the handler of its URL (src/api).  A handler decodes a JSON body (src/jsoncpp),
  borrows a connection of a pool (src/mysql/db_pool.cc, src/redis/cache_pool.cc), builds statements and cache commands from
  the fields, and prints a JSON answer.  The cache is reached through the Redis client (src/redis: dynamic strings, hash
  table, reply parser, contexts, asynchronous contexts).

  \<^bold>\<open>Conventions.\<close>  \<open>Prelude\<close> has the shared vocabulary: a C function is a HOL function that returns \<open>'a res\<close>, either
  \<open>Inr\<close> its result or \<open>Inl\<close> a fault (a failed assertion, an access outside a block, a NULL pointer, an exception, a use
  after free, a loop that never ends).  A block of memory is a list of characters of its size, a C string is one with a NUL.
  \<open>malloc\<close> is a parameter that may refuse; it is \<open>total_allocator\<close> where a result is claimed, and \<open>OutOfMemory\<close> is the only
  fault where it is not.  Machine integers are words, or \<open>int\<close> and \<open>nat\<close> with \<open>to_int\<close>, \<open>to_llong\<close>, \<open>size_t\<close> and \<open>usub\<close> where the
  C code converts or wraps.

  \<^bold>\<open>The Redis client\<close> (src/redis).

  \<^item> \<open>Sds\<close>, \<open>SdsOps\<close>, \<open>SdsText\<close>: the dynamic strings of sds.c with their five header types, growing, slicing, splitting and
    formatting.  Every operation keeps \<open>wf_sds\<close> and does to \<open>sds_str\<close> what its contract says.
  \<^item> \<open>Dict\<close>: the hash table of dict.c.  The locale \<open>dict_callbacks\<close> states what a dictionary type must promise, \<open>keyed_map\<close> what a
    client may rely on; \<open>Async\<close> interprets both for \<open>callbackDict\<close>, the registry of subscriptions of async.c.
  \<^item> \<open>Reader\<close>, \<open>Reply\<close>: the incremental parser of read.c against the grammar \<open>resp\<close> of the protocol, and the reply objects of
    hiredis.c.  The locale \<open>reply_builder\<close> is the interface between them, interpreted on \<open>defaultFunctions\<close>.
  \<^item> \<open>Command\<close>, \<open>Context\<close>: formatting commands, and a blocking connection over a scripted socket (hiredis.c).
  \<^item> \<open>AsyncClient\<close>: the rest of async.c, commands with callbacks, subscriptions, event handlers, the end of a connection.

  \<^bold>\<open>Text and packets\<close> (src/base/util.cc, tc_common.cc, util_pdu.cc).  \<open>TextUtil\<close>: query strings, URL encoding, statement
  placeholders, splitting, identifiers.  \<open>Pdu\<close>: \<open>CSimpleBuffer\<close> as an instance of the locale \<open>byte_queue\<close>, the packet streams
  and the short URLs.

  \<^bold>\<open>JSON\<close> (src/jsoncpp).  \<open>Json\<close>: values, the reader, \<open>FastWriter\<close> and \<open>StyledWriter\<close>.  \<open>JsonText\<close>: whatever a writer prints is read
  back.  \<open>JsonValue\<close>: the order of values (total, by a coding into lists of numbers), tests, conversions with the doubles given
  by their bits, removal of members, and the paths of class \<open>Path\<close>.

  \<^bold>\<open>The handlers\<close> (src/api, src/mysql, src/redis/cache_pool.cc, src/tc_server.cc).  \<open>Service\<close> is the world they run in: an action
  adds \<open>event\<close>s to a history, and everything outside (the database, the cache server, the clock, the file store) is a function
  of that history in the record \<open>env\<close>.  \<open>Cache\<close>: \<open>CacheConn\<close>.  \<open>Account\<close>: api_login.cc, api_register.cc, api_common.cc.
  \<open>Files\<close>: api_md5.cc, api_myfiles.cc, api_dealfile.cc.  \<open>Shares\<close>: api_sharefiles.cc, api_deal_sharefile.cc,
  api_sharepicture.cc.  \<open>Upload\<close>: api_upload.cc.  \<open>Server\<close>: routing and replies.  \<open>Discipline\<close> runs an automaton over the
  history of any request (locks, connections, transactions), \<open>Outcomes\<close> inverts runs to say what an answer means.

  \<^bold>\<open>Pools of connections and threads.\<close>  \<open>Pool\<close>: \<open>CDBPool\<close> and \<open>CachePool\<close> as instances of the locale \<open>conn_pool\<close>, a step relation
  over the threads that hold, want or wait for a connection.  \<open>ThreadPool\<close>: src/base/tc_thread_pool.cc, workers, callers and
  owner interleaved in any order, one step for each critical section.

  \<^bold>\<open>HTTP\<close> (src/base).  \<open>HttpParser\<close>: the state machine of http_parser.cc, one function per group of states, and
  \<open>http_parser_parse_url\<close>.  \<open>HttpSafety\<close>: its invariant and that it returns on any bytes in any pieces.  \<open>HttpWrapper\<close>: the
  callbacks that collect URL, headers and body.  \<open>HttpRequest\<close>: a well-formed POST request is read back.  \<open>Requests\<close>: the
  composition, from the bytes of a request to the run of its handler.

  \<^bold>\<open>Start.\<close>  \<open>Config\<close>: config_file_reader.cc and the managers of the pools (locale \<open>instance_list\<close>, interpreted for both).
  \<open>Startup\<close>: \<open>main\<close> up to the event loop.

  \<^bold>\<open>Bounds and termination.\<close>  Recursions that are not structural have measures; the loops that run code of a client
  (\<open>process_loop\<close>, \<open>process_callbacks\<close>) are partial functions to an option, and that they return is proved.  The fuel of
  the JSON reader is the length of the text, the stack of \<open>free_reply\<close> the number of objects; both are proved to suffice.
  Strings of the client stay below \<open>2 ^ 31\<close> bytes where the code keeps a length in an \<open>int\<close>.  A request has at most 4096 bytes
  (\<open>OnRead\<close>), the headers 80 KB and a content length 64 bits (http_parser.h).  The schedules of the thread pool are bounded by
  \<open>effort\<close>.

  \<^bold>\<open>Not modelled.\<close>  Code outside src/ is a parameter: the MySQL client library and the two servers, the network library muzi,
  the file store's client, the conversions between doubles and texts, and the application and event library of an
  asynchronous context.  The socket calls of src/redis/net.c are a parameter too (system calls and their flags).  Left out
  as pure output or glue: log lines, the self test of sds.c, the test scripts.  Left out as generated or vendored: the stubs
  of the short URL service, src/upload_scripts/httplib.h and the example clients on it, the alternative containers of
  jsoncpp that the build does not select.  Of jsoncpp also comments, iterators, arrays with holes (and
  \<open>resize\<close> and \<open>Path::make\<close>, which make them), the conversion to \<open>float\<close> and the stream writer, which the service does
  not use.
\<close>

end
